(* ===== verification/Nift_Prelude.thy ===== *)
theory Nift_Prelude
  imports Main "HOL-Library.Char_ord"
begin

text \<open>
  Shared vocabulary of the development.  A \<open>std::string\<close> or \<open>std::string_view\<close> is a HOL
  \<open>string\<close> (a list of 8-bit \<open>char\<close>s, the bytes of the C++ string); \<open>std::string::npos\<close> is
  \<open>None\<close>.  The theory holds the \<open>find\<close>/\<open>substr\<close> family of the standard library with the
  laws the component proofs use, the \<open><cctype>\<close> classes of the "C" locale, and the interface
  \<open>scan_loop\<close>: what every hand-written cursor loop
  \<open>while (!is_at_end() && P(peek())) advance();\<close> of the code base guarantees.
\<close>

named_theorems str_simps \<open>laws of the string operations of the C++ standard library\<close>

section \<open>Bytes and the C locale\<close>

definition byte :: "char \<Rightarrow> nat" where
  "byte c = of_char c"

definition NUL :: char where "NUL = CHR 0x00"
definition NL :: char where "NL = CHR 0x0A"

definition isdigit :: "char \<Rightarrow> bool" where
  "isdigit c \<longleftrightarrow> 48 \<le> byte c \<and> byte c \<le> 57"

definition isupper :: "char \<Rightarrow> bool" where
  "isupper c \<longleftrightarrow> 65 \<le> byte c \<and> byte c \<le> 90"

definition islower :: "char \<Rightarrow> bool" where
  "islower c \<longleftrightarrow> 97 \<le> byte c \<and> byte c \<le> 122"

definition isalpha :: "char \<Rightarrow> bool" where
  "isalpha c \<longleftrightarrow> isupper c \<or> islower c"

definition isalnum :: "char \<Rightarrow> bool" where
  "isalnum c \<longleftrightarrow> isalpha c \<or> isdigit c"

definition isspace :: "char \<Rightarrow> bool" where
  "isspace c \<longleftrightarrow> byte c = 32 \<or> (9 \<le> byte c \<and> byte c \<le> 13)"

definition tolower :: "char \<Rightarrow> char" where
  "tolower c = (if isupper c then char_of (byte c + 32) else c)"

lemmas ctype_defs = isdigit_def isupper_def islower_def isalpha_def isalnum_def isspace_def byte_def

section \<open>Searching and slicing\<close>

text \<open>The index of the first element with \<open>P\<close>: the loop inside every \<open>find\<close> function.\<close>

fun find_idx :: "('a \<Rightarrow> bool) \<Rightarrow> 'a list \<Rightarrow> nat option" where
  "find_idx P [] = None"
| "find_idx P (x # xs) = (if P x then Some 0 else map_option Suc (find_idx P xs))"

text \<open>\<open>s.find(c, p)\<close>, \<open>s.find_first_of\<close>, \<open>find_first_not_of\<close>, \<open>find_last_not_of\<close>, \<open>substr\<close>.\<close>

definition str_find :: "char \<Rightarrow> nat \<Rightarrow> string \<Rightarrow> nat option" where
  "str_find c p s = map_option ((+) p) (find_idx (\<lambda>x. x = c) (drop p s))"

definition find_first_of :: "string \<Rightarrow> string \<Rightarrow> nat option" where
  "find_first_of cs s = find_idx (\<lambda>x. x \<in> set cs) s"

definition find_first_not_of :: "string \<Rightarrow> string \<Rightarrow> nat option" where
  "find_first_not_of cs s = find_idx (\<lambda>x. x \<notin> set cs) s"

definition find_last_not_of :: "string \<Rightarrow> string \<Rightarrow> nat option" where
  "find_last_not_of cs s =
     map_option (\<lambda>i. length s - 1 - i) (find_idx (\<lambda>x. x \<notin> set cs) (rev s))"

definition substr :: "nat \<Rightarrow> nat \<Rightarrow> string \<Rightarrow> string" where
  "substr p n s = take n (drop p s)"

text \<open>The white-space set \<open>" \t\n\r"\<close> that the template crates pass to these functions.\<close>

definition ws_set :: string where
  "ws_set = [CHR '' '', CHR 0x09, CHR 0x0A, CHR 0x0D]"

lemma find_idx_None_iff [str_simps]: "find_idx P xs = None \<longleftrightarrow> (\<forall>x\<in>set xs. \<not> P x)"
  by (induction xs) auto

lemma find_idx_SomeD:
  "find_idx P xs = Some i \<Longrightarrow> i < length xs \<and> P (xs ! i) \<and> (\<forall>j<i. \<not> P (xs ! j))"
proof (induction xs arbitrary: i)
  case (Cons x xs)
  then show ?case
    by (force simp: nth_Cons less_Suc_eq_0_disj split: if_splits nat.splits)
qed simp

lemma find_idx_less: "find_idx P xs = Some i \<Longrightarrow> i < length xs"
  by (blast dest: find_idx_SomeD)

lemma find_idx_split:
  "find_idx P xs = Some i \<Longrightarrow>
     xs = take i xs @ xs ! i # drop (Suc i) xs \<and> (\<forall>x\<in>set (take i xs). \<not> P x) \<and> P (xs ! i)"
  using find_idx_SomeD [of P xs i] by (auto simp: id_take_nth_drop in_set_conv_nth)

lemma find_idx_append:
  "find_idx P (xs @ ys) =
     (case find_idx P xs of Some i \<Rightarrow> Some i | None \<Rightarrow> map_option ((+) (length xs)) (find_idx P ys))"
  by (induction xs; cases "find_idx P ys") (auto split: option.splits)

lemma find_idx_prefix:
  "\<forall>x\<in>set xs. \<not> P x \<Longrightarrow> P y \<Longrightarrow> find_idx P (xs @ y # ys) = Some (length xs)"
  by (induction xs) auto

lemma str_find_SomeD:
  assumes "str_find c p s = Some i"
  shows "p \<le> i \<and> i < length s \<and> s ! i = c"
proof -
  from assms obtain k where k: "find_idx (\<lambda>x. x = c) (drop p s) = Some k" and i: "i = p + k"
    by (auto simp: str_find_def)
  from find_idx_SomeD [OF k] i show ?thesis by auto
qed

lemma find_first_not_of_less: "find_first_not_of cs s = Some i \<Longrightarrow> i < length s"
  by (auto simp: find_first_not_of_def dest: find_idx_less)

lemma length_substr_le [simp]: "length (substr p n s) \<le> length s - p"
  by (simp add: substr_def)

text \<open>A text is determined by what stands before and after the first \<open>c\<close>.\<close>

lemma append_first_eq:
  assumes "a @ c # r = b @ c # r'" "c \<notin> set a" "c \<notin> set b"
  shows "a = b \<and> r = r'"
proof -
  have "takeWhile (\<lambda>x. x \<noteq> c) (a @ c # r) = a" "takeWhile (\<lambda>x. x \<noteq> c) (b @ c # r') = b"
    using assms(2,3) by (auto simp: takeWhile_append)
  with assms(1) have "a = b" by simp
  with assms(1) show ?thesis by simp
qed

text \<open>The part from the first to the last byte that is not in \<open>ws_set\<close>.\<close>

definition trim_ws :: "string \<Rightarrow> string" where
  "trim_ws line =
     rev (dropWhile (\<lambda>c. c \<in> set ws_set) (rev (dropWhile (\<lambda>c. c \<in> set ws_set) line)))"

lemma trim_ws_id: "s \<noteq> [] \<Longrightarrow> hd s \<notin> set ws_set \<Longrightarrow> last s \<notin> set ws_set \<Longrightarrow> trim_ws s = s"
proof -
  assume s: "s \<noteq> []" "hd s \<notin> set ws_set" "last s \<notin> set ws_set"
  have keep: "dropWhile P xs = xs" if "xs \<noteq> []" "\<not> P (hd xs)" for P and xs :: string
    using that by (cases xs) simp_all
  show ?thesis using s by (simp add: trim_ws_def keep hd_rev)
qed

section \<open>Decimal output\<close>

text \<open>\<open>std::to_string\<close> and \<open>ostream <<\<close> on unsigned and signed integers.\<close>

definition digit_char :: "nat \<Rightarrow> char" where
  "digit_char d = char_of (48 + d)"

fun show_nat :: "nat \<Rightarrow> string" where
  "show_nat n = (if n < 10 then [digit_char n] else show_nat (n div 10) @ [digit_char (n mod 10)])"

declare show_nat.simps [simp del]

definition show_int :: "int \<Rightarrow> string" where
  "show_int i = (if i < 0 then CHR ''-'' # show_nat (nat (- i)) else show_nat (nat i))"

section \<open>Decimal input\<close>

text \<open>The value of decimal digits, a sign, and hexadecimal digits, as \<open>strtol\<close> and \<open>strtod\<close> read them.\<close>

definition digits_value :: "string \<Rightarrow> nat" where
  "digits_value ds = foldl (\<lambda>n d. n * 10 + (byte d - 48)) 0 ds"

definition take_sign :: "string \<Rightarrow> bool \<times> string" where
  "take_sign s = (case s of
      [] \<Rightarrow> (False, [])
    | c # cs \<Rightarrow> if c = CHR ''-'' then (True, cs) else if c = CHR ''+'' then (False, cs) else (False, s))"

definition isxdigit :: "char \<Rightarrow> bool" where
  "isxdigit c \<longleftrightarrow> isdigit c \<or> (65 \<le> byte c \<and> byte c \<le> 70) \<or> (97 \<le> byte c \<and> byte c \<le> 102)"

lemma byte_digit_char: "d < 10 \<Longrightarrow> byte (digit_char d) = 48 + d"
  by (simp add: byte_def digit_char_def of_char_of)

lemma isdigit_digit_char: "d < 10 \<Longrightarrow> isdigit (digit_char d)"
  by (simp add: isdigit_def byte_digit_char)

lemma show_nat_digits: "list_all isdigit (show_nat n) \<and> show_nat n \<noteq> []"
proof (induction n rule: show_nat.induct)
  case (1 n)
  then show ?case by (simp add: show_nat.simps [of n] isdigit_digit_char)
qed

lemma digits_value_snoc: "digits_value (ds @ [d]) = digits_value ds * 10 + (byte d - 48)"
  by (simp add: digits_value_def)

lemma digits_value_show_nat [simp]: "digits_value (show_nat n) = n"
proof (induction n rule: show_nat.induct)
  case (1 n)
  show ?case
  proof (cases "n < 10")
    case True
    then show ?thesis by (simp add: show_nat.simps [of n] digits_value_def byte_digit_char)
  next
    case False
    with 1 show ?thesis by (simp add: show_nat.simps [of n] digits_value_snoc byte_digit_char)
  qed
qed

lemma isdigit_not: "isdigit c \<Longrightarrow> \<not> isspace c \<and> c \<noteq> CHR ''-'' \<and> c \<noteq> CHR ''+'' \<and> c \<noteq> CHR ''.'' \<and> tolower c = c"
  by (auto simp: ctype_defs tolower_def)

lemma take_sign_digits:
  assumes "list_all isdigit ds" "ds \<noteq> []"
  shows "take_sign ds = (False, ds)" "dropWhile isspace ds = ds"
  using assms by (cases ds; auto simp: take_sign_def dest: isdigit_not)+

section \<open>Cursor loops\<close>

text \<open>
  The interface of a cursor into a source text: \<open>adv\<close> moves one byte, \<open>skip stop\<close> is the loop
  that advances until the end of the source or until \<open>stop\<close> holds.  The lexer's and the
  expression parser's loops are instances of it.
\<close>

locale scan_loop =
  fixes src :: "'s \<Rightarrow> string"
    and pos :: "'s \<Rightarrow> nat"
    and adv :: "'s \<Rightarrow> 's"
    and skip :: "('s \<Rightarrow> bool) \<Rightarrow> 's \<Rightarrow> 's"
  assumes src_adv: "src (adv s) = src s"
    and pos_adv: "pos (adv s) = Suc (pos s)"
    and skip_unfold:
      "skip stop s = (if length (src s) \<le> pos s \<or> stop s then s else skip stop (adv s))"
begin

lemma skip_induct [case_names step]:
  assumes "\<And>s. (pos s < length (src s) \<Longrightarrow> \<not> stop s \<Longrightarrow> P (adv s)) \<Longrightarrow> P s"
  shows "P s"
proof (induction "length (src s) - pos s" arbitrary: s rule: less_induct)
  case less
  show ?case
  proof (rule assms)
    assume "pos s < length (src s)"
    then show "P (adv s)" by (intro less) (simp add: src_adv pos_adv)
  qed
qed

lemma src_skip: "src (skip stop s) = src s"
proof (induction s rule: skip_induct [where stop = stop])
  case (step s)
  then show ?case by (subst skip_unfold) (auto simp: src_adv)
qed

lemma pos_skip_ge: "pos s \<le> pos (skip stop s)"
proof (induction s rule: skip_induct [where stop = stop])
  case (step s)
  then show ?case by (subst skip_unfold) (auto simp: pos_adv)
qed

lemma pos_skip_le: "pos s \<le> length (src s) \<Longrightarrow> pos (skip stop s) \<le> length (src s)"
proof (induction s rule: skip_induct [where stop = stop])
  case (step s)
  then show ?case by (subst skip_unfold) (auto simp: pos_adv src_adv)
qed

lemma skip_stops: "length (src s) \<le> pos (skip stop s) \<or> stop (skip stop s)"
proof (induction s rule: skip_induct [where stop = stop])
  case (step s)
  then show ?case by (subst (1 2) skip_unfold) (auto simp: src_adv)
qed

text \<open>Whatever \<open>adv\<close> keeps inside the source, the loop keeps.\<close>

lemma skip_invariant:
  assumes "\<And>t. pos t < length (src t) \<Longrightarrow> \<not> stop t \<Longrightarrow> I t \<Longrightarrow> I (adv t)"
  shows "I s \<Longrightarrow> I (skip stop s)"
proof (induction s rule: skip_induct [where stop = stop])
  case (step s)
  then show ?case using assms [of s] by (subst skip_unfold) auto
qed

text \<open>No byte the loop passed over satisfied the stop condition, when that reads only the byte.\<close>

lemma skip_passed:
  assumes byte: "\<And>t. pos t < length (src t) \<Longrightarrow> stop t = Q (src t ! pos t)"
  shows "pos s \<le> i \<Longrightarrow> i < pos (skip stop s) \<Longrightarrow> \<not> Q (src s ! i)"
proof (induction s rule: skip_induct [where stop = stop])
  case (step s)
  show ?case
  proof (cases "length (src s) \<le> pos s \<or> stop s")
    case True
    with step.prems show ?thesis by (subst (asm) skip_unfold) auto
  next
    case False
    with step.prems have lt: "i < pos (skip stop (adv s))"
      by (subst (asm) skip_unfold) auto
    from False have nq: "\<not> Q (src s ! pos s)" using byte [of s] by auto
    show ?thesis
    proof (cases "i = pos s")
      case True
      with nq show ?thesis by simp
    next
      case ne: False
      with step.prems have "pos (adv s) \<le> i" by (simp add: pos_adv)
      with step.IH False lt show ?thesis by (auto simp: src_adv not_le)
    qed
  qed
qed

text \<open>So the loop passes exactly the longest run of bytes that do not stop it.\<close>

lemma pos_skip_takeWhile:
  assumes byte: "\<And>t. pos t < length (src t) \<Longrightarrow> stop t = Q (src t ! pos t)"
  shows "pos (skip stop s) = pos s + length (takeWhile (\<lambda>c. \<not> Q c) (drop (pos s) (src s)))"
proof (induction s rule: skip_induct [where stop = stop])
  case (step s)
  show ?case
  proof (cases "pos s < length (src s)")
    case True
    then have "drop (pos s) (src s) = src s ! pos s # drop (Suc (pos s)) (src s)"
      by (simp add: Cons_nth_drop_Suc)
    with step True byte [OF True] show ?thesis
      by (subst skip_unfold) (auto simp: src_adv pos_adv)
  next
    case False
    then show ?thesis by (subst skip_unfold) simp
  qed
qed

end

end
