(* ===== verification/Nift_Lexer.thy ===== *)
theory Nift_Lexer
  imports Nift_Prelude
begin

text \<open>
  The template lexer, \<open>crates/parser/lexer/lexer.cpp\<close>, \<open>token.cpp\<close> and the headers
  \<open>token.hpp\<close>, \<open>lexer.hpp\<close>.  The class \<open>Lexer\<close> is the record \<open>lexer\<close>: its four mutable
  fields, the source, and one ghost flag \<open>lx_oob\<close> that records whether \<open>advance()\<close> ever read
  past the end of the \<open>string_view\<close> (undefined behaviour in C++, so the model makes it visible).
  Each scanner returns the token and the moved cursor.  The lemmas show memory safety,
  progress (hence termination of \<open>tokenize\<close>), the line numbers, and that tokenizing loses no
  byte of the source.
\<close>

section \<open>Tokens\<close>

datatype token_type =
    Text | Directive | VarSimple | VarBracket | VarExpr
  | LParen | RParen | LBrace | RBrace | Comma
  | LineComment | BlockComment | Eof

fun token_type_name :: "token_type \<Rightarrow> string" where
  "token_type_name Text = ''Text''"
| "token_type_name Directive = ''Directive''"
| "token_type_name VarSimple = ''VarSimple''"
| "token_type_name VarBracket = ''VarBracket''"
| "token_type_name VarExpr = ''VarExpr''"
| "token_type_name LParen = ''LParen''"
| "token_type_name RParen = ''RParen''"
| "token_type_name LBrace = ''LBrace''"
| "token_type_name RBrace = ''RBrace''"
| "token_type_name Comma = ''Comma''"
| "token_type_name LineComment = ''LineComment''"
| "token_type_name BlockComment = ''BlockComment''"
| "token_type_name Eof = ''Eof''"

record token =
  tk_type :: token_type
  tk_value :: string
  tk_line :: nat
  tk_column :: nat

definition is_delimiter :: "token \<Rightarrow> bool" where
  "is_delimiter t = (case tk_type t of
      LParen \<Rightarrow> True | RParen \<Rightarrow> True | LBrace \<Rightarrow> True | RBrace \<Rightarrow> True | Comma \<Rightarrow> True
    | _ \<Rightarrow> False)"

definition is_variable :: "token \<Rightarrow> bool" where
  "is_variable t = (case tk_type t of
      VarSimple \<Rightarrow> True | VarBracket \<Rightarrow> True | VarExpr \<Rightarrow> True | _ \<Rightarrow> False)"

section \<open>The cursor\<close>

record lexer =
  lx_source :: string
  lx_pos :: nat
  lx_line :: nat
  lx_col :: nat
  lx_oob :: bool

definition lexer_init :: "string \<Rightarrow> lexer" where
  "lexer_init source =
     \<lparr>lx_source = source, lx_pos = 0, lx_line = 1, lx_col = 1, lx_oob = False\<rparr>"

definition lexer_peek :: "lexer \<Rightarrow> char" where
  "lexer_peek lx =
     (if lx_pos lx < length (lx_source lx) then lx_source lx ! lx_pos lx else NUL)"

definition lexer_peek_next :: "lexer \<Rightarrow> char" where
  "lexer_peek_next lx =
     (if lx_pos lx + 1 < length (lx_source lx) then lx_source lx ! (lx_pos lx + 1) else NUL)"

definition lexer_at_end :: "lexer \<Rightarrow> bool" where
  "lexer_at_end lx \<longleftrightarrow> length (lx_source lx) \<le> lx_pos lx"

text \<open>\<open>advance()\<close> reads \<open>source_[pos_]\<close> unchecked: past the end the ghost flag is set.\<close>

definition lexer_advance :: "lexer \<Rightarrow> lexer" where
  "lexer_advance lx =
     (let c = lexer_peek lx;
          lx' = lx\<lparr>lx_pos := Suc (lx_pos lx),
                   lx_oob := lx_oob lx \<or> length (lx_source lx) \<le> lx_pos lx\<rparr>
      in if c = NL then lx'\<lparr>lx_line := Suc (lx_line lx), lx_col := 1\<rparr>
         else lx'\<lparr>lx_col := Suc (lx_col lx)\<rparr>)"

lemma lexer_advance_simps [simp]:
  "lx_source (lexer_advance lx) = lx_source lx"
  "lx_pos (lexer_advance lx) = Suc (lx_pos lx)"
  "lx_line (lexer_advance lx) = lx_line lx + (if lexer_peek lx = NL then 1 else 0)"
  "lx_oob (lexer_advance lx) = (lx_oob lx \<or> length (lx_source lx) \<le> lx_pos lx)"
  by (simp_all add: lexer_advance_def Let_def)

text \<open>\<open>match(expected)\<close>: consume one byte if it is the expected one.\<close>

definition lexer_match :: "char \<Rightarrow> lexer \<Rightarrow> bool \<times> lexer" where
  "lexer_match expected lx =
     (if lx_pos lx < length (lx_source lx) \<and> lx_source lx ! lx_pos lx = expected
      then (True, lexer_advance lx) else (False, lx))"

text \<open>\<open>while (!is_at_end() && !stop) advance();\<close>\<close>

function lexer_skip :: "(lexer \<Rightarrow> bool) \<Rightarrow> lexer \<Rightarrow> lexer" where
  "lexer_skip stop lx =
     (if lexer_at_end lx \<or> stop lx then lx else lexer_skip stop (lexer_advance lx))"
  by pat_completeness auto
termination
  by (relation "measure (\<lambda>(stop, lx). length (lx_source lx) - lx_pos lx)")
     (auto simp: lexer_at_end_def)

declare lexer_skip.simps [simp del]

interpretation lexer_cursor: scan_loop lx_source lx_pos lexer_advance lexer_skip
proof unfold_locales
  fix stop s
  show "lexer_skip stop s =
    (if length (lx_source s) \<le> lx_pos s \<or> stop s then s else lexer_skip stop (lexer_advance s))"
    by (simp add: lexer_skip.simps [of stop s] lexer_at_end_def)
qed simp_all

definition make_token :: "token_type \<Rightarrow> string \<Rightarrow> nat \<Rightarrow> token" where
  "make_token t v l = \<lparr>tk_type = t, tk_value = v, tk_line = l, tk_column = 0\<rparr>"

definition is_identifier_start :: "char \<Rightarrow> bool" where
  "is_identifier_start c \<longleftrightarrow> isalnum c \<or> c = CHR ''_''"

definition is_identifier_char :: "char \<Rightarrow> bool" where
  "is_identifier_char c \<longleftrightarrow> isalnum c \<or> c = CHR ''_''"

definition is_whitespace_only :: "string \<Rightarrow> bool" where
  "is_whitespace_only sv \<longleftrightarrow>
     list_all (\<lambda>c. c = CHR '' '' \<or> c = CHR 0x09 \<or> c = CHR 0x0A \<or> c = CHR 0x0D) sv"

text \<open>\<open>source_.substr(start, pos_ - start)\<close>\<close>

definition lexed_from :: "nat \<Rightarrow> lexer \<Rightarrow> string" where
  "lexed_from start lx = substr start (lx_pos lx - start) (lx_source lx)"

section \<open>Scanners\<close>

text \<open>\<open>scan_text\<close>: a backslash takes \<open>@\<close>, \<open>$\<close> or a second backslash with it.\<close>

function scan_text_loop :: "lexer \<Rightarrow> lexer" where
  "scan_text_loop lx =
     (if lexer_at_end lx then lx
      else if lexer_peek lx = CHR 0x5C \<and>
              (lexer_peek_next lx = CHR ''@'' \<or> lexer_peek_next lx = CHR ''$'' \<or>
               lexer_peek_next lx = CHR 0x5C)
      then scan_text_loop (lexer_advance (lexer_advance lx))
      else if lexer_peek lx = CHR ''@'' \<or> lexer_peek lx = CHR ''$'' then lx
      else scan_text_loop (lexer_advance lx))"
  by pat_completeness auto
termination
  by (relation "measure (\<lambda>lx. length (lx_source lx) - lx_pos lx)")
     (auto simp: lexer_at_end_def)

declare scan_text_loop.simps [simp del]

definition scan_text :: "lexer \<Rightarrow> token \<times> lexer" where
  "scan_text lx =
     (let start = lx_pos lx; start_line = lx_line lx; lx = scan_text_loop lx
      in if lx_pos lx = start then (make_token Eof [] start_line, lx)
         else (make_token Text (lexed_from start lx) start_line, lx))"

definition scan_variable :: "lexer \<Rightarrow> token \<times> lexer" where
  "scan_variable lx =
     (let start_line = lx_line lx; lx = lexer_advance lx
      in if lexer_at_end lx then (make_token Text ''$'' start_line, lx)
         else let c = lexer_peek lx in
         if c = CHR 0x60 then
           let lx = lexer_advance lx; expr_start = lx_pos lx;
               lx = lexer_skip (\<lambda>l. lexer_peek l = CHR 0x60) lx;
               expr = lexed_from expr_start lx;
               lx = (if lexer_at_end lx then lx else lexer_advance lx)
           in (make_token VarExpr expr start_line, lx)
         else if c = CHR ''['' then
           let lx = lexer_advance lx; name_start = lx_pos lx;
               lx = lexer_skip (\<lambda>l. lexer_peek l = CHR '']'') lx;
               name = lexed_from name_start lx;
               lx = (if lexer_at_end lx then lx else lexer_advance lx)
           in (make_token VarBracket name start_line, lx)
         else if is_identifier_start c then
           let name_start = lx_pos lx;
               lx = lexer_skip (\<lambda>l. \<not> is_identifier_char (lexer_peek l)) lx
           in (make_token VarSimple (lexed_from name_start lx) start_line, lx)
         else (make_token Text ''$'' start_line, lx))"

text \<open>\<open>scan_comment\<close>, called after \<open>@\<close> has been consumed.\<close>

definition block_comment_close :: "lexer \<Rightarrow> bool" where
  "block_comment_close l \<longleftrightarrow>
     lexer_peek l = CHR ''-'' \<and> lx_pos l + 2 < length (lx_source l) \<and>
     lx_source l ! (lx_pos l + 1) = CHR ''-'' \<and> lx_source l ! (lx_pos l + 2) = CHR ''#''"

definition c_comment_close :: "lexer \<Rightarrow> bool" where
  "c_comment_close l \<longleftrightarrow>
     lexer_peek l = CHR ''*'' \<and> lx_pos l + 1 < length (lx_source l) \<and>
     lx_source l ! (lx_pos l + 1) = CHR ''/''"

definition scan_comment :: "lexer \<Rightarrow> nat \<Rightarrow> token \<times> lexer" where
  "scan_comment lx start_line =
     (let c = lexer_peek lx in
      if c = CHR ''#'' \<and> lexer_peek_next lx = CHR ''-'' then
        let lx = lexer_advance (lexer_advance lx);
            lx = (if \<not> lexer_at_end lx \<and> lexer_peek lx = CHR ''-'' then lexer_advance lx else lx);
            comment_start = lx_pos lx;
            lx = lexer_skip block_comment_close lx;
            comment = lexed_from comment_start lx;
            lx = (if lexer_at_end lx then lx
                  else lexer_advance (lexer_advance (lexer_advance lx)))
        in (make_token BlockComment comment start_line, lx)
      else if c = CHR ''#'' then
        let lx = lexer_advance lx; comment_start = lx_pos lx;
            lx = lexer_skip (\<lambda>l. lexer_peek l = NL) lx
        in (make_token LineComment (lexed_from comment_start lx) start_line, lx)
      else if c = CHR ''/'' \<and> lexer_peek_next lx = CHR ''/'' then
        let lx = lexer_advance (lexer_advance lx); comment_start = lx_pos lx;
            lx = lexer_skip (\<lambda>l. lexer_peek l = NL) lx
        in (make_token LineComment (lexed_from comment_start lx) start_line, lx)
      else
        let lx = lexer_advance (lexer_advance lx); comment_start = lx_pos lx;
            lx = lexer_skip c_comment_close lx;
            comment = lexed_from comment_start lx;
            lx = (if lexer_at_end lx then lx else lexer_advance (lexer_advance lx))
        in (make_token BlockComment comment start_line, lx))"

text \<open>\<open>scan_operator\<close>: an operator character, for some of them with a following \<open>=\<close>.\<close>

definition scan_opt_eq :: "string \<Rightarrow> lexer \<Rightarrow> nat \<Rightarrow> token \<times> lexer" where
  "scan_opt_eq op lx start_line =
     (let lx = lexer_advance lx in
      if \<not> lexer_at_end lx \<and> lexer_peek lx = CHR ''=''
      then (make_token Directive (op @ ''='') start_line, lexer_advance lx)
      else (make_token Directive op start_line, lx))"

definition scan_operator :: "lexer \<Rightarrow> nat \<Rightarrow> token \<times> lexer" where
  "scan_operator lx start_line =
     (let c = lexer_peek lx in
      if c = CHR ''?'' then (make_token Directive ''?'' start_line, lexer_advance lx)
      else if c = CHR ''='' then scan_opt_eq ''='' lx start_line
      else if c = CHR ''!'' then scan_opt_eq ''!'' lx start_line
      else if c = CHR ''<'' then scan_opt_eq ''<'' lx start_line
      else if c = CHR ''>'' then scan_opt_eq ''>'' lx start_line
      else if c = CHR '':'' then
        let lx = lexer_advance lx in
        if \<not> lexer_at_end lx \<and> lexer_peek lx = CHR ''=''
        then (make_token Directive '':='' start_line, lexer_advance lx)
        else (make_token Text ''@:'' start_line, lx)
      else if c = CHR ''+'' then (make_token Directive ''+'' start_line, lexer_advance lx)
      else if c = CHR ''-'' then (make_token Directive ''-'' start_line, lexer_advance lx)
      else if c = CHR ''*'' then (make_token Directive ''*'' start_line, lexer_advance lx)
      else if c = CHR ''/'' then (make_token Directive ''/'' start_line, lexer_advance lx)
      else if c = CHR ''%'' then (make_token Directive ''%'' start_line, lexer_advance lx)
      else if c = CHR ''|'' then (make_token Directive ''|'' start_line, lexer_advance lx)
      else (make_token Text ''@'' start_line, lexer_advance lx))"

text \<open>
  The \<open>++\<close>/\<open>--\<close> suffix of a directive name.  On a double sign the name is replaced by the fixed
  text \<open>f++\<close> or \<open>f--\<close>, whatever it was; on a single sign only \<open>pos_\<close> is restored.
\<close>

definition scan_suffix :: "string \<Rightarrow> lexer \<Rightarrow> string \<times> lexer" where
  "scan_suffix name lx =
     (if \<not> lexer_at_end lx \<and> lexer_peek lx = CHR ''+'' then
        let saved = lx_pos lx; lx = lexer_advance lx in
        if \<not> lexer_at_end lx \<and> lexer_peek lx = CHR ''+'' then (''f++'', lexer_advance lx)
        else (name, lx\<lparr>lx_pos := saved\<rparr>)
      else if \<not> lexer_at_end lx \<and> lexer_peek lx = CHR ''-'' then
        let saved = lx_pos lx; lx = lexer_advance lx in
        if \<not> lexer_at_end lx \<and> lexer_peek lx = CHR ''-'' then (''f--'', lexer_advance lx)
        else (name, lx\<lparr>lx_pos := saved\<rparr>)
      else (name, lx))"

definition scan_directive :: "lexer \<Rightarrow> token \<times> lexer" where
  "scan_directive lx =
     (let start_line = lx_line lx; lx = lexer_advance lx
      in if lexer_at_end lx then (make_token Text ''@'' start_line, lx)
         else let c = lexer_peek lx in
         if c = CHR ''#'' \<or>
            (c = CHR ''/'' \<and> (lexer_peek_next lx = CHR ''/'' \<or> lexer_peek_next lx = CHR ''*''))
         then scan_comment lx start_line
         else if is_identifier_start c then
           let name_start = lx_pos lx;
               lx = lexer_skip (\<lambda>l. \<not> is_identifier_char (lexer_peek l)) lx;
               (name, lx) = scan_suffix (lexed_from name_start lx) lx
           in (make_token Directive name start_line, lx)
         else if c \<in> set ''?=!<>:+-*/%|'' then scan_operator lx start_line
         else (make_token Text ''@'' start_line, lx))"

text \<open>\<open>scan_param_text\<close>: up to an unnested closing parenthesis or a comma.  The source breaks
  at a comma at any depth.\<close>

function scan_param_loop :: "int \<Rightarrow> lexer \<Rightarrow> lexer" where
  "scan_param_loop paren_depth lx =
     (if lexer_at_end lx then lx
      else let c = lexer_peek lx in
        if c = CHR ''('' then scan_param_loop (paren_depth + 1) (lexer_advance lx)
        else if c = CHR '')'' then
          if paren_depth = 0 then lx else scan_param_loop (paren_depth - 1) (lexer_advance lx)
        else if c = CHR '','' then lx
        else scan_param_loop paren_depth (lexer_advance lx))"
  by pat_completeness auto
termination
  by (relation "measure (\<lambda>(d, lx). length (lx_source lx) - lx_pos lx)")
     (auto simp: lexer_at_end_def)

declare scan_param_loop.simps [simp del]

definition scan_param_text :: "lexer \<Rightarrow> token \<times> lexer" where
  "scan_param_text lx =
     (let start = lx_pos lx; start_line = lx_line lx; lx = scan_param_loop 0 lx
      in if lx_pos lx = start then (make_token Eof [] start_line, lx)
         else (make_token Text (lexed_from start lx) start_line, lx))"

text \<open>One turn of the loop of \<open>tokenize()\<close>.\<close>

definition lex_one :: "lexer \<Rightarrow> token \<times> lexer" where
  "lex_one lx =
     (let c = lexer_peek lx in
      if c = CHR ''$'' then scan_variable lx
      else if c = CHR ''@'' then scan_directive lx
      else scan_text lx)"

section \<open>The cursor invariant\<close>

text \<open>
  The cursor stays inside the source; with \<open>g\<close> also: it never read past the end, and \<open>line_\<close>
  counts the newlines before \<open>pos_\<close>.  (Termination needs the first half for any cursor, the
  properties need all of it for the cursors \<open>tokenize\<close> reaches.)
\<close>

definition lexer_inv :: "bool \<Rightarrow> string \<Rightarrow> lexer \<Rightarrow> bool" where
  "lexer_inv g source lx \<longleftrightarrow>
     lx_source lx = source \<and> lx_pos lx \<le> length source \<and>
     (g \<longrightarrow> \<not> lx_oob lx \<and> lx_line lx = Suc (count_list (take (lx_pos lx) source) NL))"

lemma lexer_inv_init: "lexer_inv g source (lexer_init source)"
  by (simp add: lexer_inv_def lexer_init_def)

lemma lexer_inv_advance:
  "lexer_inv g source lx \<Longrightarrow> lx_pos lx < length source \<Longrightarrow> lexer_inv g source (lexer_advance lx)"
  by (auto simp: lexer_inv_def lexer_peek_def take_Suc_conv_app_nth)

lemma lexer_inv_skip: "lexer_inv g source lx \<Longrightarrow> lexer_inv g source (lexer_skip stop lx)"
  by (rule lexer_cursor.skip_invariant) (metis lexer_inv_advance lexer_inv_def)

lemma lexer_peekD: "lexer_peek lx = c \<Longrightarrow> c \<noteq> NUL \<Longrightarrow>
    lx_pos lx < length (lx_source lx) \<and> lx_source lx ! lx_pos lx = c"
  by (auto simp: lexer_peek_def split: if_splits)

lemma lexer_peek_nextD: "lexer_peek_next lx = c \<Longrightarrow> c \<noteq> NUL \<Longrightarrow>
    Suc (lx_pos lx) < length (lx_source lx) \<and> lx_source lx ! Suc (lx_pos lx) = c"
  by (auto simp: lexer_peek_next_def split: if_splits)

section \<open>Source spans\<close>

text \<open>The bytes a token was scanned from.\<close>

definition src_span :: "nat \<Rightarrow> nat \<Rightarrow> string \<Rightarrow> string" where
  "src_span a b source = take (b - a) (drop a source)"

lemma src_span_empty [simp]: "src_span a a source = []"
  by (simp add: src_span_def)

lemma src_span_join:
  assumes "a \<le> b" "b \<le> c"
  shows "src_span a b source @ src_span b c source = src_span a c source"
proof -
  from assms have c: "c - a = (b - a) + (c - b)" and d: "(b - a) + a = b" by simp_all
  show ?thesis by (simp only: src_span_def c take_add drop_drop d)
qed

lemma src_span_one: "a < length source \<Longrightarrow> src_span a (Suc a) source = [source ! a]"
  by (simp add: src_span_def take_Suc_conv_app_nth hd_drop_conv_nth take_Suc)

lemma src_span_Cons:
  "a < b \<Longrightarrow> b \<le> length source \<Longrightarrow> src_span a b source = source ! a # src_span (Suc a) b source"
  using src_span_join [of a "Suc a" b source] src_span_one [of a source] by simp

lemma src_span_snoc:
  "a \<le> b \<Longrightarrow> b < length source \<Longrightarrow> src_span a (Suc b) source = src_span a b source @ [source ! b]"
  using src_span_join [of a b "Suc b" source] src_span_one [of b source] by simp

lemma lexed_from_span: "lexed_from a lx = src_span a (lx_pos lx) (lx_source lx)"
  by (simp add: lexed_from_def src_span_def substr_def)

lemma length_src_span: "b \<le> length source \<Longrightarrow> length (src_span a b source) = b - a"
  by (simp add: src_span_def)

text \<open>
  Which bytes a token may stand for: every token is its source text less the fixed sigils of its
  kind.  The rules named \<open>open\<close> are for constructs the source does not close.  The two last rules are
  the exception: of a name \<open>n\<close> that is followed by a double sign only the sign is recorded in the token.
\<close>

inductive token_span :: "token_type \<Rightarrow> string \<Rightarrow> string \<Rightarrow> bool" where
  literal: "s \<noteq> [] \<Longrightarrow> token_span Text s s"
| var_simple: "token_span VarSimple v (''$'' @ v)"
| var_bracket: "token_span VarBracket v (''$['' @ v @ '']'')"
| var_bracket_open: "token_span VarBracket v (''$['' @ v)"
| var_expr: "token_span VarExpr v ([CHR ''$'', CHR 0x60] @ v @ [CHR 0x60])"
| var_expr_open: "token_span VarExpr v ([CHR ''$'', CHR 0x60] @ v)"
| line_hash: "token_span LineComment v (''@#'' @ v)"
| line_slash: "token_span LineComment v (''@//'' @ v)"
| block_hash: "token_span BlockComment v (''@#-'' @ d @ v @ ''--#'')" if "d = [] \<or> d = ''-''"
| block_hash_open: "token_span BlockComment v (''@#-'' @ d @ v)" if "d = [] \<or> d = ''-''"
| block_c: "token_span BlockComment v (''@/*'' @ v @ ''*/'')"
| block_c_open: "token_span BlockComment v (''@/*'' @ v)"
| directive: "token_span Directive v (''@'' @ v)"
| directive_incr: "n \<noteq> [] \<Longrightarrow> list_all is_identifier_char n \<Longrightarrow> token_span Directive ''f++'' (''@'' @ n @ ''++'')"
| directive_decr: "n \<noteq> [] \<Longrightarrow> list_all is_identifier_char n \<Longrightarrow> token_span Directive ''f--'' (''@'' @ n @ ''--'')"

text \<open>What every scanner guarantees when it starts inside the source.\<close>

definition scan_ok :: "bool \<Rightarrow> string \<Rightarrow> lexer \<Rightarrow> token \<times> lexer \<Rightarrow> bool" where
  "scan_ok g source lx r \<longleftrightarrow>
     (let t = fst r; lx' = snd r in
        lexer_inv g source lx' \<and> lx_pos lx < lx_pos lx' \<and> tk_line t = lx_line lx \<and>
        token_span (tk_type t) (tk_value t) (src_span (lx_pos lx) (lx_pos lx') source))"

lemma lexer_inv_facts:
  "lexer_inv g source lx \<Longrightarrow> lx_source lx = source \<and> lx_pos lx \<le> length source"
  by (simp add: lexer_inv_def)

lemma not_at_endD: "\<not> lexer_at_end lx \<Longrightarrow> lx_pos lx < length (lx_source lx)"
  by (simp add: lexer_at_end_def)

lemmas make_token_simps [simp] =
  make_token_def [THEN arg_cong, of tk_type, simplified]
  make_token_def [THEN arg_cong, of tk_value, simplified]
  make_token_def [THEN arg_cong, of tk_line, simplified]

lemma scan_text_loop_inv: "lexer_inv g source lx \<Longrightarrow> lexer_inv g source (scan_text_loop lx)"
proof (induction lx rule: scan_text_loop.induct)
  case (1 lx)
  have NULs: "CHR ''@'' \<noteq> NUL" "CHR ''$'' \<noteq> NUL" "CHR 0x5C \<noteq> NUL" by (simp_all add: NUL_def)
  show ?case
  proof (cases "lexer_at_end lx")
    case True
    with 1 show ?thesis by (simp add: scan_text_loop.simps [of lx])
  next
    case False
    with 1 have adv: "lexer_inv g source (lexer_advance lx)"
      by (auto intro!: lexer_inv_advance dest: not_at_endD lexer_inv_facts)
    have adv2: "lexer_inv g source (lexer_advance (lexer_advance lx))"
      if "lexer_peek_next lx = c" "c \<noteq> NUL" for c
      using that adv lexer_peek_nextD [OF that] "1.prems"
      by (auto intro!: lexer_inv_advance dest: lexer_inv_facts)
    show ?thesis
      using False 1 adv adv2 NULs by (subst scan_text_loop.simps) auto
  qed
qed

lemma scan_text_loop_ge: "lx_pos lx \<le> lx_pos (scan_text_loop lx)"
proof (induction lx rule: scan_text_loop.induct)
  case (1 lx)
  then show ?case by (subst scan_text_loop.simps) (auto intro: Suc_leD)
qed

lemma scan_text_loop_progress:
  assumes "\<not> lexer_at_end lx" "lexer_peek lx \<noteq> CHR ''@''" "lexer_peek lx \<noteq> CHR ''$''"
  shows "lx_pos lx < lx_pos (scan_text_loop lx)"
proof -
  have "Suc (lx_pos lx) \<le> lx_pos (scan_text_loop (lexer_advance lx))"
    "Suc (Suc (lx_pos lx)) \<le> lx_pos (scan_text_loop (lexer_advance (lexer_advance lx)))"
    using scan_text_loop_ge [of "lexer_advance lx"]
      scan_text_loop_ge [of "lexer_advance (lexer_advance lx)"] by simp_all
  with assms show ?thesis by (subst scan_text_loop.simps) auto
qed

lemma scan_text_ok:
  assumes inv: "lexer_inv g source lx" and "lx_pos lx < length source"
    and "lexer_peek lx \<noteq> CHR ''@''" "lexer_peek lx \<noteq> CHR ''$''"
  shows "scan_ok g source lx (scan_text lx)"
proof -
  let ?lx = "scan_text_loop lx"
  have inv': "lexer_inv g source ?lx" using inv by (rule scan_text_loop_inv)
  have lt: "lx_pos lx < lx_pos ?lx"
    using assms by (intro scan_text_loop_progress) (auto simp: lexer_at_end_def lexer_inv_def)
  have ne: "src_span (lx_pos lx) (lx_pos ?lx) source \<noteq> []"
    using inv' lt length_src_span [of "lx_pos ?lx" source "lx_pos lx"]
    by (auto simp: lexer_inv_def)
  from inv' lt ne show ?thesis
    by (auto simp: scan_ok_def scan_text_def Let_def lexed_from_span lexer_inv_def
        intro: token_span.literal)
qed

text \<open>Spans that begin with known bytes.\<close>

lemma src_span_cons2:
  "Suc (Suc a) \<le> b \<Longrightarrow> b \<le> length source \<Longrightarrow> source ! a = x \<Longrightarrow> source ! Suc a = y \<Longrightarrow>
   src_span a b source = x # y # src_span (Suc (Suc a)) b source"
  by (simp add: src_span_Cons)

lemma src_span_cons3:
  "a + 3 \<le> b \<Longrightarrow> b \<le> length source \<Longrightarrow> source ! a = x \<Longrightarrow> source ! Suc a = y \<Longrightarrow>
   source ! Suc (Suc a) = z \<Longrightarrow> src_span a b source = x # y # z # src_span (a + 3) b source"
  by (simp add: src_span_Cons numeral_3_eq_3)

text \<open>
  The pattern \<open>loop until the closer, then step over it\<close>: the token's value is what the loop
  passed, and the closer follows unless the source ended.
\<close>

lemma skip_facts:
  assumes "lexer_inv g source lx"
  shows "lexer_inv g source (lexer_skip stop lx)" "lx_pos lx \<le> lx_pos (lexer_skip stop lx)"
    and "lexer_at_end (lexer_skip stop lx) \<or> stop (lexer_skip stop lx)"
proof -
  show inv: "lexer_inv g source (lexer_skip stop lx)" using assms by (rule lexer_inv_skip)
  show "lx_pos lx \<le> lx_pos (lexer_skip stop lx)" by (rule lexer_cursor.pos_skip_ge)
  show "lexer_at_end (lexer_skip stop lx) \<or> stop (lexer_skip stop lx)"
    using lexer_cursor.skip_stops [where stop = stop and s = lx]
      lexer_inv_facts [OF assms] lexer_inv_facts [OF inv]
    by (simp add: lexer_at_end_def)
qed

lemma close_byte:
  assumes inv: "lexer_inv g source lx" and c: "c \<noteq> NUL"
    and stop: "\<not> lexer_at_end (lexer_skip (\<lambda>l. lexer_peek l = c) lx)"
  shows "lx_pos (lexer_skip (\<lambda>l. lexer_peek l = c) lx) < length source \<and>
     source ! lx_pos (lexer_skip (\<lambda>l. lexer_peek l = c) lx) = c"
  using skip_facts [OF inv, of "\<lambda>l. lexer_peek l = c"] stop c
  by (auto dest!: lexer_peekD simp: lexer_inv_def)

lemma NUL_neq [simp]:
  "CHR ''@'' \<noteq> NUL" "CHR ''$'' \<noteq> NUL" "CHR 0x60 \<noteq> NUL" "CHR ''['' \<noteq> NUL" "CHR '']'' \<noteq> NUL"
  "CHR ''-'' \<noteq> NUL" "CHR ''#'' \<noteq> NUL" "CHR ''/'' \<noteq> NUL" "CHR ''*'' \<noteq> NUL" "CHR ''='' \<noteq> NUL"
  "CHR ''+'' \<noteq> NUL" "CHR ''?'' \<noteq> NUL" "CHR 0x5C \<noteq> NUL" "NL \<noteq> NUL"
  by (simp_all add: NUL_def NL_def)

lemma scan_variable_ok:
  assumes inv: "lexer_inv g source lx" and lt: "lx_pos lx < length source"
    and pk: "lexer_peek lx = CHR ''$''"
  shows "scan_ok g source lx (scan_variable lx)"
proof -
  define lx1 where "lx1 = lexer_advance lx"
  define lx2 where "lx2 = lexer_advance lx1"
  define p where "p = lx_pos lx"
  have inv1: "lexer_inv g source lx1" unfolding lx1_def by (rule lexer_inv_advance [OF inv lt])
  have s0: "source ! p = CHR ''$''"
    using lexer_peekD [OF pk] inv by (simp add: lexer_inv_def p_def)
  have pos1: "lx_pos lx1 = Suc p" by (simp add: lx1_def p_def)
  have one: "src_span p (Suc p) source = ''$''"
    using lt s0 by (simp add: p_def src_span_one)
  show ?thesis
  proof (cases "lexer_at_end lx1")
    case True
    then show ?thesis using inv1 one pos1
      by (auto simp: scan_ok_def scan_variable_def lx1_def [symmetric] p_def [symmetric] Let_def
          intro: token_span.literal)
  next
    case ne: False
    then have lt1: "lx_pos lx1 < length source" using inv1 by (auto simp: lexer_inv_def dest: not_at_endD)
    have inv2: "lexer_inv g source lx2" unfolding lx2_def by (rule lexer_inv_advance [OF inv1 lt1])
    have pos2: "lx_pos lx2 = Suc (Suc p)" by (simp add: lx2_def pos1)
    have s1: "source ! Suc p = lexer_peek lx1"
      using lt1 inv1 pos1 by (simp add: lexer_peek_def lexer_inv_def)
    have closed: "scan_ok g source lx
        (let lx3 = lexer_skip (\<lambda>l. lexer_peek l = d) lx2;
             v = lexed_from (lx_pos lx2) lx3;
             lx4 = (if lexer_at_end lx3 then lx3 else lexer_advance lx3)
         in (make_token k v (lx_line lx), lx4))"
      if c: "lexer_peek lx1 = c" and d: "d \<noteq> NUL"
        and k: "\<And>v. token_span k v (CHR ''$'' # c # v @ [d])"
          "\<And>v. token_span k v (CHR ''$'' # c # v)" for c d k
    proof -
      define lx3 where "lx3 = lexer_skip (\<lambda>l. lexer_peek l = d) lx2"
      have f: "lexer_inv g source lx3" "lx_pos lx2 \<le> lx_pos lx3"
        using skip_facts [OF inv2] by (simp_all add: lx3_def)
      then have src3: "lx_source lx3 = source" "lx_pos lx3 \<le> length source"
        by (simp_all add: lexer_inv_def)
      have sp: "src_span p (lx_pos lx3) source =
          CHR ''$'' # c # src_span (lx_pos lx2) (lx_pos lx3) source"
        using f src3 s0 s1 c pos2 by (simp add: src_span_cons2)
      have cl: "lx_pos lx3 < length source \<and> source ! lx_pos lx3 = d" if "\<not> lexer_at_end lx3"
        using close_byte [OF inv2 d] that by (simp add: lx3_def)
      then have sp': "src_span p (Suc (lx_pos lx3)) source =
          CHR ''$'' # c # src_span (lx_pos lx2) (lx_pos lx3) source @ [d]" if "\<not> lexer_at_end lx3"
        using that sp f pos2 by (simp add: src_span_snoc)
      have inv4: "lexer_inv g source (lexer_advance lx3)" if "\<not> lexer_at_end lx3"
        using cl [OF that] f(1) by (simp add: lexer_inv_advance)
      show ?thesis
        using f inv4 sp sp' src3 pos2 k
        by (simp add: scan_ok_def Let_def lx3_def [symmetric] lexed_from_span p_def [symmetric])
    qed
    have ident: "scan_ok g source lx (let lx3 = lexer_skip (\<lambda>l. \<not> is_identifier_char (lexer_peek l)) lx1
         in (make_token VarSimple (lexed_from (lx_pos lx1) lx3) (lx_line lx), lx3))"
    proof -
      define lx3 where "lx3 = lexer_skip (\<lambda>l. \<not> is_identifier_char (lexer_peek l)) lx1"
      have f: "lexer_inv g source lx3" "lx_pos lx1 \<le> lx_pos lx3"
        using skip_facts [OF inv1] by (simp_all add: lx3_def)
      then have "src_span p (lx_pos lx3) source = CHR ''$'' # src_span (Suc p) (lx_pos lx3) source"
        using pos1 s0 by (subst src_span_Cons) (auto simp: lexer_inv_def)
      with f pos1 show ?thesis
        using token_span.var_simple [of "src_span (Suc p) (lx_pos lx3) source"]
        by (auto simp: scan_ok_def Let_def lx3_def [symmetric] lexed_from_span p_def [symmetric]
            lexer_inv_def)
    qed
    have lone: "scan_ok g source lx (make_token Text ''$'' (lx_line lx), lx1)"
      using inv1 one pos1 by (auto simp: scan_ok_def p_def [symmetric] intro: token_span.literal)
    show ?thesis
      using ne closed [of "CHR 0x60" "CHR 0x60" VarExpr] closed [of "CHR ''[''" "CHR '']''" VarBracket]
        ident lone token_span.var_expr token_span.var_expr_open token_span.var_bracket
        token_span.var_bracket_open
      by (simp add: scan_variable_def lx1_def [symmetric] lx2_def [symmetric] Let_def)
  qed
qed

lemma delimited_span:
  assumes inv: "lexer_inv g source lxb" and pre: "src_span p (lx_pos lxb) source = pre" and "p < lx_pos lxb"
    and lx3: "lx3 = lexer_skip stop lxb"
    and fin: "lexer_at_end lx3 \<Longrightarrow> lx4 = lx3"
    and cl: "\<not> lexer_at_end lx3 \<Longrightarrow> lexer_inv g source lx4 \<and> lx_pos lx3 \<le> lx_pos lx4 \<and>
        src_span (lx_pos lx3) (lx_pos lx4) source = cl"
    and k: "\<And>v. token_span K v (pre @ v @ cl)" "\<And>v. token_span K v (pre @ v)"
  shows "lexer_inv g source lx4 \<and> p < lx_pos lx4 \<and>
     token_span K (lexed_from (lx_pos lxb) lx3) (src_span p (lx_pos lx4) source)"
proof -
  have f: "lexer_inv g source lx3" "lx_pos lxb \<le> lx_pos lx3"
    using skip_facts [OF inv] lx3 by auto
  then have v: "lexed_from (lx_pos lxb) lx3 = src_span (lx_pos lxb) (lx_pos lx3) source"
    by (simp add: lexed_from_span lexer_inv_def)
  have s3: "src_span p (lx_pos lx3) source = pre @ src_span (lx_pos lxb) (lx_pos lx3) source"
    using pre f(2) \<open>p < lx_pos lxb\<close> by (metis less_imp_le src_span_join)
  show ?thesis
  proof (cases "lexer_at_end lx3")
    case True
    with fin f s3 v k(2) \<open>p < lx_pos lxb\<close> show ?thesis by simp
  next
    case False
    note c = cl [OF this]
    then have "src_span p (lx_pos lx4) source = src_span p (lx_pos lx3) source @ cl"
      using f(2) \<open>p < lx_pos lxb\<close> by (metis less_imp_le less_le_trans src_span_join)
    with c f s3 v k(1) \<open>p < lx_pos lxb\<close> show ?thesis by simp
  qed
qed

lemma scan_okI:
  "lexer_inv g source lx4 \<and> lx_pos lx < lx_pos lx4 \<and>
     token_span K v (src_span (lx_pos lx) (lx_pos lx4) source) \<Longrightarrow>
   scan_ok g source lx (make_token K v (lx_line lx), lx4)"
  by (simp add: scan_ok_def Let_def)

lemma advance_span:
  "lexer_inv g source lx \<Longrightarrow> p \<le> lx_pos lx \<Longrightarrow> lx_pos lx < length source \<Longrightarrow>
   lexer_inv g source (lexer_advance lx) \<and>
   src_span p (lx_pos (lexer_advance lx)) source = src_span p (lx_pos lx) source @ [source ! lx_pos lx]"
  by (simp add: lexer_inv_advance src_span_snoc)

text \<open>The three and two bytes that close a comment.\<close>

lemma peek_at: "lexer_inv g source l \<Longrightarrow> lexer_peek l = c \<Longrightarrow> c \<noteq> NUL \<Longrightarrow>
    lx_pos l < length source \<and> source ! lx_pos l = c"
  using lexer_peekD [of l c] by (simp add: lexer_inv_def)

lemma block_close_span:
  assumes inv: "lexer_inv g source l" and "block_comment_close l"
  shows "lexer_inv g source (lexer_advance (lexer_advance (lexer_advance l))) \<and>
    src_span (lx_pos l) (lx_pos (lexer_advance (lexer_advance (lexer_advance l)))) source = ''--#''"
proof -
  have b: "lx_pos l + 2 < length source" "source ! lx_pos l = CHR ''-''"
    "source ! Suc (lx_pos l) = CHR ''-''" "source ! Suc (Suc (lx_pos l)) = CHR ''#''"
    using assms peek_at [OF inv, of "CHR ''-''"]
    by (auto simp: block_comment_close_def lexer_inv_def)
  then show ?thesis using inv by (simp add: lexer_inv_advance src_span_Cons)
qed

lemma c_close_span:
  assumes inv: "lexer_inv g source l" and "c_comment_close l"
  shows "lexer_inv g source (lexer_advance (lexer_advance l)) \<and>
    src_span (lx_pos l) (lx_pos (lexer_advance (lexer_advance l))) source = ''*/''"
proof -
  have b: "lx_pos l + 1 < length source" "source ! lx_pos l = CHR ''*''"
    "source ! Suc (lx_pos l) = CHR ''/''"
    using assms peek_at [OF inv, of "CHR ''*''"]
    by (auto simp: c_comment_close_def lexer_inv_def)
  then show ?thesis using inv by (simp add: lexer_inv_advance src_span_Cons)
qed

lemma skip_closed:
  "lexer_inv g source lx \<Longrightarrow> \<not> lexer_at_end (lexer_skip stop lx) \<Longrightarrow>
   lexer_inv g source (lexer_skip stop lx) \<and> stop (lexer_skip stop lx)"
  using skip_facts by blast

lemma scan_comment_ok:
  assumes inv: "lexer_inv g source lx" and lt: "lx_pos lx < length source"
    and at: "source ! lx_pos lx = CHR ''@''" and l1: "l1 = lexer_advance lx"
    and c: "lexer_peek l1 = CHR ''#'' \<or>
      lexer_peek l1 = CHR ''/'' \<and> (lexer_peek_next l1 = CHR ''/'' \<or> lexer_peek_next l1 = CHR ''*'')"
  shows "scan_ok g source lx (scan_comment l1 (lx_line lx))"
proof -
  define p where "p = lx_pos lx"
  have inv1: "lexer_inv g source l1" and sp1: "src_span p (lx_pos l1) source = ''@''"
    using advance_span [OF inv, of p] lt at by (simp_all add: l1 p_def src_span_one)
  have p1: "lx_pos l1 = Suc p" by (simp add: l1 p_def)
  define l2 where "l2 = lexer_advance l1"
  have lt1: "lx_pos l1 < length source" and s1: "source ! lx_pos l1 = lexer_peek l1"
    using c peek_at [OF inv1] by auto
  have inv2: "lexer_inv g source l2" and sp2: "src_span p (lx_pos l2) source = CHR ''@'' # [lexer_peek l1]"
    using advance_span [OF inv1, of p] sp1 lt1 s1 p1 by (simp_all add: l2_def)
  have p2: "lx_pos l2 = Suc (Suc p)" by (simp add: l2_def p1)
  define l3 where "l3 = lexer_advance l2"
  have three: "lexer_inv g source l3 \<and> src_span p (lx_pos l3) source = [CHR ''@'', lexer_peek l1, d]"
    if "lexer_peek_next l1 = d" "d \<noteq> NUL" for d
    using lexer_peek_nextD [OF that] advance_span [OF inv2, of p] inv1 sp2 p2 p1
    by (simp add: l3_def lexer_inv_def)
  have p3: "lx_pos l3 = Suc (Suc (Suc p))" by (simp add: l3_def p2)
  show ?thesis
  proof (cases "lexer_peek l1 = CHR ''#''")
    case hash: True
    show ?thesis
    proof (cases "lexer_peek_next l1 = CHR ''-''")
      case True
      note t = three [OF True]
      define lb where "lb = (if \<not> lexer_at_end l3 \<and> lexer_peek l3 = CHR ''-'' then lexer_advance l3 else l3)"
      have lb: "\<exists>d. lexer_inv g source lb \<and> src_span p (lx_pos lb) source = ''@#-'' @ d \<and>
          (d = [] \<or> d = ''-'') \<and> p < lx_pos lb"
        using t hash peek_at [of g source l3 "CHR ''-''"] advance_span [of g source l3 p] p3
        by (auto simp: lb_def)
      then obtain d where d: "lexer_inv g source lb" "src_span p (lx_pos lb) source = ''@#-'' @ d"
        "d = [] \<or> d = ''-''" "p < lx_pos lb" by blast
      let ?s = "lexer_skip block_comment_close lb"
      let ?e = "if lexer_at_end ?s then ?s else lexer_advance (lexer_advance (lexer_advance ?s))"
      have "scan_ok g source lx (make_token BlockComment (lexed_from (lx_pos lb) ?s) (lx_line lx), ?e)"
        using d block_close_span [of g source ?s] skip_closed [OF d(1), of block_comment_close]
        by (intro scan_okI, fold p_def, intro delimited_span [where pre = "''@#-'' @ d" and cl = "''--#''"])
           (auto intro: token_span.intros simp del: append_Cons append_Nil)
      then show ?thesis
        using hash True by (cases "lexer_at_end ?s")
          (simp_all add: scan_comment_def Let_def l2_def [symmetric] l3_def [symmetric] lb_def [symmetric])
    next
      case False
      let ?s = "lexer_skip (\<lambda>l. lexer_peek l = NL) l2"
      have "scan_ok g source lx (make_token LineComment (lexed_from (lx_pos l2) ?s) (lx_line lx), ?s)"
        using inv2 sp2 hash p2 skip_closed [OF inv2] token_span.line_hash
        by (intro scan_okI, fold p_def, intro delimited_span [where pre = "''@#''" and cl = "[]"]) auto
      then show ?thesis
        using hash False by (simp add: scan_comment_def Let_def l2_def [symmetric])
    qed
  next
    case slash: False
    with c have sl: "lexer_peek l1 = CHR ''/''" by simp
    show ?thesis
    proof (cases "lexer_peek_next l1 = CHR ''/''")
      case True
      note t = three [OF True]
      let ?s = "lexer_skip (\<lambda>l. lexer_peek l = NL) l3"
      have "scan_ok g source lx (make_token LineComment (lexed_from (lx_pos l3) ?s) (lx_line lx), ?s)"
        using t sl p3 skip_closed [of g source l3] token_span.line_slash
        by (intro scan_okI, fold p_def, intro delimited_span [where pre = "''@//''" and cl = "[]"]) auto
      then show ?thesis
        using slash sl True by (simp add: scan_comment_def Let_def l2_def [symmetric] l3_def [symmetric])
    next
      case False
      with c slash have "lexer_peek_next l1 = CHR ''*''" by simp
      note t = three [OF this]
      let ?s = "lexer_skip c_comment_close l3"
      let ?e = "if lexer_at_end ?s then ?s else lexer_advance (lexer_advance ?s)"
      have "scan_ok g source lx (make_token BlockComment (lexed_from (lx_pos l3) ?s) (lx_line lx), ?e)"
        using t sl p3 skip_closed [of g source l3 c_comment_close] c_close_span [of g source ?s]
          token_span.block_c token_span.block_c_open
        by (intro scan_okI, fold p_def, intro delimited_span [where pre = "''@/*''" and cl = "''*/''"]) auto
      then show ?thesis
        using slash sl False by (cases "lexer_at_end ?s")
          (simp_all add: scan_comment_def Let_def l2_def [symmetric] l3_def [symmetric])
    qed
  qed
qed

lemma scan_opt_eq_ok:
  assumes inv: "lexer_inv g source lx" and lt: "lx_pos lx < length source"
    and at: "source ! lx_pos lx = CHR ''@''" and l1: "l1 = lexer_advance lx"
    and op: "lexer_peek l1 = c" "c \<noteq> NUL"
  shows "scan_ok g source lx (scan_opt_eq [c] l1 (lx_line lx))"
proof -
  define l2 where "l2 = lexer_advance l1"
  have s1: "lexer_inv g source l1 \<and> src_span (lx_pos lx) (lx_pos l1) source = ''@''"
    using advance_span [OF inv, of "lx_pos lx"] lt at by (simp add: l1 src_span_one)
  have s2: "lexer_inv g source l2 \<and> src_span (lx_pos lx) (lx_pos l2) source = ''@'' @ [c]"
    using s1 peek_at [of g source l1 c] op advance_span [of g source l1 "lx_pos lx"]
    by (simp add: l1 l2_def)
  have s3: "lexer_inv g source (lexer_advance l2) \<and>
      src_span (lx_pos lx) (lx_pos (lexer_advance l2)) source = ''@'' @ [c] @ ''=''"
    if "lexer_peek l2 = CHR ''=''"
    using s2 peek_at [of g source l2 "CHR ''=''"] that advance_span [of g source l2 "lx_pos lx"]
    by (simp add: l1 l2_def)
  have lt: "lx_pos lx < lx_pos l2" by (simp add: l1 l2_def)
  show ?thesis
  proof (cases "\<not> lexer_at_end l2 \<and> lexer_peek l2 = CHR ''=''")
    case True
    then have r: "scan_opt_eq [c] l1 (lx_line lx) =
        (make_token Directive ([c] @ ''='') (lx_line lx), lexer_advance l2)"
      by (simp add: scan_opt_eq_def Let_def l2_def)
    show ?thesis unfolding r
      using s3 True lt token_span.directive [of "[c] @ ''=''"] by (intro scan_okI) simp
  next
    case False
    then have r: "scan_opt_eq [c] l1 (lx_line lx) = (make_token Directive [c] (lx_line lx), l2)"
      by (auto simp: scan_opt_eq_def Let_def l2_def)
    show ?thesis unfolding r using s2 lt token_span.directive [of "[c]"] by (intro scan_okI) simp
  qed
qed

lemma scan_operator_ok:
  assumes inv: "lexer_inv g source lx" and lt: "lx_pos lx < length source"
    and at: "source ! lx_pos lx = CHR ''@''" and l1: "l1 = lexer_advance lx"
    and op: "lexer_peek l1 \<in> set ''?=!<>:+-*/%|''"
  shows "scan_ok g source lx (scan_operator l1 (lx_line lx))"
proof -
  define c where "c = lexer_peek l1"
  have nul: "c \<noteq> NUL" using op by (auto simp: c_def NUL_def)
  note eq = scan_opt_eq_ok [OF inv lt at l1 c_def [symmetric] nul]
  have s1: "lexer_inv g source l1 \<and> src_span (lx_pos lx) (lx_pos l1) source = ''@''"
    using advance_span [OF inv, of "lx_pos lx"] lt at by (simp add: l1 src_span_one)
  define l2 where "l2 = lexer_advance l1"
  have s2: "lexer_inv g source l2 \<and> src_span (lx_pos lx) (lx_pos l2) source = ''@'' @ [c]"
    using s1 peek_at [of g source l1 c] nul advance_span [of g source l1 "lx_pos lx"]
    by (simp add: l1 l2_def c_def)
  have lt2: "lx_pos lx < lx_pos l2" by (simp add: l1 l2_def)
  have single: "scan_ok g source lx (make_token Directive [c] (lx_line lx), l2)"
    using s2 lt2 token_span.directive [of "[c]"] by (intro scan_okI) simp
  show ?thesis
  proof (cases "c = CHR '':''")
    case True
    then have "scan_operator l1 (lx_line lx) =
        (if \<not> lexer_at_end l2 \<and> lexer_peek l2 = CHR ''=''
         then scan_opt_eq [c] l1 (lx_line lx) else (make_token Text ''@:'' (lx_line lx), l2))"
      by (simp add: scan_operator_def scan_opt_eq_def Let_def c_def l2_def)
    moreover have "scan_ok g source lx (make_token Text ''@:'' (lx_line lx), l2)"
      using s2 lt2 True by (intro scan_okI) (simp add: token_span.literal)
    ultimately show ?thesis using eq by simp
  next
    case False
    with op have "c \<in> set ''?=!<>+-*/%|''" by (auto simp: c_def)
    then have "scan_operator l1 (lx_line lx) \<in>
        {scan_opt_eq [c] l1 (lx_line lx), (make_token Directive [c] (lx_line lx), l2)}"
      by (auto simp: scan_operator_def c_def l2_def)
    then show ?thesis using eq single by auto
  qed
qed

text \<open>The suffix scan: nothing, or a double sign that replaces the name.\<close>

lemma lexer_inv_backtrack:
  "lexer_inv g source lx \<Longrightarrow> lexer_peek lx = c \<Longrightarrow> c \<noteq> NUL \<Longrightarrow> c \<noteq> NL \<Longrightarrow>
   lexer_inv g source ((lexer_advance lx)\<lparr>lx_pos := lx_pos lx\<rparr>)"
  using peek_at [of g source lx c] by (simp add: lexer_inv_def)

lemma scan_suffix_spec:
  assumes inv: "lexer_inv g source lx" and r: "scan_suffix name lx = (name', lx')"
  shows "lexer_inv g source lx' \<and>
    (name' = name \<and> lx_pos lx' = lx_pos lx \<or>
     name' = ''f++'' \<and> lx_pos lx' = lx_pos lx + 2 \<and> src_span (lx_pos lx) (lx_pos lx') source = ''++'' \<or>
     name' = ''f--'' \<and> lx_pos lx' = lx_pos lx + 2 \<and> src_span (lx_pos lx) (lx_pos lx') source = ''--'')"
proof -
  have double: "lexer_inv g source (lexer_advance (lexer_advance lx)) \<and>
      src_span (lx_pos lx) (Suc (Suc (lx_pos lx))) source = [c, c]"
    if "lexer_peek lx = c" "lexer_peek (lexer_advance lx) = c" "c \<noteq> NUL" for c
  proof -
    note p = peek_at [OF inv that(1,3)]
    then have i: "lexer_inv g source (lexer_advance lx)" using inv by (simp add: lexer_inv_advance)
    from p peek_at [OF i that(2,3)] i show ?thesis
      by (simp add: lexer_inv_advance src_span_Cons)
  qed
  have nl: "CHR ''+'' \<noteq> NL" "CHR ''-'' \<noteq> NL" by (simp_all add: NL_def)
  show ?thesis
    using r inv double [of "CHR ''+''"] double [of "CHR ''-''"] nl
      lexer_inv_backtrack [OF inv, of "CHR ''+''"] lexer_inv_backtrack [OF inv, of "CHR ''-''"]
    by (auto simp: scan_suffix_def Let_def split: if_splits)
qed

lemma skip_name:
  "lexer_inv g source lx \<Longrightarrow>
   list_all is_identifier_char (src_span (lx_pos lx) (lx_pos (lexer_skip (\<lambda>l. \<not> is_identifier_char (lexer_peek l)) lx)) source)"
proof (induction "\<lambda>l. \<not> is_identifier_char (lexer_peek l)" lx rule: lexer_skip.induct)
  case (1 lx)
  let ?stop = "\<lambda>l. \<not> is_identifier_char (lexer_peek l)"
  show ?case
  proof (cases "lexer_at_end lx \<or> ?stop lx")
    case True
    then show ?thesis by (simp add: lexer_skip.simps [of _ lx] src_span_empty)
  next
    case False
    have p: "lx_source lx = source" "lx_pos lx < length source" using False 1(2) not_at_endD [of lx] lexer_inv_facts [OF 1(2)] by auto
    have i: "lexer_inv g source (lexer_advance lx)" using 1(2) p by (intro lexer_inv_advance) auto
    have le: "Suc (lx_pos lx) \<le> lx_pos (lexer_skip ?stop (lexer_advance lx))"
      using skip_facts(2) [OF i, of ?stop] by simp
    have "is_identifier_char (source ! lx_pos lx)" using False p by (simp add: lexer_peek_def lexer_at_end_def)
    moreover have "list_all is_identifier_char (src_span (Suc (lx_pos lx)) (lx_pos (lexer_skip ?stop (lexer_advance lx))) source)"
      using 1(1) [OF False i] by simp
    moreover have "lx_pos (lexer_skip ?stop (lexer_advance lx)) \<le> length source"
      using skip_facts(1) [OF i, of ?stop] by (simp add: lexer_inv_def)
    ultimately show ?thesis using False le p(2)
      by (simp add: lexer_skip.simps [of _ lx] src_span_Cons)
  qed
qed

lemma scan_directive_ok:
  assumes inv: "lexer_inv g source lx" and lt: "lx_pos lx < length source"
    and pk: "lexer_peek lx = CHR ''@''"
  shows "scan_ok g source lx (scan_directive lx)"
proof -
  define l1 where "l1 = lexer_advance lx"
  have at: "source ! lx_pos lx = CHR ''@''" using peek_at [OF inv pk] by simp
  have s1: "lexer_inv g source l1" "src_span (lx_pos lx) (lx_pos l1) source = ''@''"
    using advance_span [OF inv, of "lx_pos lx"] lt at by (simp_all add: l1_def src_span_one)
  have p1: "lx_pos l1 = Suc (lx_pos lx)" by (simp add: l1_def)
  have lone: "scan_ok g source lx (make_token Text ''@'' (lx_line lx), l1)"
    using s1 p1 by (intro scan_okI) (simp add: token_span.literal)
  define l2 where "l2 = lexer_skip (\<lambda>l. \<not> is_identifier_char (lexer_peek l)) l1"
  obtain name l3 where suf: "scan_suffix (lexed_from (lx_pos l1) l2) l2 = (name, l3)"
    by (cases "scan_suffix (lexed_from (lx_pos l1) l2) l2")
  have i2: "lexer_inv g source l2" "lx_pos l1 \<le> lx_pos l2"
    using skip_facts [OF s1(1)] by (simp_all add: l2_def)
  define n where "n = src_span (lx_pos l1) (lx_pos l2) source"
  have n: "lexed_from (lx_pos l1) l2 = n"
    using i2 by (simp add: lexed_from_span n_def lexer_inv_def)
  have s2: "src_span (lx_pos lx) (lx_pos l2) source = ''@'' @ n"
    using s1(2) i2(2) p1 n_def by (metis le_SucI le_refl src_span_join)
  have s3: "src_span (lx_pos lx) (lx_pos l3) source = ''@'' @ n @ src_span (lx_pos l2) (lx_pos l3) source"
    if "lx_pos l2 \<le> lx_pos l3"
    using src_span_join [OF _ that, of "lx_pos lx" source] s2 i2(2) p1 by simp
  note suf_spec = scan_suffix_spec [OF i2(1) suf]
  have le3: "lx_pos l2 \<le> lx_pos l3" using suf_spec by auto
  have name: "list_all is_identifier_char n" unfolding n_def l2_def by (rule skip_name [OF s1(1)])
  have ident: "scan_ok g source lx (make_token Directive name (lx_line lx), l3)"
    if c: "\<not> lexer_at_end l1" "is_identifier_start (lexer_peek l1)"
  proof (rule scan_okI)
    have "is_identifier_char (lexer_peek l1)" using c(2) by (auto simp: is_identifier_start_def is_identifier_char_def)
    then have "l2 = lexer_skip (\<lambda>l. \<not> is_identifier_char (lexer_peek l)) (lexer_advance l1)"
      unfolding l2_def using c(1) by (subst lexer_skip.simps) simp
    then have "lx_pos l1 < lx_pos l2" using lexer_cursor.pos_skip_ge [of "lexer_advance l1"]
      by (simp add: Suc_le_eq)
    moreover have "lx_pos l2 \<le> length source" using i2(1) by (simp add: lexer_inv_def)
    ultimately have ne: "n \<noteq> []" using length_src_span [of "lx_pos l2" source "lx_pos l1"] by (auto simp: n_def)
    have "token_span Directive name (src_span (lx_pos lx) (lx_pos l3) source)"
      using suf_spec s3 [OF le3] n token_span.directive [of n]
        token_span.directive_incr [OF ne name] token_span.directive_decr [OF ne name] by auto
    then show "lexer_inv g source l3 \<and> lx_pos lx < lx_pos l3 \<and>
        token_span Directive name (src_span (lx_pos lx) (lx_pos l3) source)"
      using suf_spec le3 i2(2) p1 by auto
  qed
  show ?thesis
    using lone ident suf scan_comment_ok [OF inv lt at l1_def] scan_operator_ok [OF inv lt at l1_def]
    by (simp add: scan_directive_def l1_def [symmetric] l2_def [symmetric] Let_def)
qed

lemma lex_one_ok:
  assumes "lexer_inv g source lx" "lx_pos lx < length source"
  shows "scan_ok g source lx (lex_one lx)"
  using assms scan_variable_ok scan_directive_ok scan_text_ok by (simp add: lex_one_def Let_def)

text \<open>Every turn moves the cursor forward inside the source, whatever the other fields are.\<close>

lemma lex_one_moves:
  assumes "\<not> lexer_at_end lx"
  shows "lx_source (snd (lex_one lx)) = lx_source lx \<and> lx_pos lx < lx_pos (snd (lex_one lx))"
  using lex_one_ok [of False "lx_source lx" lx] not_at_endD [OF assms]
  by (simp add: lexer_inv_def scan_ok_def Let_def)

lemma lex_one_decreases:
  "\<not> lexer_at_end lx \<Longrightarrow> (t, lx') = lex_one lx \<Longrightarrow>
   length (lx_source lx') - lx_pos lx' < length (lx_source lx) - lx_pos lx"
  using lex_one_moves [of lx] not_at_endD [of lx] by (auto simp: prod_eq_iff)

section \<open>Tokenizing\<close>

text \<open>\<open>tokenize()\<close>: the tokens it returns, and the cursor it leaves behind.\<close>

function tokenize_loop :: "lexer \<Rightarrow> token list \<times> lexer" where
  "tokenize_loop lx =
     (if lexer_at_end lx then ([make_token Eof [] (lx_line lx)], lx)
      else let (t, lx1) = lex_one lx; (ts, lx2) = tokenize_loop lx1 in (t # ts, lx2))"
  by pat_completeness auto
termination
  by (relation "measure (\<lambda>lx. length (lx_source lx) - lx_pos lx)")
     (auto intro: lex_one_decreases)

declare tokenize_loop.simps [simp del]

definition tokenize :: "string \<Rightarrow> token list" where
  "tokenize source = fst (tokenize_loop (lexer_init source))"

text \<open>
  \<open>token_cover line ts source\<close>: the tokens \<open>ts\<close> account for every byte of \<open>source\<close>, in order,
  each with the line it starts on, and the list ends with the one \<open>Eof\<close> token.
\<close>

inductive token_cover :: "nat \<Rightarrow> token list \<Rightarrow> string \<Rightarrow> bool" where
  eof: "token_cover line [make_token Eof [] line] []"
| step: "token_span (tk_type t) (tk_value t) s \<Longrightarrow> s \<noteq> [] \<Longrightarrow> tk_line t = line \<Longrightarrow>
     token_cover (line + count_list s NL) ts rest \<Longrightarrow> token_cover line (t # ts) (s @ rest)"

inductive_cases token_cover_ConsE: "token_cover line (t # ts) source"

lemma scan_ok_split:
  assumes inv: "lexer_inv g source lx" and ok: "scan_ok g source lx (t, lx1)"
  shows "drop (lx_pos lx) source = src_span (lx_pos lx) (lx_pos lx1) source @ drop (lx_pos lx1) source"
    and "src_span (lx_pos lx) (lx_pos lx1) source \<noteq> []"
    and "g \<Longrightarrow> lx_line lx1 = lx_line lx + count_list (src_span (lx_pos lx) (lx_pos lx1) source) NL"
proof -
  from ok have le: "lx_pos lx < lx_pos lx1" "lx_pos lx1 \<le> length source"
    by (auto simp: scan_ok_def lexer_inv_def Let_def)
  then have d: "lx_pos lx1 - lx_pos lx + lx_pos lx = lx_pos lx1" by simp
  show "drop (lx_pos lx) source = src_span (lx_pos lx) (lx_pos lx1) source @ drop (lx_pos lx1) source"
    unfolding src_span_def using append_take_drop_id [of "lx_pos lx1 - lx_pos lx" "drop (lx_pos lx) source"]
    by (simp add: d)
  show "src_span (lx_pos lx) (lx_pos lx1) source \<noteq> []"
    using le length_src_span [OF le(2), of "lx_pos lx"] by auto
  assume g
  have "take (lx_pos lx1) source = take (lx_pos lx) source @ src_span (lx_pos lx) (lx_pos lx1) source"
    using src_span_join [of 0 "lx_pos lx" "lx_pos lx1" source] le by (simp add: src_span_def)
  with \<open>g\<close> inv ok show "lx_line lx1 = lx_line lx + count_list (src_span (lx_pos lx) (lx_pos lx1) source) NL"
    by (simp add: scan_ok_def lexer_inv_def Let_def)
qed

lemma tokenize_loop_cover:
  "lexer_inv True source lx \<Longrightarrow>
   token_cover (lx_line lx) (fst (tokenize_loop lx)) (drop (lx_pos lx) source)"
proof (induction lx rule: tokenize_loop.induct)
  case (1 lx)
  show ?case
  proof (cases "lexer_at_end lx")
    case True
    with 1 show ?thesis
      by (simp add: tokenize_loop.simps [of lx] lexer_at_end_def lexer_inv_def token_cover.eof)
  next
    case False
    obtain t lx1 where r: "lex_one lx = (t, lx1)" by (cases "lex_one lx")
    have ok: "scan_ok True source lx (t, lx1)"
      using lex_one_ok [OF "1.prems"] not_at_endD [OF False] "1.prems" r by (simp add: lexer_inv_def)
    then have IH: "token_cover (lx_line lx1) (fst (tokenize_loop lx1)) (drop (lx_pos lx1) source)"
      using "1.IH" [OF False r [symmetric] refl] by (simp add: scan_ok_def Let_def)
    have "fst (tokenize_loop lx) = t # fst (tokenize_loop lx1)"
      using False r by (simp add: tokenize_loop.simps [of lx] split: prod.splits)
    moreover note scan_ok_split [OF "1.prems" ok]
    ultimately show ?thesis
      using ok IH by (auto simp: scan_ok_def Let_def intro: token_cover.step)
  qed
qed

lemma tokenize_loop_final:
  "lexer_inv g source lx \<Longrightarrow>
   lexer_inv g source (snd (tokenize_loop lx)) \<and> lexer_at_end (snd (tokenize_loop lx))"
proof (induction lx rule: tokenize_loop.induct)
  case (1 lx)
  show ?case
  proof (cases "lexer_at_end lx")
    case True
    with 1 show ?thesis by (simp add: tokenize_loop.simps [of lx])
  next
    case False
    obtain t lx1 where r: "lex_one lx = (t, lx1)" by (cases "lex_one lx")
    have "lexer_inv g source lx1"
      using lex_one_ok [OF "1.prems"] not_at_endD [OF False] "1.prems" r
      by (simp add: lexer_inv_def scan_ok_def Let_def)
    with "1.IH" [OF False r [symmetric] refl] False r show ?thesis
      by (simp add: tokenize_loop.simps [of lx] case_prod_beta)
  qed
qed

text \<open>Text in which every \<open>@\<close> and \<open>$\<close> is escaped with a backslash.\<close>

fun escaped_text :: "string \<Rightarrow> bool" where
  "escaped_text (c # d # cs) \<longleftrightarrow>
     (if c = CHR 0x5C \<and> (d = CHR ''@'' \<or> d = CHR ''$'' \<or> d = CHR 0x5C) then escaped_text cs
      else c \<noteq> CHR ''@'' \<and> c \<noteq> CHR ''$'' \<and> escaped_text (d # cs))"
| "escaped_text [c] \<longleftrightarrow> c \<noteq> CHR ''@'' \<and> c \<noteq> CHR ''$''"
| "escaped_text [] \<longleftrightarrow> True"

lemma escaped_text_plain: "CHR ''@'' \<notin> set s \<Longrightarrow> CHR ''$'' \<notin> set s \<Longrightarrow> escaped_text s"
  by (induction s rule: escaped_text.induct) auto

lemma drop_peek:
  assumes "\<not> lexer_at_end lx"
  shows "drop (lx_pos lx) (lx_source lx) = lexer_peek lx # drop (Suc (lx_pos lx)) (lx_source lx)"
  using assms by (simp add: lexer_at_end_def lexer_peek_def Cons_nth_drop_Suc not_le)

lemma scan_text_loop_escaped:
  "escaped_text (drop (lx_pos lx) (lx_source lx)) \<Longrightarrow> lx_pos lx \<le> length (lx_source lx) \<Longrightarrow>
   lx_pos (scan_text_loop lx) = length (lx_source lx)"
proof (induction lx rule: scan_text_loop.induct)
  case (1 lx)
  show ?case
  proof (cases "lexer_at_end lx")
    case True
    with "1.prems" show ?thesis by (simp add: scan_text_loop.simps [of lx] lexer_at_end_def)
  next
    case False
    note d = drop_peek [OF False]
    have lt: "lx_pos lx < length (lx_source lx)" using False by (simp add: lexer_at_end_def)
    show ?thesis
    proof (cases "Suc (lx_pos lx) < length (lx_source lx)")
      case True
      then have d2: "drop (Suc (lx_pos lx)) (lx_source lx) =
          lexer_peek_next lx # drop (Suc (Suc (lx_pos lx))) (lx_source lx)"
        by (simp add: lexer_peek_next_def Cons_nth_drop_Suc)
      with d "1.prems" False lt True "1.IH" show ?thesis
        by (subst scan_text_loop.simps) (auto split: if_splits)
    next
      case last: False
      then have "lexer_peek_next lx = NUL" by (simp add: lexer_peek_next_def)
      with last d "1.prems" False lt "1.IH" show ?thesis
        by (subst scan_text_loop.simps) (auto simp: NUL_def)
    qed
  qed
qed

text \<open>A directive name: \<open>@\<close>, a run of identifier characters, then the suffix test.\<close>

lemma lex_one_name:
  assumes d: "drop (lx_pos lx) (lx_source lx) = CHR ''@'' # name @ rest"
    and name: "name \<noteq> []" "list_all is_identifier_char name"
    and rest: "rest = [] \<or> \<not> is_identifier_char (hd rest)"
  shows "\<exists>lx1. lx_source lx1 = lx_source lx \<and> drop (lx_pos lx1) (lx_source lx) = rest \<and>
    lx_pos lx1 \<le> length (lx_source lx) \<and> lx_line lx1 = lx_line lx \<and>
    lex_one lx = (make_token Directive (fst (scan_suffix name lx1)) (lx_line lx), snd (scan_suffix name lx1))"
proof -
  let ?stop = "\<lambda>l. \<not> is_identifier_char (lexer_peek l)"
  define a where "a = lexer_advance lx"
  define b where "b = lexer_skip ?stop a"
  have ne: "\<not> lexer_at_end lx" using d by (auto simp: lexer_at_end_def)
  with d drop_peek [OF ne] have at: "lexer_peek lx = CHR ''@''" and da: "drop (lx_pos a) (lx_source a) = name @ rest"
    by (simp_all add: a_def)
  have nea: "\<not> lexer_at_end a" using da name(1) by (auto simp: lexer_at_end_def)
  have hd: "lexer_peek a = hd name" "is_identifier_char (hd name)"
    using drop_peek [OF nea] da name by (cases name; simp)+
  have "lx_pos b = lx_pos a + length (takeWhile is_identifier_char (drop (lx_pos a) (lx_source a)))"
    using lexer_cursor.pos_skip_takeWhile [of ?stop "\<lambda>c. \<not> is_identifier_char c" a]
    by (simp add: b_def lexer_peek_def)
  also have "takeWhile is_identifier_char (drop (lx_pos a) (lx_source a)) = name"
    using name(2) rest da by (cases rest) (simp_all add: list_all_iff)
  finally have pos: "lx_pos b = lx_pos a + length name" .
  have src: "lx_source b = lx_source lx" by (simp add: b_def a_def lexer_cursor.src_skip)
  have "\<not> is_identifier_char NL" by (simp add: is_identifier_char_def ctype_defs NL_def)
  then have "lx_line b = lx_line a" unfolding b_def
    by (intro lexer_cursor.skip_invariant [where I = "\<lambda>t. lx_line t = lx_line a"]) auto
  then have line: "lx_line b = lx_line lx" using at by (simp add: a_def NL_def)
  have "lexed_from (lx_pos a) b = name"
    using da pos src by (simp add: lexed_from_def substr_def a_def)
  moreover have "drop (lx_pos b) (lx_source lx) = rest"
    using da pos by (metis a_def append_eq_conv_conj drop_drop lexer_advance_simps(1) add.commute)
  moreover have "lx_pos b \<le> length (lx_source lx)"
  proof -
    have "length (drop (lx_pos a) (lx_source lx)) = length name + length rest"
      using da by (simp add: a_def)
    with name(1) pos show ?thesis by (cases name) auto
  qed
  moreover have "hd name \<noteq> CHR ''#''" "hd name \<noteq> CHR ''/''" "is_identifier_start (hd name)"
    using hd(2) by (auto simp: is_identifier_char_def is_identifier_start_def ctype_defs)
  ultimately show ?thesis
    using at nea hd(1) src line
    by (intro exI [of _ b]) (simp add: lex_one_def scan_directive_def Let_def case_prod_beta
        flip: a_def b_def)
qed

text \<open>C1: The tokens account for every byte of the source.  The source is the concatenation of non-empty
  spans, one per token and in their order; a token's line number is one more than the newlines before its
  span, and the list ends with the only \<open>Eof\<close> token.  A token's value is its span less the sigils of its
  kind, with one exception: for \<open>@name++\<close> and \<open>@name--\<close>, with any name of identifier characters, the value is
  \<open>f++\<close> and \<open>f--\<close>, so that this name, and nothing else of the source, is lost.\<close>

theorem tokenize_lossless: "token_cover 1 (tokenize source) source"
  using tokenize_loop_cover [OF lexer_inv_init, of source]
  by (simp add: tokenize_def lexer_init_def)

text \<open>C39: Memory safety of the lexer.  On every input \<open>tokenize\<close> stops with the cursor exactly at
  the end of the source, and no unchecked \<open>advance()\<close> ever read past the end of the view.\<close>

theorem tokenize_memory_safe:
  "\<not> lx_oob (snd (tokenize_loop (lexer_init source))) \<and>
   lx_pos (snd (tokenize_loop (lexer_init source))) = length source"
  using tokenize_loop_final [OF lexer_inv_init, of True source]
  by (auto simp: lexer_inv_def lexer_at_end_def)

lemma tokenize_escaped_text:
  assumes "source \<noteq> []" "escaped_text source"
  shows "tokenize source =
    [make_token Text source 1, make_token Eof [] (Suc (count_list source NL))]"
proof -
  let ?l = "lexer_init source" and ?e = "scan_text_loop (lexer_init source)"
  have inv: "lexer_inv True source ?e" using lexer_inv_init by (rule scan_text_loop_inv)
  have pos: "lx_pos ?e = length source"
    using scan_text_loop_escaped [of ?l] assms(2) by (simp add: lexer_init_def)
  have "hd source \<noteq> CHR ''@'' \<and> hd source \<noteq> CHR ''$''"
    using assms by (cases source rule: escaped_text.cases) (auto split: if_splits)
  then have pk: "lexer_peek ?l \<noteq> CHR ''@''" "lexer_peek ?l \<noteq> CHR ''$''"
    using assms(1) by (auto simp: lexer_peek_def lexer_init_def hd_conv_nth)
  have "lex_one ?l = (make_token Text source 1, ?e)"
    using pk pos inv assms(1)
    by (simp add: lex_one_def scan_text_def Let_def lexed_from_span lexer_inv_def src_span_def)
       (simp add: lexer_init_def)
  moreover have "tokenize_loop ?e = ([make_token Eof [] (Suc (count_list source NL))], ?e)"
    using inv pos by (subst tokenize_loop.simps) (simp add: lexer_at_end_def lexer_inv_def)
  moreover have "\<not> lexer_at_end ?l" using assms(1) by (simp add: lexer_at_end_def lexer_init_def)
  ultimately show ?thesis
    unfolding tokenize_def by (subst tokenize_loop.simps) simp
qed

text \<open>Escaped text is one token: a template in which each \<open>@\<close> and \<open>$\<close> stands behind a
  backslash (in particular one without them) is returned verbatim as a single \<open>Text\<close> token on line 1,
  backslashes included.\<close>

lemma tokenize_escaped:
  assumes "source \<noteq> []" "escaped_text source"
  shows "tokenize source =
    [make_token Text source 1, make_token Eof [] (Suc (count_list source NL))]"
  by (rule tokenize_escaped_text [OF assms])

lemma tokenize_escaped_witness:
  "tokenize [CHR ''a'', CHR 0x5C, CHR ''@'', CHR ''b''] = [make_token Text [CHR ''a'', CHR 0x5C, CHR ''@'', CHR ''b''] 1, make_token Eof [] 1]"
  using tokenize_escaped [of "[CHR ''a'', CHR 0x5C, CHR ''@'', CHR ''b'']"] by (simp add: NL_def)

text \<open>Only the empty suffix keeps a directive's name.  Whatever the name, \<open>@name++\<close> is lexed as
  the directive \<open>f++\<close>: the name the template wrote is lost.\<close>

lemma suffix_overwrites_name:
  assumes "name \<noteq> []" "list_all is_identifier_char name"
  shows "hd (tokenize (CHR ''@'' # name @ ''++'' @ rest)) = make_token Directive ''f++'' 1"
proof -
  let ?s = "CHR ''@'' # name @ ''++'' @ rest"
  let ?l = "lexer_init ?s"
  have "\<not> is_identifier_char (CHR ''+'')" by (simp add: is_identifier_char_def ctype_defs)
  then obtain lx1 where l: "lx_source lx1 = ?s" "drop (lx_pos lx1) ?s = ''++'' @ rest"
      "lex_one ?l = (make_token Directive (fst (scan_suffix name lx1)) 1, snd (scan_suffix name lx1))"
    using lex_one_name [of ?l name "''++'' @ rest"] assms by (auto simp: lexer_init_def)
  have ne: "\<not> lexer_at_end lx1" using l by (auto simp: lexer_at_end_def)
  with drop_peek [OF ne] l have p: "lexer_peek lx1 = CHR ''+''"
    and d: "drop (Suc (lx_pos lx1)) ?s = ''+'' @ rest" by auto
  have ne2: "\<not> lexer_at_end (lexer_advance lx1)"
    using d l(1) by (auto simp: lexer_at_end_def)
  with drop_peek [OF ne2] d l(1) have "lexer_peek (lexer_advance lx1) = CHR ''+''" by simp
  with ne p ne2 have "fst (scan_suffix name lx1) = ''f++''" by (simp add: scan_suffix_def Let_def)
  with l(3) show ?thesis
    unfolding tokenize_def
    by (subst tokenize_loop.simps) (simp add: lexer_at_end_def lexer_init_def case_prod_beta)
qed

lemma suffix_overwrites_name_witness:
  "hd (tokenize (CHR ''@'' # ''n'' @ ''++'' @ ''(i)'')) = make_token Directive ''f++'' 1"
  by (rule suffix_overwrites_name) (simp_all add: is_identifier_char_def ctype_defs)

end
