(* ===== verification/Nift_Ast.thy ===== *)
theory Nift_Ast
  imports Nift_Prelude
begin

text \<open>
  The template AST: \<open>crates/parser/include/nift/parser/ast.hpp\<close> and \<open>ast.cpp\<close>.  The
  \<open>std::variant\<close> \<open>Node\<close> is the datatype \<open>node\<close> with one constructor per struct, its fields in
  the order of the struct; \<open>shared_ptr\<close> ownership is tree containment (the parser never shares a
  node, and the evaluator never writes one).  \<open>ast_to_string\<close> is the pretty printer.
\<close>

datatype var_kind = Simple | Bracket | Expr

datatype node =
    TextNode (node_text: string) nat
  | VarNode var_kind string nat
  | DirectiveNode string "string list" "string list" nat
  | BlockNode string "string list" "string list" "node list" "else_if_branch list" "node list" bool nat
  | CommentNode string nat
  | ProgramNode "node list"
  | ExtendsNode string nat
  | SectionNode string "node list" nat
  | YieldNode string nat
  | ParentNode nat
and else_if_branch = ElseIfBranch "string list" "node list" nat

fun else_if_conditions :: "else_if_branch \<Rightarrow> string list" where
  "else_if_conditions (ElseIfBranch cs body line) = cs"

fun else_if_body :: "else_if_branch \<Rightarrow> node list" where
  "else_if_body (ElseIfBranch cs body line) = body"

definition indent_str :: "nat \<Rightarrow> string" where
  "indent_str level = replicate (level * 2) (CHR '' '')"

text \<open>The loop \<open>for i: if (i) os << sep; os << xs[i];\<close>\<close>

fun sep_list :: "string \<Rightarrow> string list \<Rightarrow> string" where
  "sep_list sep [] = []"
| "sep_list sep [x] = x"
| "sep_list sep (x # xs) = x @ sep @ sep_list sep xs"

definition at_line :: "nat \<Rightarrow> string" where
  "at_line line = '' @L'' @ show_nat line"

definition opts_params :: "string list \<Rightarrow> string list \<Rightarrow> string" where
  "opts_params opts ps =
     (if opts = [] then [] else ''{'' @ sep_list '', '' opts @ ''}'') @
     (if ps = [] then [] else ''('' @ sep_list '', '' ps @ '')'')"

fun var_kind_name :: "var_kind \<Rightarrow> string" where
  "var_kind_name Simple = ''Simple''"
| "var_kind_name Bracket = ''Bracket''"
| "var_kind_name Expr = ''Expr''"

fun node_to_string :: "nat \<Rightarrow> node \<Rightarrow> string"
  and elif_to_string :: "nat \<Rightarrow> else_if_branch \<Rightarrow> string" where
  "node_to_string depth (TextNode text line) =
     indent_str depth @ ''Text('' @ [CHR 0x22] @ text @ [CHR 0x22] @ '')'' @ at_line line @ [NL]"
| "node_to_string depth (VarNode kind name line) =
     indent_str depth @ ''Var.'' @ var_kind_name kind @ ''('' @ [CHR 0x22] @ name @ [CHR 0x22] @ '')'' @
     at_line line @ [NL]"
| "node_to_string depth (DirectiveNode name opts ps line) =
     indent_str depth @ ''Directive @'' @ name @ opts_params opts ps @ at_line line @ [NL]"
| "node_to_string depth (BlockNode name opts ps body elifs else_body has_else line) =
     indent_str depth @ ''Block @'' @ name @ opts_params opts ps @ at_line line @ [NL] @
     indent_str depth @ ''  body:'' @ [NL] @
     concat (map (node_to_string (depth + 2)) body) @
     concat (map (elif_to_string depth) elifs) @
     (if has_else then indent_str depth @ ''  else:'' @ [NL] @
        concat (map (node_to_string (depth + 2)) else_body) else [])"
| "node_to_string depth (CommentNode text line) =
     indent_str depth @ ''Comment('' @ [CHR 0x22] @ text @ [CHR 0x22] @ '')'' @ at_line line @ [NL]"
| "node_to_string depth (ProgramNode children) =
     indent_str depth @ ''Program:'' @ [NL] @ concat (map (node_to_string (depth + 1)) children)"
| "node_to_string depth (ExtendsNode path line) =
     indent_str depth @ ''Extends('' @ [CHR 0x22] @ path @ [CHR 0x22] @ '')'' @ at_line line @ [NL]"
| "node_to_string depth (SectionNode name body line) =
     indent_str depth @ ''Section('' @ [CHR 0x22] @ name @ [CHR 0x22] @ '')'' @ at_line line @ [NL] @
     indent_str depth @ ''  body:'' @ [NL] @ concat (map (node_to_string (depth + 2)) body)"
| "node_to_string depth (YieldNode name line) =
     indent_str depth @ ''Yield('' @ [CHR 0x22] @ name @ [CHR 0x22] @ '')'' @ at_line line @ [NL]"
| "node_to_string depth (ParentNode line) = indent_str depth @ ''Parent'' @ at_line line @ [NL]"
| "elif_to_string depth (ElseIfBranch conditions body line) =
     indent_str depth @ ''  elif('' @ sep_list ''; '' conditions @ '')'' @ at_line line @ '':'' @ [NL] @
     concat (map (node_to_string (depth + 2)) body)"

definition ast_to_string :: "node \<Rightarrow> nat \<Rightarrow> string" where
  "ast_to_string n depth = node_to_string depth n"

end
