(* ===== verification/Nift_Parser.thy ===== *)
theory Nift_Parser
  imports Nift_Lexer Nift_Ast "HOL-Library.Monad_Syntax"
begin

text \<open>
  The recursive-descent template parser, \<open>crates/parser/ast/parser.cpp\<close>.  The class \<open>Parser\<close>
  is the record \<open>parser\<close>: the token vector, which the parser itself edits (\<open>tokens_.insert\<close> pushes
  back the rest of a text token it has split), and the position.  The mutually recursive
  productions take fuel and return \<open>None\<close> when it runs out; \<open>parse_terminates\<close> shows that fuel
  linear in the remaining text always suffices, so \<open>parse\<close> is total.
\<close>

section \<open>Token navigation\<close>

record parser =
  ps_tokens :: "token list"
  ps_pos :: nat

definition parser_init :: "token list \<Rightarrow> parser" where
  "parser_init tokens = \<lparr>ps_tokens = tokens, ps_pos = 0\<rparr>"

definition text_token :: "string \<Rightarrow> nat \<Rightarrow> token" where
  "text_token v line = \<lparr>tk_type = Text, tk_value = v, tk_line = line, tk_column = 0\<rparr>"

definition eof_token :: token where
  "eof_token = \<lparr>tk_type = Eof, tk_value = [], tk_line = 0, tk_column = 0\<rparr>"

definition parser_peek :: "parser \<Rightarrow> token" where
  "parser_peek ps =
     (if length (ps_tokens ps) \<le> ps_pos ps then eof_token else ps_tokens ps ! ps_pos ps)"

definition parser_advance :: "parser \<Rightarrow> parser" where
  "parser_advance ps =
     (if ps_pos ps < length (ps_tokens ps) then ps\<lparr>ps_pos := Suc (ps_pos ps)\<rparr> else ps)"

definition parser_check :: "token_type \<Rightarrow> parser \<Rightarrow> bool" where
  "parser_check type ps \<longleftrightarrow> tk_type (parser_peek ps) = type"

definition parser_at_end :: "parser \<Rightarrow> bool" where
  "parser_at_end ps \<longleftrightarrow>
     length (ps_tokens ps) \<le> ps_pos ps \<or> tk_type (ps_tokens ps ! ps_pos ps) = Eof"

text \<open>\<open>tokens_.insert(tokens_.begin() + pos_, Token{Text, v, line})\<close>, when \<open>v\<close> is not empty.\<close>

definition push_back_text :: "string \<Rightarrow> nat \<Rightarrow> parser \<Rightarrow> parser" where
  "push_back_text v line ps =
     (if v = [] then ps
      else ps\<lparr>ps_tokens := take (ps_pos ps) (ps_tokens ps) @ text_token v line #
                             drop (ps_pos ps) (ps_tokens ps)\<rparr>)"

section \<open>Arguments\<close>

text \<open>Trim with \<open>find_first_not_of\<close>/\<open>find_last_not_of\<close>; all-blank text becomes empty.\<close>

definition trim_arg :: "string \<Rightarrow> string" where
  "trim_arg current =
     (case (find_first_not_of ws_set current, find_last_not_of ws_set current) of
        (Some start, Some fin) \<Rightarrow> substr start (fin - start + 1) current
      | _ \<Rightarrow> [])"

fun split_args_loop :: "string \<Rightarrow> string list \<Rightarrow> string \<Rightarrow> int \<Rightarrow> string list" where
  "split_args_loop [] args current depth =
     (if current = [] then args else args @ [trim_arg current])"
| "split_args_loop (c # cs) args current depth =
     (if c = CHR ''('' then split_args_loop cs args (current @ [c]) (depth + 1)
      else if c = CHR '')'' then split_args_loop cs args (current @ [c]) (depth - 1)
      else if (c = CHR '','' \<or> c = CHR '';'') \<and> depth = 0
      then split_args_loop cs (args @ [trim_arg current]) [] depth
      else split_args_loop cs args (current @ [c]) depth)"

definition split_args :: "string \<Rightarrow> string list" where
  "split_args text = split_args_loop text [] [] 0"

text \<open>The multi-token case: collect text and variables up to the closing parenthesis.\<close>

function collect_params :: "string \<Rightarrow> parser \<Rightarrow> string \<times> parser" where
  "collect_params accum ps =
     (if parser_at_end ps then (accum, ps)
      else let v = tk_value (parser_peek ps) in
        if parser_check Text ps then
          (case str_find (CHR '')'') 0 v of
             Some cparen \<Rightarrow>
               (accum @ substr 0 cparen v,
                push_back_text (drop (cparen + 1) v) (tk_line (parser_peek ps)) (parser_advance ps))
           | None \<Rightarrow> collect_params (accum @ v) (parser_advance ps))
        else if parser_check VarSimple ps
        then collect_params (accum @ ''$'' @ v) (parser_advance ps)
        else if parser_check VarBracket ps
        then collect_params (accum @ ''${'' @ v @ ''}'') (parser_advance ps)
        else if parser_check VarExpr ps
        then collect_params (accum @ [CHR ''$'', CHR 0x60] @ v @ [CHR 0x60]) (parser_advance ps)
        else (accum, ps))"
  by pat_completeness auto
termination
  by (relation "measure (\<lambda>(accum, ps). length (ps_tokens ps) - ps_pos ps)")
     (auto simp: parser_at_end_def parser_advance_def)

declare collect_params.simps [simp del]

definition parse_directive_args :: "parser \<Rightarrow> string list \<times> string list \<times> parser" where
  "parse_directive_args ps =
     (if \<not> parser_at_end ps \<and> parser_check Text ps then
        let tok_line = tk_line (parser_peek ps); sv = tk_value (parser_peek ps) in
        (case find_first_not_of ws_set sv of
           None \<Rightarrow> ([], [], ps)
         | Some ws_end \<Rightarrow>
             if sv ! ws_end = CHR ''{'' then
               (case str_find (CHR ''}'') ws_end sv of
                  None \<Rightarrow> ([], [], ps)
                | Some close \<Rightarrow>
                    let options = split_args (substr (ws_end + 1) (close - ws_end - 1) sv);
                        remainder = drop (close + 1) sv;
                        ps = parser_advance ps
                    in (case str_find (CHR ''('') 0 remainder of
                          Some paren_pos \<Rightarrow>
                            (case str_find (CHR '')'') paren_pos remainder of
                               Some close_paren \<Rightarrow>
                                 (options,
                                  split_args (substr (paren_pos + 1) (close_paren - paren_pos - 1) remainder),
                                  push_back_text (drop (close_paren + 1) remainder) tok_line ps)
                             | None \<Rightarrow> (options, [], ps))
                        | None \<Rightarrow> (options, [], push_back_text remainder tok_line ps)))
             else if sv ! ws_end = CHR ''('' then
               (case str_find (CHR '')'') ws_end sv of
                  Some close \<Rightarrow>
                    ([], split_args (substr (ws_end + 1) (close - ws_end - 1) sv),
                     push_back_text (drop (close + 1) sv) tok_line (parser_advance ps))
                | None \<Rightarrow>
                    let (accum, ps) = collect_params (drop (ws_end + 1) sv) (parser_advance ps)
                    in ([], split_args accum, ps))
             else ([], [], ps))
      else ([], [], ps))"

definition strip_quotes :: "string \<Rightarrow> string" where
  "strip_quotes s =
     (if 2 \<le> length s \<and> (hd s = CHR 0x22 \<and> last s = CHR 0x22 \<or> hd s = CHR 0x27 \<and> last s = CHR 0x27)
      then substr 1 (length s - 2) s else s)"

definition is_block_directive :: "string \<Rightarrow> bool" where
  "is_block_directive name \<longleftrightarrow>
     name \<in> set [''if'', ''for'', ''while'', ''do-while'', ''f++'', ''n++'', ''f--'', ''n--'',
       ''script'', ''lua'', ''exprtk'', ''read'', ''line'', ''getline'', ''function'', ''console'',
       ''section'']"

text \<open>\<open>check_for_brace\<close> also trims the blanks before the brace off the current token.\<close>

definition check_for_brace :: "parser \<Rightarrow> bool \<times> parser" where
  "check_for_brace ps =
     (if parser_at_end ps then (False, ps)
      else if parser_check Text ps then
        let tok = parser_peek ps; sv = tk_value tok in
        (case find_first_not_of ws_set sv of
           Some ws \<Rightarrow>
             if sv ! ws = CHR ''{'' then
               (True, if 0 < ws
                      then ps\<lparr>ps_tokens := (ps_tokens ps)[ps_pos ps := tok\<lparr>tk_value := drop ws sv\<rparr>]\<rparr>
                      else ps)
             else (False, ps)
         | None \<Rightarrow> (False, ps))
      else (False, ps))"

text \<open>Consume the brace inside the text token and push the rest back.\<close>

definition consume_brace :: "parser \<Rightarrow> parser" where
  "consume_brace ps =
     (if parser_check Text ps then
        let tok = parser_peek ps; sv = tk_value tok in
        (case find_first_not_of ws_set sv of
           Some ws \<Rightarrow>
             if sv ! ws = CHR ''{''
             then push_back_text (drop (ws + 1) sv) (tk_line tok) (parser_advance ps)
             else ps
         | None \<Rightarrow> ps)
      else ps)"

section \<open>Blocks\<close>

text \<open>
  \<open>trimmed.substr(0, 4) == kw\<close> and the byte after it is no identifier character.  A view of a
  \<open>std::string\<close> that reaches its end is followed by the terminating NUL, which is what
  \<open>trimmed[4]\<close> reads on \<open>size() == 4\<close>.
\<close>

definition keyword4 :: "string \<Rightarrow> string \<Rightarrow> bool" where
  "keyword4 kw trimmed \<longleftrightarrow>
     take 4 trimmed = kw \<and> (length trimmed = 4 \<or> \<not> is_identifier_char (trimmed ! 4))"

text \<open>The current token is text whose first word is \<open>elif\<close> or \<open>else\<close>.\<close>

definition at_elif_else :: "parser \<Rightarrow> bool" where
  "at_elif_else ps \<longleftrightarrow>
     parser_check Text ps \<and>
     (case find_first_not_of ws_set (tk_value (parser_peek ps)) of
        Some ws \<Rightarrow> keyword4 ''elif'' (drop ws (tk_value (parser_peek ps))) \<or>
                   keyword4 ''else'' (drop ws (tk_value (parser_peek ps)))
      | None \<Rightarrow> False)"

text \<open>
  The end of \<open>parse_block_body\<close>: leading blank text nodes are dropped, and one newline at the
  start of the first text node.
\<close>

fun blank_text_node :: "node \<Rightarrow> bool" where
  "blank_text_node (TextNode text line) = is_whitespace_only text"
| "blank_text_node _ = False"

definition clean_body :: "node list \<Rightarrow> node list" where
  "clean_body body =
     (case dropWhile blank_text_node body of
        TextNode text line # rest \<Rightarrow>
          (case text of c # cs \<Rightarrow> TextNode (if c = NL then cs else text) line # rest
           | [] \<Rightarrow> TextNode text line # rest)
      | body' \<Rightarrow> body')"

text \<open>\<open>elif_conditions\<close>: what stands between the first parenthesis and the next closing one.\<close>

definition elif_conditions :: "string \<Rightarrow> nat \<Rightarrow> parser \<Rightarrow> string list \<times> parser" where
  "elif_conditions cond_text tok_line ps =
     (case str_find (CHR ''('') 0 cond_text of
        None \<Rightarrow> ([], ps)
      | Some open \<Rightarrow>
          (case str_find (CHR '')'') open cond_text of
             None \<Rightarrow> ([], ps)
           | Some close \<Rightarrow>
               let cond = substr (open + 1) (close - open - 1) cond_text
               in ((case find_first_not_of ws_set cond of None \<Rightarrow> [] | Some _ \<Rightarrow> [trim_arg cond]),
                   push_back_text (drop (close + 1) cond_text) tok_line ps)))"

section \<open>The productions\<close>

definition text_node_of :: "token \<Rightarrow> node" where
  "text_node_of t = TextNode (tk_value t) (tk_line t)"

text \<open>
  The productions call each other through \<open>parse_node\<close> only, so \<open>parse_node\<close> is the recursion on
  fuel and the others take it as the argument \<open>pn\<close> (\<open>parse_node\<close> with less fuel); the loops of
  \<open>parse_block_body\<close> and of the \<open>elif\<close>/\<open>else\<close> part of \<open>parse_block\<close> take fuel of their own.
\<close>

type_synonym node_parser = "parser \<Rightarrow> (node option \<times> parser) option"

definition snoc_node :: "node list \<Rightarrow> node option \<Rightarrow> node list" where
  "snoc_node ns n = (case n of Some n \<Rightarrow> ns @ [n] | None \<Rightarrow> ns)"

fun parse_block_body :: "node_parser \<Rightarrow> nat \<Rightarrow> node list \<Rightarrow> parser \<Rightarrow> (node list \<times> parser) option" where
  "parse_block_body pn 0 body ps = None"
| "parse_block_body pn (Suc fuel) body ps =
     (if parser_at_end ps then Some (clean_body body, ps)
      else let v = tk_value (parser_peek ps); line = tk_line (parser_peek ps) in
      case (if parser_check Text ps then str_find (CHR ''}'') 0 v else None) of
        Some brace_pos \<Rightarrow>
          Some (clean_body (if brace_pos = 0 then body else body @ [TextNode (substr 0 brace_pos v) line]),
                push_back_text (drop (brace_pos + 1) v) line (parser_advance ps))
      | None \<Rightarrow>
          if parser_check Directive ps \<and> (v = ''endsection'' \<or> v = ''ends'')
          then Some (clean_body body, parser_advance ps)
          else if at_elif_else ps then Some (clean_body body, ps)
          else (case pn ps of
                  None \<Rightarrow> None
                | Some (n, ps) \<Rightarrow> parse_block_body pn fuel (snoc_node body n) ps))"

fun parse_elifs :: "node_parser \<Rightarrow> nat \<Rightarrow> else_if_branch list \<Rightarrow> node list \<Rightarrow> bool \<Rightarrow> parser \<Rightarrow>
    (else_if_branch list \<times> node list \<times> bool \<times> parser) option" where
  "parse_elifs pn 0 elifs else_body has_else ps = None"
| "parse_elifs pn (Suc fuel) elifs else_body has_else ps =
     (if parser_at_end ps \<or> \<not> parser_check Text ps then Some (elifs, else_body, has_else, ps)
      else let v = tk_value (parser_peek ps); tok_line = tk_line (parser_peek ps) in
      case find_first_not_of ws_set v of
        None \<Rightarrow> Some (elifs, else_body, has_else, ps)
      | Some ws \<Rightarrow>
          let trimmed = drop ws v in
          if keyword4 ''elif'' trimmed then
            let (conds, ps) = elif_conditions (drop 4 trimmed) tok_line (parser_advance ps);
                (brace, ps) = check_for_brace ps
            in if brace then
                 (case parse_block_body pn fuel [] (consume_brace ps) of
                    None \<Rightarrow> None
                  | Some (body, ps) \<Rightarrow>
                      parse_elifs pn fuel (elifs @ [ElseIfBranch conds body tok_line]) else_body has_else ps)
               else parse_elifs pn fuel elifs else_body has_else ps
          else if keyword4 ''else'' trimmed then
            let (brace, ps) = check_for_brace (push_back_text (drop 4 trimmed) tok_line (parser_advance ps))
            in if brace then
                 (case parse_block_body pn fuel [] (consume_brace ps) of
                    None \<Rightarrow> None
                  | Some (body, ps) \<Rightarrow> parse_elifs pn fuel elifs body True ps)
               else parse_elifs pn fuel elifs else_body has_else ps
          else Some (elifs, else_body, has_else, ps))"

definition parse_block :: "node_parser \<Rightarrow> nat \<Rightarrow> string \<Rightarrow> string list \<Rightarrow> string list \<Rightarrow> nat \<Rightarrow> parser \<Rightarrow>
    (node \<times> parser) option" where
  "parse_block pn fuel name options params line ps =
     do { (body, ps) \<leftarrow> parse_block_body pn fuel [] (consume_brace ps);
          (elifs, else_body, has_else, ps) \<leftarrow> parse_elifs pn fuel [] [] False ps;
          Some (BlockNode name options params body elifs else_body has_else line, ps) }"

text \<open>A \<open>@section\<close> block with a name becomes a \<open>SectionNode\<close>.\<close>

fun section_of_block :: "nat \<Rightarrow> node \<Rightarrow> node" where
  "section_of_block line (BlockNode name options (p # ps) body elifs else_body has_else l) =
     SectionNode (strip_quotes p) body line"
| "section_of_block line block = block"

definition parse_directive :: "node_parser \<Rightarrow> nat \<Rightarrow> parser \<Rightarrow> (node \<times> parser) option" where
  "parse_directive pn fuel ps =
     (let tok = parser_peek ps; name = tk_value tok; line = tk_line tok;
          (options, params, ps) = parse_directive_args (parser_advance ps)
      in if name = ''extends'' \<and> params \<noteq> [] then Some (ExtendsNode (strip_quotes (hd params)) line, ps)
         else if name = ''yield'' \<and> params \<noteq> [] then Some (YieldNode (strip_quotes (hd params)) line, ps)
         else if name = ''parent'' then Some (ParentNode line, ps)
         else let (brace, ps) = (if is_block_directive name then check_for_brace ps else (False, ps))
         in if brace then
              (case parse_block pn fuel name options params line ps of
                 None \<Rightarrow> None
               | Some (block, ps) \<Rightarrow>
                   Some (if name = ''section'' then section_of_block line block else block, ps))
            else Some (DirectiveNode name options params line, ps))"

primrec parse_node :: "nat \<Rightarrow> node_parser" where
  "parse_node 0 = (\<lambda>ps. None)"
| "parse_node (Suc fuel) = (\<lambda>ps.
     let tok = parser_peek ps in
      case tk_type tok of
        LineComment \<Rightarrow> Some (Some (CommentNode (tk_value tok) (tk_line tok)), parser_advance ps)
      | BlockComment \<Rightarrow> Some (Some (CommentNode (tk_value tok) (tk_line tok)), parser_advance ps)
      | Directive \<Rightarrow> map_option (\<lambda>(n, ps). (Some n, ps)) (parse_directive (parse_node fuel) fuel ps)
      | VarSimple \<Rightarrow> Some (Some (VarNode Simple (tk_value tok) (tk_line tok)), parser_advance ps)
      | VarBracket \<Rightarrow> Some (Some (VarNode Bracket (tk_value tok) (tk_line tok)), parser_advance ps)
      | VarExpr \<Rightarrow> Some (Some (VarNode Expr (tk_value tok) (tk_line tok)), parser_advance ps)
      | Text \<Rightarrow> Some (Some (text_node_of tok), parser_advance ps)
      | _ \<Rightarrow> Some (None, parser_advance ps))"

primrec parse_loop :: "node_parser \<Rightarrow> nat \<Rightarrow> node list \<Rightarrow> parser \<Rightarrow> (node list \<times> parser) option" where
  "parse_loop pn 0 = (\<lambda>children ps. None)"
| "parse_loop pn (Suc fuel) = (\<lambda>children ps.
     if parser_at_end ps then Some (children, ps)
     else (case pn ps of
             None \<Rightarrow> None
           | Some (n, ps) \<Rightarrow> parse_loop pn fuel (snoc_node children n) ps))"

section \<open>Enough fuel\<close>

text \<open>The text still to be parsed: every production consumes some of it.\<close>

definition ps_weight :: "parser \<Rightarrow> nat" where
  "ps_weight ps = (\<Sum>t\<leftarrow>drop (ps_pos ps) (ps_tokens ps). Suc (length (tk_value t)))"

lemma not_parser_at_endD: "\<not> parser_at_end ps \<Longrightarrow> ps_pos ps < length (ps_tokens ps)"
  by (simp add: parser_at_end_def)

lemma parser_check_pos: "parser_check ty ps \<Longrightarrow> ty \<noteq> Eof \<Longrightarrow> ps_pos ps < length (ps_tokens ps)"
  by (auto simp: parser_check_def parser_peek_def eof_token_def split: if_splits)

lemma ps_weight_advance:
  "ps_pos ps < length (ps_tokens ps) \<Longrightarrow>
   ps_weight ps = Suc (length (tk_value (parser_peek ps))) + ps_weight (parser_advance ps)"
  by (simp add: ps_weight_def parser_peek_def parser_advance_def Cons_nth_drop_Suc [symmetric])

lemma ps_weight_advance_le: "ps_weight (parser_advance ps) \<le> ps_weight ps"
  using ps_weight_advance [of ps] by (cases "ps_pos ps < length (ps_tokens ps)")
    (auto simp: parser_advance_def)

lemma ps_weight_push_back:
  "ps_weight (push_back_text v line ps) \<le> ps_weight ps + (if v = [] then 0 else Suc (length v))"
proof (cases "ps_pos ps \<le> length (ps_tokens ps)")
  case True
  then show ?thesis by (simp add: push_back_text_def ps_weight_def text_token_def)
next
  case False
  then show ?thesis by (simp add: push_back_text_def ps_weight_def)
qed

text \<open>Splitting the current text token and pushing back a proper suffix consumes something.\<close>

lemma ps_weight_resplit:
  assumes "ps_pos ps < length (ps_tokens ps)" "length v < length (tk_value (parser_peek ps))"
  shows "ps_weight (push_back_text v line (parser_advance ps)) < ps_weight ps"
  using ps_weight_push_back [of v line "parser_advance ps"] ps_weight_advance [OF assms(1)] assms(2)
  by (auto split: if_splits)

lemma ps_weight_resplit_drop:
  assumes "parser_check Text ps" "i < length (tk_value (parser_peek ps))"
  shows "ps_weight (push_back_text (drop (Suc i) (tk_value (parser_peek ps))) line (parser_advance ps)) < ps_weight ps"
  using assms by (intro ps_weight_resplit) (auto dest: parser_check_pos)

lemma collect_params_weight: "ps_weight (snd (collect_params accum ps)) \<le> ps_weight ps"
proof (induction accum ps rule: collect_params.induct)
  case (1 accum ps)
  show ?case
  proof (cases "parser_at_end ps")
    case True
    then show ?thesis by (simp add: collect_params.simps [of accum ps])
  next
    case False
    note adv = ps_weight_advance_le [of ps]
    have split: "ps_weight (push_back_text (drop (i + 1) (tk_value (parser_peek ps))) l (parser_advance ps)) \<le> ps_weight ps"
      if "str_find (CHR '')'') 0 (tk_value (parser_peek ps)) = Some i" "parser_check Text ps" for i l
      using ps_weight_resplit_drop [OF that(2), of i l] str_find_SomeD [OF that(1)] by simp
    show ?thesis
      using 1 False adv split
      by (subst collect_params.simps) (auto simp: Let_def intro: le_trans split: option.splits)
  qed
qed

lemma parse_directive_args_weight:
  "parse_directive_args ps = (options, params, ps') \<Longrightarrow> ps_weight ps' \<le> ps_weight ps"
proof -
  assume r: "parse_directive_args ps = (options, params, ps')"
  show ?thesis
  proof (cases "\<not> parser_at_end ps \<and> parser_check Text ps")
    case False
    with r show ?thesis by (auto simp: parse_directive_args_def)
  next
    case True
    define v where "v = tk_value (parser_peek ps)"
    have pos: "ps_pos ps < length (ps_tokens ps)" using True by (auto dest: not_parser_at_endD)
    have adv: "ps_weight ps = Suc (length v) + ps_weight (parser_advance ps)"
      using ps_weight_advance [OF pos] by (simp add: v_def)
    have pb: "ps_weight (push_back_text w l (parser_advance ps)) \<le> ps_weight ps" if "length w \<le> length v" for w l
      using ps_weight_push_back [of w l "parser_advance ps"] that adv by (auto split: if_splits)
    have col: "ps_weight (snd (collect_params a (parser_advance ps))) \<le> ps_weight ps" for a
      using collect_params_weight [of a "parser_advance ps"] adv by simp
    show ?thesis
      using r True pb col adv
      by (auto simp: parse_directive_args_def Let_def v_def [symmetric] case_prod_beta prod_eq_iff
          split: option.splits if_splits)
  qed
qed

lemma check_for_brace_weight:
  "check_for_brace ps = (b, ps') \<Longrightarrow> ps_weight ps' \<le> ps_weight ps"
proof -
  assume r: "check_for_brace ps = (b, ps')"
  have upd: "ps_weight (ps\<lparr>ps_tokens := (ps_tokens ps)[ps_pos ps := (parser_peek ps)\<lparr>tk_value := drop n (tk_value (parser_peek ps))\<rparr>]\<rparr>) \<le> ps_weight ps"
    if "ps_pos ps < length (ps_tokens ps)" for n
    using that by (simp add: ps_weight_def parser_peek_def Cons_nth_drop_Suc [symmetric] drop_update_swap)
  show ?thesis using r upd
    by (auto simp: check_for_brace_def Let_def dest: not_parser_at_endD split: option.splits if_splits)
qed

lemma consume_brace_weight: "ps_weight (consume_brace ps) \<le> ps_weight ps"
proof -
  have "ps_weight (push_back_text (drop (Suc n) (tk_value (parser_peek ps))) l (parser_advance ps)) \<le> ps_weight ps"
    if "find_first_not_of ws_set (tk_value (parser_peek ps)) = Some n" "parser_check Text ps" for n l
    using ps_weight_resplit_drop [OF that(2), of n l] find_first_not_of_less [OF that(1)] by simp
  then show ?thesis by (auto simp: consume_brace_def Let_def split: option.splits)
qed

text \<open>The productions return, and consume, on every parser state no heavier than \<open>w\<close>.\<close>

definition node_parser_ok :: "nat \<Rightarrow> node_parser \<Rightarrow> bool" where
  "node_parser_ok w pn \<longleftrightarrow>
     (\<forall>ps. ps_weight ps \<le> w \<longrightarrow> \<not> parser_at_end ps \<longrightarrow>
        (\<exists>n ps'. pn ps = Some (n, ps') \<and> ps_weight ps' < ps_weight ps))"

text \<open>The branches of the body loop.\<close>

definition body_brace :: "parser \<Rightarrow> nat option" where
  "body_brace ps = (if parser_check Text ps then str_find (CHR ''}'') 0 (tk_value (parser_peek ps)) else None)"

definition body_stop :: "parser \<Rightarrow> bool" where
  "body_stop ps \<longleftrightarrow> parser_check Directive ps \<and>
     (tk_value (parser_peek ps) = ''endsection'' \<or> tk_value (parser_peek ps) = ''ends'')"

lemma parse_block_body_unfold:
  "parse_block_body pn (Suc fuel) body ps =
     (if parser_at_end ps then Some (clean_body body, ps)
      else case body_brace ps of
        Some i \<Rightarrow>
          Some (clean_body (if i = 0 then body
                  else body @ [TextNode (take i (tk_value (parser_peek ps))) (tk_line (parser_peek ps))]),
                push_back_text (drop (Suc i) (tk_value (parser_peek ps))) (tk_line (parser_peek ps)) (parser_advance ps))
      | None \<Rightarrow>
          if body_stop ps then Some (clean_body body, parser_advance ps)
          else if at_elif_else ps then Some (clean_body body, ps)
          else (case pn ps of None \<Rightarrow> None
                | Some (n, ps) \<Rightarrow> parse_block_body pn fuel (snoc_node body n) ps))"
  by (simp only: parse_block_body.simps Let_def body_brace_def body_stop_def substr_def drop_0
      Suc_eq_plus1 [symmetric])

declare parse_block_body.simps(2) [simp del]

lemma body_brace_weight:
  "body_brace ps = Some i \<Longrightarrow>
   ps_weight (push_back_text (drop (Suc i) (tk_value (parser_peek ps))) line (parser_advance ps)) < ps_weight ps"
  using str_find_SomeD [of "CHR ''}''" 0 "tk_value (parser_peek ps)" i]
  by (auto simp: body_brace_def intro: ps_weight_resplit_drop split: if_splits)

lemma parse_block_body_returns:
  assumes ok: "node_parser_ok w pn"
  shows "ps_weight ps \<le> w \<Longrightarrow> ps_weight ps < fuel \<Longrightarrow>
    \<exists>b ps'. parse_block_body pn fuel body ps = Some (b, ps') \<and> ps_weight ps' \<le> ps_weight ps"
proof (induction fuel arbitrary: body ps)
  case (Suc fuel)
  have step: "\<exists>n ps1. pn ps = Some (n, ps1) \<and> ps_weight ps1 < ps_weight ps" if "\<not> parser_at_end ps"
    using ok Suc.prems that by (auto simp: node_parser_ok_def)
  have IH: "\<exists>b ps'. parse_block_body pn fuel (snoc_node body n) ps1 = Some (b, ps') \<and> ps_weight ps' \<le> ps_weight ps"
    if "ps_weight ps1 < ps_weight ps" for n ps1
    using Suc.IH [of ps1 "snoc_node body n"] Suc.prems that by auto
  show ?case
  proof (cases "parser_at_end ps")
    case True
    then show ?thesis by (simp add: parse_block_body_unfold)
  next
    case False
    with step obtain n ps1 where "pn ps = Some (n, ps1)" "ps_weight ps1 < ps_weight ps" by blast
    with IH [of ps1 n] False body_brace_weight [of ps] ps_weight_advance_le [of ps]
    show ?thesis by (auto simp: parse_block_body_unfold less_imp_le split: option.splits)
  qed
qed simp

lemma elif_conditions_weight:
  "elif_conditions c l ps = (cs, ps') \<Longrightarrow> ps_weight ps' \<le> ps_weight ps + Suc (length c)"
  using ps_weight_push_back [of "drop (Suc (the (str_find (CHR '')'') (the (str_find (CHR ''('') 0 c)) c))) c" l ps]
  by (auto simp: elif_conditions_def Let_def split: option.splits if_splits)

lemma keyword4_length: "keyword4 kw s \<Longrightarrow> length kw = 4 \<Longrightarrow> 4 \<le> length s"
  by (cases "4 \<le> length s") (auto simp: keyword4_def)

text \<open>What the \<open>elif\<close>/\<open>else\<close> loop finds at the current token, the keyword and condition consumed.\<close>

datatype elif_head = No_branch | Elif_branch "string list" nat bool parser | Else_branch bool parser

definition elif_head :: "parser \<Rightarrow> elif_head" where
  "elif_head ps =
     (let v = tk_value (parser_peek ps); tok_line = tk_line (parser_peek ps) in
      if parser_at_end ps \<or> \<not> parser_check Text ps then No_branch
      else case find_first_not_of ws_set v of
        None \<Rightarrow> No_branch
      | Some ws \<Rightarrow>
          if keyword4 ''elif'' (drop ws v) then
            let (conds, ps) = elif_conditions (drop 4 (drop ws v)) tok_line (parser_advance ps);
                (brace, ps) = check_for_brace ps
            in Elif_branch conds tok_line brace ps
          else if keyword4 ''else'' (drop ws v) then
            let (brace, ps) = check_for_brace (push_back_text (drop 4 (drop ws v)) tok_line (parser_advance ps))
            in Else_branch brace ps
          else No_branch)"

lemma parse_elifs_unfold:
  "parse_elifs pn (Suc fuel) elifs else_body has_else ps =
     (case elif_head ps of
        No_branch \<Rightarrow> Some (elifs, else_body, has_else, ps)
      | Elif_branch conds line brace ps \<Rightarrow>
          if brace then
            (case parse_block_body pn fuel [] (consume_brace ps) of
               None \<Rightarrow> None
             | Some (body, ps) \<Rightarrow>
                 parse_elifs pn fuel (elifs @ [ElseIfBranch conds body line]) else_body has_else ps)
          else parse_elifs pn fuel elifs else_body has_else ps
      | Else_branch brace ps \<Rightarrow>
          if brace then
            (case parse_block_body pn fuel [] (consume_brace ps) of
               None \<Rightarrow> None
             | Some (body, ps) \<Rightarrow> parse_elifs pn fuel elifs body True ps)
          else parse_elifs pn fuel elifs else_body has_else ps)"
  by (auto simp: elif_head_def Let_def split: option.split prod.split)

declare parse_elifs.simps(2) [simp del]

lemma elif_head_weight:
  "elif_head ps = Elif_branch conds line brace q \<Longrightarrow> ps_weight q < ps_weight ps"
  "elif_head ps = Else_branch brace q \<Longrightarrow> ps_weight q < ps_weight ps"
proof -
  define v where "v = tk_value (parser_peek ps)"
  define l where "l = tk_line (parser_peek ps)"
  have len: "length (drop ws v) \<le> length v" for ws by simp
  have adv: "\<not> parser_at_end ps \<Longrightarrow> ps_weight ps = Suc (length v) + ps_weight (parser_advance ps)"
    using ps_weight_advance [OF not_parser_at_endD] by (simp add: v_def)
  show "ps_weight q < ps_weight ps" if "elif_head ps = Elif_branch conds line brace q"
  proof -
    from that obtain ws where k: "keyword4 ''elif'' (drop ws v)" and ne: "\<not> parser_at_end ps"
      and q: "q = snd (check_for_brace (snd (elif_conditions (drop 4 (drop ws v)) l (parser_advance ps))))"
      by (auto simp: elif_head_def v_def l_def Let_def case_prod_beta split: option.splits if_splits)
    obtain cs r where e: "elif_conditions (drop 4 (drop ws v)) l (parser_advance ps) = (cs, r)"
      by (cases "elif_conditions (drop 4 (drop ws v)) l (parser_advance ps)")
    have "ps_weight r < ps_weight ps"
      using elif_conditions_weight [OF e] adv [OF ne] len [of ws] keyword4_length [OF k] by simp
    with q e show ?thesis
      using check_for_brace_weight [of r "fst (check_for_brace r)" "snd (check_for_brace r)"] by simp
  qed
  show "ps_weight q < ps_weight ps" if "elif_head ps = Else_branch brace q"
  proof -
    from that obtain ws where k: "keyword4 ''else'' (drop ws v)" and ne: "\<not> parser_at_end ps"
      and q: "q = snd (check_for_brace (push_back_text (drop 4 (drop ws v)) l (parser_advance ps)))"
      by (auto simp: elif_head_def v_def l_def Let_def case_prod_beta split: option.splits if_splits)
    define r where "r = push_back_text (drop 4 (drop ws v)) l (parser_advance ps)"
    have "ps_weight r < ps_weight ps"
      using ps_weight_resplit [OF not_parser_at_endD [OF ne], of "drop 4 (drop ws v)" l] len [of ws]
        keyword4_length [OF k] by (simp add: v_def r_def)
    with q show ?thesis
      using check_for_brace_weight [of r "fst (check_for_brace r)" "snd (check_for_brace r)"]
      by (simp add: r_def)
  qed
qed

lemma parse_elifs_returns:
  assumes ok: "node_parser_ok w pn"
  shows "ps_weight ps \<le> w \<Longrightarrow> ps_weight ps < fuel \<Longrightarrow>
    \<exists>es eb h ps'. parse_elifs pn fuel elifs else_body has_else ps = Some (es, eb, h, ps') \<and>
      ps_weight ps' \<le> ps_weight ps"
proof (induction fuel arbitrary: elifs else_body has_else ps)
  case (Suc fuel)
  have body: "\<exists>b r. parse_block_body pn fuel [] (consume_brace q) = Some (b, r) \<and> ps_weight r < ps_weight ps"
    if "ps_weight q < ps_weight ps" for q
    using parse_block_body_returns [OF ok, of "consume_brace q" fuel "[]"] consume_brace_weight [of q]
      Suc.prems that by fastforce
  have IH: "\<exists>es eb h ps'. parse_elifs pn fuel elifs' else_body' has_else' q = Some (es, eb, h, ps') \<and>
      ps_weight ps' \<le> ps_weight ps" if "ps_weight q < ps_weight ps" for elifs' else_body' has_else' q
    using Suc.IH [of q elifs' else_body' has_else'] Suc.prems that by fastforce
  show ?case
  proof (cases "elif_head ps")
    case No_branch
    then show ?thesis by (simp add: parse_elifs_unfold)
  next
    case (Elif_branch conds line brace q)
    note w = elif_head_weight(1) [OF this]
    from body [OF w] IH [OF w] IH Elif_branch show ?thesis by (auto simp: parse_elifs_unfold)
  next
    case (Else_branch brace q)
    note w = elif_head_weight(2) [OF this]
    from body [OF w] IH [OF w] IH Else_branch show ?thesis by (auto simp: parse_elifs_unfold)
  qed
qed simp

lemma parse_block_returns:
  assumes ok: "node_parser_ok w pn" and "ps_weight ps \<le> w" "ps_weight ps < fuel"
  shows "\<exists>n ps'. parse_block pn fuel name options params line ps = Some (n, ps') \<and> ps_weight ps' \<le> ps_weight ps"
proof -
  have c: "ps_weight (consume_brace ps) \<le> ps_weight ps" by (rule consume_brace_weight)
  obtain b q where b: "parse_block_body pn fuel [] (consume_brace ps) = Some (b, q)" "ps_weight q \<le> ps_weight ps"
    using parse_block_body_returns [OF ok, of "consume_brace ps" fuel "[]"] c assms by auto
  then show ?thesis
    using parse_elifs_returns [OF ok, of q fuel "[]" "[]" False] assms
    by (fastforce simp: parse_block_def)
qed

lemma parse_directive_returns:
  assumes ok: "node_parser_ok w pn" and ne: "\<not> parser_at_end ps"
    and "ps_weight ps \<le> Suc w" "ps_weight ps \<le> fuel"
  shows "\<exists>n ps'. parse_directive pn fuel ps = Some (n, ps') \<and> ps_weight ps' < ps_weight ps"
proof -
  obtain options params q where a: "parse_directive_args (parser_advance ps) = (options, params, q)"
    by (cases "parse_directive_args (parser_advance ps)")
  have q: "ps_weight q < ps_weight ps"
    using parse_directive_args_weight [OF a] ps_weight_advance [OF not_parser_at_endD [OF ne]] by simp
  obtain b r where r: "(if is_block_directive (tk_value (parser_peek ps)) then check_for_brace q else (False, q)) = (b, r)"
    by (cases "if is_block_directive (tk_value (parser_peek ps)) then check_for_brace q else (False, q)")
  have rw: "ps_weight r < ps_weight ps"
    using r q check_for_brace_weight [of q b r] by (auto split: if_splits)
  have "\<exists>n ps'. parse_block pn fuel (tk_value (parser_peek ps)) options params (tk_line (parser_peek ps)) r =
      Some (n, ps') \<and> ps_weight ps' \<le> ps_weight r"
    using parse_block_returns [OF ok, of r] rw assms by simp
  then show ?thesis using a q r rw
    by (auto simp: parse_directive_def Let_def)
qed

lemma parse_node_ok: "w < fuel \<Longrightarrow> node_parser_ok w (parse_node fuel)"
proof (induction fuel arbitrary: w)
  case (Suc fuel)
  show ?case unfolding node_parser_ok_def
  proof (intro allI impI)
    fix ps assume w: "ps_weight ps \<le> w" and ne: "\<not> parser_at_end ps"
    note adv = ps_weight_advance [OF not_parser_at_endD [OF ne]]
    have "\<exists>n ps'. parse_directive (parse_node fuel) fuel ps = Some (n, ps') \<and> ps_weight ps' < ps_weight ps"
    proof (rule parse_directive_returns)
      show "node_parser_ok (ps_weight ps - 1) (parse_node fuel)"
        using Suc.prems w adv by (intro Suc.IH) simp
    qed (use ne w Suc.prems in auto)
    then show "\<exists>n ps'. parse_node (Suc fuel) ps = Some (n, ps') \<and> ps_weight ps' < ps_weight ps"
      using adv by (auto simp: Let_def split: token_type.splits)
  qed
qed simp

lemma parse_loop_returns:
  assumes ok: "node_parser_ok w pn"
  shows "ps_weight ps \<le> w \<Longrightarrow> ps_weight ps < fuel \<Longrightarrow>
    \<exists>ns ps'. parse_loop pn fuel children ps = Some (ns, ps') \<and> parser_at_end ps'"
proof (induction fuel arbitrary: children ps)
  case (Suc fuel)
  show ?case
  proof (cases "parser_at_end ps")
    case True
    then show ?thesis by simp
  next
    case False
    then obtain n ps1 where "pn ps = Some (n, ps1)" "ps_weight ps1 < ps_weight ps"
      using ok Suc.prems by (auto simp: node_parser_ok_def)
    with Suc.IH [of ps1 "snoc_node children n"] Suc.prems False show ?thesis by auto
  qed
qed simp

section \<open>Fuel does not matter once it is enough\<close>

definition node_parser_le :: "node_parser \<Rightarrow> node_parser \<Rightarrow> bool" where
  "node_parser_le pn pn' \<longleftrightarrow> (\<forall>ps r. pn ps = Some r \<longrightarrow> pn' ps = Some r)"

lemma parse_block_body_mono:
  assumes le: "node_parser_le pn pn'"
  shows "parse_block_body pn fuel body ps = Some r \<Longrightarrow> fuel \<le> fuel' \<Longrightarrow>
    parse_block_body pn' fuel' body ps = Some r"
proof (induction fuel arbitrary: body ps fuel')
  case (Suc fuel)
  then obtain f where f: "fuel' = Suc f" "fuel \<le> f" by (cases fuel') auto
  have "pn' ps = Some x" if "pn ps = Some x" for x using le that unfolding node_parser_le_def by blast
  with Suc.IH [OF _ f(2)] Suc.prems(1) f(1) show ?case
    by (auto simp: parse_block_body_unfold split: option.splits if_splits)
qed simp

lemma parse_elifs_mono:
  assumes le: "node_parser_le pn pn'"
  shows "parse_elifs pn fuel es eb h ps = Some r \<Longrightarrow> fuel \<le> fuel' \<Longrightarrow>
    parse_elifs pn' fuel' es eb h ps = Some r"
proof (induction fuel arbitrary: es eb h ps fuel')
  case (Suc fuel)
  then obtain f where f: "fuel' = Suc f" "fuel \<le> f" by (cases fuel') auto
  note body = parse_block_body_mono [OF le _ f(2)]
  note IH = Suc.IH [OF _ f(2)]
  show ?case
    using Suc.prems(1)
    by (cases "elif_head ps")
       (auto simp: f(1) parse_elifs_unfold dest!: body IH split: option.splits if_splits)
qed simp

lemma parse_block_mono:
  assumes le: "node_parser_le pn pn'" and f: "fuel \<le> fuel'"
    and r: "parse_block pn fuel name options params line ps = Some r"
  shows "parse_block pn' fuel' name options params line ps = Some r"
proof -
  from r obtain body q where b: "parse_block_body pn fuel [] (consume_brace ps) = Some (body, q)"
    by (auto simp: parse_block_def Option.bind_eq_Some_conv)
  from r b obtain x where "parse_elifs pn fuel [] [] False q = Some x"
    by (auto simp: parse_block_def Option.bind_eq_Some_conv)
  from parse_block_body_mono [OF le b f] parse_elifs_mono [OF le this f] r b this
  show ?thesis by (auto simp: parse_block_def)
qed

lemma parse_directive_mono:
  assumes le: "node_parser_le pn pn'" and f: "fuel \<le> fuel'"
    and res: "parse_directive pn fuel ps = Some x"
  shows "parse_directive pn' fuel' ps = Some x"
proof -
  define name line where "name = tk_value (parser_peek ps)" and "line = tk_line (parser_peek ps)"
  obtain options params q where a: "parse_directive_args (parser_advance ps) = (options, params, q)"
    by (cases "parse_directive_args (parser_advance ps)")
  obtain b r where r: "(if is_block_directive name then check_for_brace q else (False, q)) = (b, r)"
    by (cases "if is_block_directive name then check_for_brace q else (False, q)")
  define block where "block p = (case p of None \<Rightarrow> None
     | Some (n, ps) \<Rightarrow> Some (if name = ''section'' then section_of_block line n else n, ps))"
    for p :: "(node \<times> parser) option"
  have eq: "parse_directive p g ps =
      (if name = ''extends'' \<and> params \<noteq> [] then Some (ExtendsNode (strip_quotes (hd params)) line, q)
       else if name = ''yield'' \<and> params \<noteq> [] then Some (YieldNode (strip_quotes (hd params)) line, q)
       else if name = ''parent'' then Some (ParentNode line, q)
       else if b then block (parse_block p g name options params line r)
       else Some (DirectiveNode name options params line, r))" for p g
    by (simp only: parse_directive_def Let_def name_def [symmetric] line_def [symmetric] a r prod.case block_def)
  have "block (parse_block pn' fuel' name options params line r) = Some x"
    if "block (parse_block pn fuel name options params line r) = Some x"
    using that parse_block_mono [OF le f, of name options params line r]
    by (auto simp: block_def split: option.splits)
  with res show ?thesis unfolding eq by (auto split: if_splits)
qed

lemma parse_node_mono: "fuel \<le> fuel' \<Longrightarrow> node_parser_le (parse_node fuel) (parse_node fuel')"
proof (induction fuel arbitrary: fuel')
  case (Suc fuel)
  then obtain f where f: "fuel' = Suc f" "fuel \<le> f" by (cases fuel') auto
  note d = parse_directive_mono [OF Suc.IH [OF f(2)] f(2)]
  show ?case unfolding node_parser_le_def
    by (auto simp: f(1) Let_def dest: d split: token_type.splits)
qed (simp add: node_parser_le_def)

lemma parse_loop_mono:
  assumes le: "node_parser_le pn pn'"
  shows "parse_loop pn fuel children ps = Some r \<Longrightarrow> fuel \<le> fuel' \<Longrightarrow>
    parse_loop pn' fuel' children ps = Some r"
proof (induction fuel arbitrary: children ps fuel')
  case (Suc fuel)
  then obtain f where f: "fuel' = Suc f" "fuel \<le> f" by (cases fuel') auto
  have "pn' ps = Some x" if "pn ps = Some x" for x using le that unfolding node_parser_le_def by blast
  with Suc.IH [OF _ f(2)] Suc.prems(1) f(1) show ?case by (auto split: option.splits if_splits)
qed simp

section \<open>Parsing a template\<close>

definition parse_fuel :: "token list \<Rightarrow> nat" where
  "parse_fuel tokens = Suc (ps_weight (parser_init tokens))"

text \<open>\<open>Parser::parse()\<close> and \<open>parse_template\<close>.\<close>

definition parse :: "token list \<Rightarrow> node" where
  "parse tokens =
     (case parse_loop (parse_node (parse_fuel tokens)) (parse_fuel tokens) [] (parser_init tokens) of
        Some (children, ps) \<Rightarrow> ProgramNode children
      | None \<Rightarrow> ProgramNode [])"

definition parse_template :: "string \<Rightarrow> node" where
  "parse_template source = parse (tokenize source)"

lemma parse_fuel_returns:
  "\<exists>ns ps. parse_loop (parse_node (parse_fuel tokens)) (parse_fuel tokens) [] (parser_init tokens) =
     Some (ns, ps) \<and> parser_at_end ps"
  by (rule parse_loop_returns [OF parse_node_ok [of "ps_weight (parser_init tokens)"]]) (auto simp: parse_fuel_def)

text \<open>C5: The parser always terminates with a tree.  For every token list the fuel \<open>parse_fuel\<close>
  (one more than the text and tokens to consume) is enough, the parse stops at the end of the
  tokens, and any larger fuel gives the same tree: the answer of \<open>parse\<close> is that tree, never the
  default of a run that stopped early.\<close>

theorem parse_terminates:
  "\<exists>children ps. parser_at_end ps \<and> parse tokens = ProgramNode children \<and>
     (\<forall>k. parse_loop (parse_node (parse_fuel tokens + k)) (parse_fuel tokens + k) [] (parser_init tokens) =
        Some (children, ps))"
proof -
  obtain ns ps where r: "parse_loop (parse_node (parse_fuel tokens)) (parse_fuel tokens) [] (parser_init tokens) =
     Some (ns, ps)" and e: "parser_at_end ps"
    using parse_fuel_returns by blast
  have "parse_loop (parse_node (parse_fuel tokens + k)) (parse_fuel tokens + k) [] (parser_init tokens) =
        Some (ns, ps)" for k
    by (rule parse_loop_mono [OF parse_node_mono r]) simp_all
  with r e show ?thesis by (auto simp: parse_def)
qed

end
