(* ===== verification/Nift_Evaluator.thy ===== *)
theory Nift_Evaluator
  imports Nift_Ast
begin

text \<open>
  The template evaluator, \<open>crates/parser/evaluator/evaluator.cpp\<close> and \<open>evaluator.hpp\<close>.  The
  struct \<open>EvalContext\<close> is the record \<open>ctx\<close>; the two \<open>std::function\<close> tables are maps into the
  datatypes \<open>directive_handler\<close> and \<open>block_handler\<close>, one constructor per function that the code
  ever stores there (\<open>BH_user\<close> is the closure \<open>handle_function\<close> creates, with the body it
  captured).  Two ghost fields follow the lifetime of those closures: \<open>ev_active\<close> lists the names
  whose closure is running, \<open>ev_dangling\<close> is set when one of them is overwritten in the table,
  which destroys the closure and the body it is iterating over.

  User functions may call themselves, so \<open>eval_node\<close> is a recursion on fuel that returns \<open>None\<close>
  when it runs out; C++ overflows the stack there.
\<close>

section \<open>Context\<close>

datatype eval_result = Ok | Skip | Break | Return | Error

datatype directive_handler =
    H_input | H_write | H_echo | H_set | H_def | H_exit | H_continue | H_break

datatype block_handler = BH_if | BH_for | BH_while | BH_function | BH_user "node list"

record ctx =
  ev_output :: string
  ev_variables :: "string \<rightharpoonup> string"
  ev_directives :: "string \<rightharpoonup> directive_handler"
  ev_blocks :: "string \<rightharpoonup> block_handler"
  ev_line :: nat
  ev_active :: "string list"
  ev_dangling :: bool

definition ctx_init :: ctx where
  "ctx_init = \<lparr>ev_output = [], ev_variables = Map.empty, ev_directives = Map.empty,
     ev_blocks = Map.empty, ev_line = 0, ev_active = [], ev_dangling = False\<rparr>"

definition set_var :: "string \<Rightarrow> string \<Rightarrow> ctx \<Rightarrow> ctx" where
  "set_var name value c = c\<lparr>ev_variables := (ev_variables c)(name \<mapsto> value)\<rparr>"

definition get_var :: "string \<Rightarrow> ctx \<Rightarrow> string" where
  "get_var name c = (case ev_variables c name of Some v \<Rightarrow> v | None \<Rightarrow> [])"

definition has_var :: "string \<Rightarrow> ctx \<Rightarrow> bool" where
  "has_var name c \<longleftrightarrow> ev_variables c name \<noteq> None"

definition emit :: "string \<Rightarrow> ctx \<Rightarrow> ctx" where
  "emit s c = c\<lparr>ev_output := ev_output c @ s\<rparr>"

definition register_defaults :: "ctx \<Rightarrow> ctx" where
  "register_defaults c = c\<lparr>
     ev_directives := (ev_directives c)(''input'' \<mapsto> H_input, ''inject'' \<mapsto> H_input,
       ''include'' \<mapsto> H_input, ''content'' \<mapsto> H_input, ''write'' \<mapsto> H_write, ''echo'' \<mapsto> H_echo,
       ''set'' \<mapsto> H_set, ''def'' \<mapsto> H_def, ''exit'' \<mapsto> H_exit, ''quit'' \<mapsto> H_exit,
       ''continue'' \<mapsto> H_continue, ''break'' \<mapsto> H_break),
     ev_blocks := (ev_blocks c)(''if'' \<mapsto> BH_if, ''for'' \<mapsto> BH_for, ''while'' \<mapsto> BH_while,
       ''do-while'' \<mapsto> BH_while, ''function'' \<mapsto> BH_function, ''fn'' \<mapsto> BH_function)\<rparr>"

section \<open>Numbers in conditions\<close>

text \<open>
  \<open>std::stoi\<close>: white space, a sign, decimal digits; \<open>None\<close> is a throw (no digits, or a value
  outside \<open>int\<close>).  Bytes after the digits are ignored.
\<close>

definition stoi :: "string \<Rightarrow> int option" where
  "stoi s =
     (let (neg, r) = take_sign (dropWhile isspace s); ds = takeWhile isdigit r;
          v = (if neg then - int (digits_value ds) else int (digits_value ds))
      in if ds = [] \<or> v < - (2 ^ 31) \<or> 2 ^ 31 \<le> v then None else Some v)"

text \<open>
  \<open>std::stod(s) != 0.0\<close>: \<open>None\<close> when nothing converts (\<open>invalid_argument\<close>).  The value is zero
  exactly when every digit of the mantissa is; \<open>inf\<close> and \<open>nan\<close> are not zero.  A nonzero mantissa
  whose value under- or overflows throws \<open>out_of_range\<close>, and the handler then tests the
  (nonempty) string, with the same outcome \<open>True\<close>.
\<close>

definition mantissa :: "(char \<Rightarrow> bool) \<Rightarrow> string \<Rightarrow> string" where
  "mantissa P s = takeWhile P s @
     (case dropWhile P s of [] \<Rightarrow> [] | c # cs \<Rightarrow> if c = CHR ''.'' then takeWhile P cs else [])"

definition stod_nonzero :: "string \<Rightarrow> bool option" where
  "stod_nonzero s =
     (let r = map tolower (snd (take_sign (dropWhile isspace s)));
          hex = mantissa isxdigit (drop 2 r); dec = mantissa isdigit r
      in if take 3 r = ''inf'' \<or> take 3 r = ''nan'' then Some True
         else if take 2 r = ''0x'' \<and> hex \<noteq> [] then Some (list_ex (\<lambda>d. d \<noteq> CHR ''0'') hex)
         else if dec \<noteq> [] then Some (list_ex (\<lambda>d. d \<noteq> CHR ''0'') dec)
         else None)"

definition truthy :: "string \<Rightarrow> bool" where
  "truthy val \<longleftrightarrow> val \<noteq> [] \<and> val \<noteq> ''0'' \<and> val \<noteq> ''false''"

text \<open>The condition of \<open>@if\<close>, \<open>elif\<close> and \<open>@while\<close>, and \<open>Evaluator::eval_condition\<close>.\<close>

definition eval_condition :: "ctx \<Rightarrow> string \<Rightarrow> bool" where
  "eval_condition c cond =
     (if has_var cond c then truthy (get_var cond c)
      else (case stod_nonzero cond of Some b \<Rightarrow> b | None \<Rightarrow> truthy cond))"

section \<open>Directive handlers\<close>

fun handle_input :: "string list \<Rightarrow> ctx \<Rightarrow> eval_result \<times> ctx" where
  "handle_input [] c = (Ok, emit ''[content]'' c)"
| "handle_input (p # ps) c = (Ok, emit (''[input:'' @ p @ '']'') c)"

definition handle_write :: "string list \<Rightarrow> ctx \<Rightarrow> eval_result \<times> ctx" where
  "handle_write ps c = (Ok, fold emit ps c)"

definition handle_echo :: "string list \<Rightarrow> ctx \<Rightarrow> eval_result \<times> ctx" where
  "handle_echo ps c = (Ok, emit (sep_list '' '' ps) c)"

fun handle_set :: "string list \<Rightarrow> ctx \<Rightarrow> eval_result \<times> ctx" where
  "handle_set (p # q # ps) c = (Ok, set_var p q c)"
| "handle_set _ c = (Ok, c)"

fun handle_def :: "string list \<Rightarrow> ctx \<Rightarrow> eval_result \<times> ctx" where
  "handle_def (p # q # ps) c = (Ok, set_var p q c)"
| "handle_def [p] c = (Ok, set_var p [] c)"
| "handle_def [] c = (Ok, c)"

definition handle_exit :: "string list \<Rightarrow> ctx \<Rightarrow> eval_result \<times> ctx" where
  "handle_exit ps c = (Return, c)"

definition handle_continue :: "string list \<Rightarrow> ctx \<Rightarrow> eval_result \<times> ctx" where
  "handle_continue ps c = (Skip, c)"

definition handle_break :: "string list \<Rightarrow> ctx \<Rightarrow> eval_result \<times> ctx" where
  "handle_break ps c = (Break, c)"

fun run_directive :: "directive_handler \<Rightarrow> string list \<Rightarrow> ctx \<Rightarrow> eval_result \<times> ctx" where
  "run_directive H_input = handle_input"
| "run_directive H_write = handle_write"
| "run_directive H_echo = handle_echo"
| "run_directive H_set = handle_set"
| "run_directive H_def = handle_def"
| "run_directive H_exit = handle_exit"
| "run_directive H_continue = handle_continue"
| "run_directive H_break = handle_break"

section \<open>Block handlers\<close>

text \<open>The handlers evaluate child nodes through \<open>ev\<close>, the evaluator with less fuel.\<close>

type_synonym node_eval = "node \<Rightarrow> ctx \<Rightarrow> (eval_result \<times> ctx) option"

text \<open>\<open>for child: result = accept(...); if (result != Ok) return result;\<close> then \<open>Ok\<close>.\<close>

primrec eval_seq :: "node_eval \<Rightarrow> node list \<Rightarrow> ctx \<Rightarrow> (eval_result \<times> ctx) option" where
  "eval_seq ev [] c = Some (Ok, c)"
| "eval_seq ev (n # ns) c =
     (case ev n c of
        None \<Rightarrow> None
      | Some (r, c) \<Rightarrow> if r = Ok then eval_seq ev ns c else Some (r, c))"

fun eval_elifs :: "node_eval \<Rightarrow> else_if_branch list \<Rightarrow> node list \<Rightarrow> bool \<Rightarrow> ctx \<Rightarrow>
    (eval_result \<times> ctx) option" where
  "eval_elifs ev [] else_body has_else c = (if has_else then eval_seq ev else_body c else Some (Ok, c))"
| "eval_elifs ev (ElseIfBranch conds body line # bs) else_body has_else c =
     (if conds \<noteq> [] \<and> eval_condition c (hd conds) then eval_seq ev body c
      else eval_elifs ev bs else_body has_else c)"

definition handle_if :: "node_eval \<Rightarrow> string list \<Rightarrow> node list \<Rightarrow> else_if_branch list \<Rightarrow> node list \<Rightarrow>
    bool \<Rightarrow> ctx \<Rightarrow> (eval_result \<times> ctx) option" where
  "handle_if ev ps body elifs else_body has_else c =
     (if ps = [] then Some (Error, c)
      else if eval_condition c (hd ps) then eval_seq ev body c
      else eval_elifs ev elifs else_body has_else c)"

text \<open>
  One round of a loop body: \<open>Inl r\<close> when the handler returns \<open>r\<close>, \<open>Inr\<close> when the round is over.
  On \<open>Skip\<close> the C++ \<open>continue\<close> belongs to the loop over the children.
\<close>

primrec loop_body :: "node_eval \<Rightarrow> node list \<Rightarrow> ctx \<Rightarrow> (eval_result option \<times> ctx) option" where
  "loop_body ev [] c = Some (None, c)"
| "loop_body ev (n # ns) c =
     (case ev n c of
        None \<Rightarrow> None
      | Some (r, c) \<Rightarrow>
          if r = Break then Some (Some Ok, c)
          else if r = Skip then loop_body ev ns c
          else if r \<noteq> Ok then Some (Some r, c)
          else loop_body ev ns c)"

primrec for_loop :: "node_eval \<Rightarrow> string \<Rightarrow> node list \<Rightarrow> nat \<Rightarrow> int \<Rightarrow> ctx \<Rightarrow>
    (eval_result \<times> ctx) option" where
  "for_loop ev var body 0 i c = Some (Ok, c)"
| "for_loop ev var body (Suc k) i c =
     (case loop_body ev body (set_var var (show_int i) c) of
        None \<Rightarrow> None
      | Some (Some r, c) \<Rightarrow> Some (r, c)
      | Some (None, c) \<Rightarrow> for_loop ev var body k (i + 1) c)"

definition handle_for :: "node_eval \<Rightarrow> string list \<Rightarrow> node list \<Rightarrow> ctx \<Rightarrow> (eval_result \<times> ctx) option" where
  "handle_for ev ps body c =
     (if length ps < 3 then Some (Error, c)
      else case stoi (ps ! 1) of
        None \<Rightarrow> Some (Error, c)
      | Some start \<Rightarrow>
          (case stoi (ps ! 2) of
             None \<Rightarrow> Some (Error, c)
           | Some fin \<Rightarrow> for_loop ev (ps ! 0) body (nat (fin - start)) start c))"

primrec while_loop :: "node_eval \<Rightarrow> string \<Rightarrow> node list \<Rightarrow> nat \<Rightarrow> ctx \<Rightarrow> (eval_result \<times> ctx) option" where
  "while_loop ev cond body 0 c = Some (Ok, c)"
| "while_loop ev cond body (Suc k) c =
     (if \<not> eval_condition c cond then Some (Ok, c)
      else case loop_body ev body c of
        None \<Rightarrow> None
      | Some (Some r, c) \<Rightarrow> Some (r, c)
      | Some (None, c) \<Rightarrow> while_loop ev cond body k c)"

definition max_iterations :: nat where "max_iterations = 100000"

definition handle_while :: "node_eval \<Rightarrow> string list \<Rightarrow> node list \<Rightarrow> ctx \<Rightarrow> (eval_result \<times> ctx) option" where
  "handle_while ev ps body c =
     (if ps = [] then Some (Error, c) else while_loop ev (hd ps) body max_iterations c)"

text \<open>Assigning to the table destroys the closure that was stored under the name.\<close>

definition handle_function :: "string \<Rightarrow> string list \<Rightarrow> node list \<Rightarrow> ctx \<Rightarrow> eval_result \<times> ctx" where
  "handle_function name ps body c =
     (let fn_name = (if ps = [] then name else hd ps)
      in (Ok, c\<lparr>ev_blocks := (ev_blocks c)(fn_name \<mapsto> BH_user body),
                ev_dangling := ev_dangling c \<or> fn_name \<in> set (ev_active c)\<rparr>))"

definition call_user :: "node_eval \<Rightarrow> string \<Rightarrow> node list \<Rightarrow> ctx \<Rightarrow> (eval_result \<times> ctx) option" where
  "call_user ev name body c =
     (case eval_seq ev body (c\<lparr>ev_active := name # ev_active c\<rparr>) of
        None \<Rightarrow> None
      | Some (r, c') \<Rightarrow> Some (r, c'\<lparr>ev_active := ev_active c\<rparr>))"

fun run_block :: "node_eval \<Rightarrow> block_handler \<Rightarrow> string \<Rightarrow> string list \<Rightarrow> node list \<Rightarrow>
    else_if_branch list \<Rightarrow> node list \<Rightarrow> bool \<Rightarrow> ctx \<Rightarrow> (eval_result \<times> ctx) option" where
  "run_block ev BH_if name ps body elifs else_body has_else c =
     handle_if ev ps body elifs else_body has_else c"
| "run_block ev BH_for name ps body elifs else_body has_else c = handle_for ev ps body c"
| "run_block ev BH_while name ps body elifs else_body has_else c = handle_while ev ps body c"
| "run_block ev BH_function name ps body elifs else_body has_else c =
     Some (handle_function name ps body c)"
| "run_block ev (BH_user fbody) name ps body elifs else_body has_else c = call_user ev name fbody c"

section \<open>The visitor\<close>

text \<open>The escapes of a text node: a backslash before \<open>@\<close> or a backslash is removed.\<close>

fun unescape :: "string \<Rightarrow> string" where
  "unescape (c # d # cs) =
     (if c = CHR 0x5C \<and> (d = CHR ''@'' \<or> d = CHR 0x5C) then d # unescape cs
      else c # unescape (d # cs))"
| "unescape cs = cs"

definition visit_text :: "string \<Rightarrow> nat \<Rightarrow> ctx \<Rightarrow> eval_result \<times> ctx" where
  "visit_text text line c = (Ok, (emit (unescape text) c)\<lparr>ev_line := line\<rparr>)"

definition visit_var :: "string \<Rightarrow> ctx \<Rightarrow> eval_result \<times> ctx" where
  "visit_var name c = (Ok, emit (get_var name c) c)"

definition resolve_param :: "ctx \<Rightarrow> string \<Rightarrow> string" where
  "resolve_param c p = (if 1 < length p \<and> hd p = CHR ''$'' then get_var (tl p) c else p)"

definition pass_through :: "string \<Rightarrow> string list \<Rightarrow> string" where
  "pass_through name ps =
     ''@'' @ name @ (if ps = [] then [] else ''('' @ sep_list '', '' ps @ '')'')"

definition visit_directive :: "node_eval \<Rightarrow> string \<Rightarrow> string list \<Rightarrow> nat \<Rightarrow> ctx \<Rightarrow>
    (eval_result \<times> ctx) option" where
  "visit_directive ev name ps line c =
     (let c = c\<lparr>ev_line := line\<rparr> in
      case ev_directives c name of
        Some h \<Rightarrow> Some (run_directive h (map (resolve_param c) ps) c)
      | None \<Rightarrow>
          (case ev_blocks c name of
             Some h \<Rightarrow> run_block ev h name ps [] [] [] False c
           | None \<Rightarrow> Some (Ok, emit (pass_through name ps) c)))"

definition visit_block :: "node_eval \<Rightarrow> string \<Rightarrow> string list \<Rightarrow> node list \<Rightarrow> else_if_branch list \<Rightarrow>
    node list \<Rightarrow> bool \<Rightarrow> nat \<Rightarrow> ctx \<Rightarrow> (eval_result \<times> ctx) option" where
  "visit_block ev name ps body elifs else_body has_else line c =
     (let c = c\<lparr>ev_line := line\<rparr> in
      case ev_blocks c name of
        Some h \<Rightarrow> run_block ev h name ps body elifs else_body has_else c
      | None \<Rightarrow> eval_seq ev body c)"

text \<open>The children of the program: only \<open>Return\<close> and \<open>Error\<close> stop it.\<close>

primrec visit_program :: "node_eval \<Rightarrow> node list \<Rightarrow> ctx \<Rightarrow> (eval_result \<times> ctx) option" where
  "visit_program ev [] c = Some (Ok, c)"
| "visit_program ev (n # ns) c =
     (case ev n c of
        None \<Rightarrow> None
      | Some (r, c) \<Rightarrow>
          if r = Return then Some (Ok, c)
          else if r = Error then Some (r, c)
          else visit_program ev ns c)"

definition section_var :: "string \<Rightarrow> string" where
  "section_var name = ''__section_'' @ name"

text \<open>On a result other than \<open>Ok\<close> the saved output is not restored.\<close>

definition visit_section :: "node_eval \<Rightarrow> string \<Rightarrow> node list \<Rightarrow> ctx \<Rightarrow> (eval_result \<times> ctx) option" where
  "visit_section ev name body c =
     (case eval_seq ev body (c\<lparr>ev_output := []\<rparr>) of
        None \<Rightarrow> None
      | Some (r, c') \<Rightarrow>
          if r = Ok then
            Some (Ok, set_var (section_var name) (ev_output c') (c'\<lparr>ev_output := ev_output c\<rparr>))
          else Some (r, c'))"

definition visit_extends :: "string \<Rightarrow> ctx \<Rightarrow> eval_result \<times> ctx" where
  "visit_extends path c = (Ok, set_var ''__extends'' path c)"

definition visit_yield :: "string \<Rightarrow> ctx \<Rightarrow> eval_result \<times> ctx" where
  "visit_yield name c = (Ok, emit (get_var (section_var name) c) c)"

primrec eval_node :: "nat \<Rightarrow> node_eval" where
  "eval_node 0 = (\<lambda>n c. None)"
| "eval_node (Suc fuel) = (\<lambda>n c.
     case n of
       TextNode text line \<Rightarrow> Some (visit_text text line c)
     | VarNode kind name line \<Rightarrow> Some (visit_var name c)
     | DirectiveNode name options ps line \<Rightarrow> visit_directive (eval_node fuel) name ps line c
     | BlockNode name options ps body elifs else_body has_else line \<Rightarrow>
         visit_block (eval_node fuel) name ps body elifs else_body has_else line c
     | CommentNode text line \<Rightarrow> Some (Ok, c)
     | ProgramNode children \<Rightarrow> visit_program (eval_node fuel) children c
     | ExtendsNode path line \<Rightarrow> Some (visit_extends path c)
     | SectionNode name body line \<Rightarrow> visit_section (eval_node fuel) name body c
     | YieldNode name line \<Rightarrow> Some (visit_yield name c)
     | ParentNode line \<Rightarrow> Some (Ok, c))"

text \<open>\<open>ctx.register_defaults()\<close>, then one \<open>set_var\<close> per entry of the caller's map.\<close>

definition initial_ctx :: "(string \<rightharpoonup> string) \<Rightarrow> ctx" where
  "initial_ctx variables =
     (let c = register_defaults ctx_init in c\<lparr>ev_variables := ev_variables c ++ variables\<rparr>)"

section \<open>Invariants of the context\<close>

text \<open>
  \<open>evaluates I Q ev\<close>: on nodes with \<open>Q\<close> and contexts with \<open>I\<close> the evaluator \<open>ev\<close> returns, and
  keeps \<open>I\<close>.  The locale \<open>ctx_invariant\<close> is what the handlers need of \<open>I\<close> to pass this on from
  the children to themselves.
\<close>

definition evaluates :: "(ctx \<Rightarrow> bool) \<Rightarrow> (node \<Rightarrow> bool) \<Rightarrow> node_eval \<Rightarrow> bool" where
  "evaluates I Q ev \<longleftrightarrow> (\<forall>n c. Q n \<longrightarrow> I c \<longrightarrow> (\<exists>r c'. ev n c = Some (r, c') \<and> I c'))"

locale ctx_invariant =
  fixes I :: "ctx \<Rightarrow> bool"
  assumes I_emit: "I c \<Longrightarrow> I (emit s c)"
    and I_variables: "I c \<Longrightarrow> I (c\<lparr>ev_variables := vs\<rparr>)"
    and I_line: "I c \<Longrightarrow> I (c\<lparr>ev_line := l\<rparr>)"
begin

lemma I_set_var: "I c \<Longrightarrow> I (set_var n v c)"
  by (simp add: set_var_def I_variables)

lemma eval_seq_evaluates:
  "evaluates I Q ev \<Longrightarrow> \<forall>n\<in>set ns. Q n \<Longrightarrow> I c \<Longrightarrow> \<exists>r c'. eval_seq ev ns c = Some (r, c') \<and> I c'"
proof (induction ns arbitrary: c)
  case (Cons n ns)
  then obtain r c' where "ev n c = Some (r, c')" "I c'" by (fastforce simp: evaluates_def)
  with Cons show ?case by auto
qed simp

lemma eval_elifs_evaluates:
  "evaluates I Q ev \<Longrightarrow> \<forall>b\<in>set bs. \<forall>n\<in>set (else_if_body b). Q n \<Longrightarrow> \<forall>n\<in>set else_body. Q n \<Longrightarrow> I c \<Longrightarrow>
   \<exists>r c'. eval_elifs ev bs else_body has_else c = Some (r, c') \<and> I c'"
proof (induction bs)
  case (Cons b bs)
  then show ?case by (cases b) (auto intro: eval_seq_evaluates)
qed (auto intro: eval_seq_evaluates)

lemma loop_body_evaluates:
  "evaluates I Q ev \<Longrightarrow> \<forall>n\<in>set ns. Q n \<Longrightarrow> I c \<Longrightarrow> \<exists>r c'. loop_body ev ns c = Some (r, c') \<and> I c'"
proof (induction ns arbitrary: c)
  case (Cons n ns)
  then obtain r c' where "ev n c = Some (r, c')" "I c'" by (fastforce simp: evaluates_def)
  with Cons show ?case by auto
qed simp

lemma for_loop_evaluates:
  "evaluates I Q ev \<Longrightarrow> \<forall>n\<in>set body. Q n \<Longrightarrow> I c \<Longrightarrow>
   \<exists>r c'. for_loop ev var body k i c = Some (r, c') \<and> I c'"
proof (induction k arbitrary: i c)
  case (Suc k)
  then obtain r c' where "loop_body ev body (set_var var (show_int i) c) = Some (r, c')" "I c'"
    using loop_body_evaluates I_set_var by blast
  with Suc show ?case by (cases r) auto
qed simp

lemma while_loop_evaluates:
  "evaluates I Q ev \<Longrightarrow> \<forall>n\<in>set body. Q n \<Longrightarrow> I c \<Longrightarrow>
   \<exists>r c'. while_loop ev cond body k c = Some (r, c') \<and> I c'"
proof (induction k arbitrary: c)
  case (Suc k)
  then obtain r c' where "loop_body ev body c = Some (r, c')" "I c'"
    using loop_body_evaluates by blast
  with Suc show ?case by (cases r) auto
qed simp

lemma visit_program_evaluates:
  "evaluates I Q ev \<Longrightarrow> \<forall>n\<in>set ns. Q n \<Longrightarrow> I c \<Longrightarrow> \<exists>r c'. visit_program ev ns c = Some (r, c') \<and> I c'"
proof (induction ns arbitrary: c)
  case (Cons n ns)
  then obtain r c' where "ev n c = Some (r, c')" "I c'" by (fastforce simp: evaluates_def)
  with Cons show ?case by auto
qed simp

lemma run_directive_keeps: "I c \<Longrightarrow> I (snd (run_directive h ps c))"
proof -
  have fold: "I d \<Longrightarrow> I (fold emit qs d)" for qs d by (induction qs arbitrary: d) (auto simp: I_emit)
  assume "I c"
  then show ?thesis
    by (cases h; cases "(ps, c)" rule: handle_def.cases)
       (auto simp: handle_write_def handle_echo_def handle_exit_def handle_continue_def
         handle_break_def I_emit I_set_var fold)
qed

text \<open>All handlers but those of user functions.\<close>

lemma run_block_evaluates:
  assumes "evaluates I Q ev" "I c" "h \<noteq> BH_function" "\<And>b. h \<noteq> BH_user b"
    "\<forall>n\<in>set body. Q n" "\<forall>b\<in>set bs. \<forall>n\<in>set (else_if_body b). Q n" "\<forall>n\<in>set else_body. Q n"
  shows "\<exists>r c'. run_block ev h name ps body bs else_body has_else c = Some (r, c') \<and> I c'"
  using assms
  by (cases h)
     (auto simp: handle_if_def handle_for_def handle_while_def intro: eval_seq_evaluates
       eval_elifs_evaluates for_loop_evaluates while_loop_evaluates split: option.split)

end

text \<open>A section also sets the output aside and restores it.\<close>

locale ctx_output_invariant = ctx_invariant +
  assumes I_output: "I c \<Longrightarrow> I (c\<lparr>ev_output := s\<rparr>)"
begin

lemma visit_section_evaluates:
  assumes "evaluates I Q ev" "\<forall>n\<in>set body. Q n" "I c"
  shows "\<exists>r c'. visit_section ev name body c = Some (r, c') \<and> I c'"
proof -
  obtain r c' where "eval_seq ev body (c\<lparr>ev_output := []\<rparr>) = Some (r, c')" "I c'"
    using eval_seq_evaluates [OF assms(1,2) I_output [OF assms(3)]] by blast
  then show ?thesis by (auto simp: visit_section_def intro!: I_set_var I_output)
qed

end

section \<open>Templates without recursion\<close>

fun node_depth :: "node \<Rightarrow> nat" and elif_depth :: "else_if_branch \<Rightarrow> nat" where
  "node_depth (BlockNode name options ps body elifs else_body has_else line) =
     Suc (foldr max (map node_depth body) (foldr max (map elif_depth elifs)
       (foldr max (map node_depth else_body) 0)))"
| "node_depth (ProgramNode children) = Suc (foldr max (map node_depth children) 0)"
| "node_depth (SectionNode name body line) = Suc (foldr max (map node_depth body) 0)"
| "node_depth _ = 0"
| "elif_depth (ElseIfBranch conds body line) = foldr max (map node_depth body) 0"

text \<open>
  \<open>ranked rk L n\<close>: below \<open>n\<close> only names of rank less than \<open>L\<close> are invoked or defined, and the
  body of a function \<open>f\<close> invokes and defines only names of rank less than \<open>rk f\<close>.
\<close>

definition fn_block :: "string \<Rightarrow> bool" where
  "fn_block name \<longleftrightarrow> name = ''function'' \<or> name = ''fn''"

definition fn_target :: "string \<Rightarrow> string list \<Rightarrow> string" where
  "fn_target name ps = (if ps = [] then name else hd ps)"

fun ranked :: "(string \<Rightarrow> nat) \<Rightarrow> nat \<Rightarrow> node \<Rightarrow> bool"
  and ranked_elif :: "(string \<Rightarrow> nat) \<Rightarrow> nat \<Rightarrow> else_if_branch \<Rightarrow> bool" where
  "ranked rk L (DirectiveNode name options ps line) \<longleftrightarrow>
     rk name < L \<and> (fn_block name \<longrightarrow> rk (fn_target name ps) < L)"
| "ranked rk L (BlockNode name options ps body elifs else_body has_else line) \<longleftrightarrow>
     rk name < L \<and>
     (if fn_block name
      then rk (fn_target name ps) < L \<and> list_all (ranked rk (rk (fn_target name ps))) body
      else list_all (ranked rk L) body \<and> list_all (ranked_elif rk L) elifs \<and>
           list_all (ranked rk L) else_body)"
| "ranked rk L (ProgramNode children) \<longleftrightarrow> list_all (ranked rk L) children"
| "ranked rk L (SectionNode name body line) \<longleftrightarrow> list_all (ranked rk L) body"
| "ranked rk L _ \<longleftrightarrow> True"
| "ranked_elif rk L (ElseIfBranch conds body line) \<longleftrightarrow> list_all (ranked rk L) body"

fun handler_ranked :: "(string \<Rightarrow> nat) \<Rightarrow> nat \<Rightarrow> string \<Rightarrow> block_handler \<Rightarrow> bool" where
  "handler_ranked rk D g BH_function \<longleftrightarrow> fn_block g"
| "handler_ranked rk D g (BH_user b) \<longleftrightarrow> (\<forall>n\<in>set b. ranked rk (rk g) n \<and> node_depth n \<le> D)"
| "handler_ranked rk D g _ \<longleftrightarrow> \<not> fn_block g"

definition ranked_handlers :: "(string \<Rightarrow> nat) \<Rightarrow> nat \<Rightarrow> (string \<rightharpoonup> block_handler) \<Rightarrow> bool" where
  "ranked_handlers rk D blocks \<longleftrightarrow>
     (\<forall>g h. blocks g = Some h \<longrightarrow> handler_ranked rk D g h) \<and> (\<forall>g. fn_block g \<longrightarrow> blocks g \<noteq> None)"

definition ranked_ctx :: "(string \<Rightarrow> nat) \<Rightarrow> nat \<Rightarrow> nat \<Rightarrow> ctx \<Rightarrow> bool" where
  "ranked_ctx rk D L c \<longleftrightarrow>
     ranked_handlers rk D (ev_blocks c) \<and> (\<forall>g\<in>set (ev_active c). L \<le> rk g) \<and> \<not> ev_dangling c"

interpretation ranked_inv: ctx_output_invariant "ranked_ctx rk D L" for rk D L
  by unfold_locales (simp_all add: ranked_ctx_def emit_def)

lemma foldr_max_le: "foldr max xs (a::nat) \<le> d \<longleftrightarrow> a \<le> d \<and> (\<forall>x\<in>set xs. x \<le> d)"
  by (induction xs) auto

lemma depth_below: "Suc (foldr max (map f xs) (0::nat)) \<le> d \<Longrightarrow> x \<in> set xs \<Longrightarrow> f x \<le> d - 1"
  by (cases d) (simp_all add: foldr_max_le)

lemma ranked_elif_body:
  "ranked_elif rk L b \<Longrightarrow> elif_depth b \<le> d \<Longrightarrow> n \<in> set (else_if_body b) \<Longrightarrow> ranked rk L n \<and> node_depth n \<le> d"
  by (cases b) (auto simp: list_all_iff foldr_max_le)

lemma ranked_ctxD:
  assumes "ranked_ctx rk D L c" "ev_blocks c g = Some h"
  shows "handler_ranked rk D g h"
  using assms by (simp add: ranked_ctx_def ranked_handlers_def)

lemma handle_function_ranked:
  assumes "ranked_ctx rk D L c" "rk (fn_target name ps) < L"
    "\<forall>n\<in>set body. ranked rk (rk (fn_target name ps)) n \<and> node_depth n \<le> D"
  shows "ranked_ctx rk D L (snd (handle_function name ps body c))"
  using assms
  by (force simp: ranked_ctx_def ranked_handlers_def handle_function_def fn_target_def Let_def)

lemma call_user_ranked:
  assumes ev: "evaluates (ranked_ctx rk D (rk g)) (\<lambda>n. ranked rk (rk g) n \<and> node_depth n \<le> D) ev"
    and c: "ranked_ctx rk D L c" and g: "rk g < L" "ev_blocks c g = Some (BH_user b)"
  shows "\<exists>r c'. call_user ev g b c = Some (r, c') \<and> ranked_ctx rk D L c'"
proof -
  have "ranked_ctx rk D (rk g) (c\<lparr>ev_active := g # ev_active c\<rparr>)"
    using c g(1) by (auto simp: ranked_ctx_def)
  moreover have "\<forall>n\<in>set b. ranked rk (rk g) n \<and> node_depth n \<le> D"
    using ranked_ctxD [OF c g(2)] by simp
  ultimately obtain r c' where "eval_seq ev b (c\<lparr>ev_active := g # ev_active c\<rparr>) = Some (r, c')"
      "ranked_ctx rk D (rk g) c'"
    using ranked_inv.eval_seq_evaluates [OF ev] by blast
  with c show ?thesis by (auto simp: call_user_def ranked_ctx_def)
qed

lemma run_block_ranked:
  assumes ev: "evaluates (ranked_ctx rk D L) Q ev"
    and evu: "\<And>L'. L' < L \<Longrightarrow> evaluates (ranked_ctx rk D L') (\<lambda>n. ranked rk L' n \<and> node_depth n \<le> D) ev"
    and c: "ranked_ctx rk D L c" and h: "ev_blocks c name = Some h" and rk: "rk name < L"
    and fn: "fn_block name \<Longrightarrow> rk (fn_target name ps) < L \<and>
        (\<forall>n\<in>set body. ranked rk (rk (fn_target name ps)) n \<and> node_depth n \<le> D)"
    and ch: "\<not> fn_block name \<Longrightarrow> (\<forall>n\<in>set body. Q n) \<and> (\<forall>b\<in>set bs. \<forall>n\<in>set (else_if_body b). Q n) \<and>
        (\<forall>n\<in>set else_body. Q n)"
  shows "\<exists>r c'. run_block ev h name ps body bs else_body has_else c = Some (r, c') \<and> ranked_ctx rk D L c'"
proof (cases "fn_block name")
  case True
  with ranked_ctxD [OF c h] have "h = BH_function \<or> (\<exists>b. h = BH_user b)" by (cases h) simp_all
  with fn [OF True] handle_function_ranked [OF c] call_user_ranked [OF evu [OF rk] c rk] h
  show ?thesis by (cases "handle_function name ps body c") fastforce
next
  case False
  with ranked_ctxD [OF c h] have nf: "h \<noteq> BH_function" by auto
  show ?thesis
  proof (cases "\<exists>b. h = BH_user b")
    case True
    with call_user_ranked [OF evu [OF rk] c rk] h show ?thesis by auto
  next
    case nu: False
    show ?thesis
      by (rule ranked_inv.run_block_evaluates [OF ev c nf]) (use ch [OF False] nu in auto)
  qed
qed

lemma eval_node_ranked:
  "d \<le> D \<Longrightarrow> d + L * Suc D < fuel \<Longrightarrow>
   evaluates (ranked_ctx rk D L) (\<lambda>n. ranked rk L n \<and> node_depth n \<le> d) (eval_node fuel)"
proof (induction fuel arbitrary: L d)
  case (Suc fuel)
  have child: "evaluates (ranked_ctx rk D L) (\<lambda>n. ranked rk L n \<and> node_depth n \<le> d - 1) (eval_node fuel)" if "0 < d"
    using Suc that by simp
  have user: "evaluates (ranked_ctx rk D L') (\<lambda>n. ranked rk L' n \<and> node_depth n \<le> D) (eval_node fuel)" if "L' < L" for L'
  proof (rule Suc.IH)
    have "Suc L' * Suc D \<le> L * Suc D" using that by (intro mult_le_mono1) simp
    with Suc.prems show "D + L' * Suc D < fuel" by simp
  qed simp
  note run = run_block_ranked [OF _ user]
  show ?case unfolding evaluates_def
  proof (intro allI impI, elim conjE)
    fix n c assume n: "ranked rk L n" "node_depth n \<le> d" and c: "ranked_ctx rk D L c"
    show "\<exists>r c'. eval_node (Suc fuel) n c = Some (r, c') \<and> ranked_ctx rk D L c'"
    proof (cases n)
      case (DirectiveNode name options ps line)
      let ?c = "c\<lparr>ev_line := line\<rparr>"
      have c': "ranked_ctx rk D L ?c" using c by (rule ranked_inv.I_line)
      consider h where "ev_directives c name = Some h"
        | h where "ev_directives c name = None" "ev_blocks c name = Some h"
        | "ev_directives c name = None" "ev_blocks c name = None" by fastforce
      then show ?thesis
      proof cases
        case 1
        with ranked_inv.run_directive_keeps [OF c', of h "map (resolve_param ?c) ps"] show ?thesis
          by (cases "run_directive h (map (resolve_param ?c) ps) ?c")
             (simp add: DirectiveNode visit_directive_def Let_def)
      next
        case 2
        have "\<exists>r c'. run_block (eval_node fuel) h name ps [] [] [] False ?c = Some (r, c') \<and> ranked_ctx rk D L c'"
          using n 2 unfolding DirectiveNode
          by (intro run [where Q = "\<lambda>n. False"] c') (auto simp: evaluates_def)
        with 2 show ?thesis by (simp add: DirectiveNode visit_directive_def)
      next
        case 3
        then show ?thesis
          by (auto simp: DirectiveNode visit_directive_def intro!: ranked_inv.I_emit c')
      qed
    next
      case (BlockNode name options ps body bs else_body has_else line)
      let ?c = "c\<lparr>ev_line := line\<rparr>"
      have c': "ranked_ctx rk D L ?c" using c by (rule ranked_inv.I_line)
      have d: "0 < d" "\<forall>n\<in>set body. node_depth n \<le> d - 1" "\<forall>n\<in>set else_body. node_depth n \<le> d - 1"
        "\<forall>b\<in>set bs. elif_depth b \<le> d - 1"
        using n(2) by (cases d; simp add: BlockNode foldr_max_le)+
      have ch: "\<not> fn_block name \<Longrightarrow> (\<forall>n\<in>set body. ranked rk L n \<and> node_depth n \<le> d - 1) \<and>
        (\<forall>b\<in>set bs. \<forall>n\<in>set (else_if_body b). ranked rk L n \<and> node_depth n \<le> d - 1) \<and>
        (\<forall>n\<in>set else_body. ranked rk L n \<and> node_depth n \<le> d - 1)"
        using n(1) d ranked_elif_body by (fastforce simp: BlockNode list_all_iff)
      show ?thesis
      proof (cases "ev_blocks c name")
        case None
        then have "\<not> fn_block name" using c by (auto simp: ranked_ctx_def ranked_handlers_def)
        with ranked_inv.eval_seq_evaluates [OF child [OF d(1)] _ c'] ch None show ?thesis
          by (simp add: BlockNode visit_block_def)
      next
        case (Some h)
        have "\<exists>r c'. run_block (eval_node fuel) h name ps body bs else_body has_else ?c = Some (r, c') \<and>
          ranked_ctx rk D L c'"
        proof (rule run [OF child [OF d(1)] _ c'])
          show "fn_block name \<Longrightarrow> rk (fn_target name ps) < L \<and>
            (\<forall>n\<in>set body. ranked rk (rk (fn_target name ps)) n \<and> node_depth n \<le> D)"
            using n(1) d(2) Suc.prems(1) by (fastforce simp: BlockNode list_all_iff)
        qed (use ch Some n(1) in \<open>simp_all add: BlockNode\<close>)
        with Some show ?thesis by (simp add: BlockNode visit_block_def)
      qed
    next
      case (ProgramNode children)
      with n ranked_inv.visit_program_evaluates [OF child _ c, of children] depth_below [of node_depth children d]
      show ?thesis by (simp add: list_all_iff)
    next
      case (SectionNode name body line)
      with n ranked_inv.visit_section_evaluates [OF child _ c, of body name] depth_below [of node_depth body d]
      show ?thesis by (simp add: list_all_iff)
    qed (use c in \<open>auto simp: visit_text_def visit_var_def visit_extends_def visit_yield_def
        intro!: ranked_inv.I_line ranked_inv.I_emit ranked_inv.I_set_var\<close>)
  qed
qed simp

section \<open>Two runs of the evaluator\<close>

text \<open>
  \<open>eval_hom\<close> relates a run from \<open>c\<close> with a run from \<open>T c\<close> that has at least as much fuel: when
  \<open>T\<close> leaves alone what the handlers read, the second run ends in the image of the first.  It
  has two instances: \<open>T\<close> the identity (more fuel gives the same result), and \<open>T\<close> a change of the
  output accumulated so far.
\<close>

fun node_children :: "node \<Rightarrow> node list" where
  "node_children (BlockNode name options ps body elifs else_body has_else line) =
     body @ concat (map else_if_body elifs) @ else_body"
| "node_children (ProgramNode children) = children"
| "node_children (SectionNode name body line) = body"
| "node_children _ = []"

locale eval_hom = ctx_invariant I for I :: "ctx \<Rightarrow> bool" +
  fixes T :: "ctx \<Rightarrow> ctx" and Q :: "node \<Rightarrow> bool"
  assumes T_reads: "ev_variables (T c) = ev_variables c" "ev_directives (T c) = ev_directives c"
      "ev_blocks (T c) = ev_blocks c" "ev_active (T c) = ev_active c" "ev_dangling (T c) = ev_dangling c"
    and T_emit: "T (emit s c) = emit s (T c)"
    and T_line: "T (c\<lparr>ev_line := l\<rparr>) = T c\<lparr>ev_line := l\<rparr>"
    and T_variables: "T (c\<lparr>ev_variables := vs\<rparr>) = T c\<lparr>ev_variables := vs\<rparr>"
    and T_active: "T (c\<lparr>ev_active := a\<rparr>) = T c\<lparr>ev_active := a\<rparr>"
    and T_blocks: "T (c\<lparr>ev_blocks := b, ev_dangling := d\<rparr>) = T c\<lparr>ev_blocks := b, ev_dangling := d\<rparr>"
    and I_active: "I c \<Longrightarrow> I (c\<lparr>ev_active := a\<rparr>)"
    and I_blocks: "I c \<Longrightarrow> \<forall>n\<in>set body. Q n \<Longrightarrow>
      I (c\<lparr>ev_blocks := (ev_blocks c)(g \<mapsto> BH_user body), ev_dangling := d\<rparr>)"
    and I_user: "I c \<Longrightarrow> ev_blocks c g = Some (BH_user body) \<Longrightarrow> n \<in> set body \<Longrightarrow> Q n"
    and Q_children: "Q n \<Longrightarrow> m \<in> set (node_children n) \<Longrightarrow> Q m"
    and Q_section: "Q (SectionNode name body line) \<Longrightarrow> T = id \<and> (\<forall>c s. I c \<longrightarrow> I (c\<lparr>ev_output := s\<rparr>))"
begin

definition hom :: "node_eval \<Rightarrow> node_eval \<Rightarrow> bool" where
  "hom ev ev' \<longleftrightarrow> (\<forall>n c r c'. Q n \<longrightarrow> I c \<longrightarrow> ev n c = Some (r, c') \<longrightarrow> ev' n (T c) = Some (r, T c') \<and> I c')"

lemma homD: "hom ev ev' \<Longrightarrow> Q n \<Longrightarrow> I c \<Longrightarrow> ev n c = Some (r, c') \<Longrightarrow> ev' n (T c) = Some (r, T c') \<and> I c'"
  unfolding hom_def by blast

lemma T_condition: "eval_condition (T c) s = eval_condition c s"
  by (simp add: eval_condition_def has_var_def get_var_def T_reads)

lemma T_set_var: "T (set_var n v c) = set_var n v (T c)"
  by (simp add: set_var_def T_variables T_reads)

lemma T_get_var: "get_var n (T c) = get_var n c"
  by (simp add: get_var_def T_reads)

lemmas T_simps = T_reads T_emit T_line T_variables T_active T_condition T_set_var T_get_var

lemma eval_seq_hom:
  "hom ev ev' \<Longrightarrow> \<forall>n\<in>set ns. Q n \<Longrightarrow> I c \<Longrightarrow> eval_seq ev ns c = Some (r, c') \<Longrightarrow>
   eval_seq ev' ns (T c) = Some (r, T c') \<and> I c'"
proof (induction ns arbitrary: c)
  case (Cons n ns)
  then obtain r1 c1 where e: "ev n c = Some (r1, c1)" by (auto split: option.splits)
  with homD [OF Cons.prems(1) _ Cons.prems(3) e] Cons show ?case by (auto split: if_splits)
qed simp

lemma eval_elifs_hom:
  "hom ev ev' \<Longrightarrow> \<forall>b\<in>set bs. \<forall>n\<in>set (else_if_body b). Q n \<Longrightarrow> \<forall>n\<in>set else_body. Q n \<Longrightarrow> I c \<Longrightarrow>
   eval_elifs ev bs else_body has_else c = Some (r, c') \<Longrightarrow>
   eval_elifs ev' bs else_body has_else (T c) = Some (r, T c') \<and> I c'"
proof (induction bs)
  case (Cons b bs)
  obtain cs body line where b: "b = ElseIfBranch cs body line" by (cases b)
  show ?case
  proof (cases "cs \<noteq> [] \<and> eval_condition c (hd cs)")
    case True
    with Cons.prems eval_seq_hom [OF Cons.prems(1) _ Cons.prems(4), of body r c'] b show ?thesis
      by (simp add: T_condition)
  next
    case False
    with Cons b show ?thesis by (auto simp: T_condition)
  qed
next
  case Nil
  with eval_seq_hom [OF Nil.prems(1,3,4)] show ?case by (simp split: if_splits)
qed

lemma loop_body_hom:
  "hom ev ev' \<Longrightarrow> \<forall>n\<in>set ns. Q n \<Longrightarrow> I c \<Longrightarrow> loop_body ev ns c = Some (r, c') \<Longrightarrow>
   loop_body ev' ns (T c) = Some (r, T c') \<and> I c'"
proof (induction ns arbitrary: c)
  case (Cons n ns)
  then obtain r1 c1 where e: "ev n c = Some (r1, c1)" by (auto split: option.splits)
  with homD [OF Cons.prems(1) _ Cons.prems(3) e] Cons show ?case by (auto split: if_splits)
qed simp

lemma for_loop_hom:
  "hom ev ev' \<Longrightarrow> \<forall>n\<in>set body. Q n \<Longrightarrow> I c \<Longrightarrow> for_loop ev var body k i c = Some (r, c') \<Longrightarrow>
   for_loop ev' var body k i (T c) = Some (r, T c') \<and> I c'"
proof (induction k arbitrary: i c)
  case (Suc k)
  then obtain r1 c1 where e: "loop_body ev body (set_var var (show_int i) c) = Some (r1, c1)"
    by (auto split: option.splits)
  with loop_body_hom [OF Suc.prems(1,2) I_set_var [OF Suc.prems(3)] e] Suc.prems
    Suc.IH [OF Suc.prems(1,2), of c1] show ?case
    by (cases r1) (auto simp: T_set_var)
qed simp

lemma while_loop_hom:
  "hom ev ev' \<Longrightarrow> \<forall>n\<in>set body. Q n \<Longrightarrow> I c \<Longrightarrow> while_loop ev cond body k c = Some (r, c') \<Longrightarrow>
   while_loop ev' cond body k (T c) = Some (r, T c') \<and> I c'"
proof (induction k arbitrary: c)
  case (Suc k)
  show ?case
  proof (cases "eval_condition c cond")
    case True
    with Suc.prems(4) obtain r1 c1 where e: "loop_body ev body c = Some (r1, c1)"
      by (auto split: option.splits)
    with loop_body_hom [OF Suc.prems(1-3) e] Suc.prems Suc.IH [OF Suc.prems(1,2), of c1] True
    show ?thesis by (cases r1) (auto simp: T_condition)
  next
    case False
    with Suc.prems show ?thesis by (auto simp: T_condition)
  qed
qed simp

lemma visit_program_hom:
  "hom ev ev' \<Longrightarrow> \<forall>n\<in>set ns. Q n \<Longrightarrow> I c \<Longrightarrow> visit_program ev ns c = Some (r, c') \<Longrightarrow>
   visit_program ev' ns (T c) = Some (r, T c') \<and> I c'"
proof (induction ns arbitrary: c)
  case (Cons n ns)
  then obtain r1 c1 where e: "ev n c = Some (r1, c1)" by (auto split: option.splits)
  with homD [OF Cons.prems(1) _ Cons.prems(3) e] Cons show ?case by (auto split: if_splits)
qed simp

lemma visit_section_hom:
  assumes h: "hom ev ev'" and q: "Q (SectionNode name body line)" and i: "I c"
    and e: "visit_section ev name body c = Some (r, c')"
  shows "visit_section ev' name body (T c) = Some (r, T c') \<and> I c'"
proof -
  have id: "T = id" and I_output: "\<And>c s. I c \<Longrightarrow> I (c\<lparr>ev_output := s\<rparr>)" using Q_section [OF q] by auto
  have qs: "\<forall>n\<in>set body. Q n" using Q_children [OF q] by simp
  from e obtain r1 c1 where s: "eval_seq ev body (c\<lparr>ev_output := []\<rparr>) = Some (r1, c1)"
    by (auto simp: visit_section_def split: option.splits)
  from eval_seq_hom [OF h qs I_output [OF i] s] e s id show ?thesis
    by (auto simp: visit_section_def intro!: I_set_var I_output split: if_splits)
qed

lemma run_directive_hom:
  assumes "I c" "run_directive h ps c = (r, c')"
  shows "run_directive h ps (T c) = (r, T c') \<and> I c'"
proof -
  have fold: "T (fold emit qs d) = fold emit qs (T d)" for qs d
    by (induction qs arbitrary: d) (simp_all add: T_emit)
  from assms have "run_directive h ps (T c) = (r, T c')"
    by (cases h; cases "(ps, c)" rule: handle_def.cases)
       (auto simp: handle_write_def handle_echo_def handle_exit_def handle_continue_def
         handle_break_def T_simps fold)
  with run_directive_keeps [OF assms(1), of h ps] assms(2) show ?thesis by simp
qed

lemma run_block_hom:
  assumes h: "hom ev ev'" and i: "I c" and b: "ev_blocks c g = Some bh"
    and q: "\<forall>n\<in>set body. Q n" "\<forall>b\<in>set bs. \<forall>n\<in>set (else_if_body b). Q n" "\<forall>n\<in>set else_body. Q n"
    and e: "run_block ev bh name ps body bs else_body has_else c = Some (r, c')"
  shows "run_block ev' bh name ps body bs else_body has_else (T c) = Some (r, T c') \<and> I c'"
proof (cases bh)
  case BH_if
  with e eval_seq_hom [OF h q(1) i] eval_elifs_hom [OF h q(2,3) i] i show ?thesis
    by (auto simp: handle_if_def T_condition split: if_splits)
next
  case BH_for
  with e for_loop_hom [OF h q(1) i] i show ?thesis
    by (auto simp: handle_for_def split: if_splits option.splits)
next
  case BH_while
  with e while_loop_hom [OF h q(1) i] i show ?thesis
    by (auto simp: handle_while_def split: if_splits)
next
  case BH_function
  with e I_blocks [OF i q(1)] show ?thesis
    by (auto simp: handle_function_def T_blocks T_reads Let_def)
next
  case (BH_user fbody)
  with e obtain c1 where s: "eval_seq ev fbody (c\<lparr>ev_active := name # ev_active c\<rparr>) = Some (r, c1)"
    and c': "c' = c1\<lparr>ev_active := ev_active c\<rparr>"
    by (auto simp: call_user_def split: option.splits)
  have "\<forall>n\<in>set fbody. Q n" using I_user [OF i] b BH_user by blast
  from eval_seq_hom [OF h this I_active [OF i] s] BH_user c' show ?thesis
    by (auto simp: call_user_def T_active T_reads I_active)
qed

lemma visit_directive_hom:
  assumes h: "hom ev ev'" and i: "I c" and e: "visit_directive ev name ps line c = Some (r, c')"
  shows "visit_directive ev' name ps line (T c) = Some (r, T c') \<and> I c'"
proof -
  let ?c = "c\<lparr>ev_line := line\<rparr>"
  have i': "I ?c" by (rule I_line [OF i])
  have res: "resolve_param ((T c)\<lparr>ev_line := line\<rparr>) = resolve_param ?c"
    by (rule ext) (simp add: resolve_param_def get_var_def T_reads)
  consider bh where "ev_directives c name = Some bh"
    | bh where "ev_directives c name = None" "ev_blocks c name = Some bh"
    | "ev_directives c name = None" "ev_blocks c name = None" by fastforce
  then show ?thesis
  proof cases
    case (1 bh)
    with e run_directive_hom [OF i', of bh "map (resolve_param ?c) ps" r c'] show ?thesis
      by (simp add: visit_directive_def T_simps res Let_def)
  next
    case (2 bh)
    then have "ev_blocks ?c name = Some bh" by simp
    from run_block_hom [OF h i' this, of "[]" "[]" "[]" name ps False r c'] 2 e show ?thesis
      by (auto simp: visit_directive_def T_simps)
  next
    case 3
    with e I_emit [OF i'] show ?thesis by (auto simp: visit_directive_def T_simps)
  qed
qed

lemma visit_block_hom:
  assumes h: "hom ev ev'" and i: "I c"
    and q: "\<forall>n\<in>set body. Q n" "\<forall>b\<in>set bs. \<forall>n\<in>set (else_if_body b). Q n" "\<forall>n\<in>set else_body. Q n"
    and e: "visit_block ev name ps body bs else_body has_else line c = Some (r, c')"
  shows "visit_block ev' name ps body bs else_body has_else line (T c) = Some (r, T c') \<and> I c'"
proof (cases "ev_blocks c name")
  case None
  with e eval_seq_hom [OF h q(1) I_line [OF i]] show ?thesis
    by (auto simp: visit_block_def T_simps)
next
  case (Some bh)
  then have "ev_blocks (c\<lparr>ev_line := line\<rparr>) name = Some bh" by simp
  from run_block_hom [OF h I_line [OF i] this q] Some e show ?thesis
    by (auto simp: visit_block_def T_simps)
qed

lemma eval_node_hom: "f \<le> f' \<Longrightarrow> hom (eval_node f) (eval_node f')"
proof (induction f arbitrary: f')
  case (Suc f)
  then obtain g where g: "f' = Suc g" "f \<le> g" by (cases f') auto
  note h = Suc.IH [OF g(2)]
  show ?case unfolding hom_def
  proof (intro allI impI)
    fix n c r c' assume q: "Q n" and i: "I c" and e: "eval_node (Suc f) n c = Some (r, c')"
    note ch = Q_children [OF q]
    show "eval_node f' n (T c) = Some (r, T c') \<and> I c'"
    proof (cases n)
      case (DirectiveNode name options ps line)
      with visit_directive_hom [OF h i] e g show ?thesis by simp
    next
      case (BlockNode name options ps body bs else_body has_else line)
      with ch have "\<forall>n\<in>set body. Q n" "\<forall>b\<in>set bs. \<forall>n\<in>set (else_if_body b). Q n" "\<forall>n\<in>set else_body. Q n"
        by auto
      from visit_block_hom [OF h i this] BlockNode e g show ?thesis by simp
    next
      case (ProgramNode children)
      with visit_program_hom [OF h _ i, of children r c'] e g ch show ?thesis by simp
    next
      case (SectionNode name body line)
      with visit_section_hom [OF h _ i, of name body line r c'] q e g show ?thesis by simp
    qed (use e i g in \<open>auto simp: visit_text_def visit_var_def visit_extends_def visit_yield_def T_simps
        intro!: I_line I_emit I_set_var\<close>)
  qed
qed (simp add: hom_def)

end

text \<open>More fuel: the identity.\<close>

interpretation fuel_hom: eval_hom "\<lambda>c. True" id "\<lambda>n. True"
  by unfold_locales simp_all

lemma eval_node_mono: "eval_node f n c = Some x \<Longrightarrow> f \<le> f' \<Longrightarrow> eval_node f' n c = Some x"
  using fuel_hom.eval_node_hom [of f f'] fuel_hom.homD by (cases x) fastforce

text \<open>Output printed so far: a prefix, for templates that redirect no output into a section.\<close>

fun section_free :: "node \<Rightarrow> bool" and section_free_elif :: "else_if_branch \<Rightarrow> bool" where
  "section_free (SectionNode name body line) \<longleftrightarrow> False"
| "section_free (BlockNode name options ps body elifs else_body has_else line) \<longleftrightarrow>
     list_all section_free body \<and> list_all section_free_elif elifs \<and> list_all section_free else_body"
| "section_free (ProgramNode children) \<longleftrightarrow> list_all section_free children"
| "section_free _ \<longleftrightarrow> True"
| "section_free_elif (ElseIfBranch conds body line) \<longleftrightarrow> list_all section_free body"

definition section_free_ctx :: "ctx \<Rightarrow> bool" where
  "section_free_ctx c \<longleftrightarrow> (\<forall>g b. ev_blocks c g = Some (BH_user b) \<longrightarrow> list_all section_free b)"

definition after_output :: "string \<Rightarrow> ctx \<Rightarrow> ctx" where
  "after_output s c = c\<lparr>ev_output := s @ ev_output c\<rparr>"

text \<open>Contexts whose user functions are section free and whose output starts with \<open>p\<close>.\<close>

definition printed :: "string \<Rightarrow> ctx \<Rightarrow> bool" where
  "printed p c \<longleftrightarrow> section_free_ctx c \<and> (\<exists>t. ev_output c = p @ t)"

lemma section_free_children: "section_free n \<Longrightarrow> m \<in> set (node_children n) \<Longrightarrow> section_free m"
proof (induction n rule: node_children.induct)
  case (1 name options ps body elifs else_body has_else line)
  have "section_free_elif b \<Longrightarrow> m \<in> set (else_if_body b) \<Longrightarrow> section_free m" for b
    by (cases b) (simp add: list_all_iff)
  with 1 show ?case by (auto simp: list_all_iff)
qed (auto simp: list_all_iff)

interpretation output_hom: eval_hom "printed p" "after_output s" section_free for p s
proof unfold_locales
  fix n m assume "section_free n" "m \<in> set (node_children n)"
  then show "section_free m" by (rule section_free_children)
qed (auto simp: printed_def section_free_ctx_def after_output_def emit_def list_all_iff)

section \<open>Properties\<close>

lemma ranked_initial: "ranked_ctx rk D L (initial_ctx vars)"
  by (auto simp: ranked_ctx_def ranked_handlers_def initial_ctx_def register_defaults_def ctx_init_def
      fn_block_def Let_def split: if_splits)

lemma visit_program_result: "visit_program ev ns c = Some (r, c') \<Longrightarrow> r = Ok \<or> r = Error"
  by (induction ns arbitrary: c) (auto split: option.splits if_splits)

text \<open>C11: Every template without recursive functions is evaluated to the end.  If the invoked and
  defined names can be ranked so that a function body uses only names below its own, then for fuel
  linear in the nesting depth and the rank the evaluation of the whole program returns (with
  \<open>Ok\<close> or \<open>Error\<close>, never a loop signal), and no function definition destroys a closure that is
  still running.\<close>

theorem eval_terminates:
  assumes "list_all (ranked rk L) children"
    and "node_depth (ProgramNode children) + L * Suc (node_depth (ProgramNode children)) < fuel"
  shows "\<exists>r c. eval_node fuel (ProgramNode children) (initial_ctx vars) = Some (r, c) \<and>
    (r = Ok \<or> r = Error) \<and> \<not> ev_dangling c"
proof -
  let ?n = "ProgramNode children"
  have "evaluates (ranked_ctx rk (node_depth ?n) L) (\<lambda>n. ranked rk L n \<and> node_depth n \<le> node_depth ?n)
      (eval_node fuel)"
    using assms(2) by (intro eval_node_ranked) simp_all
  then obtain r c where e: "eval_node fuel ?n (initial_ctx vars) = Some (r, c)" and c: "ranked_ctx rk (node_depth ?n) L c"
    using assms(1) ranked_initial unfolding evaluates_def by (metis order_refl ranked.simps(3))
  from e have "r = Ok \<or> r = Error" by (cases fuel) (auto dest: visit_program_result)
  with e c show ?thesis by (simp add: ranked_ctx_def)
qed

lemma eval_terminates_witness:
  "\<exists>r c. eval_node 6 (ProgramNode
       [BlockNode ''function'' [] [''hi''] [TextNode ''x'' 1] [] [] False 1, DirectiveNode ''hi'' [] [] 1])
     (initial_ctx Map.empty) = Some (r, c) \<and> (r = Ok \<or> r = Error) \<and> \<not> ev_dangling c"
  by (rule eval_terminates [where rk = "\<lambda>_. 0" and L = 1]) simp_all

text \<open>C32: Evaluation only appends to the output, and never reads it.  For a template without
  \<open>@section\<close>, running it after the text \<open>s\<close> has been printed gives the same result and context as
  running it from the start, with \<open>s\<close> in front of the output; the output a run starts with is
  therefore always a prefix of the output it ends with.\<close>

theorem eval_appends:
  assumes "section_free n" "section_free_ctx c" "eval_node fuel n c = Some (r, c')"
  shows "eval_node fuel n (after_output s c) = Some (r, after_output s c') \<and>
    (\<exists>t. ev_output c' = ev_output c @ t)"
proof -
  have h: "output_hom.hom (ev_output c) s (eval_node fuel) (eval_node fuel)"
    by (rule output_hom.eval_node_hom) simp
  have p: "printed (ev_output c) c" using assms(2) by (simp add: printed_def)
  from output_hom.homD [OF h assms(1) p assms(3)] show ?thesis by (simp add: printed_def)
qed

lemma eval_appends_witness:
  "eval_node 1 (TextNode ''b'' 1) (after_output ''x'' (emit ''a'' (initial_ctx Map.empty))) =
     Some (Ok, after_output ''x'' (snd (visit_text ''b'' 1 (emit ''a'' (initial_ctx Map.empty))))) \<and>
   (\<exists>t. ev_output (snd (visit_text ''b'' 1 (emit ''a'' (initial_ctx Map.empty)))) =
      ev_output (emit ''a'' (initial_ctx Map.empty)) @ t)"
  by (rule eval_appends)
     (simp_all add: visit_text_def section_free_ctx_def initial_ctx_def register_defaults_def ctx_init_def emit_def)

text \<open>The branch of an \<open>@if\<close> block: the first whose condition holds, else the \<open>else\<close> body.\<close>

definition if_branch :: "ctx \<Rightarrow> string \<Rightarrow> node list \<Rightarrow> else_if_branch list \<Rightarrow> node list \<Rightarrow> bool \<Rightarrow> node list" where
  "if_branch c cond body elifs else_body has_else =
     (case find (\<lambda>(conds, b). conds \<noteq> [] \<and> eval_condition c (hd conds))
        (([cond], body) # map (\<lambda>b. (else_if_conditions b, else_if_body b)) elifs) of
        Some (conds, b) \<Rightarrow> b
      | None \<Rightarrow> if has_else then else_body else [])"

lemma eval_condition_line: "eval_condition (c\<lparr>ev_line := l\<rparr>) = eval_condition c"
  by (rule ext) (simp add: eval_condition_def has_var_def get_var_def)

lemma eval_elifs_branch:
  "\<not> eval_condition c cond \<Longrightarrow>
   eval_elifs ev elifs else_body has_else c = eval_seq ev (if_branch c cond body elifs else_body has_else) c"
proof (induction elifs)
  case (Cons b bs)
  then show ?case by (cases b) (simp add: if_branch_def)
qed (simp add: if_branch_def)

text \<open>\<open>@if(cond){...} elif(...){...} else {...}\<close> evaluates exactly the body of the first branch
  whose condition holds in the context it starts from, or the else body when none does, and
  nothing else; later conditions are not affected by the bodies, since at most one body runs.\<close>

lemma eval_if:
  assumes "ev_blocks c ''if'' = Some BH_if"
  shows "eval_node (Suc fuel) (BlockNode ''if'' options (cond # ps) body elifs else_body has_else line) c =
    eval_seq (eval_node fuel) (if_branch c cond body elifs else_body has_else) (c\<lparr>ev_line := line\<rparr>)"
proof -
  have b: "if_branch (c\<lparr>ev_line := line\<rparr>) cond body elifs else_body has_else =
      if_branch c cond body elifs else_body has_else"
    by (simp add: if_branch_def eval_condition_line)
  show ?thesis
  proof (cases "eval_condition (c\<lparr>ev_line := line\<rparr>) cond")
    case True
    with assms show ?thesis unfolding b [symmetric]
      by (simp add: visit_block_def handle_if_def if_branch_def)
  next
    case False
    with assms eval_elifs_branch [OF False, of "eval_node fuel" elifs else_body has_else body] b show ?thesis
      by (simp add: visit_block_def handle_if_def)
  qed
qed

lemma eval_if_witness:
  "eval_node (Suc 1) (BlockNode ''if'' [] [''0''] [TextNode ''a'' 1]
      [ElseIfBranch [''1''] [TextNode ''b'' 1] 1] [TextNode ''c'' 1] True 1) (initial_ctx Map.empty) =
    eval_seq (eval_node 1) (if_branch (initial_ctx Map.empty) ''0'' [TextNode ''a'' 1]
      [ElseIfBranch [''1''] [TextNode ''b'' 1] 1] [TextNode ''c'' 1] True)
      ((initial_ctx Map.empty)\<lparr>ev_line := 1\<rparr>)"
  by (rule eval_if) (simp add: initial_ctx_def register_defaults_def Let_def)

text \<open>Text printed \<open>k\<close> times by a loop whose condition stays true.\<close>

lemma while_loop_text:
  assumes "\<not> has_var cond c" "stod_nonzero cond = Some True"
  shows "while_loop (eval_node (Suc fuel)) cond [TextNode t line] (Suc k) c =
    Some (Ok, (emit (concat (replicate (Suc k) (unescape t))) c)\<lparr>ev_line := line\<rparr>)"
  using assms
proof (induction k arbitrary: c)
  case 0
  then show ?case by (simp add: eval_condition_def visit_text_def)
next
  case (Suc k)
  let ?c = "(emit (unescape t) c)\<lparr>ev_line := line\<rparr>"
  have nv: "\<not> has_var cond ?c" using Suc.prems by (simp add: has_var_def emit_def)
  from Suc.IH [OF nv Suc.prems(2)]
  have "while_loop (eval_node (Suc fuel)) cond [TextNode t line] (Suc k) ?c =
      Some (Ok, (emit (concat (replicate (Suc (Suc k)) (unescape t))) c)\<lparr>ev_line := line\<rparr>)"
    by (simp add: emit_def)
  moreover have "eval_condition c cond" using Suc.prems by (simp add: eval_condition_def)
  ultimately show ?case
    by (subst while_loop.simps(2)) (simp add: visit_text_def del: while_loop.simps)
qed

text \<open>A loop whose condition is a nonzero literal, and whose body is a text, puts it out 100000 times.\<close>

lemma while_text:
  assumes "ev_blocks c ''while'' = Some BH_while" "\<not> has_var cond c" "stod_nonzero cond = Some True"
  shows "eval_node (Suc (Suc fuel))
      (BlockNode ''while'' options [cond] [TextNode t line] elifs else_body has_else line) c =
    Some (Ok, (emit (concat (replicate 100000 (unescape t))) c)\<lparr>ev_line := line\<rparr>)"
proof -
  have "has_var cond (c\<lparr>ev_line := line\<rparr>) = has_var cond c" by (simp add: has_var_def)
  with while_loop_text [of cond "c\<lparr>ev_line := line\<rparr>" fuel t line "max_iterations - 1"] assms
  show ?thesis
    by (simp add: visit_block_def handle_while_def max_iterations_def emit_def
        del: while_loop.simps replicate_Suc eval_node.simps add: eval_node.simps(2) [of "Suc fuel"])
qed

subsection \<open>What a loop means\<close>

text \<open>A round runs through when each node of the body gives \<open>Ok\<close> or \<open>Skip\<close>; it leaves the loop at the first node that
  gives anything else, with \<open>Ok\<close> where that is \<open>Break\<close>.\<close>

inductive runs_through :: "node_eval \<Rightarrow> node list \<Rightarrow> ctx \<Rightarrow> ctx \<Rightarrow> bool" for ev where
  Through_end: "runs_through ev [] c c"
| Through_node: "ev n c = Some (r, c1) \<Longrightarrow> r = Ok \<or> r = Skip \<Longrightarrow> runs_through ev ns c1 c' \<Longrightarrow> runs_through ev (n # ns) c c'"

inductive leaves_loop :: "node_eval \<Rightarrow> node list \<Rightarrow> ctx \<Rightarrow> eval_result \<Rightarrow> ctx \<Rightarrow> bool" for ev where
  Leave_break: "ev n c = Some (Break, c') \<Longrightarrow> leaves_loop ev (n # ns) c Ok c'"
| Leave_other: "ev n c = Some (r, c') \<Longrightarrow> r \<noteq> Ok \<Longrightarrow> r \<noteq> Skip \<Longrightarrow> r \<noteq> Break \<Longrightarrow> leaves_loop ev (n # ns) c r c'"
| Leave_later: "ev n c = Some (r, c1) \<Longrightarrow> r = Ok \<or> r = Skip \<Longrightarrow> leaves_loop ev ns c1 q c' \<Longrightarrow> leaves_loop ev (n # ns) c q c'"

text \<open>The loop with \<open>k\<close> rounds left.\<close>

inductive while_runs :: "node_eval \<Rightarrow> string \<Rightarrow> node list \<Rightarrow> nat \<Rightarrow> ctx \<Rightarrow> eval_result \<Rightarrow> ctx \<Rightarrow> bool" for ev cond body where
  While_limit: "while_runs ev cond body 0 c Ok c"
| While_false: "\<not> eval_condition c cond \<Longrightarrow> while_runs ev cond body k c Ok c"
| While_leave: "eval_condition c cond \<Longrightarrow> leaves_loop ev body c r c' \<Longrightarrow> while_runs ev cond body (Suc k) c r c'"
| While_round: "eval_condition c cond \<Longrightarrow> runs_through ev body c c1 \<Longrightarrow> while_runs ev cond body k c1 r c' \<Longrightarrow>
    while_runs ev cond body (Suc k) c r c'"

inductive_simps runs_through_simps: "runs_through ev [] c c'" "runs_through ev (n # ns) c c'"
inductive_simps leaves_loop_simps: "leaves_loop ev [] c r c'" "leaves_loop ev (n # ns) c r c'"
inductive_simps while_runs_simps: "while_runs ev cond body 0 c r c'" "while_runs ev cond body (Suc k) c r c'"

lemma loop_body_through: "loop_body ev ns c = Some (None, c') \<longleftrightarrow> runs_through ev ns c c'"
  by (induction ns arbitrary: c) (auto simp: runs_through_simps split: option.split)

lemma loop_body_leaves: "loop_body ev ns c = Some (Some r, c') \<longleftrightarrow> leaves_loop ev ns c r c'"
  by (induction ns arbitrary: c) (auto simp: leaves_loop_simps split: option.split)

lemma while_loop_runs: "while_loop ev cond body k c = Some (r, c') \<longleftrightarrow> while_runs ev cond body k c r c'"
proof (induction k arbitrary: c)
  case (Suc k)
  show ?case
  proof (cases "loop_body ev body c")
    case None
    then have "\<not> runs_through ev body c c1" "\<not> leaves_loop ev body c q c1" for c1 q
      using loop_body_through [of ev body c] loop_body_leaves [of ev body c] by auto
    with None show ?thesis by (auto simp: while_runs_simps)
  next
    case (Some x)
    have t: "runs_through ev body c c1 \<longleftrightarrow> x = (None, c1)" and l: "leaves_loop ev body c q c1 \<longleftrightarrow> x = (Some q, c1)" for c1 q
      using Some by (simp_all flip: loop_body_through loop_body_leaves)
    show ?thesis using Some by (cases x; cases "fst x") (auto simp: while_runs_simps t l Suc.IH)
  qed
qed (auto simp: while_runs_simps)

text \<open>C40: What \<open>@while\<close> does, for every condition and every body, with the handler that is registered for it by default.  The condition is tested before each round; the loop ends
  with \<open>Ok\<close> when it fails, or when 100000 rounds have been run, however it stands then; a round goes on to
  the next when each node of the body gives \<open>Ok\<close> or \<open>Skip\<close>, and the loop ends at the first node that does not: with \<open>Ok\<close> for \<open>Break\<close>, else with
  the node's own result.  The evaluator gives a result for the block exactly when this gives it.\<close>

theorem while_limit:
  assumes "ev_blocks c ''while'' = Some BH_while"
  shows "eval_node (Suc fuel) (BlockNode ''while'' options (cond # conds) body elifs else_body has_else line) c = Some (r, c') \<longleftrightarrow>
    while_runs (eval_node fuel) cond body 100000 (c\<lparr>ev_line := line\<rparr>) r c'"
  unfolding while_loop_runs [symmetric] using assms
  by (simp add: visit_block_def handle_while_def max_iterations_def del: while_loop.simps)

lemma while_limit_witness:
  "while_runs (eval_node (Suc 0)) ''1'' [TextNode ''x'' 1] 100000 ((initial_ctx Map.empty)\<lparr>ev_line := 1\<rparr>) Ok
     ((emit (concat (replicate 100000 (unescape ''x''))) (initial_ctx Map.empty))\<lparr>ev_line := 1\<rparr>)"
proof (rule iffD1 [OF while_limit])
  show "ev_blocks (initial_ctx Map.empty) ''while'' = Some BH_while"
    by (simp add: initial_ctx_def register_defaults_def ctx_init_def)
  show "eval_node (Suc (Suc 0)) (BlockNode ''while'' [] [''1''] [TextNode ''x'' 1] [] [] False 1) (initial_ctx Map.empty) =
      Some (Ok, (emit (concat (replicate 100000 (unescape ''x''))) (initial_ctx Map.empty))\<lparr>ev_line := 1\<rparr>)"
    by (rule while_text)
       (simp_all add: initial_ctx_def register_defaults_def ctx_init_def has_var_def stod_nonzero_def take_sign_def
         isspace_def byte_def tolower_def isupper_def mantissa_def isdigit_def isxdigit_def Let_def)
qed

end
