(* ===== verification/Nift_Template.thy ===== *)
theory Nift_Template
  imports Nift_Parser Nift_Evaluator
begin

text \<open>
  The template engine as a whole: \<open>evaluate_template\<close> of \<open>parser.cpp\<close>, which runs the lexer, the
  parser and the evaluator, and the properties of its observable behaviour: numbers, loops,
  sections, escapes, and the closed runs that show where the engine departs from its
  documentation.
\<close>

section \<open>Decimal numbers\<close>

text \<open>\<open>std::to_string\<close> and \<open>std::stoi\<close> are inverse on \<open>int\<close>: the value a \<open>@for\<close> loop stores in
  its variable can be read back as a loop bound, whatever text that is no digit follows it.\<close>

lemma stoi_to_string:
  assumes "- (2 ^ 31) \<le> i" "i < 2 ^ 31" "rest = [] \<or> \<not> isdigit (hd rest)"
  shows "stoi (show_int i @ rest) = Some i"
proof -
  have tw: "takeWhile isdigit (show_nat n @ rest) = show_nat n" for n
  proof -
    have "takeWhile isdigit rest = []" using assms(3) by (cases rest) auto
    with show_nat_digits [of n] show ?thesis by (simp add: list_all_iff takeWhile_append2)
  qed
  have hd: "\<exists>d ds. show_nat n = d # ds \<and> isdigit d" for n
    using show_nat_digits [of n] by (cases "show_nat n") auto
  have sign: "take_sign (show_nat n @ rest) = (False, show_nat n @ rest)"
    "dropWhile isspace (show_nat n @ rest) = show_nat n @ rest" for n
    using hd [of n] by (auto simp: take_sign_def dest: isdigit_not)
  have "take_sign (CHR ''-'' # r) = (True, r)" for r by (simp add: take_sign_def)
  moreover have "\<not> isspace (CHR ''-'')" by (simp add: isspace_def byte_def)
  ultimately show ?thesis using assms(1,2) show_nat_digits
    by (auto simp: stoi_def show_int_def sign tw)
qed

lemma stoi_to_string_witness: "stoi (show_int (- 5) @ ''; 9'') = Some (- 5)"
  by (rule stoi_to_string) (simp_all add: isdigit_def byte_def)

section \<open>Loops\<close>

lemma for_loop_prints:
  "\<exists>c'. for_loop (eval_node (Suc fuel)) var [VarNode k var line] n i c = Some (Ok, c') \<and>
     ev_output c' = ev_output c @ concat (map show_int [i..i + int n - 1])"
proof (induction n arbitrary: i c)
  case (Suc n)
  let ?c = "emit (show_int i) (set_var var (show_int i) c)"
  from Suc [of "i + 1" ?c] obtain c' where
    "for_loop (eval_node (Suc fuel)) var [VarNode k var line] n (i + 1) ?c = Some (Ok, c')"
    "ev_output c' = ev_output ?c @ concat (map show_int [i + 1..i + int (Suc n) - 1])" by (auto simp: add.commute)
  then show ?case by (simp add: visit_var_def get_var_def set_var_def emit_def upto_rec1 [of i])
qed simp

text \<open>\<open>@for(var; a; b)\<close> counts from \<open>a\<close> up to, and not including, \<open>b\<close>: with the loop variable
  as its body it prints the numbers in that order, prints nothing when \<open>b\<close> is not above \<open>a\<close>, and
  ends with \<open>Ok\<close>.\<close>

lemma for_prints:
  assumes "ev_blocks c ''for'' = Some BH_for" "stoi a = Some i" "stoi b = Some j"
  shows "\<exists>c'. eval_node (Suc (Suc fuel))
      (BlockNode ''for'' options [var, a, b] [VarNode k var line] elifs else_body has_else l) c = Some (Ok, c') \<and>
    ev_output c' = ev_output c @ concat (map show_int [i..j - 1])"
proof -
  have "[i..i + int (nat (j - i)) - 1] = [i..j - 1]" by simp
  with for_loop_prints [of fuel var k line "nat (j - i)" i "c\<lparr>ev_line := l\<rparr>"] assms show ?thesis
    by (auto simp: visit_block_def handle_for_def simp del: eval_node.simps(2) int_nat_eq
        simp add: eval_node.simps(2) [of "Suc fuel"])
qed

lemma for_prints_witness:
  "\<exists>c'. eval_node (Suc (Suc 0))
      (BlockNode ''for'' [] [''i'', ''8'', ''11''] [VarNode Bracket ''i'' 1] [] [] False 1)
      (initial_ctx Map.empty) = Some (Ok, c') \<and>
    ev_output c' = ev_output (initial_ctx Map.empty) @ concat (map show_int [8..11 - 1])"
proof (rule for_prints)
  show "stoi ''8'' = Some 8" "stoi ''11'' = Some 11"
    by code_simp+
qed (simp add: initial_ctx_def register_defaults_def Let_def)

text \<open>\<open>@continue\<close> does not continue the loop.  Inside a \<open>@for\<close> or \<open>@while\<close> body it has no
  effect but to record its line: the nodes after it are evaluated in the same round as if it were
  not there (the C++ \<open>continue\<close> belongs to the loop over the child nodes).\<close>

lemma continue_is_ignored:
  assumes "ev_directives c ''continue'' = Some H_continue"
  shows "loop_body (eval_node (Suc fuel)) (DirectiveNode ''continue'' options ps line # rest) c =
    loop_body (eval_node (Suc fuel)) rest (c\<lparr>ev_line := line\<rparr>)"
  using assms by (simp add: visit_directive_def handle_continue_def)

lemma continue_is_ignored_witness:
  "loop_body (eval_node (Suc 0)) (DirectiveNode ''continue'' [] [] 2 # [TextNode ''x'' 2])
     (initial_ctx Map.empty) =
   loop_body (eval_node (Suc 0)) [TextNode ''x'' 2] ((initial_ctx Map.empty)\<lparr>ev_line := 2\<rparr>)"
  by (rule continue_is_ignored) (simp add: initial_ctx_def register_defaults_def ctx_init_def Let_def)

section \<open>Sections\<close>

text \<open>\<open>@section\<close> and \<open>@yield\<close>.  When the body of a section ends normally, the section prints
  nothing where it stands, and every later \<open>@yield\<close> of its name prints exactly what the body
  printed, as long as the variable that holds it is not changed.\<close>

lemma section_yield:
  assumes "eval_seq (eval_node fuel) body (c\<lparr>ev_output := []\<rparr>) = Some (Ok, c1)"
  shows "\<exists>c2. eval_node (Suc fuel) (SectionNode name body line) c = Some (Ok, c2) \<and>
    ev_output c2 = ev_output c \<and>
    (\<forall>c3 k l. ev_variables c3 (section_var name) = ev_variables c2 (section_var name) \<longrightarrow>
       eval_node (Suc k) (YieldNode name l) c3 = Some (Ok, emit (ev_output c1) c3))"
  using assms by (simp add: visit_section_def visit_yield_def get_var_def set_var_def)

lemma section_yield_witness:
  "\<exists>c2. eval_node (Suc 1) (SectionNode ''s'' [TextNode ''a'' 1] 1) (initial_ctx Map.empty) = Some (Ok, c2) \<and>
    ev_output c2 = ev_output (initial_ctx Map.empty) \<and>
    (\<forall>c3 k l. ev_variables c3 (section_var ''s'') = ev_variables c2 (section_var ''s'') \<longrightarrow>
       eval_node (Suc k) (YieldNode ''s'' l) c3 =
       Some (Ok, emit (ev_output (snd (visit_text ''a'' 1 ((initial_ctx Map.empty)\<lparr>ev_output := []\<rparr>)))) c3))"
  by (rule section_yield) (simp add: visit_text_def)

text \<open>A section whose body does not end normally loses the output of the program so far.
  With \<open>@exit\<close> in its body, everything printed before the section is dropped, whatever it was.\<close>

lemma section_exit_loses_output:
  "map_option (ev_output \<circ> snd) (eval_node (Suc (Suc (Suc fuel)))
     (ProgramNode [TextNode t l1, SectionNode name [DirectiveNode ''exit'' [] [] l2] l3, TextNode u l4])
     (initial_ctx vars)) = Some []"
  by (simp add: visit_text_def visit_section_def visit_directive_def handle_exit_def initial_ctx_def
      register_defaults_def ctx_init_def emit_def Let_def)

section \<open>User functions\<close>

lemma self_call_diverges:
  assumes "ev_blocks c ''f'' = Some (BH_user [DirectiveNode ''f'' [] [] l])" "ev_directives c ''f'' = None"
  shows "eval_node fuel (DirectiveNode ''f'' [] [] k) c = None"
  using assms
proof (induction fuel arbitrary: c k)
  case (Suc fuel)
  then have "eval_node fuel (DirectiveNode ''f'' [] [] l)
      (c\<lparr>ev_line := k, ev_active := ''f'' # ev_active c\<rparr>) = None" by (intro Suc.IH) simp_all
  with Suc.prems show ?case by (simp add: visit_directive_def call_user_def)
qed simp

text \<open>A function that calls itself is never cut off: \<open>@function(f){ ... @f ... }@f\<close> has no
  result at any fuel, which is a stack overflow in C++ (\<open>@while\<close> has its limit of rounds, calls
  have none).\<close>

lemma recursive_function_diverges:
  "eval_node fuel (ProgramNode
     [BlockNode ''function'' [] [''f''] [DirectiveNode ''f'' [] [] l] [] [] False l,
      DirectiveNode ''f'' [] [] k]) (initial_ctx vars) = None"
proof (cases fuel)
  case (Suc g)
  show ?thesis
  proof (cases "eval_node g (BlockNode ''function'' [] [''f''] [DirectiveNode ''f'' [] [] l] [] [] False l)
      (initial_ctx vars)")
    case (Some p)
    then obtain g' where g: "g = Suc g'" by (cases g) auto
    obtain r c where p: "p = (r, c)" by (cases p)
    with Some g have "r = Ok" "ev_blocks c ''f'' = Some (BH_user [DirectiveNode ''f'' [] [] l])"
      "ev_directives c ''f'' = None"
      by (auto simp: visit_block_def initial_ctx_def register_defaults_def ctx_init_def handle_function_def Let_def)
    with self_call_diverges [of c l g k] Some p Suc show ?thesis by simp
  qed (simp add: Suc)
qed simp

text \<open>A function that redefines itself while it runs destroys the body it is executing: the
  run of \<open>@function(f){@function(f){..}..}@f\<close> ends with the dangling-closure flag set.\<close>

lemma self_redefinition_dangles:
  "map_option (ev_dangling \<circ> snd) (eval_node (Suc (Suc (Suc fuel))) (ProgramNode
     [BlockNode ''function'' [] [''f'']
        [BlockNode ''function'' [] [''f''] body [] [] False l, TextNode t m] [] [] False l,
      DirectiveNode ''f'' [] [] k]) (initial_ctx vars)) = Some True"
  by (simp add: visit_block_def visit_directive_def initial_ctx_def register_defaults_def ctx_init_def
      handle_function_def call_user_def visit_text_def emit_def Let_def)

section \<open>Rendering a template\<close>

text \<open>\<open>evaluate_template(source, variables)\<close>.\<close>

definition evaluate_template :: "nat \<Rightarrow> string \<Rightarrow> (string \<rightharpoonup> string) \<Rightarrow> string option" where
  "evaluate_template fuel source variables =
     map_option (\<lambda>(r, c). ev_output c) (eval_node fuel (parse_template source) (initial_ctx variables))"

lemma initial_output [simp]: "ev_output (initial_ctx vars) = []"
  by (simp add: initial_ctx_def register_defaults_def ctx_init_def Let_def)

lemma parse_text:
  "tk_type t = Text \<Longrightarrow> tk_type e = Eof \<Longrightarrow>
   parse [t, e] = ProgramNode [TextNode (tk_value t) (tk_line t)]"
  by (simp add: parse_def parse_fuel_def ps_weight_def parser_init_def parser_at_end_def parser_peek_def
      parser_advance_def text_node_of_def snoc_node_def)

text \<open>The text with which a template prints \<open>s\<close>: a backslash before \<open>@\<close> and before a backslash.\<close>

definition escape_text :: "string \<Rightarrow> string" where
  "escape_text s =
     concat (map (\<lambda>c. if c = CHR ''@'' \<or> c = CHR 0x5C then [CHR 0x5C, c] else [c]) s)"

lemma escape_text_hd: "escape_text s = d # ds \<Longrightarrow> d \<noteq> CHR ''@''"
  by (cases s) (auto simp: escape_text_def split: if_splits)

lemma escape_text_Cons: "escape_text (c # s) =
    (if c = CHR ''@'' \<or> c = CHR 0x5C then CHR 0x5C # c # escape_text s else c # escape_text s)"
  by (simp add: escape_text_def)

lemma unescape_Cons: "c \<noteq> CHR 0x5C \<Longrightarrow> unescape (c # cs) = c # unescape cs"
  by (cases cs) auto

lemma unescape_escape_text: "unescape (escape_text s) = s"
  by (induction s) (simp_all add: escape_text_Cons unescape_Cons, simp add: escape_text_def)

lemma escaped_text_Cons: "c \<noteq> CHR 0x5C \<Longrightarrow> escaped_text (c # cs) \<longleftrightarrow> c \<noteq> CHR ''@'' \<and> c \<noteq> CHR ''$'' \<and> escaped_text cs"
  by (cases cs) auto

lemma escaped_escape_text: "CHR ''$'' \<notin> set s \<Longrightarrow> escaped_text (escape_text s)"
  by (induction s) (auto simp: escape_text_Cons escaped_text_Cons, simp add: escape_text_def)

text \<open>C28: Every text without a dollar sign can be written in a template.  Escaping each \<open>@\<close> and each backslash of it and
  rendering the result prints the text, byte for byte, whatever the variables: through the lexer, the parser and
  the evaluator, with any fuel from two on.\<close>

theorem render_escaped:
  assumes "CHR ''$'' \<notin> set s"
  shows "evaluate_template (Suc (Suc fuel)) (escape_text s) vars = Some s"
proof (cases "s = []")
  case True
  have "tokenize [] = [make_token Eof [] 1]"
    unfolding tokenize_def by (subst tokenize_loop.simps) (simp add: lexer_at_end_def lexer_init_def)
  with True show ?thesis
    by (simp add: escape_text_def evaluate_template_def parse_template_def parse_def parse_fuel_def
        ps_weight_def parser_init_def parser_at_end_def)
next
  case False
  then have "escape_text s \<noteq> []" by (cases s) (simp_all add: escape_text_Cons)
  from tokenize_escaped_text [OF this escaped_escape_text [OF assms]]
  have "parse_template (escape_text s) = ProgramNode [TextNode (escape_text s) 1]"
    by (simp add: parse_template_def parse_text)
  then show ?thesis by (simp add: evaluate_template_def visit_text_def unescape_escape_text emit_def)
qed

lemma render_escaped_witness:
  "evaluate_template (Suc (Suc 0)) (escape_text ''me@x.org'') Map.empty = Some ''me@x.org''"
  by (rule render_escaped) simp

text \<open>The escape \<open>\$\<close> is half implemented: the lexer takes it as text, the evaluator never
  removes its backslash, so a template of the form \<open>...\$...\<close> prints the backslash.\<close>

lemma dollar_escape_kept:
  assumes "escaped_text a" "CHR 0x5C \<notin> set a" "escaped_text b" "CHR 0x5C \<notin> set b"
  shows "evaluate_template (Suc (Suc fuel)) (a @ CHR 0x5C # CHR ''$'' # b) vars =
    Some (a @ CHR 0x5C # CHR ''$'' # b)"
proof -
  let ?s = "a @ CHR 0x5C # CHR ''$'' # b"
  have e: "escaped_text ?s" using assms
    by (induction a) (auto simp: escaped_text_Cons)
  have ub: "CHR 0x5C \<notin> set b \<Longrightarrow> unescape b = b" by (induction b) (auto simp: unescape_Cons)
  have u: "CHR 0x5C \<notin> set a \<Longrightarrow> unescape (a @ CHR 0x5C # CHR ''$'' # b) = a @ CHR 0x5C # CHR ''$'' # b"
    using ub assms(4) by (induction a) (auto simp: unescape_Cons)
  have "parse_template ?s = ProgramNode [TextNode ?s 1]"
    using tokenize_escaped_text [OF _ e] by (simp add: parse_template_def parse_text)
  with u assms(2) show ?thesis by (simp add: evaluate_template_def visit_text_def emit_def)
qed

lemma dollar_escape_kept_witness:
  "evaluate_template (Suc (Suc 0)) (''a'' @ CHR 0x5C # CHR ''$'' # ''b'') Map.empty =
   Some (''a'' @ CHR 0x5C # CHR ''$'' # ''b'')"
  by (rule dollar_escape_kept) simp_all

section \<open>A conditional, end to end\<close>

text \<open>Words without white space around them and without template syntax.\<close>

definition plain_word :: "string \<Rightarrow> bool" where
  "plain_word w \<longleftrightarrow> w \<noteq> [] \<and> hd w \<notin> set ws_set \<and> last w \<notin> set ws_set \<and>
     (\<forall>c\<in>set w. c \<notin> set ''@$(){},;'' \<and> c \<noteq> CHR 0x5C)"

lemma plain_escaped: "\<forall>x\<in>set w. x \<noteq> CHR ''@'' \<and> x \<noteq> CHR ''$'' \<and> x \<noteq> CHR 0x5C \<Longrightarrow> escaped_text w"
  by (rule escaped_text_plain) auto

lemma plain_unescape: "CHR 0x5C \<notin> set w \<Longrightarrow> unescape w = w"
  by (induction w) (auto simp: unescape_Cons)

lemma scan_suffix_none: "lx_pos lx \<le> length (lx_source lx) \<Longrightarrow> drop (lx_pos lx) (lx_source lx) = c # cs \<Longrightarrow> c \<noteq> CHR ''+'' \<Longrightarrow> c \<noteq> CHR ''-'' \<Longrightarrow>
    scan_suffix name lx = (name, lx)"
  using drop_peek [of lx] by (cases "lexer_at_end lx") (auto simp: scan_suffix_def)

lemma tokenize_name_text:
  assumes nm: "name \<noteq> []" "list_all is_identifier_char name"
    and tx: "escaped_text txt" "txt = c # cs" "\<not> is_identifier_char c" "c \<noteq> CHR ''+''" "c \<noteq> CHR ''-''"
  shows "\<exists>l. tokenize (CHR ''@'' # name @ txt) =
     [make_token Directive name 1, make_token Text txt 1, make_token Eof [] l]"
proof -
  let ?s = "CHR ''@'' # name @ txt"
  let ?l = "lexer_init ?s"
  obtain lx1 where l: "lx_source lx1 = ?s" "drop (lx_pos lx1) ?s = txt" "lx_pos lx1 \<le> length ?s" "lx_line lx1 = 1"
      "lex_one ?l = (make_token Directive (fst (scan_suffix name lx1)) 1, snd (scan_suffix name lx1))"
    using lex_one_name [of "?l" name "txt"] nm tx(2,3) by (auto simp: lexer_init_def)
  have sfx: "scan_suffix name lx1 = (name, lx1)"
    using scan_suffix_none [of lx1 c cs name] l(1-3) tx by simp
  have ne: "\<not> lexer_at_end lx1" using l(1,2) tx(2) by (auto simp: lexer_at_end_def)
  have pk: "lexer_peek lx1 = c" using drop_peek [OF ne] l(1,2) tx(2) by simp
  have c: "c \<noteq> CHR ''@''" "c \<noteq> CHR ''$''" using tx(1,2) by (cases cs; auto split: if_splits)+
  define e where "e = scan_text_loop lx1"
  have pe: "lx_pos e = length ?s" unfolding e_def
    using scan_text_loop_escaped [of lx1] l(1-3) tx(1) by simp
  have "lexer_inv False ?s e" unfolding e_def
    using l(1,3) by (intro scan_text_loop_inv) (simp add: lexer_inv_def)
  then have se: "lx_source e = ?s" by (simp add: lexer_inv_def)
  have "lexed_from (lx_pos lx1) e = txt"
  proof -
    have "take (lx_pos e - lx_pos lx1) (drop (lx_pos lx1) ?s) = drop (lx_pos lx1) ?s"
      using pe l(3) by simp
    with l(2) se show ?thesis by (simp add: lexed_from_def substr_def)
  qed
  moreover have "lx_pos e \<noteq> lx_pos lx1"
  proof
    assume "lx_pos e = lx_pos lx1"
    with pe l(2) tx(2) show False by simp
  qed
  ultimately have one: "lex_one lx1 = (make_token Text txt 1, e)"
    using pk c l(4) by (simp add: lex_one_def scan_text_def Let_def e_def)
  have "tokenize_loop e = ([make_token Eof [] (lx_line e)], e)"
    using pe se by (subst tokenize_loop.simps) (simp add: lexer_at_end_def)
  then have "tokenize_loop lx1 = ([make_token Text txt 1, make_token Eof [] (lx_line e)], e)"
    using ne one by (subst tokenize_loop.simps) simp
  then show ?thesis
    using l(5) sfx unfolding tokenize_def
    by (intro exI [of _ "lx_line e"], subst tokenize_loop.simps) (simp add: lexer_at_end_def lexer_init_def)
qed

lemma str_find_in: "c \<notin> set a \<Longrightarrow> str_find c 0 (a @ c # b) = Some (length a)"
  using find_idx_prefix [of a "\<lambda>x. x = c" c b] by (auto simp: str_find_def)

lemma split_args_loop_plain:
  "\<forall>c\<in>set w. c \<notin> set ''(),;'' \<Longrightarrow> split_args_loop w args cur 0 =
    (if cur @ w = [] then args else args @ [trim_arg (cur @ w)])"
  by (induction w arbitrary: cur) auto

lemma trim_arg_id:
  assumes "w \<noteq> []" "hd w \<notin> set ws_set" "last w \<notin> set ws_set"
  shows "trim_arg w = w"
proof -
  obtain c cs where w: "w = c # cs" using assms(1) by (cases w) auto
  obtain d ds where r: "rev w = d # ds" using assms(1) by (cases "rev w") auto
  have "d = last w" using r by (metis hd_rev list.sel(1))
  with assms w r show ?thesis
    by (simp add: trim_arg_def find_first_not_of_def find_last_not_of_def substr_def)
qed

lemma split_args_plain: "plain_word w \<Longrightarrow> split_args w = [w]"
  using split_args_loop_plain [of w "[]" "[]"] trim_arg_id [of w]
  by (auto simp: split_args_def plain_word_def)

lemma clean_body_plain: "plain_word b \<Longrightarrow> clean_body [TextNode b l] = [TextNode b l]"
  by (cases b) (auto simp: clean_body_def plain_word_def is_whitespace_only_def ws_set_def NL_def)


text \<open>The tokens still to be parsed.\<close>

definition pending :: "parser \<Rightarrow> token list \<Rightarrow> bool" where
  "pending ps ts \<longleftrightarrow> ps_pos ps \<le> length (ps_tokens ps) \<and> drop (ps_pos ps) (ps_tokens ps) = ts"

lemma pending_Cons:
  assumes "pending ps (t # ts)"
  shows "parser_peek ps = t" "parser_at_end ps \<longleftrightarrow> tk_type t = Eof" "pending (parser_advance ps) ts"
    "parser_check ty ps \<longleftrightarrow> tk_type t = ty"
proof -
  have lt: "ps_pos ps < length (ps_tokens ps)" using assms by (auto simp: pending_def not_le[symmetric])
  have t: "ps_tokens ps ! ps_pos ps = t" "drop (Suc (ps_pos ps)) (ps_tokens ps) = ts"
    using assms Cons_nth_drop_Suc [OF lt] by (auto simp: pending_def)
  from lt t show "parser_peek ps = t" "parser_at_end ps \<longleftrightarrow> tk_type t = Eof"
    by (simp_all add: parser_peek_def parser_at_end_def)
  then show "parser_check ty ps \<longleftrightarrow> tk_type t = ty" by (simp add: parser_check_def)
  show "pending (parser_advance ps) ts" using lt t by (simp add: pending_def parser_advance_def)
qed

lemma pending_push_back:
  "pending ps ts \<Longrightarrow> pending (push_back_text v l ps) (if v = [] then ts else text_token v l # ts)"
  by (simp add: pending_def push_back_text_def)

lemma pending_at_end: "pending ps [t] \<Longrightarrow> tk_type t = Eof \<Longrightarrow> parser_at_end ps"
  using pending_Cons(2) by blast

lemma parse_block_body_close:
  assumes p: "pending ps (text_token (b @ CHR ''}'' # v) l # ts)" and b: "plain_word b"
  shows "\<exists>q. parse_block_body pn (Suc fuel) [] ps = Some ([TextNode b l], q) \<and>
    pending q (if v = [] then ts else text_token v l # ts)"
proof -
  have "str_find (CHR ''}'') 0 (b @ CHR ''}'' # v) = Some (length b)"
    using b by (intro str_find_in) (auto simp: plain_word_def)
  moreover have "b \<noteq> []" using b by (simp add: plain_word_def)
  ultimately show ?thesis
    using pending_Cons [OF p] pending_push_back [of "parser_advance ps" ts v l] clean_body_plain [OF b]
    by (simp add: parse_block_body.simps(2) text_token_def substr_def)
qed

lemma consume_brace_text:
  assumes p: "pending ps (text_token (CHR ''{'' # v) l # ts)"
  shows "check_for_brace ps = (True, ps)"
    "pending (consume_brace ps) (if v = [] then ts else text_token v l # ts)"
proof -
  have "find_first_not_of ws_set (CHR ''{'' # v) = Some 0"
    by (simp add: find_first_not_of_def ws_set_def)
  with pending_Cons [OF p] pending_push_back [of "parser_advance ps" ts v l]
  show "check_for_brace ps = (True, ps)"
    "pending (consume_brace ps) (if v = [] then ts else text_token v l # ts)"
    by (simp_all add: check_for_brace_def consume_brace_def text_token_def)
qed

lemma elif_head_else:
  assumes p: "pending ps (text_token (''else{'' @ v) l # ts)"
  shows "\<exists>q. elif_head ps = Else_branch True q \<and> pending q (text_token (CHR ''{'' # v) l # ts)"
proof -
  define q where "q = push_back_text (CHR ''{'' # v) l (parser_advance ps)"
  have q: "pending q (text_token (CHR ''{'' # v) l # ts)"
    using pending_push_back [OF pending_Cons(3) [OF p], of "CHR ''{'' # v" l] by (simp add: q_def)
  have "find_first_not_of ws_set (''else{'' @ v) = Some 0"
    by (simp add: find_first_not_of_def ws_set_def)
  moreover have "\<not> keyword4 ''elif'' (''else{'' @ v)" "keyword4 ''else'' (''else{'' @ v)"
    by (simp_all add: keyword4_def is_identifier_char_def ctype_defs)
  ultimately show ?thesis
    using pending_Cons [OF p] consume_brace_text(1) [OF q] q
    by (simp add: elif_head_def text_token_def Let_def flip: q_def)
qed

lemma parse_elifs_end: "pending ps [t] \<Longrightarrow> tk_type t = Eof \<Longrightarrow>
    parse_elifs pn (Suc fuel) es eb h ps = Some (es, eb, h, ps)"
  using pending_at_end by (simp add: parse_elifs.simps)

lemma parse_if:
  assumes c: "plain_word c" and b: "plain_word b" and e: "plain_word e"
  shows "parse [make_token Directive ''if'' 1,
      make_token Text (''('' @ c @ ''){'' @ b @ ''}else{'' @ e @ ''}'') 1, make_token Eof [] l] =
    ProgramNode [BlockNode ''if'' [] [c] [TextNode b 1] [] [TextNode e 1] True 1]"
proof -
  let ?E = "make_token Eof [] l"
  let ?sv = "''('' @ c @ ''){'' @ b @ ''}else{'' @ e @ ''}''"
  let ?ts = "[make_token Directive ''if'' 1, text_token ?sv 1, ?E]"
  obtain f where f: "parse_fuel ?ts = Suc (Suc (Suc (Suc f)))"
    by (simp add: parse_fuel_def ps_weight_def parser_init_def text_token_def)
  define ps where "ps = parser_init ?ts"
  define p1 where "p1 = parser_advance ps"
  define p2 where "p2 = push_back_text (''{'' @ b @ ''}else{'' @ e @ ''}'') 1 (parser_advance p1)"
  have ps: "pending ps ?ts" by (simp add: ps_def pending_def parser_init_def)
  have p1: "pending p1 [text_token ?sv 1, ?E]" using pending_Cons(3) [OF ps] by (simp add: p1_def)
  have p2: "pending p2 [text_token (''{'' @ b @ ''}else{'' @ e @ ''}'') 1, ?E]"
    using pending_push_back [OF pending_Cons(3) [OF p1], of "''{'' @ b @ ''}else{'' @ e @ ''}''" 1] by (simp add: p2_def)
  have close: "str_find (CHR '')'') 0 ?sv = Some (Suc (length c))"
    using str_find_in [of "CHR '')''" "CHR ''('' # c"] c by (fastforce simp: plain_word_def)
  have args: "parse_directive_args p1 = ([], [c], p2)"
    using pending_Cons [OF p1] close split_args_plain [OF c]
    by (simp add: parse_directive_args_def text_token_def find_first_not_of_def ws_set_def substr_def p2_def)
  obtain p3 where p3: "parse_block_body (parse_node (Suc (Suc (Suc f)))) (Suc (Suc (Suc f))) [] (consume_brace p2) =
      Some ([TextNode b 1], p3)" "pending p3 [text_token (''else{'' @ e @ ''}'') 1, ?E]"
    using parse_block_body_close [OF _ b] consume_brace_text(2) [of p2 "b @ ''}else{'' @ e @ ''}''" 1 "[?E]"] p2
    by (fastforce simp: plain_word_def)
  obtain q where q: "elif_head p3 = Else_branch True q" "pending q [text_token (''{'' @ e @ ''}'') 1, ?E]"
    using elif_head_else [of p3 "e @ ''}''"] p3(2) by auto
  obtain p4 where p4: "parse_block_body (parse_node (Suc (Suc (Suc f)))) (Suc (Suc f)) [] (consume_brace q) =
      Some ([TextNode e 1], p4)" "pending p4 [?E]"
    using parse_block_body_close [OF _ e, of _ "[]"] consume_brace_text(2) [of q "e @ ''}''" 1 "[?E]"] q(2)
    by (fastforce simp: plain_word_def)
  have "parse_elifs (parse_node (Suc (Suc (Suc f)))) (Suc (Suc (Suc f))) [] [] False p3 =
      Some ([], [TextNode e 1], True, p4)"
    using q(1) p4 parse_elifs_end [OF p4(2)] by (simp add: parse_elifs_unfold)
  then have node: "parse_node (Suc (Suc (Suc (Suc f)))) ps =
      Some (Some (BlockNode ''if'' [] [c] [TextNode b 1] [] [TextNode e 1] True 1), p4)"
    using pending_Cons [OF ps] args consume_brace_text(1) [of p2] p2 p3(1)
    by (simp add: parse_directive_def parse_block_def is_block_directive_def flip: p1_def)
  have "parse ?ts = ProgramNode [BlockNode ''if'' [] [c] [TextNode b 1] [] [TextNode e 1] True 1]"
    unfolding parse_def f ps_def [symmetric]
    using node pending_Cons(2) [OF ps] pending_at_end [OF p4(2)] by (simp add: snoc_node_def del: parse_node.simps)
  then show ?thesis by (simp add: text_token_def make_token_def)
qed

text \<open>C12: A conditional template end to end: lexing, parsing and evaluating
  \<open>@if(c){b}else{e}\<close>, with plain words for the condition and both branches, prints exactly the
  branch the condition selects under the given variables.\<close>

theorem render_if_else:
  assumes "plain_word c" "plain_word b" "plain_word e"
  shows "evaluate_template (Suc (Suc (Suc fuel))) (''@if('' @ c @ ''){'' @ b @ ''}else{'' @ e @ ''}'') vars =
    Some (if eval_condition (initial_ctx vars) c then b else e)"
proof -
  let ?txt = "''('' @ c @ ''){'' @ b @ ''}else{'' @ e @ ''}''"
  have pw: "\<forall>x\<in>set w. x \<noteq> CHR ''@'' \<and> x \<noteq> CHR ''$'' \<and> x \<noteq> CHR 0x5C" if "plain_word w" for w
    using that by (simp add: plain_word_def)
  have "escaped_text ?txt"
    by (rule plain_escaped) (simp add: ball_Un pw [OF assms(1)] pw [OF assms(2)] pw [OF assms(3)])
  with tokenize_name_text [of "''if''" ?txt "CHR ''(''" "c @ ''){'' @ b @ ''}else{'' @ e @ ''}''"]
  obtain l where "tokenize (''@if'' @ ?txt) = [make_token Directive ''if'' 1, make_token Text ?txt 1, make_token Eof [] l]"
    by (auto simp: is_identifier_char_def ctype_defs)
  then have p: "parse_template (''@if'' @ ?txt) = ProgramNode [BlockNode ''if'' [] [c] [TextNode b 1] [] [TextNode e 1] True 1]"
    using parse_if [OF assms] by (simp add: parse_template_def)
  have u: "unescape b = b" "unescape e = e"
    using pw [OF assms(2)] pw [OF assms(3)] by (metis plain_unescape)+
  have h: "ev_blocks (initial_ctx vars) ''if'' = Some BH_if"
    by (simp add: initial_ctx_def register_defaults_def Let_def)
  have t: "eval_seq (eval_node (Suc fuel)) [TextNode w l] d = Some (visit_text w l d)" for w l d
    by (simp add: visit_text_def)
  have "eval_node (Suc (Suc fuel)) (BlockNode ''if'' [] [c] [TextNode b 1] [] [TextNode e 1] True 1) (initial_ctx vars) =
      Some (visit_text (if eval_condition (initial_ctx vars) c then b else e) 1 ((initial_ctx vars)\<lparr>ev_line := 1\<rparr>))"
    unfolding eval_if [OF h] if_branch_def by (simp add: t del: eval_node.simps eval_seq.simps)
  then have "eval_node (Suc (Suc (Suc fuel))) (ProgramNode
        [BlockNode ''if'' [] [c] [TextNode b 1] [] [TextNode e 1] True 1]) (initial_ctx vars) =
      Some (visit_text (if eval_condition (initial_ctx vars) c then b else e) 1 ((initial_ctx vars)\<lparr>ev_line := 1\<rparr>))"
    by (simp add: eval_node.simps(2) [of "Suc (Suc fuel)"] visit_text_def del: eval_node.simps)
  with p u show ?thesis by (simp add: evaluate_template_def visit_text_def emit_def del: eval_node.simps)
qed

lemma render_if_else_witness:
  "evaluate_template (Suc (Suc (Suc 0))) (''@if('' @ ''draft'' @ ''){'' @ ''a b'' @ ''}else{'' @ ''c'' @ ''}'')
     [''draft'' \<mapsto> ''0''] =
   Some (if eval_condition (initial_ctx [''draft'' \<mapsto> ''0'']) ''draft'' then ''a b'' else ''c'')"
  by (rule render_if_else) (simp_all add: plain_word_def ws_set_def)

end
