(* ===== verification/Nift_Scanner.thy ===== *)
theory Nift_Scanner
  imports Nift_Prelude "HOL-Library.Word"
begin

text \<open>
  The byte scanner of the build crate, \<open>crates/build/scanner/simd_scanner.cpp\<close>: a SIMD loop over
  full batches, a bit-scan loop over the 64-bit comparison mask of each batch, and a scalar tail.
  The xsimd library is a parameter: the batch size \<open>W\<close> (\<open>batch_t::size\<close>) and the function \<open>mk\<close>
  that turns the lanes of a comparison into a mask, with the law \<open>simd_mask\<close> it documents.  The
  lemmas show that the whole equals a plain filter of the positions, for every batch size.
\<close>

unbundle bit_operations_syntax

section \<open>Bit scanning\<close>

text \<open>\<open>__builtin_ctzll(bits)\<close>, for which the source also has the loop over \<open>(bits >> b) & 1\<close>.\<close>

definition ctz :: "64 word \<Rightarrow> nat" where
  "ctz bits = (case find_idx (\<lambda>b. bit bits b) [0..<64] of Some b \<Rightarrow> b | None \<Rightarrow> 64)"

text \<open>\<open>while (bits) { out.push_back(i + ctz(bits)); bits &= bits - 1; }\<close>\<close>

lemma and_pred_less:
  fixes bits :: "64 word"
  assumes "bits \<noteq> 0"
  shows "unat (bits AND (bits - 1)) < unat bits"
proof -
  have "bits AND (bits - 1) \<le> bits - 1" by (rule word_and_le1)
  then have "unat (bits AND (bits - 1)) \<le> unat (bits - 1)" by (simp add: word_le_nat_alt)
  also have "\<dots> < unat bits" using assms by (rule measure_unat)
  finally show ?thesis .
qed

function drain_bits :: "nat \<Rightarrow> 64 word \<Rightarrow> nat list" where
  "drain_bits i bits = (if bits = 0 then [] else (i + ctz bits) # drain_bits i (bits AND (bits - 1)))"
  by pat_completeness auto
termination
  by (relation "measure (\<lambda>(i, bits). unat bits)") (use and_pred_less in auto)

declare drain_bits.simps [simp del]

section \<open>Scanning a buffer\<close>

text \<open>\<open>v == target_batches[0] | ...\<close> on the batch loaded at \<open>data + i\<close>: one truth value per lane.\<close>

definition batch_lanes :: "nat \<Rightarrow> string \<Rightarrow> string \<Rightarrow> nat \<Rightarrow> bool list" where
  "batch_lanes W buf targets i = map (\<lambda>c. c \<in> set targets) (take W (drop i buf))"

text \<open>The main loop: the index where it stops, and the positions found.\<close>

function simd_loop :: "nat \<Rightarrow> (bool list \<Rightarrow> 64 word) \<Rightarrow> string \<Rightarrow> string \<Rightarrow> nat \<Rightarrow> nat list \<Rightarrow> nat \<times> nat list" where
  "simd_loop W mk buf targets i out =
     (if 0 < W \<and> i + W \<le> length buf
      then simd_loop W mk buf targets (i + W) (out @ drain_bits i (mk (batch_lanes W buf targets i)))
      else (i, out))"
  by pat_completeness auto
termination
  by (relation "measure (\<lambda>(W, mk, buf, targets, i, out). length buf - i)") auto

declare simd_loop.simps [simp del]

text \<open>The scalar tail, byte by byte from \<open>i\<close>.\<close>

definition scalar_tail :: "string \<Rightarrow> string \<Rightarrow> nat \<Rightarrow> nat list \<Rightarrow> nat list" where
  "scalar_tail buf targets i out =
     fold (\<lambda>p out. if list_ex (\<lambda>t. buf ! p = t) targets then out @ [p] else out) [i..<length buf] out"

definition kMaxScanTargets :: nat where "kMaxScanTargets = 8"

definition scan_simd :: "nat \<Rightarrow> (bool list \<Rightarrow> 64 word) \<Rightarrow> string \<Rightarrow> string \<Rightarrow> nat list" where
  "scan_simd W mk buf targets =
     (if buf = [] \<or> targets = [] then []
      else let actual = take kMaxScanTargets targets;
               (i, out) = simd_loop W mk buf actual 0 []
           in scalar_tail buf actual i out)"

record scan_targets =
  find_at :: bool
  find_dollar :: bool
  find_backslash :: bool

definition target_bytes :: "scan_targets \<Rightarrow> string" where
  "target_bytes targets =
     (if find_at targets then ''@'' else []) @ (if find_dollar targets then ''$'' else []) @
     (if find_backslash targets then [CHR 0x5C] else [])"

definition scan_positions :: "nat \<Rightarrow> (bool list \<Rightarrow> 64 word) \<Rightarrow> string \<Rightarrow> scan_targets \<Rightarrow> nat list" where
  "scan_positions W mk buffer targets =
     (let tgt = target_bytes targets in if tgt = [] then [] else scan_simd W mk buffer tgt)"

definition scan_byte :: "nat \<Rightarrow> (bool list \<Rightarrow> 64 word) \<Rightarrow> string \<Rightarrow> char \<Rightarrow> nat list" where
  "scan_byte W mk buffer target = scan_simd W mk buffer [target]"

definition scan_first :: "nat \<Rightarrow> (bool list \<Rightarrow> 64 word) \<Rightarrow> string \<Rightarrow> scan_targets \<Rightarrow> nat option" where
  "scan_first W mk buffer targets =
     (case scan_positions W mk buffer targets of [] \<Rightarrow> None | p # ps \<Rightarrow> Some p)"

definition scan_contains_any :: "nat \<Rightarrow> (bool list \<Rightarrow> 64 word) \<Rightarrow> string \<Rightarrow> scan_targets \<Rightarrow> bool" where
  "scan_contains_any W mk buffer targets \<longleftrightarrow> scan_first W mk buffer targets \<noteq> None"

section \<open>The law of the mask, and its reference implementation\<close>

text \<open>xsimd: bit \<open>j\<close> of \<open>batch_bool::mask()\<close> is lane \<open>j\<close>; a batch of bytes has at most 64 lanes.\<close>

definition simd_mask :: "nat \<Rightarrow> (bool list \<Rightarrow> 64 word) \<Rightarrow> bool" where
  "simd_mask W mk \<longleftrightarrow> 0 < W \<and> W \<le> 64 \<and>
     (\<forall>bs j. length bs = W \<longrightarrow> (bit (mk bs) j \<longleftrightarrow> j < W \<and> bs ! j))"

definition lane_mask :: "bool list \<Rightarrow> 64 word" where
  "lane_mask bs = horner_sum of_bool 2 bs"

lemma simd_mask_lane_mask: "0 < W \<Longrightarrow> W \<le> 64 \<Longrightarrow> simd_mask W lane_mask"
  by (auto simp: simd_mask_def lane_mask_def bit_horner_sum_bit_word_iff)

section \<open>Clearing the lowest bit\<close>

lemma bit_clear_lowest_nat:
  "n \<noteq> (0::nat) \<Longrightarrow> bit (n AND (n - 1)) j \<longleftrightarrow> bit n j \<and> (\<exists>i<j. bit n i)"
proof (induction n arbitrary: j rule: less_induct)
  case (less n)
  show ?case
  proof (cases "odd n")
    case True
    then obtain m where n: "n = 2 * m + 1" by (auto elim!: oddE)
    then have "n AND (n - 1) = 2 * m" by (simp only: n, subst and_nat_rec) simp
    moreover have "bit n 0" using True by (simp add: bit_0)
    ultimately show ?thesis using n by (cases j) (auto simp: bit_0 bit_Suc)
  next
    case False
    then obtain m where n: "n = 2 * m" and m: "m \<noteq> 0" "m < n" using less.prems by (auto elim!: evenE)
    obtain k where k: "m = Suc k" using m(1) by (cases m) auto
    have "n AND (n - 1) = 2 * (m AND (m - 1))"
      by (simp only: n k, subst and_nat_rec) simp
    then have e: "(n AND (n - 1)) div 2 = m AND (m - 1)" "even (n AND (n - 1))" by simp_all
    show ?thesis
    proof (cases j)
      case 0
      with e n show ?thesis by (simp add: bit_0)
    next
      case (Suc k)
      have "(\<exists>i<Suc k. bit n i) \<longleftrightarrow> (\<exists>i<k. bit m i)"
        using n by (auto simp: bit_double_iff less_Suc_eq_0_disj)
      with less.IH [OF m(2,1), of k] e n Suc show ?thesis by (simp add: bit_Suc)
    qed
  qed
qed

lemma bit_clear_lowest:
  fixes w :: "64 word"
  assumes "w \<noteq> 0"
  shows "bit (w AND (w - 1)) j \<longleftrightarrow> bit w j \<and> (\<exists>i<j. bit w i)"
proof -
  have "bit (w AND (w - 1)) j \<longleftrightarrow> bit (unat (w AND (w - 1))) j" by (simp add: bit_unsigned_iff)
  also have "unat (w AND (w - 1)) = unat w AND (unat w - 1)"
    using assms by (simp add: unsigned_and_eq unat_minus_one)
  also have "bit \<dots> j \<longleftrightarrow> bit (unat w) j \<and> (\<exists>i<j. bit (unat w) i)"
    using assms by (intro bit_clear_lowest_nat) (simp add: unat_eq_zero)
  finally show ?thesis by (simp add: bit_unsigned_iff)
qed

lemma ctz_bit:
  assumes "w \<noteq> 0"
  shows "ctz w < 64" "bit w (ctz w)" "\<And>i. i < ctz w \<Longrightarrow> \<not> bit w i"
proof -
  obtain i where "bit w i" using assms by (metis bit_0_eq bit_word_eqI bot_apply bot_bool_def)
  moreover from this have "i < 64" using bit_imp_le_length [of w i] by simp
  ultimately have "\<exists>i<64. bit w i" by blast
  then obtain b where "find_idx (\<lambda>b. bit w b) [0..<64] = Some b"
    by (cases "find_idx (\<lambda>b. bit w b) [0..<64]") (auto simp: find_idx_None_iff)
  with find_idx_SomeD [OF this] show "ctz w < 64" "bit w (ctz w)" "\<And>i. i < ctz w \<Longrightarrow> \<not> bit w i"
    by (auto simp: ctz_def nth_upt)
qed

text \<open>Splitting a filter at its first hit.\<close>

lemma filter_upt_first:
  assumes "k < n" "P k" "\<And>i. i < k \<Longrightarrow> \<not> P i"
  shows "filter P [0..<n] = k # filter (\<lambda>j. P j \<and> (\<exists>i<j. P i)) [0..<n]"
proof -
  have s: "[0..<n] = [0..<k] @ k # [Suc k..<n]"
    using assms(1) upt_add_eq_append [of 0 k "n - k"] upt_conv_Cons [of k n] by simp
  have "filter P [Suc k..<n] = filter (\<lambda>j. P j \<and> (\<exists>i<j. P i)) [Suc k..<n]"
    using assms(2) by (intro filter_cong) (auto intro!: exI [of _ k])
  moreover have "filter (\<lambda>j. P j \<and> (\<exists>i<j. P i)) [0..<k] = []" "filter P [0..<k] = []"
    using assms(3) by (auto simp: filter_empty_conv)
  ultimately show ?thesis using assms(2,3) by (simp add: s)
qed

lemma drain_bits_filter: "drain_bits i w = map ((+) i) (filter (bit w) [0..<64])"
proof (induction "unat w" arbitrary: w rule: less_induct)
  case less
  show ?case
  proof (cases "w = 0")
    case True
    then show ?thesis by (subst drain_bits.simps) simp
  next
    case False
    note c = ctz_bit [OF False]
    have "bit (w AND (w - 1)) = (\<lambda>j. bit w j \<and> (\<exists>k<j. bit w k))"
      by (rule ext) (rule bit_clear_lowest [OF False])
    with less [OF and_pred_less [OF False]] filter_upt_first [of "ctz w" 64 "bit w", OF c] False show ?thesis
      by (simp add: drain_bits.simps [of i w])
  qed
qed

lemma filter_upt_bound:
  assumes "W \<le> (n::nat)"
  shows "filter (\<lambda>j. j < W \<and> P j) [0..<n] = filter P [0..<W]"
proof -
  have "[0..<n] = [0..<W] @ [W..<n]" using assms upt_add_eq_append [of 0 W "n - W"] by simp
  then show ?thesis by (auto simp: filter_empty_conv intro!: filter_cong)
qed

lemma drain_lanes:
  assumes mk: "simd_mask W mk" and W: "i + W \<le> length buf"
  shows "drain_bits i (mk (batch_lanes W buf targets i)) =
    filter (\<lambda>p. buf ! p \<in> set targets) [i..<i + W]"
proof -
  have len: "length (batch_lanes W buf targets i) = W" using W by (simp add: batch_lanes_def)
  have "filter (bit (mk (batch_lanes W buf targets i))) [0..<64] =
      filter (\<lambda>j. j < W \<and> buf ! (i + j) \<in> set targets) [0..<64]"
    using mk len W by (intro filter_cong) (auto simp: simd_mask_def batch_lanes_def)
  also have "\<dots> = filter (\<lambda>j. buf ! (i + j) \<in> set targets) [0..<W]"
    by (rule filter_upt_bound) (use mk in \<open>simp add: simd_mask_def\<close>)
  finally have "drain_bits i (mk (batch_lanes W buf targets i)) =
      map ((+) i) (filter (\<lambda>j. buf ! (i + j) \<in> set targets) [0..<W])"
    by (simp add: drain_bits_filter)
  also have "\<dots> = filter (\<lambda>p. buf ! p \<in> set targets) (map ((+) i) [0..<W])"
    by (simp add: filter_map comp_def)
  also have "map ((+) i) [0..<W] = [i..<i + W]"
    by (induction W) auto
  finally show ?thesis .
qed

lemma simd_loop_filter:
  assumes mk: "simd_mask W mk"
  shows "simd_loop W mk buf targets i out = (j, ps) \<Longrightarrow> i \<le> length buf \<Longrightarrow>
    i \<le> j \<and> j \<le> length buf \<and> ps = out @ filter (\<lambda>p. buf ! p \<in> set targets) [i..<j]"
proof (induction "length buf - i" arbitrary: i out rule: less_induct)
  case less
  have W: "0 < W" using mk by (simp add: simd_mask_def)
  show ?case
  proof (cases "i + W \<le> length buf")
    case True
    with less.prems W have r: "simd_loop W mk buf targets (i + W)
        (out @ filter (\<lambda>p. buf ! p \<in> set targets) [i..<i + W]) = (j, ps)"
      by (subst (asm) simd_loop.simps) (simp add: drain_lanes [OF mk])
    from True W have "length buf - (i + W) < length buf - i" by simp
    from less.hyps [OF this r] True have "i + W \<le> j" "j \<le> length buf"
      "ps = out @ filter (\<lambda>p. buf ! p \<in> set targets) ([i..<i + W] @ [i + W..<j])" by simp_all
    moreover from this have "[i..<i + W] @ [i + W..<j] = [i..<j]"
      by (metis le_add1 le_add_diff_inverse upt_add_eq_append)
    ultimately show ?thesis by simp
  next
    case False
    with less.prems show ?thesis by (subst (asm) simd_loop.simps) simp
  qed
qed

lemma scalar_tail_filter:
  "scalar_tail buf targets i out = out @ filter (\<lambda>p. buf ! p \<in> set targets) [i..<length buf]"
proof -
  have "fold (\<lambda>p out. if list_ex (\<lambda>t. buf ! p = t) targets then out @ [p] else out) ps out =
      out @ filter (\<lambda>p. buf ! p \<in> set targets) ps" for ps
    by (induction ps arbitrary: out) (auto simp: list_ex_iff)
  then show ?thesis by (simp add: scalar_tail_def)
qed

lemma scan_simd_filter:
  assumes mk: "simd_mask W mk"
  shows "scan_simd W mk buf targets =
    filter (\<lambda>p. buf ! p \<in> set (take kMaxScanTargets targets)) [0..<length buf]"
proof (cases "buf = [] \<or> targets = []")
  case False
  obtain j ps where l: "simd_loop W mk buf (take kMaxScanTargets targets) 0 [] = (j, ps)"
    by (cases "simd_loop W mk buf (take kMaxScanTargets targets) 0 []")
  from simd_loop_filter [OF mk l] have "j \<le> length buf"
    "ps = filter (\<lambda>p. buf ! p \<in> set (take kMaxScanTargets targets)) [0..<j]" by simp_all
  moreover from this have "[0..<length buf] = [0..<j] @ [j..<length buf]"
    by (metis le0 le_add_diff_inverse upt_add_eq_append)
  ultimately show ?thesis using False l by (simp add: scan_simd_def scalar_tail_filter Let_def)
qed (auto simp: scan_simd_def)

text \<open>C27: The SIMD scanner equals its scalar specification.  For every batch size from 1 to 64, and every mask function that has the
  bits of just the lanes that hold a target, \<open>scan_positions\<close> returns exactly the positions of the selected
  bytes, in ascending order and each once, whatever the length of the buffer.\<close>

theorem scan_positions_spec:
  assumes "simd_mask W mk"
  shows "scan_positions W mk buf targets =
    filter (\<lambda>p. buf ! p \<in> set (target_bytes targets)) [0..<length buf]"
proof -
  have "take kMaxScanTargets (target_bytes targets) = target_bytes targets"
    by (simp add: target_bytes_def kMaxScanTargets_def)
  with scan_simd_filter [OF assms, of buf "target_bytes targets"] show ?thesis
    by (simp add: scan_positions_def Let_def)
qed

lemma scan_positions_spec_witness:
  "scan_positions 16 lane_mask ''a@b'' \<lparr>find_at = True, find_dollar = False, find_backslash = True\<rparr> =
     filter (\<lambda>p. ''a@b'' ! p \<in> set (target_bytes \<lparr>find_at = True, find_dollar = False, find_backslash = True\<rparr>))
       [0..<length ''a@b'']"
  by (rule scan_positions_spec) (rule simd_mask_lane_mask; simp)

end
