(* ===== verification/Nift_Core.thy ===== *)
theory Nift_Core
  imports Nift_Prelude
begin

text \<open>
  The core crate: the error type of \<open>types.hpp\<close>, the string functions of \<open>str_fns.cpp\<close> and the
  quoted strings of \<open>quoted.cpp\<close>.  A \<open>string_view\<close> is the bytes it views.  The lemmas show that
  splitting and joining are inverse up to one trailing delimiter (and where they are not), and that
  \<open>escape_string\<close> is inverted by \<open>parse_quoted\<close> on every byte string.
\<close>

section \<open>Errors\<close>

datatype error =
    not_found | permission_denied | already_exists | invalid_argument | io_error | parse_error | unknown

fun error_to_string :: "error \<Rightarrow> string" where
  "error_to_string not_found = ''not found''"
| "error_to_string permission_denied = ''permission denied''"
| "error_to_string already_exists = ''already exists''"
| "error_to_string invalid_argument = ''invalid argument''"
| "error_to_string io_error = ''I/O error''"
| "error_to_string parse_error = ''parse error''"
| "error_to_string unknown = ''unknown error''"

text \<open>\<open>Expected<T, Error>\<close>: the error on the left.\<close>

type_synonym 'a result = "error + 'a"

lemma error_to_string_inj: "error_to_string e = error_to_string e' \<Longrightarrow> e = e'"
  by (cases e; cases e') simp_all

section \<open>String functions\<close>

definition trim_left :: "string \<Rightarrow> string" where
  "trim_left sv = dropWhile isspace sv"

definition trim_right :: "string \<Rightarrow> string" where
  "trim_right sv = rev (dropWhile isspace (rev sv))"

definition trim :: "string \<Rightarrow> string" where
  "trim sv = trim_right (trim_left sv)"

text \<open>\<open>sv.find(sub)\<close>: the first index at which \<open>sub\<close> stands.\<close>

fun find_sub :: "string \<Rightarrow> string \<Rightarrow> nat option" where
  "find_sub sub [] = (if sub = [] then Some 0 else None)"
| "find_sub sub (c # cs) =
     (if take (length sub) (c # cs) = sub then Some 0 else map_option Suc (find_sub sub cs))"

lemma find_sub_SomeD: "find_sub sub s = Some p \<Longrightarrow> p \<le> length s \<and> take (length sub) (drop p s) = sub"
  by (induction s arbitrary: p) (auto split: if_splits)

lemma find_sub_iff: "find_sub sub s \<noteq> None \<longleftrightarrow> (\<exists>a b. s = a @ sub @ b)"
proof
  assume "find_sub sub s \<noteq> None"
  then obtain p where "find_sub sub s = Some p" by blast
  then have "take (length sub) (drop p s) = sub" by (blast dest: find_sub_SomeD)
  then have "s = take p s @ sub @ drop (length sub) (drop p s)" by (metis append_take_drop_id)
  then show "\<exists>a b. s = a @ sub @ b" by blast
next
  have "find_sub sub (a @ sub @ b) \<noteq> None" for a b
  proof (induction a)
    case Nil
    have "sub @ b = x # xs \<Longrightarrow> take (length sub) (x # xs) = sub" for x xs by (metis append_eq_conv_conj)
    then show ?case by (cases "sub @ b") auto
  qed auto
  then show "\<exists>a b. s = a @ sub @ b \<Longrightarrow> find_sub sub s \<noteq> None" by blast
qed

text \<open>
  A text without its block comments, as a specification of the minifiers: up to the first opening mark, and on
  behind the first closing mark after it.  What follows an opening mark without a closing one is left to
  \<open>keep\<close>.  Marks inside string literals count like all others.
\<close>

lemma find_sub_length: "find_sub sub s = Some p \<Longrightarrow> p + length sub \<le> length s"
  using find_sub_SomeD [of sub s p] by (metis add.commute diff_is_0_eq' le_diff_conv2 length_drop length_take min.cobounded2 min_def nat_le_linear)

function uncomment :: "(string \<Rightarrow> string) \<Rightarrow> string \<Rightarrow> string" where
  "uncomment keep s =
     (case find_sub ''/*'' s of
        None \<Rightarrow> s
      | Some i \<Rightarrow> take i s @
          (case find_sub ''*/'' (drop (i + 2) s) of
             None \<Rightarrow> keep (drop (i + 2) s)
           | Some j \<Rightarrow> uncomment keep (drop (i + 2 + j + 2) s)))"
  by pat_completeness auto
termination
  by (relation "measure (\<lambda>(keep, s). length s)") (auto dest: find_sub_length)

declare uncomment.simps [simp del]

lemma uncomment_Nil [simp]: "uncomment keep [] = []"
  by (simp add: uncomment.simps)

lemma uncomment_other:
  "\<not> (c = CHR ''/'' \<and> cs \<noteq> [] \<and> hd cs = CHR ''*'') \<Longrightarrow> uncomment keep (c # cs) = c # uncomment keep cs"
proof -
  assume "\<not> (c = CHR ''/'' \<and> cs \<noteq> [] \<and> hd cs = CHR ''*'')"
  then have "find_sub ''/*'' (c # cs) = map_option Suc (find_sub ''/*'' cs)" by (cases cs) auto
  then show ?thesis by (subst (1 2) uncomment.simps) (simp split: option.split)
qed

lemma uncomment_open:
  "uncomment keep (CHR ''/'' # CHR ''*'' # cs) =
     (case find_sub ''*/'' cs of None \<Rightarrow> keep cs | Some j \<Rightarrow> uncomment keep (drop (j + 2) cs))"
  by (subst uncomment.simps) (simp split: option.split)

lemma uncomment_id: "find_sub ''/*'' s = None \<Longrightarrow> uncomment keep s = s"
  by (simp add: uncomment.simps)

function split_char :: "char \<Rightarrow> string \<Rightarrow> string list" where
  "split_char delim sv =
     (if sv = [] then []
      else case str_find delim 0 sv of
        None \<Rightarrow> [sv]
      | Some pos \<Rightarrow> take pos sv # split_char delim (drop (pos + 1) sv))"
  by pat_completeness auto
termination by (relation "measure (\<lambda>(d, sv). length sv)") auto

declare split_char.simps [simp del]

function split_str :: "string \<Rightarrow> string \<Rightarrow> string list" where
  "split_str delim sv =
     (if delim = [] then [sv]
      else if sv = [] then []
      else case find_sub delim sv of
        None \<Rightarrow> [sv]
      | Some pos \<Rightarrow> take pos sv # split_str delim (drop (pos + length delim) sv))"
  by pat_completeness auto
termination by (relation "measure (\<lambda>(d, sv). length sv)") auto

declare split_str.simps [simp del]

fun join :: "string list \<Rightarrow> string \<Rightarrow> string" where
  "join [] sep = []"
| "join [p] sep = p"
| "join (p # ps) sep = p @ sep @ join ps sep"

text \<open>The loop of \<open>replace_all\<close> on the rest of the string from \<open>pos\<close>.\<close>

function replace_loop :: "string \<Rightarrow> string \<Rightarrow> string \<Rightarrow> string" where
  "replace_loop frm to str =
     (if frm = [] \<or> str = [] then str
      else case find_sub frm str of
        None \<Rightarrow> str
      | Some found \<Rightarrow> take found str @ to @ replace_loop frm to (drop (found + length frm) str))"
  by pat_completeness auto
termination by (relation "measure (\<lambda>(f, t, str). length str)") auto

declare replace_loop.simps [simp del]

definition replace_all :: "string \<Rightarrow> string \<Rightarrow> string \<Rightarrow> string" where
  "replace_all str frm to = (if frm = [] then str else replace_loop frm to str)"

definition starts_with :: "string \<Rightarrow> string \<Rightarrow> bool" where
  "starts_with str prefix \<longleftrightarrow> length prefix \<le> length str \<and> take (length prefix) str = prefix"

definition ends_with :: "string \<Rightarrow> string \<Rightarrow> bool" where
  "ends_with str suffix \<longleftrightarrow> length suffix \<le> length str \<and> drop (length str - length suffix) str = suffix"

definition contains :: "string \<Rightarrow> string \<Rightarrow> bool" where
  "contains str sub \<longleftrightarrow> find_sub sub str \<noteq> None"

definition toupper :: "char \<Rightarrow> char" where
  "toupper c = (if islower c then char_of (byte c - 32) else c)"

definition to_lower :: "string \<Rightarrow> string" where
  "to_lower sv = map tolower sv"

definition to_upper :: "string \<Rightarrow> string" where
  "to_upper sv = map toupper sv"

section \<open>Quoted strings\<close>

text \<open>The bytes that \<open>parse_quoted\<close> appends for an escape.\<close>

definition unescape_char :: "char \<Rightarrow> string" where
  "unescape_char c =
     (if c = CHR 0x5C then [CHR 0x5C]
      else if c = CHR 0x22 then [CHR 0x22]
      else if c = CHR 0x27 then [CHR 0x27]
      else if c = CHR ''n'' then [CHR 0x0A]
      else if c = CHR ''t'' then [CHR 0x09]
      else if c = CHR ''r'' then [CHR 0x0D]
      else if c = CHR ''0'' then [NUL]
      else [CHR 0x5C, c])"

text \<open>The loop, from index \<open>i\<close> with the rest of the input as a list.\<close>

fun quoted_loop :: "char \<Rightarrow> string \<Rightarrow> nat \<Rightarrow> string \<Rightarrow> (string \<times> nat) option" where
  "quoted_loop quote [] i content = None"
| "quoted_loop quote [c] i content =
     (if c = quote then Some (content, i + 1) else None)"
| "quoted_loop quote (c # d # cs) i content =
     (if c = quote then Some (content, i + 1)
      else if c = CHR 0x5C then quoted_loop quote cs (i + 2) (content @ unescape_char d)
      else quoted_loop quote (d # cs) (i + 1) (content @ [c]))"

fun parse_quoted :: "string \<Rightarrow> (string \<times> nat) option" where
  "parse_quoted [] = None"
| "parse_quoted (quote # cs) =
     (if quote \<noteq> CHR 0x22 \<and> quote \<noteq> CHR 0x27 then None else quoted_loop quote cs 1 [])"

definition escape_char :: "char \<Rightarrow> string" where
  "escape_char c =
     (if c = CHR 0x5C then [CHR 0x5C, CHR 0x5C]
      else if c = CHR 0x22 then [CHR 0x5C, CHR 0x22]
      else if c = CHR 0x0A then [CHR 0x5C, CHR ''n'']
      else if c = CHR 0x09 then [CHR 0x5C, CHR ''t'']
      else if c = CHR 0x0D then [CHR 0x5C, CHR ''r'']
      else if c = NUL then [CHR 0x5C, CHR ''0'']
      else [c])"

definition escape_string :: "string \<Rightarrow> string" where
  "escape_string sv = concat (map escape_char sv)"

definition unquote :: "string \<Rightarrow> string" where
  "unquote sv =
     (if 2 \<le> length sv \<and>
         (hd sv = CHR 0x22 \<and> last sv = CHR 0x22 \<or> hd sv = CHR 0x27 \<and> last sv = CHR 0x27)
      then substr 1 (length sv - 2) sv else sv)"

section \<open>Splitting and joining\<close>

lemma split_char_field:
  assumes "delim \<notin> set p"
  shows "split_char delim (p @ delim # rest) = p # split_char delim rest"
proof -
  have "find_idx (\<lambda>x. x = delim) (p @ delim # rest) = Some (length p)"
    using assms by (intro find_idx_prefix) auto
  then show ?thesis by (subst split_char.simps) (simp add: str_find_def)
qed

lemma split_char_last:
  assumes "delim \<notin> set p" "p \<noteq> []"
  shows "split_char delim p = [p]"
proof -
  have "find_idx (\<lambda>x. x = delim) p = None" using assms(1) by (auto simp: find_idx_None_iff)
  with assms(2) show ?thesis by (subst split_char.simps) (simp add: str_find_def)
qed

lemma split_char_join:
  "\<forall>p\<in>set ps. delim \<notin> set p \<Longrightarrow> ps \<noteq> [] \<Longrightarrow> last ps \<noteq> [] \<Longrightarrow> split_char delim (join ps [delim]) = ps"
proof (induction ps "[delim]" rule: join.induct)
  case (2 p)
  then show ?case by (simp add: split_char_last)
next
  case (3 p q ps)
  then show ?case by (simp add: split_char_field)
qed simp

lemma split_char_Nil_iff: "split_char delim s = [] \<longleftrightarrow> s = []"
  by (subst split_char.simps) (auto split: option.split)

lemma join_Cons: "ps \<noteq> [] \<Longrightarrow> join (p # ps) sep = p @ sep @ join ps sep"
  by (cases ps) simp_all

lemma join_split_char:
  "join (split_char delim s) [delim] = (if s \<noteq> [] \<and> last s = delim then butlast s else s)"
proof (induction delim s rule: split_char.induct)
  case (1 delim sv)
  show ?case
  proof (cases "str_find delim 0 sv")
    case None
    then have "delim \<notin> set sv" by (auto simp: str_find_def find_idx_None_iff)
    then show ?thesis using split_char_last [of delim sv]
      by (cases "sv = []") (auto simp: split_char.simps [of delim "[]"])
  next
    case (Some pos)
    note f = str_find_SomeD [OF Some]
    have sv: "sv = take pos sv @ delim # drop (Suc pos) sv" using f by (metis id_take_nth_drop)
    have s: "split_char delim sv = take pos sv # split_char delim (drop (Suc pos) sv)"
      using Some f by (subst split_char.simps) auto
    note IH = "1.IH" [OF _ Some]
    show ?thesis
    proof (cases "drop (Suc pos) sv = []")
      case True
      have "split_char delim [] = []" by (simp add: split_char.simps)
      moreover have "sv \<noteq> []" "last sv = delim" "butlast sv = take pos sv"
        using sv True by (metis append_is_Nil_conv list.distinct(1), metis last_snoc, metis butlast_snoc)
      ultimately show ?thesis using s True by simp
    next
      case False
      have "sv \<noteq> []" using f by auto
      with IH have j: "join (split_char delim (drop (Suc pos) sv)) [delim] =
          (if last (drop (Suc pos) sv) = delim then butlast (drop (Suc pos) sv) else drop (Suc pos) sv)"
        using False by simp
      have "split_char delim (drop (Suc pos) sv) \<noteq> []" using False by (simp add: split_char_Nil_iff)
      then have "join (split_char delim sv) [delim] = take pos sv @ delim # join (split_char delim (drop (Suc pos) sv)) [delim]"
        by (simp add: s join_Cons)
      moreover have "last sv = last (drop (Suc pos) sv)" using False by (simp add: last_drop)
      moreover have "butlast sv = take pos sv @ delim # butlast (drop (Suc pos) sv)"
        using False by (subst sv) (simp add: butlast_append)
      ultimately show ?thesis using j sv \<open>sv \<noteq> []\<close> by auto
    qed
  qed
qed

text \<open>\<open>split\<close> and \<open>join\<close>.  Joining the fields of a split with the same delimiter gives the
  string back, less one trailing delimiter; and splitting a join gives back the fields, provided no
  field holds the delimiter and the last field is not empty (an empty last field is lost).\<close>

lemma split_join:
  "join (split_char delim s) [delim] = (if s \<noteq> [] \<and> last s = delim then butlast s else s) \<and>
   ((\<forall>p\<in>set ps. delim \<notin> set p) \<longrightarrow> ps \<noteq> [] \<longrightarrow> last ps \<noteq> [] \<longrightarrow> split_char delim (join ps [delim]) = ps)"
  using join_split_char split_char_join by blast

lemma split_join_witness:
  "split_char (CHR '','') (join [''a'', '''', ''b''] '','') = [''a'', '''', ''b'']"
  using split_join [of "CHR '',''" "[]" "[''a'', '''', ''b'']"] by simp

section \<open>Quoting and unquoting\<close>

lemma quoted_loop_escaped:
  assumes "quote = CHR 0x22"
  shows "quoted_loop quote (escape_char c @ rest) i content =
    quoted_loop quote rest (i + length (escape_char c)) (content @ [c])"
  using assms
  by (cases rest) (auto simp: escape_char_def unescape_char_def NUL_def)

lemma quoted_loop_escape_string:
  "quoted_loop (CHR 0x22) (escape_string s @ CHR 0x22 # rest) i content =
     Some (content @ s, i + length (escape_string s) + 1)"
proof (induction s arbitrary: i content)
  case Nil
  then show ?case by (cases rest) (simp_all add: escape_string_def)
next
  case (Cons c s)
  have "escape_string (c # s) = escape_char c @ escape_string s" by (simp add: escape_string_def)
  with Cons show ?case by (simp add: quoted_loop_escaped)
qed

definition quote_string :: "string \<Rightarrow> string" where
  "quote_string s = CHR 0x22 # escape_string s @ [CHR 0x22]"

text \<open>
  Printers whose output can be found again at the front of any text: what a reader of a
  concatenation of printed values needs.
\<close>

locale prefix_codec =
  fixes print :: "'a \<Rightarrow> string" and parse :: "string \<Rightarrow> ('a \<times> nat) option"
  assumes parse_print: "parse (print x @ rest) = Some (x, length (print x))"
begin

text \<open>Values printed one after the other are read back one by one.\<close>

primrec parse_many :: "nat \<Rightarrow> string \<Rightarrow> ('a list \<times> string) option" where
  "parse_many 0 s = Some ([], s)"
| "parse_many (Suc n) s =
     (case parse s of
        None \<Rightarrow> None
      | Some (x, k) \<Rightarrow> map_option (\<lambda>(xs, r). (x # xs, r)) (parse_many n (drop k s)))"

lemma parse_many_print: "parse_many (length xs) (concat (map print xs) @ rest) = Some (xs, rest)"
  by (induction xs) (simp_all add: parse_print)

lemma print_inj: "print x @ r = print y @ r' \<Longrightarrow> x = y \<and> r = r'"
  using parse_print [of x r] parse_print [of y r'] by auto

lemma concat_print_inj: "length xs = length ys \<Longrightarrow> concat (map print xs) = concat (map print ys) \<Longrightarrow> xs = ys"
  using parse_many_print [of xs "[]"] parse_many_print [of ys "[]"] by simp

end

interpretation quoted: prefix_codec quote_string parse_quoted
  by unfold_locales (simp add: quote_string_def quoted_loop_escape_string)

text \<open>Quoting round trip.  Every byte string, NUL and quotes included, is recovered from its
  escaped and quoted form by \<open>parse_quoted\<close>, which consumes exactly the quoted form and leaves what
  follows it; so two strings with the same quoted form are equal.\<close>

lemma quote_roundtrip:
  "parse_quoted (CHR 0x22 # escape_string s @ CHR 0x22 # rest) = Some (s, length (escape_string s) + 2)"
  using quoted.parse_print [of s rest] by (simp add: quote_string_def)

end
