(* ===== verification/Nift_Filesystem.thy ===== *)
theory Nift_Filesystem
  imports Nift_Core
begin

text \<open>
  The file system as the program uses it: \<open>crates/core/fs/filesystem.cpp\<close>, \<open>path.cpp\<close> and
  \<open>crates/build/mmap/mmap_reader.cpp\<close>.  Paths are POSIX path strings, not resolved further (no
  symbolic links, no \<open>.\<close> and \<open>..\<close>).  The state \<open>fs\<close> maps the paths that exist to a file with its
  bytes or a directory, and holds two oracles for the ways the operating system refuses to open a
  path.  Operations that change the disk return the new state beside their \<open>Status\<close>.
\<close>

section \<open>Paths\<close>

text \<open>\<open>path::filename\<close>, \<open>path::parent_path\<close>, \<open>stem\<close> and \<open>extension\<close>.\<close>

definition path_filename :: "string \<Rightarrow> string" where
  "path_filename p = rev (takeWhile (\<lambda>c. c \<noteq> CHR ''/'') (rev p))"

definition path_parent :: "string \<Rightarrow> string" where
  "path_parent p =
     (let dir = dropWhile (\<lambda>c. c \<noteq> CHR ''/'') (rev p);
          parent = rev (dropWhile (\<lambda>c. c = CHR ''/'') dir)
      in if dir = [] then [] else if parent = [] then ''/'' else parent)"

text \<open>The extension starts at the last dot of the filename, unless that is its first byte or the
  filename is \<open>..\<close>.\<close>

definition path_extension :: "string \<Rightarrow> string" where
  "path_extension p =
     (let f = path_filename p; e = takeWhile (\<lambda>c. c \<noteq> CHR ''.'') (rev f)
      in if f = ''..'' \<or> length e = length f \<or> length e + 1 = length f then [] else CHR ''.'' # rev e)"

definition path_stem :: "string \<Rightarrow> string" where
  "path_stem p = take (length (path_filename p) - length (path_extension p)) (path_filename p)"

definition path_is_absolute :: "string \<Rightarrow> bool" where
  "path_is_absolute p \<longleftrightarrow> p \<noteq> [] \<and> hd p = CHR ''/''"

text \<open>\<open>path / component\<close>: an absolute component replaces the path.\<close>

definition path_join :: "string \<Rightarrow> string \<Rightarrow> string" where
  "path_join p component =
     (if path_is_absolute component then component
      else if p = [] \<or> last p = CHR ''/'' then p @ component
      else p @ ''/'' @ component)"

text \<open>\<open>replace_extension\<close>: drop the old extension; a dot is added unless the new one has it.\<close>

definition path_with_extension :: "string \<Rightarrow> string \<Rightarrow> string" where
  "path_with_extension p ext =
     take (length p - length (path_extension p)) p @
     (if ext = [] then [] else if hd ext = CHR ''.'' then ext else CHR ''.'' # ext)"

text \<open>The directories on the way to \<open>p\<close>, \<open>p\<close> included, from the root down.\<close>

definition dirs_of :: "string \<Rightarrow> string list" where
  "dirs_of p = map (\<lambda>i. take i p)
     (filter (\<lambda>i. (i = length p \<or> p ! i = CHR ''/'') \<and> p ! (i - 1) \<noteq> CHR ''/'') [1..<Suc (length p)])"

section \<open>The disk\<close>

datatype fs_entry = File string | Dir

record fs =
  fs_tree :: "string \<rightharpoonup> fs_entry"
  fs_deny_read :: "string \<Rightarrow> bool"
  fs_deny_write :: "string \<Rightarrow> bool"

definition file_exists :: "string \<Rightarrow> fs \<Rightarrow> bool" where
  "file_exists p d \<longleftrightarrow> fs_tree d p \<noteq> None"

definition is_directory :: "string \<Rightarrow> fs \<Rightarrow> bool" where
  "is_directory p d \<longleftrightarrow> fs_tree d p = Some Dir"

definition read_file :: "string \<Rightarrow> fs \<Rightarrow> string result" where
  "read_file p d =
     (case fs_tree d p of
        None \<Rightarrow> Inl not_found
      | Some Dir \<Rightarrow> Inl io_error
      | Some (File content) \<Rightarrow> if fs_deny_read d p then Inl io_error else Inr content)"

text \<open>\<open>std::filesystem::create_directories\<close>: stops at the first ancestor it cannot make.\<close>

fun make_dirs :: "string list \<Rightarrow> fs \<Rightarrow> bool \<times> fs" where
  "make_dirs [] d = (True, d)"
| "make_dirs (p # ps) d =
     (case fs_tree d p of
        Some Dir \<Rightarrow> make_dirs ps d
      | Some (File c) \<Rightarrow> (False, d)
      | None \<Rightarrow>
          if fs_deny_write d p then (False, d)
          else make_dirs ps (d\<lparr>fs_tree := (fs_tree d)(p \<mapsto> Dir)\<rparr>))"

definition create_directories :: "string \<Rightarrow> fs \<Rightarrow> unit result \<times> fs" where
  "create_directories p d =
     (let (made, d) = make_dirs (dirs_of p) d in (if made \<and> p \<noteq> [] then Inr () else Inl io_error, d))"

text \<open>
  A file that could be opened for writing takes the whole content.  The source also returns \<open>io_error\<close> when
  \<open>write\<close> sets an error, with a part of the content written, but most errors of the device are not seen there: the
  last part of a content is written by the destructor of the stream, after the test.  Such errors are left out
  here, so what is proved of writing holds for disks that do not fill up or fail in the middle of a write.
\<close>

definition write_file :: "string \<Rightarrow> string \<Rightarrow> fs \<Rightarrow> unit result \<times> fs" where
  "write_file p content d =
     (let parent = path_parent p;
          (made, d) = (if parent \<noteq> [] then create_directories parent d else (Inr (), d))
      in case made of
           Inl e \<Rightarrow> (Inl io_error, d)
         | Inr _ \<Rightarrow>
             if fs_tree d p = Some Dir \<or> fs_deny_write d p then (Inl io_error, d)
             else (Inr (), d\<lparr>fs_tree := (fs_tree d)(p \<mapsto> File content)\<rparr>))"

text \<open>\<open>std::filesystem::rename\<close> of a file; \<open>False\<close> is an error code.\<close>

definition rename_file :: "string \<Rightarrow> string \<Rightarrow> fs \<Rightarrow> bool \<times> fs" where
  "rename_file a b d =
     (if fs_tree d a = None \<or> fs_tree d b = Some Dir \<or> fs_deny_write d b then (False, d)
      else (True, d\<lparr>fs_tree := (fs_tree d)(a := None, b := fs_tree d a)\<rparr>))"

text \<open>\<open>remove\<close>: removing what does not exist is no error; a directory must be empty.\<close>

definition below :: "string \<Rightarrow> string \<Rightarrow> bool" where
  "below p q \<longleftrightarrow> take (Suc (length p)) q = p @ ''/''"

definition remove_path :: "string list \<Rightarrow> string \<Rightarrow> fs \<Rightarrow> unit result \<times> fs" where
  "remove_path paths p d =
     (if fs_tree d p = None then (Inr (), d)
      else if fs_deny_write d p \<or> fs_tree d p = Some Dir \<and> list_ex (\<lambda>q. below p q \<and> file_exists q d) paths
      then (Inl io_error, d)
      else (Inr (), d\<lparr>fs_tree := (fs_tree d)(p := None)\<rparr>))"

definition copy_file :: "string \<Rightarrow> string \<Rightarrow> fs \<Rightarrow> unit result \<times> fs" where
  "copy_file frm to d =
     (let parent = path_parent to;
          (made, d) = (if parent \<noteq> [] then create_directories parent d else (Inr (), d))
      in case made of
           Inl e \<Rightarrow> (Inl io_error, d)
         | Inr _ \<Rightarrow>
             (case fs_tree d frm of
                Some (File content) \<Rightarrow>
                  if fs_deny_read d frm \<or> fs_tree d to = Some Dir \<or> fs_deny_write d to \<or> frm = to
                  then (Inl io_error, d)
                  else (Inr (), d\<lparr>fs_tree := (fs_tree d)(to \<mapsto> File content)\<rparr>)
              | _ \<Rightarrow> (Inl io_error, d)))"

definition file_size :: "string \<Rightarrow> fs \<Rightarrow> nat result" where
  "file_size p d = (case fs_tree d p of Some (File content) \<Rightarrow> Inr (length content) | _ \<Rightarrow> Inl not_found)"

section \<open>The memory-mapped reader\<close>

text \<open>
  \<open>mmap_ok\<close> says whether the operating system maps the file; what is read is the same either way.
  The record is the reader: its bytes and whether they are mapped.
\<close>

record mmap_reader =
  mr_data :: string
  mr_mapped :: bool

definition mmap_open :: "(string \<Rightarrow> bool) \<Rightarrow> string \<Rightarrow> fs \<Rightarrow> mmap_reader result" where
  "mmap_open mmap_ok p d =
     (if \<not> file_exists p d then Inl not_found
      else case fs_tree d p of
        Some (File content) \<Rightarrow>
          if mmap_ok p \<and> \<not> fs_deny_read d p \<and> content \<noteq> [] then Inr \<lparr>mr_data = content, mr_mapped = True\<rparr>
          else (case read_file p d of
                  Inl e \<Rightarrow> Inl e
                | Inr content \<Rightarrow> Inr \<lparr>mr_data = content, mr_mapped = False\<rparr>)
      | _ \<Rightarrow> (case read_file p d of
                Inl e \<Rightarrow> Inl e
              | Inr content \<Rightarrow> Inr \<lparr>mr_data = content, mr_mapped = False\<rparr>))"

definition mmap_size :: "mmap_reader \<Rightarrow> nat" where
  "mmap_size r = length (mr_data r)"

section \<open>Lemmas\<close>

lemma dirs_of_length: "q \<in> set (dirs_of p) \<Longrightarrow> length q \<le> length p"
  by (auto simp: dirs_of_def)

lemma path_filename_in: "CHR ''/'' \<notin> set f \<Longrightarrow> path_filename (dir @ CHR ''/'' # f) = f"
  by (simp add: path_filename_def takeWhile_append)

lemma path_parent_in:
  assumes "CHR ''/'' \<notin> set f"
  shows "length (path_parent (dir @ CHR ''/'' # f)) \<le> Suc (length dir)" "path_parent (dir @ CHR ''/'' # f) \<noteq> []"
proof -
  have d: "dropWhile (\<lambda>c. c \<noteq> CHR ''/'') (rev (dir @ CHR ''/'' # f)) = CHR ''/'' # rev dir"
    using assms by (simp add: dropWhile_append)
  have "length (dropWhile (\<lambda>c. c = CHR ''/'') (rev dir)) \<le> length dir"
    using length_dropWhile_le [of "\<lambda>c. c = CHR ''/''" "rev dir"] by simp
  with d show "length (path_parent (dir @ CHR ''/'' # f)) \<le> Suc (length dir)"
    "path_parent (dir @ CHR ''/'' # f) \<noteq> []"
    by (simp_all add: path_parent_def Let_def)
qed

lemma make_dirs_frame:
  "make_dirs ps d = (made, d') \<Longrightarrow>
   (\<forall>q. q \<notin> set ps \<or> fs_tree d q \<noteq> None \<longrightarrow> fs_tree d' q = fs_tree d q) \<and>
   (\<forall>q. fs_tree d q = None \<longrightarrow> fs_tree d' q = None \<or> fs_tree d' q = Some Dir) \<and>
   fs_deny_read d' = fs_deny_read d \<and> fs_deny_write d' = fs_deny_write d"
proof (induction ps arbitrary: d)
  case (Cons p ps)
  show ?case
  proof (cases "fs_tree d p")
    case None
    with Cons.prems Cons.IH [of "d\<lparr>fs_tree := (fs_tree d)(p \<mapsto> Dir)\<rparr>"] show ?thesis
      by (auto split: if_splits)
  next
    case (Some e)
    with Cons show ?thesis by (cases e) auto
  qed
qed auto

lemma create_directories_frame:
  assumes "create_directories p d = (r, d')"
  shows "fs_tree d q \<noteq> None \<or> length p < length q \<Longrightarrow> fs_tree d' q = fs_tree d q"
    and "fs_tree d q = None \<Longrightarrow> fs_tree d' q = None \<or> fs_tree d' q = Some Dir"
    and "fs_deny_read d' = fs_deny_read d" "fs_deny_write d' = fs_deny_write d"
proof -
  obtain made where m: "make_dirs (dirs_of p) d = (made, d')"
    using assms by (auto simp: create_directories_def split: prod.splits)
  note f = make_dirs_frame [OF m]
  show "fs_tree d' q = fs_tree d q" if "fs_tree d q \<noteq> None \<or> length p < length q"
    using f that dirs_of_length [of q p] by (meson not_le)
  show "fs_tree d q = None \<Longrightarrow> fs_tree d' q = None \<or> fs_tree d' q = Some Dir"
    "fs_deny_read d' = fs_deny_read d" "fs_deny_write d' = fs_deny_write d"
    using f by blast+
qed

lemma path_stem_slash: "CHR ''/'' \<notin> set (path_stem p)"
  by (auto simp: path_stem_def path_filename_def dest!: in_set_takeD set_takeWhileD)

text \<open>A successful \<open>make_dirs\<close> leaves every directory of its list.\<close>

lemma make_dirs_made: "make_dirs ps d = (True, d') \<Longrightarrow> q \<in> set ps \<Longrightarrow> fs_tree d' q = Some Dir"
proof (induction ps arbitrary: d)
  case (Cons p ps)
  obtain d1 where d1: "fs_tree d1 p = Some Dir" "make_dirs ps d1 = (True, d')"
    using Cons.prems(1) that [of d] that [of "d\<lparr>fs_tree := (fs_tree d)(p \<mapsto> Dir)\<rparr>"] by (auto split: option.splits fs_entry.splits if_splits)
  have "fs_tree d' p = fs_tree d1 p" using make_dirs_frame [OF d1(2)] d1(1) by auto
  with Cons.IH [OF d1(2)] Cons.prems(2) d1(1) show ?case by auto
qed simp

lemma dirs_of_self: "p \<noteq> [] \<Longrightarrow> last p \<noteq> CHR ''/'' \<Longrightarrow> p \<in> set (dirs_of p)"
  by (auto simp: dirs_of_def last_conv_nth Suc_le_eq intro!: image_eqI [of _ _ "length p"])

lemma create_directories_made:
  "create_directories p d = (Inr u, d') \<Longrightarrow> last p \<noteq> CHR ''/'' \<Longrightarrow> p \<noteq> [] \<and> fs_tree d' p = Some Dir"
  by (auto simp: create_directories_def dirs_of_self split: prod.splits if_splits intro: make_dirs_made)

text \<open>What \<open>write_file\<close> can change: its own path, and missing directories above it.\<close>

lemma write_file_cases:
  assumes "write_file p content d = (r, d')"
  obtains d1 where "\<And>q. fs_tree d q \<noteq> None \<or> length (path_parent p) < length q \<Longrightarrow> fs_tree d1 q = fs_tree d q"
    "\<And>q. fs_tree d q = None \<Longrightarrow> fs_tree d1 q = None \<or> fs_tree d1 q = Some Dir"
    "fs_deny_read d1 = fs_deny_read d" "fs_deny_write d1 = fs_deny_write d"
    "r = Inr () \<Longrightarrow> d' = d1\<lparr>fs_tree := (fs_tree d1)(p \<mapsto> File content)\<rparr>"
    "r \<noteq> Inr () \<Longrightarrow> d' = d1 \<and> r = Inl io_error"
proof (cases "path_parent p = []")
  case True
  with assms show ?thesis
    by (intro that [of d]) (auto simp: write_file_def split: if_splits)
next
  case False
  obtain m d1 where c: "create_directories (path_parent p) d = (m, d1)"
    by (cases "create_directories (path_parent p) d")
  note f = create_directories_frame [OF c]
  have "(r = Inr () \<longrightarrow> d' = d1\<lparr>fs_tree := (fs_tree d1)(p \<mapsto> File content)\<rparr>) \<and>
      (r \<noteq> Inr () \<longrightarrow> d' = d1 \<and> r = Inl io_error)"
    using assms c False by (auto simp: write_file_def split: sum.splits if_splits)
  with f show ?thesis by (intro that [of d1]) blast+
qed

text \<open>Writing and reading files.  After a successful \<open>write_file\<close> the file reads back exactly the
  bytes written; every other path that existed keeps its entry; a failed write returns \<open>io_error\<close>
  and changes no path that existed.  Paths that did not exist are created only as directories.\<close>

lemma write_read:
  assumes "write_file p content d = (r, d')"
  shows "(r = Inr () \<longrightarrow> fs_deny_read d p \<or> read_file p d' = Inr content) \<and>
    (r \<noteq> Inr () \<longrightarrow> r = Inl io_error) \<and>
    (\<forall>q. fs_tree d q \<noteq> None \<longrightarrow> q \<noteq> p \<or> r \<noteq> Inr () \<longrightarrow> fs_tree d' q = fs_tree d q) \<and>
    (\<forall>q. fs_tree d q = None \<longrightarrow> q \<noteq> p \<or> r \<noteq> Inr () \<longrightarrow> fs_tree d' q = None \<or> fs_tree d' q = Some Dir)"
proof -
  obtain d1 where d1: "\<And>q. fs_tree d q \<noteq> None \<or> length (path_parent p) < length q \<Longrightarrow> fs_tree d1 q = fs_tree d q"
    "\<And>q. fs_tree d q = None \<Longrightarrow> fs_tree d1 q = None \<or> fs_tree d1 q = Some Dir"
    "fs_deny_read d1 = fs_deny_read d"
    "r = Inr () \<Longrightarrow> d' = d1\<lparr>fs_tree := (fs_tree d1)(p \<mapsto> File content)\<rparr>"
    "r \<noteq> Inr () \<Longrightarrow> d' = d1 \<and> r = Inl io_error"
    using write_file_cases [OF assms] by metis
  show ?thesis
  proof (cases "r = Inr ()")
    case True
    with d1(1-3) d1(4) [OF True] show ?thesis by (auto simp: read_file_def)
  next
    case False
    with d1(1-3) d1(5) [OF False] show ?thesis by auto
  qed
qed

end
