(* ===== verification/Nift_Double.thy ===== *)
theory Nift_Double
  imports Nift_Prelude
begin

text \<open>
  What the program uses of C's \<open>double\<close>: IEEE 754 binary64 with rounding to nearest even, \<open>strtod\<close> in
  the C locale, the arithmetic of the expression evaluator and \<open>fmod\<close>, comparison, and printing with
  \<open>operator<<\<close> (\<open>%g\<close> with six digits).  A finite number is its sign, significand and exponent; all
  of it is executable integer arithmetic.  The lemmas show that integers below \<open>2 ^ 53\<close> are read,
  added, multiplied and printed exactly.
\<close>

section \<open>Numbers and rounding\<close>

text \<open>\<open>Fin neg m e\<close> is \<open>m * 2 ^ e\<close> with its sign.\<close>

datatype dbl = Nan | Inf bool | Fin bool nat int

definition dbl_zero :: "bool \<Rightarrow> dbl" where
  "dbl_zero neg = Fin neg 0 0"

fun bitlen :: "nat \<Rightarrow> nat" where
  "bitlen n = (if n = 0 then 0 else Suc (bitlen (n div 2)))"

declare bitlen.simps [simp del]

text \<open>The largest \<open>l\<close> with \<open>2 ^ l \<le> n / d\<close>.\<close>

definition floor_log2 :: "nat \<Rightarrow> nat \<Rightarrow> int" where
  "floor_log2 n d = (if d \<le> n then int (bitlen (n div d)) - 1 else - int (bitlen ((d - 1) div n)))"

definition scale :: "nat \<Rightarrow> int \<Rightarrow> nat" where
  "scale n e = n * 2 ^ nat e"

text \<open>\<open>n / d\<close> to the nearest integer, ties to even.\<close>

definition round_even :: "nat \<Rightarrow> nat \<Rightarrow> nat" where
  "round_even n d =
     (let q = n div d; r = n mod d in if 2 * r > d \<or> (2 * r = d \<and> odd q) then Suc q else q)"

text \<open>The double nearest to the positive \<open>n / d\<close>, and whether it differs from it.\<close>

definition round_pos :: "bool \<Rightarrow> nat \<Rightarrow> nat \<Rightarrow> dbl" where
  "round_pos neg n d =
     (let e = max (-1074) (floor_log2 n d - 52);
          m = round_even (scale n (- e)) (scale d e);
          (m, e) = (if m = 2 ^ 53 then (2 ^ 52, e + 1) else (m, e))
      in if 971 < e then Inf neg else Fin neg m e)"

definition round_inexact :: "nat \<Rightarrow> nat \<Rightarrow> bool" where
  "round_inexact n d =
     (let e = max (-1074) (floor_log2 n d - 52) in scale n (- e) mod scale d e \<noteq> 0)"

text \<open>The exact \<open>t * 2 ^ e\<close>, rounded; \<open>neg0\<close> is the sign of a zero.\<close>

definition round_int :: "bool \<Rightarrow> int \<Rightarrow> int \<Rightarrow> dbl" where
  "round_int neg0 t e =
     (if t = 0 then dbl_zero neg0
      else round_pos (t < 0) (scale (nat \<bar>t\<bar>) e) (scale 1 (- e)))"

section \<open>Arithmetic\<close>

fun dbl_neg :: "dbl \<Rightarrow> dbl" where
  "dbl_neg Nan = Nan"
| "dbl_neg (Inf s) = Inf (\<not> s)"
| "dbl_neg (Fin s m e) = Fin (\<not> s) m e"

text \<open>The integer \<open>m * 2 ^ (e - e0)\<close> with its sign, for \<open>e0 \<le> e\<close>.\<close>

definition at_exp :: "int \<Rightarrow> bool \<Rightarrow> nat \<Rightarrow> int \<Rightarrow> int" where
  "at_exp e0 s m e = (if s then - 1 else 1) * int (scale m (e - e0))"

fun dbl_add :: "dbl \<Rightarrow> dbl \<Rightarrow> dbl" where
  "dbl_add (Fin s m e) (Fin s' m' e') =
     (let e0 = min e e' in round_int (s \<and> s') (at_exp e0 s m e + at_exp e0 s' m' e') e0)"
| "dbl_add (Inf s) (Inf s') = (if s = s' then Inf s else Nan)"
| "dbl_add Nan y = Nan"
| "dbl_add x Nan = Nan"
| "dbl_add (Inf s) y = Inf s"
| "dbl_add x (Inf s) = Inf s"

definition dbl_sub :: "dbl \<Rightarrow> dbl \<Rightarrow> dbl" where
  "dbl_sub x y = dbl_add x (dbl_neg y)"

fun dbl_mul :: "dbl \<Rightarrow> dbl \<Rightarrow> dbl" where
  "dbl_mul (Fin s m e) (Fin s' m' e') =
     (let t = int (m * m') in round_int (s \<noteq> s') (if s \<noteq> s' then - t else t) (e + e'))"
| "dbl_mul Nan y = Nan"
| "dbl_mul x Nan = Nan"
| "dbl_mul (Inf s) (Inf s') = Inf (s \<noteq> s')"
| "dbl_mul (Inf s) (Fin s' m e) = (if m = 0 then Nan else Inf (s \<noteq> s'))"
| "dbl_mul (Fin s m e) (Inf s') = (if m = 0 then Nan else Inf (s \<noteq> s'))"

fun dbl_div :: "dbl \<Rightarrow> dbl \<Rightarrow> dbl" where
  "dbl_div (Fin s m e) (Fin s' m' e') =
     (if m' = 0 then (if m = 0 then Nan else Inf (s \<noteq> s'))
      else if m = 0 then dbl_zero (s \<noteq> s')
      else round_pos (s \<noteq> s') (scale m (e - e')) (scale m' (e' - e)))"
| "dbl_div Nan y = Nan"
| "dbl_div x Nan = Nan"
| "dbl_div (Inf s) (Inf s') = Nan"
| "dbl_div (Inf s) (Fin s' m e) = Inf (s \<noteq> s')"
| "dbl_div (Fin s m e) (Inf s') = dbl_zero (s \<noteq> s')"

text \<open>\<open>std::fmod\<close> is exact, with the sign of the dividend.\<close>

fun dbl_fmod :: "dbl \<Rightarrow> dbl \<Rightarrow> dbl" where
  "dbl_fmod (Fin s m e) (Fin s' m' e') =
     (if m' = 0 then Nan
      else let e0 = min e e'; r = int (scale m (e - e0) mod scale m' (e' - e0))
        in round_int s (if s then - r else r) e0)"
| "dbl_fmod (Fin s m e) (Inf s') = Fin s m e"
| "dbl_fmod _ _ = Nan"

text \<open>\<open>a < b\<close> and \<open>a == b\<close>; both are false for \<open>Nan\<close>.\<close>

fun dbl_less :: "dbl \<Rightarrow> dbl \<Rightarrow> bool" where
  "dbl_less (Fin s m e) (Fin s' m' e') =
     (let e0 = min e e' in at_exp e0 s m e < at_exp e0 s' m' e')"
| "dbl_less Nan y = False"
| "dbl_less x Nan = False"
| "dbl_less (Inf s) (Inf s') = (s \<and> \<not> s')"
| "dbl_less (Inf s) (Fin s' m e) = s"
| "dbl_less (Fin s m e) (Inf s') = (\<not> s')"

fun dbl_eq :: "dbl \<Rightarrow> dbl \<Rightarrow> bool" where
  "dbl_eq (Fin s m e) (Fin s' m' e') =
     (let e0 = min e e' in at_exp e0 s m e = at_exp e0 s' m' e')"
| "dbl_eq (Inf s) (Inf s') = (s = s')"
| "dbl_eq _ _ = False"

text \<open>The value of a double that is an integer.\<close>

fun dbl_int :: "dbl \<Rightarrow> int option" where
  "dbl_int (Fin s m e) =
     (if scale 1 (- e) dvd m
      then Some ((if s then - 1 else 1) * int (scale m e div scale 1 (- e))) else None)"
| "dbl_int _ = None"

section \<open>Reading: \<open>strtod\<close>\<close>

definition digit_val :: "char \<Rightarrow> nat" where
  "digit_val c = (if isdigit c then byte c - 48 else if 97 \<le> byte c then byte c - 87 else byte c - 55)"

definition digits_val :: "nat \<Rightarrow> string \<Rightarrow> nat" where
  "digits_val base s = foldl (\<lambda>n c. n * base + digit_val c) 0 s"

text \<open>Digits with an optional point: the digits before and after it, and the rest.\<close>

definition take_digits :: "(char \<Rightarrow> bool) \<Rightarrow> string \<Rightarrow> string \<times> string \<times> string" where
  "take_digits P s =
     (let r = dropWhile P s in
      case r of
        c # r' \<Rightarrow> if c = CHR ''.'' then (takeWhile P s, takeWhile P r', dropWhile P r') else (takeWhile P s, [], r)
      | [] \<Rightarrow> (takeWhile P s, [], r))"

text \<open>An exponent behind one of the letters \<open>es\<close>, when it has a digit.\<close>

definition take_exponent :: "string \<Rightarrow> string \<Rightarrow> int \<times> string" where
  "take_exponent es s =
     (if s \<noteq> [] \<and> hd s \<in> set es then
        let (neg, r) = take_sign (tl s); ds = takeWhile isdigit r; v = int (digits_val 10 ds)
        in if ds = [] then (0, s) else (if neg then - v else v, dropWhile isdigit r)
      else (0, s))"

record strtod_result =
  sr_value :: dbl
  sr_rest :: string
  sr_range :: bool

text \<open>\<open>n * b ^ x\<close> for a sign, rounded; \<open>sr_range\<close> is \<open>errno == ERANGE\<close>: an overflow, or an inexact result
  below the smallest normal number.\<close>

fun is_subnormal :: "dbl \<Rightarrow> bool" where
  "is_subnormal (Fin s m e) \<longleftrightarrow> m < 2 ^ 52"
| "is_subnormal d \<longleftrightarrow> False"

definition read_scaled :: "bool \<Rightarrow> nat \<Rightarrow> nat \<Rightarrow> nat \<Rightarrow> string \<Rightarrow> strtod_result" where
  "read_scaled neg n num den rest =
     (if n = 0 then \<lparr>sr_value = dbl_zero neg, sr_rest = rest, sr_range = False\<rparr>
      else let d = round_pos neg (n * num) den
        in \<lparr>sr_value = d, sr_rest = rest,
            sr_range = (d = Inf neg \<or> is_subnormal d \<and> round_inexact (n * num) den)\<rparr>)"

definition read_decimal :: "bool \<Rightarrow> string \<Rightarrow> strtod_result option" where
  "read_decimal neg s =
     (case take_digits isdigit s of
        (ip, fp, r) \<Rightarrow>
          if ip @ fp = [] then None
          else let (x, r) = take_exponent ''eE'' r; x = x - int (length fp)
            in Some (read_scaled neg (digits_val 10 (ip @ fp)) (10 ^ nat x) (10 ^ nat (- x)) r))"

definition read_hex :: "bool \<Rightarrow> string \<Rightarrow> strtod_result option" where
  "read_hex neg s =
     (case take_digits isxdigit s of
        (ip, fp, r) \<Rightarrow>
          if ip @ fp = [] then None
          else let (x, r) = take_exponent ''pP'' r; x = x - 4 * int (length fp)
            in Some (read_scaled neg (digits_val 16 (ip @ fp)) (2 ^ nat x) (2 ^ nat (- x)) r))"

definition same_word :: "string \<Rightarrow> string \<Rightarrow> bool" where
  "same_word w s \<longleftrightarrow> map tolower (take (length w) s) = w"

text \<open>\<open>inf\<close>, \<open>infinity\<close>, \<open>nan\<close> and \<open>nan(chars)\<close>, in any case.\<close>

definition read_word :: "bool \<Rightarrow> string \<Rightarrow> strtod_result option" where
  "read_word neg s =
     (if same_word ''infinity'' s then Some \<lparr>sr_value = Inf neg, sr_rest = drop 8 s, sr_range = False\<rparr>
      else if same_word ''inf'' s then Some \<lparr>sr_value = Inf neg, sr_rest = drop 3 s, sr_range = False\<rparr>
      else if same_word ''nan'' s then
        let r = drop 3 s; t = dropWhile (\<lambda>c. isalnum c \<or> c = CHR ''_'') (tl r)
        in Some \<lparr>sr_value = Nan,
          sr_rest = (if r \<noteq> [] \<and> hd r = CHR ''('' \<and> t \<noteq> [] \<and> hd t = CHR '')'' then tl t else r),
          sr_range = False\<rparr>
      else None)"

definition strtod :: "string \<Rightarrow> strtod_result" where
  "strtod s =
     (let (neg, r) = take_sign (dropWhile isspace s);
          hex = (if 2 \<le> length r \<and> hd r = CHR ''0'' \<and> tolower (r ! 1) = CHR ''x'' then read_hex neg (drop 2 r) else None);
          res = (case hex of Some x \<Rightarrow> Some x | None \<Rightarrow>
            (case read_decimal neg r of Some x \<Rightarrow> Some x | None \<Rightarrow> read_word neg r))
      in case res of
           Some x \<Rightarrow> x
         | None \<Rightarrow> \<lparr>sr_value = dbl_zero False, sr_rest = s, sr_range = False\<rparr>)"

section \<open>Printing: \<open>operator<<\<close>\<close>

text \<open>The largest \<open>x\<close> with \<open>10 ^ x \<le> n / d\<close>.\<close>

function log10_up :: "nat \<Rightarrow> nat \<Rightarrow> int" where
  "log10_up n d = (if 0 < d \<and> 10 * d \<le> n then 1 + log10_up n (10 * d) else 0)"
  by auto
termination by (relation "measure (\<lambda>(n, d). n - d)") auto

function log10_down :: "nat \<Rightarrow> nat \<Rightarrow> int" where
  "log10_down n d = (if 0 < n \<and> n < d then log10_down (10 * n) d - 1 else 0)"
  by auto
termination by (relation "measure (\<lambda>(n, d). d - n)") auto

declare log10_up.simps [simp del] log10_down.simps [simp del]

definition floor_log10 :: "nat \<Rightarrow> nat \<Rightarrow> int" where
  "floor_log10 n d = (if d \<le> n then log10_up n d else log10_down n d)"

definition strip_zeros :: "string \<Rightarrow> string" where
  "strip_zeros s = rev (dropWhile (\<lambda>c. c = CHR ''0'') (rev s))"

definition with_point :: "string \<Rightarrow> string \<Rightarrow> string" where
  "with_point ip fp = (if strip_zeros fp = [] then ip else ip @ ''.'' @ strip_zeros fp)"

text \<open>The positive \<open>n / d\<close> with six significant digits.\<close>

definition print_pos :: "nat \<Rightarrow> nat \<Rightarrow> string" where
  "print_pos n d =
     (let x = floor_log10 n d;
          q = round_even (n * 10 ^ nat (5 - x)) (d * 10 ^ nat (x - 5));
          (q, x) = (if q = 10 ^ 6 then (10 ^ 5, x + 1) else (q, x));
          ds = show_nat q
      in if - 4 \<le> x \<and> x < 6 then
           (if 0 \<le> x then with_point (take (nat x + 1) ds) (drop (nat x + 1) ds)
            else with_point ''0'' (replicate (nat (- x - 1)) (CHR ''0'') @ ds))
         else
           with_point (take 1 ds) (drop 1 ds) @ ''e'' @ (if x < 0 then ''-'' else ''+'') @
           (if \<bar>x\<bar> < 10 then ''0'' else []) @ show_nat (nat \<bar>x\<bar>))"

fun dbl_print :: "dbl \<Rightarrow> string" where
  "dbl_print Nan = ''nan''"
| "dbl_print (Inf s) = (if s then ''-inf'' else ''inf'')"
| "dbl_print (Fin s m e) =
     (if s then ''-'' else []) @ (if m = 0 then ''0'' else print_pos (scale m e) (scale 1 (- e)))"

section \<open>Integers are exact\<close>

lemma bitlen_bounds: "0 < n \<Longrightarrow> 2 ^ (bitlen n - 1) \<le> n \<and> n < 2 ^ bitlen n \<and> 0 < bitlen n"
proof (induction n rule: bitlen.induct)
  case (1 n)
  show ?case
  proof (cases "n div 2 = 0")
    case True
    with 1(2) have "n = 1" by simp
    then show ?thesis by (simp add: bitlen.simps)
  next
    case False
    with 1 have IH: "2 ^ (bitlen (n div 2) - 1) \<le> n div 2" "n div 2 < 2 ^ bitlen (n div 2)" "0 < bitlen (n div 2)"
      by auto
    have b: "bitlen n = Suc (bitlen (n div 2))" using 1(2) by (simp add: bitlen.simps)
    obtain c where c: "bitlen (n div 2) = Suc c" using IH(3) by (cases "bitlen (n div 2)") simp_all
    have "2 * (n div 2) \<le> n" "n < 2 * (n div 2) + 2" by linarith+
    moreover have "2 ^ c \<le> n div 2" "n div 2 < 2 * 2 ^ c" using IH(1,2) c by simp_all
    ultimately have "2 * 2 ^ c \<le> n" "n < 4 * 2 ^ c" by linarith+
    with b c show ?thesis by simp
  qed
qed

lemma round_even_exact: "0 < d \<Longrightarrow> round_even (k * d) d = k"
  by (simp add: round_even_def Let_def)

lemma round_pos_exact:
  assumes "0 < k" "k < 2 ^ 53" "0 < d"
  shows "dbl_int (round_pos s (k * d) d) = Some (if s then - int k else int k)"
proof -
  let ?b = "bitlen k"
  note b = bitlen_bounds [OF assms(1)]
  have "(2::nat) ^ (?b - 1) < 2 ^ 53" using b assms(2) by linarith
  then have b53: "?b \<le> 53" using power_less_imp_less_exp [of "2::nat" "?b - 1" 53] by simp
  define c where "c = 53 - ?b"
  have e: "floor_log2 (k * d) d - 52 = - int c"
    using assms b b53 by (simp add: floor_log2_def c_def of_nat_diff)
  have "k * 2 ^ c < 2 ^ ?b * 2 ^ c" using b by simp
  also have "\<dots> = 2 ^ 53" using b53 by (simp add: c_def flip: power_add)
  finally have less: "k * 2 ^ c < 2 ^ 53" .
  have "c \<le> 53" by (simp add: c_def)
  then have "max (- 1074) (floor_log2 (k * d) d - 52) = - int c" by (simp add: e)
  moreover have "round_even (k * d * 2 ^ c) d = k * 2 ^ c"
    using round_even_exact [OF assms(3), of "k * 2 ^ c"] by (simp add: ac_simps)
  ultimately have "round_pos s (k * d) d = Fin s (k * 2 ^ c) (- int c)"
    using less by (simp add: round_pos_def scale_def Let_def)
  then show ?thesis by (simp add: scale_def)
qed

lemma round_int_exact:
  assumes "t * int (scale 1 e) = i * int (scale 1 (- e))" "\<bar>i\<bar> < 2 ^ 53"
  shows "dbl_int (round_int z t e) = Some i"
proof (cases "t = 0")
  case True
  with assms(1) have "i = 0" by (simp add: scale_def)
  with True show ?thesis by (simp add: round_int_def dbl_zero_def scale_def)
next
  case False
  have "\<bar>t\<bar> * int (scale 1 e) = \<bar>i\<bar> * int (scale 1 (- e))"
    using arg_cong [OF assms(1), of abs] by (simp add: abs_mult)
  then have n: "scale (nat \<bar>t\<bar>) e = nat \<bar>i\<bar> * scale 1 (- e)"
    unfolding scale_def by (subst of_nat_eq_iff [where 'a = int, symmetric]) (simp add: scale_def)
  have pos: "0 < int (scale 1 e)" "0 < int (scale 1 (- e))" by (simp_all add: scale_def)
  have "i \<noteq> 0" using False assms(1) pos by auto
  moreover have "t < 0 \<longleftrightarrow> i < 0" using assms(1) pos by (metis mult_less_0_iff not_less_iff_gr_or_eq)
  moreover have "nat \<bar>i\<bar> < 2 ^ 53" using assms(2) by simp
  ultimately show ?thesis
    using round_pos_exact [of "nat \<bar>i\<bar>" "scale 1 (- e)" "t < 0"] False pos n
    by (simp add: round_int_def)
qed

lemma dbl_int_iff:
  "dbl_int (Fin s m e) = Some i \<longleftrightarrow>
     2 ^ nat (- e) dvd m \<and> i * 2 ^ nat (- e) = (if s then - 1 else 1) * int m * 2 ^ nat e"
proof -
  have "i = (if s then - 1 else 1) * int (m * 2 ^ nat e div 2 ^ nat (- e)) \<longleftrightarrow>
      i * 2 ^ nat (- e) = (if s then - 1 else 1) * int m * 2 ^ nat e" if d: "2 ^ nat (- e) dvd m"
  proof -
    from d obtain k where m: "m = 2 ^ nat (- e) * k" by (elim dvdE)
    then have "m * 2 ^ nat e div 2 ^ nat (- e) = k * 2 ^ nat e" by (simp add: ac_simps)
    with m show ?thesis by auto
  qed
  then show ?thesis by (auto simp: scale_def)
qed

text \<open>The integer \<open>i\<close> behind a double, at any exponent below its own.\<close>

lemma at_exp_int:
  assumes "dbl_int (Fin s m e) = Some i" "e0 \<le> e"
  shows "at_exp e0 s m e * int (scale 1 e0) = i * int (scale 1 (- e0))"
proof -
  let ?g = "if s then - 1 else 1 :: int"
  have i: "i * 2 ^ nat (- e) = ?g * int m * 2 ^ nat e" using assms(1) by (simp only: dbl_int_iff)
  have "nat (e - e0) + nat e0 + nat (- e) = nat e + nat (- e0)" using assms(2) by linarith
  then have "(2::int) ^ nat (e - e0) * 2 ^ nat e0 * 2 ^ nat (- e) = 2 ^ nat e * 2 ^ nat (- e0)"
    by (simp flip: power_add)
  then have "?g * int m * (2 ^ nat (e - e0) * 2 ^ nat e0 * 2 ^ nat (- e)) = i * 2 ^ nat (- e) * 2 ^ nat (- e0)"
    by (simp add: i)
  then have "(at_exp e0 s m e * int (scale 1 e0)) * 2 ^ nat (- e) = (i * int (scale 1 (- e0))) * 2 ^ nat (- e)"
    by (simp add: at_exp_def scale_def ac_simps)
  then show ?thesis by simp
qed

lemma dbl_int_Fin: "dbl_int x = Some i \<Longrightarrow> \<exists>s m e. x = Fin s m e"
  by (cases x) auto

lemma dbl_neg_int: "dbl_int x = Some i \<Longrightarrow> dbl_int (dbl_neg x) = Some (- i)"
  by (cases x) (auto split: if_splits)

lemma dbl_add_int:
  assumes "dbl_int x = Some i" "dbl_int y = Some j" "\<bar>i + j\<bar> < 2 ^ 53"
  shows "dbl_int (dbl_add x y) = Some (i + j)"
proof -
  obtain s m e s' m' e' where x: "x = Fin s m e" and y: "y = Fin s' m' e'"
    using assms(1,2) dbl_int_Fin by metis
  let ?e = "min e e'"
  have "(at_exp ?e s m e + at_exp ?e s' m' e') * int (scale 1 ?e) = (i + j) * int (scale 1 (- ?e))"
    using at_exp_int [of s m e i ?e] at_exp_int [of s' m' e' j ?e] assms(1,2) x y
    by (simp add: distrib_right del: dbl_int.simps)
  from round_int_exact [OF this assms(3)] x y show ?thesis by (simp add: Let_def del: dbl_int.simps)
qed

lemma dbl_sub_int:
  "dbl_int x = Some i \<Longrightarrow> dbl_int y = Some j \<Longrightarrow> \<bar>i - j\<bar> < 2 ^ 53 \<Longrightarrow> dbl_int (dbl_sub x y) = Some (i - j)"
  using dbl_add_int [of x i "dbl_neg y" "- j"] by (simp add: dbl_sub_def dbl_neg_int)

lemma dbl_mul_int:
  assumes "dbl_int x = Some i" "dbl_int y = Some j" "\<bar>i * j\<bar> < 2 ^ 53"
  shows "dbl_int (dbl_mul x y) = Some (i * j)"
proof -
  obtain s m e s' m' e' where x: "x = Fin s m e" and y: "y = Fin s' m' e'"
    using assms(1,2) dbl_int_Fin by metis
  let ?t = "if s \<noteq> s' then - int (m * m') else int (m * m')"
  have i: "i * 2 ^ nat (- e) = (if s then - 1 else 1) * int m * 2 ^ nat e"
    and j: "j * 2 ^ nat (- e') = (if s' then - 1 else 1) * int m' * 2 ^ nat e'"
    using assms(1,2) x y by (simp_all only: dbl_int_iff)
  define c where "c = nat e + nat e' - nat (e + e')"
  have ex: "nat e + nat e' = nat (e + e') + c" "nat (- e) + nat (- e') = nat (- (e + e')) + c"
    by (simp_all add: c_def)
  have "(i * j) * (2 ^ nat (- e) * 2 ^ nat (- e')) = (i * 2 ^ nat (- e)) * (j * 2 ^ nat (- e'))" by simp
  also have "\<dots> = ?t * (2 ^ nat e * 2 ^ nat e')" unfolding i j by simp
  finally have "(i * j) * 2 ^ nat (- (e + e')) * 2 ^ c = ?t * 2 ^ nat (e + e') * 2 ^ c"
    by (simp only: power_add [symmetric] ex) (simp only: power_add mult.assoc)
  then have "?t * int (scale 1 (e + e')) = (i * j) * int (scale 1 (- (e + e')))"
    by (simp add: scale_def)
  from round_int_exact [OF this assms(3), of "s \<noteq> s'"] x y show ?thesis
    by (cases "s = s'") (simp_all add: Let_def del: dbl_int.simps)
qed

lemma dbl_compare_int:
  assumes "dbl_int x = Some i" "dbl_int y = Some j"
  shows "dbl_less x y \<longleftrightarrow> i < j" "dbl_eq x y \<longleftrightarrow> i = j"
proof -
  obtain s m e s' m' e' where x: "x = Fin s m e" and y: "y = Fin s' m' e'"
    using assms dbl_int_Fin by metis
  let ?e = "min e e'" and ?a = "at_exp (min e e') s m e" and ?b = "at_exp (min e e') s' m' e'"
  have ab: "?a * int (scale 1 ?e) = i * int (scale 1 (- ?e))" "?b * int (scale 1 ?e) = j * int (scale 1 (- ?e))"
    using at_exp_int assms x y by (simp_all del: dbl_int.simps)
  have p: "0 < int (scale 1 ?e)" "0 < int (scale 1 (- ?e))" by (simp_all add: scale_def)
  have "?a < ?b \<longleftrightarrow> ?a * int (scale 1 ?e) < ?b * int (scale 1 ?e)" using p(1) by simp
  also have "\<dots> \<longleftrightarrow> i < j" unfolding ab using p(2) by simp
  finally show "dbl_less x y \<longleftrightarrow> i < j" by (simp add: x y Let_def)
  have "?a = ?b \<longleftrightarrow> ?a * int (scale 1 ?e) = ?b * int (scale 1 ?e)" using p(1) by simp
  also have "\<dots> \<longleftrightarrow> i = j" unfolding ab using p(2) by simp
  finally show "dbl_eq x y \<longleftrightarrow> i = j" by (simp add: x y Let_def)
qed

section \<open>Reading what was printed\<close>

lemma digits_val_10: "list_all isdigit s \<Longrightarrow> digits_val 10 s = digits_value s"
  by (induction s rule: rev_induct) (simp_all add: digits_val_def digits_value_def digit_val_def)

lemma take_digits_show_nat: "take_digits isdigit (show_nat n) = (show_nat n, [], [])"
proof -
  have "takeWhile isdigit (show_nat n) = show_nat n" "dropWhile isdigit (show_nat n) = []"
    using show_nat_digits [of n] by (auto simp: list_all_iff takeWhile_eq_all_conv dropWhile_eq_Nil_conv)
  then show ?thesis by (simp only: take_digits_def Let_def list.case)
qed

lemma read_decimal_show_nat:
  "read_decimal neg (show_nat n) = Some (read_scaled neg n 1 1 [])"
  using show_nat_digits [of n]
  by (simp add: read_decimal_def take_digits_show_nat take_exponent_def digits_val_10)

lemma read_scaled_int:
  "n < 2 ^ 53 \<Longrightarrow> dbl_int (sr_value (read_scaled neg n 1 1 r)) = Some (if neg then - int n else int n) \<and>
     sr_rest (read_scaled neg n 1 1 r) = r"
  using round_pos_exact [of n 1 neg] by (simp add: read_scaled_def dbl_zero_def scale_def Let_def)

lemma not_hex_show_nat: "\<not> (2 \<le> length (show_nat n) \<and> P \<and> tolower (show_nat n ! 1) = CHR ''x'')"
proof (cases "2 \<le> length (show_nat n)")
  case True
  then have "isdigit (show_nat n ! 1)" using show_nat_digits [of n] by (simp add: list_all_length)
  then have "tolower (show_nat n ! 1) = show_nat n ! 1" "isdigit (show_nat n ! 1)" by (auto dest: isdigit_not)
  then show ?thesis by (auto simp: isdigit_def byte_def)
qed simp

text \<open>\<open>std::to_string\<close> and \<open>strtod\<close> are inverse on integers of 53 bits.\<close>

lemma strtod_show_int:
  assumes "\<bar>i\<bar> < 2 ^ 53"
  shows "dbl_int (sr_value (strtod (show_int i))) = Some i" "sr_rest (strtod (show_int i)) = []"
proof -
  have nat: "strtod (show_nat n) = read_scaled False n 1 1 []" for n
    using take_sign_digits [of "show_nat n"] show_nat_digits [of n]
    by (simp add: strtod_def if_not_P [OF not_hex_show_nat] read_decimal_show_nat del: One_nat_def)
  have neg: "strtod (CHR ''-'' # show_nat n) = read_scaled True n 1 1 []" for n
    by (simp add: strtod_def take_sign_def isspace_def byte_def if_not_P [OF not_hex_show_nat]
        read_decimal_show_nat del: One_nat_def)
  have "nat (- i) < 2 ^ 53" "nat i < 2 ^ 53" using assms by simp_all
  then show "dbl_int (sr_value (strtod (show_int i))) = Some i" "sr_rest (strtod (show_int i)) = []"
    using read_scaled_int [of "nat (- i)" True] read_scaled_int [of "nat i" False]
    by (auto simp: show_int_def nat neg)
qed

end
