(* ===== verification/Nift_Json.thy ===== *)
theory Nift_Json
  imports Nift_Filesystem Nift_Double "HOL-Library.List_Lexorder" "HOL-Library.Countable" "HOL-Library.Monad_Syntax"
begin

text \<open>
  The JSON values of nlohmann::json, as far as the program uses them, and the library itself as a
  parameter: \<open>json_lib\<close> holds its CBOR and text codecs, \<open>json_lib_ok\<close> their documented round
  trip.  An object is the \<open>std::map\<close> the library uses: an association list in key order.
\<close>

datatype json =
    JNull | JBool bool | JInt int | JFloat dbl | JStr string | JArr "json list" | JObj "(string \<times> json) list"

instance dbl :: countable
  by countable_datatype

instance json :: countable
  by countable_datatype

text \<open>\<open>j[key] = value\<close> on the entries of an object.\<close>

fun obj_set :: "string \<Rightarrow> json \<Rightarrow> (string \<times> json) list \<Rightarrow> (string \<times> json) list" where
  "obj_set k v [] = [(k, v)]"
| "obj_set k v ((k', v') # kvs) =
     (if k < k' then (k, v) # (k', v') # kvs
      else if k = k' then (k, v) # kvs
      else (k', v') # obj_set k v kvs)"

definition json_object :: "(string \<times> json) list \<Rightarrow> json" where
  "json_object kvs = JObj (fold (\<lambda>(k, v). obj_set k v) kvs [])"

fun json_find :: "string \<Rightarrow> json \<Rightarrow> json option" where
  "json_find key (JObj kvs) = map_of kvs key"
| "json_find key _ = None"

text \<open>The conversion of a double to \<open>std::int64_t\<close>; outside the range it is undefined, and gives the least
  number on the usual machines.\<close>

definition dbl_to_int64 :: "dbl \<Rightarrow> int" where
  "dbl_to_int64 d =
     (case d of
        Fin s m e \<Rightarrow>
          let v = int (scale m e div scale 1 (- e)); i = (if s then - v else v)
          in if - (2 ^ 63) \<le> i \<and> i < 2 ^ 63 then i else - (2 ^ 63)
      | _ \<Rightarrow> - (2 ^ 63))"

text \<open>\<open>get<std::string>()\<close>, \<open>get<std::int64_t>()\<close>, \<open>get<std::vector<std::string>>()\<close>: \<open>None\<close> is
  the exception on another type.\<close>

fun get_string :: "json \<Rightarrow> string option" where
  "get_string (JStr s) = Some s"
| "get_string _ = None"

fun get_int :: "json \<Rightarrow> int option" where
  "get_int (JInt i) = Some i"
| "get_int (JFloat d) = Some (dbl_to_int64 d)"
| "get_int _ = None"

fun get_all :: "('a \<Rightarrow> 'b option) \<Rightarrow> 'a list \<Rightarrow> 'b list option" where
  "get_all f [] = Some []"
| "get_all f (x # xs) = do { y \<leftarrow> f x; ys \<leftarrow> get_all f xs; Some (y # ys) }"

fun get_strings :: "json \<Rightarrow> string list option" where
  "get_strings (JArr js) = get_all get_string js"
| "get_strings _ = None"

text \<open>\<open>e.value(key, default)\<close>: an exception on a value that is no object.\<close>

fun json_value :: "(json \<Rightarrow> 'a option) \<Rightarrow> string \<Rightarrow> 'a \<Rightarrow> json \<Rightarrow> 'a option" where
  "json_value get key dflt (JObj kvs) = (case map_of kvs key of None \<Rightarrow> Some dflt | Some v \<Rightarrow> get v)"
| "json_value get key dflt _ = None"

section \<open>The library\<close>

text \<open>\<open>jl_dump\<close> is \<open>None\<close> where \<open>dump\<close> throws (a string that is not UTF-8), the two decoders are
  \<open>None\<close> where they throw.\<close>

record json_lib =
  jl_to_cbor :: "json \<Rightarrow> string"
  jl_from_cbor :: "string \<Rightarrow> json option"
  jl_dump :: "json \<Rightarrow> string option"
  jl_parse :: "string \<Rightarrow> json option"

text \<open>Values whose objects are as \<open>std::map\<close> holds them, in key order at every depth, and whose other
  parts satisfy \<open>P\<close>; and the ones the program writes, without floating-point numbers.\<close>

fun json_tree :: "(json \<Rightarrow> bool) \<Rightarrow> json \<Rightarrow> bool" where
  "json_tree P (JArr js) \<longleftrightarrow> list_all (json_tree P) js"
| "json_tree P (JObj kvs) \<longleftrightarrow> sorted_wrt (<) (map fst kvs) \<and> list_all (\<lambda>(k, v). json_tree P v) kvs"
| "json_tree P j \<longleftrightarrow> P j"

fun no_float :: "json \<Rightarrow> bool" where
  "no_float (JFloat d) \<longleftrightarrow> False"
| "no_float j \<longleftrightarrow> True"

abbreviation json_canon :: "json \<Rightarrow> bool" where
  "json_canon \<equiv> json_tree no_float"

definition json_lib_ok :: "json_lib \<Rightarrow> bool" where
  "json_lib_ok L \<longleftrightarrow>
     (\<forall>j. json_canon j \<longrightarrow>
        jl_from_cbor L (jl_to_cbor L j) = Some j \<and>
        (\<forall>s. jl_dump L j = Some s \<longrightarrow> jl_parse L s = Some j))"

text \<open>A concrete library, for the witnesses: a value is coded by the length of a text.\<close>

definition unary_lib :: json_lib where
  "unary_lib = \<lparr>jl_to_cbor = (\<lambda>j. replicate (to_nat j) (CHR ''x'')),
     jl_from_cbor = (\<lambda>s. Some (from_nat (length s))),
     jl_dump = (\<lambda>j. Some (replicate (to_nat j) (CHR ''x''))),
     jl_parse = (\<lambda>s. Some (from_nat (length s)))\<rparr>"

lemma unary_lib_ok: "json_lib_ok unary_lib"
  by (auto simp: json_lib_ok_def unary_lib_def)

section \<open>Lemmas\<close>

lemma map_of_obj_set: "sorted_wrt (<) (map fst kvs) \<Longrightarrow> map_of (obj_set k v kvs) = (map_of kvs)(k \<mapsto> v)"
proof (induction kvs)
  case (Cons p kvs)
  obtain k' v' where p: "p = (k', v')" by (cases p)
  have "k < k' \<Longrightarrow> k' < k'' \<Longrightarrow> k < k''" for k'' :: string by (rule less_trans)
  with Cons p show ?case by (auto simp: fun_eq_iff)
qed simp

lemma fst_obj_set: "set (map fst (obj_set k v kvs)) = insert k (set (map fst kvs))"
proof (induction k v kvs rule: obj_set.induct)
  case (2 k v k' v' kvs)
  then show ?case by (cases "k < k'"; cases "k = k'") (simp_all add: insert_commute)
qed simp

lemma sorted_obj_set: "sorted_wrt (<) (map fst kvs) \<Longrightarrow> sorted_wrt (<) (map fst (obj_set k v kvs))"
proof (induction k v kvs rule: obj_set.induct)
  case (2 k v k' v' kvs)
  consider "k < k'" | "k = k'" | "k' < k" by fastforce
  then show ?case
  proof cases
    case 1
    with "2.prems" show ?thesis by (auto intro: less_trans)
  next
    case 2
    with "2.prems" show ?thesis by simp
  next
    case 3
    then have n: "\<not> k < k'" "k \<noteq> k'" by auto
    have "\<forall>x\<in>set (map fst (obj_set k v kvs)). k' < x"
      unfolding fst_obj_set using "2.prems" 3 by simp
    with "2.IH" [OF n] "2.prems" n show ?thesis by simp
  qed
qed simp

lemma canon_obj_set:
  "list_all (\<lambda>(k, v). json_tree P v) kvs \<Longrightarrow> json_tree P v \<Longrightarrow> list_all (\<lambda>(k, v). json_tree P v) (obj_set k v kvs)"
  by (induction kvs) auto

lemma json_object_fold:
  "sorted_wrt (<) (map fst acc) \<Longrightarrow> list_all (\<lambda>(k, v). json_tree P v) acc \<Longrightarrow> list_all (\<lambda>(k, v). json_tree P v) kvs \<Longrightarrow>
   json_tree P (JObj (fold (\<lambda>(k, v). obj_set k v) kvs acc)) \<and>
   map_of (fold (\<lambda>(k, v). obj_set k v) kvs acc) = map_of acc ++ map_of (rev kvs)"
proof (induction kvs arbitrary: acc)
  case (Cons p kvs)
  obtain k v where p: "p = (k, v)" by (cases p)
  with Cons.prems Cons.IH [of "obj_set k v acc"] show ?case
    by (auto simp: sorted_obj_set canon_obj_set map_of_obj_set map_add_def fun_eq_iff split: option.splits)
qed simp

lemma json_object_canon: "list_all (\<lambda>(k, v). json_tree P v) kvs \<Longrightarrow> json_tree P (json_object kvs)"
  using json_object_fold [of "[]" P kvs] by (simp add: json_object_def)

lemma json_object_find:
  "list_all (\<lambda>(k, v). json_canon v) kvs \<Longrightarrow> json_find key (json_object kvs) = map_of (rev kvs) key"
  using json_object_fold [of "[]" no_float kvs] by (simp add: json_object_def)

lemma json_object_value:
  "list_all (\<lambda>(k, v). json_canon v) kvs \<Longrightarrow>
   json_value get key dflt (json_object kvs) = (case map_of (rev kvs) key of None \<Rightarrow> Some dflt | Some v \<Rightarrow> get v)"
  using json_object_fold [of "[]" no_float kvs] by (simp add: json_object_def)

lemma get_all_map: "(\<And>x. x \<in> set xs \<Longrightarrow> f (g x) = Some x) \<Longrightarrow> get_all f (map g xs) = Some xs"
  by (induction xs) auto

end
