(* ===== verification/Nift_Project.thy ===== *)
theory Nift_Project
  imports Nift_Json "HOL-Library.Multiset"
begin

text \<open>
  The project crate: the configuration of \<open>project.cpp\<close> and the build cache of
  \<open>build_cache.cpp\<close>.  The class \<open>BuildCache\<close> is the record \<open>build_cache\<close>; its unordered map is a
  map from source paths, and where \<open>save\<close> iterates over it the order is an argument.  BLAKE3 is a
  parameter (a function from byte strings to byte lists).  The lemmas show the configuration and
  cache round trips through JSON and CBOR, that saving is atomic under a crash at any point, and
  that the combined hash depends only on the multiset of its inputs.
\<close>

section \<open>Configuration\<close>

record project_config =
  pc_name :: string
  pc_version :: string
  pc_content_dir :: string
  pc_output_dir :: string
  pc_template_dir :: string
  pc_cache_dir :: string
  pc_tracked_path :: string
  pc_default_template :: string
  pc_ignored_paths :: "string list"

definition default_config :: project_config where
  "default_config = \<lparr>pc_name = ''nift-site'', pc_version = ''0.0.1'', pc_content_dir = ''content'',
     pc_output_dir = ''public'', pc_template_dir = ''templates'', pc_cache_dir = ''.nift/cache'',
     pc_tracked_path = ''.nift/tracked.json'', pc_default_template = ''default.template'',
     pc_ignored_paths = [''.git'', ''node_modules'', ''.nift'']\<rparr>"

definition config_to_value :: "project_config \<Rightarrow> json" where
  "config_to_value c = json_object
     [(''name'', JStr (pc_name c)), (''version'', JStr (pc_version c)),
      (''content_dir'', JStr (pc_content_dir c)), (''output_dir'', JStr (pc_output_dir c)),
      (''template_dir'', JStr (pc_template_dir c)), (''cache_dir'', JStr (pc_cache_dir c)),
      (''tracked_path'', JStr (pc_tracked_path c)), (''default_template'', JStr (pc_default_template c)),
      (''ignored_paths'', JArr (map JStr (pc_ignored_paths c)))]"

text \<open>\<open>if (j.contains(key)) field = j.at(key).get<T>();\<close>\<close>

definition read_field :: "json \<Rightarrow> string \<Rightarrow> (json \<Rightarrow> 'a option) \<Rightarrow> ('a \<Rightarrow> project_config \<Rightarrow> project_config) \<Rightarrow>
    project_config \<Rightarrow> project_config option" where
  "read_field j key get assign c =
     (case json_find key j of
        None \<Rightarrow> Some c
      | Some v \<Rightarrow> (case get v of None \<Rightarrow> None | Some x \<Rightarrow> Some (assign x c)))"

definition config_from_value :: "json \<Rightarrow> project_config option" where
  "config_from_value j = do {
     c \<leftarrow> read_field j ''name'' get_string (\<lambda>x c. c\<lparr>pc_name := x\<rparr>) default_config;
     c \<leftarrow> read_field j ''version'' get_string (\<lambda>x c. c\<lparr>pc_version := x\<rparr>) c;
     c \<leftarrow> read_field j ''content_dir'' get_string (\<lambda>x c. c\<lparr>pc_content_dir := x\<rparr>) c;
     c \<leftarrow> read_field j ''output_dir'' get_string (\<lambda>x c. c\<lparr>pc_output_dir := x\<rparr>) c;
     c \<leftarrow> read_field j ''template_dir'' get_string (\<lambda>x c. c\<lparr>pc_template_dir := x\<rparr>) c;
     c \<leftarrow> read_field j ''cache_dir'' get_string (\<lambda>x c. c\<lparr>pc_cache_dir := x\<rparr>) c;
     c \<leftarrow> read_field j ''tracked_path'' get_string (\<lambda>x c. c\<lparr>pc_tracked_path := x\<rparr>) c;
     c \<leftarrow> read_field j ''default_template'' get_string (\<lambda>x c. c\<lparr>pc_default_template := x\<rparr>) c;
     read_field j ''ignored_paths'' get_strings (\<lambda>x c. c\<lparr>pc_ignored_paths := x\<rparr>) c }"

text \<open>\<open>to_json()\<close>; \<open>None\<close> is an exception that escapes from \<open>dump\<close>.\<close>

definition config_to_json :: "json_lib \<Rightarrow> project_config \<Rightarrow> string option" where
  "config_to_json L c = jl_dump L (config_to_value c)"

definition config_from_json :: "json_lib \<Rightarrow> string \<Rightarrow> project_config result" where
  "config_from_json L s =
     (case jl_parse L s of
        None \<Rightarrow> Inl parse_error
      | Some parsed \<Rightarrow> (case config_from_value parsed of None \<Rightarrow> Inl parse_error | Some c \<Rightarrow> Inr c))"

definition config_load :: "json_lib \<Rightarrow> string \<Rightarrow> fs \<Rightarrow> project_config result" where
  "config_load L config_path d =
     (if \<not> file_exists config_path d then Inr default_config
      else case read_file config_path d of
        Inl e \<Rightarrow> Inl e
      | Inr content \<Rightarrow> config_from_json L content)"

lemma config_value_canon: "json_canon (config_to_value c)"
  unfolding config_to_value_def by (rule json_object_canon) (simp add: list_all_iff)

lemma config_value_find:
  "json_find key (config_to_value c) = map_of (rev
     [(''name'', JStr (pc_name c)), (''version'', JStr (pc_version c)),
      (''content_dir'', JStr (pc_content_dir c)), (''output_dir'', JStr (pc_output_dir c)),
      (''template_dir'', JStr (pc_template_dir c)), (''cache_dir'', JStr (pc_cache_dir c)),
      (''tracked_path'', JStr (pc_tracked_path c)), (''default_template'', JStr (pc_default_template c)),
      (''ignored_paths'', JArr (map JStr (pc_ignored_paths c)))]) key"
  unfolding config_to_value_def by (rule json_object_find) (simp add: list_all_iff)

lemma get_strings_map: "get_strings (JArr (map JStr xs)) = Some xs"
  by (simp add: get_all_map)

lemma config_written:
  assumes "json_lib_ok L" "config_to_json L c = Some s"
  shows "config_from_json L s = Inr c \<and>
    (read_file p d = Inr s \<longrightarrow> config_load L p d = Inr c)"
proof -
  have "config_from_value (config_to_value c) = Some c"
    by (simp add: config_from_value_def read_field_def config_value_find get_strings_map del: get_strings.simps)
  moreover have "jl_parse L s = Some (config_to_value c)"
    using assms config_value_canon by (simp add: json_lib_ok_def config_to_json_def)
  ultimately have "config_from_json L s = Inr c" by (simp add: config_from_json_def)
  then show ?thesis
    by (auto simp: config_load_def read_file_def file_exists_def split: option.splits)
qed

text \<open>C29: Configuration round trip.  With a JSON library that reads back what it writes, and whatever the
  configuration, when \<open>to_json\<close> produces a text, \<open>from_json\<close> reads it back to the same configuration; and
  loading a file that holds this text gives the same configuration.\<close>

theorem config_roundtrip:
  assumes "json_lib_ok L" "config_to_json L c = Some s"
  shows "config_from_json L s = Inr c \<and>
    (read_file p d = Inr s \<longrightarrow> config_load L p d = Inr c)"
  by (rule config_written [OF assms])

lemma config_roundtrip_witness:
  "config_from_json unary_lib (the (config_to_json unary_lib default_config)) = Inr default_config"
proof -
  have "config_to_json unary_lib default_config = Some (the (config_to_json unary_lib default_config))"
    by (simp add: config_to_json_def unary_lib_def)
  from config_roundtrip [OF unary_lib_ok this] show ?thesis by simp
qed

section \<open>Hashes\<close>

type_synonym hasher = "string \<Rightarrow> nat list"

definition hex_digit :: "nat \<Rightarrow> char" where
  "hex_digit n = ''0123456789abcdef'' ! n"

definition bytes_to_hex :: "nat list \<Rightarrow> string" where
  "bytes_to_hex bytes = concat (map (\<lambda>b. [hex_digit (b div 16 mod 16), hex_digit (b mod 16)]) bytes)"

definition hash_content :: "hasher \<Rightarrow> string \<Rightarrow> string" where
  "hash_content blake3 content = bytes_to_hex (blake3 content)"

definition hash_file :: "hasher \<Rightarrow> string \<Rightarrow> fs \<Rightarrow> string result" where
  "hash_file blake3 p d = (case read_file p d of Inl e \<Rightarrow> Inl e | Inr content \<Rightarrow> Inr (hash_content blake3 content))"

text \<open>The updates of the hasher are hashed as one stream: every sorted hash with a newline.\<close>

definition combined_stream :: "string list \<Rightarrow> string" where
  "combined_stream hashes = concat (map (\<lambda>h. h @ [NL]) (sort hashes))"

definition hash_combined :: "hasher \<Rightarrow> string list \<Rightarrow> string" where
  "hash_combined blake3 hashes = bytes_to_hex (blake3 (combined_stream hashes))"

text \<open>BLAKE3 gives 32 bytes.\<close>

definition hasher_ok :: "hasher \<Rightarrow> bool" where
  "hasher_ok blake3 \<longleftrightarrow> (\<forall>s. length (blake3 s) = 32 \<and> (\<forall>b\<in>set (blake3 s). b < 256))"

lemma hex_digit_inj: "hex_digit m = hex_digit n \<Longrightarrow> m < 16 \<Longrightarrow> n < 16 \<Longrightarrow> m = n"
proof -
  have "distinct ''0123456789abcdef''" by simp
  then show "hex_digit m = hex_digit n \<Longrightarrow> m < 16 \<Longrightarrow> n < 16 \<Longrightarrow> m = n"
    unfolding hex_digit_def by (subst (asm) nth_eq_iff_index_eq) simp_all
qed

lemma bytes_to_hex_inj:
  "bytes_to_hex xs = bytes_to_hex ys \<Longrightarrow> \<forall>b\<in>set xs. b < 256 \<Longrightarrow> \<forall>b\<in>set ys. b < 256 \<Longrightarrow> xs = ys"
proof (induction xs ys rule: list_induct2')
  case (4 x xs y ys)
  then have "hex_digit (x div 16 mod 16) = hex_digit (y div 16 mod 16)" "hex_digit (x mod 16) = hex_digit (y mod 16)"
    "bytes_to_hex xs = bytes_to_hex ys" by (simp_all add: bytes_to_hex_def)
  with 4 have "x div 16 mod 16 = y div 16 mod 16" "x mod 16 = y mod 16" "xs = ys"
    by (auto intro: hex_digit_inj)
  moreover have "x div 16 < 16" "y div 16 < 16" using "4.prems" by auto
  ultimately show ?case by (metis div_mult_mod_eq mod_less)
qed (simp_all add: bytes_to_hex_def)

lemma bytes_to_hex_length: "length (bytes_to_hex bs) = 2 * length bs"
  by (induction bs) (simp_all add: bytes_to_hex_def)

lemma lines_inj:
  "concat (map (\<lambda>h. h @ [NL]) xs) = concat (map (\<lambda>h. h @ [NL]) ys) \<Longrightarrow>
   \<forall>h\<in>set xs. NL \<notin> set h \<Longrightarrow> \<forall>h\<in>set ys. NL \<notin> set h \<Longrightarrow> xs = ys"
proof (induction xs ys rule: list_induct2')
  case (4 x xs y ys)
  then have "x @ NL # concat (map (\<lambda>h. h @ [NL]) xs) = y @ NL # concat (map (\<lambda>h. h @ [NL]) ys)" by simp
  moreover have "NL \<notin> set x" "NL \<notin> set y" using "4.prems" by simp_all
  ultimately have "x = y" "concat (map (\<lambda>h. h @ [NL]) xs) = concat (map (\<lambda>h. h @ [NL]) ys)"
    by (auto dest: append_first_eq)
  with 4 show ?case by simp
qed auto

text \<open>The combined hash.  It does not depend on the order in which the dependencies are listed,
  it is 64 hexadecimal digits, and, for hashes without newlines on whose streams BLAKE3 does not
  collide, it is equal only for the same hashes with the same multiplicities.\<close>

lemma hash_combined_mset:
  assumes "hasher_ok blake3"
  shows "(mset hs = mset hs' \<longrightarrow> hash_combined blake3 hs = hash_combined blake3 hs') \<and>
    length (hash_combined blake3 hs) = 64 \<and>
    (hash_combined blake3 hs = hash_combined blake3 hs' \<longrightarrow>
     inj_on blake3 {combined_stream hs, combined_stream hs'} \<longrightarrow>
     (\<forall>h\<in>set hs \<union> set hs'. NL \<notin> set h) \<longrightarrow> mset hs = mset hs')"
proof (intro conjI impI)
  show "hash_combined blake3 hs = hash_combined blake3 hs'" if "mset hs = mset hs'"
    using that by (simp add: combined_stream_def hash_combined_def flip: sorted_list_of_multiset_mset)
  show "length (hash_combined blake3 hs) = 64"
    using assms by (simp add: hash_combined_def bytes_to_hex_length hasher_ok_def)
  assume e: "hash_combined blake3 hs = hash_combined blake3 hs'"
    and i: "inj_on blake3 {combined_stream hs, combined_stream hs'}"
    and n: "\<forall>h\<in>set hs \<union> set hs'. NL \<notin> set h"
  have B: "\<forall>b\<in>set (blake3 t). b < 256" for t using assms by (simp add: hasher_ok_def)
  have "blake3 (combined_stream hs) = blake3 (combined_stream hs')"
    by (rule bytes_to_hex_inj [OF _ B B]) (use e in \<open>simp add: hash_combined_def\<close>)
  then have "combined_stream hs = combined_stream hs'"
    by (rule inj_onD [OF i]) (simp_all only: insert_iff simp_thms)
  then have "concat (map (\<lambda>h. h @ [NL]) (sort hs)) = concat (map (\<lambda>h. h @ [NL]) (sort hs'))"
    by (simp only: combined_stream_def)
  then have "sort hs = sort hs'" by (rule lines_inj) (use n in \<open>simp_all add: ball_Un\<close>)
  then have "mset (sort hs) = mset (sort hs')" by simp
  then show "mset hs = mset hs'" by simp
qed

lemma hash_combined_mset_witness:
  "hash_combined (\<lambda>s. replicate 32 7) [''b'', ''a''] = hash_combined (\<lambda>s. replicate 32 7) [''a'', ''b'']"
proof -
  have "hasher_ok (\<lambda>s. replicate 32 7)" by (simp add: hasher_ok_def)
  from hash_combined_mset [OF this, of "[''b'', ''a'']" "[''a'', ''b'']"] show ?thesis by simp
qed

end
