(* ===== verification/Nift_Cache.thy ===== *)
theory Nift_Cache
  imports Nift_Project
begin

text \<open>
  The persistent build cache, class \<open>BuildCache\<close> of \<open>crates/project/cache/build_cache.cpp\<close>: the
  in-memory table, the check \<open>is_dirty\<close>, and \<open>save\<close> and \<open>load\<close> with their two files.  The locale
  \<open>source_store\<close> is the contract the build pipeline relies on; the cache is an instance of it.
  The last part shows that \<open>save\<close> is atomic: whatever write or rename a crash interrupts, a later
  \<open>load\<close> finds the old table or the new one.
\<close>

section \<open>The table\<close>

record tracked_file =
  tf_source :: string
  tf_output :: string
  tf_content_hash :: string
  tf_deps_hash :: string
  tf_mtime :: int
  tf_built_at :: int

record build_cache =
  bc_cache_dir :: string
  bc_index_path :: string
  bc_entries :: "string \<rightharpoonup> tracked_file"

definition cache_create :: "string \<Rightarrow> fs \<Rightarrow> build_cache \<times> fs" where
  "cache_create cache_dir d =
     (\<lparr>bc_cache_dir = cache_dir, bc_index_path = cache_dir @ ''/index.json'', bc_entries = Map.empty\<rparr>,
      snd (create_directories cache_dir d))"

definition cache_get :: "string \<Rightarrow> build_cache \<Rightarrow> tracked_file option" where
  "cache_get source c = bc_entries c source"

definition cache_put :: "tracked_file \<Rightarrow> build_cache \<Rightarrow> build_cache" where
  "cache_put e c = c\<lparr>bc_entries := (bc_entries c)(tf_source e \<mapsto> e)\<rparr>"

definition cache_remove :: "string \<Rightarrow> build_cache \<Rightarrow> build_cache" where
  "cache_remove source c = c\<lparr>bc_entries := (bc_entries c)(source := None)\<rparr>"

definition cache_clear :: "build_cache \<Rightarrow> build_cache" where
  "cache_clear c = c\<lparr>bc_entries := Map.empty\<rparr>"

definition is_dirty :: "string \<Rightarrow> string \<Rightarrow> build_cache \<Rightarrow> bool" where
  "is_dirty source current_hash c =
     (case bc_entries c source of None \<Rightarrow> True | Some e \<Rightarrow> tf_content_hash e \<noteq> current_hash)"

section \<open>The contract the pipeline uses\<close>

locale source_store =
  fixes get :: "string \<Rightarrow> 's \<Rightarrow> tracked_file option"
    and put :: "tracked_file \<Rightarrow> 's \<Rightarrow> 's"
    and dirty :: "string \<Rightarrow> string \<Rightarrow> 's \<Rightarrow> bool"
  assumes get_put: "get s (put e c) = (if s = tf_source e then Some e else get s c)"
    and dirty_get: "dirty s h c \<longleftrightarrow> (\<forall>e. get s c = Some e \<longrightarrow> tf_content_hash e \<noteq> h)"
begin

lemma not_dirty_after_put: "\<not> dirty (tf_source e) (tf_content_hash e) (put e c)"
  by (simp add: dirty_get get_put)

lemma dirty_put_other: "s \<noteq> tf_source e \<Longrightarrow> dirty s h (put e c) = dirty s h c"
  by (simp add: dirty_get get_put)

lemma dirty_after_change: "tf_content_hash e \<noteq> h \<Longrightarrow> dirty (tf_source e) h (put e c)"
  by (simp add: dirty_get get_put)

text \<open>Puts of different sources commute: the order in which workers record results is invisible.\<close>

lemma put_commute: "tf_source e \<noteq> tf_source e' \<Longrightarrow> get s (put e (put e' c)) = get s (put e' (put e c))"
  by (simp add: get_put)

end

text \<open>A store that can also forget.\<close>

locale removable_store = source_store get put dirty
  for get :: "string \<Rightarrow> 's \<Rightarrow> tracked_file option" and put dirty +
  fixes remove :: "string \<Rightarrow> 's \<Rightarrow> 's"
  assumes get_remove: "get s (remove s' c) = (if s = s' then None else get s c)"
begin

lemma dirty_after_remove: "dirty s h (remove s c)"
  by (simp add: dirty_get get_remove)

lemma remove_put: "get s (remove (tf_source e) (put e c)) = get s (remove (tf_source e) c)"
  by (simp add: get_put get_remove)

end

interpretation cache: removable_store cache_get cache_put is_dirty cache_remove
  by unfold_locales
     (auto simp: cache_get_def cache_put_def cache_remove_def is_dirty_def split: option.splits)

section \<open>Saving and loading\<close>

definition entry_to_value :: "tracked_file \<Rightarrow> json" where
  "entry_to_value e = json_object
     [(''source'', JStr (tf_source e)), (''output'', JStr (tf_output e)),
      (''content_hash'', JStr (tf_content_hash e)), (''deps_hash'', JStr (tf_deps_hash e)),
      (''mtime'', JInt (tf_mtime e)), (''built_at'', JInt (tf_built_at e))]"

definition entry_from_value :: "json \<Rightarrow> tracked_file option" where
  "entry_from_value j = do {
     source \<leftarrow> json_value get_string ''source'' [] j;
     output \<leftarrow> json_value get_string ''output'' [] j;
     content_hash \<leftarrow> json_value get_string ''content_hash'' [] j;
     deps_hash \<leftarrow> json_value get_string ''deps_hash'' [] j;
     mtime \<leftarrow> json_value get_int ''mtime'' 0 j;
     built_at \<leftarrow> json_value get_int ''built_at'' 0 j;
     Some \<lparr>tf_source = source, tf_output = output, tf_content_hash = content_hash,
       tf_deps_hash = deps_hash, tf_mtime = mtime, tf_built_at = built_at\<rparr> }"

text \<open>The document for the entries, which the loop visits in the order \<open>ks\<close> of their keys.\<close>

definition cache_document :: "string list \<Rightarrow> (string \<rightharpoonup> tracked_file) \<Rightarrow> json" where
  "cache_document ks entries = json_object
     [(''version'', JInt 1),
      (''entries'', JArr (map (\<lambda>k. entry_to_value (the (entries k))) ks))]"

text \<open>The loop over the loaded entries: it stops at the first exception, with the entries so far.\<close>

fun load_entries :: "json list \<Rightarrow> (string \<rightharpoonup> tracked_file) \<Rightarrow> bool \<times> (string \<rightharpoonup> tracked_file)" where
  "load_entries [] m = (True, m)"
| "load_entries (j # js) m =
     (case entry_from_value j of
        None \<Rightarrow> (False, m)
      | Some e \<Rightarrow> load_entries js (m(tf_source e \<mapsto> e)))"

definition load_document :: "json \<Rightarrow> bool \<times> (string \<rightharpoonup> tracked_file)" where
  "load_document parsed =
     (case json_find ''entries'' parsed of
        Some (JArr js) \<Rightarrow> load_entries js Map.empty
      | _ \<Rightarrow> (True, Map.empty))"

definition cbor_path :: "build_cache \<Rightarrow> string" where
  "cbor_path c = bc_index_path c @ ''.cbor''"

text \<open>\<open>save()\<close>: \<open>None\<close> is an exception that escapes (from \<open>dump\<close>).\<close>

definition cache_save :: "json_lib \<Rightarrow> string list \<Rightarrow> build_cache \<Rightarrow> fs \<Rightarrow> unit result option \<times> fs" where
  "cache_save L ks c d =
     (let j = cache_document ks (bc_entries c);
          tmp = cbor_path c @ ''.tmp'';
          (st, d) = write_file tmp (jl_to_cbor L j) d
      in case st of
           Inl e \<Rightarrow> (Some (Inl e), d)
         | Inr _ \<Rightarrow>
             let (renamed, d) = rename_file tmp (cbor_path c) d in
             if \<not> renamed then (Some (Inl io_error), d)
             else (case jl_dump L j of
                     None \<Rightarrow> (None, d)
                   | Some text \<Rightarrow>
                       let json_tmp = bc_index_path c @ ''.tmp'';
                           (st, d) = write_file json_tmp text d
                       in (Some (Inr ()),
                           case st of Inl _ \<Rightarrow> d | Inr _ \<Rightarrow> snd (rename_file json_tmp (bc_index_path c) d))))"

text \<open>The JSON half of \<open>load()\<close>, entered with the entries \<open>m\<close> that a failed CBOR load left.\<close>

definition load_json :: "json_lib \<Rightarrow> build_cache \<Rightarrow> fs \<Rightarrow> unit result \<times> build_cache" where
  "load_json L c d =
     (if \<not> file_exists (bc_index_path c) d then (Inr (), cache_clear c)
      else case read_file (bc_index_path c) d of
        Inl e \<Rightarrow> (Inl e, c)
      | Inr content \<Rightarrow>
          (case jl_parse L content of
             None \<Rightarrow> (Inl parse_error, c)
           | Some parsed \<Rightarrow>
               let (good, m) = load_document parsed
               in (if good then Inr () else Inl parse_error, c\<lparr>bc_entries := m\<rparr>)))"

definition cache_load :: "json_lib \<Rightarrow> build_cache \<Rightarrow> fs \<Rightarrow> unit result \<times> build_cache" where
  "cache_load L c d =
     (if file_exists (cbor_path c) d then
        (case read_file (cbor_path c) d of
           Inl e \<Rightarrow> load_json L c d
         | Inr content \<Rightarrow>
             (case jl_from_cbor L content of
                None \<Rightarrow> load_json L c d
              | Some parsed \<Rightarrow>
                  let (good, m) = load_document parsed
                  in if good then (Inr (), c\<lparr>bc_entries := m\<rparr>)
                     else load_json L (c\<lparr>bc_entries := m\<rparr>) d))
      else load_json L c d)"

section \<open>The document round trip\<close>

lemma entry_value_canon: "json_canon (entry_to_value e)"
  unfolding entry_to_value_def by (rule json_object_canon) simp

lemma entry_roundtrip: "entry_from_value (entry_to_value e) = Some e"
  unfolding entry_from_value_def entry_to_value_def by (simp add: json_object_value)

text \<open>What \<open>put\<close> and \<open>load\<close> maintain: an entry is stored under its own source path.\<close>

definition keyed :: "(string \<rightharpoonup> tracked_file) \<Rightarrow> bool" where
  "keyed m \<longleftrightarrow> (\<forall>k e. m k = Some e \<longrightarrow> tf_source e = k)"

lemma keyed_put: "keyed (bc_entries c) \<Longrightarrow> keyed (bc_entries (cache_put e c))"
  by (simp add: keyed_def cache_put_def)

lemma keyed_remove: "keyed (bc_entries c) \<Longrightarrow> keyed (bc_entries (cache_remove s c))"
  by (simp add: keyed_def cache_remove_def)

lemma keyed_upd: "keyed m \<Longrightarrow> keyed (m(tf_source e \<mapsto> e))"
  by (simp add: keyed_def)

lemma load_entries_keyed: "load_entries js m = (b, m') \<Longrightarrow> keyed m \<Longrightarrow> keyed m'"
proof (induction js arbitrary: m)
  case (Cons j js)
  show ?case
  proof (cases "entry_from_value j")
    case (Some e)
    with Cons.prems(1) have "load_entries js (m(tf_source e \<mapsto> e)) = (b, m')" by simp
    from Cons.IH [OF this keyed_upd [OF Cons.prems(2)]] show ?thesis .
  qed (use Cons in simp)
qed simp

lemma load_entries_map:
  "keyed m \<Longrightarrow> set ks \<subseteq> dom m \<Longrightarrow>
   load_entries (map (\<lambda>k. entry_to_value (the (m k))) ks) acc = (True, acc ++ m |` set ks)"
proof (induction ks arbitrary: acc)
  case (Cons k ks)
  then obtain e where e: "m k = Some e" "tf_source e = k" by (auto simp: keyed_def)
  have "acc(k \<mapsto> e) ++ m |` set ks = acc ++ m |` set (k # ks)"
    using e by (auto simp: fun_eq_iff map_add_def restrict_map_def split: option.splits)
  with Cons e show ?case by (simp add: entry_roundtrip)
qed simp

lemma cache_document_canon: "json_canon (cache_document ks m)"
  unfolding cache_document_def by (rule json_object_canon) (simp add: list_all_iff entry_value_canon)

lemma load_cache_document:
  assumes "keyed m" "set ks = dom m"
  shows "load_document (cache_document ks m) = (True, m)"
proof -
  have "json_find ''entries'' (cache_document ks m) = Some (JArr (map (\<lambda>k. entry_to_value (the (m k))) ks))"
    unfolding cache_document_def
    by (subst json_object_find) (simp_all add: list_all_iff entry_value_canon)
  with load_entries_map [OF assms(1), of ks Map.empty] assms(2) show ?thesis
    by (simp add: load_document_def restrict_map_def map_add_def fun_eq_iff dom_def)
qed

section \<open>What a crash can leave on the disk\<close>

text \<open>
  The disk operations of \<open>save\<close> in order.  A crash may come between two of them, or inside a write:
  then some of the missing directories exist, or the file holds a prefix of its bytes.  A rename is
  atomic.  A failed operation ends the sequence.
\<close>

datatype fs_op = Op_write string string | Op_rename string string

fun crash_states :: "fs_op list \<Rightarrow> fs \<Rightarrow> fs set" where
  "crash_states [] d = {d}"
| "crash_states (Op_write p content # ops) d =
     {snd (make_dirs (take k (dirs_of (path_parent p))) d) | k. True} \<union>
     (case write_file p content d of
        (Inl e, d') \<Rightarrow> {d'}
      | (Inr _, d') \<Rightarrow>
          {d'\<lparr>fs_tree := (fs_tree d')(p \<mapsto> File (take n content))\<rparr> | n. True} \<union> crash_states ops d')"
| "crash_states (Op_rename a b # ops) d =
     {d} \<union> (case rename_file a b d of (ok, d') \<Rightarrow> if ok then crash_states ops d' else {})"

definition save_ops :: "json_lib \<Rightarrow> string list \<Rightarrow> build_cache \<Rightarrow> fs_op list" where
  "save_ops L ks c =
     (let j = cache_document ks (bc_entries c); tmp = cbor_path c @ ''.tmp'' in
      [Op_write tmp (jl_to_cbor L j), Op_rename tmp (cbor_path c)] @
      (case jl_dump L j of
         None \<Rightarrow> []
       | Some text \<Rightarrow> let json_tmp = bc_index_path c @ ''.tmp'' in
           [Op_write json_tmp text, Op_rename json_tmp (bc_index_path c)]))"

text \<open>The sequence is the one \<open>save\<close> performs: a run to the end is one of its states.\<close>

lemma crash_states_start: "d \<in> crash_states ops d"
proof (cases "(ops, d)" rule: crash_states.cases)
  case (2 p content ops d)
  have "\<exists>k. d = snd (make_dirs (take k (dirs_of (path_parent p))) d)" by (rule exI [of _ 0]) simp
  with 2 show ?thesis by simp
qed auto

lemma crash_states_write:
  "write_file p content d = (Inr u, d') \<Longrightarrow> x \<in> crash_states ops d' \<Longrightarrow> x \<in> crash_states (Op_write p content # ops) d"
  by simp

lemma crash_states_rename:
  "rename_file a b d = (True, d') \<Longrightarrow> x \<in> crash_states ops d' \<Longrightarrow> x \<in> crash_states (Op_rename a b # ops) d"
  by simp

lemma cache_save_crash_states: "snd (cache_save L ks c d) \<in> crash_states (save_ops L ks c) d"
proof -
  define j where "j = cache_document ks (bc_entries c)"
  define tmp where "tmp = cbor_path c @ ''.tmp''"
  obtain r1 d1 where w: "write_file tmp (jl_to_cbor L j) d = (r1, d1)"
    by (cases "write_file tmp (jl_to_cbor L j) d")
  obtain b2 d2 where rn: "rename_file tmp (cbor_path c) d1 = (b2, d2)"
    by (cases "rename_file tmp (cbor_path c) d1")
  have b2: "\<not> b2 \<Longrightarrow> d2 = d1" using rn by (auto simp: rename_file_def split: if_splits)
  note unf = cache_save_def save_ops_def Let_def j_def [symmetric] tmp_def [symmetric] w
  show ?thesis
  proof (cases r1)
    case (Inl e)
    then show ?thesis by (simp add: unf)
  next
    case (Inr u)
    note wr = w [unfolded Inr]
    show ?thesis
    proof (cases b2)
      case False
      have "d1 \<in> crash_states (Op_rename tmp (cbor_path c) # ops) d1" for ops by (rule crash_states_start)
      with False b2 show ?thesis
        using crash_states_write [OF wr] by (simp add: unf Inr rn del: crash_states.simps)
    next
      case True
      show ?thesis
      proof (cases "jl_dump L j")
        case None
        then show ?thesis
          using crash_states_write [OF wr crash_states_rename [OF _ crash_states_start [of d2 "[]"]]] rn True
          by (simp add: unf Inr del: crash_states.simps)
      next
        case (Some doc)
        obtain r3 d3 where w3: "write_file (bc_index_path c @ ''.tmp'') doc d2 = (r3, d3)"
          by (cases "write_file (bc_index_path c @ ''.tmp'') doc d2")
        obtain b4 d4 where rn4: "rename_file (bc_index_path c @ ''.tmp'') (bc_index_path c) d3 = (b4, d4)"
          by (cases "rename_file (bc_index_path c @ ''.tmp'') (bc_index_path c) d3")
        have b4: "\<not> b4 \<Longrightarrow> d4 = d3" using rn4 by (auto simp: rename_file_def split: if_splits)
        have "(case r3 of Inl _ \<Rightarrow> d3 | Inr _ \<Rightarrow> d4) \<in> crash_states
            [Op_write (bc_index_path c @ ''.tmp'') doc, Op_rename (bc_index_path c @ ''.tmp'') (bc_index_path c)] d2"
          using w3 rn4 b4 by (cases r3; cases b4) auto
        then show ?thesis
          using crash_states_write [OF wr crash_states_rename] rn True w3 rn4 Some
          by (cases r3) (simp_all add: unf Inr del: crash_states.simps)
      qed
    qed
  qed
qed

section \<open>What a later load finds\<close>

text \<open>\<open>load\<close> reads two paths; writes to other paths beside them do not matter.\<close>

definition same_view :: "build_cache \<Rightarrow> fs \<Rightarrow> fs \<Rightarrow> bool" where
  "same_view c d d' \<longleftrightarrow> fs_tree d' (cbor_path c) = fs_tree d (cbor_path c) \<and>
     fs_tree d' (bc_index_path c) = fs_tree d (bc_index_path c) \<and> fs_deny_read d' = fs_deny_read d"

lemma cache_load_view: "same_view c d d' \<Longrightarrow> cache_load L c d' = cache_load L c d"
proof -
  assume v: "same_view c d d'"
  then have r: "read_file (cbor_path c) d' = read_file (cbor_path c) d"
    "read_file (bc_index_path c) d' = read_file (bc_index_path c) d"
    "file_exists (cbor_path c) d' = file_exists (cbor_path c) d"
    "file_exists (bc_index_path c) d' = file_exists (bc_index_path c) d"
    by (simp_all add: same_view_def read_file_def file_exists_def split: option.split fs_entry.split)
  have "load_json L x d' = load_json L x d" if "bc_index_path x = bc_index_path c" for x
    using r that by (simp add: load_json_def)
  with r show ?thesis by (simp add: cache_load_def split: sum.split option.split prod.split)
qed

lemma cache_load_new:
  assumes "json_lib_ok L" "keyed m" "set ks = dom m"
    and "fs_tree d (cbor_path c) = Some (File (jl_to_cbor L (cache_document ks m)))"
    and "\<not> fs_deny_read d (cbor_path c)"
  shows "cache_load L c d = (Inr (), c\<lparr>bc_entries := m\<rparr>)"
  using assms cache_document_canon [of ks m] load_cache_document [OF assms(2,3)]
  by (simp add: cache_load_def file_exists_def read_file_def json_lib_ok_def)

definition indexed :: "build_cache \<Rightarrow> bool" where
  "indexed c \<longleftrightarrow> bc_index_path c = bc_cache_dir c @ ''/index.json''"

lemma save_paths:
  assumes i: "indexed c" and p: "p = bc_index_path c @ s" and s: "CHR ''/'' \<notin> set s"
  shows "length (path_parent p) < length (bc_index_path c)"
    "length (path_parent p) < length (cbor_path c)"
proof -
  have "CHR ''/'' \<notin> set (''index.json'' @ s)" using s by simp
  from path_parent_in(1) [OF this, of "bc_cache_dir c"] i p
  show "length (path_parent p) < length (bc_index_path c)"
    by (simp add: indexed_def)
  then show "length (path_parent p) < length (cbor_path c)" by (simp add: cbor_path_def)
qed

text \<open>Nothing a write to a temporary file does, complete or not, is seen by \<open>load\<close>.\<close>

lemma write_tmp_view:
  assumes i: "indexed c" and p: "p = bc_index_path c @ s" "CHR ''/'' \<notin> set s"
    and ne: "p \<noteq> cbor_path c" "p \<noteq> bc_index_path c"
  shows "same_view c d (snd (make_dirs (take k (dirs_of (path_parent p))) d))"
    and "write_file p content d = (r, d') \<Longrightarrow> same_view c d d'"
    and "write_file p content d = (Inr u, d') \<Longrightarrow>
      same_view c d (d'\<lparr>fs_tree := (fs_tree d')(p \<mapsto> File x)\<rparr>) \<and> fs_tree d' p = Some (File content)"
proof -
  note l = save_paths [OF i p]
  show v1: "same_view c d (snd (make_dirs (take k (dirs_of (path_parent p))) d))" for k
  proof -
    obtain b d' where m: "make_dirs (take k (dirs_of (path_parent p))) d = (b, d')"
      by (cases "make_dirs (take k (dirs_of (path_parent p))) d")
    have "q \<notin> set (take k (dirs_of (path_parent p)))" if "length (path_parent p) < length q" for q
      using that dirs_of_length [of q "path_parent p"] by (auto dest: in_set_takeD)
    with make_dirs_frame [OF m] l m show ?thesis by (simp add: same_view_def)
  qed
  show v2: "same_view c d d'" if w: "write_file p content d = (r, d')" for r d'
  proof (rule write_file_cases [OF w], goal_cases)
    case (1 d1)
    then show ?case using l ne by (cases "r = Inr ()") (auto simp: same_view_def)
  qed
  assume w: "write_file p content d = (Inr u, d')"
  have "fs_tree d' p = Some (File content)"
    using w by (rule write_file_cases) auto
  with v2 [OF w] ne show "same_view c d (d'\<lparr>fs_tree := (fs_tree d')(p \<mapsto> File x)\<rparr>) \<and> fs_tree d' p = Some (File content)"
    by (auto simp: same_view_def)
qed

lemma rename_tmp:
  assumes "rename_file a b d = (True, d')"
  shows "fs_tree d' b = fs_tree d a" "\<And>q. q \<noteq> a \<Longrightarrow> q \<noteq> b \<Longrightarrow> fs_tree d' q = fs_tree d q"
    "fs_deny_read d' = fs_deny_read d"
  using assms by (auto simp: rename_file_def split: if_splits)

text \<open>The second half of \<open>save\<close>, the JSON copy, starts once the CBOR file is the new one.\<close>

definition json_ops :: "json_lib \<Rightarrow> json \<Rightarrow> build_cache \<Rightarrow> fs_op list" where
  "json_ops L j c =
     (case jl_dump L j of
        None \<Rightarrow> []
      | Some t \<Rightarrow> [Op_write (bc_index_path c @ ''.tmp'') t, Op_rename (bc_index_path c @ ''.tmp'') (bc_index_path c)])"

definition cbor_new :: "json_lib \<Rightarrow> json \<Rightarrow> build_cache \<Rightarrow> (string \<Rightarrow> bool) \<Rightarrow> fs \<Rightarrow> bool" where
  "cbor_new L j c deny x \<longleftrightarrow>
     fs_tree x (cbor_path c) = Some (File (jl_to_cbor L j)) \<and> fs_deny_read x = deny"

lemma cbor_new_view: "same_view c d x \<Longrightarrow> cbor_new L j c deny d \<Longrightarrow> cbor_new L j c deny x"
  by (simp add: cbor_new_def same_view_def)

lemma json_ops_cbor_new:
  assumes i: "indexed c" and y: "y \<in> crash_states (json_ops L j c) d" and new: "cbor_new L j c deny d"
  shows "cbor_new L j c deny y"
proof (cases "jl_dump L j")
  case None
  with y new show ?thesis by (simp add: json_ops_def)
next
  case (Some t)
  let ?jt = "bc_index_path c @ ''.tmp''"
  have ne: "?jt \<noteq> cbor_path c" "?jt \<noteq> bc_index_path c" "cbor_path c \<noteq> bc_index_path c"
    by (simp_all add: cbor_path_def)
  have "CHR ''/'' \<notin> set ''.tmp''" by simp
  note vj = write_tmp_view [OF i refl this ne(1,2)]
  obtain r3 d3 where w3: "write_file ?jt t d = (r3, d3)" by (cases "write_file ?jt t d")
  from y Some w3 consider k where "y = snd (make_dirs (take k (dirs_of (path_parent ?jt))) d)"
    | "y = d3"
    | n u where "r3 = Inr u" "y = d3\<lparr>fs_tree := (fs_tree d3)(?jt \<mapsto> File (take n t))\<rparr>"
    | d4 where "rename_file ?jt (bc_index_path c) d3 = (True, d4)" "y = d4"
    by (auto simp: json_ops_def split: sum.splits prod.splits if_splits)
  then show ?thesis
  proof cases
    case 1
    with cbor_new_view [OF vj(1) new] show ?thesis by simp
  next
    case 2
    with cbor_new_view [OF vj(2) [OF w3] new] show ?thesis by simp
  next
    case 3
    with vj(3) [OF w3 [unfolded 3(1)]] cbor_new_view [OF _ new] show ?thesis by blast
  next
    case 4
    have "cbor_new L j c deny d3" by (rule cbor_new_view [OF vj(2) [OF w3] new])
    with rename_tmp [OF 4(1)] 4(2) ne show ?thesis by (simp add: cbor_new_def)
  qed
qed

lemma save_ops_split:
  "save_ops L ks c = Op_write (bc_index_path c @ ''.cbor.tmp'') (jl_to_cbor L (cache_document ks (bc_entries c))) #
     Op_rename (bc_index_path c @ ''.cbor.tmp'') (cbor_path c) # json_ops L (cache_document ks (bc_entries c)) c"
  by (simp add: save_ops_def json_ops_def cbor_path_def Let_def split: option.split)

lemma cbor_written:
  assumes i: "indexed c" and w: "write_file (bc_index_path c @ ''.cbor.tmp'') (jl_to_cbor L j) d = (Inr u, d1)"
    and rn: "rename_file (bc_index_path c @ ''.cbor.tmp'') (cbor_path c) d1 = (True, d2)"
  shows "cbor_new L j c (fs_deny_read d) d2"
proof -
  have "CHR ''/'' \<notin> set ''.cbor.tmp''" "bc_index_path c @ ''.cbor.tmp'' \<noteq> cbor_path c"
    "bc_index_path c @ ''.cbor.tmp'' \<noteq> bc_index_path c" by (simp_all add: cbor_path_def)
  note v = write_tmp_view [OF i refl this]
  from rename_tmp(1,3) [OF rn] v(2,3) [OF w] show ?thesis by (simp add: same_view_def cbor_new_def)
qed

text \<open>The states in which a crash can leave the disk, seen through \<open>load\<close>.\<close>

lemma crash_save_view:
  assumes i: "indexed c" and x: "x \<in> crash_states (save_ops L ks c) d"
  shows "same_view c d x \<or> cbor_new L (cache_document ks (bc_entries c)) c (fs_deny_read d) x"
proof -
  let ?tmp = "bc_index_path c @ ''.cbor.tmp''" and ?j = "cache_document ks (bc_entries c)"
  have "CHR ''/'' \<notin> set ''.cbor.tmp''" "?tmp \<noteq> cbor_path c" "?tmp \<noteq> bc_index_path c"
    by (simp_all add: cbor_path_def)
  note v = write_tmp_view [OF i refl this]
  obtain r1 d1 where w: "write_file ?tmp (jl_to_cbor L ?j) d = (r1, d1)" by (cases "write_file ?tmp (jl_to_cbor L ?j) d")
  from x w consider k where "x = snd (make_dirs (take k (dirs_of (path_parent ?tmp))) d)"
    | "x = d1"
    | n u where "r1 = Inr u" "x = d1\<lparr>fs_tree := (fs_tree d1)(?tmp \<mapsto> File (take n (jl_to_cbor L ?j)))\<rparr>"
    | u d2 where "r1 = Inr u" "rename_file ?tmp (cbor_path c) d1 = (True, d2)" "x \<in> crash_states (json_ops L ?j c) d2"
    unfolding save_ops_split by (auto split: sum.splits prod.splits if_splits)
  then show ?thesis
  proof cases
    case 1
    with v(1) show ?thesis by blast
  next
    case 2
    with v(2) [OF w] show ?thesis by blast
  next
    case 3
    with v(3) [OF w [unfolded 3(1)]] show ?thesis by blast
  next
    case 4
    with json_ops_cbor_new [OF i 4(3) cbor_written [OF i w [unfolded 4(1)] 4(2)]] show ?thesis by blast
  qed
qed

lemma cache_save_view:
  assumes i: "indexed c" and s: "cache_save L ks c d = (Some (Inr ()), d')"
  shows "cbor_new L (cache_document ks (bc_entries c)) c (fs_deny_read d) d'"
proof -
  let ?tmp = "bc_index_path c @ ''.cbor.tmp''" and ?j = "cache_document ks (bc_entries c)"
  have t: "cbor_path c @ ''.tmp'' = ?tmp" by (simp add: cbor_path_def)
  obtain r1 d1 where w: "write_file ?tmp (jl_to_cbor L ?j) d = (r1, d1)" by (cases "write_file ?tmp (jl_to_cbor L ?j) d")
  obtain b d2 where rn: "rename_file ?tmp (cbor_path c) d1 = (b, d2)" by (cases "rename_file ?tmp (cbor_path c) d1")
  from s w rn obtain u where r1: "r1 = Inr u" and b: "b"
    by (cases r1; cases b) (simp_all add: cache_save_def Let_def t)
  from s w rn r1 b obtain doc where dump: "jl_dump L ?j = Some doc"
    by (cases "jl_dump L ?j") (simp_all add: cache_save_def Let_def t)
  let ?jt = "bc_index_path c @ ''.tmp''"
  obtain r3 d3 where w3: "write_file ?jt doc d2 = (r3, d3)" by (cases "write_file ?jt doc d2")
  obtain b4 d4 where rn4: "rename_file ?jt (bc_index_path c) d3 = (b4, d4)"
    by (cases "rename_file ?jt (bc_index_path c) d3")
  have b4: "\<not> b4 \<Longrightarrow> d4 = d3" using rn4 by (auto simp: rename_file_def split: if_splits)
  have "d' = (case r3 of Inl _ \<Rightarrow> d3 | Inr _ \<Rightarrow> d4)"
    using s w rn r1 b dump w3 rn4 by (simp add: cache_save_def Let_def t split: sum.splits)
  then have "d' \<in> crash_states (json_ops L ?j c) d2"
    using w3 rn4 b4 by (cases r3; cases b4) (auto simp: json_ops_def dump)
  then show ?thesis
    by (rule json_ops_cbor_new [OF i]) (rule cbor_written [OF i w [unfolded r1]], use rn b in simp)
qed

text \<open>C6: Saving the cache is atomic.  If the process dies at any point of \<open>save\<close>, even in the
  middle of a write, a later \<open>load\<close> gives either exactly what it gave before the save or exactly the
  saved table; and after a completed save that reports success, it gives the saved table.\<close>

theorem save_atomic:
  assumes "json_lib_ok L" "keyed (bc_entries c)" "set ks = dom (bc_entries c)" "indexed c"
    and "\<not> fs_deny_read d (cbor_path c)" "bc_index_path c0 = bc_index_path c"
  shows "(x \<in> crash_states (save_ops L ks c) d \<longrightarrow>
      cache_load L c0 x = cache_load L c0 d \<or>
      cache_load L c0 x = (Inr (), c0\<lparr>bc_entries := bc_entries c\<rparr>)) \<and>
    (cache_save L ks c d = (Some (Inr ()), d') \<longrightarrow>
      cache_load L c0 d' = (Inr (), c0\<lparr>bc_entries := bc_entries c\<rparr>))"
proof (intro conjI impI)
  have p: "cbor_path c0 = cbor_path c" using assms(6) by (simp add: cbor_path_def)
  have new: "cache_load L c0 y = (Inr (), c0\<lparr>bc_entries := bc_entries c\<rparr>)"
    if "cbor_new L (cache_document ks (bc_entries c)) c (fs_deny_read d) y" for y
    using assms(5) that by (intro cache_load_new [OF assms(1-3)]) (simp_all add: p cbor_new_def)
  show "cache_load L c0 x = cache_load L c0 d \<or> cache_load L c0 x = (Inr (), c0\<lparr>bc_entries := bc_entries c\<rparr>)"
    if x: "x \<in> crash_states (save_ops L ks c) d"
  proof -
    have "same_view c0 d x" if "same_view c d x" using that assms(6) by (simp add: same_view_def p)
    with crash_save_view [OF assms(4) x] new cache_load_view show ?thesis by blast
  qed
  show "cache_load L c0 d' = (Inr (), c0\<lparr>bc_entries := bc_entries c\<rparr>)"
    if "cache_save L ks c d = (Some (Inr ()), d')"
    by (rule new [OF cache_save_view [OF assms(4) that]])
qed

lemma save_atomic_witness:
  "let c = \<lparr>bc_cache_dir = ''c'', bc_index_path = ''c/index.json'', bc_entries = Map.empty\<rparr>;
       d = \<lparr>fs_tree = Map.empty, fs_deny_read = (\<lambda>p. False), fs_deny_write = (\<lambda>p. False)\<rparr>;
       x = snd (cache_save unary_lib [] c d)
   in cache_load unary_lib c x = cache_load unary_lib c d \<or>
      cache_load unary_lib c x = (Inr (), c\<lparr>bc_entries := bc_entries c\<rparr>)"
proof -
  let ?c = "\<lparr>bc_cache_dir = ''c'', bc_index_path = ''c/index.json'', bc_entries = Map.empty\<rparr>"
  let ?d = "\<lparr>fs_tree = Map.empty, fs_deny_read = (\<lambda>p. False), fs_deny_write = (\<lambda>p. False)\<rparr>"
  have "keyed (bc_entries ?c)" "set [] = dom (bc_entries ?c)" "indexed ?c" "\<not> fs_deny_read ?d (cbor_path ?c)"
    by (simp_all add: keyed_def indexed_def)
  from save_atomic [OF unary_lib_ok this refl] cache_save_crash_states show ?thesis
    unfolding Let_def by blast
qed

end
