(* ===== verification/Nift_Pipeline.thy ===== *)
theory Nift_Pipeline
  imports Nift_Cache
begin

text \<open>
  The build pipeline, \<open>crates/build/pipeline/pipeline.cpp\<close>.  \<open>build_one\<close> is a step on the pair of the
  cache and the disk; \<open>Pipeline::build\<close> submits one task per input to the worker pool, so it is a
  fold of the steps in the order \<open>sched\<close> in which the workers happen to run them (each task taken
  as atomic), and the report is collected in the order of the inputs.  The lemmas show that the
  report accounts for every input, that the order does not matter when the output files are
  distinct, that it does matter when they are not, and that a second build is served by the cache.
\<close>

datatype file_status = Built | Cached | Failed

record file_result =
  fr_source :: string
  fr_status :: file_status
  fr_error :: string

record build_report =
  br_built :: nat
  br_cached :: nat
  br_failed :: nat
  br_results :: "file_result list"

text \<open>The fields of \<open>Pipeline\<close> a task uses: the output directory, the operating system's answer to
  \<open>mmap\<close>, and BLAKE3.\<close>

record pipeline =
  pl_output_dir :: string
  pl_mmap :: "string \<Rightarrow> bool"
  pl_blake3 :: hasher

text \<open>A source that is its own output is truncated while it is mapped; what the process then reads is
  not modelled, and \<open>all_independent\<close> below excludes it.\<close>

type_synonym build_state = "build_cache option \<times> fs"

definition failed :: "string \<Rightarrow> string \<Rightarrow> file_result" where
  "failed source msg = \<lparr>fr_source = source, fr_status = Failed, fr_error = msg\<rparr>"

definition output_path :: "pipeline \<Rightarrow> string \<Rightarrow> string" where
  "output_path P source = pl_output_dir P @ ''/'' @ path_filename source"

definition tracked :: "pipeline \<Rightarrow> string \<Rightarrow> string \<Rightarrow> tracked_file" where
  "tracked P source content_hash =
     \<lparr>tf_source = source, tf_output = output_path P source, tf_content_hash = content_hash,
      tf_deps_hash = content_hash, tf_mtime = 0, tf_built_at = 0\<rparr>"

fun build_one :: "pipeline \<Rightarrow> string \<Rightarrow> build_state \<Rightarrow> file_result \<times> build_state" where
  "build_one P source (cache, d) =
     (case mmap_open (pl_mmap P) source d of
        Inl e \<Rightarrow> (failed source ''open failed'', cache, d)
      | Inr reader \<Rightarrow>
          let content_hash = hash_content (pl_blake3 P) (mr_data reader) in
          if (case cache of Some c \<Rightarrow> \<not> is_dirty source content_hash c | None \<Rightarrow> False)
          then (\<lparr>fr_source = source, fr_status = Cached, fr_error = []\<rparr>, cache, d)
          else
            let d = snd (create_directories (pl_output_dir P) d);
                (st, d) = write_file (output_path P source) (mr_data reader) d
            in case st of
                 Inl e \<Rightarrow> (failed source ''write failed'', cache, d)
               | Inr _ \<Rightarrow>
                   (\<lparr>fr_source = source, fr_status = Built, fr_error = []\<rparr>,
                    map_option (cache_put (tracked P source content_hash)) cache, d))"

text \<open>The tasks in the order they run, each with the future it fulfils.\<close>

definition run_task :: "pipeline \<Rightarrow> string list \<Rightarrow> nat \<Rightarrow>
    (nat \<rightharpoonup> file_result) \<times> build_state \<Rightarrow> (nat \<rightharpoonup> file_result) \<times> build_state" where
  "run_task P inputs i s =
     (let (r, st) = build_one P (inputs ! i) (snd s) in ((fst s)(i \<mapsto> r), st))"

fun count_result :: "file_result \<Rightarrow> build_report \<Rightarrow> build_report" where
  "count_result r report =
     (let report = (case fr_status r of
          Built \<Rightarrow> report\<lparr>br_built := Suc (br_built report)\<rparr>
        | Cached \<Rightarrow> report\<lparr>br_cached := Suc (br_cached report)\<rparr>
        | Failed \<Rightarrow> report\<lparr>br_failed := Suc (br_failed report)\<rparr>)
      in report\<lparr>br_results := br_results report @ [r]\<rparr>)"

definition build :: "pipeline \<Rightarrow> string list \<Rightarrow> nat list \<Rightarrow> build_state \<Rightarrow> build_report \<times> build_state" where
  "build P inputs sched st =
     (let (futures, st) = fold (run_task P inputs) sched (Map.empty, st)
      in (fold count_result (map (\<lambda>i. the (futures i)) [0..<length inputs])
            \<lparr>br_built = 0, br_cached = 0, br_failed = 0, br_results = []\<rparr>, st))"

section \<open>The report\<close>

lemma build_one_source: "fr_source (fst (build_one P source st)) = source"
  by (cases st)
     (auto simp: failed_def Let_def split: sum.split prod.split option.split)

lemma run_task_simps [simp]:
  "fst (run_task P inputs i s) = (fst s)(i \<mapsto> fst (build_one P (inputs ! i) (snd s)))"
  "snd (run_task P inputs i s) = snd (build_one P (inputs ! i) (snd s))"
  by (simp_all add: run_task_def split: prod.split)

lemma count_results: "br_results (fold count_result rs report) = br_results report @ rs"
  by (induction rs arbitrary: report) (auto simp: Let_def split: file_status.split)

definition br_total :: "build_report \<Rightarrow> nat" where
  "br_total report = br_built report + br_cached report + br_failed report"

lemma count_total: "br_total (fold count_result rs report) = br_total report + length rs"
proof (induction rs arbitrary: report)
  case (Cons r rs)
  have "br_total (count_result r report) = Suc (br_total report)"
    by (cases "fr_status r") (simp_all add: br_total_def)
  with Cons show ?case by simp
qed simp

lemma run_tasks_futures:
  "i \<in> set sched \<Longrightarrow> \<exists>r. fst (fold (run_task P inputs) sched s) i = Some r \<and> fr_source r = inputs ! i"
  by (induction sched rule: rev_induct) (auto simp: build_one_source)

text \<open>The report accounts for every input.  Whatever the order in which the workers run the
  tasks, the report lists one result per input, in the order of the inputs, and the three counters
  add up to their number.\<close>

lemma build_report_complete:
  assumes "set sched = {0..<length inputs}"
  shows "map fr_source (br_results (fst (build P inputs sched st))) = inputs \<and>
    br_built (fst (build P inputs sched st)) + br_cached (fst (build P inputs sched st)) +
      br_failed (fst (build P inputs sched st)) = length inputs"
proof -
  obtain m st' where f: "fold (run_task P inputs) sched (Map.empty, st) = (m, st')"
    by (cases "fold (run_task P inputs) sched (Map.empty, st)")
  have "map (\<lambda>i. fr_source (the (m i))) [0..<length inputs] = map ((!) inputs) [0..<length inputs]"
  proof (rule map_cong [OF refl])
    fix i assume "i \<in> set [0..<length inputs]"
    then show "fr_source (the (m i)) = inputs ! i"
      using run_tasks_futures [of i sched P inputs "(Map.empty, st)"] f assms by auto
  qed
  then have "map (\<lambda>i. fr_source (the (m i))) [0..<length inputs] = inputs" by (simp add: map_nth)
  with count_total [of "map (\<lambda>i. the (m i)) [0..<length inputs]"
      "\<lparr>br_built = 0, br_cached = 0, br_failed = 0, br_results = []\<rparr>"] f
  show ?thesis by (simp add: build_def Let_def comp_def count_results br_total_def)
qed

lemma build_report_complete_witness:
  "map fr_source (br_results (fst (build
      \<lparr>pl_output_dir = ''o'', pl_mmap = (\<lambda>p. False), pl_blake3 = (\<lambda>s. replicate 32 0)\<rparr> [''a'', ''b''] [1, 0]
      (None, \<lparr>fs_tree = Map.empty, fs_deny_read = (\<lambda>p. False), fs_deny_write = (\<lambda>p. False)\<rparr>)))) = [''a'', ''b'']"
  using build_report_complete [of "[1, 0]" "[''a'', ''b'']"] by force

section \<open>One task seen from another\<close>

text \<open>
  \<open>dirs_ext S d d'\<close>: on the paths in \<open>S\<close> the disk \<open>d'\<close> has what \<open>d\<close> has, and perhaps further
  directories.  Making directories succeeds or fails alike on both.
\<close>

definition dirs_ext :: "string set \<Rightarrow> fs \<Rightarrow> fs \<Rightarrow> bool" where
  "dirs_ext S d d' \<longleftrightarrow> fs_deny_read d' = fs_deny_read d \<and> fs_deny_write d' = fs_deny_write d \<and>
     (\<forall>q\<in>S. fs_tree d' q = fs_tree d q \<or>
        fs_tree d q = None \<and> fs_tree d' q = Some Dir \<and> \<not> fs_deny_write d q)"

lemma dirs_ext_refl: "dirs_ext S d d"
  by (simp add: dirs_ext_def)

lemma dirs_ext_trans: "dirs_ext S d d' \<Longrightarrow> dirs_ext S d' d'' \<Longrightarrow> dirs_ext S d d''"
  unfolding dirs_ext_def by force

lemma make_dirs_ext: "make_dirs ps d = (b, d') \<Longrightarrow> dirs_ext S d d'"
proof (induction ps arbitrary: d)
  case (Cons p ps)
  show ?case
  proof (cases "fs_tree d p")
    case None
    show ?thesis
    proof (cases "fs_deny_write d p")
      case False
      then have "dirs_ext S d (d\<lparr>fs_tree := (fs_tree d)(p \<mapsto> Dir)\<rparr>)" using None by (simp add: dirs_ext_def)
      with False None Cons show ?thesis using dirs_ext_trans by auto
    qed (use Cons None in \<open>simp add: dirs_ext_refl\<close>)
  next
    case (Some e)
    with Cons show ?thesis by (cases e) (auto simp: dirs_ext_refl)
  qed
qed (simp add: dirs_ext_refl)

lemma make_dirs_again:
  "make_dirs ps d = (b, d') \<Longrightarrow> set ps \<subseteq> S \<Longrightarrow> dirs_ext S d' d'' \<Longrightarrow> make_dirs ps d'' = (b, d'')"
proof (induction ps arbitrary: d)
  case (Cons p ps)
  have p: "p \<in> S" using Cons.prems by simp
  show ?case
  proof (cases "fs_tree d p")
    case None
    show ?thesis
    proof (cases "fs_deny_write d p")
      case True
      with None Cons.prems p show ?thesis by (auto simp: dirs_ext_def)
    next
      case False
      let ?d = "d\<lparr>fs_tree := (fs_tree d)(p \<mapsto> Dir)\<rparr>"
      have m: "make_dirs ps ?d = (b, d')" using None False Cons.prems by simp
      with make_dirs_frame [OF m] have "fs_tree d' p = Some Dir" by simp
      with Cons.prems p have "fs_tree d'' p = Some Dir" by (force simp: dirs_ext_def)
      with Cons.IH [OF m] Cons.prems show ?thesis by simp
    qed
  next
    case (Some e)
    show ?thesis
    proof (cases e)
      case (File c)
      with Some Cons.prems p show ?thesis by (force simp: dirs_ext_def)
    next
      case Dir
      with Some Cons.prems have m: "make_dirs ps d = (b, d')" by simp
      with make_dirs_frame [OF m] Some Dir have "fs_tree d' p = Some Dir" by simp
      with Cons.prems p have "fs_tree d'' p = Some Dir" by (force simp: dirs_ext_def)
      with Cons.IH [OF m] Cons.prems show ?thesis by simp
    qed
  qed
qed simp

text \<open>The directories a task makes: those of the output directory, then those above its file.\<close>

definition out_parent :: "pipeline \<Rightarrow> string" where
  "out_parent P = path_parent (pl_output_dir P @ ''/'')"

definition out_dirs :: "pipeline \<Rightarrow> fs \<Rightarrow> bool \<times> fs" where
  "out_dirs P d = make_dirs (dirs_of (out_parent P)) (snd (make_dirs (dirs_of (pl_output_dir P)) d))"

definition out_dir_paths :: "pipeline \<Rightarrow> string set" where
  "out_dir_paths P = set (dirs_of (pl_output_dir P)) \<union> set (dirs_of (out_parent P))"

lemma path_parent_output: "path_parent (output_path P source) = out_parent P"
proof -
  have "CHR ''/'' \<notin> set (path_filename source)"
    by (auto simp: path_filename_def dest: set_takeWhileD)
  then show ?thesis
    by (simp add: out_parent_def output_path_def path_parent_def dropWhile_append Let_def)
qed

lemma out_parent_props: "out_parent P \<noteq> []" "length (out_parent P) \<le> Suc (length (pl_output_dir P))"
  using path_parent_in [of "[]" "pl_output_dir P"] by (simp_all add: out_parent_def)

lemma output_not_dir: "path_filename source \<noteq> [] \<Longrightarrow> output_path P source \<notin> out_dir_paths P"
  using dirs_of_length [of "output_path P source" "pl_output_dir P"]
    dirs_of_length [of "output_path P source" "out_parent P"] out_parent_props(2) [of P]
  by (cases "path_filename source") (auto simp: output_path_def out_dir_paths_def)

lemma out_dirs_ext: "dirs_ext S d (snd (out_dirs P d))"
  unfolding out_dirs_def
  by (rule dirs_ext_trans [of _ _ "snd (make_dirs (dirs_of (pl_output_dir P)) d)"]; rule make_dirs_ext)
     (simp_all add: prod_eq_iff)

lemma out_dirs_again:
  assumes "dirs_ext (out_dir_paths P) (snd (out_dirs P d)) d'"
  shows "out_dirs P d' = (fst (out_dirs P d), d')"
proof -
  obtain b1 d1 where m1: "make_dirs (dirs_of (pl_output_dir P)) d = (b1, d1)"
    by (cases "make_dirs (dirs_of (pl_output_dir P)) d")
  obtain b2 d2 where m2: "make_dirs (dirs_of (out_parent P)) d1 = (b2, d2)"
    by (cases "make_dirs (dirs_of (out_parent P)) d1")
  have o: "out_dirs P d = (b2, d2)" by (simp add: out_dirs_def m1 m2)
  with assms have e: "dirs_ext (out_dir_paths P) d2 d'" by simp
  have "make_dirs (dirs_of (pl_output_dir P)) d' = (b1, d')"
    by (rule make_dirs_again [OF m1 _ dirs_ext_trans [OF make_dirs_ext [OF m2] e]]) (simp add: out_dir_paths_def)
  moreover have "make_dirs (dirs_of (out_parent P)) d' = (b2, d')"
    by (rule make_dirs_again [OF m2 _ e]) (simp add: out_dir_paths_def)
  ultimately have "out_dirs P d' = (b2, d')" by (simp add: out_dirs_def)
  with o show ?thesis by simp
qed

text \<open>What a task finds before it writes: a result, or the bytes to write.\<close>

fun probe :: "pipeline \<Rightarrow> string \<Rightarrow> build_state \<Rightarrow> file_result + string" where
  "probe P source (cache, d) =
     (case mmap_open (pl_mmap P) source d of
        Inl e \<Rightarrow> Inl (failed source ''open failed'')
      | Inr reader \<Rightarrow>
          if (case cache of Some c \<Rightarrow> \<not> is_dirty source (hash_content (pl_blake3 P) (mr_data reader)) c | None \<Rightarrow> False)
          then Inl \<lparr>fr_source = source, fr_status = Cached, fr_error = []\<rparr>
          else Inr (mr_data reader))"

definition writable :: "pipeline \<Rightarrow> string \<Rightarrow> fs \<Rightarrow> bool" where
  "writable P source d \<longleftrightarrow> fst (out_dirs P d) \<and>
     fs_tree (snd (out_dirs P d)) (output_path P source) \<noteq> Some Dir \<and> \<not> fs_deny_write d (output_path P source)"

lemma build_one_probe:
  "build_one P source (cache, d) =
     (case probe P source (cache, d) of
        Inl r \<Rightarrow> (r, cache, d)
      | Inr s \<Rightarrow>
          if writable P source d
          then (\<lparr>fr_source = source, fr_status = Built, fr_error = []\<rparr>,
                map_option (cache_put (tracked P source (hash_content (pl_blake3 P) s))) cache,
                (snd (out_dirs P d))\<lparr>fs_tree := (fs_tree (snd (out_dirs P d)))(output_path P source \<mapsto> File s)\<rparr>)
          else (failed source ''write failed'', cache, snd (out_dirs P d)))"
proof -
  have deny: "fs_deny_write (snd (out_dirs P d)) = fs_deny_write d"
    using out_dirs_ext [of "{}" d P] by (simp add: dirs_ext_def)
  have cd: "snd (create_directories (pl_output_dir P) d) = snd (make_dirs (dirs_of (pl_output_dir P)) d)"
    by (simp add: create_directories_def split: prod.split)
  have w: "write_file (output_path P source) s (snd (create_directories (pl_output_dir P) d)) =
      (if writable P source d
       then (Inr (), (snd (out_dirs P d))\<lparr>fs_tree := (fs_tree (snd (out_dirs P d)))(output_path P source \<mapsto> File s)\<rparr>)
       else (Inl io_error, snd (out_dirs P d)))" for s
    using out_parent_props(1) [of P] deny unfolding cd
    by (auto simp: write_file_def path_parent_output create_directories_def writable_def out_dirs_def
        split: prod.splits)
  show ?thesis by (simp add: w Let_def split: sum.split)
qed

text \<open>Two inputs whose tasks do not touch each other's files.\<close>

definition independent :: "pipeline \<Rightarrow> string \<Rightarrow> string \<Rightarrow> bool" where
  "independent P a b \<longleftrightarrow> a \<noteq> b \<and> output_path P a \<noteq> output_path P b \<and>
     a \<noteq> output_path P b \<and> b \<noteq> output_path P a \<and> path_filename a \<noteq> [] \<and> path_filename b \<noteq> []"

lemma independent_sym: "independent P a b \<Longrightarrow> independent P b a"
  by (auto simp: independent_def)

text \<open>The disk after a task: the directories, and perhaps the output file.\<close>

lemma build_one_disk:
  obtains (none) r where "probe P a (c, d) = Inl r" "build_one P a (c, d) = (r, c, d)"
  | (wrote) s where "probe P a (c, d) = Inr s" "writable P a d"
      "build_one P a (c, d) = (\<lparr>fr_source = a, fr_status = Built, fr_error = []\<rparr>,
         map_option (cache_put (tracked P a (hash_content (pl_blake3 P) s))) c,
         (snd (out_dirs P d))\<lparr>fs_tree := (fs_tree (snd (out_dirs P d)))(output_path P a \<mapsto> File s)\<rparr>)"
  | (failed) s where "probe P a (c, d) = Inr s" "\<not> writable P a d"
      "build_one P a (c, d) = (failed a ''write failed'', c, snd (out_dirs P d))"
  by (cases "probe P a (c, d)"; cases "writable P a d") (auto simp: build_one_probe simp del: build_one.simps)

lemma mmap_open_ext:
  assumes "fs_deny_read d' = fs_deny_read d"
    "fs_tree d' b = fs_tree d b \<or> fs_tree d b = None \<and> fs_tree d' b = Some Dir"
  shows "mmap_open mm b d' = mmap_open mm b d \<or>
    (\<exists>e e'. mmap_open mm b d = Inl e \<and> mmap_open mm b d' = Inl e')"
  using assms(2)
proof
  assume "fs_tree d' b = fs_tree d b"
  with assms(1) show ?thesis
    by (simp add: mmap_open_def file_exists_def read_file_def split: option.split fs_entry.split)
qed (simp add: mmap_open_def file_exists_def read_file_def)

text \<open>The next task finds the same, whether or not \<open>a\<close> ran before.\<close>

lemma probe_after:
  assumes ind: "independent P a b"
  shows "probe P b (snd (build_one P a (c, d))) = probe P b (c, d)"
proof -
  let ?d = "snd (out_dirs P d)"
  have tree: "fs_tree ?d b = fs_tree d b \<or> fs_tree d b = None \<and> fs_tree ?d b = Some Dir"
    using out_dirs_ext [of "{b}" d P] by (auto simp: dirs_ext_def)
  have b: "b \<noteq> output_path P a" using ind by (simp add: independent_def)
  have deny: "fs_deny_read (snd (out_dirs P d)) = fs_deny_read d"
    using out_dirs_ext [of "{}" d P] by (simp add: dirs_ext_def)
  have ne: "b \<noteq> tf_source (tracked P a h)" for h using ind by (auto simp: independent_def tracked_def)
  have cache: "(case map_option (cache_put (tracked P a h)) c of Some c \<Rightarrow> \<not> is_dirty b h' c | None \<Rightarrow> False) \<longleftrightarrow>
      (case c of Some c \<Rightarrow> \<not> is_dirty b h' c | None \<Rightarrow> False)" for h h'
    by (cases c) (simp_all add: cache.dirty_put_other [OF ne])
  have open_same: "probe P b (c', d') = probe P b (c, d)"
    if "mmap_open (pl_mmap P) b d' = mmap_open (pl_mmap P) b d \<or>
      (\<exists>e e'. mmap_open (pl_mmap P) b d = Inl e \<and> mmap_open (pl_mmap P) b d' = Inl e')"
      "\<And>h'. (case c' of Some c \<Rightarrow> \<not> is_dirty b h' c | None \<Rightarrow> False) \<longleftrightarrow>
        (case c of Some c \<Rightarrow> \<not> is_dirty b h' c | None \<Rightarrow> False)" for c' d'
    using that(1)
  proof
    assume "mmap_open (pl_mmap P) b d' = mmap_open (pl_mmap P) b d"
    then show ?thesis unfolding probe.simps that(2) by simp
  qed (elim exE conjE, simp)
  show ?thesis
  proof (cases rule: build_one_disk [of P a c d])
    case none
    then show ?thesis by simp
  next
    case (wrote s)
    show ?thesis unfolding wrote(3) snd_conv
      by (rule open_same [OF mmap_open_ext cache]) (simp_all add: deny tree b)
  next
    case (failed s)
    show ?thesis unfolding failed(3) snd_conv
      by (rule open_same [OF mmap_open_ext refl]) (simp_all add: deny tree)
  qed
qed

text \<open>Once a task has made the directories, they stay as they are.\<close>

lemma dirs_after_write:
  assumes "path_filename a \<noteq> []"
  shows "out_dirs P ((snd (out_dirs P d))\<lparr>fs_tree := (fs_tree (snd (out_dirs P d)))(output_path P a \<mapsto> e)\<rparr>) =
    (fst (out_dirs P d), (snd (out_dirs P d))\<lparr>fs_tree := (fs_tree (snd (out_dirs P d)))(output_path P a \<mapsto> e)\<rparr>)"
    "out_dirs P (snd (out_dirs P d)) = (fst (out_dirs P d), snd (out_dirs P d))"
proof -
  have "dirs_ext (out_dir_paths P) (snd (out_dirs P d))
      ((snd (out_dirs P d))\<lparr>fs_tree := (fs_tree (snd (out_dirs P d)))(output_path P a \<mapsto> e)\<rparr>)"
    using output_not_dir [OF assms, of P] by (auto simp: dirs_ext_def)
  then show "out_dirs P ((snd (out_dirs P d))\<lparr>fs_tree := (fs_tree (snd (out_dirs P d)))(output_path P a \<mapsto> e)\<rparr>) =
    (fst (out_dirs P d), (snd (out_dirs P d))\<lparr>fs_tree := (fs_tree (snd (out_dirs P d)))(output_path P a \<mapsto> e)\<rparr>)"
    by (rule out_dirs_again)
  show "out_dirs P (snd (out_dirs P d)) = (fst (out_dirs P d), snd (out_dirs P d))"
    by (rule out_dirs_again [OF dirs_ext_refl])
qed

text \<open>So two independent tasks can be swapped: the same results, the same cache, the same disk.\<close>

definition after :: "pipeline \<Rightarrow> string \<Rightarrow> string \<Rightarrow> fs \<Rightarrow> fs" where
  "after P a s d = (if writable P a d
     then (snd (out_dirs P d))\<lparr>fs_tree := (fs_tree (snd (out_dirs P d)))(output_path P a \<mapsto> File s)\<rparr>
     else snd (out_dirs P d))"

lemma after_swap:
  assumes ind: "independent P a b"
  shows "out_dirs P (after P a s d) = (fst (out_dirs P d), after P a s d)"
    "writable P b (after P a s d) = writable P b d"
    "after P b t (after P a s d) = after P a s (after P b t d)"
proof -
  have deny: "fs_deny_write (snd (out_dirs P d)) = fs_deny_write d"
    using out_dirs_ext [of "{}" d P] by (simp add: dirs_ext_def)
  have o: "out_dirs P (after P x s d) = (fst (out_dirs P d), after P x s d)"
    if "path_filename x \<noteq> []" for x s
    using dirs_after_write [OF that] by (simp add: after_def)
  have w: "writable P y (after P x s d) = writable P y d" if "independent P x y" for x y s
    using that o [of x s] deny by (auto simp: writable_def independent_def after_def)
  have f: "path_filename a \<noteq> []" "path_filename b \<noteq> []" using ind by (auto simp: independent_def)
  show "out_dirs P (after P a s d) = (fst (out_dirs P d), after P a s d)" by (rule o [OF f(1)])
  show "writable P b (after P a s d) = writable P b d" by (rule w [OF ind])
  have "after P b t (after P a s d) =
      (if writable P b d then (after P a s d)\<lparr>fs_tree := (fs_tree (after P a s d))(output_path P b \<mapsto> File t)\<rparr>
       else after P a s d)"
    by (simp add: after_def [of P b t "after P a s d"] o [OF f(1)] w [OF ind])
  moreover have "after P a s (after P b t d) =
      (if writable P a d then (after P b t d)\<lparr>fs_tree := (fs_tree (after P b t d))(output_path P a \<mapsto> File s)\<rparr>
       else after P b t d)"
    by (simp add: after_def [of P a s "after P b t d"] o [OF f(2)] w [OF independent_sym [OF ind]])
  moreover have "output_path P a \<noteq> output_path P b" using ind by (simp add: independent_def)
  ultimately show "after P b t (after P a s d) = after P a s (after P b t d)"
    by (auto simp: after_def fun_upd_twist)
qed

lemma build_one_after:
  "build_one P a (c, d) =
     (case probe P a (c, d) of
        Inl r \<Rightarrow> (r, c, d)
      | Inr s \<Rightarrow>
          (if writable P a d then \<lparr>fr_source = a, fr_status = Built, fr_error = []\<rparr> else failed a ''write failed'',
           if writable P a d then map_option (cache_put (tracked P a (hash_content (pl_blake3 P) s))) c else c,
           after P a s d))"
  by (simp add: build_one_probe after_def split: sum.split del: build_one.simps)

lemma cache_put_swap:
  "tf_source e \<noteq> tf_source e' \<Longrightarrow>
     map_option (cache_put e) (map_option (cache_put e') c) = map_option (cache_put e') (map_option (cache_put e) c)"
  by (cases c) (simp_all add: cache_put_def fun_upd_twist)

lemma build_one_swap:
  assumes ind: "independent P a b"
  shows "fst (build_one P b (snd (build_one P a st))) = fst (build_one P b st)"
    "snd (build_one P b (snd (build_one P a st))) = snd (build_one P a (snd (build_one P b st)))"
proof -
  obtain c d where st: "st = (c, d)" by (cases st)
  have src: "tf_source (tracked P a h) \<noteq> tf_source (tracked P b h')" for h h'
    using ind by (simp add: tracked_def independent_def)
  note sym = independent_sym [OF ind]
  note swap = after_swap [OF ind] after_swap [OF sym]
  note probes = probe_after [OF ind, of c d] probe_after [OF sym, of c d]
  have one: "probe P a (c, d) = Inl r \<Longrightarrow> build_one P a (c, d) = (r, c, d)"
    "probe P b (c, d) = Inl r \<Longrightarrow> build_one P b (c, d) = (r, c, d)" for r
    by (simp_all add: build_one_after del: build_one.simps probe.simps)
  have both: "fst (build_one P b (snd (build_one P a (c, d)))) = fst (build_one P b (c, d)) \<and>
      snd (build_one P b (snd (build_one P a (c, d)))) = snd (build_one P a (snd (build_one P b (c, d))))"
  proof (cases "probe P a (c, d)")
    case (Inl r)
    with probes(2) have "probe P a (snd (build_one P b (c, d))) = Inl r" by simp
    then have "snd (build_one P a (snd (build_one P b (c, d)))) = snd (build_one P b (c, d))"
      by (cases "snd (build_one P b (c, d))") (simp add: build_one_after del: build_one.simps probe.simps)
    with one(1) [OF Inl] show ?thesis by simp
  next
    case a: (Inr s)
    show ?thesis
    proof (cases "probe P b (c, d)")
      case (Inl r)
      with probes(1) have "probe P b (snd (build_one P a (c, d))) = Inl r" by simp
      then have "build_one P b (snd (build_one P a (c, d))) = (r, snd (build_one P a (c, d)))"
        by (cases "snd (build_one P a (c, d))") (simp add: build_one_after del: build_one.simps probe.simps)
      with one(2) [OF Inl] show ?thesis by simp
    next
      case b: (Inr t)
      from probes a b show ?thesis
        by (simp add: build_one_after swap(2,5) cache_put_swap [OF src] swap(3) [of t s d] del: build_one.simps probe.simps)
    qed
  qed
  with st show "fst (build_one P b (snd (build_one P a st))) = fst (build_one P b st)"
    "snd (build_one P b (snd (build_one P a st))) = snd (build_one P a (snd (build_one P b st)))" by auto
qed

section \<open>The order of the tasks\<close>

definition all_independent :: "pipeline \<Rightarrow> string list \<Rightarrow> bool" where
  "all_independent P inputs \<longleftrightarrow>
     (\<forall>a\<in>set inputs. path_filename a \<noteq> [] \<and> output_path P a \<noteq> a) \<and>
     (\<forall>i<length inputs. \<forall>j<length inputs. i \<noteq> j \<longrightarrow> independent P (inputs ! i) (inputs ! j))"

lemma run_task_commute:
  assumes "i \<noteq> j" "independent P (inputs ! i) (inputs ! j)"
  shows "run_task P inputs j (run_task P inputs i s) = run_task P inputs i (run_task P inputs j s)"
proof (rule prod_eqI)
  note ind = assms(2)
  note sym = independent_sym [OF ind]
  show "fst (run_task P inputs j (run_task P inputs i s)) = fst (run_task P inputs i (run_task P inputs j s))"
    by (simp add: build_one_swap(1) [OF ind] build_one_swap(1) [OF sym] fun_upd_twist [OF assms(1)])
  show "snd (run_task P inputs j (run_task P inputs i s)) = snd (run_task P inputs i (run_task P inputs j s))"
    by (simp add: build_one_swap(2) [OF ind])
qed

lemma build_schedule_independent_rule:
  assumes "all_independent P inputs"
    and "distinct sched" "set sched = {0..<length inputs}"
    and "distinct sched'" "set sched' = {0..<length inputs}"
  shows "build P inputs sched st = build P inputs sched' st"
proof -
  have "mset sched = mset sched'" using assms set_eq_iff_mset_eq_distinct by metis
  moreover have "run_task P inputs i \<circ> run_task P inputs j = run_task P inputs j \<circ> run_task P inputs i"
    if "i \<in> set sched" "j \<in> set sched" for i j
  proof (cases "i = j")
    case False
    with that assms(1,3) have "independent P (inputs ! j) (inputs ! i)" by (auto simp: all_independent_def)
    with False show ?thesis by (auto intro!: ext run_task_commute)
  qed simp
  ultimately have "fold (run_task P inputs) sched = fold (run_task P inputs) sched'"
    by (intro fold_multiset_equiv) auto
  then show ?thesis by (simp add: build_def)
qed

text \<open>C4: A build does not depend on the schedule.  When no input is the output of another, and no
  two have the same output file, every order in which the workers run the tasks gives the same
  report, the same cache and the same disk.\<close>

theorem build_schedule_independent:
  assumes "all_independent P inputs"
    and "distinct sched" "set sched = {0..<length inputs}"
    and "distinct sched'" "set sched' = {0..<length inputs}"
  shows "build P inputs sched st = build P inputs sched' st"
  by (rule build_schedule_independent_rule [OF assms])

lemma build_schedule_independent_witness:
  "build \<lparr>pl_output_dir = ''out'', pl_mmap = (\<lambda>p. True), pl_blake3 = (\<lambda>s. replicate 32 0)\<rparr> [''src/a'', ''src/b''] [0, 1]
      (None, \<lparr>fs_tree = [''src/a'' \<mapsto> File ''x'', ''src/b'' \<mapsto> File ''y''],
              fs_deny_read = (\<lambda>p. False), fs_deny_write = (\<lambda>p. False)\<rparr>) =
   build \<lparr>pl_output_dir = ''out'', pl_mmap = (\<lambda>p. True), pl_blake3 = (\<lambda>s. replicate 32 0)\<rparr> [''src/a'', ''src/b''] [1, 0]
      (None, \<lparr>fs_tree = [''src/a'' \<mapsto> File ''x'', ''src/b'' \<mapsto> File ''y''],
              fs_deny_read = (\<lambda>p. False), fs_deny_write = (\<lambda>p. False)\<rparr>)"
  by (rule build_schedule_independent)
     (auto simp: all_independent_def independent_def output_path_def path_filename_def less_Suc_eq)

section \<open>The second build\<close>

definition unchanged :: "file_result \<Rightarrow> file_result" where
  "unchanged r = (if fr_status r = Failed then r else r\<lparr>fr_status := Cached\<rparr>)"

abbreviation step_of :: "pipeline \<Rightarrow> string list \<Rightarrow> nat \<Rightarrow> build_state \<Rightarrow> build_state" where
  "step_of P inputs i st \<equiv> snd (build_one P (inputs ! i) st)"

text \<open>A source opens as before once its task has run, even when it is its own output.\<close>

lemma mmap_open_after:
  assumes "mmap_open mm a d = Inr r"
  shows "mmap_open mm a (after P a (mr_data r) d) = Inr r"
proof -
  from assms have a: "fs_tree d a = Some (File (mr_data r))"
    by (auto simp: mmap_open_def file_exists_def read_file_def split: if_splits option.splits fs_entry.splits)
  then have "fs_tree (snd (out_dirs P d)) a = fs_tree d a"
    "fs_deny_read (snd (out_dirs P d)) = fs_deny_read d"
    using out_dirs_ext [of "{a}" d P] by (auto simp: dirs_ext_def)
  with a have "fs_tree (after P a (mr_data r) d) a = fs_tree d a"
    "fs_deny_read (after P a (mr_data r) d) = fs_deny_read d"
    by (auto simp: after_def)
  with assms a show ?thesis
    by (auto simp: mmap_open_def file_exists_def read_file_def split: if_splits)
qed

lemma build_one_twice:
  assumes "path_filename a \<noteq> []" "fst st \<noteq> None"
  shows "build_one P a (snd (build_one P a st)) =
    (unchanged (fst (build_one P a st)), snd (build_one P a st))"
proof -
  from assms(2) obtain c d where st: "st = (Some c, d)" by (cases st) auto
  show ?thesis
  proof (cases "probe P a (Some c, d)")
    case (Inl r)
    then have "fr_status r = Failed \<or> fr_status r = Cached \<and> fr_error r = []"
      by (auto simp: failed_def split: sum.splits if_splits)
    with Inl show ?thesis
      by (auto simp: st build_one_after unchanged_def simp del: build_one.simps probe.simps)
  next
    case (Inr s)
    then obtain r where r: "mmap_open (pl_mmap P) a d = Inr r" "mr_data r = s"
      "is_dirty a (hash_content (pl_blake3 P) s) c"
      by (auto split: sum.splits if_splits)
    let ?h = "hash_content (pl_blake3 P) s"
    from r have m: "mmap_open (pl_mmap P) a (after P a s d) = Inr r" using mmap_open_after by blast
    have clean: "\<not> is_dirty a ?h (cache_put (tracked P a ?h) c)"
      using cache.not_dirty_after_put [of "tracked P a ?h" c] by (simp add: tracked_def)
    show ?thesis
    proof (cases "writable P a d")
      case True
      have "probe P a (Some (cache_put (tracked P a ?h) c), after P a s d) =
          Inl \<lparr>fr_source = a, fr_status = Cached, fr_error = []\<rparr>"
        using m r clean by simp
      with True Inr show ?thesis
        by (simp add: st build_one_after unchanged_def del: build_one.simps probe.simps)
    next
      case False
      have "probe P a (Some c, after P a s d) = Inr s" using m r by simp
      moreover have "after P a s d = snd (out_dirs P d)" using False by (simp add: after_def)
      moreover have "out_dirs P (snd (out_dirs P d)) = (fst (out_dirs P d), snd (out_dirs P d))"
        by (rule out_dirs_again [OF dirs_ext_refl])
      moreover from this have "\<not> writable P a (snd (out_dirs P d))"
        using False out_dirs_ext [of "{}" d P] by (auto simp: writable_def dirs_ext_def)
      ultimately show ?thesis using Inr False
        by (simp add: st build_one_after unchanged_def failed_def after_def del: build_one.simps probe.simps)
    qed
  qed
qed

lemma build_others:
  assumes "all_independent P inputs" "set js \<subseteq> {0..<length inputs}" "i < length inputs" "i \<notin> set js"
  shows "fst (build_one P (inputs ! i) (fold (step_of P inputs) js st)) = fst (build_one P (inputs ! i) st) \<and>
    step_of P inputs i (fold (step_of P inputs) js st) = fold (step_of P inputs) js (step_of P inputs i st)"
  using assms(2,4)
proof (induction js arbitrary: st)
  case (Cons j js)
  then have "independent P (inputs ! j) (inputs ! i)" using assms(1,3) by (auto simp: all_independent_def)
  from build_one_swap [OF this] Cons show ?case by simp
qed simp

lemma steps_cached: "fst st \<noteq> None \<Longrightarrow> fst (fold (step_of P inputs) js st) \<noteq> None"
proof (induction js arbitrary: st)
  case (Cons j js)
  have "fst (step_of P inputs j st) \<noteq> None" using Cons.prems
    by (cases st; cases rule: build_one_disk [of P "inputs ! j" "fst st" "snd st"]) auto
  with Cons show ?case by simp
qed simp

lemma build_steps:
  assumes "all_independent P inputs" "distinct sched" "set sched = {0..<length inputs}"
  shows "build P inputs sched st =
    (fold count_result (map (\<lambda>a. fst (build_one P a st)) inputs)
        \<lparr>br_built = 0, br_cached = 0, br_failed = 0, br_results = []\<rparr>,
     fold (step_of P inputs) sched st)"
proof -
  have state: "snd (fold (run_task P inputs) js s) = fold (step_of P inputs) js (snd s)" for js s
    by (induction js arbitrary: s) simp_all
  have futures: "fst (fold (run_task P inputs) js s) i = Some (fst (build_one P (inputs ! i) (snd s)))"
    if "i \<in> set js" "distinct js" "set js \<subseteq> {0..<length inputs}" for i js s
    using that
  proof (induction js rule: rev_induct)
    case (snoc j js)
    then show ?case using build_others [OF assms(1), of js j "snd s"] by (auto simp: state)
  qed simp
  have "map (\<lambda>i. the (fst (fold (run_task P inputs) sched (Map.empty, st)) i)) [0..<length inputs] =
      map (\<lambda>i. fst (build_one P (inputs ! i) st)) [0..<length inputs]"
    using futures [of _ sched "(Map.empty, st)"] assms(2,3) by (intro map_cong [OF refl]) auto
  also have "\<dots> = map (\<lambda>a. fst (build_one P a st)) inputs"
    by (rule nth_equalityI) simp_all
  finally show ?thesis using state [of sched "(Map.empty, st)"]
    by (simp add: build_def prod.case_eq_if)
qed

lemma step_fixed:
  assumes "all_independent P inputs" "distinct sched" "set sched = {0..<length inputs}"
    "fst st \<noteq> None" "i < length inputs"
  shows "build_one P (inputs ! i) (fold (step_of P inputs) sched st) =
    (unchanged (fst (build_one P (inputs ! i) st)), fold (step_of P inputs) sched st)"
proof -
  obtain xs ys where s: "sched = xs @ i # ys" using assms(3,5) by (metis atLeastLessThan_iff split_list zero_le)
  let ?st = "fold (step_of P inputs) xs st"
  have xs: "fst (build_one P (inputs ! i) ?st) = fst (build_one P (inputs ! i) st)"
    using build_others [OF assms(1), of xs i st] s assms(2,3,5) by auto
  have f: "path_filename (inputs ! i) \<noteq> []" using assms(1,5) by (simp add: all_independent_def)
  note twice = build_one_twice [OF f steps_cached [OF assms(4), of P inputs xs], of P]
  have "fst (build_one P (inputs ! i) (fold (step_of P inputs) ys (step_of P inputs i ?st))) =
        unchanged (fst (build_one P (inputs ! i) st))"
    "step_of P inputs i (fold (step_of P inputs) ys (step_of P inputs i ?st)) =
        fold (step_of P inputs) ys (step_of P inputs i ?st)"
    using build_others [OF assms(1), of ys i "step_of P inputs i ?st"] s assms(2,3,5) twice xs by auto
  then show ?thesis by (simp add: s prod_eq_iff)
qed

definition count_status :: "file_status \<Rightarrow> file_result list \<Rightarrow> nat" where
  "count_status s rs = length (filter (\<lambda>r. fr_status r = s) rs)"

lemma count_results_closed:
  "fold count_result rs q =
     q\<lparr>br_built := br_built q + count_status Built rs, br_cached := br_cached q + count_status Cached rs,
       br_failed := br_failed q + count_status Failed rs, br_results := br_results q @ rs\<rparr>"
proof (induction rs arbitrary: q)
  case (Cons r rs)
  have step: "count_result r q =
      q\<lparr>br_built := br_built q + count_status Built [r], br_cached := br_cached q + count_status Cached [r],
        br_failed := br_failed q + count_status Failed [r], br_results := br_results q @ [r]\<rparr>"
    by (cases "fr_status r") (simp_all add: count_status_def)
  show ?case by (simp add: Cons step count_status_def del: count_result.simps)
qed (simp add: count_status_def)

lemma count_status_unchanged:
  "count_status Built (map unchanged rs) = 0"
  "count_status Cached (map unchanged rs) = count_status Built rs + count_status Cached rs"
  "count_status Failed (map unchanged rs) = count_status Failed rs"
proof (induction rs)
  case (Cons r rs)
  { case 1 show ?case using Cons by (cases "fr_status r") (simp_all add: count_status_def unchanged_def) }
  { case 2 show ?case using Cons by (cases "fr_status r") (simp_all add: count_status_def unchanged_def) }
  { case 3 show ?case using Cons by (cases "fr_status r") (simp_all add: count_status_def unchanged_def) }
qed (simp_all add: count_status_def)

text \<open>C14: A second build finds everything in the cache.  Let no input be its own output or that of another, no
  two inputs have the same output file, and both schedules run every input once.  When the build with a
  cache is run again on the state it left, each input that did not fail is reported as cached, each that
  failed fails again, and neither the cache nor the disk changes.\<close>

theorem build_again:
  assumes "all_independent P inputs"
    and "distinct sched" "set sched = {0..<length inputs}"
    and "distinct sched'" "set sched' = {0..<length inputs}"
    and "build P inputs sched (Some c, d) = (report, st)"
  shows "build P inputs sched' st =
    (report\<lparr>br_built := 0, br_cached := br_built report + br_cached report,
            br_results := map unchanged (br_results report)\<rparr>, st)"
proof -
  from assms(6) have r: "report = fold count_result (map (\<lambda>a. fst (build_one P a (Some c, d))) inputs)
        \<lparr>br_built = 0, br_cached = 0, br_failed = 0, br_results = []\<rparr>"
    and st: "st = fold (step_of P inputs) sched (Some c, d)"
    by (simp_all add: build_steps [OF assms(1-3)])
  note fixed = step_fixed [OF assms(1-3), of "(Some c, d)", folded st, simplified]
  have "fold (step_of P inputs) js st = st" if "set js \<subseteq> {0..<length inputs}" for js
    using that by (induction js) (simp_all add: fixed)
  moreover have "map (\<lambda>a. fst (build_one P a st)) inputs =
      map unchanged (map (\<lambda>a. fst (build_one P a (Some c, d))) inputs)"
    by (rule nth_equalityI) (simp_all add: fixed)
  ultimately show ?thesis
    by (simp add: build_steps [OF assms(1,4,5)] assms(5) count_results_closed count_status_unchanged r
        del: map_map)
qed

definition demo_disk :: fs where
  "demo_disk = \<lparr>fs_tree = [''src/a'' \<mapsto> File ''x'', ''src/b'' \<mapsto> File ''y''],
                fs_deny_read = (\<lambda>p. False), fs_deny_write = (\<lambda>p. False)\<rparr>"

definition demo_pipeline :: pipeline where
  "demo_pipeline = \<lparr>pl_output_dir = ''out'', pl_mmap = (\<lambda>p. True), pl_blake3 = (\<lambda>s. replicate 32 0)\<rparr>"

definition empty_cache :: build_cache where
  "empty_cache = \<lparr>bc_cache_dir = ''c'', bc_index_path = ''c/index.json'', bc_entries = Map.empty\<rparr>"

lemma build_again_witness:
  "\<exists>report st. build demo_pipeline [''src/a'', ''src/b''] [0, 1] (Some empty_cache, demo_disk) = (report, st) \<and>
    build demo_pipeline [''src/a'', ''src/b''] [1, 0] st =
     (report\<lparr>br_built := 0, br_cached := br_built report + br_cached report,
            br_results := map unchanged (br_results report)\<rparr>, st)"
proof -
  have ind: "all_independent demo_pipeline [''src/a'', ''src/b'']"
    by (auto simp: all_independent_def independent_def output_path_def path_filename_def less_Suc_eq demo_pipeline_def)
  show ?thesis
    by (cases "build demo_pipeline [''src/a'', ''src/b''] [0, 1] (Some empty_cache, demo_disk)")
      (intro exI conjI, assumption, rule build_again [OF ind], auto)
qed

section \<open>What a build writes\<close>

text \<open>A file that is no task's output stays as it is.\<close>

lemma steps_keep_file:
  "fs_tree (snd st) q = Some (File s) \<Longrightarrow> \<forall>j\<in>set js. output_path P (inputs ! j) \<noteq> q \<Longrightarrow>
   fs_tree (snd (fold (step_of P inputs) js st)) q = Some (File s)"
proof (induction js arbitrary: st)
  case (Cons j js)
  obtain c d where st: "st = (c, d)" by (cases st)
  have "fs_tree (snd (out_dirs P d)) q = fs_tree d q"
    using out_dirs_ext [of "{q}" d P] Cons.prems(1) st by (auto simp: dirs_ext_def)
  then have "fs_tree (snd (step_of P inputs j st)) q = Some (File s)"
    using Cons.prems unfolding st by (cases rule: build_one_disk [of P "inputs ! j" c d]) auto
  with Cons show ?case by simp
qed simp

lemma mmap_open_file: "mmap_open mm a d = Inr r \<Longrightarrow> fs_tree d a = Some (File (mr_data r))"
  by (auto simp: mmap_open_def file_exists_def read_file_def split: if_splits option.splits fs_entry.splits)

lemma build_output_rule:
  assumes "all_independent P inputs" "distinct sched" "set sched = {0..<length inputs}"
    and "build P inputs sched st = (report, st')"
    and "i < length inputs" "fr_status (br_results report ! i) = Built"
    and "fs_tree (snd st) (inputs ! i) = Some (File s)"
  shows "fs_tree (snd st') (output_path P (inputs ! i)) = Some (File s)"
proof -
  let ?a = "inputs ! i"
  define others where "others = filter (\<lambda>j. j \<noteq> i) sched"
  have "i \<in> set sched" using assms(3,5) by simp
  then have "set (others @ [i]) = set sched" unfolding others_def by auto
  moreover have "distinct (others @ [i])" unfolding others_def using assms(2) by simp
  ultimately have o: "distinct (others @ [i])" "set (others @ [i]) = {0..<length inputs}" using assms(3) by simp_all
  have b: "build P inputs sched st = build P inputs (others @ [i]) st"
    by (rule build_schedule_independent_rule [OF assms(1-3) o])
  obtain c d where st: "fold (step_of P inputs) others st = (c, d)" by fastforce
  from assms(4) have r: "br_results report = map (\<lambda>a. fst (build_one P a st)) inputs" and st': "st' = snd (build_one P ?a (c, d))"
    unfolding b by (auto simp: build_steps [OF assms(1) o] count_results st simp del: build_one.simps)
  have "fst (build_one P ?a (c, d)) = fst (build_one P ?a st)"
    using build_others [OF assms(1), of others i st] o assms(5) by (auto simp: st simp del: build_one.simps)
  then have built: "fr_status (fst (build_one P ?a (c, d))) = Built" using assms(5,6) r by simp
  have "output_path P (inputs ! j) \<noteq> ?a" if "j \<in> set others" for j
  proof -
    have "j \<in> set (others @ [i])" "j \<noteq> i" using that by (simp_all add: others_def)
    then have "j < length inputs" "j \<noteq> i" unfolding o(2) by simp_all
    then have "independent P (inputs ! i) (inputs ! j)" using assms(1,5) unfolding all_independent_def by metis
    then show ?thesis by (auto simp: independent_def)
  qed
  then have a: "fs_tree d ?a = Some (File s)"
    using steps_keep_file [OF assms(7), of others P inputs] by (simp add: st del: build_one.simps)
  show ?thesis
  proof (cases rule: build_one_disk [of P ?a c d])
    case (none r)
    with built have "False" by (auto simp: failed_def split: sum.splits if_splits)
    then show ?thesis ..
  next
    case (wrote s')
    then obtain r where "mmap_open (pl_mmap P) ?a d = Inr r" "mr_data r = s'" by (auto split: sum.splits if_splits)
    with mmap_open_file [of "pl_mmap P" ?a d r] a have "s' = s" by simp
    with wrote show ?thesis by (simp add: st' del: build_one.simps)
  next
    case (failed s')
    with built show ?thesis by (simp add: failed_def del: build_one.simps)
  qed
qed

text \<open>C2: What a build reports as built is on the disk.  When no input is the output of another and no two
  have the same output file, then after the build, in whatever order the tasks ran and whatever the
  cache held, the output file of each input that is reported as built has exactly the bytes the input
  had before the build.\<close>

theorem build_output:
  assumes "all_independent P inputs" "distinct sched" "set sched = {0..<length inputs}"
    and "build P inputs sched st = (report, st')"
    and "i < length inputs" "fr_status (br_results report ! i) = Built"
    and "fs_tree (snd st) (inputs ! i) = Some (File s)"
  shows "fs_tree (snd st') (output_path P (inputs ! i)) = Some (File s)"
  by (rule build_output_rule [OF assms])

lemma build_output_witness:
  "fs_tree (snd (snd (build demo_pipeline [''src/a'', ''src/b''] [1, 0] (None, demo_disk)))) ''out/a'' = Some (File ''x'')"
proof -
  have ind: "all_independent demo_pipeline [''src/a'', ''src/b'']"
    by (auto simp: all_independent_def independent_def output_path_def path_filename_def less_Suc_eq demo_pipeline_def)
  obtain report st where b: "build demo_pipeline [''src/a'', ''src/b''] [1, 0] (None, demo_disk) = (report, st)"
    by (cases "build demo_pipeline [''src/a'', ''src/b''] [1, 0] (None, demo_disk)")
  have "fr_status (br_results (fst (build demo_pipeline [''src/a'', ''src/b''] [1, 0] (None, demo_disk))) ! 0) = Built" by code_simp
  then have r: "fr_status (br_results report ! 0) = Built" unfolding b fst_conv .
  have "set [1, 0] = {0..<length [''src/a'', ''src/b'']}" by auto
  from build_output [OF ind _ this b, of 0 "''x''"] r have "fs_tree (snd st) (output_path demo_pipeline ''src/a'') = Some (File ''x'')"
    by (simp add: demo_disk_def)
  then show ?thesis unfolding b by (simp add: output_path_def path_filename_def demo_pipeline_def)
qed

section \<open>Two sources, one output\<close>

text \<open>Sources of the same name in different directories overwrite each other.  The output path
  keeps only the file name of the source, so \<open>a/x\<close> and \<open>b/x\<close> are both reported as built, and the
  one output file holds the content of whichever task ran last.\<close>

lemma output_collision:
  "let d = demo_disk\<lparr>fs_tree := [''a/x'' \<mapsto> File ''one'', ''b/x'' \<mapsto> File ''two'']\<rparr>;
       (report, c, d1) = build demo_pipeline [''a/x'', ''b/x''] [0, 1] (None, d);
       (report', c', d2) = build demo_pipeline [''a/x'', ''b/x''] [1, 0] (None, d)
   in report = report' \<and> br_built report = 2 \<and>
      fs_tree d1 ''out/x'' = Some (File ''two'') \<and> fs_tree d2 ''out/x'' = Some (File ''one'')"
  by code_simp

end
