(* ===== verification/Nift_Executor.thy ===== *)
theory Nift_Executor
  imports Nift_Pipeline "HOL-Library.Word"
begin

text \<open>
  The worker pool \<open>WorkStealingPool\<close> of \<open>crates/build/executor\<close>, as a step relation.  A worker
  thread is the phase it is in; each step of \<open>worker_step\<close> is one of the atomic actions of
  \<open>worker_loop\<close>: a load of \<open>stop_\<close>, one locked access to a queue, the run of a task, or the
  decrement of \<open>active_\<close>.  A call of \<open>submit\<close> is a client in its own phase, because the counter, the
  choice of the queue and the push are separate actions.  Tasks are numbers.  The waits end by
  their time-out, so a wait is a step that changes nothing.
\<close>

section \<open>The pool\<close>

datatype phase =
    Check                     \<comment> \<open>at the head of the loop, about to load \<open>stop_\<close>\<close>
  | Pop                       \<comment> \<open>about to lock the worker's own queue\<close>
  | Steal "nat list"          \<comment> \<open>in \<open>try_steal\<close>, the victims still to be visited\<close>
  | Run bool nat              \<comment> \<open>about to run a task; the flag tells the shutdown drain\<close>
  | Finish bool               \<comment> \<open>about to decrement \<open>active_\<close>\<close>
  | Wait
  | Drain                     \<comment> \<open>in the drain loop, about to lock the worker's own queue\<close>
  | Exited

datatype client =
    Checking nat              \<comment> \<open>about to load \<open>stop_\<close>\<close>
  | Counting nat              \<comment> \<open>about to increment \<open>active_\<close>\<close>
  | Choosing nat              \<comment> \<open>about to increment \<open>next_push_\<close>\<close>
  | Pushing nat nat           \<comment> \<open>about to lock the chosen queue\<close>

record pool =
  wp_queues :: "nat list list"
  wp_phases :: "phase list"
  wp_stop :: bool
  wp_active :: "64 word"
  wp_next_push :: "64 word"
  wp_clients :: "client list"
  wp_ran :: "nat list"
  wp_rejected :: "nat list"
  wp_submitted :: "nat list"

definition pool_create :: "nat \<Rightarrow> nat \<Rightarrow> pool" where
  "pool_create hardware_concurrency n =
     (let n = (if n = 0 then if hardware_concurrency = 0 then 2 else hardware_concurrency else n)
      in \<lparr>wp_queues = replicate n [], wp_phases = replicate n Check, wp_stop = False,
          wp_active = 0, wp_next_push = 0, wp_clients = [], wp_ran = [], wp_rejected = [],
          wp_submitted = []\<rparr>)"

definition pending :: "pool \<Rightarrow> nat" where
  "pending s = sum_list (map length (wp_queues s))"

text \<open>The condition on which \<open>wait_idle\<close> returns.\<close>

definition idle :: "pool \<Rightarrow> bool" where
  "idle s \<longleftrightarrow> \<not> wp_active s > 0"

text \<open>The order in which \<open>try_steal\<close> visits the other queues, from a random start.\<close>

definition victims :: "nat \<Rightarrow> nat \<Rightarrow> nat \<Rightarrow> nat list" where
  "victims n self start =
     (if n \<le> 1 then [] else filter (\<lambda>v. v \<noteq> self) (map (\<lambda>i. (start + i) mod n) [0..<n]))"

definition goto :: "nat \<Rightarrow> phase \<Rightarrow> pool \<Rightarrow> pool" where
  "goto i p s = s\<lparr>wp_phases := (wp_phases s)[i := p]\<rparr>"

definition set_queue :: "nat \<Rightarrow> nat list \<Rightarrow> pool \<Rightarrow> pool" where
  "set_queue i q s = s\<lparr>wp_queues := (wp_queues s)[i := q]\<rparr>"

definition worker_step :: "nat \<Rightarrow> nat \<Rightarrow> pool \<Rightarrow> pool" where
  "worker_step start i s =
     (case wp_phases s ! i of
        Check \<Rightarrow> goto i (if wp_stop s then Drain else Pop) s
      | Pop \<Rightarrow>
          (let q = wp_queues s ! i in
           if q \<noteq> [] then goto i (Run False (last q)) (set_queue i (butlast q) s)
           else goto i (Steal (victims (length (wp_queues s)) i start)) s)
      | Steal [] \<Rightarrow> goto i Wait s
      | Steal (v # vs) \<Rightarrow>
          (let q = wp_queues s ! v in
           if q \<noteq> [] then goto i (Run False (hd q)) (set_queue v (tl q) s)
           else goto i (Steal vs) s)
      | Run draining t \<Rightarrow> goto i (Finish draining) (s\<lparr>wp_ran := wp_ran s @ [t]\<rparr>)
      | Finish draining \<Rightarrow>
          goto i (if draining then Drain else Check) (s\<lparr>wp_active := wp_active s - 1\<rparr>)
      | Wait \<Rightarrow> goto i Check s
      | Drain \<Rightarrow>
          (let q = wp_queues s ! i in
           if q = [] then goto i Exited s
           else goto i (Run True (last q)) (set_queue i (butlast q) s))
      | Exited \<Rightarrow> s)"

definition submit_call :: "nat \<Rightarrow> pool \<Rightarrow> pool" where
  "submit_call t s = s\<lparr>wp_clients := wp_clients s @ [Checking t], wp_submitted := wp_submitted s @ [t]\<rparr>"

definition leave :: "nat \<Rightarrow> pool \<Rightarrow> pool" where
  "leave k s = s\<lparr>wp_clients := take k (wp_clients s) @ drop (Suc k) (wp_clients s)\<rparr>"

definition submit_step :: "nat \<Rightarrow> pool \<Rightarrow> pool" where
  "submit_step k s =
     (case wp_clients s ! k of
        Checking t \<Rightarrow>
          if wp_stop s then leave k (s\<lparr>wp_rejected := wp_rejected s @ [t]\<rparr>)
          else s\<lparr>wp_clients := (wp_clients s)[k := Counting t]\<rparr>
      | Counting t \<Rightarrow>
          s\<lparr>wp_active := wp_active s + 1, wp_clients := (wp_clients s)[k := Choosing t]\<rparr>
      | Choosing t \<Rightarrow>
          s\<lparr>wp_next_push := wp_next_push s + 1,
            wp_clients := (wp_clients s)
              [k := Pushing t (unat (wp_next_push s) mod length (wp_queues s))]\<rparr>
      | Pushing t target \<Rightarrow> leave k (set_queue target (wp_queues s ! target @ [t]) s))"

definition shutdown :: "pool \<Rightarrow> pool" where
  "shutdown s = s\<lparr>wp_stop := True\<rparr>"

text \<open>What \<open>shutdown\<close> and the destructor wait for.\<close>

definition joined :: "pool \<Rightarrow> bool" where
  "joined s \<longleftrightarrow> wp_stop s \<and> (\<forall>p\<in>set (wp_phases s). p = Exited)"

text \<open>The steps of the threads.  With the flag, no \<open>shutdown\<close> starts while a \<open>submit\<close> is under way.\<close>

inductive pool_step :: "bool \<Rightarrow> pool \<Rightarrow> pool \<Rightarrow> bool" for orderly where
  worker: "i < length (wp_phases s) \<Longrightarrow> pool_step orderly s (worker_step start i s)"
| submit: "k < length (wp_clients s) \<Longrightarrow> pool_step orderly s (submit_step k s)"
| call: "pool_step orderly s (submit_call t s)"
| stop: "orderly \<longrightarrow> wp_clients s = [] \<Longrightarrow> pool_step orderly s (shutdown s)"

inductive_cases pool_stepE: "pool_step orderly s s'"

inductive pool_reach :: "bool \<Rightarrow> pool \<Rightarrow> bool" for orderly where
  init: "pool_reach orderly (pool_create hc n)"
| step: "pool_reach orderly s \<Longrightarrow> pool_step orderly s s' \<Longrightarrow> pool_reach orderly s'"

section \<open>Where a task is\<close>

lemma sum_list_set:
  fixes f :: "'x \<Rightarrow> 'a::ab_group_add"
  assumes "i < length xs"
  shows "sum_list (map f (xs[i := x])) = sum_list (map f xs) - f (xs ! i) + f x"
  using assms by (induction xs arbitrary: i) (auto split: nat.split)

lemma sum_list_remove:
  fixes f :: "'x \<Rightarrow> 'a::ab_group_add"
  assumes "i < length xs"
  shows "sum_list (map f (take i xs)) + sum_list (map f (drop (Suc i) xs)) = sum_list (map f xs) - f (xs ! i)"
  using arg_cong [OF id_take_nth_drop [OF assms], of "\<lambda>xs. sum_list (map f xs)"] by simp

lemma sum_list_butlast:
  fixes f :: "'x \<Rightarrow> 'a::ab_group_add"
  assumes "xs \<noteq> []"
  shows "sum_list (map f (butlast xs)) = sum_list (map f xs) - f (last xs)"
  using assms by (cases xs rule: rev_cases) simp_all

lemma sum_list_tl:
  fixes f :: "'x \<Rightarrow> 'a::ab_group_add"
  assumes "xs \<noteq> []"
  shows "sum_list (map f (tl xs)) = sum_list (map f xs) - f (hd xs)"
  using assms by (cases xs) simp_all

lemmas sums = sum_list_set sum_list_remove sum_list_butlast sum_list_tl

fun phase_tasks :: "phase \<Rightarrow> nat list" where
  "phase_tasks (Run d t) = [t]"
| "phase_tasks p = []"

fun client_task :: "client \<Rightarrow> nat" where
  "client_task (Checking t) = t"
| "client_task (Counting t) = t"
| "client_task (Choosing t) = t"
| "client_task (Pushing t target) = t"

text \<open>The weight \<open>f\<close> of all tasks, wherever they are.\<close>

definition weight :: "(nat \<Rightarrow> int) \<Rightarrow> pool \<Rightarrow> int" where
  "weight f s = sum_list (map f (wp_ran s)) + sum_list (map f (wp_rejected s)) +
     sum_list (map (\<lambda>q. sum_list (map f q)) (wp_queues s)) +
     sum_list (map (\<lambda>p. sum_list (map f (phase_tasks p))) (wp_phases s)) +
     sum_list (map (\<lambda>c. f (client_task c)) (wp_clients s))"

fun phase_active :: "phase \<Rightarrow> 64 word" where
  "phase_active (Run d t) = 1"
| "phase_active (Finish d) = 1"
| "phase_active p = 0"

fun client_active :: "client \<Rightarrow> 64 word" where
  "client_active (Choosing t) = 1"
| "client_active (Pushing t target) = 1"
| "client_active c = 0"

definition in_flight :: "pool \<Rightarrow> 64 word" where
  "in_flight s = sum_list (map (\<lambda>q. sum_list (map (\<lambda>t. 1) q)) (wp_queues s)) +
     sum_list (map phase_active (wp_phases s)) + sum_list (map client_active (wp_clients s))"

definition in_range :: "pool \<Rightarrow> bool" where
  "in_range s \<longleftrightarrow> wp_queues s \<noteq> [] \<and> length (wp_phases s) = length (wp_queues s) \<and>
     (\<forall>vs v. Steal vs \<in> set (wp_phases s) \<longrightarrow> v \<in> set vs \<longrightarrow> v < length (wp_queues s)) \<and>
     (\<forall>t v. Pushing t v \<in> set (wp_clients s) \<longrightarrow> v < length (wp_queues s))"

lemma in_range_steal:
  "in_range s \<Longrightarrow> wp_phases s ! i = Steal vs \<Longrightarrow> i < length (wp_phases s) \<Longrightarrow> v \<in> set vs \<Longrightarrow>
     v < length (wp_queues s)"
  using nth_mem [of i "wp_phases s"] by (auto simp: in_range_def)

lemma in_range_push:
  "in_range s \<Longrightarrow> wp_clients s ! k = Pushing t v \<Longrightarrow> k < length (wp_clients s) \<Longrightarrow> v < length (wp_queues s)"
  using nth_mem [of k "wp_clients s"] by (auto simp: in_range_def)

lemma in_range_step:
  assumes "in_range s" "pool_step orderly s s'"
  shows "in_range s'"
  using assms(2)
proof cases
  case (worker i start)
  have i: "i < length (wp_phases s)" by (rule worker(2))
  have st: "Steal vs \<in> set ((wp_phases s)[i := p]) \<Longrightarrow> p = Steal vs \<or> Steal vs \<in> set (wp_phases s)" for vs p
    using set_update_subset_insert [of "wp_phases s" i p] by auto
  have v: "v \<in> set (victims (length (wp_queues s)) i start) \<Longrightarrow> v < length (wp_queues s)" for v
    by (auto simp: victims_def intro!: mod_less_divisor split: if_splits)
  show ?thesis
  proof (cases "wp_phases s ! i")
    case (Steal vs)
    from in_range_steal [OF assms(1) this i] have "v \<in> set vs \<Longrightarrow> v < length (wp_queues s)" for v .
    with Steal assms(1) i show ?thesis unfolding worker(1)
      by (cases vs) (auto simp: worker_step_def in_range_def goto_def set_queue_def Let_def dest!: st)
  qed (use assms(1) v in \<open>auto simp: worker(1) worker_step_def in_range_def goto_def set_queue_def Let_def dest!: st\<close>)
next
  case (submit k)
  have k: "k < length (wp_clients s)" by (rule submit(2))
  have cl: "Pushing t v \<in> set ((wp_clients s)[k := c]) \<Longrightarrow> c = Pushing t v \<or> Pushing t v \<in> set (wp_clients s)" for t v c
    using set_update_subset_insert [of "wp_clients s" k c] by auto
  have lv: "Pushing t v \<in> set (take k (wp_clients s) @ drop (Suc k) (wp_clients s)) \<Longrightarrow>
      Pushing t v \<in> set (wp_clients s)" for t v
    by (auto dest: in_set_takeD in_set_dropD)
  have pos: "x mod length (wp_queues s) < length (wp_queues s)" for x
    using assms(1) by (auto simp: in_range_def)
  show ?thesis unfolding submit(1) using assms(1) pos
    by (cases "wp_clients s ! k")
       (auto simp: submit_step_def in_range_def leave_def set_queue_def simp del: set_append dest!: cl lv)
qed (use assms(1) in \<open>auto simp: in_range_def submit_call_def shutdown_def\<close>)

lemma in_range_reach: "pool_reach orderly s \<Longrightarrow> in_range s"
proof (induction rule: pool_reach.induct)
  case init
  then show ?case by (auto simp: pool_create_def in_range_def Let_def)
qed (rule in_range_step)

lemma weight_step:
  assumes "in_range s" "pool_step orderly s s'"
  shows "weight f s' - sum_list (map f (wp_submitted s')) = weight f s - sum_list (map f (wp_submitted s))"
  using assms(2)
proof cases
  case (worker i start)
  have i: "i < length (wp_phases s)" "i < length (wp_queues s)"
    using worker(2) assms(1) by (auto simp: in_range_def)
  have v: "v < length (wp_queues s)" if "wp_phases s ! i = Steal (v # vs)" for v vs
    using in_range_steal [OF assms(1) that i(1)] by simp
  show ?thesis
  proof (cases "wp_phases s ! i")
    case (Steal vs)
    with i v show ?thesis unfolding worker(1)
      by (cases vs) (simp_all add: worker_step_def weight_def goto_def set_queue_def Let_def sums)
  qed (use i in \<open>simp_all add: worker(1) worker_step_def weight_def goto_def set_queue_def Let_def sums\<close>)
next
  case (submit k)
  have k: "k < length (wp_clients s)" by (rule submit(2))
  note v = in_range_push [OF assms(1) _ k]
  show ?thesis unfolding submit(1) using k v
    by (cases "wp_clients s ! k")
       (simp_all add: submit_step_def weight_def leave_def set_queue_def sums sum_list_remove)
qed (simp_all add: weight_def submit_call_def shutdown_def)

lemma active_step:
  assumes "in_range s" "pool_step orderly s s'"
  shows "wp_active s' - in_flight s' = wp_active s - in_flight s"
  using assms(2)
proof cases
  case (worker i start)
  have i: "i < length (wp_phases s)" "i < length (wp_queues s)"
    using worker(2) assms(1) by (auto simp: in_range_def)
  have v: "v < length (wp_queues s)" if "wp_phases s ! i = Steal (v # vs)" for v vs
    using in_range_steal [OF assms(1) that i(1)] by simp
  show ?thesis
  proof (cases "wp_phases s ! i")
    case (Steal vs)
    with i v show ?thesis unfolding worker(1)
      by (cases vs) (simp_all add: worker_step_def in_flight_def goto_def set_queue_def Let_def sums)
  qed (use i in \<open>simp_all add: worker(1) worker_step_def in_flight_def goto_def set_queue_def Let_def sums\<close>)
next
  case (submit k)
  have k: "k < length (wp_clients s)" by (rule submit(2))
  note v = in_range_push [OF assms(1) _ k]
  show ?thesis unfolding submit(1) using k v
    by (cases "wp_clients s ! k")
       (simp_all add: submit_step_def in_flight_def leave_def set_queue_def sums sum_list_remove)
qed (simp_all add: in_flight_def submit_call_def shutdown_def)

lemma weight_reach: "pool_reach orderly s \<Longrightarrow> weight f s = sum_list (map f (wp_submitted s))"
proof (induction rule: pool_reach.induct)
  case init
  then show ?case by (simp add: pool_create_def weight_def Let_def sum_list_replicate)
next
  case (step s s')
  with weight_step [OF in_range_reach [OF step(1)] step(2)] show ?case by (metis eq_iff_diff_eq_0)
qed

lemma active_reach: "pool_reach orderly s \<Longrightarrow> wp_active s = in_flight s"
proof (induction rule: pool_reach.induct)
  case init
  then show ?case by (simp add: pool_create_def in_flight_def Let_def sum_list_replicate)
next
  case (step s s')
  with active_step [OF in_range_reach [OF step(1)] step(2)] show ?case by (metis eq_iff_diff_eq_0)
qed

lemma rejected_reach: "pool_reach orderly s \<Longrightarrow> wp_rejected s \<noteq> [] \<Longrightarrow> wp_stop s"
proof (induction rule: pool_reach.induct)
  case (step s s')
  from step(2) have "wp_stop s \<longrightarrow> wp_stop s'" "wp_rejected s' = wp_rejected s \<or> wp_stop s"
    by (cases; auto simp: worker_step_def submit_step_def submit_call_def shutdown_def goto_def set_queue_def leave_def Let_def
        split: phase.split client.split list.split)+
  with step show ?case by auto
qed (simp add: pool_create_def Let_def)

section \<open>No task is lost\<close>

fun busy :: "phase \<Rightarrow> bool" where
  "busy (Run d t) = True"
| "busy (Finish d) = True"
| "busy p = False"

fun counted :: "client \<Rightarrow> bool" where
  "counted (Choosing t) = True"
| "counted (Pushing t target) = True"
| "counted c = False"

definition outstanding :: "pool \<Rightarrow> nat" where
  "outstanding s = pending s + length (filter busy (wp_phases s)) + length (filter counted (wp_clients s))"

lemma in_flight_outstanding: "in_flight s = of_nat (outstanding s)"
proof -
  have "sum_list (map (\<lambda>q. sum_list (map (\<lambda>t. 1) q)) qs) = of_nat (sum_list (map length qs))"
    for qs :: "nat list list"
    by (induction qs) (simp_all add: sum_list_triv)
  moreover have "phase_active p = (if busy p then 1 else 0)" for p by (cases p) simp_all
  then have "sum_list (map phase_active ps) = of_nat (length (filter busy ps))" for ps
    by (induction ps) simp_all
  moreover have "client_active c = (if counted c then 1 else 0)" for c by (cases c) simp_all
  then have "sum_list (map client_active cs) = of_nat (length (filter counted cs))" for cs
    by (induction cs) simp_all
  ultimately show ?thesis by (simp add: in_flight_def outstanding_def pending_def)
qed

lemma conservation:
  assumes "pool_reach orderly s"
  shows "mset (wp_submitted s) = mset (wp_ran s) + mset (wp_rejected s) + mset (concat (wp_queues s)) +
      mset (concat (map phase_tasks (wp_phases s))) + mset (map client_task (wp_clients s)) \<and>
    wp_active s = of_nat (outstanding s)"
proof
  show "wp_active s = of_nat (outstanding s)"
    by (simp add: active_reach [OF assms] in_flight_outstanding)
  have count: "sum_list (map (\<lambda>u. if u = t then 1 else 0) xs) = int (count (mset xs) t)" for t xs
    by (induction xs) auto
  have nested: "sum_list (map (\<lambda>x. int (count (mset (g x)) t)) xs) = int (count (mset (concat (map g xs))) t)"
    for t xs and g :: "'x \<Rightarrow> nat list"
    by (induction xs) auto
  have mapped: "sum_list (map (\<lambda>c. if g c = t then 1 else 0) xs) = int (count (mset (map g xs)) t)"
    for t xs and g :: "'x \<Rightarrow> nat"
    by (induction xs) auto
  show "mset (wp_submitted s) = mset (wp_ran s) + mset (wp_rejected s) + mset (concat (wp_queues s)) +
      mset (concat (map phase_tasks (wp_phases s))) + mset (map client_task (wp_clients s))"
    (is "?l = ?r")
  proof (rule multiset_eqI)
    fix t
    from weight_reach [OF assms, of "\<lambda>u. if u = t then 1 else 0"]
    have "int (count ?r t) = int (count ?l t)"
      unfolding weight_def count mapped nested nested [of "\<lambda>q. q", unfolded list.map_ident] by simp
    then show "count ?l t = count ?r t" by simp
  qed
qed

text \<open>C7: The pool loses no task and runs none twice.  At every moment each submitted task is in
  exactly one place: run, rejected, queued, with a worker, or with the call that submits it; and
  the counter \<open>active_\<close> is the number of tasks queued, taken or about to be queued.\<close>

theorem pool_conserves:
  assumes "pool_reach orderly s"
  shows "mset (wp_submitted s) = mset (wp_ran s) + mset (wp_rejected s) + mset (concat (wp_queues s)) +
      mset (concat (map phase_tasks (wp_phases s))) + mset (map client_task (wp_clients s)) \<and>
    wp_active s = of_nat (outstanding s)"
  by (rule conservation [OF assms])

lemma pool_conserves_witness:
  "wp_active (submit_step 0 (submit_step 0 (submit_call 7 (pool_create 1 1)))) =
     of_nat (outstanding (submit_step 0 (submit_step 0 (submit_call 7 (pool_create 1 1)))))"
proof -
  have "pool_reach False (submit_call 7 (pool_create 1 1))"
    by (rule pool_reach.step [OF pool_reach.init pool_step.call])
  moreover have "0 < length (wp_clients (submit_call 7 (pool_create 1 1)))"
    by (simp add: submit_call_def)
  moreover have "0 < length (wp_clients (submit_step 0 (submit_call 7 (pool_create 1 1))))"
    by (simp add: submit_call_def submit_step_def pool_create_def)
  ultimately have "pool_reach False (submit_step 0 (submit_step 0 (submit_call 7 (pool_create 1 1))))"
    by (blast intro: pool_reach.step pool_step.submit)
  from conjunct2 [OF pool_conserves [OF this]] show ?thesis .
qed

lemma idle_none:
  assumes "pool_reach orderly s" "idle s" "wp_clients s = []"
    and "length (wp_submitted s) + length (wp_phases s) < 2 ^ 64"
  shows "outstanding s = 0"
proof -
  have len: "length (wp_submitted s) \<ge> pending s"
    using arg_cong [OF conjunct1 [OF conservation [OF assms(1)]], of size] assms(3)
    by (simp add: pending_def length_concat)
  moreover have "length (filter busy (wp_phases s)) \<le> length (wp_phases s)" by simp
  moreover have "outstanding s = pending s + length (filter busy (wp_phases s))"
    using assms(3) by (simp add: outstanding_def)
  ultimately have "outstanding s < 2 ^ 64" using assms(4) by linarith
  moreover have "of_nat (outstanding s) = (0 :: 64 word)"
    using conservation [OF assms(1)] assms(2) by (simp add: idle_def word_gt_0)
  ultimately show ?thesis by (auto simp: word_of_nat_eq_0_iff dest!: nat_dvd_not_less [rotated])
qed

lemma not_busy: "\<not> busy p \<Longrightarrow> phase_tasks p = []"
  by (cases p) simp_all

lemma idle_all_ran:
  assumes "pool_reach orderly s" "idle s" "wp_clients s = []"
    and "length (wp_submitted s) + length (wp_phases s) < 2 ^ 64"
  shows "mset (wp_submitted s) = mset (wp_ran s) + mset (wp_rejected s)"
proof -
  have z: "outstanding s = 0" by (rule idle_none [OF assms])
  then have "concat (wp_queues s) = []"
    by (auto simp: outstanding_def pending_def)
  moreover have "\<forall>p\<in>set (wp_phases s). \<not> busy p" using z by (auto simp: outstanding_def filter_empty_conv)
  then have "concat (map phase_tasks (wp_phases s)) = []"
    using not_busy by auto
  ultimately show ?thesis using conjunct1 [OF conservation [OF assms(1)]] assms(3) by simp
qed

text \<open>A parallel build is the sequential build.  When the pool has been given one task per input,
  is not shut down, and \<open>wait_idle\<close> has returned, the order in which it happens to have run the tasks
  is a schedule that runs each once; with independent inputs the report, the cache and the disk are
  those of a build that takes the inputs one after the other.\<close>

lemma parallel_build_sequential:
  assumes "pool_reach orderly s" "wp_clients s = []" "\<not> wp_stop s" "idle s"
    and "wp_submitted s = [0..<length inputs]" "length inputs + length (wp_phases s) < 2 ^ 64"
    and "all_independent P inputs"
  shows "build P inputs (wp_ran s) st = build P inputs [0..<length inputs] st"
proof -
  have "wp_rejected s = []" using rejected_reach [OF assms(1)] assms(3) by blast
  with idle_all_ran [OF assms(1,4,2)] assms(5,6) have m: "mset (wp_ran s) = mset [0..<length inputs]" by simp
  then have "distinct (wp_ran s)" "set (wp_ran s) = {0..<length inputs}"
    using mset_eq_imp_distinct_iff [OF m] mset_eq_setD [OF m] by simp_all
  with assms(7) show ?thesis by (intro build_schedule_independent_rule) simp_all
qed

section \<open>Shutdown\<close>

text \<open>When no call of \<open>submit\<close> is under way as \<open>shutdown\<close> starts, none gets past its check
  afterwards, and a worker leaves only when its own queue is empty for good.\<close>

fun leaving :: "phase \<Rightarrow> bool" where
  "leaving (Run draining t) = draining"
| "leaving (Finish draining) = draining"
| "leaving p = (p = Drain \<or> p = Exited)"

definition drained :: "pool \<Rightarrow> bool" where
  "drained s \<longleftrightarrow> (wp_stop s \<longrightarrow> (\<forall>c\<in>set (wp_clients s). c = Checking (client_task c))) \<and>
     (\<forall>p\<in>set (wp_phases s). leaving p \<longrightarrow> wp_stop s) \<and>
     (\<forall>i<length (wp_phases s). wp_phases s ! i = Exited \<longrightarrow> wp_queues s ! i = [])"

lemma drained_goto:
  assumes "drained s" "i < length (wp_phases s)" "leaving p \<longrightarrow> wp_stop s"
    "p = Exited \<longrightarrow> wp_queues s ! i = []"
  shows "drained (goto i p s)"
  using assms set_update_subset_insert [of "wp_phases s" i p]
  by (auto simp: drained_def goto_def nth_list_update)

lemma drained_shrink:
  assumes "drained s" "wp_queues s ! v \<noteq> []"
  shows "drained (set_queue v q s)"
proof -
  have "(wp_queues s)[v := q] ! i = wp_queues s ! i" if "wp_queues s ! i = []" for i
    using assms(2) that by (cases "i = v") simp_all
  with assms(1) show ?thesis by (simp add: drained_def set_queue_def)
qed

lemma drained_worker:
  assumes "drained s" "i < length (wp_phases s)"
  shows "drained (worker_step start i s)"
proof -
  have l: "leaving (wp_phases s ! i) \<longrightarrow> wp_stop s"
    using assms nth_mem [OF assms(2)] unfolding drained_def by blast
  have ran: "drained (s\<lparr>wp_ran := r\<rparr>)" "drained (s\<lparr>wp_active := a\<rparr>)" for r a
    using assms(1) by (simp_all add: drained_def)
  note steps = drained_goto drained_shrink
  show ?thesis
  proof (cases "wp_phases s ! i")
    case (Steal vs)
    with assms l show ?thesis
      by (cases vs) (auto simp: worker_step_def Let_def set_queue_def intro!: steps drained_shrink [unfolded set_queue_def])
  qed (use assms l ran in \<open>auto simp: worker_step_def Let_def set_queue_def intro!: steps drained_shrink [unfolded set_queue_def]\<close>)
qed

lemma drained_submit:
  assumes "drained s" "k < length (wp_clients s)"
  shows "drained (submit_step k s)"
proof (cases "wp_stop s")
  case True
  then obtain t where "wp_clients s ! k = Checking t"
    using assms nth_mem [OF assms(2)] unfolding drained_def by metis
  with True assms(1) show ?thesis
    by (auto simp: submit_step_def drained_def leave_def dest: in_set_takeD in_set_dropD)
next
  case False
  moreover have "leaving Exited" by simp
  ultimately have "Exited \<notin> set (wp_phases s)"
    using assms(1) unfolding drained_def by blast
  then have "\<forall>i<length (wp_phases s). wp_phases s ! i \<noteq> Exited" by (metis nth_mem)
  with False assms(1) show ?thesis
    by (auto simp: submit_step_def drained_def leave_def set_queue_def split: client.split)
qed

lemma drained_reach: "pool_reach True s \<Longrightarrow> drained s"
proof (induction rule: pool_reach.induct)
  case init
  then show ?case by (auto simp: drained_def pool_create_def Let_def)
next
  case (step s s')
  from step(2,3) show ?case
    by (cases; simp add: drained_worker drained_submit)
       (auto simp: drained_def submit_call_def shutdown_def)
qed

text \<open>C17: An orderly shutdown completes the pending tasks and rejects new ones.  When no \<open>submit\<close> is
  under way as \<open>shutdown\<close> starts, then after the workers are joined every task was run or, when
  submitted later, rejected.\<close>

theorem shutdown_completes:
  assumes "pool_reach True s" "joined s" "wp_clients s = []"
  shows "mset (wp_submitted s) = mset (wp_ran s) + mset (wp_rejected s) \<and> pending s = 0"
proof -
  have ex: "\<forall>p\<in>set (wp_phases s). p = Exited" using assms(2) by (simp add: joined_def)
  have "\<forall>i<length (wp_queues s). wp_queues s ! i = []"
    using drained_reach [OF assms(1)] in_range_reach [OF assms(1)] ex
    by (simp add: drained_def in_range_def)
  then have q: "\<forall>q\<in>set (wp_queues s). q = []" by (metis in_set_conv_nth)
  then have "concat (wp_queues s) = []" "pending s = 0" by (auto simp: pending_def)
  moreover have "concat (map phase_tasks (wp_phases s)) = []" using ex by auto
  ultimately show ?thesis using conjunct1 [OF conservation [OF assms(1)]] assms(3) by simp
qed

lemma shutdown_completes_witness:
  "pending (worker_step 0 0 (worker_step 0 0 (shutdown (pool_create 1 1)))) = 0"
proof -
  have n: "length (wp_phases (shutdown (pool_create 1 1))) = 1"
    "length (wp_phases (worker_step 0 0 (shutdown (pool_create 1 1)))) = 1"
    by (simp_all add: shutdown_def pool_create_def worker_step_def goto_def)
  have "pool_reach True (worker_step 0 0 (worker_step 0 0 (shutdown (pool_create 1 1))))"
    by (rule pool_reach.step [OF pool_reach.step [OF pool_reach.step [OF pool_reach.init pool_step.stop]
          pool_step.worker] pool_step.worker])
      (simp_all only: n, simp_all add: pool_create_def)
  from shutdown_completes [OF this] show ?thesis
    by (simp add: joined_def shutdown_def pool_create_def worker_step_def goto_def)
qed

section \<open>The race of submit and shutdown\<close>

text \<open>One worker; \<open>submit\<close> passes its check, then \<open>shutdown\<close> runs to its end, then \<open>submit\<close> goes on.\<close>

definition race_checked :: pool where
  "race_checked = submit_step 0 (submit_call 7 (pool_create 1 1))"

definition race_joined :: pool where
  "race_joined = worker_step 0 0 (worker_step 0 0 (shutdown race_checked))"

definition race_end :: pool where
  "race_end = submit_step 0 (submit_step 0 (submit_step 0 race_joined))"

lemma race_eval:
  "race_checked = \<lparr>wp_queues = [[]], wp_phases = [Check], wp_stop = False, wp_active = 0, wp_next_push = 0,
     wp_clients = [Counting 7], wp_ran = [], wp_rejected = [], wp_submitted = [7]\<rparr>"
  "race_joined = \<lparr>wp_queues = [[]], wp_phases = [Exited], wp_stop = True, wp_active = 0, wp_next_push = 0,
     wp_clients = [Counting 7], wp_ran = [], wp_rejected = [], wp_submitted = [7]\<rparr>"
  "race_end = \<lparr>wp_queues = [[7]], wp_phases = [Exited], wp_stop = True, wp_active = 1, wp_next_push = 1,
     wp_clients = [], wp_ran = [], wp_rejected = [], wp_submitted = [7]\<rparr>"
  by (simp_all add: race_checked_def race_joined_def race_end_def submit_step_def submit_call_def
      pool_create_def worker_step_def goto_def shutdown_def set_queue_def leave_def Let_def)

text \<open>A task can be stranded by a shutdown.  When \<open>shutdown\<close> runs between the check of \<open>stop_\<close> and
  the push in \<open>submit\<close>, the task is neither rejected nor run: every worker has left, the task stays
  in a queue, its future is never ready, and \<open>wait_idle\<close> never returns since no step is left.\<close>

lemma shutdown_strands_task:
  "\<exists>s. pool_reach False s \<and> joined s \<and> wp_clients s = [] \<and> wp_submitted s = [7] \<and>
     wp_ran s = [] \<and> wp_rejected s = [] \<and> pending s = 1 \<and> \<not> idle s \<and>
     length (wp_phases s) = 1 \<and> (\<forall>start. worker_step start 0 s = s)"
proof (intro exI conjI)
  have n: "length (wp_phases (shutdown race_checked)) = 1"
    "length (wp_phases (worker_step 0 0 (shutdown race_checked))) = 1"
    by (simp_all add: race_eval(1) shutdown_def worker_step_def goto_def)
  have "pool_reach False (submit_call 7 (pool_create 1 1))"
    by (rule pool_reach.step [OF pool_reach.init pool_step.call])
  then have "pool_reach False race_checked" unfolding race_checked_def
    by (rule pool_reach.step) (rule pool_step.submit, simp add: submit_call_def)
  then have "pool_reach False race_joined" unfolding race_joined_def
    by (intro pool_reach.step [OF pool_reach.step [OF pool_reach.step [OF _ pool_step.stop]
          pool_step.worker] pool_step.worker]) (simp_all add: n)
  moreover have "0 < length (wp_clients race_joined)" "0 < length (wp_clients (submit_step 0 race_joined))"
    "0 < length (wp_clients (submit_step 0 (submit_step 0 race_joined)))"
    by (simp_all add: race_eval(2) submit_step_def)
  ultimately show "pool_reach False race_end" unfolding race_end_def
    by (blast intro: pool_reach.step pool_step.submit)
qed (simp_all add: race_eval(3) joined_def pending_def idle_def worker_step_def)

section \<open>Progress\<close>

text \<open>The workers alone, while there is no shutdown and no call of \<open>submit\<close>.\<close>

inductive works :: "pool \<Rightarrow> pool \<Rightarrow> bool" where
  refl: "works s s"
| more: "i < length (wp_phases s) \<Longrightarrow> works (worker_step start i s) s' \<Longrightarrow> works s s'"

lemma works_trans: "works s s' \<Longrightarrow> works s' s'' \<Longrightarrow> works s s''"
  by (induction rule: works.induct) (auto intro: works.more)

definition ready :: "pool \<Rightarrow> bool" where
  "ready s \<longleftrightarrow> in_range s \<and> \<not> wp_stop s \<and> wp_clients s = [] \<and> (\<forall>p\<in>set (wp_phases s). \<not> leaving p)"

lemma worker_step_frame:
  "wp_stop (worker_step start i s) = wp_stop s" "wp_clients (worker_step start i s) = wp_clients s"
  "length (wp_phases (worker_step start i s)) = length (wp_phases s)"
  by (simp_all add: worker_step_def goto_def set_queue_def Let_def split: phase.split list.split)

lemma ready_worker:
  assumes "ready s" "i < length (wp_phases s)"
  shows "ready (worker_step start i s)"
proof -
  have p: "\<not> leaving (wp_phases s ! i)" "\<not> wp_stop s"
    using assms nth_mem [OF assms(2)] by (auto simp: ready_def)
  have "\<exists>p. \<not> leaving p \<and> wp_phases (worker_step start i s) = (wp_phases s)[i := p]"
    using p by (cases "wp_phases s ! i"; simp add: worker_step_def goto_def set_queue_def Let_def split: list.split;
      force)
  then have "\<forall>p\<in>set (wp_phases (worker_step start i s)). \<not> leaving p"
    using assms(1) set_update_subset_insert [of "wp_phases s" i] by (force simp: ready_def)
  moreover have "in_range (worker_step start i s)"
    using in_range_step [OF _ pool_step.worker [OF assms(2)]] assms(1) by (auto simp: ready_def)
  ultimately show ?thesis using assms(1) by (simp add: ready_def worker_step_frame)
qed

fun phase_work :: "phase \<Rightarrow> int" where
  "phase_work (Run d t) = 2"
| "phase_work (Finish d) = 1"
| "phase_work p = 0"

definition work :: "pool \<Rightarrow> int" where
  "work s = sum_list (map (\<lambda>q. sum_list (map (\<lambda>t. 3) q)) (wp_queues s)) + sum_list (map phase_work (wp_phases s))"

fun distance :: "phase \<Rightarrow> nat" where
  "distance (Steal vs) = 3 + length vs"
| "distance Wait = 2"
| "distance Check = 1"
| "distance p = 0"

lemma worker_progress:
  assumes "ready s" "i < length (wp_phases s)" "busy (wp_phases s ! i) \<or> wp_queues s ! i \<noteq> []"
  shows "work (worker_step 0 i s) < work s \<or>
    work (worker_step 0 i s) = work s \<and> wp_queues (worker_step 0 i s) ! i \<noteq> [] \<and>
    distance (wp_phases (worker_step 0 i s) ! i) < distance (wp_phases s ! i)"
proof -
  have r: "in_range s" and i: "i < length (wp_phases s)" "i < length (wp_queues s)"
    and p: "\<not> leaving (wp_phases s ! i)" "\<not> wp_stop s"
    using assms nth_mem [OF assms(2)] by (auto simp: ready_def in_range_def)
  note v = in_range_steal [OF r _ i(1)]
  note defs = worker_step_def work_def goto_def set_queue_def Let_def sums
  show ?thesis
  proof (cases "wp_phases s ! i")
    case (Steal vs)
    with v [of vs "hd vs"] i p assms(3) show ?thesis by (cases vs) (auto simp: defs)
  qed (use i p assms(3) in \<open>auto simp: defs\<close>)
qed

lemma ready_works: "works s s' \<Longrightarrow> ready s \<Longrightarrow> ready s'"
  by (induction rule: works.induct) (simp_all add: ready_worker)

lemma works_less:
  assumes "ready s" "i < length (wp_phases s)" "busy (wp_phases s ! i) \<or> wp_queues s ! i \<noteq> []"
  shows "\<exists>s'. works s s' \<and> work s' < work s"
  using assms
proof (induction "distance (wp_phases s ! i)" arbitrary: s rule: less_induct)
  case less
  let ?s = "worker_step 0 i s"
  have one: "works s ?s" using less.prems(2) works.refl by (rule works.more)
  from worker_progress [OF less.prems] show ?case
  proof
    assume "work ?s < work s"
    with one show ?thesis by blast
  next
    assume a: "work ?s = work s \<and> wp_queues ?s ! i \<noteq> [] \<and> distance (wp_phases ?s ! i) < distance (wp_phases s ! i)"
    with less.hyps [of ?s] ready_worker [OF less.prems(1,2)] less.prems(2)
    obtain s' where "works ?s s'" "work s' < work ?s" by (auto simp: worker_step_frame)
    with one a show ?thesis by (metis works_trans)
  qed
qed

lemma work_nonneg: "work s \<ge> 0"
proof -
  have "phase_work p \<ge> 0" for p by (cases p) simp_all
  then show ?thesis unfolding work_def by (intro add_nonneg_nonneg sum_list_nonneg) (auto simp: sum_list_triv)
qed

lemma outstanding_somewhere:
  assumes "ready s" "outstanding s \<noteq> 0"
  shows "\<exists>i<length (wp_phases s). busy (wp_phases s ! i) \<or> wp_queues s ! i \<noteq> []"
proof (rule ccontr)
  assume "\<not> ?thesis"
  then have "filter busy (wp_phases s) = []" "\<forall>q\<in>set (wp_queues s). q = []"
    using assms(1) by (auto simp: ready_def in_range_def filter_empty_conv in_set_conv_nth)
  then have "pending s = 0" by (simp add: pending_def)
  with \<open>filter busy (wp_phases s) = []\<close> assms show False by (simp add: outstanding_def ready_def)
qed

lemma works_to_idle: "ready s \<Longrightarrow> \<exists>s'. works s s' \<and> outstanding s' = 0"
proof (induction "nat (work s)" arbitrary: s rule: less_induct)
  case less
  show ?case
  proof (cases "outstanding s = 0")
    case False
    then obtain i where "i < length (wp_phases s)" "busy (wp_phases s ! i) \<or> wp_queues s ! i \<noteq> []"
      using outstanding_somewhere less.prems by blast
    then obtain s' where s': "works s s'" "work s' < work s" using works_less less.prems by blast
    with less.hyps [of s'] ready_works [OF s'(1) less.prems] work_nonneg [of s'] work_nonneg [of s]
    show ?thesis by (auto intro: works_trans)
  qed (auto intro: works.refl)
qed

lemma leaving_reach: "pool_reach orderly s \<Longrightarrow> \<not> wp_stop s \<Longrightarrow> pool_reach True s"
proof (induction rule: pool_reach.induct)
  case (step s s')
  from step(2) have mono: "wp_stop s \<longrightarrow> wp_stop s'"
    by cases (simp_all add: worker_step_frame submit_step_def submit_call_def shutdown_def set_queue_def leave_def
        split: client.split)
  from step(2) have "pool_step True s s'" using step.prems
    by cases (auto intro: pool_step.intros simp: shutdown_def)
  with step mono show ?case by (blast intro: pool_reach.step)
qed (rule pool_reach.init)

text \<open>C36: The pool cannot deadlock.  From every reachable state without a shutdown and without a
  \<open>submit\<close> under way, the workers by themselves can reach a state in which every submitted task has
  been run and \<open>wait_idle\<close> returns.\<close>

theorem pool_progress:
  assumes "pool_reach orderly s" "\<not> wp_stop s" "wp_clients s = []"
  shows "\<exists>s'. works s s' \<and> idle s' \<and> mset (wp_ran s') = mset (wp_submitted s)"
proof -
  note r = leaving_reach [OF assms(1,2)]
  have "ready s" using drained_reach [OF r] in_range_reach [OF r] assms(2,3)
    by (auto simp: ready_def drained_def)
  then obtain s' where s': "works s s'" "outstanding s' = 0" using works_to_idle by blast
  have reach: "works s s' \<Longrightarrow> pool_reach True s \<Longrightarrow> pool_reach True s' \<and> wp_submitted s' = wp_submitted s" for s
  proof (induction rule: works.induct)
    case (more i s start s')
    have "wp_submitted (worker_step start i s) = wp_submitted s"
      by (simp add: worker_step_def goto_def set_queue_def Let_def split: phase.split list.split)
    moreover have "pool_reach True (worker_step start i s)"
      using more.prems more.hyps(1) by (rule pool_reach.step [OF _ pool_step.worker])
    ultimately show ?case using more.IH by simp
  qed simp
  from reach [OF s'(1) r] have r': "pool_reach True s'" "wp_submitted s' = wp_submitted s" by auto
  from ready_works [OF s'(1) \<open>ready s\<close>] have st: "\<not> wp_stop s'" "wp_clients s' = []" by (auto simp: ready_def)
  have "concat (wp_queues s') = []" using s'(2) by (auto simp: outstanding_def pending_def)
  moreover have "\<forall>p\<in>set (wp_phases s'). \<not> busy p" using s'(2) by (auto simp: outstanding_def filter_empty_conv)
  then have "concat (map phase_tasks (wp_phases s')) = []" using not_busy by auto
  moreover have "wp_rejected s' = []" using rejected_reach [OF r'(1)] st by blast
  moreover have "idle s'" using conservation [OF r'(1)] s'(2) by (simp add: idle_def)
  ultimately show ?thesis using conservation [OF r'(1)] r'(2) st(2) s'(1) by auto
qed

lemma pool_progress_witness:
  "\<exists>s'. works (pool_create 1 4) s' \<and> idle s' \<and> mset (wp_ran s') = mset (wp_submitted (pool_create 1 4))"
  by (rule pool_progress [OF pool_reach.init [of True]]) (simp_all add: pool_create_def)

text \<open>An instance of the parallel build: one worker, one input.\<close>

definition one_submitted :: pool where
  "one_submitted = submit_step 0 (submit_step 0 (submit_step 0 (submit_step 0 (submit_call 0 (pool_create 1 1)))))"

definition one_done :: pool where
  "one_done = worker_step 0 0 (worker_step 0 0 (worker_step 0 0 (worker_step 0 0 one_submitted)))"

lemma one_eval:
  "one_submitted = \<lparr>wp_queues = [[0]], wp_phases = [Check], wp_stop = False, wp_active = 1, wp_next_push = 1,
     wp_clients = [], wp_ran = [], wp_rejected = [], wp_submitted = [0]\<rparr>"
  "one_done = \<lparr>wp_queues = [[]], wp_phases = [Check], wp_stop = False, wp_active = 0, wp_next_push = 1,
     wp_clients = [], wp_ran = [0], wp_rejected = [], wp_submitted = [0]\<rparr>"
  by (simp_all add: one_submitted_def one_done_def submit_step_def submit_call_def
      pool_create_def worker_step_def goto_def set_queue_def leave_def Let_def)

lemma submit_reach:
  "pool_reach orderly s \<Longrightarrow> length (wp_clients s) = 1 \<Longrightarrow> pool_reach orderly (submit_step 0 s)"
  by (rule pool_reach.step [OF _ pool_step.submit]) simp_all

lemma worker_reach:
  "pool_reach orderly s \<Longrightarrow> length (wp_phases s) = 1 \<Longrightarrow> pool_reach orderly (worker_step 0 0 s)"
  by (rule pool_reach.step [OF _ pool_step.worker]) simp_all

lemma one_reach: "pool_reach True one_done"
proof -
  have "pool_reach True (submit_call 0 (pool_create 1 1))"
    by (rule pool_reach.step [OF pool_reach.init pool_step.call])
  then have "pool_reach True one_submitted" unfolding one_submitted_def
    by (intro submit_reach) (simp_all add: submit_call_def submit_step_def pool_create_def)
  then show ?thesis unfolding one_done_def
    by (intro worker_reach) (simp_all add: worker_step_frame one_eval(1))
qed

lemma parallel_build_sequential_witness:
  "build demo_pipeline [''src/a''] (wp_ran one_done) (None, demo_disk) =
   build demo_pipeline [''src/a''] [0..<length [''src/a'']] (None, demo_disk)"
  by (rule parallel_build_sequential [OF one_reach])
     (simp_all add: one_eval(2) idle_def all_independent_def path_filename_def output_path_def demo_pipeline_def)

end
