(* ===== verification/Nift_Keywords.thy ===== *)
theory Nift_Keywords
  imports Nift_Core
begin

text \<open>
  The word tables of \<open>crates/markdown/src/code_highlight.cpp\<close>: the languages, their names in the
  info string of a code fence, and the keyword lists the tokenizers compare identifiers with.
\<close>

datatype language =
    Lang_Unknown | Lang_Cpp | Lang_C | Lang_Python | Lang_JavaScript | Lang_TypeScript | Lang_Rust
  | Lang_Go | Lang_Bash | Lang_Json | Lang_Yaml | Lang_Html | Lang_Css | Lang_Lua | Lang_Diff

definition detect_language :: "string \<Rightarrow> language" where
  "detect_language info =
     (let lower = map tolower (takeWhile (\<lambda>c. c \<noteq> CHR '' '' \<and> c \<noteq> CHR 0x09) info) in
      if lower \<in> {''cpp'', ''c++'', ''cxx'', ''cc''} then Lang_Cpp
      else if lower = ''c'' then Lang_C
      else if lower \<in> {''python'', ''py''} then Lang_Python
      else if lower \<in> {''javascript'', ''js''} then Lang_JavaScript
      else if lower \<in> {''typescript'', ''ts''} then Lang_TypeScript
      else if lower \<in> {''rust'', ''rs''} then Lang_Rust
      else if lower = ''go'' then Lang_Go
      else if lower \<in> {''bash'', ''sh'', ''shell'', ''zsh''} then Lang_Bash
      else if lower = ''json'' then Lang_Json
      else if lower \<in> {''yaml'', ''yml''} then Lang_Yaml
      else if lower \<in> {''html'', ''htm''} then Lang_Html
      else if lower = ''css'' then Lang_Css
      else if lower = ''lua'' then Lang_Lua
      else if lower \<in> {''diff'', ''patch''} then Lang_Diff
      else Lang_Unknown)"

definition is_cpp_keyword :: "string \<Rightarrow> bool" where
  "is_cpp_keyword word \<longleftrightarrow> word \<in> set [
    ''alignas'', ''alignof'', ''and'', ''and_eq'', ''asm'', ''auto'', ''bitand'', ''bitor'', ''bool'',
    ''break'', ''case'', ''catch'', ''char'', ''char8_t'', ''char16_t'', ''char32_t'', ''class'',
    ''compl'', ''concept'', ''const'', ''consteval'', ''constexpr'', ''constinit'', ''const_cast'',
    ''continue'', ''co_await'', ''co_return'', ''co_yield'', ''decltype'', ''default'', ''delete'',
    ''do'', ''double'', ''dynamic_cast'', ''else'', ''enum'', ''explicit'', ''export'', ''extern'',
    ''false'', ''float'', ''for'', ''friend'', ''goto'', ''if'', ''inline'', ''int'', ''long'',
    ''mutable'', ''namespace'', ''new'', ''noexcept'', ''not'', ''not_eq'', ''nullptr'', ''operator'',
    ''or'', ''or_eq'', ''private'', ''protected'', ''public'', ''register'', ''reinterpret_cast'',
    ''requires'', ''return'', ''short'', ''signed'', ''sizeof'', ''static'', ''static_assert'',
    ''static_cast'', ''struct'', ''switch'', ''template'', ''this'', ''thread_local'', ''throw'',
    ''true'', ''try'', ''typedef'', ''typeid'', ''typename'', ''union'', ''unsigned'', ''using'',
    ''virtual'', ''void'', ''volatile'', ''wchar_t'', ''while'', ''xor'', ''xor_eq'', ''int8_t'',
    ''int16_t'', ''int32_t'', ''int64_t'', ''uint8_t'', ''uint16_t'', ''uint32_t'', ''uint64_t'',
    ''size_t'', ''ptrdiff_t'', ''nullptr_t'', ''string'', ''string_view'', ''vector'', ''map'',
    ''set'', ''pair'', ''optional'', ''variant'', ''unique_ptr'', ''shared_ptr'', ''array'', ''span'',
    ''std'', ''fmt'', ''nift'']"

definition is_python_keyword :: "string \<Rightarrow> bool" where
  "is_python_keyword word \<longleftrightarrow> word \<in> set [
    ''and'', ''as'', ''assert'', ''async'', ''await'', ''break'', ''class'', ''continue'', ''def'',
    ''del'', ''elif'', ''else'', ''except'', ''finally'', ''for'', ''from'', ''global'', ''if'',
    ''import'', ''in'', ''is'', ''lambda'', ''nonlocal'', ''not'', ''or'', ''pass'', ''raise'',
    ''return'', ''try'', ''while'', ''with'', ''yield'', ''True'', ''False'', ''None'', ''self'',
    ''cls'']"

definition is_js_keyword :: "string \<Rightarrow> bool" where
  "is_js_keyword word \<longleftrightarrow> word \<in> set [
    ''abstract'', ''arguments'', ''async'', ''await'', ''boolean'', ''break'', ''byte'', ''case'',
    ''catch'', ''char'', ''class'', ''const'', ''continue'', ''debugger'', ''default'', ''delete'',
    ''do'', ''double'', ''else'', ''enum'', ''export'', ''extends'', ''false'', ''final'', ''finally'',
    ''float'', ''for'', ''function'', ''goto'', ''if'', ''implements'', ''import'', ''in'',
    ''instanceof'', ''int'', ''interface'', ''let'', ''long'', ''native'', ''new'', ''null'', ''of'',
    ''package'', ''private'', ''protected'', ''public'', ''return'', ''short'', ''static'', ''super'',
    ''switch'', ''this'', ''throw'', ''true'', ''try'', ''typeof'', ''undefined'', ''var'', ''void'',
    ''volatile'', ''while'', ''with'', ''yield'', ''type'', ''namespace'', ''module'', ''declare'',
    ''readonly'', ''any'', ''never'', ''unknown'', ''string'', ''number'', ''boolean'']"

definition is_rust_keyword :: "string \<Rightarrow> bool" where
  "is_rust_keyword word \<longleftrightarrow> word \<in> set [
    ''as'', ''async'', ''await'', ''break'', ''const'', ''continue'', ''crate'', ''dyn'', ''else'',
    ''enum'', ''extern'', ''false'', ''fn'', ''for'', ''if'', ''impl'', ''in'', ''let'', ''loop'',
    ''match'', ''mod'', ''move'', ''mut'', ''pub'', ''ref'', ''return'', ''self'', ''Self'',
    ''static'', ''struct'', ''super'', ''trait'', ''true'', ''type'', ''unsafe'', ''use'', ''where'',
    ''while'', ''abstract'', ''become'', ''box'', ''do'', ''final'', ''macro'', ''override'', ''priv'',
    ''try'', ''typeof'', ''unsized'', ''virtual'', ''yield'', ''bool'', ''char'', ''f32'', ''f64'',
    ''i8'', ''i16'', ''i32'', ''i64'', ''i128'', ''isize'', ''str'', ''u8'', ''u16'', ''u32'', ''u64'',
    ''u128'', ''usize'', ''Option'', ''Result'', ''Some'', ''None'', ''Ok'', ''Err'', ''Vec'',
    ''String'', ''Box'', ''Rc'', ''Arc'', ''Cell'', ''RefCell'', ''Mutex'']"

definition is_go_keyword :: "string \<Rightarrow> bool" where
  "is_go_keyword word \<longleftrightarrow> word \<in> set [
    ''break'', ''case'', ''chan'', ''const'', ''continue'', ''default'', ''defer'', ''else'',
    ''fallthrough'', ''for'', ''func'', ''go'', ''goto'', ''if'', ''import'', ''interface'', ''map'',
    ''package'', ''range'', ''return'', ''select'', ''struct'', ''switch'', ''type'', ''var'',
    ''true'', ''false'', ''nil'', ''iota'', ''bool'', ''byte'', ''complex64'', ''complex128'',
    ''error'', ''float32'', ''float64'', ''int'', ''int8'', ''int16'', ''int32'', ''int64'', ''rune'',
    ''string'', ''uint'', ''uint8'', ''uint16'', ''uint32'', ''uint64'', ''uintptr'', ''append'',
    ''cap'', ''close'', ''complex'', ''copy'', ''delete'', ''imag'', ''len'', ''make'', ''new'',
    ''panic'', ''print'', ''println'', ''real'', ''recover'']"

fun is_keyword :: "string \<Rightarrow> language \<Rightarrow> bool" where
  "is_keyword word lang =
     (case lang of
        Lang_Cpp \<Rightarrow> is_cpp_keyword word
      | Lang_C \<Rightarrow> is_cpp_keyword word
      | Lang_Python \<Rightarrow> is_python_keyword word
      | Lang_JavaScript \<Rightarrow> is_js_keyword word
      | Lang_TypeScript \<Rightarrow> is_js_keyword word
      | Lang_Rust \<Rightarrow> is_rust_keyword word
      | Lang_Go \<Rightarrow> is_go_keyword word
      | _ \<Rightarrow> False)"

definition is_bash_word :: "string \<Rightarrow> bool" where
  "is_bash_word word \<longleftrightarrow> word \<in> set [
    ''if'', ''then'', ''else'', ''elif'', ''fi'', ''for'', ''while'', ''do'', ''done'', ''case'',
    ''esac'', ''in'', ''function'', ''return'', ''local'', ''export'', ''source'', ''exit'', ''set'',
    ''unset'', ''shift'', ''declare'', ''readonly'', ''trap'', ''true'', ''false'', ''echo'', ''cd'',
    ''ls'', ''cat'', ''grep'', ''sed'', ''awk'', ''mkdir'', ''rm'', ''cp'', ''mv'', ''chmod'',
    ''chown'', ''sudo'', ''apt'', ''apt-get'', ''pip'', ''npm'', ''cargo'', ''git'', ''make'',
    ''cmake'', ''curl'', ''wget'', ''nift'']"

definition is_lua_word :: "string \<Rightarrow> bool" where
  "is_lua_word word \<longleftrightarrow> word \<in> set [
    ''and'', ''break'', ''do'', ''else'', ''elseif'', ''end'', ''false'', ''for'', ''function'',
    ''goto'', ''if'', ''in'', ''local'', ''nil'', ''not'', ''or'', ''repeat'', ''return'', ''then'',
    ''true'', ''until'', ''while'']"

end
