(* ===== verification/Nift_Highlight.thy ===== *)
theory Nift_Highlight
  imports Nift_Keywords "HOL-Library.Monad_Syntax"
begin

text \<open>
  The syntax highlighter, \<open>crates/markdown/src/code_highlight.cpp\<close>.  Every tokenizer walks the code
  from left to right and never looks back, so its state is the rest of the code: \<open>code[i + k]\<close> is
  byte \<open>k\<close> of the rest, and a scanner returns the bytes it passes and what is left.  A step of a
  tokenizer returns the pieces it appends to \<open>out\<close> (\<open>span(cls, text)\<close> or \<open>escape(text)\<close>); the loop
  around it is a partial function, \<open>None\<close> when the C++ does not return.

  The lemmas show that highlighting is lossless: what a browser shows of the result is the code,
  for every language but three, and how those three fail (\<open>r#name\<close> in Rust, a final newline in
  a diff, tags that make the HTML tokenizer loop).
\<close>

section \<open>Output\<close>

definition html_escape_char :: "char \<Rightarrow> string" where
  "html_escape_char c =
     (if c = CHR ''&'' then ''&amp;''
      else if c = CHR ''<'' then ''&lt;''
      else if c = CHR ''>'' then ''&gt;''
      else if c = CHR 0x22 then ''&quot;''
      else [c])"

definition html_escape :: "string \<Rightarrow> string" where
  "html_escape s = concat (map html_escape_char s)"

text \<open>The classes of the spans, and their names.\<close>

datatype hl_class =
    Hl_add | Hl_comment | Hl_decorator | Hl_del | Hl_func | Hl_hunk | Hl_key
  | Hl_keyword | Hl_number | Hl_op | Hl_preproc | Hl_string | Hl_var

fun class_name :: "hl_class \<Rightarrow> string" where
  "class_name Hl_add = ''hl-add''"
| "class_name Hl_comment = ''hl-comment''"
| "class_name Hl_decorator = ''hl-decorator''"
| "class_name Hl_del = ''hl-del''"
| "class_name Hl_func = ''hl-func''"
| "class_name Hl_hunk = ''hl-hunk''"
| "class_name Hl_key = ''hl-key''"
| "class_name Hl_keyword = ''hl-keyword''"
| "class_name Hl_number = ''hl-number''"
| "class_name Hl_op = ''hl-op''"
| "class_name Hl_preproc = ''hl-preproc''"
| "class_name Hl_string = ''hl-string''"
| "class_name Hl_var = ''hl-var''"

datatype piece = Span hl_class string | Plain string

fun piece_text :: "piece \<Rightarrow> string" where
  "piece_text (Span cls text) = text"
| "piece_text (Plain text) = text"

fun piece_html :: "piece \<Rightarrow> string" where
  "piece_html (Span cls text) =
     ''<span class='' @ [CHR 0x22] @ class_name cls @ [CHR 0x22] @ ''>'' @ html_escape text @ ''</span>''"
| "piece_html (Plain text) = html_escape text"

partial_function (option) highlight_loop ::
    "(string \<Rightarrow> (piece list \<times> string) option) \<Rightarrow> string \<Rightarrow> string option" where
  "highlight_loop step code =
     (if code = [] then Some []
      else do {
        (ps, rest) \<leftarrow> step code;
        out \<leftarrow> highlight_loop step rest;
        Some (concat (map piece_html ps) @ out) })"

declare highlight_loop.simps [code]

section \<open>Scanners\<close>

text \<open>\<open>is_alnum\<close> and \<open>is_digit\<close> of this file; a letter or underscore; \<open>code[i + k] == c\<close>.\<close>

definition is_word_char :: "char \<Rightarrow> bool" where
  "is_word_char c \<longleftrightarrow> islower c \<or> isupper c \<or> isdigit c \<or> c = CHR ''_''"

definition is_word_start :: "char \<Rightarrow> bool" where
  "is_word_start c \<longleftrightarrow> islower c \<or> isupper c \<or> c = CHR ''_''"

definition is_hex :: "char \<Rightarrow> bool" where
  "is_hex c \<longleftrightarrow> isdigit c \<or> (97 \<le> byte c \<and> byte c \<le> 102) \<or> (65 \<le> byte c \<and> byte c \<le> 70)"

definition peek_is :: "nat \<Rightarrow> char \<Rightarrow> string \<Rightarrow> bool" where
  "peek_is k c cs \<longleftrightarrow> k < length cs \<and> cs ! k = c"

definition scan_while :: "(char \<Rightarrow> bool) \<Rightarrow> string \<Rightarrow> string \<times> string" where
  "scan_while P cs = (takeWhile P cs, dropWhile P cs)"

definition scan_then :: "string \<times> string \<Rightarrow> (string \<Rightarrow> string \<times> string) \<Rightarrow> string \<times> string" where
  "scan_then tr f = (let (t, r) = tr; (t', r') = f r in (t @ t', r'))"

definition scan_n :: "nat \<Rightarrow> string \<Rightarrow> string \<times> string" where
  "scan_n n cs = (take n cs, drop n cs)"

text \<open>\<open>scan_n 1\<close> is \<open>if (i < len) ++i;\<close>.\<close>

definition scan_line :: "string \<Rightarrow> string \<times> string" where
  "scan_line cs = scan_while (\<lambda>c. c \<noteq> NL) cs"

text \<open>The inside of a string up to and with its closing quote; a backslash skips a byte.\<close>

fun scan_quoted :: "char \<Rightarrow> string \<Rightarrow> string \<times> string" where
  "scan_quoted q [] = ([], [])"
| "scan_quoted q (c # cs) =
     (if c = q then ([c], cs)
      else if c = CHR 0x5C then
        (case cs of
           [] \<Rightarrow> ([c], [])
         | d # cs' \<Rightarrow> let (t, r) = scan_quoted q cs' in (c # d # t, r))
      else let (t, r) = scan_quoted q cs in (c # t, r))"

text \<open>Up to and with the bytes \<open>close\<close>.  Without them the loop \<open>i + n - 1 < len\<close> stops when fewer than
  \<open>n\<close> bytes are left.\<close>

fun scan_close :: "string \<Rightarrow> string \<Rightarrow> string \<times> string" where
  "scan_close close [] = ([], [])"
| "scan_close close (c # cs) =
     (if length (c # cs) < length close then ([], c # cs)
      else if take (length close) (c # cs) = close then (close, drop (length close) (c # cs))
      else let (t, r) = scan_close close cs in (c # t, r))"

text \<open>\<open>code.find(close, i)\<close>: up to and with \<open>close\<close>, else all.\<close>

definition scan_find :: "string \<Rightarrow> string \<Rightarrow> string \<times> string" where
  "scan_find close cs =
     (case find_sub close cs of
        None \<Rightarrow> (cs, [])
      | Some k \<Rightarrow> scan_n (k + length close) cs)"

text \<open>The inside of a Rust raw string with \<open>n\<close> hashes.\<close>

fun scan_raw :: "nat \<Rightarrow> string \<Rightarrow> string \<times> string" where
  "scan_raw n [] = ([], [])"
| "scan_raw n (c # cs) =
     (if c = CHR 0x22 \<and> length (takeWhile (\<lambda>h. h = CHR ''#'') (take n cs)) = n
      then (c # take n cs, drop n cs)
      else let (t, r) = scan_raw n cs in (c # t, r))"

definition tok :: "hl_class \<Rightarrow> string \<times> string \<Rightarrow> piece list \<times> string" where
  "tok cls tr = ([Span cls (fst tr)], snd tr)"

text \<open>An exponent; the digits of a number in the C family and in Lua.\<close>

definition scan_exponent :: "string \<Rightarrow> string \<times> string" where
  "scan_exponent cs =
     (if peek_is 0 (CHR ''e'') cs \<or> peek_is 0 (CHR ''E'') cs then
        scan_then
          (scan_then (scan_n 1 cs)
             (\<lambda>r. if peek_is 0 (CHR ''+'') r \<or> peek_is 0 (CHR ''-'') r then scan_n 1 r else ([], r)))
          (scan_while isdigit)
      else ([], cs))"

definition scan_decimal :: "string \<Rightarrow> string \<times> string" where
  "scan_decimal cs = scan_then (scan_while (\<lambda>c. isdigit c \<or> c = CHR ''.'') cs) scan_exponent"

definition scan_hex :: "string \<Rightarrow> string \<times> string" where
  "scan_hex cs = scan_then (scan_n 2 cs) (scan_while is_hex)"

section \<open>The C family\<close>

definition scan_number :: "string \<Rightarrow> string \<times> string" where
  "scan_number cs =
     scan_then
       (if peek_is 0 (CHR ''0'') cs \<and> (peek_is 1 (CHR ''x'') cs \<or> peek_is 1 (CHR ''X'') cs) then scan_hex cs
        else if peek_is 0 (CHR ''0'') cs \<and> (peek_is 1 (CHR ''b'') cs \<or> peek_is 1 (CHR ''B'') cs)
        then scan_then (scan_n 2 cs) (scan_while (\<lambda>c. c = CHR ''0'' \<or> c = CHR ''1''))
        else scan_decimal cs)
       (scan_while (\<lambda>c. c \<in> set ''fulLUFzi_''))"

definition scan_rust_raw :: "string \<Rightarrow> (string \<times> string) option" where
  "scan_rust_raw cs =
     (let (hashes, r) = scan_while (\<lambda>c. c = CHR ''#'') (tl cs) in
      if peek_is 0 (CHR 0x22) r
      then Some (scan_then (scan_then (scan_n 1 cs) (\<lambda>r. (hashes, drop (length hashes) r)))
             (\<lambda>r. scan_then (scan_n 1 r) (scan_raw (length hashes))))
      else None)"

definition is_c_op :: "char \<Rightarrow> bool" where
  "is_c_op c \<longleftrightarrow> c \<in> set ''+-*/%=!<>&|^~?:''"

text \<open>From \<open>Numbers\<close> on.  The byte \<open>c\<close> was read before a failed raw string moved the cursor.\<close>

definition c_family_rest :: "language \<Rightarrow> char \<Rightarrow> string \<Rightarrow> piece list \<times> string" where
  "c_family_rest lang c cs =
     (if isdigit c \<or> (c = CHR ''.'' \<and> 1 < length cs \<and> isdigit (cs ! 1)) then tok Hl_number (scan_number cs)
      else if c = CHR ''#'' \<and> (lang = Lang_Cpp \<or> lang = Lang_C) then tok Hl_preproc (scan_line cs)
      else if c = CHR ''@'' \<and> lang = Lang_Python
      then tok Hl_decorator (scan_then (scan_n 1 cs) (scan_while is_word_char))
      else if c = CHR ''#'' \<and> lang = Lang_Rust \<and> peek_is 1 (CHR ''['') cs
      then tok Hl_preproc
        (scan_then (scan_then (scan_n 2 cs) (scan_while (\<lambda>c. c \<noteq> CHR '']''))) (scan_n 1))
      else if is_word_start c then
        let (word, r) = scan_while is_word_char cs in
        if is_keyword word lang then ([Span Hl_keyword word], r)
        else if peek_is 0 (CHR ''('') r then ([Span Hl_func word], r)
        else ([Plain word], r)
      else if is_c_op c then ([Span Hl_op [c]], tl cs)
      else ([Plain [c]], tl cs))"

definition c_family_step :: "language \<Rightarrow> string \<Rightarrow> piece list \<times> string" where
  "c_family_step lang cs =
     (let c = hd cs in
      if c = CHR ''/'' \<and> peek_is 1 (CHR ''/'') cs then tok Hl_comment (scan_line cs)
      else if c = CHR ''/'' \<and> peek_is 1 (CHR ''*'') cs
      then tok Hl_comment (scan_then (scan_n 2 cs) (scan_close ''*/''))
      else if lang = Lang_Rust \<and> c = CHR ''/'' \<and> peek_is 1 (CHR ''/'') cs then tok Hl_comment (scan_line cs)
      else if c = CHR 0x22 then tok Hl_string (scan_then (scan_n 1 cs) (scan_quoted (CHR 0x22)))
      else if c = CHR 0x27 \<and> (lang = Lang_Cpp \<or> lang = Lang_C)
      then tok Hl_string (scan_then (scan_n 1 cs) (scan_quoted (CHR 0x27)))
      else if c = CHR 0x27 \<and> lang = Lang_Python then
        if peek_is 1 (CHR 0x27) cs \<and> peek_is 2 (CHR 0x27) cs
        then tok Hl_string (scan_then (scan_n 3 cs) (scan_close (replicate 3 (CHR 0x27))))
        else tok Hl_string (scan_then (scan_n 1 cs) (scan_quoted (CHR 0x27)))
      else if c = CHR 0x22 \<and> peek_is 1 (CHR 0x22) cs \<and> peek_is 2 (CHR 0x22) cs
      then tok Hl_string (scan_then (scan_n 3 cs) (scan_close (replicate 3 (CHR 0x22))))
      else if lang = Lang_Python \<and> c = CHR ''f'' \<and> peek_is 1 (CHR 0x22) cs
      then tok Hl_string (scan_then (scan_n 2 cs) (scan_quoted (CHR 0x22)))
      else if c = CHR 0x60 \<and> (lang = Lang_JavaScript \<or> lang = Lang_TypeScript)
      then tok Hl_string (scan_then (scan_n 1 cs) (scan_quoted (CHR 0x60)))
      else if lang = Lang_Rust \<and> c = CHR ''r'' \<and> (peek_is 1 (CHR ''#'') cs \<or> peek_is 1 (CHR 0x22) cs)
      then case scan_rust_raw cs of
          Some tr \<Rightarrow> tok Hl_string tr
        | None \<Rightarrow> c_family_rest lang c (tl cs)
      else c_family_rest lang c cs)"

definition highlight_c_family :: "string \<Rightarrow> language \<Rightarrow> string option" where
  "highlight_c_family code lang = highlight_loop (\<lambda>cs. Some (c_family_step lang cs)) code"

section \<open>Bash and JSON\<close>

definition is_bash_op :: "char \<Rightarrow> bool" where
  "is_bash_op c \<longleftrightarrow> c \<in> set ''|&;><(){}''"

definition bash_step :: "string \<Rightarrow> piece list \<times> string" where
  "bash_step cs =
     (let c = hd cs in
      if c = CHR ''#'' then tok Hl_comment (scan_line cs)
      else if c = CHR 0x22 then tok Hl_string (scan_then (scan_n 1 cs) (scan_quoted (CHR 0x22)))
      else if c = CHR 0x27
      then tok Hl_string
        (scan_then (scan_then (scan_n 1 cs) (scan_while (\<lambda>c. c \<noteq> CHR 0x27))) (scan_n 1))
      else if c = CHR ''$'' then
        tok Hl_var
          (if peek_is 1 (CHR ''{'') cs
           then scan_then (scan_then (scan_n 2 cs) (scan_while (\<lambda>c. c \<noteq> CHR ''}''))) (scan_n 1)
           else scan_then (scan_n 1 cs) (scan_while (\<lambda>c. is_word_char c \<or> c = CHR ''?'')))
      else if isdigit c then tok Hl_number (scan_while isdigit cs)
      else if is_word_start c then
        let (word, r) = scan_while is_word_char cs in
        if is_bash_word word then ([Span Hl_keyword word], r) else ([Plain word], r)
      else if is_bash_op c then ([Span Hl_op [c]], tl cs)
      else ([Plain [c]], tl cs))"

definition highlight_bash :: "string \<Rightarrow> string option" where
  "highlight_bash code = highlight_loop (\<lambda>cs. Some (bash_step cs)) code"

definition json_step :: "string \<Rightarrow> piece list \<times> string" where
  "json_step cs =
     (let c = hd cs in
      if c = CHR 0x22 then
        let (t, r) = scan_then (scan_n 1 cs) (scan_quoted (CHR 0x22)) in
        if peek_is 0 (CHR '':'') (dropWhile (\<lambda>c. c = CHR '' '' \<or> c = CHR 0x09) r)
        then ([Span Hl_key t], r) else ([Span Hl_string t], r)
      else if isdigit c \<or> c = CHR ''-'' then
        tok Hl_number
          (scan_then (if c = CHR ''-'' then scan_n 1 cs else ([], cs))
             (scan_while (\<lambda>c. isdigit c \<or> c \<in> set ''.eE+-'')))
      else if take 4 cs = ''true'' then ([Span Hl_keyword ''true''], drop 4 cs)
      else if take 5 cs = ''false'' then ([Span Hl_keyword ''false''], drop 5 cs)
      else if take 4 cs = ''null'' then ([Span Hl_keyword ''null''], drop 4 cs)
      else if c \<in> set ''{}[]:'' then ([Span Hl_op [c]], tl cs)
      else ([Plain [c]], tl cs))"

definition highlight_json :: "string \<Rightarrow> string option" where
  "highlight_json code = highlight_loop (\<lambda>cs. Some (json_step cs)) code"

section \<open>YAML and CSS\<close>

text \<open>The scan of a key reads \<open>code[i]\<close> without a check of \<open>i < len\<close>; at the end of the code it stops
  here, as it does in C++ when the byte behind the view is no dash.\<close>

definition yaml_step :: "string \<Rightarrow> piece list \<times> string" where
  "yaml_step cs =
     (let c = hd cs in
      if c = CHR ''#'' then tok Hl_comment (scan_line cs)
      else if c = CHR 0x22 \<or> c = CHR 0x27 then tok Hl_string (scan_then (scan_n 1 cs) (scan_quoted c))
      else if is_word_start c then
        let (word, r) = scan_while (\<lambda>c. is_word_char c \<or> c = CHR ''-'') cs in
        if peek_is 0 (CHR '':'') (dropWhile (\<lambda>c. c = CHR '' '') r)
        then ([Span Hl_key word], r) else ([Plain word], r)
      else if take 4 cs = ''true'' \<or> take 5 cs = ''false'' \<or> take 4 cs = ''null'' then
        let w = (if take 5 cs = ''false'' then 5 else 4) in tok Hl_keyword (scan_n w cs)
      else if isdigit c \<or> c = CHR ''-'' then
        tok Hl_number
          (scan_then (if c = CHR ''-'' then scan_n 1 cs else ([], cs))
             (scan_while (\<lambda>c. isdigit c \<or> c = CHR ''.'')))
      else if c = CHR ''-'' \<and> peek_is 1 (CHR '' '') cs then ([Span Hl_op ''-''], tl cs)
      else ([Plain [c]], tl cs))"

definition highlight_yaml :: "string \<Rightarrow> string option" where
  "highlight_yaml code = highlight_loop (\<lambda>cs. Some (yaml_step cs)) code"

definition is_unit_char :: "char \<Rightarrow> bool" where
  "is_unit_char c \<longleftrightarrow> c \<in> set ''pxemrvwh%dcifslbk''"

definition css_step :: "string \<Rightarrow> piece list \<times> string" where
  "css_step cs =
     (let c = hd cs in
      if c = CHR ''/'' \<and> peek_is 1 (CHR ''*'') cs
      then tok Hl_comment (scan_then (scan_n 2 cs) (scan_close ''*/''))
      else if c = CHR 0x22 \<or> c = CHR 0x27 then tok Hl_string (scan_then (scan_n 1 cs) (scan_quoted c))
      else if islower c \<or> c = CHR ''-'' then
        let (word, r) = scan_while (\<lambda>c. is_word_char c \<or> c = CHR ''-'') cs in
        if peek_is 0 (CHR '':'') (dropWhile (\<lambda>c. c = CHR '' '') r)
        then ([Span Hl_key word], r) else ([Plain word], r)
      else if c = CHR ''.'' \<or> c = CHR ''#''
      then tok Hl_func (scan_then (scan_n 1 cs) (scan_while (\<lambda>c. is_word_char c \<or> c = CHR ''-'')))
      else if isdigit c \<or> c = CHR ''.''
      then tok Hl_number
        (scan_then (scan_while (\<lambda>c. isdigit c \<or> c = CHR ''.'') cs) (scan_while is_unit_char))
      else if c = CHR ''@'' then tok Hl_preproc (scan_then (scan_n 1 cs) (scan_while is_word_char))
      else if c = CHR ''#'' \<and> 1 < length cs \<and> is_word_char (cs ! 1)
      then tok Hl_number (scan_then (scan_n 1 cs) (scan_while is_word_char))
      else ([Plain [c]], tl cs))"

definition highlight_css_code :: "string \<Rightarrow> string option" where
  "highlight_css_code code = highlight_loop (\<lambda>cs. Some (css_step cs)) code"

section \<open>HTML\<close>

definition is_tag_space :: "char \<Rightarrow> bool" where
  "is_tag_space c \<longleftrightarrow> c = CHR '' '' \<or> c = CHR 0x09 \<or> c = NL"

text \<open>The attribute after a name: \<open>=\<close> and a quoted value, each when it is there.\<close>

definition html_value :: "string \<Rightarrow> piece list \<times> string" where
  "html_value cs =
     (if peek_is 0 (CHR ''='') cs then
        let r = tl cs in
        if peek_is 0 (CHR 0x22) r \<or> peek_is 0 (CHR 0x27) r then
          let q = hd r; (t, r') = scan_then (scan_then (scan_n 1 r) (scan_while (\<lambda>c. c \<noteq> q))) (scan_n 1)
          in ([Span Hl_op ''='', Span Hl_string t], r')
        else ([Span Hl_op ''=''], r)
      else ([], cs))"

text \<open>One round of the loop over the attributes, and the loop.  A round may leave the cursor where it
  is; then the loop does not end.\<close>

definition html_attr :: "string \<Rightarrow> piece list \<times> string" where
  "html_attr cs =
     (if is_tag_space (hd cs) then ([Plain [hd cs]], tl cs)
      else
        let (name, r) = scan_while (\<lambda>c. is_word_char c \<or> c = CHR ''-'' \<or> c = CHR '':'') cs;
            (ps, r) = html_value r
        in ((if name \<noteq> [] then [Span Hl_func name] else []) @ ps, r))"

partial_function (option) html_attrs :: "string \<Rightarrow> (piece list \<times> string) option" where
  "html_attrs cs =
     (if cs = [] \<or> hd cs = CHR ''>'' \<or> hd cs = CHR ''/'' \<and> peek_is 1 (CHR ''>'') cs then Some ([], cs)
      else do {
        (ps, r) \<leftarrow> Some (html_attr cs);
        (ps', r) \<leftarrow> html_attrs r;
        Some (ps @ ps', r) })"

declare html_attrs.simps [code]

definition html_open :: "string \<Rightarrow> piece list \<times> string" where
  "html_open cs =
     (if peek_is 1 (CHR ''/'') cs then ([Plain ''<'', Plain ''/''], drop 2 cs) else ([Plain ''<''], tl cs))"

definition html_close :: "string \<Rightarrow> piece list \<times> string" where
  "html_close cs =
     (if peek_is 0 (CHR ''/'') cs \<and> peek_is 1 (CHR ''>'') cs then ([Span Hl_op ''/>''], drop 2 cs)
      else if peek_is 0 (CHR ''>'') cs then ([Span Hl_op ''>''], tl cs)
      else ([], cs))"

definition html_tag :: "string \<Rightarrow> (piece list \<times> string) option" where
  "html_tag cs =
     (let (open, r) = html_open cs;
          (tag_name, r) = scan_while is_word_char r
      in do {
        (attrs, r) \<leftarrow> html_attrs r;
        (let (close, r) = html_close r
         in Some (open @ [Span Hl_keyword tag_name] @ attrs @ close, r)) })"

definition html_step :: "string \<Rightarrow> (piece list \<times> string) option" where
  "html_step cs =
     (if take 4 cs = ''<!--'' then Some (tok Hl_comment (scan_then (scan_n 4 cs) (scan_find ''-->'')))
      else if hd cs = CHR ''<'' then html_tag cs
      else Some ([Plain [hd cs]], tl cs))"

definition highlight_html_code :: "string \<Rightarrow> string option" where
  "highlight_html_code code = highlight_loop html_step code"

section \<open>Lua and diffs\<close>

text \<open>At \<open>[\<close>, equal signs and \<open>[\<close>: the long bracket with its text, up to the closing bracket.\<close>

definition scan_long :: "string \<Rightarrow> (string \<times> string) option" where
  "scan_long cs =
     (let (eqs, r) = scan_while (\<lambda>c. c = CHR ''='') (tl cs) in
      if peek_is 0 (CHR ''['') cs \<and> peek_is 0 (CHR ''['') r
      then Some (scan_then (scan_n (length eqs + 2) cs) (scan_find ('']'' @ eqs @ '']'')))
      else None)"

definition scan_lua_number :: "string \<Rightarrow> string \<times> string" where
  "scan_lua_number cs =
     (if peek_is 0 (CHR ''0'') cs \<and> (peek_is 1 (CHR ''x'') cs \<or> peek_is 1 (CHR ''X'') cs) then scan_hex cs
      else scan_decimal cs)"

text \<open>From \<open>Numbers\<close> on.\<close>

definition lua_rest :: "string \<Rightarrow> piece list \<times> string" where
  "lua_rest cs =
     (let c = hd cs in
      if isdigit c then tok Hl_number (scan_lua_number cs)
      else if is_word_start c then
        let (word, r) = scan_while is_word_char cs in
        if is_lua_word word then ([Span Hl_keyword word], r)
        else if peek_is 0 (CHR ''('') r then ([Span Hl_func word], r)
        else ([Plain word], r)
      else ([Plain [c]], tl cs))"

definition lua_step :: "string \<Rightarrow> piece list \<times> string" where
  "lua_step cs =
     (let c = hd cs in
      if c = CHR ''-'' \<and> peek_is 1 (CHR ''-'') cs then
        (case scan_long (drop 2 cs) of
           Some tr \<Rightarrow> tok Hl_comment (scan_then (scan_n 2 cs) (\<lambda>r. tr))
         | None \<Rightarrow> tok Hl_comment (scan_line cs))
      else if c = CHR 0x22 \<or> c = CHR 0x27 then tok Hl_string (scan_then (scan_n 1 cs) (scan_quoted c))
      else if c = CHR ''['' \<and> (peek_is 1 (CHR ''['') cs \<or> peek_is 1 (CHR ''='') cs) then
        (case scan_long cs of Some tr \<Rightarrow> tok Hl_string tr | None \<Rightarrow> lua_rest cs)
      else lua_rest cs)"

definition highlight_lua_code :: "string \<Rightarrow> string option" where
  "highlight_lua_code code = highlight_loop (\<lambda>cs. Some (lua_step cs)) code"

text \<open>The lines of the diff, as \<open>std::getline\<close> delivers them.\<close>

definition diff_line :: "string \<Rightarrow> piece" where
  "diff_line line =
     (if peek_is 0 (CHR ''+'') line then Span Hl_add line
      else if peek_is 0 (CHR ''-'') line then Span Hl_del line
      else if peek_is 0 (CHR ''@'') line then Span Hl_hunk line
      else Plain line)"

definition highlight_diff_code :: "string \<Rightarrow> string" where
  "highlight_diff_code code = join (map (\<lambda>l. piece_html (diff_line l)) (split_char NL code)) [NL]"

section \<open>The dispatch, and the pass over rendered HTML\<close>

fun highlight :: "string \<Rightarrow> language \<Rightarrow> string option" where
  "highlight code lang =
     (case lang of
        Lang_Bash \<Rightarrow> highlight_bash code
      | Lang_Json \<Rightarrow> highlight_json code
      | Lang_Yaml \<Rightarrow> highlight_yaml code
      | Lang_Html \<Rightarrow> highlight_html_code code
      | Lang_Css \<Rightarrow> highlight_css_code code
      | Lang_Lua \<Rightarrow> highlight_lua_code code
      | Lang_Diff \<Rightarrow> Some (highlight_diff_code code)
      | Lang_Unknown \<Rightarrow> Some (html_escape code)
      | _ \<Rightarrow> highlight_c_family code lang)"

definition language_of_tag :: "string \<Rightarrow> string" where
  "language_of_tag open_tag =
     (case find_sub ''language-'' open_tag of
        None \<Rightarrow> []
      | Some lang_pos \<Rightarrow>
          takeWhile (\<lambda>c. c \<noteq> CHR 0x22 \<and> c \<noteq> CHR 0x27 \<and> c \<noteq> CHR '' '' \<and> c \<noteq> CHR ''>'')
            (drop (lang_pos + 9) open_tag))"

partial_function (option) highlight_html :: "string \<Rightarrow> string option" where
  "highlight_html html =
     (if html = [] then Some []
      else case find_sub ''<code'' html of
        None \<Rightarrow> Some html
      | Some code_start \<Rightarrow>
          let before = take code_start html; block = drop code_start html in
          (case str_find (CHR ''>'') 0 block of
             None \<Rightarrow> Some html
           | Some tag_end \<Rightarrow>
               (case find_sub ''</code>'' (drop tag_end block) of
                  None \<Rightarrow> Some html
                | Some k \<Rightarrow>
                    let open_tag = take (tag_end + 1) block;
                        lang_str = language_of_tag open_tag;
                        code_content = take (k - 1) (drop (tag_end + 1) block)
                    in do {
                      out \<leftarrow> (if lang_str \<noteq> [] then highlight code_content (detect_language lang_str)
                               else Some code_content);
                      rest \<leftarrow> highlight_html (drop (tag_end + k) block);
                      Some (before @ open_tag @ out @ rest) })))"

section \<open>Scanners split the code\<close>

definition splits :: "string \<Rightarrow> string \<times> string \<Rightarrow> bool" where
  "splits cs tr \<longleftrightarrow> fst tr @ snd tr = cs"

definition eats :: "string \<Rightarrow> string \<times> string \<Rightarrow> bool" where
  "eats cs tr \<longleftrightarrow> splits cs tr \<and> fst tr \<noteq> []"

definition step_ok :: "string \<Rightarrow> piece list \<times> string \<Rightarrow> bool" where
  "step_ok cs st \<longleftrightarrow> concat (map piece_text (fst st)) @ snd st = cs \<and> length (snd st) < length cs"

named_theorems scans \<open>scanners split their input, and eat some of it\<close>

lemma scan_then_simps [simp]:
  "fst (scan_then tr f) = fst tr @ fst (f (snd tr))"
  "snd (scan_then tr f) = snd (f (snd tr))"
  by (simp_all add: scan_then_def split: prod.split)

lemma splits_nothing [scans]: "splits cs ([], cs)"
  by (simp add: splits_def)

lemma splits_while [scans]: "splits cs (scan_while P cs)"
  by (simp add: splits_def scan_while_def)

lemma splits_n [scans]: "splits cs (scan_n n cs)"
  by (simp add: splits_def scan_n_def)

lemma splits_line [scans]: "splits cs (scan_line cs)"
  by (simp add: scan_line_def splits_while)

lemma splits_then [scans]:
  "splits cs tr \<Longrightarrow> (\<And>r. splits r (f r)) \<Longrightarrow> splits cs (scan_then tr f)"
  by (auto simp: splits_def)

lemma splits_quoted [scans]: "splits cs (scan_quoted q cs)"
proof (induction q cs rule: scan_quoted.induct)
  case (2 q c cs)
  show ?case
  proof (cases cs)
    case Nil
    then show ?thesis by (simp add: splits_def)
  next
    case (Cons d cs')
    with 2 show ?thesis
      by (cases "scan_quoted q cs'"; cases "scan_quoted q cs") (auto simp: splits_def)
  qed
qed (simp add: splits_def)

lemma splits_close [scans]: "splits cs (scan_close close cs)"
proof (induction close cs rule: scan_close.induct)
  case (2 close c cs)
  then show ?case
    using append_take_drop_id [of "length close" "c # cs"]
    by (cases "scan_close close cs") (auto simp: splits_def simp del: take_append drop_append append_take_drop_id)
qed (simp add: splits_def)

lemma splits_find [scans]: "splits cs (scan_find close cs)"
  by (auto simp: scan_find_def splits_n splits_def [of cs "(cs, [])"] split: option.split)

lemma splits_raw [scans]: "splits cs (scan_raw n cs)"
  by (induction n cs rule: scan_raw.induct) (auto simp: splits_def split: prod.split)

lemma eats_n [scans]: "cs \<noteq> [] \<Longrightarrow> 0 < n \<Longrightarrow> eats cs (scan_n n cs)"
  by (simp add: eats_def splits_n) (simp add: scan_n_def)

lemma eats_while [scans]: "cs \<noteq> [] \<Longrightarrow> P (hd cs) \<Longrightarrow> eats cs (scan_while P cs)"
  by (cases cs) (simp_all add: eats_def splits_def scan_while_def)

lemma eats_line [scans]: "cs \<noteq> [] \<Longrightarrow> hd cs \<noteq> NL \<Longrightarrow> eats cs (scan_line cs)"
  by (simp add: scan_line_def eats_while)

lemma eats_then [scans]: "eats cs tr \<Longrightarrow> (\<And>r. splits r (f r)) \<Longrightarrow> eats cs (scan_then tr f)"
  using splits_then [of cs tr f] by (auto simp: eats_def)

lemma splits_if [scans]: "splits cs a \<Longrightarrow> splits cs b \<Longrightarrow> splits cs (if Q then a else b)"
  by simp

lemma eats_if [scans]: "(Q \<Longrightarrow> eats cs a) \<Longrightarrow> eats cs b \<Longrightarrow> eats cs (if Q then a else b)"
  by simp

lemma splits_exponent [scans]: "splits cs (scan_exponent cs)"
  unfolding scan_exponent_def by (intro scans)

lemma eats_decimal [scans]:
  "cs \<noteq> [] \<Longrightarrow> isdigit (hd cs) \<or> hd cs = CHR ''.'' \<Longrightarrow> eats cs (scan_decimal cs)"
  unfolding scan_decimal_def by (intro scans)

lemma eats_hex [scans]: "cs \<noteq> [] \<Longrightarrow> eats cs (scan_hex cs)"
  unfolding scan_hex_def by (intro scans) simp_all

lemma eats_number [scans]:
  "cs \<noteq> [] \<Longrightarrow> isdigit (hd cs) \<or> hd cs = CHR ''.'' \<Longrightarrow> eats cs (scan_number cs)"
  unfolding scan_number_def by (auto intro!: eats_then eats_hex eats_n eats_decimal scans)

lemma tok_ok: "eats cs tr \<Longrightarrow> step_ok cs (tok cls tr)"
  by (cases tr) (auto simp: eats_def splits_def tok_def step_ok_def)

lemma plain_ok: "cs \<noteq> [] \<Longrightarrow> c = hd cs \<Longrightarrow> step_ok cs ([Plain [c]], tl cs)"
  by (cases cs) (simp_all add: step_ok_def)

lemma op_ok: "cs \<noteq> [] \<Longrightarrow> c = hd cs \<Longrightarrow> step_ok cs ([Span cls [c]], tl cs)"
  by (cases cs) (simp_all add: step_ok_def)

lemma word_ok:
  assumes "cs \<noteq> []" "P (hd cs)" "scan_while P cs = (word, r)"
  shows "step_ok cs ([Span cls word], r)" "step_ok cs ([Plain word], r)"
  using eats_while [of cs P] assms by (auto simp: eats_def splits_def step_ok_def)

lemma word_start: "is_word_start c \<Longrightarrow> is_word_char c"
  by (auto simp: is_word_start_def is_word_char_def)

text \<open>Only the condition of a branch matters for what the branch does.\<close>

lemma if_ok: "(Q \<Longrightarrow> step_ok cs a) \<Longrightarrow> step_ok cs b \<Longrightarrow> step_ok cs (if Q then a else b)"
  by simp

lemma scan_case_ok:
  assumes "cs \<noteq> []" "P (hd cs)"
    "\<And>word r. (\<And>cls. step_ok cs ([Span cls word], r)) \<Longrightarrow> step_ok cs ([Plain word], r) \<Longrightarrow> step_ok cs (f word r)"
  shows "step_ok cs (case scan_while P cs of (word, r) \<Rightarrow> f word r)"
  using assms word_ok [of cs P] by (cases "scan_while P cs") simp

lemmas step_intros = if_ok tok_ok plain_ok op_ok eats_if eats_then eats_n eats_while eats_line eats_number
  splits_while splits_n splits_then splits_quoted splits_close splits_line splits_find splits_if splits_nothing

lemma c_family_rest_ok:
  assumes "cs \<noteq> []" "c = hd cs"
  shows "step_ok cs (c_family_rest lang c cs)"
  unfolding c_family_rest_def Let_def assms(2) using assms(1)
  by (intro step_intros scan_case_ok) (auto simp: NL_def word_start)

lemma c_family_ok:
  assumes "cs \<noteq> []" "lang \<noteq> Lang_Rust"
  shows "step_ok cs (c_family_step lang cs)"
  unfolding c_family_step_def Let_def using assms
  by (intro step_intros c_family_rest_ok) (simp_all add: NL_def)

lemma bash_ok: "cs \<noteq> [] \<Longrightarrow> step_ok cs (bash_step cs)"
  unfolding bash_step_def Let_def
  by (intro step_intros scan_case_ok) (simp_all add: NL_def word_start)

text \<open>A word that the code starts with, written out as a constant.\<close>

lemma const_ok: "take n cs = w \<Longrightarrow> w \<noteq> [] \<Longrightarrow> step_ok cs ([Span cls w], drop n cs)"
  by (cases cs; cases n) (auto simp: step_ok_def)

lemma signed_ok:
  assumes "cs \<noteq> []" "hd cs = CHR ''-'' \<or> P (hd cs)"
  shows "eats cs (scan_then (if hd cs = CHR ''-'' then scan_n 1 cs else ([], cs)) (scan_while P))"
proof (cases "hd cs = CHR ''-''")
  case True
  with assms(1) show ?thesis by (simp add: eats_then eats_n splits_while)
next
  case False
  with assms show ?thesis using eats_while [of cs P] by (simp add: eats_def splits_def)
qed

lemma quoted_case_ok:
  assumes "cs \<noteq> []" "\<And>t r. (\<And>cls. step_ok cs ([Span cls t], r)) \<Longrightarrow> step_ok cs (f t r)"
  shows "step_ok cs (case scan_then (scan_n 1 cs) (scan_quoted q) of (t, r) \<Rightarrow> f t r)"
proof -
  obtain t r where tr: "scan_then (scan_n 1 cs) (scan_quoted q) = (t, r)" by fastforce
  have "eats cs (t, r)" unfolding tr [symmetric] using assms(1) by (intro scans) simp_all
  from tok_ok [OF this] assms(2) show ?thesis unfolding tr by (simp add: tok_def)
qed

lemma json_ok: "cs \<noteq> [] \<Longrightarrow> step_ok cs (json_step cs)"
  unfolding json_step_def Let_def
  by (intro if_ok quoted_case_ok const_ok tok_ok signed_ok op_ok plain_ok) auto

lemma yaml_ok: "cs \<noteq> [] \<Longrightarrow> step_ok cs (yaml_step cs)"
proof -
  assume cs: "cs \<noteq> []"
  have dash: "step_ok cs ([Span Hl_op ''-''], tl cs)" if "hd cs = CHR ''-''"
    using op_ok [OF cs, of "CHR ''-''"] that by simp
  show ?thesis unfolding yaml_step_def Let_def using cs
    by (intro if_ok tok_ok eats_line eats_then [OF eats_n] splits_quoted scan_case_ok signed_ok eats_n dash plain_ok)
      (auto simp: NL_def word_start)
qed

lemma css_ok: "cs \<noteq> [] \<Longrightarrow> step_ok cs (css_step cs)"
  unfolding css_step_def Let_def
  by (intro step_intros scan_case_ok) (auto simp: is_word_char_def)

lemma scan_long_eats:
  assumes "scan_long cs = Some tr"
  shows "eats cs tr"
proof -
  from assms have "cs \<noteq> []" by (auto simp: scan_long_def peek_is_def split: prod.splits if_splits)
  with assms show ?thesis
    by (auto simp: scan_long_def split: prod.splits if_splits intro!: scans)
qed

lemma lua_rest_ok: "cs \<noteq> [] \<Longrightarrow> step_ok cs (lua_rest cs)"
  unfolding lua_rest_def Let_def scan_lua_number_def
  by (intro step_intros scan_case_ok eats_if eats_hex eats_decimal) (auto simp: word_start)

lemma lua_ok: "cs \<noteq> [] \<Longrightarrow> step_ok cs (lua_step cs)"
proof -
  assume cs: "cs \<noteq> []"
  have comment: "step_ok cs (case scan_long (drop 2 cs) of
      Some tr \<Rightarrow> tok cls (scan_then (scan_n 2 cs) (\<lambda>r. tr)) | None \<Rightarrow> tok cls (scan_line cs))"
    if "hd cs = CHR ''-''" for cls
  proof (cases "scan_long (drop 2 cs)")
    case None
    with that cs show ?thesis by (simp add: tok_ok eats_line NL_def)
  next
    case (Some tr)
    from scan_long_eats [OF this] have "splits (drop 2 cs) tr" by (simp add: eats_def)
    with cs have "eats cs (scan_then (scan_n 2 cs) (\<lambda>r. tr))"
      by (auto simp: eats_def splits_def scan_n_def)
    with Some show ?thesis by (simp add: tok_ok)
  qed
  have long: "step_ok cs (case scan_long cs of Some tr \<Rightarrow> tok cls tr | None \<Rightarrow> lua_rest cs)" for cls
    using cs by (auto simp: lua_rest_ok intro: tok_ok scan_long_eats split: option.split)
  show ?thesis unfolding lua_step_def Let_def using cs
    by (intro step_intros comment long lua_rest_ok) auto
qed

lemma html_value_split: "concat (map piece_text (fst (html_value cs))) @ snd (html_value cs) = cs"
proof (cases "peek_is 0 (CHR ''='') cs")
  case True
  then obtain r where cs: "cs = CHR ''='' # r" by (cases cs) (auto simp: peek_is_def)
  show ?thesis
  proof (cases "peek_is 0 (CHR 0x22) r \<or> peek_is 0 (CHR 0x27) r")
    case q: True
    have "splits r (scan_then (scan_then (scan_n 1 r) (scan_while (\<lambda>c. c \<noteq> hd r))) (scan_n 1))"
      by (intro scans)
    with cs True q show ?thesis
      by (auto simp: html_value_def Let_def splits_def prod.case_eq_if)
  qed (use cs True in \<open>simp add: html_value_def\<close>)
qed (simp add: html_value_def)

lemma html_attr_split:
  assumes "cs \<noteq> []"
  shows "concat (map piece_text (fst (html_attr cs))) @ snd (html_attr cs) = cs"
proof (cases "is_tag_space (hd cs)")
  case False
  obtain name r where n: "scan_while (\<lambda>c. is_word_char c \<or> c = CHR ''-'' \<or> c = CHR '':'') cs = (name, r)"
    by fastforce
  from splits_while [of cs] n have cs: "name @ r = cs" by (metis fst_conv snd_conv splits_def)
  show ?thesis using False html_value_split [of r] cs
    by (auto simp: html_attr_def n split: prod.splits)
qed (use assms in \<open>simp add: html_attr_def\<close>)

lemma html_attrs_split:
  assumes "html_attrs cs = Some st"
  shows "concat (map piece_text (fst st)) @ snd st = cs"
  using assms
proof (rule html_attrs.raw_induct [where P = "\<lambda>cs st. concat (map piece_text (fst st)) @ snd st = cs", rotated], goal_cases)
  case (1 attrs cs st)
  show ?case
  proof (cases "cs = [] \<or> hd cs = CHR ''>'' \<or> hd cs = CHR ''/'' \<and> peek_is 1 (CHR ''>'') cs")
    case False
    obtain ps r where a: "html_attr cs = (ps, r)" by fastforce
    from 1(2) False a obtain ps' r' where f: "attrs r = Some (ps', r')" "st = (ps @ ps', r')"
      by (cases "attrs r") auto
    from 1(1) [OF f(1)] html_attr_split [of cs] a False f(2) show ?thesis by auto
  qed (use 1(2) in auto)
qed

lemma html_open_split:
  "cs \<noteq> [] \<Longrightarrow> hd cs = CHR ''<'' \<Longrightarrow> concat (map piece_text (fst (html_open cs))) @ snd (html_open cs) = cs \<and>
     fst (html_open cs) \<noteq> [] \<and> length (snd (html_open cs)) < length cs"
  by (cases cs; cases "tl cs") (auto simp: html_open_def peek_is_def)

lemma html_close_split: "concat (map piece_text (fst (html_close cs))) @ snd (html_close cs) = cs"
  by (cases cs; cases "tl cs") (auto simp: html_close_def peek_is_def)

lemma html_tag_ok:
  assumes "cs \<noteq> []" "hd cs = CHR ''<''" "html_tag cs = Some st"
  shows "step_ok cs st"
proof -
  obtain op r0 where o: "html_open cs = (op, r0)" by fastforce
  obtain name r where n: "scan_while is_word_char r0 = (name, r)" by fastforce
  from assms(3) o n obtain attrs r1 where a: "html_attrs r = Some (attrs, r1)"
    by (cases "html_attrs r") (auto simp: html_tag_def)
  obtain cl r2 where c: "html_close r1 = (cl, r2)" by fastforce
  have st: "st = (op @ [Span Hl_keyword name] @ attrs @ cl, r2)"
    using assms(3) o n a c by (simp add: html_tag_def)
  have "name @ r = r0" using n by (metis splits_while fst_conv snd_conv splits_def)
  moreover have "concat (map piece_text attrs) @ r1 = r" using html_attrs_split [OF a] by simp
  moreover have "concat (map piece_text cl) @ r2 = r1" using html_close_split [of r1] c by simp
  moreover have "concat (map piece_text op) @ r0 = cs" "length r0 < length cs"
    using html_open_split [OF assms(1,2)] o by auto
  ultimately show ?thesis by (auto simp: st step_ok_def)
qed

lemma html_ok:
  assumes "cs \<noteq> []" "html_step cs = Some st"
  shows "step_ok cs st"
proof (cases "take 4 cs = ''<!--''")
  case True
  with assms show ?thesis by (auto simp: html_step_def intro!: tok_ok scans)
next
  case False
  with assms show ?thesis
    by (auto simp: html_step_def html_tag_ok plain_ok split: if_splits)
qed

section \<open>What the browser shows\<close>

text \<open>The text of HTML without tags: entities decoded, everything from \<open><\<close> to \<open>>\<close> left out.\<close>

function untag :: "string \<Rightarrow> string" where
  "untag [] = []"
| "untag (c # cs) =
     (if c = CHR ''<'' then untag (drop 1 (dropWhile (\<lambda>d. d \<noteq> CHR ''>'') cs))
      else if c = CHR ''&'' then
        if take 4 cs = ''amp;'' then CHR ''&'' # untag (drop 4 cs)
        else if take 3 cs = ''lt;'' then CHR ''<'' # untag (drop 3 cs)
        else if take 3 cs = ''gt;'' then CHR ''>'' # untag (drop 3 cs)
        else if take 5 cs = ''quot;'' then CHR 0x22 # untag (drop 5 cs)
        else c # untag cs
      else c # untag cs)"
  by pat_completeness auto
termination
  by (relation "measure length") (auto simp: less_Suc_eq_le le_diff_conv intro: le_trans [OF length_dropWhile_le])

lemma untag_escape: "untag (html_escape s @ rest) = s @ untag rest"
proof (induction s)
  case (Cons c s)
  then show ?case by (auto simp: html_escape_def html_escape_char_def)
qed (simp add: html_escape_def)

lemma untag_piece: "untag (piece_html p @ rest) = piece_text p @ untag rest"
proof (cases p)
  case (Span cls t)
  have "CHR ''>'' \<notin> set (class_name cls)" by (cases cls) simp_all
  then have "dropWhile (\<lambda>d. d \<noteq> CHR ''>'') (class_name cls @ CHR 0x22 # CHR ''>'' # rest') = CHR ''>'' # rest'" for rest'
    by (simp add: dropWhile_append)
  with Span show ?thesis by (simp add: untag_escape)
qed (simp add: untag_escape)

lemma untag_pieces: "untag (concat (map piece_html ps) @ rest) = concat (map piece_text ps) @ untag rest"
  by (induction ps) (simp_all add: untag_piece)

section \<open>Tokenizers are lossless\<close>

text \<open>The contract of a tokenizer: a step that returns splits the code and makes progress.\<close>

locale tokenizer =
  fixes step :: "string \<Rightarrow> (piece list \<times> string) option"
  assumes step_split: "cs \<noteq> [] \<Longrightarrow> step cs = Some st \<Longrightarrow> step_ok cs st"
begin

lemma loop_lossless: "highlight_loop step code = Some out \<Longrightarrow> untag out = code"
proof (induction code arbitrary: out rule: length_induct)
  case (1 code)
  show ?case
  proof (cases "code = []")
    case False
    with 1(2) obtain ps rest out' where st: "step code = Some (ps, rest)"
      "highlight_loop step rest = Some out'" "out = concat (map piece_html ps) @ out'"
      by (auto simp: highlight_loop.simps [of step code] split: bind_splits)
    from step_split [OF False st(1)] have "concat (map piece_text ps) @ rest = code" "length rest < length code"
      by (simp_all add: step_ok_def)
    with 1(1) st(2) show ?thesis by (simp add: st(3) untag_pieces)
  qed (use 1(2) in \<open>simp add: highlight_loop.simps\<close>)
qed

end

text \<open>A tokenizer whose steps all return.\<close>

locale total_tokenizer = tokenizer +
  assumes step_total: "cs \<noteq> [] \<Longrightarrow> step cs \<noteq> None"
begin

lemma loop_total: "\<exists>out. highlight_loop step code = Some out"
proof (induction code rule: length_induct)
  case (1 code)
  show ?case
  proof (cases "code = []")
    case False
    then obtain ps rest where st: "step code = Some (ps, rest)" using step_total [of code] by force
    with step_split [OF False st] 1 obtain out where "highlight_loop step rest = Some out"
      by (auto simp: step_ok_def)
    with False st show ?thesis by (simp add: highlight_loop.simps [of step code])
  qed (simp add: highlight_loop.simps)
qed

lemma loop_shows_code: "\<exists>out. highlight_loop step code = Some out \<and> untag out = code"
  using loop_total [of code] loop_lossless by blast

end

lemma total_tokenizerI:
  assumes "\<And>cs. cs \<noteq> [] \<Longrightarrow> step_ok cs (f cs)"
  shows "total_tokenizer (\<lambda>cs. Some (f cs))"
  by unfold_locales (metis assms option.inject, simp)

interpretation cpp: total_tokenizer "\<lambda>cs. Some (c_family_step Lang_Cpp cs)"
  by (rule total_tokenizerI) (simp add: c_family_ok)

interpretation c: total_tokenizer "\<lambda>cs. Some (c_family_step Lang_C cs)"
  by (rule total_tokenizerI) (simp add: c_family_ok)

interpretation python: total_tokenizer "\<lambda>cs. Some (c_family_step Lang_Python cs)"
  by (rule total_tokenizerI) (simp add: c_family_ok)

interpretation javascript: total_tokenizer "\<lambda>cs. Some (c_family_step Lang_JavaScript cs)"
  by (rule total_tokenizerI) (simp add: c_family_ok)

interpretation typescript: total_tokenizer "\<lambda>cs. Some (c_family_step Lang_TypeScript cs)"
  by (rule total_tokenizerI) (simp add: c_family_ok)

interpretation go: total_tokenizer "\<lambda>cs. Some (c_family_step Lang_Go cs)"
  by (rule total_tokenizerI) (simp add: c_family_ok)

interpretation bash: total_tokenizer "\<lambda>cs. Some (bash_step cs)"
  by (rule total_tokenizerI) (simp add: bash_ok)

interpretation json: total_tokenizer "\<lambda>cs. Some (json_step cs)"
  by (rule total_tokenizerI) (simp add: json_ok)

interpretation yaml: total_tokenizer "\<lambda>cs. Some (yaml_step cs)"
  by (rule total_tokenizerI) (simp add: yaml_ok)

interpretation css: total_tokenizer "\<lambda>cs. Some (css_step cs)"
  by (rule total_tokenizerI) (simp add: css_ok)

interpretation lua: total_tokenizer "\<lambda>cs. Some (lua_step cs)"
  by (rule total_tokenizerI) (simp add: lua_ok)

interpretation html: tokenizer html_step
  by unfold_locales (rule html_ok)

lemma highlight_shows_code:
  assumes "lang \<notin> {Lang_Rust, Lang_Html, Lang_Diff}"
  shows "\<exists>out. highlight code lang = Some out \<and> untag out = code"
  using assms untag_escape [of code "[]"]
  by (cases lang)
     (simp_all add: highlight_c_family_def highlight_bash_def highlight_json_def highlight_yaml_def
       highlight_css_code_def highlight_lua_code_def cpp.loop_shows_code c.loop_shows_code
       python.loop_shows_code javascript.loop_shows_code typescript.loop_shows_code go.loop_shows_code
       bash.loop_shows_code json.loop_shows_code yaml.loop_shows_code css.loop_shows_code lua.loop_shows_code)

text \<open>C13: Highlighting loses nothing.  For every language but Rust, HTML and diffs, and for every byte
  string, the highlighter returns, and a browser shows the code: with the tags left out and the
  entities decoded the result is the input.\<close>

theorem highlight_lossless:
  assumes "lang \<notin> {Lang_Rust, Lang_Html, Lang_Diff}"
  shows "\<exists>out. highlight code lang = Some out \<and> untag out = code"
  by (rule highlight_shows_code [OF assms])

lemma highlight_lossless_witness:
  "\<exists>out. highlight ''if (a < b) return \"x\";'' Lang_Cpp = Some out \<and> untag out = ''if (a < b) return \"x\";''"
  by (rule highlight_lossless) simp

text \<open>HTML code that is highlighted at all is not changed either, and a diff loses at most the newline
  at its end.\<close>

lemma highlight_html_code_lossless: "highlight code Lang_Html = Some out \<Longrightarrow> untag out = code"
  by (simp add: highlight_html_code_def html.loop_lossless)

lemma untag_diff:
  "untag (join (map (\<lambda>l. piece_html (diff_line l)) ls) [NL]) = join ls [NL]"
proof (induction ls rule: induct_list012)
  case (2 l)
  have "piece_text (diff_line l) = l" by (simp add: diff_line_def)
  with untag_piece [of "diff_line l" "[]"] show ?case by simp
next
  case (3 l l' ls)
  have "piece_text (diff_line l) = l" by (simp add: diff_line_def)
  with 3 show ?case by (simp add: untag_piece NL_def)
qed simp

lemma highlight_diff_lossless:
  "untag (highlight_diff_code code) = (if code \<noteq> [] \<and> last code = NL then butlast code else code)"
  by (simp add: highlight_diff_code_def untag_diff join_split_char del: split_char.simps)

section \<open>Where the highlighter goes wrong\<close>

text \<open>The loop over the attributes does not get past a byte that starts neither a name nor a value.\<close>

lemma html_attrs_stuck:
  assumes "html_attr cs = (ps, cs)" "cs \<noteq> []" "hd cs \<noteq> CHR ''>''" "hd cs \<noteq> CHR ''/''"
  shows "html_attrs cs = None"
proof -
  have "cs' \<noteq> cs" if "html_attrs cs' = Some st" for cs' st
    using that
  proof (rule html_attrs.raw_induct [where P = "\<lambda>cs' st. cs' \<noteq> cs", rotated], goal_cases)
    case (1 attrs cs' st)
    show ?case
    proof
      assume "cs' = cs"
      with 1(2) assms obtain st' where "attrs cs = Some st'" by (auto split: bind_splits)
      with 1(1) show False by blast
    qed
  qed
  then show ?thesis by (cases "html_attrs cs") auto
qed

text \<open>HTML with a doctype hangs the build.  On \<open><!\<close> the attribute loop of the HTML tokenizer
  neither consumes the \<open>!\<close> nor leaves: for code that starts with \<open><!DOCTYPE\<close> the highlighter does
  not return, whatever follows.\<close>

lemma highlight_doctype_hangs: "highlight (''<!DOCTYPE'' @ rest) Lang_Html = None"
proof -
  let ?cs = "''!DOCTYPE'' @ rest"
  note chars = is_word_char_def islower_def isupper_def isdigit_def byte_def NL_def
  have "html_attr ?cs = ([], ?cs)"
    by (simp add: html_attr_def is_tag_space_def scan_while_def html_value_def peek_is_def chars)
  from html_attrs_stuck [OF this] have stuck: "html_attrs ?cs = None" by simp
  have "html_tag (CHR ''<'' # ?cs) = None"
    using stuck by (simp add: html_tag_def html_open_def peek_is_def scan_while_def chars)
  then have "html_step (CHR ''<'' # ?cs) = None" by (simp add: html_step_def)
  then show ?thesis by (simp add: highlight_html_code_def highlight_loop.simps [of html_step "_ # _"])
qed

text \<open>A raw identifier of Rust loses its first letter.  After \<open>r#\<close> without a quote the tokenizer
  resets the cursor to the byte behind the \<open>r\<close> instead of to the \<open>r\<close>, so the browser shows \<open>#fn\<close>
  for \<open>r#fn\<close>.\<close>

lemma highlight_rust_drops_r:
  "map_option untag (highlight ''let r#fn = 1;'' Lang_Rust) = Some ''let #fn = 1;''"
  by code_simp

section \<open>Code blocks in rendered HTML\<close>

lemma find_sub_skip:
  "x \<notin> set p \<Longrightarrow> find_sub (x # xs) (p @ q) = map_option ((+) (length p)) (find_sub (x # xs) q)"
proof (induction p)
  case Nil
  show ?case by (cases "find_sub (x # xs) q") simp_all
next
  case (Cons a p)
  then show ?case by (cases "find_sub (x # xs) q") auto
qed

lemma html_escape_no_tag: "CHR ''<'' \<notin> set (html_escape s)"
  by (auto simp: html_escape_def html_escape_char_def)

definition open_code :: "string \<Rightarrow> string" where
  "open_code lang = ''<code class='' @ [CHR 0x22] @ ''language-'' @ lang @ [CHR 0x22] @ ''>''"

definition tag_word :: "string \<Rightarrow> bool" where
  "tag_word w \<longleftrightarrow> w \<noteq> [] \<and> (\<forall>c\<in>set w. c \<noteq> CHR 0x22 \<and> c \<noteq> CHR 0x27 \<and> c \<noteq> CHR '' '' \<and> c \<noteq> CHR ''>'')"

lemma language_of_open_code:
  assumes "tag_word lang"
  shows "language_of_tag (open_code lang) = lang"
proof -
  have "find_sub ''language-'' (open_code lang) = Some 13"
    by (simp add: open_code_def)
  moreover have "drop (13 + 9) (open_code lang) = lang @ [CHR 0x22] @ ''>''"
    by (simp add: open_code_def)
  moreover have "takeWhile (\<lambda>c. c \<noteq> CHR 0x22 \<and> c \<noteq> CHR 0x27 \<and> c \<noteq> CHR '' '' \<and> c \<noteq> CHR ''>'')
      (lang @ [CHR 0x22] @ ''>'') = lang"
    using assms by (simp add: tag_word_def takeWhile_append)
  ultimately show ?thesis by (simp add: language_of_tag_def)
qed

lemma highlight_html_block:
  assumes "tag_word lang" "CHR ''<'' \<notin> set body" "highlight body (detect_language lang) = Some out"
  shows "highlight_html (open_code lang @ body @ ''</code>'') = Some (open_code lang @ out @ ''</code>'')"
proof -
  let ?html = "open_code lang @ body @ ''</code>''"
  define t where "t = length (open_code lang) - 1"
  have len: "length (open_code lang) = Suc t" by (simp add: t_def open_code_def)
  have "find_sub ''<code'' ?html = Some 0" by (simp add: open_code_def)
  moreover have "str_find (CHR ''>'') 0 ?html = Some t"
  proof -
    have "?html = butlast (open_code lang) @ CHR ''>'' # body @ ''</code>''"
      by (simp add: open_code_def butlast_append)
    moreover have "\<forall>c\<in>set (butlast (open_code lang)). c \<noteq> CHR ''>''"
      using assms(1) by (auto simp: open_code_def tag_word_def butlast_append)
    ultimately have "find_idx (\<lambda>x. x = CHR ''>'') ?html = Some (length (butlast (open_code lang)))"
      by (simp only: find_idx_prefix simp_thms)
    then show ?thesis by (simp add: str_find_def t_def)
  qed
  moreover have "drop t ?html = CHR ''>'' # body @ ''</code>''"
  proof -
    have "drop t (open_code lang) = ''>''" by (simp add: t_def open_code_def)
    then show ?thesis by (simp add: len)
  qed
  moreover from this have "find_sub ''</code>'' (drop t ?html) = Some (Suc (length body))"
    using assms(2) find_sub_skip [of "CHR ''<''" "CHR ''>'' # body" "''/code>''" "''</code>''"] by simp
  moreover have "highlight_html ''</code>'' = Some ''</code>''"
    by (subst highlight_html.simps) simp
  ultimately show ?thesis using assms language_of_open_code [OF assms(1)]
    by (subst highlight_html.simps) (simp add: len tag_word_def Let_def)
qed

text \<open>Highlighted code blocks show entities instead of the code.  The Markdown renderer has
  escaped the code already; the pass over its HTML highlights the escaped text and escapes it
  again, so for every highlighted language the browser shows \<open>html_escape code\<close>, not \<open>code\<close>.\<close>

lemma highlight_html_escapes_twice:
  assumes "tag_word lang" "detect_language lang \<notin> {Lang_Rust, Lang_Html, Lang_Diff}"
  shows "\<exists>out. highlight_html (open_code lang @ html_escape code @ ''</code>'') =
      Some (open_code lang @ out @ ''</code>'') \<and> untag out = html_escape code"
  using highlight_shows_code [OF assms(2), of "html_escape code"]
    highlight_html_block [OF assms(1) html_escape_no_tag] by blast

lemma highlight_html_escapes_twice_witness:
  "\<exists>out. highlight_html (open_code ''cpp'' @ html_escape ''a<b'' @ ''</code>'') =
      Some (open_code ''cpp'' @ out @ ''</code>'') \<and> untag out = html_escape ''a<b''"
  by (rule highlight_html_escapes_twice) (code_simp, code_simp)

end
