(* ===== verification/Nift_Args.thy ===== *)
theory Nift_Args
  imports Nift_Core
begin

text \<open>
  The argument parser of the command line, \<open>crates/cli/src/argparse.cpp\<close>.  The loop over \<open>argv\<close> is a
  recursion on the arguments that are left, with the two local flags \<open>subcommand_set\<close> and
  \<open>stop_flags\<close>; the unordered maps are maps.  The lemmas show that a command line written out from
  a parsed one is read back, and that a value can be joined with \<open>=\<close> or follow as an argument.
\<close>

section \<open>Parsed arguments\<close>

record parsed_args =
  pa_subcommand :: string
  pa_positional :: "string list"
  pa_flags :: "string \<rightharpoonup> string"
  pa_bools :: "string \<rightharpoonup> bool"

definition no_args :: parsed_args where
  "no_args = \<lparr>pa_subcommand = [], pa_positional = [], pa_flags = Map.empty, pa_bools = Map.empty\<rparr>"

definition args_get :: "string \<Rightarrow> string \<Rightarrow> parsed_args \<Rightarrow> string" where
  "args_get name dflt a = (case pa_flags a name of None \<Rightarrow> dflt | Some v \<Rightarrow> v)"

definition args_get_bool :: "string \<Rightarrow> bool \<Rightarrow> parsed_args \<Rightarrow> bool" where
  "args_get_bool name dflt a =
     (case pa_bools a name of
        Some b \<Rightarrow> b
      | None \<Rightarrow>
          (case pa_flags a name of
             None \<Rightarrow> dflt
           | Some v \<Rightarrow> v = ''true'' \<or> v = ''1'' \<or> v = ''yes'' \<or> v = ''on''))"

definition args_has :: "string \<Rightarrow> parsed_args \<Rightarrow> bool" where
  "args_has name a \<longleftrightarrow> pa_flags a name \<noteq> None \<or> pa_bools a name \<noteq> None"

section \<open>The loop\<close>

definition set_flag :: "string \<Rightarrow> string \<Rightarrow> parsed_args \<Rightarrow> parsed_args" where
  "set_flag k v a = a\<lparr>pa_flags := (pa_flags a)(k \<mapsto> v)\<rparr>"

definition set_bool :: "string \<Rightarrow> parsed_args \<Rightarrow> parsed_args" where
  "set_bool k a = a\<lparr>pa_bools := (pa_bools a)(k \<mapsto> True)\<rparr>"

text \<open>\<open>argv[i + 1][0] != '-'\<close>: of an empty argument this byte is the terminator.\<close>

definition is_value :: "string \<Rightarrow> bool" where
  "is_value arg \<longleftrightarrow> arg = [] \<or> hd arg \<noteq> CHR ''-''"

fun consume_value :: "string \<Rightarrow> string list \<Rightarrow> parsed_args \<Rightarrow> parsed_args \<times> string list" where
  "consume_value body [] a = (set_bool body a, [])"
| "consume_value body (v # rest) a =
     (if is_value v then (set_flag body v a, rest) else (set_bool body a, v # rest))"

definition long_flag :: "string list \<Rightarrow> string \<Rightarrow> string list \<Rightarrow> parsed_args \<Rightarrow> parsed_args \<times> string list" where
  "long_flag bool_set body rest a =
     (case str_find (CHR ''='') 0 body of
        Some eq \<Rightarrow> (set_flag (take eq body) (drop (eq + 1) body) a, rest)
      | None \<Rightarrow>
          if body \<in> set bool_set then (set_bool body a, rest) else consume_value body rest a)"

definition short_flag :: "string list \<Rightarrow> string \<Rightarrow> string list \<Rightarrow> parsed_args \<Rightarrow> parsed_args \<times> string list" where
  "short_flag bool_set body rest a =
     (if 1 < length body \<and> list_all (\<lambda>c. [c] \<in> set bool_set) body
      then (fold (\<lambda>c. set_bool [c]) body a, rest)
      else if 1 < length body \<and> [hd body] \<notin> set bool_set
      then (set_flag [hd body] (tl body) a, rest)
      else if body \<in> set bool_set then (set_bool body a, rest)
      else consume_value body rest a)"

lemma consume_value_length: "(a', r) = consume_value body rest a \<Longrightarrow> length r \<le> length rest"
  by (cases rest) (simp_all split: if_splits)

lemma long_flag_length: "(a', r) = long_flag bs body rest a \<Longrightarrow> length r \<le> length rest"
  by (auto simp: long_flag_def dest: consume_value_length split: option.splits if_splits)

lemma short_flag_length: "(a', r) = short_flag bs body rest a \<Longrightarrow> length r \<le> length rest"
  by (auto simp: short_flag_def dest: consume_value_length split: if_splits)

function parse_args_loop ::
    "string list \<Rightarrow> bool \<Rightarrow> bool \<Rightarrow> string list \<Rightarrow> parsed_args \<Rightarrow> parsed_args" where
  "parse_args_loop bool_set subcommand_set stop_flags [] out = out"
| "parse_args_loop bool_set subcommand_set stop_flags (arg # rest) out =
     (if stop_flags
      then parse_args_loop bool_set subcommand_set True rest
        (out\<lparr>pa_positional := pa_positional out @ [arg]\<rparr>)
      else if arg = ''--'' then parse_args_loop bool_set subcommand_set True rest out
      else if 2 \<le> length arg \<and> take 2 arg = ''--''
      then case long_flag bool_set (drop 2 arg) rest out of
          (out, rest) \<Rightarrow> parse_args_loop bool_set subcommand_set False rest out
      else if 2 \<le> length arg \<and> hd arg = CHR ''-'' \<and> arg ! 1 \<noteq> CHR ''-''
      then case short_flag bool_set (drop 1 arg) rest out of
          (out, rest) \<Rightarrow> parse_args_loop bool_set subcommand_set False rest out
      else if \<not> subcommand_set
      then parse_args_loop bool_set True False rest (out\<lparr>pa_subcommand := arg\<rparr>)
      else parse_args_loop bool_set True False rest (out\<lparr>pa_positional := pa_positional out @ [arg]\<rparr>))"
  by pat_completeness auto
termination
  by (relation "measure (\<lambda>(_, _, _, args, _). length args)") (auto dest!: long_flag_length short_flag_length)

declare parse_args_loop.simps(2) [simp del]

lemmas parse_args_loop_simps = parse_args_loop.simps

definition parse_args :: "string list \<Rightarrow> string list \<Rightarrow> parsed_args" where
  "parse_args argv bool_flags = parse_args_loop bool_flags False False (tl argv) no_args"

section \<open>A parsed command line is read back\<close>

text \<open>The arguments that give \<open>a\<close>: the subcommand, the flags with their values, the switches, and the
  positional arguments behind \<open>--\<close>.\<close>

definition command_line :: "string \<Rightarrow> string \<Rightarrow> (string \<times> string) list \<Rightarrow> string list \<Rightarrow> string list \<Rightarrow> string list" where
  "command_line prog sub flags switches positional =
     prog # sub # map (\<lambda>(k, v). ''--'' @ k @ ''='' @ v) flags @ map (\<lambda>k. ''--'' @ k) switches @ ''--'' # positional"

definition is_positional :: "string \<Rightarrow> bool" where
  "is_positional arg \<longleftrightarrow> length arg < 2 \<or> hd arg \<noteq> CHR ''-''"

lemma loop_stopped:
  "parse_args_loop bs sub True args out = out\<lparr>pa_positional := pa_positional out @ args\<rparr>"
  by (induction args arbitrary: out) (simp_all add: parse_args_loop_simps)

lemma find_idx_char: "c \<notin> set k \<Longrightarrow> find_idx (\<lambda>x. x = c) (k @ c # v) = Some (length k)"
  by (rule find_idx_prefix) auto

lemma long_flag_joined:
  "CHR ''='' \<notin> set k \<Longrightarrow> long_flag bs (k @ CHR ''='' # v) rest a = (set_flag k v a, rest)"
  by (simp add: long_flag_def str_find_def find_idx_char)

lemma long_flag_plain:
  "CHR ''='' \<notin> set k \<Longrightarrow> long_flag bs k rest a =
     (if k \<in> set bs then (set_bool k a, rest) else consume_value k rest a)"
proof -
  assume "CHR ''='' \<notin> set k"
  then have "find_idx (\<lambda>x. x = CHR ''='') k = None" by (auto simp: find_idx_None_iff)
  then show ?thesis by (simp add: long_flag_def str_find_def)
qed

lemma loop_flags:
  "\<forall>(k, v)\<in>set fs. CHR ''='' \<notin> set k \<Longrightarrow>
   parse_args_loop bs sub False (map (\<lambda>(k, v). ''--'' @ k @ ''='' @ v) fs @ rest) out =
     parse_args_loop bs sub False rest (fold (\<lambda>(k, v). set_flag k v) fs out)"
proof (induction fs arbitrary: out)
  case (Cons kv fs)
  obtain k v where kv: "kv = (k, v)" by (cases kv)
  with Cons.prems have "CHR ''='' \<notin> set k" by simp
  with Cons kv show ?case by (simp add: parse_args_loop_simps long_flag_joined)
qed simp

lemma loop_switches:
  "\<forall>k\<in>set ks. k \<noteq> [] \<and> CHR ''='' \<notin> set k \<and> k \<in> set bs \<Longrightarrow>
   parse_args_loop bs sub False (map (\<lambda>k. ''--'' @ k) ks @ rest) out =
     parse_args_loop bs sub False rest (fold set_bool ks out)"
  by (induction ks arbitrary: out) (simp_all add: parse_args_loop_simps long_flag_plain)

lemma fold_set_flag:
  "fold (\<lambda>(k, v). set_flag k v) fs a = a\<lparr>pa_flags := pa_flags a ++ map_of (rev fs)\<rparr>"
proof (induction fs arbitrary: a)
  case (Cons kv fs)
  then show ?case by (cases kv) (auto simp: set_flag_def fun_eq_iff map_add_def split: option.split)
qed simp

lemma fold_set_bool:
  "fold set_bool ks a = a\<lparr>pa_bools := (\<lambda>k. if k \<in> set ks then Some True else pa_bools a k)\<rparr>"
  by (induction ks arbitrary: a) (auto simp: set_bool_def fun_eq_iff)

text \<open>A value that follows its flag as an argument of its own is the joined value.\<close>

lemma value_follows:
  assumes "k \<noteq> []" "CHR ''='' \<notin> set k" "k \<notin> set bool_flags" "is_value v"
  shows "parse_args_loop bool_flags sub False ((''--'' @ k) # v # rest) out =
    parse_args_loop bool_flags sub False ((''--'' @ k @ ''='' @ v) # rest) out"
  using assms by (simp add: parse_args_loop_simps long_flag_plain long_flag_joined)

text \<open>A bundle is only split when all its letters are switches; when only the first one is, the whole
  bundle is taken for one flag and swallows the next argument.\<close>

lemma mixed_bundle:
  "pa_flags (parse_args [''nift'', ''-hx'', ''build''] [''h'', ''V'']) ''hx'' = Some ''build''"
  by (simp add: parse_args_def parse_args_loop_simps short_flag_def is_value_def set_flag_def no_args_def)

text \<open>C35: Command line round trip.  The arguments written out for a subcommand, flags with values,
  declared switches and positional arguments are parsed to exactly these: a later value of the same
  flag wins, and what follows \<open>--\<close> is kept as it is, even when it looks like a flag.\<close>

theorem parse_args_roundtrip:
  assumes "is_positional sub" and "\<forall>(k, v)\<in>set flags. CHR ''='' \<notin> set k"
    and "\<forall>k\<in>set switches. k \<noteq> [] \<and> CHR ''='' \<notin> set k \<and> k \<in> set bool_flags"
  shows "parse_args (command_line prog sub flags switches positional) bool_flags =
    \<lparr>pa_subcommand = sub, pa_positional = positional, pa_flags = map_of (rev flags),
     pa_bools = (\<lambda>k. if k \<in> set switches then Some True else None)\<rparr>"
proof -
  have sub: "parse_args_loop bool_flags False False (sub # args) no_args =
      parse_args_loop bool_flags True False args (no_args\<lparr>pa_subcommand := sub\<rparr>)" for args
    using assms(1) by (cases sub rule: remdups_adj.cases) (auto simp: is_positional_def parse_args_loop_simps)
  have stop: "parse_args_loop bool_flags True False (''--'' # positional) out =
      out\<lparr>pa_positional := pa_positional out @ positional\<rparr>" for out
    by (simp add: parse_args_loop_simps loop_stopped)
  show ?thesis
    unfolding parse_args_def command_line_def list.sel sub
    by (simp only: loop_flags [OF assms(2)] loop_switches [OF assms(3)] stop)
      (simp add: fold_set_flag fold_set_bool no_args_def cong: if_cong)
qed

lemma parse_args_roundtrip_witness:
  "parse_args [''nift'', ''build'', ''--threads=4'', ''--quiet'', ''--'', ''--odd''] [''quiet''] =
     \<lparr>pa_subcommand = ''build'', pa_positional = [''--odd''], pa_flags = [''threads'' \<mapsto> ''4''],
      pa_bools = (\<lambda>k. if k = ''quiet'' then Some True else None)\<rparr>"
  using parse_args_roundtrip [of "''build''" "[(''threads'', ''4'')]" "[''quiet'']" "[''quiet'']" "''nift''" "[''--odd'']"]
  by (simp add: is_positional_def command_line_def)

end
