(* ===== verification/Nift_Migrator.thy ===== *)
theory Nift_Migrator
  imports Nift_Project
begin

text \<open>
  The migration of version 1 projects, \<open>crates/compat/src/migrator.cpp\<close>: the reader of \<open>nsm.config\<close>
  text, the translation of its keys, and \<open>migrate_project\<close> on the disk.  The number of files below
  the root (\<open>recursive_directory_iterator\<close>) and the JSON library are parameters; an exception of the
  library that escapes is \<open>None\<close>.  The lemmas show that configuration text is read back as written,
  that a migrated project loads with the translated configuration, and that nothing else that
  existed is touched.
\<close>

section \<open>Keys and pairs\<close>

definition config_keys :: "(string \<times> string) list" where
  "config_keys =
     [(''contentDir'', ''content_dir''), (''contentDirectory'', ''content_dir''),
      (''siteDir'', ''output_dir''), (''outputDir'', ''output_dir''),
      (''templateDir'', ''template_dir''), (''templateDirectory'', ''template_dir''),
      (''defaultTemplate'', ''default_template''), (''siteName'', ''name''), (''name'', ''name''),
      (''version'', ''version''), (''buildDir'', ''cache_dir''), (''content_dir'', ''content_dir''),
      (''output_dir'', ''output_dir''), (''template_dir'', ''template_dir''),
      (''templates_dir'', ''template_dir''), (''layouts_dir'', ''template_dir''),
      (''layoutDir'', ''template_dir''), (''layoutsDir'', ''template_dir''),
      (''default_template'', ''default_template''), (''cache_dir'', ''cache_dir'')]"

definition translate_config_key :: "string \<Rightarrow> string" where
  "translate_config_key v1_key = (case map_of config_keys v1_key of None \<Rightarrow> [] | Some k \<Rightarrow> k)"

definition find_v1_config :: "string \<Rightarrow> fs \<Rightarrow> string" where
  "find_v1_config root d =
     (case find (\<lambda>c. file_exists c d)
        [root @ ''/siteInfo/nsm.config'', root @ ''/.nsm/nsm.config'', root @ ''/nsm.config'',
         root @ ''/.nsm/site.config''] of
        None \<Rightarrow> []
      | Some p \<Rightarrow> p)"

fun apply_v1_pair :: "string \<times> string \<Rightarrow> project_config \<times> string list \<Rightarrow> project_config \<times> string list" where
  "apply_v1_pair (k, v) (cfg, notes) =
     (let v2 = translate_config_key k in
      if v2 = [] then (cfg, notes @ [''Unknown v1 key: '' @ k @ '' (skipped)''])
      else
        (if v2 = ''name'' then cfg\<lparr>pc_name := v\<rparr>
         else if v2 = ''version'' then cfg\<lparr>pc_version := v\<rparr>
         else if v2 = ''content_dir'' then cfg\<lparr>pc_content_dir := v\<rparr>
         else if v2 = ''output_dir'' then cfg\<lparr>pc_output_dir := v\<rparr>
         else if v2 = ''template_dir'' then cfg\<lparr>pc_template_dir := v\<rparr>
         else if v2 = ''default_template'' then cfg\<lparr>pc_default_template := v\<rparr>
         else if v2 = ''cache_dir'' then cfg\<lparr>pc_cache_dir := v\<rparr>
         else cfg, notes))"

definition apply_v1_pairs_to_config ::
    "(string \<times> string) list \<Rightarrow> project_config \<times> string list \<Rightarrow> project_config \<times> string list" where
  "apply_v1_pairs_to_config pairs s = fold apply_v1_pair pairs s"

text \<open>One line of the file: \<open>None\<close> where the loop continues without a pair.\<close>

definition parse_v1_line :: "string \<Rightarrow> (string \<times> string) option" where
  "parse_v1_line line =
     (let line = takeWhile (\<lambda>c. c \<noteq> CHR ''#'') line;
          line = trim_ws line
      in if line = [] then None
      else case find_first_of [CHR ''='', CHR '':'', CHR 0x09, CHR '' ''] line of
        None \<Rightarrow> None
      | Some sep \<Rightarrow>
          let key = take sep line; val = drop (sep + 1) line in
          (case find_first_not_of [CHR '' '', CHR 0x09, CHR ''='', CHR '':''] val of
             None \<Rightarrow> None
           | Some vstart \<Rightarrow>
               let val = drop vstart val;
                   val = (if 2 \<le> length val \<and> hd val = CHR 0x22 \<and> last val = CHR 0x22
                          then take (length val - 2) (drop 1 val) else val)
               in Some (key, val)))"

definition parse_v1_config_text :: "string \<Rightarrow> (string \<times> string) list" where
  "parse_v1_config_text content = List.map_filter parse_v1_line (split_char NL content)"

definition load_v1_config_file :: "string \<Rightarrow> string list \<Rightarrow> fs \<Rightarrow> (project_config \<times> string list) result" where
  "load_v1_config_file p notes d =
     (if \<not> file_exists p d then Inl not_found
      else case read_file p d of
        Inl e \<Rightarrow> Inl e
      | Inr src \<Rightarrow> Inr (apply_v1_pairs_to_config (parse_v1_config_text src) (default_config, notes)))"

section \<open>The migration\<close>

record migration_report =
  mg_files_examined :: nat
  mg_config_written :: bool
  mg_source_config_path :: string
  mg_notes :: "string list"

definition write_config :: "json_lib \<Rightarrow> string \<Rightarrow> project_config \<Rightarrow> fs \<Rightarrow> unit result option \<times> fs" where
  "write_config L root cfg d =
     (case config_to_json L cfg of
        None \<Rightarrow> (None, d)
      | Some text \<Rightarrow> (let (st, d) = write_file (root @ ''/nift.json'') text d in (Some st, d)))"

definition migrate_tracked :: "string \<Rightarrow> migration_report \<Rightarrow> fs \<Rightarrow> migration_report \<times> fs" where
  "migrate_tracked root report d =
     (let v1_tracked = root @ ''/siteInfo/tracked.json'' in
      if file_exists v1_tracked d then
        let d = snd (create_directories (root @ ''/.nift'') d) in
        (case read_file v1_tracked d of
           Inl e \<Rightarrow> (report, d)
         | Inr content \<Rightarrow>
             (report\<lparr>mg_notes := mg_notes report @
                [''Migrated tracked.json '' @ [CHR 0xE2, CHR 0x86, CHR 0x92] @ '' .nift/tracked.json'']\<rparr>,
              snd (write_file (root @ ''/.nift/tracked.json'') content d)))
      else (report, d))"

definition migrate_project :: "json_lib \<Rightarrow> (string \<Rightarrow> fs \<Rightarrow> nat) \<Rightarrow> string \<Rightarrow> fs \<Rightarrow>
    migration_report result option \<times> fs" where
  "migrate_project L files_below root d =
     (let report = \<lparr>mg_files_examined = files_below root d, mg_config_written = False,
                    mg_source_config_path = [], mg_notes = []\<rparr>;
          v1_cfg = find_v1_config root d
      in if v1_cfg = [] then
        let report = report\<lparr>mg_notes := [''No v1 nsm.config found. Wrote default v2 nift.json.'']\<rparr>;
            (st, d) = write_config L root default_config d
        in (case st of
              None \<Rightarrow> None
            | Some (Inl e) \<Rightarrow> Some (Inl e)
            | Some (Inr _) \<Rightarrow> Some (Inr (report\<lparr>mg_config_written := True\<rparr>)), d)
      else case read_file v1_cfg d of
        Inl e \<Rightarrow> (Some (Inl e), d)
      | Inr src \<Rightarrow>
          let (cfg, notes) = apply_v1_pairs_to_config (parse_v1_config_text src) (default_config, []);
              (st, d) = write_config L root cfg d
          in (case st of
                None \<Rightarrow> (None, d)
              | Some (Inl e) \<Rightarrow> (Some (Inl e), d)
              | Some (Inr _) \<Rightarrow>
                  let (report, d) = migrate_tracked root
                    (report\<lparr>mg_source_config_path := v1_cfg, mg_notes := notes, mg_config_written := True\<rparr>) d
                  in (Some (Inr report), d)))"

section \<open>Configuration text\<close>

text \<open>Keys and values as version 1 writes them, one pair per line.\<close>

definition plain_key :: "string \<Rightarrow> bool" where
  "plain_key k \<longleftrightarrow> k \<noteq> [] \<and> (\<forall>c\<in>set k. c \<notin> set ws_set \<and> c \<notin> set ''#=:'')"

definition plain_value :: "string \<Rightarrow> bool" where
  "plain_value v \<longleftrightarrow> v \<noteq> [] \<and> (\<forall>c\<in>set v. c \<noteq> CHR ''#'' \<and> c \<noteq> NL) \<and>
     hd v \<notin> set ''=:'' \<and> hd v \<notin> set ws_set \<and> hd v \<noteq> CHR 0x22 \<and> last v \<notin> set ws_set"

definition v1_line :: "string \<times> string \<Rightarrow> string" where
  "v1_line kv = fst kv @ '' = '' @ snd kv"

lemma parse_v1_line_plain:
  assumes "plain_key k" "plain_value v"
  shows "parse_v1_line (v1_line (k, v)) = Some (k, v)"
proof -
  have k: "k \<noteq> []" "\<forall>c\<in>set k. c \<notin> set ws_set \<and> c \<notin> set ''#=:''" using assms(1) by (auto simp: plain_key_def)
  have v: "v \<noteq> []" "\<forall>c\<in>set v. c \<noteq> CHR ''#''" "hd v \<notin> set ''=:''" "hd v \<notin> set ws_set" "hd v \<noteq> CHR 0x22"
    "last v \<notin> set ws_set"
    using assms(2) by (auto simp: plain_value_def)
  define line where "line = k @ '' = '' @ v"
  have "\<forall>c\<in>set line. c \<noteq> CHR ''#''" using k v by (auto simp: line_def)
  then have "takeWhile (\<lambda>c. c \<noteq> CHR ''#'') line = line" by simp
  moreover have "trim_ws line = line"
  proof (rule trim_ws_id)
    show "hd line \<notin> set ws_set" using k by (cases k) (auto simp: line_def)
    show "last line \<notin> set ws_set" using v by (simp add: line_def)
  qed (use k in \<open>simp add: line_def\<close>)
  moreover have "find_first_of [CHR ''='', CHR '':'', CHR 0x09, CHR '' ''] line = Some (length k)"
    unfolding find_first_of_def line_def using k
    by (subst append_Cons, intro find_idx_prefix) (auto simp: ws_set_def)
  moreover have "drop (length k + 1) line = ''= '' @ v" "take (length k) line = k" "line \<noteq> []"
    by (simp_all add: line_def)
  moreover have "find_first_not_of [CHR '' '', CHR 0x09, CHR ''='', CHR '':''] (''= '' @ v) = Some 2"
    using v by (cases v) (auto simp: find_first_not_of_def ws_set_def)
  moreover have "v1_line (k, v) = line" by (simp add: v1_line_def line_def)
  moreover have "drop 2 (''= '' @ v) = v" by simp
  moreover have "\<not> (2 \<le> length v \<and> hd v = CHR 0x22 \<and> last v = CHR 0x22)" using v(5) by simp
  ultimately show ?thesis
    unfolding parse_v1_line_def Let_def by (simp only: option.case if_False)
qed

lemma v1_line_no_newline: "plain_key k \<Longrightarrow> plain_value v \<Longrightarrow> NL \<notin> set (v1_line (k, v))"
  by (auto simp: v1_line_def plain_key_def plain_value_def ws_set_def NL_def)

lemma parse_v1_config_text_plain:
  "\<forall>(k, v)\<in>set kvs. plain_key k \<and> plain_value v \<Longrightarrow>
     parse_v1_config_text (concat (map (\<lambda>kv. v1_line kv @ [NL]) kvs)) = kvs"
proof (induction kvs)
  case (Cons kv kvs)
  obtain k v where kv: "kv = (k, v)" by (cases kv)
  with Cons show ?case
    by (simp add: parse_v1_config_text_def split_char_field v1_line_no_newline parse_v1_line_plain List.map_filter_simps)
qed (simp add: parse_v1_config_text_def split_char.simps List.map_filter_simps)

section \<open>What the migration leaves behind\<close>

text \<open>The configuration a migration of \<open>root\<close> is to produce.\<close>

definition migrated_config :: "string \<Rightarrow> fs \<Rightarrow> project_config" where
  "migrated_config root d =
     (case read_file (find_v1_config root d) d of
        Inl e \<Rightarrow> default_config
      | Inr src \<Rightarrow>
          if find_v1_config root d = [] then default_config
          else fst (apply_v1_pairs_to_config (parse_v1_config_text src) (default_config, [])))"

text \<open>Every path that existed keeps its entry, except \<open>ps\<close>.\<close>

definition keeps :: "string set \<Rightarrow> fs \<Rightarrow> fs \<Rightarrow> bool" where
  "keeps ps d d' \<longleftrightarrow> fs_deny_read d' = fs_deny_read d \<and>
     (\<forall>q. q \<notin> ps \<longrightarrow> fs_tree d q \<noteq> None \<longrightarrow> fs_tree d' q = fs_tree d q)"

lemma keeps_refl: "keeps ps d d"
  by (simp add: keeps_def)

lemma keeps_trans: "keeps ps d d' \<Longrightarrow> keeps ps' d' d'' \<Longrightarrow> keeps (ps \<union> ps') d d''"
  by (auto simp: keeps_def)

lemma keeps_mono: "keeps ps d d' \<Longrightarrow> ps \<subseteq> ps' \<Longrightarrow> keeps ps' d d'"
  by (auto simp: keeps_def)

lemma read_file_exists: "read_file p d = Inr s \<Longrightarrow> file_exists p d"
  by (auto simp: read_file_def file_exists_def split: option.splits)

lemma keeps_read: "keeps ps d d' \<Longrightarrow> p \<notin> ps \<Longrightarrow> read_file p d = Inr s \<Longrightarrow> read_file p d' = Inr s"
proof -
  assume k: "keeps ps d d'" "p \<notin> ps" and r: "read_file p d = Inr s"
  from r have "fs_tree d p \<noteq> None" by (auto dest: read_file_exists simp: file_exists_def)
  with k have "fs_tree d' p = fs_tree d p" "fs_deny_read d' p = fs_deny_read d p" by (auto simp: keeps_def)
  with r show ?thesis by (simp only: read_file_def)
qed

lemma write_file_keeps: "keeps {p} d (snd (write_file p content d))"
proof -
  obtain r d' where w: "write_file p content d = (r, d')" by fastforce
  obtain d1 where "fs_deny_read d1 = fs_deny_read d"
    "r = Inr () \<Longrightarrow> d' = d1\<lparr>fs_tree := (fs_tree d1)(p \<mapsto> File content)\<rparr>" "r \<noteq> Inr () \<Longrightarrow> d' = d1"
    using write_file_cases [OF w] by metis
  then have "fs_deny_read d' = fs_deny_read d" by (cases "r = Inr ()") auto
  with write_read [OF w] w show ?thesis by (auto simp: keeps_def)
qed

lemma create_directories_keeps: "keeps {} d (snd (create_directories p d))"
  using create_directories_frame [of p d "fst (create_directories p d)" "snd (create_directories p d)"]
  by (simp add: keeps_def)

lemma migrate_tracked_keeps:
  "keeps {root @ ''/.nift/tracked.json''} d (snd (migrate_tracked root report d))"
proof -
  let ?p = "root @ ''/.nift/tracked.json''" and ?d = "snd (create_directories (root @ ''/.nift'') d)"
  have "keeps {?p} d ?d" by (rule keeps_mono [OF create_directories_keeps]) simp
  moreover have "keeps {?p} d (snd (write_file ?p content ?d))" for content
    using keeps_trans [OF create_directories_keeps [of d "root @ ''/.nift''"] write_file_keeps] by simp
  ultimately show ?thesis by (auto simp: migrate_tracked_def keeps_refl Let_def split: sum.split)
qed

lemma write_config_keeps: "keeps {root @ ''/nift.json''} d (snd (write_config L root cfg d))"
  using write_file_keeps [of "root @ ''/nift.json''" d]
  by (auto simp: write_config_def keeps_refl prod.case_eq_if split: option.split)

text \<open>The migration is not destructive.  Whatever the outcome, every path that existed keeps its
  content, except \<open>nift.json\<close> and \<open>.nift/tracked.json\<close> below the root.\<close>

lemma migrate_preserves:
  "\<forall>q. fs_tree d q \<noteq> None \<and> q \<noteq> root @ ''/nift.json'' \<and> q \<noteq> root @ ''/.nift/tracked.json'' \<longrightarrow>
     fs_tree (snd (migrate_project L files_below root d)) q = fs_tree d q"
proof -
  let ?n = "root @ ''/nift.json''" and ?t = "root @ ''/.nift/tracked.json''"
  have w: "keeps {?n, ?t} d (snd (write_config L root cfg d))" for cfg
    by (rule keeps_mono [OF write_config_keeps]) simp
  have t: "keeps {?n, ?t} d (snd (migrate_tracked root report (snd (write_config L root cfg d))))" for cfg report
    using keeps_trans [OF write_config_keeps migrate_tracked_keeps] by (simp add: insert_commute)
  have "keeps {?n, ?t} d (snd (migrate_project L files_below root d))"
    using w t by (simp add: migrate_project_def Let_def keeps_refl prod.case_eq_if split: option.split sum.split)
  then show ?thesis by (auto simp: keeps_def)
qed

text \<open>Configuration text round trip.  A version 1 configuration written one \<open>key = value\<close> line
  per pair is read back as the same pairs, in order, and loading the file applies them to the default
  configuration.\<close>

lemma v1_config_roundtrip:
  assumes "\<forall>(k, v)\<in>set kvs. plain_key k \<and> plain_value v"
    and "read_file p d = Inr (concat (map (\<lambda>kv. v1_line kv @ [NL]) kvs))"
  shows "load_v1_config_file p notes d = Inr (fold apply_v1_pair kvs (default_config, notes))"
proof -
  have "file_exists p d" using assms(2) by (rule read_file_exists)
  with assms show ?thesis
    by (simp add: load_v1_config_file_def parse_v1_config_text_plain apply_v1_pairs_to_config_def)
qed

text \<open>A successful migration writes a file that loads as the translated configuration.\<close>

lemma migration_loads:
  assumes "json_lib_ok L" and m: "migrate_project L files_below root d = (Some (Inr report), d')"
    and "\<not> fs_deny_read d (root @ ''/nift.json'')"
  shows "mg_config_written report \<and> file_exists (root @ ''/nift.json'') d' \<and>
    config_load L (root @ ''/nift.json'') d' = Inr (migrated_config root d)"
proof -
  have w: "\<exists>s. config_to_json L cfg = Some s \<and> read_file (root @ ''/nift.json'') d1 = Inr s"
    if "write_config L root cfg d = (Some (Inr ()), d1)" for cfg d1
    using that write_read [of "root @ ''/nift.json''" _ d] assms(3)
    by (auto simp: write_config_def split: option.splits prod.splits)
  have t: "read_file (root @ ''/nift.json'') d2 = Inr s"
    if "migrate_tracked root rep d1 = (rep', d2)" "read_file (root @ ''/nift.json'') d1 = Inr s" for rep rep' d1 d2 s
    using keeps_read [OF migrate_tracked_keeps [of root d1 rep] _ that(2)] that(1) by simp
  have loads: "file_exists (root @ ''/nift.json'') d1 \<and> config_load L (root @ ''/nift.json'') d1 = Inr cfg"
    if "config_to_json L cfg = Some s" "read_file (root @ ''/nift.json'') d1 = Inr s" for cfg s d1
    using config_written [OF assms(1) that(1)] that(2) read_file_exists by blast
  show ?thesis
  proof (cases "find_v1_config root d = []")
    case True
    with m w [of default_config] loads show ?thesis
      by (auto simp: migrate_project_def migrated_config_def Let_def split: option.splits sum.splits prod.splits)
  next
    case False
    then obtain src where src: "read_file (find_v1_config root d) d = Inr src"
      using m by (auto simp: migrate_project_def Let_def split: sum.splits)
    obtain cfg ns where a: "apply_v1_pairs_to_config (parse_v1_config_text src) (default_config, []) = (cfg, ns)"
      by fastforce
    obtain d1 rep where d1: "write_config L root cfg d = (Some (Inr ()), d1)"
      and t1: "migrate_tracked root rep d1 = (report, d')" and "mg_config_written rep"
      using m False src a by (auto simp: migrate_project_def Let_def split: option.splits sum.splits prod.splits)
    have "mg_config_written report"
      using t1 \<open>mg_config_written rep\<close> by (auto simp: migrate_tracked_def Let_def split: if_splits sum.splits)
    moreover obtain s where s: "config_to_json L cfg = Some s" "read_file (root @ ''/nift.json'') d1 = Inr s"
      using w [OF d1] by blast
    ultimately show ?thesis
      using loads [OF s(1) t [OF t1 s(2)]] False src a by (simp add: migrated_config_def)
  qed
qed

text \<open>What a migration promises.  When it reports success and \<open>nift.json\<close> can be read, loading that
  file gives exactly the version 1 configuration with its keys translated, or the defaults where there
  was none.\<close>

lemma migrate_loads:
  assumes "json_lib_ok L" and m: "migrate_project L files_below root d = (Some (Inr report), d')"
    and "\<not> fs_deny_read d (root @ ''/nift.json'')"
  shows "mg_config_written report \<and> config_load L (root @ ''/nift.json'') d' = Inr (migrated_config root d)"
  using migration_loads [OF assms] by blast

text \<open>A project with a version 1 configuration and a page, and its migration.\<close>

definition v1_project :: fs where
  "v1_project = \<lparr>fs_tree = [''p/nsm.config'' \<mapsto> File (''siteName = blog'' @ [NL]), ''p/a.md'' \<mapsto> File ''x''],
     fs_deny_read = (\<lambda>_. False), fs_deny_write = (\<lambda>_. False)\<rparr>"

lemma v1_project_config:
  "find_v1_config ''p'' v1_project = ''p/nsm.config''"
  "read_file ''p/nsm.config'' v1_project = Inr (concat (map (\<lambda>kv. v1_line kv @ [NL]) [(''siteName'', ''blog'')]))"
  "\<forall>(k, v)\<in>set [(''siteName'', ''blog'')]. plain_key k \<and> plain_value v"
  by (simp_all add: find_v1_config_def v1_project_def file_exists_def read_file_def v1_line_def
      plain_key_def plain_value_def ws_set_def NL_def)

lemma v1_config_roundtrip_witness:
  "load_v1_config_file ''p/nsm.config'' [] v1_project = Inr (default_config\<lparr>pc_name := ''blog''\<rparr>, [])"
  using v1_config_roundtrip [OF v1_project_config(3) v1_project_config(2), of "[]"]
  by (simp add: translate_config_key_def config_keys_def)

lemma demo_parents: "path_parent ''p/nift.json'' = ''p''" "dirs_of ''p'' = [''p'']"
  by code_simp+

lemma v1_project_migrates:
  "\<exists>report d'. migrate_project unary_lib (\<lambda>_ _. 2) ''p'' v1_project = (Some (Inr report), d')"
proof -
  have "fst (write_file ''p/nift.json'' content v1_project) = Inr ()" for content
    by (simp add: write_file_def create_directories_def v1_project_def demo_parents)
  then show ?thesis
    by (auto simp: migrate_project_def v1_project_config write_config_def config_to_json_def unary_lib_def Let_def
        prod.case_eq_if)
qed

lemma migrate_preserves_witness:
  "fs_tree (snd (migrate_project unary_lib (\<lambda>_ _. 2) ''p'' v1_project)) ''p/a.md'' = Some (File ''x'')"
  using migrate_preserves [of v1_project "''p''" unary_lib "\<lambda>_ _. 2"] by (simp add: v1_project_def)

lemma migrate_loads_witness:
  "config_load unary_lib ''p/nift.json'' (snd (migrate_project unary_lib (\<lambda>_ _. 2) ''p'' v1_project)) =
     Inr (default_config\<lparr>pc_name := ''blog''\<rparr>)"
proof -
  have c: "migrated_config ''p'' v1_project = default_config\<lparr>pc_name := ''blog''\<rparr>"
    using parse_v1_config_text_plain [OF v1_project_config(3)]
    by (simp add: migrated_config_def v1_project_config apply_v1_pairs_to_config_def translate_config_key_def config_keys_def)
  from v1_project_migrates obtain report d' where m: "migrate_project unary_lib (\<lambda>_ _. 2) ''p'' v1_project = (Some (Inr report), d')" by blast
  moreover have "\<not> fs_deny_read v1_project (''p'' @ ''/nift.json'')" by (simp add: v1_project_def)
  ultimately show ?thesis using migrate_loads [OF unary_lib_ok m] c by simp
qed

end
