(* ===== verification/Nift_Time.thy ===== *)
theory Nift_Time
  imports Nift_Core "HOL-Library.Word"
begin

text \<open>
  Dates and the system, \<open>crates/core/time/datetime.cpp\<close> and \<open>crates/core/sys/system_info.cpp\<close>.  The
  functions of the C library that the code calls are written out: \<open>gmtime_r\<close> on the Gregorian calendar,
  and the conversions of \<open>put_time\<close> that the three formats use.  When the year does not fit into an
  \<open>int\<close>, \<open>gmtime_r\<close> fails and leaves something unspecified in the buffer, the parameter \<open>left\<close>; the code does
  not look at its result.  The system clock is a parameter, in nanoseconds.
\<close>

section \<open>The clock and the calendar\<close>

text \<open>\<open>duration_cast\<close> to seconds cuts towards zero.\<close>

definition trunc_seconds :: "int \<Rightarrow> int" where
  "trunc_seconds ns = (if 0 \<le> ns then ns div 1000000000 else - (- ns div 1000000000))"

definition now_epoch_seconds :: "int \<Rightarrow> int" where
  "now_epoch_seconds clock = trunc_seconds clock"

record tm =
  tm_year :: int
  tm_mon :: int
  tm_mday :: int
  tm_hour :: int
  tm_min :: int
  tm_sec :: int

text \<open>Days are counted from 1 March, 400 years at a time: the year within the era and the day of that year,
  then the month and the day.\<close>

definition year_of_era :: "int \<Rightarrow> int \<times> int" where
  "year_of_era doe =
     (let c = min 3 (doe div 36524); r = doe - 36524 * c; q = r div 1461; s = r - 1461 * q; y = min 3 (s div 365)
      in (100 * c + 4 * q + y, s - 365 * y))"

definition month_day :: "int \<Rightarrow> int \<times> int" where
  "month_day doy =
     (let mp = (5 * doy + 2) div 153 in (if mp < 10 then mp + 3 else mp - 9, doy - (153 * mp + 2) div 5 + 1))"

definition civil :: "int \<Rightarrow> int \<times> int \<times> int" where
  "civil days =
     (let z = days + 719468; (yoe, doy) = year_of_era (z mod 146097); (m, d) = month_day doy
      in (400 * (z div 146097) + yoe + (if m \<le> 2 then 1 else 0), m, d))"

definition gmtime_r :: "int \<Rightarrow> tm option" where
  "gmtime_r t =
     (let (y, m, d) = civil (t div 86400); s = t mod 86400
      in if - (2 ^ 31) \<le> y - 1900 \<and> y - 1900 < 2 ^ 31
         then Some \<lparr>tm_year = y - 1900, tm_mon = m - 1, tm_mday = d, tm_hour = s div 3600, tm_min = s mod 3600 div 60,
           tm_sec = s mod 60\<rparr>
         else None)"

section \<open>Formats\<close>

definition two_digits :: "int \<Rightarrow> string" where
  "two_digits n = [digit_char (nat (n div 10)), digit_char (nat (n mod 10))]"

definition conversion :: "char \<Rightarrow> tm \<Rightarrow> string" where
  "conversion c tm =
     (if c = CHR ''Y'' then show_int (tm_year tm + 1900)
      else if c = CHR ''m'' then two_digits (tm_mon tm + 1)
      else if c = CHR ''d'' then two_digits (tm_mday tm)
      else if c = CHR ''H'' then two_digits (tm_hour tm)
      else if c = CHR ''M'' then two_digits (tm_min tm)
      else if c = CHR ''S'' then two_digits (tm_sec tm)
      else [CHR ''%'', c])"

fun put_time :: "tm \<Rightarrow> string \<Rightarrow> string" where
  "put_time tm [] = []"
| "put_time tm [c] = [c]"
| "put_time tm (c # d # fmt) = (if c = CHR ''%'' then conversion d tm @ put_time tm fmt else c # put_time tm (d # fmt))"

definition format_time :: "tm \<Rightarrow> int \<Rightarrow> string \<Rightarrow> string" where
  "format_time left epoch_seconds fmt = put_time (case gmtime_r epoch_seconds of None \<Rightarrow> left | Some tm \<Rightarrow> tm) fmt"

definition format_iso8601 :: "tm \<Rightarrow> int \<Rightarrow> string" where
  "format_iso8601 left epoch_seconds = format_time left epoch_seconds ''%Y-%m-%dT%H:%M:%SZ''"

definition format_date :: "tm \<Rightarrow> int \<Rightarrow> string" where
  "format_date left epoch_seconds = format_time left epoch_seconds ''%Y-%m-%d''"

definition format_datetime :: "tm \<Rightarrow> int \<Rightarrow> string" where
  "format_datetime left epoch_seconds = format_time left epoch_seconds ''%Y-%m-%d %H:%M:%S''"

section \<open>The system\<close>

datatype os = Linux_os | Macos | Windows | Freebsd | Unknown_os

text \<open>The macros that the compiler defines are the parameter.\<close>

definition detect_os :: "(string \<Rightarrow> bool) \<Rightarrow> os" where
  "detect_os defined =
     (if defined ''__linux__'' then Linux_os
      else if defined ''__APPLE__'' then Macos
      else if defined ''_WIN32'' then Windows
      else if defined ''__FreeBSD__'' then Freebsd
      else Unknown_os)"

definition os_name :: "(string \<Rightarrow> bool) \<Rightarrow> string" where
  "os_name defined =
     (case detect_os defined of
        Linux_os \<Rightarrow> ''linux'' | Macos \<Rightarrow> ''macos'' | Windows \<Rightarrow> ''windows'' | Freebsd \<Rightarrow> ''freebsd''
      | Unknown_os \<Rightarrow> ''unknown'')"

text \<open>\<open>std::thread::hardware_concurrency\<close> may give 0.\<close>

definition hardware_concurrency :: "32 word \<Rightarrow> 32 word" where
  "hardware_concurrency n = (if n > 0 then n else 1)"

lemma hardware_concurrency_pos: "0 < unat (hardware_concurrency n)"
  by (auto simp: hardware_concurrency_def unat_gt_0)

section \<open>The calendar is right\<close>

definition leap :: "int \<Rightarrow> bool" where
  "leap y \<longleftrightarrow> y mod 4 = 0 \<and> y mod 100 \<noteq> 0 \<or> y mod 400 = 0"

definition month_length :: "int \<Rightarrow> int \<Rightarrow> int" where
  "month_length y m = (if m = 2 then (if leap y then 29 else 28) else if m \<in> {4, 6, 9, 11} then 30 else 31)"

text \<open>The number of a day, from its date.\<close>

definition day_number :: "int \<Rightarrow> int \<Rightarrow> int \<Rightarrow> int" where
  "day_number y m d =
     (let y' = (if m \<le> 2 then y - 1 else y); mp = (if m \<le> 2 then m + 9 else m - 3)
      in 365 * y' + y' div 4 - y' div 100 + y' div 400 + (153 * mp + 2) div 5 + d - 1 - 719468)"

lemma year_of_era_spec:
  assumes "0 \<le> doe" "doe < 146097" "year_of_era doe = (yoe, doy)"
  shows "0 \<le> yoe" "yoe < 400" "0 \<le> doy" "doy \<le> 365" "doe = 365 * yoe + yoe div 4 - yoe div 100 + doy"
    "doy = 365 \<longrightarrow> leap (yoe + 1)"
proof -
  define c r q s y where defs: "c = min 3 (doe div 36524)" "r = doe - 36524 * c" "q = r div 1461" "s = r - 1461 * q" "y = min 3 (s div 365)"
  have e: "yoe = 100 * c + 4 * q + y" "doy = s - 365 * y"
    using assms(3) by (simp_all add: year_of_era_def Let_def defs)
  have c: "0 \<le> c" "c \<le> 3" "0 \<le> r" "r \<le> 36524" "c < 3 \<Longrightarrow> r < 36524" using assms(1,2) by (auto simp: defs min_def split: if_splits)
  have q: "0 \<le> q" "q \<le> 24" "0 \<le> s" "s \<le> 1460" "q = 24 \<Longrightarrow> c < 3 \<Longrightarrow> s < 1460"
    using c by (auto simp: defs(3,4))
  have y: "0 \<le> y" "y \<le> 3" "0 \<le> doy" "doy \<le> 365" "doy = 365 \<Longrightarrow> y = 3 \<and> s = 1460"
    using q(3,4) by (auto simp: defs(5) e(2) min_def split: if_splits)
  have d: "yoe div 4 = 25 * c + q" "yoe div 100 = c" using q y by (simp_all add: e(1))
  show "0 \<le> yoe" "yoe < 400" "0 \<le> doy" "doy \<le> 365" using c q y by (simp_all add: e(1))
  have "doe = 36524 * c + 1461 * q + s" by (simp add: defs(2,4))
  then show "doe = 365 * yoe + yoe div 4 - yoe div 100 + doy" unfolding d by (simp add: e)
  show "doy = 365 \<longrightarrow> leap (yoe + 1)"
  proof
    assume "doy = 365"
    then have s: "y = 3" "s = 1460" using y(5) by auto
    show "leap (yoe + 1)"
    proof (cases "q = 24")
      case True
      with q(5) s have "c = 3" using c(2) by force
      then show ?thesis using True s by (simp add: leap_def e(1))
    next
      case False
      then have "yoe + 1 = 4 * (25 * c + (q + 1))" "yoe + 1 = 100 * c + 4 * (q + 1)" "0 < 4 * (q + 1)" "4 * (q + 1) < 100"
        using q s by (simp_all add: e(1))
      then have "(yoe + 1) mod 4 = 0" "(yoe + 1) mod 100 = 4 * (q + 1)" by (simp, metis mod_mult_self4 mod_pos_pos_trivial less_imp_le)
      then show ?thesis using q by (simp add: leap_def)
    qed
  qed
qed

lemma month_day_table:
  "\<forall>doy\<in>set [0..365]. let (m, d) = month_day doy in
     1 \<le> m \<and> m \<le> 12 \<and> 1 \<le> d \<and> d \<le> (if m = 2 then (if doy = 365 then 29 else 28) else if m \<in> {4, 6, 9, 11} then 30 else 31) \<and>
     (153 * (if m \<le> 2 then m + 9 else m - 3) + 2) div 5 + d - 1 = doy"
  by code_simp

text \<open>Every day number is the number of the date that \<open>civil\<close> gives it, and that date exists.\<close>

lemma civil_spec:
  assumes "civil days = (y, m, d)"
  shows "day_number y m d = days" "1 \<le> m" "m \<le> 12" "1 \<le> d" "d \<le> month_length y m"
proof -
  let ?z = "days + 719468"
  obtain yoe doy where e: "year_of_era (?z mod 146097) = (yoe, doy)" by (cases "year_of_era (?z mod 146097)")
  obtain m' d' where md: "month_day doy = (m', d')" by (cases "month_day doy")
  note s = year_of_era_spec [OF _ _ e, simplified]
  have eq: "m = m'" "d = d'" "y = 400 * (?z div 146097) + yoe + (if m \<le> 2 then 1 else 0)"
    using assms by (auto simp: civil_def e md Let_def)
  have t: "1 \<le> m \<and> m \<le> 12 \<and> 1 \<le> d \<and> d \<le> (if m = 2 then (if doy = 365 then 29 else 28) else if m \<in> {4, 6, 9, 11} then 30 else 31) \<and>
     (153 * (if m \<le> 2 then m + 9 else m - 3) + 2) div 5 + d - 1 = doy"
    using bspec [OF month_day_table, of doy] s(3,4) by (simp only: set_upto atLeastAtMost_iff md eq(1,2) Let_def prod.case)
  then show "1 \<le> m" "m \<le> 12" "1 \<le> d" by simp_all
  have leap: "leap (400 * (?z div 146097) + (yoe + 1)) \<longleftrightarrow> leap (yoe + 1)"
  proof -
    have "(400 * a + b) mod 4 = b mod 4" "(400 * a + b) mod 100 = b mod 100" "(400 * a + b) mod 400 = b mod 400" for a b :: int
      using mod_mult_self3 [of "100 * a" 4 b] mod_mult_self3 [of "4 * a" 100 b] mod_mult_self3 [of a 400 b] by (simp_all add: ac_simps)
    then show ?thesis by (simp add: leap_def)
  qed
  have "leap y \<longleftrightarrow> leap (yoe + 1)" if "m = 2" using leap that eq(3) by (simp add: add.assoc)
  then show "d \<le> month_length y m" using t s(6) by (cases "m = 2"; cases "doy = 365") (simp_all add: month_length_def)
  have y': "(if m \<le> 2 then y - 1 else y) = 400 * (?z div 146097) + yoe" using eq(3) by simp
  have div: "(400 * a + b) div 4 = 100 * a + b div 4" "(400 * a + b) div 100 = 4 * a + b div 100" "(400 * a + b) div 400 = a + b div 400"
    for a b :: int
    using div_mult_self3 [of 4 "100 * a" b] div_mult_self3 [of 100 "4 * a" b] div_mult_self3 [of 400 a b] by (simp_all add: ac_simps)
  have "yoe div 400 = 0" using s(1,2) by simp
  then have "day_number y m d = 146097 * (?z div 146097) + (365 * yoe + yoe div 4 - yoe div 100) + doy - 719468"
    unfolding day_number_def Let_def y' div using t by simp
  also have "\<dots> = days" using s(5) mult_div_mod_eq [of 146097 ?z] by linarith
  finally show "day_number y m d = days" .
qed

section \<open>Reading a date back\<close>

definition read_two :: "char \<Rightarrow> char \<Rightarrow> int" where
  "read_two a b = int (digits_value [a, b])"

lemma read_two_digits: "0 \<le> n \<Longrightarrow> n < 100 \<Longrightarrow> two_digits n = [a, b] \<Longrightarrow> read_two a b = n"
proof -
  assume n: "0 \<le> n" "n < 100" and "two_digits n = [a, b]"
  then have "a = digit_char (nat n div 10)" "b = digit_char (nat n mod 10)"
    by (simp_all add: two_digits_def nat_div_distrib nat_mod_distrib)
  moreover have "nat n div 10 < 10" using n by simp
  ultimately have "digits_value [a, b] = 10 * (nat n div 10) + nat n mod 10"
    by (simp add: digits_value_def byte_digit_char)
  then show ?thesis using n by (simp add: read_two_def)
qed

definition read_iso8601 :: "string \<Rightarrow> int option" where
  "read_iso8601 s =
     (case dropWhile isdigit s of
        [c1, m1, m2, c2, d1, d2, c3, h1, h2, c4, n1, n2, c5, s1, s2, c6] \<Rightarrow>
          if [c1, c2, c3, c4, c5, c6] = ''--T::Z''
          then Some (86400 * day_number (int (digits_value (takeWhile isdigit s))) (read_two m1 m2) (read_two d1 d2) +
            3600 * read_two h1 h2 + 60 * read_two n1 n2 + read_two s1 s2)
          else None
      | _ \<Rightarrow> None)"

lemma civil_year:
  assumes "civil (t div 86400) = (y, m, d)" "- 62162035200 \<le> t" "t < 2 ^ 55"
  shows "0 \<le> y" "y < 2 ^ 31"
proof -
  let ?z = "t div 86400 + 719468"
  obtain yoe doy where e: "year_of_era (?z mod 146097) = (yoe, doy)" by (cases "year_of_era (?z mod 146097)")
  note s = year_of_era_spec [OF _ _ e, simplified]
  have y: "400 * (?z div 146097) + yoe \<le> y" "y \<le> 400 * (?z div 146097) + yoe + 1"
    using assms(1) by (auto simp: civil_def e Let_def split: prod.splits)
  have z: "0 \<le> ?z" "?z < 2 ^ 39" using assms(2,3) by simp_all
  from z have "0 \<le> ?z div 146097" "?z div 146097 < 2 ^ 22" by (simp_all add: pos_imp_zdiv_nonneg_iff div_less_iff_less_mult)
  with y s(1,2) show "0 \<le> y" "y < 2 ^ 31" by simp_all
qed

text \<open>The ISO form of a time from March of the year 0 on, up to where the year still fits, reads back as that
  time: no two times have the same text, and the date that is shown is the right one of the Gregorian
  calendar.\<close>

lemma iso8601_roundtrip:
  assumes "- 62162035200 \<le> t" "t < 2 ^ 55"
  shows "read_iso8601 (format_iso8601 left t) = Some t"
proof -
  obtain y m d where c: "civil (t div 86400) = (y, m, d)" by (cases "civil (t div 86400)")
  note v = civil_spec [OF c] and y = civil_year [OF c assms]
  define s where "s = t mod 86400"
  have s: "0 \<le> s div 3600" "s div 3600 < 100" "0 \<le> s mod 3600 div 60" "s mod 3600 div 60 < 100" "0 \<le> s mod 60" "s mod 60 < 100"
    by (simp_all add: s_def)
  have md: "0 \<le> m" "m < 100" "0 \<le> d" "d < 100" using v by (auto simp: month_length_def split: if_splits)
  obtain m1 m2 d1 d2 h1 h2 n1 n2 s1 s2 where two: "two_digits m = [m1, m2]" "two_digits d = [d1, d2]"
    "two_digits (s div 3600) = [h1, h2]" "two_digits (s mod 3600 div 60) = [n1, n2]" "two_digits (s mod 60) = [s1, s2]"
    by (simp add: two_digits_def)
  have f: "format_iso8601 left t = show_nat (nat y) @
      [CHR ''-'', m1, m2, CHR ''-'', d1, d2, CHR ''T'', h1, h2, CHR '':'', n1, n2, CHR '':'', s1, s2, CHR ''Z'']"
    using y c by (simp add: format_iso8601_def format_time_def gmtime_r_def Let_def conversion_def show_int_def two
        s_def [symmetric] del: One_nat_def)
  have dig: "\<forall>c\<in>set (show_nat (nat y)). isdigit c" using show_nat_digits by (simp add: list_all_iff)
  have "\<not> isdigit (CHR ''-'')" by (simp add: isdigit_def byte_def)
  with dig have sp: "takeWhile isdigit (format_iso8601 left t) = show_nat (nat y)"
    "dropWhile isdigit (format_iso8601 left t) =
      [CHR ''-'', m1, m2, CHR ''-'', d1, d2, CHR ''T'', h1, h2, CHR '':'', n1, n2, CHR '':'', s1, s2, CHR ''Z'']"
    unfolding f by simp_all
  note r = read_two_digits [OF md(1,2) two(1)] read_two_digits [OF md(3,4) two(2)] read_two_digits [OF s(1,2) two(3)]
    read_two_digits [OF s(3,4) two(4)] read_two_digits [OF s(5,6) two(5)]
  have "s mod 3600 mod 60 = s mod 60" by (rule mod_mod_cancel) simp
  then have "3600 * (s div 3600) + 60 * (s mod 3600 div 60) + s mod 60 = s"
    using mult_div_mod_eq [of 3600 s] mult_div_mod_eq [of 60 "s mod 3600"] by linarith
  then have "86400 * (t div 86400) + 3600 * (s div 3600) + 60 * (s mod 3600 div 60) + s mod 60 = t"
    using mult_div_mod_eq [of 86400 t] unfolding s_def by linarith
  then show ?thesis using y v(1) by (simp add: read_iso8601_def sp r)
qed

text \<open>Beyond that the program prints whatever \<open>gmtime_r\<close> left.\<close>

lemma far_future: "format_date left (2 ^ 62) = put_time left ''%Y-%m-%d''"
proof -
  have "gmtime_r (2 ^ 62) = None" by code_simp
  then show ?thesis by (simp add: format_date_def format_time_def)
qed

lemma format_values:
  "format_iso8601 left 0 = ''1970-01-01T00:00:00Z''" "format_datetime left 951782399 = ''2000-02-28 23:59:59''"
  "format_date left (951782399 + 1) = ''2000-02-29''"
  by code_simp+

end
