(* ===== verification/Nift_Listing.thy ===== *)
theory Nift_Listing
  imports Nift_Filesystem Nift_Time "HOL-Library.List_Lexorder"
begin

text \<open>
  The rest of \<open>crates/core/fs/filesystem.cpp\<close> and \<open>path.cpp\<close>: directory listings, removing a tree, modification
  times and lexical normalization.  What the operating system enumerates is a parameter: \<open>paths\<close>, the
  paths that exist, in its order; \<open>mtime\<close>, the time of the last change in nanoseconds.
\<close>

section \<open>Listings\<close>

text \<open>The components of a path, and the order of \<open>std::filesystem::path\<close> on the entries of one directory.\<close>

definition path_names :: "string \<Rightarrow> string list" where
  "path_names p = filter (\<lambda>s. s \<noteq> []) (split_char (CHR ''/'') p)"

definition is_entry :: "string \<Rightarrow> string \<Rightarrow> bool" where
  "is_entry dir q \<longleftrightarrow> path_filename q \<noteq> [] \<and> q = path_join dir (path_filename q)"

text \<open>What \<open>is_directory\<close> finds but the system refuses to open is an error code.\<close>

definition list_directory :: "string list \<Rightarrow> string \<Rightarrow> fs \<Rightarrow> string list result" where
  "list_directory paths dir d =
     (if \<not> is_directory dir d then Inl not_found
      else if fs_deny_read d dir then Inl io_error
      else Inr (sort_key path_names (filter (\<lambda>q. file_exists q d \<and> is_entry dir q) paths)))"

text \<open>Below \<open>dir\<close>, at any depth.\<close>

definition is_inside :: "string \<Rightarrow> string \<Rightarrow> bool" where
  "is_inside dir q \<longleftrightarrow> (if dir \<noteq> [] \<and> last dir = CHR ''/'' then take (length dir) q = dir \<and> q \<noteq> dir else below dir q)"

text \<open>The iterator opens a directory when it steps onto it, and then a refusal is an exception (\<open>None\<close>).\<close>

definition list_directory_recursive :: "string list \<Rightarrow> string \<Rightarrow> fs \<Rightarrow> string list result option" where
  "list_directory_recursive paths dir d =
     (if \<not> is_directory dir d then Some (Inl not_found)
      else if fs_deny_read d dir then Some (Inl io_error)
      else if list_ex (\<lambda>q. is_inside dir q \<and> is_directory q d \<and> fs_deny_read d q) paths then None
      else Some (Inr (sort_key path_names (filter (\<lambda>q. file_exists q d \<and> is_inside dir q) paths))))"

text \<open>A time is cut to whole seconds.\<close>

definition last_modified :: "(string \<Rightarrow> fs \<Rightarrow> int) \<Rightarrow> string \<Rightarrow> fs \<Rightarrow> int result" where
  "last_modified mtime p d = (if file_exists p d then Inr (trunc_seconds (mtime p d)) else Inl not_found)"

section \<open>Removing a tree\<close>

text \<open>\<open>std::filesystem::remove_all\<close>: the walk stops at the first path that cannot be removed.\<close>

fun remove_walk :: "string list \<Rightarrow> string list \<Rightarrow> fs \<Rightarrow> unit result \<times> fs" where
  "remove_walk paths [] d = (Inr (), d)"
| "remove_walk paths (p # ps) d =
     (case remove_path paths p d of
        (Inl e, d) \<Rightarrow> (Inl io_error, d)
      | (Inr _, d) \<Rightarrow> remove_walk paths ps d)"

text \<open>The walk of \<open>p\<close>, children first, is the parameter.\<close>

definition remove_tree :: "(string \<Rightarrow> fs \<Rightarrow> string list) \<Rightarrow> string \<Rightarrow> fs \<Rightarrow> unit result \<times> fs" where
  "remove_tree walk p d = remove_walk (walk p d) (walk p d) d"

section \<open>Lexical normalization\<close>

text \<open>The names that are left, in reverse, and whether the path ends as a directory does.\<close>

fun normal_names :: "bool \<Rightarrow> string list \<Rightarrow> bool \<Rightarrow> string list \<Rightarrow> string list \<times> bool" where
  "normal_names absolute acc dirlike [] = (acc, dirlike)"
| "normal_names absolute acc dirlike (s # names) =
     (if s = ''.'' then normal_names absolute acc True names
      else if s \<noteq> ''..'' then normal_names absolute (s # acc) False names
      else case acc of
        [] \<Rightarrow> if absolute then normal_names absolute [] True names else normal_names absolute [''..''] False names
      | t # acc' \<Rightarrow> if t = ''..'' then normal_names absolute (''..'' # acc) False names
          else normal_names absolute acc' True names)"

definition path_normalized :: "string \<Rightarrow> string" where
  "path_normalized p =
     (let absolute = path_is_absolute p;
          (acc, dirlike) = normal_names absolute [] False (path_names p);
          body = (if absolute then ''/'' else []) @ join (rev acc) ''/''
      in if p = [] then []
         else if body = [] then ''.''
         else if acc \<noteq> [] \<and> hd acc \<noteq> ''..'' \<and> (dirlike \<or> last p = CHR ''/'') then body @ ''/''
         else body)"

section \<open>Lemmas\<close>

definition within :: "string \<Rightarrow> string \<Rightarrow> bool" where
  "within p q \<longleftrightarrow> q = p \<or> below p q"

lemma below_irrefl: "\<not> below p p"
  by (simp add: below_def)

lemma remove_path_simps:
  "remove_path paths p d = (r, d') \<Longrightarrow> fs_deny_write d' = fs_deny_write d \<and> fs_deny_read d' = fs_deny_read d \<and>
     (fs_tree d' = fs_tree d \<or> fs_tree d' = (fs_tree d)(p := None))"
  by (auto simp: remove_path_def split: if_splits)

lemma below_longer: "below p q \<Longrightarrow> length p < length q"
proof -
  assume "below p q"
  then have "length (take (Suc (length p)) q) = Suc (length p)" by (simp only: below_def) simp
  then show ?thesis by simp
qed

text \<open>However far the walk comes, it only removes paths of its list.\<close>

lemma remove_walk_frame:
  "fs_deny_write (snd (remove_walk paths ps d)) = fs_deny_write d \<and> fs_deny_read (snd (remove_walk paths ps d)) = fs_deny_read d \<and>
     (\<forall>q. fs_tree (snd (remove_walk paths ps d)) q = fs_tree d q \<or> q \<in> set ps \<and> fs_tree (snd (remove_walk paths ps d)) q = None)"
proof (induction ps arbitrary: d)
  case (Cons p ps)
  obtain r d' where r: "remove_path paths p d = (r, d')" by fastforce
  from remove_path_simps [OF r] Cons.IH [of d'] r show ?case
    by (cases r) (auto split: if_splits)
qed simp

lemma remove_walk_tree:
  "fs_tree (snd (remove_walk paths ps d)) q = fs_tree d q \<or> q \<in> set ps \<and> fs_tree (snd (remove_walk paths ps d)) q = None"
  using remove_walk_frame [of paths ps d] by metis

lemma remove_walk_deny: "fs_deny_write (snd (remove_walk paths ps d)) = fs_deny_write d"
  using remove_walk_frame [of paths ps d] by simp

lemma remove_walk_all:
  "W = xs @ ps \<Longrightarrow> sorted_wrt (\<lambda>a b. \<not> below a b) W \<Longrightarrow> \<forall>q\<in>set xs. fs_tree d q = None \<Longrightarrow>
   \<forall>q. \<not> fs_deny_write d q \<Longrightarrow> q \<in> set ps \<Longrightarrow> fs_tree (snd (remove_walk W ps d)) q = None"
proof (induction ps arbitrary: xs d)
  case (Cons p ps)
  have "\<not> (below p x \<and> file_exists x d)" if "x \<in> set W" for x
    using that Cons.prems(1-3) below_irrefl [of p] by (auto simp: sorted_wrt_append file_exists_def)
  then have "\<not> list_ex (\<lambda>q. below p q \<and> file_exists q d) W" by (auto simp: list_ex_iff)
  then obtain d' where d': "remove_path W p d = (Inr (), d')" "fs_tree d' = (fs_tree d)(p := None)"
    "fs_deny_write d' = fs_deny_write d"
    using Cons.prems(4) by (cases "fs_tree d p = None") (auto simp: remove_path_def fun_upd_idem)
  have "W = (xs @ [p]) @ ps" "\<forall>q\<in>set (xs @ [p]). fs_tree d' q = None" "\<forall>q. \<not> fs_deny_write d' q"
    using Cons.prems d' by auto
  note IH = Cons.IH [OF this(1) Cons.prems(2) this(2,3)]
  show ?case
  proof (cases "q \<in> set ps")
    case True
    with IH d'(1) show ?thesis by simp
  next
    case False
    with Cons.prems(5) have "q = p" by simp
    with remove_walk_frame [of W ps d'] d' show ?thesis by (auto, metis)
  qed
qed simp

text \<open>A removal that reports success has removed every path of its walk.\<close>

lemma remove_walk_success: "remove_walk paths ps d = (Inr u, d') \<Longrightarrow> q \<in> set ps \<Longrightarrow> fs_tree d' q = None"
proof (induction ps arbitrary: d)
  case (Cons p ps)
  from Cons.prems(1) obtain d1 where d1: "remove_path paths p d = (Inr (), d1)" "remove_walk paths ps d1 = (Inr u, d')"
    by (auto split: prod.splits sum.splits)
  have "fs_tree d1 p = None" using d1(1) by (auto simp: remove_path_def split: if_splits)
  then have "fs_tree d' p = None" using remove_walk_tree [of paths ps d1 p] d1(2) by auto
  with Cons.IH [OF d1(2)] Cons.prems(2) show ?case by auto
qed simp

text \<open>A listing holds each entry once, in the order of the components.\<close>

lemma list_directory_spec:
  assumes "list_directory paths dir d = Inr qs" "distinct paths" "\<forall>q. file_exists q d \<longrightarrow> q \<in> set paths"
  shows "set qs = {q. file_exists q d \<and> is_entry dir q}" "distinct qs" "sorted (map path_names qs)"
proof -
  have q: "qs = sort_key path_names (filter (\<lambda>q. file_exists q d \<and> is_entry dir q) paths)"
    using assms(1) by (auto simp: list_directory_def split: if_splits)
  show "set qs = {q. file_exists q d \<and> is_entry dir q}" "distinct qs" "sorted (map path_names qs)"
    using assms(2,3) unfolding q by auto
qed

lemma listing_throws:
  assumes "is_directory dir d" "\<not> fs_deny_read d dir" "q \<in> set paths" "is_inside dir q" "is_directory q d" "fs_deny_read d q"
  shows "list_directory_recursive paths dir d = None"
  using assms by (auto simp: list_directory_recursive_def list_ex_iff)

section \<open>Normalization is idempotent\<close>

lemma path_names_Nil [simp]: "path_names [] = []"
  by (simp add: path_names_def split_char.simps)

lemma path_names_word: "CHR ''/'' \<notin> set w \<Longrightarrow> w \<noteq> [] \<Longrightarrow> path_names w = [w]"
  by (simp add: path_names_def split_char_last)

lemma path_names_field:
  "CHR ''/'' \<notin> set a \<Longrightarrow> path_names (a @ CHR ''/'' # r) = (if a = [] then [] else [a]) @ path_names r"
  using split_char_field [of "CHR ''/''" a r] by (simp add: path_names_def)

lemma path_names_append: "path_names (p @ CHR ''/'' # r) = path_names p @ path_names r"
proof (induction p rule: measure_induct_rule [of length])
  case (less p)
  show ?case
  proof (cases "CHR ''/'' \<in> set p")
    case True
    then obtain a b where p: "p = a @ CHR ''/'' # b" "CHR ''/'' \<notin> set a" by (meson split_list_first)
    with less.IH [of b] show ?thesis by (simp add: path_names_field)
  next
    case False
    then show ?thesis using path_names_field [of p r] by (cases "p = []") (simp_all add: path_names_word)
  qed
qed

lemma path_names_join:
  "\<forall>s\<in>set ns. s \<noteq> [] \<and> CHR ''/'' \<notin> set s \<Longrightarrow> path_names (join ns ''/'') = ns"
  by (cases "ns = []") (simp, simp add: path_names_def split_char_join filter_id_conv)

lemma path_names_parts: "s \<in> set (path_names p) \<Longrightarrow> s \<noteq> [] \<and> CHR ''/'' \<notin> set s"
proof (induction p rule: measure_induct_rule [of length])
  case (less p)
  show ?case
  proof (cases "CHR ''/'' \<in> set p")
    case True
    then obtain a b where p: "p = a @ CHR ''/'' # b" "CHR ''/'' \<notin> set a" by (meson split_list_first)
    then have "path_names p = (if a = [] then [] else [a]) @ path_names b"
      using path_names_field by simp
    with less.prems less.IH [of b] p show ?thesis by (auto split: if_splits)
  next
    case False
    with less.prems show ?thesis by (cases "p = []") (auto simp: path_names_word)
  qed
qed

text \<open>The stacks that \<open>normal_names\<close> builds: names, on top of the \<open>..\<close> that could not be resolved.\<close>

definition normal_stack :: "bool \<Rightarrow> string list \<Rightarrow> bool" where
  "normal_stack absolute acc \<longleftrightarrow>
     ''.'' \<notin> set acc \<and> (absolute \<longrightarrow> ''..'' \<notin> set acc) \<and> sorted_wrt (\<lambda>a b. a = ''..'' \<longrightarrow> b = ''..'') acc"

lemma normal_stack_simps [simp]:
  "normal_stack absolute []"
  "s \<noteq> ''..'' \<Longrightarrow> normal_stack absolute (s # acc) \<longleftrightarrow> s \<noteq> ''.'' \<and> normal_stack absolute acc"
  "normal_stack absolute (''..'' # acc) \<longleftrightarrow> \<not> absolute \<and> set acc \<subseteq> {''..''}"
  by (auto simp: normal_stack_def intro: sorted_wrt_mono_rel sorted_wrt_iff_nth_less [THEN iffD2] dest!: nth_mem)

lemma normal_names_stack:
  "normal_stack absolute acc \<Longrightarrow> normal_names absolute acc f names = (acc', f') \<Longrightarrow>
   normal_stack absolute acc' \<and> set acc' \<subseteq> set acc \<union> set names"
proof (induction absolute acc f names rule: normal_names.induct)
  case (2 absolute acc f s names)
  consider "s = ''.''" | "s \<noteq> ''.''" "s \<noteq> ''..''" | "s = ''..''" "acc = []" | t acc1 where "s = ''..''" "acc = t # acc1"
    by (cases acc) auto
  then show ?case
  proof cases
    case 1
    with 2 show ?thesis by auto
  next
    case 2
    with "2.IH"(2) "2.prems" show ?thesis by auto
  next
    case 3
    with 2 show ?thesis by (cases absolute) auto
  next
    case 4
    with 2 show ?thesis by (cases "t = ''..''") auto
  qed
qed auto

text \<open>Names that are normal already are only pushed.\<close>

lemma normal_names_normal:
  "normal_stack absolute (rev ns @ acc) \<Longrightarrow>
   normal_names absolute acc f ns = (rev ns @ acc, if ns = [] then f else False)"
proof (induction ns arbitrary: acc f)
  case (Cons s ns)
  have t: "normal_stack absolute (rev ns @ s # acc)" using Cons.prems by simp
  then have s: "s \<noteq> ''.''" "s = ''..'' \<Longrightarrow> \<not> absolute \<and> set acc \<subseteq> {''..''}"
    by (auto simp: normal_stack_def sorted_wrt_append)
  have "normal_names absolute acc f (s # ns) = normal_names absolute (s # acc) False ns"
    using s by (cases acc; cases "s = ''..''") auto
  with Cons.IH [of "s # acc" False] t show ?case by simp
qed simp

lemma join_hd: "ns \<noteq> [] \<Longrightarrow> hd ns \<noteq> [] \<Longrightarrow> join ns sep \<noteq> [] \<and> hd (join ns sep) = hd (hd ns)"
  by (cases ns; cases "tl ns") auto

lemma join_last: "ns \<noteq> [] \<Longrightarrow> last ns \<noteq> [] \<Longrightarrow> join ns sep \<noteq> [] \<and> last (join ns sep) = last (last ns)"
proof (induction ns sep rule: join.induct)
  case (3 p q qs sep)
  then show ?case by simp
qed auto

text \<open>\<open>normalized\<close> does nothing to its own results.\<close>

lemma path_normalized_idem: "path_normalized (path_normalized p) = path_normalized p"
proof (cases "p = []")
  case False
  define absolute where "absolute = path_is_absolute p"
  obtain acc f where a: "normal_names absolute [] False (path_names p) = (acc, f)" by (cases "normal_names absolute [] False (path_names p)")
  have stack: "normal_stack absolute acc" "\<forall>s\<in>set acc. s \<noteq> [] \<and> CHR ''/'' \<notin> set s"
    using normal_names_stack [OF _ a] path_names_parts [of _ p] by auto
  define body where "body = (if absolute then ''/'' else []) @ join (rev acc) ''/''"
  define slash where "slash \<longleftrightarrow> acc \<noteq> [] \<and> hd acc \<noteq> ''..'' \<and> (f \<or> last p = CHR ''/'')"
  have n: "path_normalized p = (if body = [] then ''.'' else if slash then body @ ''/'' else body)"
    using False by (simp add: path_normalized_def a absolute_def [symmetric] body_def slash_def)
  show ?thesis
  proof (cases "body = []")
    case True
    have "path_normalized ''.'' = ''.''" by code_simp
    then show ?thesis by (simp add: n True)
  next
    case ne: False
    let ?p = "if slash then body @ ''/'' else body"
    have j: "path_names (join (rev acc) ''/'') = rev acc" using stack(2) by (intro path_names_join) simp
    have "path_names body = rev acc" using path_names_append [of "[]" "join (rev acc) ''/''"] j by (simp add: body_def)
    then have names: "path_names ?p = rev acc" using path_names_append [of body "[]"] by simp
    have hl: "acc \<noteq> [] \<Longrightarrow> join (rev acc) ''/'' \<noteq> [] \<and> hd (join (rev acc) ''/'') \<noteq> CHR ''/'' \<and> last (join (rev acc) ''/'') \<noteq> CHR ''/''"
      using join_hd [of "rev acc" "''/''"] join_last [of "rev acc" "''/''"] stack(2)
      by (metis hd_in_set hd_rev last_in_set last_rev rev_is_Nil_conv)
    have abs: "path_is_absolute ?p = absolute"
    proof (cases "acc = []")
      case True
      with ne show ?thesis by (auto simp: body_def slash_def path_is_absolute_def)
    next
      case False
      with hl ne show ?thesis by (auto simp: body_def path_is_absolute_def)
    qed
    have last: "acc \<noteq> [] \<Longrightarrow> last ?p = CHR ''/'' \<longleftrightarrow> slash" using hl by (auto simp: body_def)
    have again: "normal_names absolute [] False (rev acc) = (acc, False)"
      using normal_names_normal [of absolute "rev acc" "[]" False] stack(1) by simp
    have "path_normalized ?p = (if acc \<noteq> [] \<and> hd acc \<noteq> ''..'' \<and> last ?p = CHR ''/'' then body @ ''/'' else body)"
      using ne by (simp add: path_normalized_def abs names again body_def [symmetric])
    also have "\<dots> = ?p" using last slash_def by (cases "acc = []") auto
    finally show ?thesis by (simp add: n ne)
  qed
qed (simp add: path_normalized_def)

lemma path_normalized_values:
  "map path_normalized [''a/./b/..'', ''a/..'', ''/..'', ''../.'', ''//a//b'', ''./x'', ''a/b/../..''] =
     [''a/'', ''.'', ''/'', ''..'', ''/a/b'', ''x'', ''.'']"
  by code_simp

end
