(* ===== verification/Nift_Commands.thy ===== *)
theory Nift_Commands
  imports Nift_Args Nift_Migrator Nift_Pipeline Nift_Listing
begin

text \<open>
  The commands of the command line, \<open>crates/cli/src/commands.cpp\<close>, on the disk: \<open>init\<close>, \<open>build\<close>,
  \<open>migrate\<close>, \<open>clean\<close> and \<open>dispatch\<close>.  A command takes the parsed arguments and the disk and gives
  its exit code with what it prints to the two streams, and the disk; an exception that ends the
  process is \<open>None\<close>.  \<open>serve\<close>, which runs until it is interrupted, is a parameter of \<open>dispatch\<close> here and
  modelled in \<open>Nift_Serve\<close>; the number of worker threads is left to the schedule.

  The lemmas show that \<open>init\<close> leaves a project that loads as the default one, that \<open>clean\<close> removes
  the outputs and nothing else, and when a migration keeps the configuration that \<open>build\<close> uses.
\<close>

section \<open>What the commands take from outside\<close>

text \<open>
  The environment: the JSON library, the answers of the system to \<open>mmap\<close>, BLAKE3; the regular files
  and their number below a directory, in the order of its iterator; the schedule of the worker pool
  for a list of inputs; the order in which the cache's table is iterated; the order in which
  \<open>remove_all\<close> visits a tree, children first; the version macro and the clock.
\<close>

record cli_env =
  ce_lib :: json_lib
  ce_mmap :: "string \<Rightarrow> bool"
  ce_blake3 :: hasher
  ce_sources :: "string \<Rightarrow> fs \<Rightarrow> string list"
  ce_files_below :: "string \<Rightarrow> fs \<Rightarrow> nat"
  ce_sched :: "string list \<Rightarrow> nat list"
  ce_keys :: "(string \<rightharpoonup> tracked_file) \<Rightarrow> string list"
  ce_walk :: "string \<Rightarrow> fs \<Rightarrow> string list"
  ce_version :: string
  ce_elapsed :: nat

record outcome =
  oc_exit :: nat
  oc_out :: string
  oc_err :: string

definition exits :: "nat \<Rightarrow> string \<Rightarrow> string \<Rightarrow> outcome option" where
  "exits code out err = Some \<lparr>oc_exit = code, oc_out = out, oc_err = err\<rparr>"

section \<open>Help and version\<close>

definition version_string :: "cli_env \<Rightarrow> string" where
  "version_string E = ''nift '' @ ce_version E"

definition help_text :: string where
  "help_text = join
    [
     ''nift '' @ [CHR 0xE2, CHR 0x80, CHR 0x94] @ '' modern C++ static site generator'',
     [],
     ''USAGE:'',
     ''  nift <command> [options]'',
     [],
     ''COMMANDS:'',
     ''  init [path]        Scaffold a new nift project at '' @ [CHR 0x60] @ ''path'' @ [CHR 0x60] @ '' (default: .)'',
     ''  build [path]       Build the site at '' @ [CHR 0x60] @ ''path'' @ [CHR 0x60] @ '' (default: .)'',
     ''  serve [path]       Build + serve with hot reload (default: .)'',
     ''  migrate [path]     Migrate a v1 nsm project to v2 layout'',
     ''  clean [path]       Remove build outputs and cache'',
     ''  version            Print version'',
     ''  help               Show this help'',
     [],
     ''GLOBAL OPTIONS:'',
     ''  --quiet            Suppress non-error output'',
     ''  --no-cache         Disable incremental build cache'',
     ''  --threads <N>      Worker thread count (default: hardware_concurrency)'',
     [],
     ''SERVE OPTIONS:'',
     ''  --host <addr>      Bind address (default: 127.0.0.1)'',
     ''  --port <n>         Port (default: 8080, 0=ephemeral)'',
     ''  --no-watch         Don'' @ [CHR 0x27] @ ''t watch for file changes'',
     [],
     ''EXAMPLES:'',
     ''  nift init my-blog          Create a new project'',
     ''  nift build                 Build the project in current dir'',
     ''  nift serve --port 3000     Dev server on port 3000'',
     [],
     ''See https://github.com/ronggothelast/nsm-v2 for full documentation.'',
     []] [NL]"

definition cmd_help :: "fs \<Rightarrow> outcome option \<times> fs" where
  "cmd_help d = (exits 0 help_text [], d)"

definition cmd_version :: "cli_env \<Rightarrow> fs \<Rightarrow> outcome option \<times> fs" where
  "cmd_version E d = (exits 0 (version_string E @ [NL]) [], d)"

section \<open>The configuration in use\<close>

definition target_dir :: "parsed_args \<Rightarrow> string" where
  "target_dir args = (case pa_positional args of [] \<Rightarrow> ''.'' | p # ps \<Rightarrow> p)"

definition quiet :: "parsed_args \<Rightarrow> bool" where
  "quiet args = args_get_bool ''quiet'' False args"

definition legacy_candidates :: "string list" where
  "legacy_candidates = [''/nift.config'', ''/nsm.config'', ''/siteInfo/nsm.config'', ''/.nsm/nsm.config'']"

fun load_legacy :: "string \<Rightarrow> string list \<Rightarrow> fs \<Rightarrow> project_config option" where
  "load_legacy root [] d = None"
| "load_legacy root (rel # rels) d =
     (if \<not> file_exists (root @ rel) d then load_legacy root rels d
      else case load_v1_config_file (root @ rel) [] d of
        Inl e \<Rightarrow> load_legacy root rels d
      | Inr (cfg, notes) \<Rightarrow> Some cfg)"

definition rebase :: "string \<Rightarrow> string \<Rightarrow> string" where
  "rebase root p = (if p \<noteq> [] \<and> hd p \<noteq> CHR ''/'' then root @ ''/'' @ p else p)"

definition rebase_config :: "string \<Rightarrow> project_config \<Rightarrow> project_config" where
  "rebase_config root c =
     c\<lparr>pc_content_dir := rebase root (pc_content_dir c), pc_output_dir := rebase root (pc_output_dir c),
       pc_template_dir := rebase root (pc_template_dir c), pc_cache_dir := rebase root (pc_cache_dir c),
       pc_tracked_path := rebase root (pc_tracked_path c)\<rparr>"

definition load_or_default :: "cli_env \<Rightarrow> string \<Rightarrow> fs \<Rightarrow> project_config" where
  "load_or_default E root d =
     (let cfg_path = root @ ''/nift.json'';
          loaded = (if file_exists cfg_path d
            then (case config_load (ce_lib E) cfg_path d of Inl e \<Rightarrow> None | Inr cfg \<Rightarrow> Some cfg)
            else None);
          loaded = (case loaded of Some cfg \<Rightarrow> Some cfg | None \<Rightarrow> load_legacy root legacy_candidates d)
      in rebase_config root (case loaded of Some cfg \<Rightarrow> cfg | None \<Rightarrow> default_config))"

definition discover_sources :: "cli_env \<Rightarrow> string \<Rightarrow> fs \<Rightarrow> string list" where
  "discover_sources E dir d = (if \<not> file_exists dir d then [] else ce_sources E dir d)"

section \<open>The commands\<close>

definition index_page :: string where
  "index_page =
     ''<!doctype html><html><head><title>Nift Site</title></head>'' @
     ''<body><h1>Welcome to Nift v2</h1>'' @
     ''<p>Edit <code>content/index.html</code> to get started.</p>'' @
     ''</body></html>'' @ [NL]"

definition cmd_init :: "cli_env \<Rightarrow> parsed_args \<Rightarrow> fs \<Rightarrow> outcome option \<times> fs" where
  "cmd_init E args d =
     (let root = target_dir args;
          d = fold (\<lambda>p d. snd (create_directories p d))
                [root, root @ ''/content'', root @ ''/templates'', root @ ''/public'', root @ ''/.nift/cache''] d;
          cfg = default_config\<lparr>pc_content_dir := ''content'', pc_output_dir := ''public'',
                  pc_template_dir := ''templates'', pc_cache_dir := ''.nift/cache'',
                  pc_tracked_path := ''.nift/tracked.json''\<rparr>
      in case config_to_json (ce_lib E) cfg of
        None \<Rightarrow> (None, d)
      | Some json \<Rightarrow>
          (case write_file (root @ ''/nift.json'') json d of
             (Inl e, d) \<Rightarrow> (exits 2 [] (''init: failed to write nift.json'' @ [NL]), d)
           | (Inr _, d) \<Rightarrow>
               let index_md = root @ ''/content/index.html'';
                   d = (if \<not> file_exists index_md d then snd (write_file index_md index_page d) else d)
               in (exits 0 (if quiet args then [] else ''Initialized nift project at '' @ root @ [NL]) [], d)))"

definition built_message :: "cli_env \<Rightarrow> build_report \<Rightarrow> string" where
  "built_message E report =
     (let dot = '' '' @ [CHR 0xC2, CHR 0xB7] @ '' ''
      in ''Built '' @ show_nat (br_built report) @ dot @ ''cached '' @ show_nat (br_cached report) @
        dot @ ''failed '' @ show_nat (br_failed report) @ '' in '' @ show_nat (ce_elapsed E) @ '' ms'' @ [NL])"

definition cmd_build :: "cli_env \<Rightarrow> parsed_args \<Rightarrow> fs \<Rightarrow> outcome option \<times> fs" where
  "cmd_build E args d =
     (let root = target_dir args;
          cfg = load_or_default E root d;
          (cache, d) = cache_create (pc_cache_dir cfg) d;
          use_cache = (\<not> args_get_bool ''no-cache'' False args);
          cache = (if use_cache then snd (cache_load (ce_lib E) cache d) else cache);
          sources = discover_sources E (pc_content_dir cfg) d
      in if sources = []
      then (exits 0 (if quiet args then [] else ''No content found in '' @ pc_content_dir cfg @ [NL]) [], d)
      else
        let P = \<lparr>pl_output_dir = pc_output_dir cfg, pl_mmap = ce_mmap E, pl_blake3 = ce_blake3 E\<rparr>;
            (report, cache, d) = build P sources (ce_sched E sources) (if use_cache then Some cache else None, d);
            (saved, d) = (case cache of
               Some c \<Rightarrow> cache_save (ce_lib E) (ce_keys E (bc_entries c)) c d
             | None \<Rightarrow> (Some (Inr ()), d))
        in if saved = None then (None, d)
        else (exits (if br_failed report = 0 then 0 else 1) (if quiet args then [] else built_message E report) [], d))"

definition cmd_migrate :: "cli_env \<Rightarrow> parsed_args \<Rightarrow> fs \<Rightarrow> outcome option \<times> fs" where
  "cmd_migrate E args d =
     (case migrate_project (ce_lib E) (ce_files_below E) (target_dir args) d of
        (None, d) \<Rightarrow> (None, d)
      | (Some (Inl e), d) \<Rightarrow> (exits 1 [] (''migrate: failed'' @ [NL]), d)
      | (Some (Inr report), d) \<Rightarrow>
          (exits 0
             (if quiet args then []
              else ''Migrated '' @ show_nat (mg_files_examined report) @ '' files'' @ [NL] @
                (if mg_config_written report
                 then ''Wrote nift.json (was: '' @ mg_source_config_path report @ '')'' @ [NL] else []) @
                concat (map (\<lambda>note. ''  - '' @ note @ [NL]) (mg_notes report)))
             [], d))"

text \<open>What \<open>remove_all\<close> leaves; its error code is not looked at.\<close>

definition remove_all :: "cli_env \<Rightarrow> string \<Rightarrow> fs \<Rightarrow> fs" where
  "remove_all E p d = snd (remove_walk (ce_walk E p d) (ce_walk E p d) d)"

definition cmd_clean :: "cli_env \<Rightarrow> parsed_args \<Rightarrow> fs \<Rightarrow> outcome option \<times> fs" where
  "cmd_clean E args d =
     (let root = target_dir args;
          cfg = load_or_default E root d;
          d = remove_all E (pc_output_dir cfg) d;
          d = remove_all E (pc_cache_dir cfg) d
      in (exits 0
            (if quiet args then []
             else ''Cleaned '' @ pc_output_dir cfg @ '' and '' @ pc_cache_dir cfg @ [NL])
            [], d))"

definition dispatch :: "cli_env \<Rightarrow> (parsed_args \<Rightarrow> fs \<Rightarrow> outcome option \<times> fs) \<Rightarrow> parsed_args \<Rightarrow> fs \<Rightarrow>
    outcome option \<times> fs" where
  "dispatch E cmd_serve args d =
     (if pa_subcommand args = [] \<or> pa_subcommand args = ''help'' \<or> args_get_bool ''help'' False args \<or>
         args_get_bool ''h'' False args
      then cmd_help d
      else if pa_subcommand args = ''version'' \<or> args_get_bool ''version'' False args \<or>
         args_get_bool ''V'' False args
      then cmd_version E d
      else if pa_subcommand args = ''init'' then cmd_init E args d
      else if pa_subcommand args = ''build'' then cmd_build E args d
      else if pa_subcommand args = ''serve'' then cmd_serve args d
      else if pa_subcommand args = ''migrate'' then cmd_migrate E args d
      else if pa_subcommand args = ''clean'' then cmd_clean E args d
      else (exits 2 []
              (''Unknown command: '' @ pa_subcommand args @ [NL] @
               ''Run '' @ [CHR 0x60] @ ''nift help'' @ [CHR 0x60] @ '' for usage.'' @ [NL]), d))"

definition main_flags :: "string list" where
  "main_flags = [''quiet'', ''no-cache'', ''no-watch'', ''help'', ''h'', ''version'', ''V'']"

definition nift_main :: "cli_env \<Rightarrow> (parsed_args \<Rightarrow> fs \<Rightarrow> outcome option \<times> fs) \<Rightarrow> string list \<Rightarrow> fs \<Rightarrow>
    outcome option \<times> fs" where
  "nift_main E cmd_serve argv d = dispatch E cmd_serve (parse_args argv main_flags) d"

section \<open>Cleaning\<close>

text \<open>
  What the order of \<open>remove_all\<close> is known to be: everything at or below the path, and every path before
  the directory that holds it.  The empty path names nothing, so its walk is empty.
\<close>

definition removed_by :: "string \<Rightarrow> string \<Rightarrow> bool" where
  "removed_by p q \<longleftrightarrow> p \<noteq> [] \<and> within p q"

definition walk_ok :: "cli_env \<Rightarrow> bool" where
  "walk_ok E \<longleftrightarrow> (\<forall>p d. finite (dom (fs_tree d)) \<longrightarrow>
     set (ce_walk E p d) = {q. file_exists q d \<and> removed_by p q} \<and>
     sorted_wrt (\<lambda>a b. \<not> below a b) (ce_walk E p d))"

lemma remove_all_tree:
  assumes "walk_ok E" "finite (dom (fs_tree d))"
  shows "\<not> removed_by p q \<Longrightarrow> fs_tree (remove_all E p d) q = fs_tree d q"
    and "\<forall>q. \<not> fs_deny_write d q \<Longrightarrow> removed_by p q \<Longrightarrow> fs_tree (remove_all E p d) q = None"
    and "fs_tree (remove_all E p d) q = fs_tree d q \<or> fs_tree (remove_all E p d) q = None"
    and "fs_deny_write (remove_all E p d) = fs_deny_write d" "finite (dom (fs_tree (remove_all E p d)))"
proof -
  let ?W = "ce_walk E p d"
  have W: "set ?W = {q. file_exists q d \<and> removed_by p q}" "sorted_wrt (\<lambda>a b. \<not> below a b) ?W"
    using assms by (auto simp: walk_ok_def)
  have f: "fs_tree (remove_all E p d) q = fs_tree d q \<or> q \<in> set ?W \<and> fs_tree (remove_all E p d) q = None" for q
    unfolding remove_all_def by (rule remove_walk_tree)
  show "fs_tree (remove_all E p d) q = fs_tree d q" if "\<not> removed_by p q" using f [of q] that W(1) by simp
  show t: "fs_tree (remove_all E p d) q = fs_tree d q \<or> fs_tree (remove_all E p d) q = None" for q
    using f [of q] by (elim disjE) simp_all
  show "fs_deny_write (remove_all E p d) = fs_deny_write d" by (simp add: remove_all_def remove_walk_deny)
  show "fs_tree (remove_all E p d) q = None" if "\<forall>q. \<not> fs_deny_write d q" "removed_by p q"
  proof (cases "q \<in> set ?W")
    case True
    from remove_walk_all [of ?W "[]" ?W d q] W(2) that(1) True show ?thesis by (simp add: remove_all_def)
  next
    case False
    then have "fs_tree d q = None" using W(1) that(2) by (simp add: file_exists_def)
    with t [of q] show ?thesis by auto
  qed
  have "dom (fs_tree (remove_all E p d)) \<subseteq> dom (fs_tree d)" using t by (metis (mono_tags, lifting) domIff subsetI)
  then show "finite (dom (fs_tree (remove_all E p d)))" using assms(2) by (rule finite_subset)
qed

text \<open>\<open>nift clean\<close> removes the outputs and nothing else.  It reports success, leaves every path that
  is not at or below the configured output or cache directory as it was, and, when the system
  refuses no removal, leaves nothing at or below these two.\<close>

lemma clean_removes:
  assumes "walk_ok E" "finite (dom (fs_tree d))" "cfg = load_or_default E (target_dir args) d"
    and "cmd_clean E args d = (oc, d')"
  shows "map_option oc_exit oc = Some 0 \<and>
    (\<not> removed_by (pc_output_dir cfg) q \<and> \<not> removed_by (pc_cache_dir cfg) q \<longrightarrow> fs_tree d' q = fs_tree d q) \<and>
    ((\<forall>q. \<not> fs_deny_write d q) \<longrightarrow> removed_by (pc_output_dir cfg) q \<or> removed_by (pc_cache_dir cfg) q \<longrightarrow>
       fs_tree d' q = None)"
proof -
  let ?d1 = "remove_all E (pc_output_dir cfg) d"
  note r1 = remove_all_tree [OF assms(1,2), where p = "pc_output_dir cfg"]
  note r2 = remove_all_tree [OF assms(1) r1(5), where p = "pc_cache_dir cfg"]
  have d': "d' = remove_all E (pc_cache_dir cfg) ?d1" "map_option oc_exit oc = Some 0"
    using assms(3,4) by (auto simp: cmd_clean_def exits_def Let_def)
  have gone: "fs_tree d' q = None" if free: "\<forall>q. \<not> fs_deny_write d q"
    and q: "removed_by (pc_output_dir cfg) q \<or> removed_by (pc_cache_dir cfg) q"
  proof (cases "removed_by (pc_cache_dir cfg) q")
    case True
    from free r1(4) have "\<forall>q. \<not> fs_deny_write ?d1 q" by simp
    from r2(2) [OF this True] d'(1) show ?thesis by simp
  next
    case False
    with q r1(2) [OF free] have "fs_tree ?d1 q = None" by simp
    with r2(3) [of q] d'(1) show ?thesis by auto
  qed
  have "fs_tree d' q = fs_tree d q" if "\<not> removed_by (pc_output_dir cfg) q" "\<not> removed_by (pc_cache_dir cfg) q"
    using r1(1) [OF that(1)] r2(1) [OF that(2)] d'(1) by simp
  with gone d'(2) show ?thesis by blast
qed

section \<open>A new project\<close>

lemma fold_create_keeps: "keeps {} d (fold (\<lambda>p d. snd (create_directories p d)) ps d)"
proof (induction ps arbitrary: d)
  case (Cons p ps)
  from keeps_trans [OF create_directories_keeps [of d p] Cons.IH] show ?case by simp
qed (simp add: keeps_refl)

text \<open>A write to a path that does not exist yet, as a frame condition.\<close>

lemma write_new_keeps: "\<not> file_exists p d \<Longrightarrow> keeps {} d (snd (write_file p content d))"
proof -
  assume p: "\<not> file_exists p d"
  note k = write_file_keeps [of p d content]
  have "fs_tree (snd (write_file p content d)) q = fs_tree d q" if "fs_tree d q \<noteq> None" for q
    using k that p by (cases "q = p") (simp_all add: keeps_def file_exists_def)
  with k show ?thesis by (simp add: keeps_def)
qed

lemma load_written:
  assumes "json_lib_ok (ce_lib E)" "config_to_json (ce_lib E) cfg = Some json"
    and "read_file (root @ ''/nift.json'') d = Inr json"
  shows "load_or_default E root d = rebase_config root cfg"
proof -
  have "config_load (ce_lib E) (root @ ''/nift.json'') d = Inr cfg"
    using config_written [OF assms(1,2)] assms(3) by blast
  moreover have "file_exists (root @ ''/nift.json'') d" using assms(3) by (rule read_file_exists)
  ultimately show ?thesis by (simp add: load_or_default_def)
qed

text \<open>\<open>nift init\<close> makes a project that works.  When it reports success and \<open>nift.json\<close> can be read,
  the other commands find the default configuration below the project's root, there is an
  \<open>index.html\<close> unless the system refused it, and everything else that existed is untouched.\<close>

lemma init_loads:
  assumes "json_lib_ok (ce_lib E)" "cmd_init E args d = (Some oc, d')" "oc_exit oc = 0"
    and "root = target_dir args" "\<not> fs_deny_read d (root @ ''/nift.json'')"
  shows "load_or_default E root d' = rebase_config root default_config \<and> keeps {root @ ''/nift.json''} d d'"
proof -
  let ?n = "root @ ''/nift.json''" and ?i = "root @ ''/content/index.html''"
  let ?dirs = "[root, root @ ''/content'', root @ ''/templates'', root @ ''/public'', root @ ''/.nift/cache'']"
  define d0 where "d0 = fold (\<lambda>p d. snd (create_directories p d)) ?dirs d"
  have cfg: "default_config\<lparr>pc_content_dir := ''content'', pc_output_dir := ''public'',
      pc_template_dir := ''templates'', pc_cache_dir := ''.nift/cache'',
      pc_tracked_path := ''.nift/tracked.json''\<rparr> = default_config" by (simp add: default_config_def)
  obtain json where j: "config_to_json (ce_lib E) default_config = Some json"
    using assms(2) by (auto simp: cmd_init_def Let_def cfg split: option.splits)
  obtain r d1 where w: "write_file ?n json d0 = (r, d1)" by fastforce
  have "r = Inr ()" and d': "d' = (if \<not> file_exists ?i d1 then snd (write_file ?i index_page d1) else d1)"
    using assms(2-4) j w
    by (auto simp: cmd_init_def Let_def cfg d0_def exits_def split: sum.splits if_splits simp del: fold_simps)
  have k0: "keeps {} d d0" unfolding d0_def by (rule fold_create_keeps)
  have k1: "keeps {?n} d0 d1" using write_file_keeps [of ?n d0 json] w by simp
  have k2: "keeps {} d1 d'" unfolding d' by (simp add: write_new_keeps keeps_refl)
  have "\<not> fs_deny_read d0 ?n" using k0 assms(5) by (simp add: keeps_def)
  then have "read_file ?n d1 = Inr json" using write_read [OF w] \<open>r = Inr ()\<close> by simp
  then have "read_file ?n d' = Inr json" using keeps_read [OF k2] by simp
  from load_written [OF assms(1) j this] keeps_trans [OF k0 keeps_trans [OF k1 k2]] show ?thesis by simp
qed

section \<open>Migrating what a build uses\<close>

text \<open>The project has one version 1 configuration, at a place that both \<open>migrate\<close> and \<open>build\<close> look at,
  and nothing that either of them prefers to it.\<close>

definition one_v1_config :: "string \<Rightarrow> fs \<Rightarrow> bool" where
  "one_v1_config root d \<longleftrightarrow>
     (\<exists>rel\<in>{''/siteInfo/nsm.config'', ''/.nsm/nsm.config'', ''/nsm.config''}.
        file_exists (root @ rel) d \<and>
        (\<forall>rel'\<in>{''/nift.json'', ''/nift.config'', ''/siteInfo/nsm.config'', ''/.nsm/nsm.config'', ''/nsm.config'',
                ''/.nsm/site.config''}. file_exists (root @ rel') d \<longrightarrow> rel' = rel))"

lemma one_v1_config_found:
  assumes "one_v1_config root d"
  obtains p where "find_v1_config root d = p" "p \<noteq> []" "file_exists p d" "\<not> file_exists (root @ ''/nift.json'') d"
    "\<And>cfg notes. load_v1_config_file p [] d = Inr (cfg, notes) \<Longrightarrow> load_legacy root legacy_candidates d = Some cfg"
  using assms unfolding one_v1_config_def
  by (elim bexE insertE emptyE; intro that [OF refl])
    (auto simp: find_v1_config_def legacy_candidates_def)

text \<open>C25: A migration does not change what a build does.  When the project's one version 1 configuration
  lies where both commands look for it, then after a \<open>nift migrate\<close> that reports success the other
  commands work with the same configuration as before.\<close>

theorem migrate_same_config:
  assumes "json_lib_ok (ce_lib E)" "cmd_migrate E args d = (Some oc, d')" "oc_exit oc = 0"
    and "root = target_dir args" "one_v1_config root d" "\<not> fs_deny_read d (root @ ''/nift.json'')"
  shows "load_or_default E root d' = load_or_default E root d"
proof -
  obtain report where m: "migrate_project (ce_lib E) (ce_files_below E) root d = (Some (Inr report), d')"
    using assms(2-4) by (auto simp: cmd_migrate_def exits_def split: option.splits sum.splits prod.splits)
  obtain p where p: "find_v1_config root d = p" "p \<noteq> []" "file_exists p d" "\<not> file_exists (root @ ''/nift.json'') d"
    and legacy: "\<And>cfg notes. load_v1_config_file p [] d = Inr (cfg, notes) \<Longrightarrow>
      load_legacy root legacy_candidates d = Some cfg"
    using one_v1_config_found [OF assms(5)] by metis
  obtain src where src: "read_file p d = Inr src"
    using m p by (auto simp: migrate_project_def Let_def split: sum.splits)
  have "load_or_default E root d = rebase_config root (migrated_config root d)"
    using p src legacy by (auto simp: load_or_default_def migrated_config_def load_v1_config_file_def prod_eq_iff)
  moreover have "file_exists (root @ ''/nift.json'') d'"
    "config_load (ce_lib E) (root @ ''/nift.json'') d' = Inr (migrated_config root d)"
    using migration_loads [OF assms(1) m assms(6)] by auto
  ultimately show ?thesis by (simp add: load_or_default_def)
qed

section \<open>A demonstration project\<close>

definition demo_env :: cli_env where
  "demo_env = \<lparr>ce_lib = unary_lib, ce_mmap = (\<lambda>p. True), ce_blake3 = (\<lambda>s. replicate 32 0),
     ce_sources = (\<lambda>p d. []), ce_files_below = (\<lambda>p d. 2), ce_sched = (\<lambda>qs. [0..<length qs]),
     ce_keys = (\<lambda>m. []),
     ce_walk = (\<lambda>p d. rev (sort_key length (sorted_list_of_set {q. file_exists q d \<and> removed_by p q}))),
     ce_version = ''2'', ce_elapsed = 0\<rparr>"

definition demo_args :: parsed_args where
  "demo_args = no_args\<lparr>pa_positional := [''p'']\<rparr>"

definition site :: "(string \<rightharpoonup> fs_entry) \<Rightarrow> fs" where
  "site t = \<lparr>fs_tree = t, fs_deny_read = (\<lambda>_. False), fs_deny_write = (\<lambda>_. False)\<rparr>"

lemma demo_walk_ok: "walk_ok demo_env"
  unfolding walk_ok_def
proof (intro allI impI)
  fix p and d :: fs
  assume "finite (dom (fs_tree d))"
  then have f: "finite {q. file_exists q d \<and> removed_by p q}"
    by (rule rev_finite_subset) (auto simp: file_exists_def)
  have "sorted_wrt (\<lambda>a b. length b \<le> length a) (rev (sort_key length xs))" for xs :: "string list"
    using sorted_sort_key [of length xs] by (simp add: sorted_wrt_rev sorted_map)
  moreover have "\<not> below a b" if "length b \<le> length a" for a b
    using that below_longer [of a b] by auto
  ultimately have "sorted_wrt (\<lambda>a b. \<not> below a b) (rev (sort_key length xs))" for xs :: "string list"
    by (rule sorted_wrt_mono_rel [rotated])
  with f show "set (ce_walk demo_env p d) = {q. file_exists q d \<and> removed_by p q} \<and>
      sorted_wrt (\<lambda>a b. \<not> below a b) (ce_walk demo_env p d)"
    by (simp add: demo_env_def)
qed

lemma clean_removes_witness:
  "fs_tree (snd (cmd_clean demo_env demo_args (site [''p/public/x'' \<mapsto> File ''x'', ''p/a'' \<mapsto> File ''y'']))) ''p/public/x'' = None"
proof -
  let ?d = "site [''p/public/x'' \<mapsto> File ''x'', ''p/a'' \<mapsto> File ''y'']"
  have cfg: "load_or_default demo_env (target_dir demo_args) ?d = rebase_config ''p'' default_config"
    by (simp add: load_or_default_def legacy_candidates_def target_dir_def demo_args_def no_args_def
        file_exists_def site_def)
  have "finite (dom (fs_tree ?d))" by (simp add: site_def)
  from clean_removes [OF demo_walk_ok this refl surjective_pairing, of demo_args "''p/public/x''"] show ?thesis
    unfolding cfg by (simp add: site_def rebase_config_def rebase_def default_config_def removed_by_def within_def below_def)
qed

lemma init_loads_witness:
  "load_or_default demo_env ''p'' (snd (cmd_init demo_env demo_args (site Map.empty))) =
     rebase_config ''p'' default_config"
proof -
  define d0 where "d0 = fold (\<lambda>p d. snd (create_directories p d))
      [''p'', ''p/content'', ''p/templates'', ''p/public'', ''p/.nift/cache''] (site Map.empty)"
  have "fs_tree d0 ''p'' = Some Dir" "fs_tree d0 ''p/nift.json'' = None" "\<not> fs_deny_write d0 ''p/nift.json''"
    unfolding d0_def site_def by code_simp+
  then have "fst (write_file ''p/nift.json'' json d0) = Inr ()" for json
    by (simp add: write_file_def create_directories_def demo_parents)
  then obtain oc d' where i: "cmd_init demo_env demo_args (site Map.empty) = (Some oc, d')" "oc_exit oc = 0"
    by (auto simp: cmd_init_def demo_env_def demo_args_def target_dir_def config_to_json_def unary_lib_def Let_def
        exits_def prod.case_eq_if sum.case_eq_if d0_def simp del: fold_simps)
  have "json_lib_ok (ce_lib demo_env)" by (simp add: demo_env_def unary_lib_ok)
  from init_loads [OF this i refl] i(1) show ?thesis by (simp add: site_def target_dir_def demo_args_def)
qed

lemma migrate_same_config_witness:
  "load_or_default demo_env ''p'' (snd (cmd_migrate demo_env demo_args v1_project)) =
     load_or_default demo_env ''p'' v1_project"
proof -
  obtain report d' where m: "migrate_project unary_lib (\<lambda>_ _. 2) ''p'' v1_project = (Some (Inr report), d')"
    using v1_project_migrates by blast
  then obtain oc where c: "cmd_migrate demo_env demo_args v1_project = (Some oc, d')" "oc_exit oc = 0"
    by (simp add: cmd_migrate_def demo_env_def demo_args_def target_dir_def exits_def)
  have "json_lib_ok (ce_lib demo_env)" by (simp add: demo_env_def unary_lib_ok)
  moreover have "one_v1_config ''p'' v1_project"
    by (simp add: one_v1_config_def v1_project_def file_exists_def)
  ultimately show ?thesis
    using migrate_same_config [OF _ c, of "''p''"] c(1) by (simp add: target_dir_def demo_args_def v1_project_def)
qed

text \<open>A migration can change what a build does.  \<open>build\<close> reads \<open>nift.config\<close>, which \<open>migrate\<close> does
  not look for: it reports success, writes the default \<open>nift.json\<close>, and the site is built from another
  directory from then on.\<close>

lemma migrate_drops_config:
  "let d = site [''p/nift.config'' \<mapsto> File (''contentDir = src'' @ [NL])];
       (oc, d') = cmd_migrate demo_env demo_args d
   in map_option oc_exit oc = Some 0 \<and>
      pc_content_dir (load_or_default demo_env ''p'' d) = ''p/src'' \<and>
      pc_content_dir (load_or_default demo_env ''p'' d') = ''p/content''"
proof -
  let ?kvs = "[(''contentDir'', ''src'')]"
  define d where "d = site [''p/nift.config'' \<mapsto> File (''contentDir = src'' @ [NL])]"
  have plain: "\<forall>(k, v)\<in>set ?kvs. plain_key k \<and> plain_value v"
    by (simp add: plain_key_def plain_value_def ws_set_def NL_def)
  have "read_file ''p/nift.config'' d = Inr (concat (map (\<lambda>kv. v1_line kv @ [NL]) ?kvs))"
    by (simp add: d_def site_def read_file_def v1_line_def)
  then have before: "load_legacy ''p'' legacy_candidates d = Some (default_config\<lparr>pc_content_dir := ''src''\<rparr>)"
    using parse_v1_config_text_plain [OF plain] read_file_exists
    by (simp add: legacy_candidates_def load_v1_config_file_def apply_v1_pairs_to_config_def
        translate_config_key_def config_keys_def)
  have "\<not> file_exists ''p/nift.json'' d" by (simp add: d_def site_def file_exists_def)
  with before have b: "pc_content_dir (load_or_default demo_env ''p'' d) = ''p/src''"
    by (simp add: load_or_default_def rebase_config_def rebase_def Let_def)
  have none: "find_v1_config ''p'' d = []" by (simp add: find_v1_config_def d_def site_def file_exists_def)
  have "fst (write_file ''p/nift.json'' content d) = Inr ()" for content
    by (simp add: write_file_def create_directories_def d_def site_def demo_parents)
  with none obtain report d' where m: "migrate_project unary_lib (\<lambda>_ _. 2) ''p'' d = (Some (Inr report), d')"
    by (auto simp: migrate_project_def write_config_def config_to_json_def unary_lib_def Let_def prod.case_eq_if)
  have "\<not> fs_deny_read d (''p'' @ ''/nift.json'')" by (simp add: d_def site_def)
  from migration_loads [OF unary_lib_ok m this] none have "load_or_default demo_env ''p'' d' = rebase_config ''p'' default_config"
    by (simp add: load_or_default_def migrated_config_def demo_env_def split: sum.splits)
  then have a: "pc_content_dir (load_or_default demo_env ''p'' d') = ''p/content''"
    by (simp add: rebase_config_def rebase_def default_config_def)
  obtain oc where "cmd_migrate demo_env demo_args d = (Some oc, d')" "oc_exit oc = 0"
    using m by (simp add: cmd_migrate_def demo_env_def demo_args_def target_dir_def exits_def)
  then show ?thesis using a b unfolding d_def [symmetric] by (simp add: Let_def)
qed

end
