(* ===== verification/Nift_Expr.thy ===== *)
theory Nift_Expr
  imports Nift_Double Nift_Core "HOL-Library.List_Lexorder" "HOL-Library.Monad_Syntax"
begin

text \<open>
  The expression evaluator, \<open>crates/runtime/expr/expr.cpp\<close>: a recursive-descent parser that computes
  while it parses.  The struct \<open>Parser\<close> is the record \<open>expr_parser\<close>; every value is a string.  The
  productions below the parentheses take the parser of a whole expression as an argument, and
  \<open>parse_expr\<close> ties the knot with fuel; a loop and the recursion of \<open>parse_unary\<close> consume a byte per
  round, so the length of the source is enough fuel for them (\<open>eval_expr_total\<close>).  The numbers are
  those of \<open>Nift_Double\<close>.
\<close>

section \<open>The parser\<close>

type_synonym expr_context = "string \<rightharpoonup> string"

record expr_parser =
  ep_src :: string
  ep_pos :: nat
  ep_ctx :: expr_context
  ep_ok :: bool

type_synonym production = "expr_parser \<Rightarrow> (string \<times> expr_parser) option"

definition ep_text :: "expr_parser \<Rightarrow> string" where
  "ep_text p = drop (ep_pos p) (ep_src p)"

definition ep_skip :: "nat \<Rightarrow> expr_parser \<Rightarrow> expr_parser" where
  "ep_skip n p = p\<lparr>ep_pos := ep_pos p + n\<rparr>"

definition expr_fail :: "expr_parser \<Rightarrow> string \<times> expr_parser" where
  "expr_fail p = ([], p\<lparr>ep_ok := False\<rparr>)"

definition skip_ws :: "expr_parser \<Rightarrow> expr_parser" where
  "skip_ws p = ep_skip (length (takeWhile isspace (ep_text p))) p"

definition match_tok :: "string \<Rightarrow> expr_parser \<Rightarrow> bool \<times> expr_parser" where
  "match_tok tok p =
     (let p = skip_ws p in
      if take (length tok) (ep_text p) = tok \<and> length tok \<le> length (ep_text p)
      then (True, ep_skip (length tok) p) else (False, p))"

text \<open>The first of several tokens that matches.\<close>

fun match_any :: "string list \<Rightarrow> expr_parser \<Rightarrow> string option \<times> expr_parser" where
  "match_any [] p = (None, p)"
| "match_any (tok # toks) p =
     (case match_tok tok p of (True, p) \<Rightarrow> (Some tok, p) | (False, p) \<Rightarrow> match_any toks p)"

text \<open>A double outside the range of \<open>long long\<close> makes the cast undefined; on the usual machines it gives
  \<open>LLONG_MIN\<close>, which is no equal, and the stream prints the number.\<close>

definition number_to_str :: "dbl \<Rightarrow> string" where
  "number_to_str d =
     (case d of
        Fin s m e \<Rightarrow>
          (case dbl_int d of
             Some i \<Rightarrow> if - (2 ^ 63) \<le> i \<and> i < 2 ^ 63 then show_int i else dbl_print d
           | None \<Rightarrow> dbl_print d)
      | _ \<Rightarrow> ''0'')"

definition to_double :: "string \<Rightarrow> dbl option" where
  "to_double s = (if s \<noteq> [] \<and> sr_rest (strtod s) = [] then Some (sr_value (strtod s)) else None)"

definition expr_truthy :: "string \<Rightarrow> bool" where
  "expr_truthy s \<longleftrightarrow> s \<noteq> [] \<and> s \<noteq> ''0'' \<and> s \<noteq> ''false'' \<and> s \<noteq> ''nil''"

definition bool_str :: "bool \<Rightarrow> string" where
  "bool_str b = (if b then ''true'' else ''false'')"

text \<open>The inside of a string literal: its value, and the text from the closing quote on.\<close>

fun string_literal :: "char \<Rightarrow> string \<Rightarrow> string \<times> string" where
  "string_literal quote [] = ([], [])"
| "string_literal quote (c # cs) =
     (if c = quote then ([], c # cs)
      else if c = CHR 0x5C \<and> cs \<noteq> [] then
        let (s, r) = string_literal quote (tl cs)
        in ((if hd cs = CHR ''n'' then NL else if hd cs = CHR ''t'' then CHR 0x09 else hd cs) # s, r)
      else let (s, r) = string_literal quote cs in (c # s, r))"

definition is_name_char :: "char \<Rightarrow> bool" where
  "is_name_char c \<longleftrightarrow> isalnum c \<or> c = CHR ''_''"

definition lookup_name :: "string \<Rightarrow> expr_parser \<Rightarrow> string" where
  "lookup_name name p =
     (if name = ''true'' then ''true''
      else if name = ''false'' then ''false''
      else case ep_ctx p name of Some v \<Rightarrow> v | None \<Rightarrow> [])"

definition parse_atom :: "production \<Rightarrow> production" where
  "parse_atom expr p =
     (let p = skip_ws p; t = ep_text p in
      if t = [] then Some (expr_fail p)
      else
        let c = hd t in
        if c = CHR ''('' then do {
          (v, p) \<leftarrow> expr (ep_skip 1 p);
          (let p = skip_ws p in
           if ep_text p \<noteq> [] \<and> hd (ep_text p) = CHR '')'' then Some (v, ep_skip 1 p)
           else Some (v, p\<lparr>ep_ok := False\<rparr>)) }
        else if c = CHR 0x22 \<or> c = CHR 0x27 then
          let (s, r) = string_literal c (tl t); p = ep_skip (length t - length r) p
          in Some (s, if r \<noteq> [] then ep_skip 1 p else p\<lparr>ep_ok := False\<rparr>)
        else if isdigit c \<or> c = CHR ''.'' \<and> 2 \<le> length t \<and> isdigit (t ! 1) then
          let ds = takeWhile (\<lambda>c. isdigit c \<or> c = CHR ''.'') t in Some (ds, ep_skip (length ds) p)
        else if isalpha c \<or> c = CHR ''_'' then
          let name = takeWhile is_name_char t in Some (lookup_name name p, ep_skip (length name) p)
        else Some (expr_fail p))"

text \<open>A minus sign directly before what it can negate.\<close>

definition is_negation :: "string \<Rightarrow> bool" where
  "is_negation t \<longleftrightarrow> 2 \<le> length t \<and> hd t = CHR ''-'' \<and> \<not> isspace (t ! 1) \<and>
     (isdigit (t ! 1) \<or> isalpha (t ! 1) \<or> t ! 1 = CHR ''('' \<or> t ! 1 = CHR ''_'')"

fun parse_unary :: "nat \<Rightarrow> production \<Rightarrow> production" where
  "parse_unary 0 expr p = None"
| "parse_unary (Suc k) expr p =
     (case match_tok ''!'' (skip_ws p) of
        (True, p) \<Rightarrow> do { (v, p) \<leftarrow> parse_unary k expr p; Some (bool_str (\<not> expr_truthy v), p) }
      | (False, p) \<Rightarrow>
          if is_negation (ep_text p) then do {
            (v, p) \<leftarrow> parse_unary k expr (ep_skip 1 p);
            Some (case to_double v of Some d \<Rightarrow> number_to_str (dbl_neg d) | None \<Rightarrow> v, p) }
          else parse_atom expr p)"

definition ep_fuel :: "expr_parser \<Rightarrow> nat" where
  "ep_fuel p = Suc (length (ep_src p))"

text \<open>One operation of the multiplicative level: \<open>None\<close> is an operand that is no number, or a zero divisor.\<close>

definition apply_mul :: "string \<Rightarrow> string \<Rightarrow> string \<Rightarrow> string option" where
  "apply_mul op lhs rhs =
     (case (to_double lhs, to_double rhs) of
        (Some a, Some b) \<Rightarrow>
          if op = ''*'' then Some (number_to_str (dbl_mul a b))
          else if dbl_eq b (dbl_zero False) then None
          else if op = ''/'' then Some (number_to_str (dbl_div a b))
          else Some (number_to_str (dbl_fmod a b))
      | _ \<Rightarrow> None)"

fun mul_loop :: "nat \<Rightarrow> production \<Rightarrow> string \<Rightarrow> production" where
  "mul_loop 0 expr lhs p = None"
| "mul_loop (Suc k) expr lhs p =
     (case match_any [''*'', ''/'', ''%''] (skip_ws p) of
        (None, p) \<Rightarrow> Some (lhs, p)
      | (Some op, p) \<Rightarrow> do {
          (rhs, p) \<leftarrow> parse_unary (ep_fuel p) expr p;
          (case apply_mul op lhs rhs of
             None \<Rightarrow> Some (expr_fail p)
           | Some v \<Rightarrow> mul_loop k expr v p) })"

definition parse_mul :: "production \<Rightarrow> production" where
  "parse_mul expr p = do {
     (lhs, p) \<leftarrow> parse_unary (ep_fuel p) expr p;
     mul_loop (ep_fuel p) expr lhs p }"

definition apply_add :: "string \<Rightarrow> string \<Rightarrow> string \<Rightarrow> string option" where
  "apply_add op lhs rhs =
     (if op = ''..'' then Some (lhs @ rhs)
      else case (to_double lhs, to_double rhs) of
        (Some a, Some b) \<Rightarrow> Some (number_to_str (if op = ''+'' then dbl_add a b else dbl_sub a b))
      | _ \<Rightarrow> None)"

fun add_loop :: "nat \<Rightarrow> production \<Rightarrow> string \<Rightarrow> production" where
  "add_loop 0 expr lhs p = None"
| "add_loop (Suc k) expr lhs p =
     (case match_any [''..'', ''+'', ''-''] (skip_ws p) of
        (None, p) \<Rightarrow> Some (lhs, p)
      | (Some op, p) \<Rightarrow> do {
          (rhs, p) \<leftarrow> parse_mul expr p;
          (case apply_add op lhs rhs of
             None \<Rightarrow> Some (expr_fail p)
           | Some v \<Rightarrow> add_loop k expr v p) })"

definition parse_add :: "production \<Rightarrow> production" where
  "parse_add expr p = do { (lhs, p) \<leftarrow> parse_mul expr p; add_loop (ep_fuel p) expr lhs p }"

text \<open>The comparison of two values: as numbers when both are, else as strings, byte by byte.\<close>

definition compare_with :: "string \<Rightarrow> ('a \<Rightarrow> 'a \<Rightarrow> bool) \<Rightarrow> ('a \<Rightarrow> 'a \<Rightarrow> bool) \<Rightarrow> 'a \<Rightarrow> 'a \<Rightarrow> bool" where
  "compare_with op eq lt a b =
     (if op = ''=='' then eq a b
      else if op = ''!='' then \<not> eq a b
      else if op = ''<'' then lt a b
      else if op = ''>'' then lt b a
      else if op = ''<='' then lt a b \<or> eq a b
      else lt b a \<or> eq a b)"

definition apply_cmp :: "string \<Rightarrow> string \<Rightarrow> string \<Rightarrow> bool" where
  "apply_cmp op lhs rhs =
     (case (to_double lhs, to_double rhs) of
        (Some a, Some b) \<Rightarrow> compare_with op dbl_eq dbl_less a b
      | _ \<Rightarrow> compare_with op (=) (<) lhs rhs)"

definition parse_cmp :: "production \<Rightarrow> production" where
  "parse_cmp expr p = do {
     (lhs, p) \<leftarrow> parse_add expr p;
     (case match_any [''=='', ''!='', ''<='', ''>='', ''<'', ''>''] (skip_ws p) of
        (None, p) \<Rightarrow> Some (lhs, p)
      | (Some op, p) \<Rightarrow> do { (rhs, p) \<leftarrow> parse_add expr p; Some (bool_str (apply_cmp op lhs rhs), p) }) }"

fun and_loop :: "nat \<Rightarrow> production \<Rightarrow> string \<Rightarrow> production" where
  "and_loop 0 expr lhs p = None"
| "and_loop (Suc k) expr lhs p =
     (case match_tok ''&&'' (skip_ws p) of
        (False, p) \<Rightarrow> Some (lhs, p)
      | (True, p) \<Rightarrow> do {
          (rhs, p) \<leftarrow> parse_cmp expr p;
          and_loop k expr (bool_str (expr_truthy lhs \<and> expr_truthy rhs)) p })"

definition parse_and :: "production \<Rightarrow> production" where
  "parse_and expr p = do { (lhs, p) \<leftarrow> parse_cmp expr p; and_loop (ep_fuel p) expr lhs p }"

fun or_loop :: "nat \<Rightarrow> production \<Rightarrow> string \<Rightarrow> production" where
  "or_loop 0 expr lhs p = None"
| "or_loop (Suc k) expr lhs p =
     (case match_tok ''||'' (skip_ws p) of
        (False, p) \<Rightarrow> Some (lhs, p)
      | (True, p) \<Rightarrow> do {
          (rhs, p) \<leftarrow> parse_and expr p;
          or_loop k expr (bool_str (expr_truthy lhs \<or> expr_truthy rhs)) p })"

definition parse_or :: "production \<Rightarrow> production" where
  "parse_or expr p = do { (lhs, p) \<leftarrow> parse_and expr p; or_loop (ep_fuel p) expr lhs p }"

text \<open>Each nested parenthesis takes one unit of fuel and one byte.\<close>

fun parse_expr :: "nat \<Rightarrow> production" where
  "parse_expr 0 p = None"
| "parse_expr (Suc n) p = parse_or (parse_expr n) p"

definition eval_expr :: "string \<Rightarrow> expr_context \<Rightarrow> string result option" where
  "eval_expr expr ctx =
     (case parse_expr (Suc (length expr)) \<lparr>ep_src = expr, ep_pos = 0, ep_ctx = ctx, ep_ok = True\<rparr> of
        None \<Rightarrow> None
      | Some (v, p) \<Rightarrow> Some (if ep_ok p then Inr v else Inl parse_error))"

definition eval_bool :: "string \<Rightarrow> expr_context \<Rightarrow> bool result option" where
  "eval_bool expr ctx =
     (case eval_expr expr ctx of
        None \<Rightarrow> None
      | Some (Inl e) \<Rightarrow> Some (Inl e)
      | Some (Inr s) \<Rightarrow> Some (Inr (\<not> (s = [] \<or> s = ''0'' \<or> s = ''false'' \<or> s = ''nil''))))"

section \<open>Evaluation returns\<close>

definition ep_rem :: "expr_parser \<Rightarrow> nat" where
  "ep_rem p = length (ep_text p)"

text \<open>\<open>p'\<close> is at or after \<open>p\<close> in the same source.\<close>

definition after :: "expr_parser \<Rightarrow> expr_parser \<Rightarrow> bool" where
  "after p p' \<longleftrightarrow> ep_src p' = ep_src p \<and> ep_rem p' \<le> ep_rem p"

text \<open>The production returns from every place with fewer than \<open>n\<close> bytes ahead, and never moves back.\<close>

definition runs :: "nat \<Rightarrow> production \<Rightarrow> bool" where
  "runs n f \<longleftrightarrow> (\<forall>p. ep_rem p < n \<longrightarrow> (\<exists>v p'. f p = Some (v, p') \<and> after p p'))"

lemma runsD:
  assumes "runs n f" "ep_rem p < n"
  obtains v p' where "f p = Some (v, p')" "after p p'"
  using assms by (auto simp: runs_def)

lemma after_refl [simp]: "after p p"
  by (simp add: after_def)

lemma after_trans: "after p q \<Longrightarrow> after q r \<Longrightarrow> after p r"
  by (auto simp: after_def)

lemma after_rem: "after p q \<Longrightarrow> ep_rem q \<le> ep_rem p"
  by (simp add: after_def)

lemma after_fuel: "after p q \<Longrightarrow> ep_fuel q = ep_fuel p"
  by (simp add: after_def ep_fuel_def)

lemma ep_rem_fuel: "ep_rem p < ep_fuel p"
  by (simp add: ep_rem_def ep_text_def ep_fuel_def)

lemma ep_skip_text [simp]: "ep_text (ep_skip n p) = drop n (ep_text p)"
  by (simp add: ep_skip_def ep_text_def add.commute)

lemma ep_skip_rem [simp]: "ep_rem (ep_skip n p) = ep_rem p - n"
  by (simp add: ep_rem_def)

lemma ep_skip_simps [simp]: "ep_src (ep_skip n p) = ep_src p" "ep_ctx (ep_skip n p) = ep_ctx p" "ep_ok (ep_skip n p) = ep_ok p"
  by (simp_all add: ep_skip_def)

lemma after_skip [simp]: "after p (ep_skip n p)"
  by (simp add: after_def)

lemma after_ok [simp]: "after p (q\<lparr>ep_ok := b\<rparr>) = after p q"
  by (simp add: after_def ep_rem_def ep_text_def)

lemma after_fail [simp]: "after p (snd (expr_fail q)) = after p q"
  by (simp add: expr_fail_def)

lemma after_ws [simp]: "after p (skip_ws p)"
  by (simp add: skip_ws_def)

lemma match_tok_after:
  assumes "match_tok tok p = (b, p')"
  shows "after p p'" and "b \<Longrightarrow> tok \<noteq> [] \<Longrightarrow> ep_rem p' < ep_rem p"
proof -
  let ?q = "skip_ws p"
  have q: "after p ?q" by simp
  from assms have d: "p' = ep_skip (length tok) ?q \<and> length tok \<le> ep_rem ?q \<and> b \<or> p' = ?q \<and> \<not> b"
    by (auto simp: match_tok_def ep_rem_def Let_def split: if_splits)
  show "after p p'" using d q after_trans [OF q after_skip] by auto
  assume "b" "tok \<noteq> []"
  with d have "0 < length tok" "ep_rem p' = ep_rem ?q - length tok" "length tok \<le> ep_rem ?q" by auto
  then show "ep_rem p' < ep_rem p" using after_rem [OF q] by linarith
qed

lemma match_any_after:
  "match_any toks p = (r, p') \<Longrightarrow> after p p' \<and> (r \<noteq> None \<longrightarrow> [] \<notin> set toks \<longrightarrow> ep_rem p' < ep_rem p)"
proof (induction toks arbitrary: p)
  case (Cons tok toks)
  obtain b q where m: "match_tok tok p = (b, q)" by fastforce
  note mt = match_tok_after [OF m]
  show ?case
  proof (cases b)
    case True
    with Cons.prems m mt show ?thesis by auto
  next
    case False
    with Cons.prems m have "match_any toks q = (r, p')" by simp
    from Cons.IH [OF this] mt after_trans after_rem [OF mt(1)] show ?thesis by fastforce
  qed
qed simp

lemma runs_atom:
  assumes "runs n expr"
  shows "runs (Suc n) (parse_atom expr)"
  unfolding runs_def
proof (intro allI impI)
  fix p
  assume p: "ep_rem p < Suc n"
  define q where "q = skip_ws p"
  have q: "after p q" by (simp add: q_def)
  show "\<exists>v p'. parse_atom expr p = Some (v, p') \<and> after p p'"
  proof (cases "ep_text q \<noteq> [] \<and> hd (ep_text q) = CHR ''(''")
    case True
    have "ep_rem (ep_skip 1 q) < n" using True p after_rem [OF q] by (cases "ep_text q") (auto simp: ep_rem_def)
    then obtain v p1 where e: "expr (ep_skip 1 q) = Some (v, p1)" "after (ep_skip 1 q) p1"
      by (rule runsD [OF assms])
    have "after p (skip_ws p1)"
      by (meson after_trans q after_skip e(2) after_ws)
    with True e(1) after_trans [OF this after_skip] show ?thesis
      by (auto simp: parse_atom_def q_def [symmetric] Let_def)
  next
    case False
    have skip: "after p (ep_skip m q)" "after p (ep_skip l (ep_skip m q))" for l m
      using after_trans [OF q after_skip] after_trans [OF after_trans [OF q after_skip] after_skip] by auto
    have if_rule: "(Q \<Longrightarrow> \<exists>v p'. a = Some (v, p') \<and> after p p') \<Longrightarrow> (\<not> Q \<Longrightarrow> \<exists>v p'. b = Some (v, p') \<and> after p p') \<Longrightarrow>
        \<exists>v p'. (if Q then a else b) = Some (v, p') \<and> after p p'" for Q and a b :: "(string \<times> expr_parser) option"
      by simp
    from False q skip show ?thesis
      unfolding parse_atom_def q_def [symmetric] Let_def prod.case_eq_if expr_fail_def
      by (intro if_rule) simp_all
  qed
qed

lemma runs_unary:
  assumes "runs n expr" "ep_rem p < Suc n" "ep_rem p < k"
  shows "\<exists>v p'. parse_unary k expr p = Some (v, p') \<and> after p p'"
  using assms(2,3)
proof (induction k arbitrary: p)
  case (Suc k)
  obtain b q where m: "match_tok ''!'' (skip_ws p) = (b, q)" by fastforce
  have pq: "after p q" by (rule after_trans [OF after_ws match_tok_after(1) [OF m]])
  consider "b" | "\<not> b" "is_negation (ep_text q)" | "\<not> b" "\<not> is_negation (ep_text q)" by blast
  then show ?case
  proof cases
    case 1
    have "ep_rem q < ep_rem p" using match_tok_after(2) [OF m 1] after_rem [OF after_ws [of p]] by simp
    with Suc.IH [of q] Suc.prems obtain v p' where "parse_unary k expr q = Some (v, p')" "after q p'" by auto
    with 1 m pq show ?thesis by (auto intro: after_trans)
  next
    case 2
    let ?q = "ep_skip 1 q"
    have "ep_rem ?q < ep_rem p" using 2(2) after_rem [OF pq] by (auto simp: is_negation_def ep_rem_def)
    with Suc.IH [of ?q] Suc.prems obtain v p' where "parse_unary k expr ?q = Some (v, p')" "after ?q p'" by auto
    with 2 m after_trans [OF pq after_skip] show ?thesis by (auto intro: after_trans)
  next
    case 3
    have "ep_rem q < Suc n" using Suc.prems after_rem [OF pq] by simp
    from runsD [OF runs_atom [OF assms(1)] this] obtain v p' where "parse_atom expr q = Some (v, p')" "after q p'"
      by blast
    with 3 m pq show ?thesis by (auto intro: after_trans)
  qed
qed simp

lemma runs_unary_fuel: "runs n expr \<Longrightarrow> runs (Suc n) (\<lambda>p. parse_unary (ep_fuel p) expr p)"
  unfolding runs_def [of "Suc n"] by (blast intro: runs_unary ep_rem_fuel)

text \<open>A loop that parses an operand after each token, and a chain of operands.\<close>

lemma runs_loop:
  assumes "\<And>lhs k p r q. match_any toks (skip_ws p) = (r, q) \<Longrightarrow> loop (Suc k) lhs p =
      (case r of None \<Rightarrow> Some (lhs, q)
       | Some op \<Rightarrow> do { (rhs, q) \<leftarrow> operand q;
           (case compute op lhs rhs of None \<Rightarrow> Some (expr_fail q) | Some v \<Rightarrow> loop k v q) })"
    and "runs n operand" "[] \<notin> set toks" "ep_rem p < n" "ep_rem p < k"
  shows "\<exists>v p'. loop k lhs p = Some (v, p') \<and> after p p'"
  using assms(4,5)
proof (induction k arbitrary: lhs p)
  case (Suc k)
  obtain r q where m: "match_any toks (skip_ws p) = (r, q)" by fastforce
  have pq: "after p q" using match_any_after [OF m] after_trans [OF after_ws] by blast
  show ?case
  proof (cases r)
    case None
    with assms(1) [OF m] pq show ?thesis by auto
  next
    case (Some op)
    have less: "ep_rem q < ep_rem p"
      using match_any_after [OF m] Some assms(3) after_rem [OF after_ws [of p]] by auto
    with Suc.prems(1) have "ep_rem q < n" by simp
    from runsD [OF assms(2) this] obtain rhs q' where o: "operand q = Some (rhs, q')" "after q q'" .
    show ?thesis
    proof (cases "compute op lhs rhs")
      case None
      with assms(1) [OF m] Some o after_trans [OF pq o(2)] show ?thesis
        by (cases "expr_fail q'") (auto simp: expr_fail_def)
    next
      case (Some v)
      have "ep_rem q' < n" "ep_rem q' < k" using less after_rem [OF o(2)] Suc.prems by simp_all
      from Suc.IH [OF this, of v] obtain w p' where "loop k v q' = Some (w, p')" "after q' p'" by blast
      with assms(1) [OF m] Some o \<open>r = Some op\<close> after_trans [OF pq o(2)] show ?thesis
        by (auto intro: after_trans)
    qed
  qed
qed simp

lemma match_any_one: "match_any [tok] p = (case match_tok tok p of (b, p) \<Rightarrow> (if b then Some tok else None, p))"
  by (simp split: prod.split bool.split)

lemma runs_chain:
  assumes "runs n operand" "\<And>p lhs. ep_rem p < n \<Longrightarrow> \<exists>v p'. loop (ep_fuel p) lhs p = Some (v, p') \<and> after p p'"
    "\<And>p. f p = do { (lhs, p) \<leftarrow> operand p; loop (ep_fuel p) lhs p }"
  shows "runs n f"
  unfolding runs_def
proof (intro allI impI)
  fix p
  assume p: "ep_rem p < n"
  then obtain lhs q where o: "operand p = Some (lhs, q)" "after p q" by (rule runsD [OF assms(1)])
  with p have "ep_rem q < n" using after_rem [OF o(2)] by simp
  from assms(2) [OF this, of lhs] obtain v p' where "loop (ep_fuel q) lhs q = Some (v, p')" "after q p'" by blast
  with o show "\<exists>v p'. f p = Some (v, p') \<and> after p p'" by (auto simp: assms(3) intro: after_trans)
qed

lemma runs_mul: "runs n expr \<Longrightarrow> runs (Suc n) (parse_mul expr)"
proof (rule runs_chain [of _ "\<lambda>p. parse_unary (ep_fuel p) expr p" "\<lambda>k. mul_loop k expr"])
  assume e: "runs n expr"
  show u: "runs (Suc n) (\<lambda>p. parse_unary (ep_fuel p) expr p)" by (rule runs_unary_fuel [OF e])
  show "\<exists>v p'. mul_loop (ep_fuel p) expr lhs p = Some (v, p') \<and> after p p'" if "ep_rem p < Suc n" for p lhs
    by (rule runs_loop [where toks = "[''*'', ''/'', ''%'']" and compute = apply_mul and n = "Suc n", OF _ u _ that ep_rem_fuel])
      (simp_all split: option.split)
qed (simp add: parse_mul_def)

lemma runs_add: "runs n expr \<Longrightarrow> runs (Suc n) (parse_add expr)"
proof (rule runs_chain [of _ "parse_mul expr" "\<lambda>k. add_loop k expr"])
  assume e: "runs n expr"
  show u: "runs (Suc n) (parse_mul expr)" by (rule runs_mul [OF e])
  show "\<exists>v p'. add_loop (ep_fuel p) expr lhs p = Some (v, p') \<and> after p p'" if "ep_rem p < Suc n" for p lhs
    by (rule runs_loop [where toks = "[''..'', ''+'', ''-'']" and compute = apply_add and n = "Suc n", OF _ u _ that ep_rem_fuel])
      (simp_all split: option.split)
qed (simp add: parse_add_def)

lemma runs_cmp: "runs n expr \<Longrightarrow> runs (Suc n) (parse_cmp expr)"
  unfolding runs_def [of "Suc n"]
proof (intro allI impI)
  fix p
  assume e: "runs n expr" and p: "ep_rem p < Suc n"
  note add = runsD [OF runs_add [OF e]]
  obtain lhs q where o: "parse_add expr p = Some (lhs, q)" "after p q" using add p by blast
  obtain r q' where m: "match_any [''=='', ''!='', ''<='', ''>='', ''<'', ''>''] (skip_ws q) = (r, q')" by fastforce
  have q': "after p q'" using match_any_after [OF m] after_trans [OF o(2)] after_trans [OF after_ws] by blast
  with p have "ep_rem q' < Suc n" using after_rem by fastforce
  then obtain rhs p' where "parse_add expr q' = Some (rhs, p')" "after q' p'" using add by blast
  with o(1) m q' show "\<exists>v p'. parse_cmp expr p = Some (v, p') \<and> after p p'"
    by (cases r) (auto simp: parse_cmp_def simp del: match_any.simps intro: after_trans)
qed

lemma runs_and: "runs n expr \<Longrightarrow> runs (Suc n) (parse_and expr)"
proof (rule runs_chain [of _ "parse_cmp expr" "\<lambda>k. and_loop k expr"])
  assume e: "runs n expr"
  show u: "runs (Suc n) (parse_cmp expr)" by (rule runs_cmp [OF e])
  show "\<exists>v p'. and_loop (ep_fuel p) expr lhs p = Some (v, p') \<and> after p p'" if "ep_rem p < Suc n" for p lhs
    by (rule runs_loop [where toks = "[''&&'']" and n = "Suc n" and
          compute = "\<lambda>op lhs rhs. Some (bool_str (expr_truthy lhs \<and> expr_truthy rhs))", OF _ u _ that ep_rem_fuel])
      (auto simp: match_any_one simp del: match_any.simps split: prod.splits)
qed (simp add: parse_and_def)

lemma runs_or: "runs n expr \<Longrightarrow> runs (Suc n) (parse_or expr)"
proof (rule runs_chain [of _ "parse_and expr" "\<lambda>k. or_loop k expr"])
  assume e: "runs n expr"
  show u: "runs (Suc n) (parse_and expr)" by (rule runs_and [OF e])
  show "\<exists>v p'. or_loop (ep_fuel p) expr lhs p = Some (v, p') \<and> after p p'" if "ep_rem p < Suc n" for p lhs
    by (rule runs_loop [where toks = "[''||'']" and n = "Suc n" and
          compute = "\<lambda>op lhs rhs. Some (bool_str (expr_truthy lhs \<or> expr_truthy rhs))", OF _ u _ that ep_rem_fuel])
      (auto simp: match_any_one simp del: match_any.simps split: prod.splits)
qed (simp add: parse_or_def)

lemma runs_expr: "runs n (parse_expr n)"
proof (induction n)
  case (Suc n)
  then show ?case using runs_or [OF Suc] by (simp add: runs_def)
qed (simp add: runs_def)

text \<open>C37: Evaluating an expression comes to an end.  For every text, well formed or not, and every context, the
  recursive-descent evaluator, whose fuel is one more than the length of the text, does not run out of it, and
  returns a value or \<open>parse_error\<close>.\<close>

theorem eval_expr_total: "\<exists>r. eval_expr expr ctx = Some r \<and> (r = Inl parse_error \<or> (\<exists>v. r = Inr v))"
proof -
  let ?p = "\<lparr>ep_src = expr, ep_pos = 0, ep_ctx = ctx, ep_ok = True\<rparr>"
  have "ep_rem ?p < Suc (length expr)" by (simp add: ep_rem_def ep_text_def)
  from runsD [OF runs_expr this] obtain v p' where "parse_expr (Suc (length expr)) ?p = Some (v, p')" .
  then show ?thesis by (simp add: eval_expr_def)
qed

section \<open>Integer arithmetic is exact\<close>

text \<open>Integer expressions, their value, and their text with as few parentheses as the grammar allows:
  level 0 is a sum, 1 a product, 2 an operand.\<close>

datatype aexp = Num nat | Var string | Neg aexp | Add aexp aexp | Sub aexp aexp | Mul aexp aexp

fun aval :: "(string \<Rightarrow> int) \<Rightarrow> aexp \<Rightarrow> int" where
  "aval \<sigma> (Num n) = int n"
| "aval \<sigma> (Var x) = \<sigma> x"
| "aval \<sigma> (Neg a) = - aval \<sigma> a"
| "aval \<sigma> (Add a b) = aval \<sigma> a + aval \<sigma> b"
| "aval \<sigma> (Sub a b) = aval \<sigma> a - aval \<sigma> b"
| "aval \<sigma> (Mul a b) = aval \<sigma> a * aval \<sigma> b"

definition paren :: "bool \<Rightarrow> string \<Rightarrow> string" where
  "paren b s = (if b then ''('' @ s @ '')'' else s)"

fun show_aexp :: "nat \<Rightarrow> aexp \<Rightarrow> string" where
  "show_aexp l (Num n) = show_nat n"
| "show_aexp l (Var x) = x"
| "show_aexp l (Neg a) = ''-('' @ show_aexp 0 a @ '')''"
| "show_aexp l (Add a b) = paren (0 < l) (show_aexp 0 a @ '' + '' @ show_aexp 1 b)"
| "show_aexp l (Sub a b) = paren (0 < l) (show_aexp 0 a @ '' - '' @ show_aexp 1 b)"
| "show_aexp l (Mul a b) = paren (1 < l) (show_aexp 1 a @ '' * '' @ show_aexp 2 b)"

text \<open>Every intermediate value has at most 53 bits, and every variable is a name that the context binds to
  its value.\<close>

fun fits :: "(string \<Rightarrow> int) \<Rightarrow> aexp \<Rightarrow> bool" where
  "fits \<sigma> (Neg a) = fits \<sigma> a"
| "fits \<sigma> (Add a b) = (fits \<sigma> a \<and> fits \<sigma> b \<and> \<bar>aval \<sigma> a + aval \<sigma> b\<bar> < 2 ^ 53)"
| "fits \<sigma> (Sub a b) = (fits \<sigma> a \<and> fits \<sigma> b \<and> \<bar>aval \<sigma> a - aval \<sigma> b\<bar> < 2 ^ 53)"
| "fits \<sigma> (Mul a b) = (fits \<sigma> a \<and> fits \<sigma> b \<and> \<bar>aval \<sigma> a * aval \<sigma> b\<bar> < 2 ^ 53)"
| "fits \<sigma> a = (\<bar>aval \<sigma> a\<bar> < 2 ^ 53)"

fun avars :: "aexp \<Rightarrow> string set" where
  "avars (Num n) = {}"
| "avars (Var x) = {x}"
| "avars (Neg a) = avars a"
| "avars (Add a b) = avars a \<union> avars b"
| "avars (Sub a b) = avars a \<union> avars b"
| "avars (Mul a b) = avars a \<union> avars b"

definition is_variable :: "string \<Rightarrow> bool" where
  "is_variable x \<longleftrightarrow> x \<noteq> [] \<and> (isalpha (hd x) \<or> hd x = CHR ''_'') \<and> list_all is_name_char x \<and>
     x \<noteq> ''true'' \<and> x \<noteq> ''false''"

definition binds :: "expr_context \<Rightarrow> (string \<Rightarrow> int) \<Rightarrow> string set \<Rightarrow> bool" where
  "binds ctx \<sigma> xs \<longleftrightarrow> (\<forall>x\<in>xs. is_variable x \<and> ctx x = Some (show_int (\<sigma> x)))"

lemma fits_value: "fits \<sigma> a \<Longrightarrow> \<bar>aval \<sigma> a\<bar> < 2 ^ 53"
  by (induction a) auto

subsection \<open>Values\<close>

lemma to_double_int:
  assumes "\<bar>i\<bar> < 2 ^ 53"
  obtains d where "to_double (show_int i) = Some d" "dbl_int d = Some i"
proof -
  have "show_int i \<noteq> []" using show_nat_digits by (simp add: show_int_def)
  with strtod_show_int [OF assms] show ?thesis by (intro that) (auto simp: to_double_def)
qed

lemma number_to_str_int:
  assumes "dbl_int d = Some i" "\<bar>i\<bar> < 2 ^ 53"
  shows "number_to_str d = show_int i"
proof -
  obtain s m e where d: "d = Fin s m e" using dbl_int_Fin [OF assms(1)] by blast
  have "- (2 ^ 63) \<le> i" "i < 2 ^ 63" using assms(2) by simp_all
  with assms(1) show ?thesis unfolding d by (simp add: number_to_str_def del: dbl_int.simps)
qed

lemma apply_ints:
  assumes "\<bar>i\<bar> < 2 ^ 53" "\<bar>j\<bar> < 2 ^ 53"
  shows "\<bar>i + j\<bar> < 2 ^ 53 \<Longrightarrow> apply_add ''+'' (show_int i) (show_int j) = Some (show_int (i + j))"
    and "\<bar>i - j\<bar> < 2 ^ 53 \<Longrightarrow> apply_add ''-'' (show_int i) (show_int j) = Some (show_int (i - j))"
    and "\<bar>i * j\<bar> < 2 ^ 53 \<Longrightarrow> apply_mul ''*'' (show_int i) (show_int j) = Some (show_int (i * j))"
proof -
  obtain d where d: "to_double (show_int i) = Some d" "dbl_int d = Some i" by (rule to_double_int [OF assms(1)])
  obtain e where e: "to_double (show_int j) = Some e" "dbl_int e = Some j" by (rule to_double_int [OF assms(2)])
  note num = number_to_str_int
  show "\<bar>i + j\<bar> < 2 ^ 53 \<Longrightarrow> apply_add ''+'' (show_int i) (show_int j) = Some (show_int (i + j))"
    "\<bar>i - j\<bar> < 2 ^ 53 \<Longrightarrow> apply_add ''-'' (show_int i) (show_int j) = Some (show_int (i - j))"
    "\<bar>i * j\<bar> < 2 ^ 53 \<Longrightarrow> apply_mul ''*'' (show_int i) (show_int j) = Some (show_int (i * j))"
    using num [OF dbl_add_int [OF d(2) e(2)]] num [OF dbl_sub_int [OF d(2) e(2)]] num [OF dbl_mul_int [OF d(2) e(2)]]
    by (simp_all add: apply_add_def apply_mul_def d e)
qed

subsection \<open>Places in the text\<close>

text \<open>At \<open>p\<close>, white space aside, the text \<open>t\<close> follows; from \<open>p\<close> the parser moves to \<open>p'\<close>, before \<open>t\<close>.\<close>

definition at :: "expr_parser \<Rightarrow> string \<Rightarrow> bool" where
  "at p t \<longleftrightarrow> ep_text (skip_ws p) = dropWhile isspace t"

definition moves :: "expr_parser \<Rightarrow> expr_parser \<Rightarrow> string \<Rightarrow> bool" where
  "moves p p' t \<longleftrightarrow> after p p' \<and> ep_ctx p' = ep_ctx p \<and> ep_ok p' = ep_ok p \<and> at p' t"

lemma skip_ws_text: "ep_text (skip_ws p) = dropWhile isspace (ep_text p)"
  by (simp add: skip_ws_def dropWhile_eq_drop)

lemma at_text: "ep_text p = t \<Longrightarrow> at p t"
  by (simp add: at_def skip_ws_text)

lemma at_space: "isspace c \<Longrightarrow> at p (c # t) = at p t"
  by (simp add: at_def)

lemma skip_ws_idem [simp]: "skip_ws (skip_ws p) = skip_ws p"
proof -
  have "takeWhile isspace (ep_text (skip_ws p)) = []"
    using hd_dropWhile [of isspace "ep_text p"] by (auto simp: skip_ws_text takeWhile_eq_Nil_iff)
  then show ?thesis by (simp add: skip_ws_def [of "skip_ws p"] ep_skip_def)
qed

lemma match_tok_ws [simp]: "match_tok tok (skip_ws p) = match_tok tok p"
  by (simp add: match_tok_def)

lemma skip_ws_simps [simp]: "ep_src (skip_ws p) = ep_src p" "ep_ctx (skip_ws p) = ep_ctx p" "ep_ok (skip_ws p) = ep_ok p"
  by (simp_all add: skip_ws_def)

lemma moves_trans: "moves p q t \<Longrightarrow> moves q r t' \<Longrightarrow> moves p r t'"
  by (auto simp: moves_def intro: after_trans)

lemma moves_ws: "at p t \<Longrightarrow> moves p (skip_ws p) t"
  by (simp add: moves_def at_def)

text \<open>A token matches the text it begins, and no other.\<close>

lemma match_tok_at:
  assumes "at p t" "t = [] \<or> \<not> isspace (hd t)"
  shows "match_tok tok p =
    (if take (length tok) t = tok \<and> length tok \<le> length t then (True, ep_skip (length tok) (skip_ws p)) else (False, skip_ws p))"
proof -
  have "dropWhile isspace t = t" using assms(2) by (cases t) auto
  with assms(1) show ?thesis by (auto simp: match_tok_def at_def Let_def)
qed

lemma moves_skip:
  assumes "at p t" "t = [] \<or> \<not> isspace (hd t)"
  shows "moves p (ep_skip n (skip_ws p)) (drop n t)"
proof -
  have "dropWhile isspace t = t" using assms(2) by (cases t) auto
  with assms(1) have "ep_text (ep_skip n (skip_ws p)) = drop n t" by (simp add: at_def)
  from at_text [OF this] show ?thesis by (auto simp: moves_def intro: after_trans [OF after_ws])
qed

subsection \<open>The productions on printed expressions\<close>

text \<open>What may follow an operand: nothing, a closing parenthesis, or a space.\<close>

definition ends :: "string \<Rightarrow> bool" where
  "ends t \<longleftrightarrow> t = [] \<or> hd t = CHR '')'' \<or> hd t = CHR '' ''"

definition next_is :: "string \<Rightarrow> string \<Rightarrow> bool" where
  "next_is cs t \<longleftrightarrow> (let t = dropWhile isspace t in t \<noteq> [] \<and> hd t \<in> set cs)"

text \<open>From \<open>p\<close>, \<open>f\<close> gives \<open>v\<close> and moves to before \<open>rest\<close>.\<close>

definition yields :: "production \<Rightarrow> expr_parser \<Rightarrow> string \<Rightarrow> string \<Rightarrow> bool" where
  "yields f p v rest \<longleftrightarrow> (\<exists>p'. f p = Some (v, p') \<and> moves p p' rest)"

definition at_least :: "nat \<Rightarrow> expr_context \<Rightarrow> expr_parser \<Rightarrow> bool" where
  "at_least n ctx p \<longleftrightarrow> ep_ctx p = ctx \<and> ep_rem p < n"

definition unary_ok :: "(string \<Rightarrow> int) \<Rightarrow> expr_context \<Rightarrow> aexp \<Rightarrow> bool" where
  "unary_ok \<sigma> ctx a \<longleftrightarrow> (\<forall>p n k rest.
     at p (show_aexp 2 a @ rest) \<longrightarrow> ends rest \<longrightarrow> at_least (Suc n) ctx p \<longrightarrow> ep_rem p < k \<longrightarrow>
     yields (parse_unary k (parse_expr n)) p (show_int (aval \<sigma> a)) rest)"

definition mul_ok :: "(string \<Rightarrow> int) \<Rightarrow> expr_context \<Rightarrow> aexp \<Rightarrow> bool" where
  "mul_ok \<sigma> ctx a \<longleftrightarrow> (\<forall>p n rest.
     at p (show_aexp 1 a @ rest) \<longrightarrow> ends rest \<longrightarrow> at_least (Suc n) ctx p \<longrightarrow>
     (\<exists>k p'. parse_mul (parse_expr n) p = mul_loop k (parse_expr n) (show_int (aval \<sigma> a)) p' \<and>
        moves p p' rest \<and> ep_rem p' < k))"

definition add_ok :: "(string \<Rightarrow> int) \<Rightarrow> expr_context \<Rightarrow> aexp \<Rightarrow> bool" where
  "add_ok \<sigma> ctx a \<longleftrightarrow> (\<forall>p n rest.
     at p (show_aexp 0 a @ rest) \<longrightarrow> ends rest \<longrightarrow> \<not> next_is ''*/%'' rest \<longrightarrow> at_least (Suc n) ctx p \<longrightarrow>
     (\<exists>k p'. parse_add (parse_expr n) p = add_loop k (parse_expr n) (show_int (aval \<sigma> a)) p' \<and>
        moves p p' rest \<and> ep_rem p' < k))"

definition expr_ok :: "(string \<Rightarrow> int) \<Rightarrow> expr_context \<Rightarrow> aexp \<Rightarrow> bool" where
  "expr_ok \<sigma> ctx a \<longleftrightarrow> (\<forall>p n rest.
     at p (show_aexp 0 a @ rest) \<longrightarrow> rest = [] \<or> hd rest = CHR '')'' \<longrightarrow> at_least n ctx p \<longrightarrow>
     yields (parse_expr n) p (show_int (aval \<sigma> a)) rest)"

lemma at_least_moves: "at_least n ctx p \<Longrightarrow> moves p p' t \<Longrightarrow> at_least n ctx p'"
  by (auto simp: at_least_def moves_def dest: after_rem)

lemma moves_at: "moves p p' t \<Longrightarrow> at p' t"
  by (simp add: moves_def)

lemma moves_rem: "moves p p' t \<Longrightarrow> ep_rem p' \<le> ep_rem p"
  by (simp add: moves_def after_rem)

lemma match_tok_False:
  assumes "at p t" "tok \<noteq> []" "\<not> next_is [hd tok] t"
  shows "match_tok tok p = (False, skip_ws p)"
proof -
  define u where "u = dropWhile isspace t"
  have "take (length tok) u \<noteq> tok"
    using assms(2,3) by (cases tok; cases u) (auto simp: next_is_def u_def [symmetric])
  with assms(1) show ?thesis by (simp add: match_tok_def at_def Let_def u_def)
qed

lemma match_tok_True:
  assumes "at p (tok @ t)" "tok \<noteq> []" "\<not> isspace (hd tok)"
  obtains q where "match_tok tok p = (True, q)" "moves p q t" "ep_rem q < ep_rem p"
proof -
  have s: "tok @ t = [] \<or> \<not> isspace (hd (tok @ t))" using assms(2,3) by simp
  define q where "q = ep_skip (length tok) (skip_ws p)"
  have m: "match_tok tok p = (True, q)" using match_tok_at [OF assms(1) s, of tok] by (simp add: q_def)
  moreover have "moves p q t" using moves_skip [OF assms(1) s, of "length tok"] by (simp add: q_def)
  ultimately show ?thesis using match_tok_after(2) [OF m _ assms(2)] by (intro that) simp_all
qed

lemma match_any_False:
  "at p t \<Longrightarrow> \<forall>tok\<in>set toks. tok \<noteq> [] \<and> \<not> next_is [hd tok] t \<Longrightarrow> match_any toks (skip_ws p) = (None, skip_ws p)"
proof (induction toks)
  case (Cons tok toks)
  then have "match_tok tok p = (False, skip_ws p)" by (intro match_tok_False) auto
  with Cons show ?case by simp
qed simp

lemma next_is_mono: "\<not> next_is cs t \<Longrightarrow> set ds \<subseteq> set cs \<Longrightarrow> \<not> next_is ds t"
  by (auto simp: next_is_def Let_def)

lemma mul_done:
  assumes "at p t" "\<not> next_is ''*/%'' t" "ep_rem p < k"
  shows "mul_loop k e v p = Some (v, skip_ws p)"
proof -
  obtain j where k: "k = Suc j" using assms(3) by (cases k) auto
  have "match_any [''*'', ''/'', ''%''] (skip_ws p) = (None, skip_ws p)"
    by (rule match_any_False [OF assms(1)]) (use next_is_mono [OF assms(2)] in auto)
  then show ?thesis by (simp add: k del: match_any.simps)
qed

lemma add_done:
  assumes "at p t" "\<not> next_is ''.+-'' t" "ep_rem p < k"
  shows "add_loop k e v p = Some (v, skip_ws p)"
proof -
  obtain j where k: "k = Suc j" using assms(3) by (cases k) auto
  have "match_any [''..'', ''+'', ''-''] (skip_ws p) = (None, skip_ws p)"
    by (rule match_any_False [OF assms(1)]) (use next_is_mono [OF assms(2)] in auto)
  then show ?thesis by (simp add: k del: match_any.simps)
qed

text \<open>From one level to the next.\<close>

lemma mul_from_unary: "unary_ok \<sigma> ctx a \<Longrightarrow> show_aexp 1 a = show_aexp 2 a \<Longrightarrow> mul_ok \<sigma> ctx a"
  unfolding mul_ok_def
proof (intro allI impI)
  fix p n rest
  assume u: "unary_ok \<sigma> ctx a" and eq: "show_aexp 1 a = show_aexp 2 a" and p: "at p (show_aexp 1 a @ rest)"
    "ends rest" "at_least (Suc n) ctx p"
  from u p eq ep_rem_fuel [of p] have "yields (parse_unary (ep_fuel p) (parse_expr n)) p (show_int (aval \<sigma> a)) rest"
    unfolding unary_ok_def by metis
  then obtain p' where p': "parse_unary (ep_fuel p) (parse_expr n) p = Some (show_int (aval \<sigma> a), p')" "moves p p' rest"
    by (auto simp: yields_def)
  then show "\<exists>k p'. parse_mul (parse_expr n) p = mul_loop k (parse_expr n) (show_int (aval \<sigma> a)) p' \<and>
        moves p p' rest \<and> ep_rem p' < k"
    by (intro exI [of _ "ep_fuel p'"] exI [of _ p']) (simp add: parse_mul_def ep_rem_fuel)
qed

lemma mul_yields:
  assumes "mul_ok \<sigma> ctx a" "at p (show_aexp 1 a @ rest)" "ends rest" "at_least (Suc n) ctx p" "\<not> next_is ''*/%'' rest"
  shows "yields (parse_mul (parse_expr n)) p (show_int (aval \<sigma> a)) rest"
proof -
  obtain k p' where m: "parse_mul (parse_expr n) p = mul_loop k (parse_expr n) (show_int (aval \<sigma> a)) p'"
    "moves p p' rest" "ep_rem p' < k"
    using assms(1-4) unfolding mul_ok_def by blast
  with mul_done [OF moves_at [OF m(2)] assms(5) m(3)] show ?thesis
    using moves_trans [OF m(2) moves_ws [OF moves_at [OF m(2)]]] by (simp add: yields_def)
qed

lemma add_from_mul: "mul_ok \<sigma> ctx a \<Longrightarrow> show_aexp 0 a = show_aexp 1 a \<Longrightarrow> add_ok \<sigma> ctx a"
  unfolding add_ok_def
proof (intro allI impI)
  fix p n rest
  assume m: "mul_ok \<sigma> ctx a" and eq: "show_aexp 0 a = show_aexp 1 a" and p: "at p (show_aexp 0 a @ rest)"
    "ends rest" "\<not> next_is ''*/%'' rest" "at_least (Suc n) ctx p"
  from mul_yields [OF m _ p(2,4,3)] p(1) eq obtain p' where
    "parse_mul (parse_expr n) p = Some (show_int (aval \<sigma> a), p')" "moves p p' rest" by (auto simp: yields_def)
  then show "\<exists>k p'. parse_add (parse_expr n) p = add_loop k (parse_expr n) (show_int (aval \<sigma> a)) p' \<and>
        moves p p' rest \<and> ep_rem p' < k"
    by (intro exI [of _ "ep_fuel p'"] exI [of _ p']) (simp add: parse_add_def ep_rem_fuel)
qed

text \<open>The levels above a sum see none of their tokens at the end of an expression.\<close>

lemma and_or_done:
  assumes "parse_cmp e p = Some (v, p1)" "moves p p1 rest" "\<not> next_is ''&|'' rest"
  shows "yields (parse_or e) p v rest"
proof -
  define p2 where "p2 = skip_ws p1"
  have "match_tok ''&&'' p1 = (False, p2)" "match_tok ''||'' p1 = (False, p2)"
    unfolding p2_def by (rule match_tok_False [OF moves_at [OF assms(2)]]; use next_is_mono [OF assms(3)] in auto)+
  moreover have "match_tok ''||'' p2 = match_tok ''||'' p1" by (simp add: p2_def)
  ultimately have "parse_or e p = Some (v, p2)"
    using assms(1) by (simp add: parse_and_def parse_or_def ep_fuel_def)
  moreover have "moves p p2 rest" unfolding p2_def by (rule moves_trans [OF assms(2) moves_ws [OF moves_at [OF assms(2)]]])
  ultimately show ?thesis by (auto simp: yields_def)
qed

lemma or_done:
  assumes "parse_add e p = Some (v, p1)" "moves p p1 rest" "\<not> next_is ''=!<>&|'' rest"
  shows "yields (parse_or e) p v rest"
proof -
  note at1 = moves_at [OF assms(2)]
  have "match_any [''=='', ''!='', ''<='', ''>='', ''<'', ''>''] (skip_ws p1) = (None, skip_ws p1)"
    by (rule match_any_False [OF at1]) (use next_is_mono [OF assms(3)] in auto)
  then have "parse_cmp e p = Some (v, skip_ws p1)" using assms(1) by (simp add: parse_cmp_def del: match_any.simps)
  from and_or_done [OF this moves_trans [OF assms(2) moves_ws [OF at1]]] next_is_mono [OF assms(3)]
  show ?thesis by auto
qed

lemma add_yields:
  assumes "add_ok \<sigma> ctx a" "at p (show_aexp 0 a @ rest)" "ends rest" "\<not> next_is ''*/%.+-'' rest" "at_least (Suc n) ctx p"
  shows "yields (parse_add (parse_expr n)) p (show_int (aval \<sigma> a)) rest"
proof -
  have "\<not> next_is ''*/%'' rest" "\<not> next_is ''.+-'' rest" using next_is_mono [OF assms(4)] by auto
  with assms obtain k p1 where a1: "parse_add (parse_expr n) p = add_loop k (parse_expr n) (show_int (aval \<sigma> a)) p1"
    "moves p p1 rest" "ep_rem p1 < k" "\<not> next_is ''.+-'' rest"
    unfolding add_ok_def by blast
  with add_done [OF moves_at [OF a1(2)] a1(4,3)] moves_trans [OF a1(2) moves_ws [OF moves_at [OF a1(2)]]]
  show ?thesis by (simp add: yields_def)
qed

lemma expr_from_add: "add_ok \<sigma> ctx a \<Longrightarrow> expr_ok \<sigma> ctx a"
  unfolding expr_ok_def
proof (intro allI impI)
  fix p n rest
  assume a: "add_ok \<sigma> ctx a" and p: "at p (show_aexp 0 a @ rest)" "rest = [] \<or> hd rest = CHR '')''" "at_least n ctx p"
  obtain m where n: "n = Suc m" using p(3) by (cases n) (auto simp: at_least_def)
  let ?e = "parse_expr m"
  have no: "\<not> next_is cs rest" if "CHR '')'' \<notin> set cs" for cs
    using p(2) that by (cases rest) (auto simp: next_is_def isspace_def byte_def)
  have "ends rest" using p(2) by (auto simp: ends_def)
  from add_yields [OF a p(1) this no] p(3) obtain p1 where
    "parse_add ?e p = Some (show_int (aval \<sigma> a), p1)" "moves p p1 rest" by (auto simp: n yields_def)
  from or_done [OF this no] show "yields (parse_expr n) p (show_int (aval \<sigma> a)) rest" by (simp add: n yields_def)
qed

text \<open>The text of an operand starts with none of the bytes that \<open>parse_unary\<close> looks for.\<close>

lemma unary_from_atom:
  assumes "at p t" "t \<noteq> []" "\<not> isspace (hd t)" "hd t \<noteq> CHR ''!''" "hd t \<noteq> CHR ''-''" "ep_rem p < k"
  shows "parse_unary k e p = parse_atom e (skip_ws p)"
proof -
  obtain j where k: "k = Suc j" using assms(6) by (cases k) auto
  have t: "dropWhile isspace t = t" using assms(2,3) by (cases t) auto
  then have "match_tok ''!'' p = (False, skip_ws p)"
    using assms(2,4) by (intro match_tok_False [OF assms(1)]) (auto simp: next_is_def)
  moreover have "\<not> is_negation (ep_text (skip_ws p))"
    using assms(1,5) t by (simp add: at_def is_negation_def)
  ultimately show ?thesis by (simp add: k)
qed

lemma paren_yields:
  assumes e: "expr_ok \<sigma> ctx a" and t: "at p (''('' @ show_aexp 0 a @ '')'' @ rest)"
    and p: "at_least (Suc n) ctx p" "ep_rem p < k"
  shows "yields (parse_unary k (parse_expr n)) p (show_int (aval \<sigma> a)) rest"
proof -
  let ?t = "show_aexp 0 a @ '')'' @ rest" and ?v = "show_int (aval \<sigma> a)"
  define q where "q = skip_ws p"
  have sp: "\<not> isspace (CHR ''('')" "\<not> isspace (CHR '')'')" by (simp_all add: isspace_def byte_def)
  have q: "ep_text q = CHR ''('' # ?t" using t sp by (simp add: at_def q_def)
  have u: "parse_unary k (parse_expr n) p = parse_atom (parse_expr n) q"
    using unary_from_atom [OF t _ _ _ _ p(2)] sp by (simp add: q_def)
  have m1: "moves p (ep_skip 1 q) ?t" using moves_skip [OF t, of 1] sp by (simp add: q_def)
  have "ep_rem (ep_skip 1 q) < ep_rem p"
    using q after_rem [OF after_ws [of p]] by (simp add: q_def [symmetric] ep_rem_def)
  then have "at_least n ctx (ep_skip 1 q)" using p(1) at_least_moves [OF p(1) m1] by (simp add: at_least_def)
  with e moves_at [OF m1] obtain p1 where e1: "parse_expr n (ep_skip 1 q) = Some (?v, p1)" "moves (ep_skip 1 q) p1 ('')'' @ rest)"
    unfolding expr_ok_def yields_def by force
  have t1: "ep_text (skip_ws p1) = CHR '')'' # rest" using moves_at [OF e1(2)] sp by (simp add: at_def)
  have m2: "moves p1 (ep_skip 1 (skip_ws p1)) rest" using moves_skip [OF moves_at [OF e1(2)], of 1] sp by simp
  have "skip_ws q = q" by (simp add: q_def)
  with q t1 e1(1) have "parse_atom (parse_expr n) q = Some (?v, ep_skip 1 (skip_ws p1))"
    by (simp add: parse_atom_def Let_def)
  with u moves_trans [OF moves_trans [OF m1 e1(2)] m2] show ?thesis by (auto simp: yields_def)
qed

lemma unary_from_expr:
  assumes "expr_ok \<sigma> ctx a" "show_aexp 2 a = ''('' @ show_aexp 0 a @ '')''"
  shows "unary_ok \<sigma> ctx a"
  using paren_yields [OF assms(1)] by (simp add: unary_ok_def assms(2))

lemma takeWhile_ends:
  assumes "list_all P t" "ends rest" "\<not> P (CHR '')'')" "\<not> P (CHR '' '')"
  shows "takeWhile P (t @ rest) = t"
proof -
  have "takeWhile P rest = []" using assms(2-4) by (cases rest) (auto simp: ends_def)
  with assms(1) show ?thesis by (simp add: list_all_iff takeWhile_append2)
qed

text \<open>An atom that is one token.\<close>

lemma unary_from_token:
  assumes "at p (t @ rest)" "t \<noteq> []" "\<not> isspace (hd t)" "hd t \<noteq> CHR ''!''" "hd t \<noteq> CHR ''-''" "ep_rem p < k"
    and "\<And>q. ep_text q = t @ rest \<Longrightarrow> skip_ws q = q \<Longrightarrow> ep_ctx q = ep_ctx p \<Longrightarrow> parse_atom e q = Some (v, ep_skip (length t) q)"
  shows "yields (parse_unary k e) p v rest"
proof -
  define q where "q = skip_ws p"
  have "dropWhile isspace (t @ rest) = t @ rest" using assms(2,3) by (cases t) auto
  then have "ep_text q = t @ rest" using assms(1) by (simp add: at_def q_def)
  moreover have "skip_ws q = q" "ep_ctx q = ep_ctx p" by (simp_all add: q_def)
  ultimately have "parse_atom e q = Some (v, ep_skip (length t) q)" by (rule assms(7))
  moreover have "parse_unary k e p = parse_atom e q"
    unfolding q_def by (rule unary_from_atom [OF assms(1)]) (use assms(2-6) in auto)
  moreover have "moves p (ep_skip (length t) q) rest"
    using moves_skip [OF assms(1), of "length t"] assms(2,3) by (simp add: q_def)
  ultimately show ?thesis by (auto simp: yields_def)
qed

lemma num_unary: "unary_ok \<sigma> ctx (Num n)"
  unfolding unary_ok_def
proof (intro allI impI)
  fix p m k rest
  assume p: "at p (show_aexp 2 (Num n) @ rest)" "ends rest" "ep_rem p < k"
  let ?t = "show_nat n"
  have d: "list_all isdigit ?t" "?t \<noteq> []" using show_nat_digits by auto
  then have hd: "isdigit (hd ?t)" by (cases ?t) auto
  then have hdn: "\<not> isspace (hd ?t)" "hd ?t \<noteq> CHR ''!''" "hd ?t \<noteq> CHR ''-''" "hd ?t \<noteq> CHR ''(''"
    "hd ?t \<noteq> CHR 0x22" "hd ?t \<noteq> CHR 0x27"
    by (auto simp: isdigit_def isspace_def byte_def)
  have tw: "takeWhile (\<lambda>c. isdigit c \<or> c = CHR ''.'') (?t @ rest) = ?t"
    by (rule takeWhile_ends [OF _ p(2)]) (use d in \<open>auto simp: list_all_iff isdigit_def byte_def\<close>)
  have "parse_atom (parse_expr m) q = Some (show_nat n, ep_skip (length ?t) q)"
    if "ep_text q = ?t @ rest" "skip_ws q = q" for q
    using that d(2) hd hdn tw by (simp add: parse_atom_def Let_def)
  then have "yields (parse_unary k (parse_expr m)) p (show_nat n) rest"
    using p hdn d(2) by (intro unary_from_token [of _ ?t]) auto
  then show "yields (parse_unary k (parse_expr m)) p (show_int (aval \<sigma> (Num n))) rest" by (simp add: show_int_def)
qed

lemma var_unary:
  assumes "is_variable x" "ctx x = Some (show_int (\<sigma> x))"
  shows "unary_ok \<sigma> ctx (Var x)"
  unfolding unary_ok_def
proof (intro allI impI)
  fix p m k rest
  assume p: "at p (show_aexp 2 (Var x) @ rest)" "ends rest" "at_least (Suc m) ctx p" "ep_rem p < k"
  have x: "x \<noteq> []" "isalpha (hd x) \<or> hd x = CHR ''_''" "list_all is_name_char x" "x \<noteq> ''true''" "x \<noteq> ''false''"
    using assms(1) by (auto simp: is_variable_def)
  have hdn: "\<not> isspace (hd x)" "\<not> isdigit (hd x)" "hd x \<noteq> CHR ''!''" "hd x \<noteq> CHR ''-''" "hd x \<noteq> CHR ''(''"
    "hd x \<noteq> CHR 0x22" "hd x \<noteq> CHR 0x27" "hd x \<noteq> CHR ''.''"
    using x(2) by (auto simp: ctype_defs)
  have tw: "takeWhile is_name_char (x @ rest) = x"
    by (rule takeWhile_ends [OF x(3) p(2)]) (simp_all add: is_name_char_def ctype_defs)
  have "parse_atom (parse_expr m) q = Some (show_int (\<sigma> x), ep_skip (length x) q)"
    if "ep_text q = x @ rest" "skip_ws q = q" "ep_ctx q = ep_ctx p" for q
    using that x hdn tw p(3) assms(2) by (auto simp: parse_atom_def Let_def lookup_name_def at_least_def)
  then show "yields (parse_unary k (parse_expr m)) p (show_int (aval \<sigma> (Var x))) rest"
    using p hdn x(1) by (intro unary_from_token [of _ x]) auto
qed

lemma neg_unary:
  assumes e: "expr_ok \<sigma> ctx a" and f: "fits \<sigma> a"
  shows "unary_ok \<sigma> ctx (Neg a)"
  unfolding unary_ok_def
proof (intro allI impI)
  fix p n k rest
  assume p: "at p (show_aexp 2 (Neg a) @ rest)" "ends rest" "at_least (Suc n) ctx p" "ep_rem p < k"
  obtain j where k: "k = Suc j" using p(4) by (cases k) auto
  let ?t = "''('' @ show_aexp 0 a @ '')'' @ rest" and ?v = "show_int (aval \<sigma> a)"
  have t: "at p (CHR ''-'' # ?t)" using p(1) by simp
  have sp: "\<not> isspace (CHR ''-'')" "\<not> isspace (CHR ''('')" by (simp_all add: isspace_def byte_def)
  define q where "q = skip_ws p"
  have q: "ep_text q = CHR ''-'' # ?t" using t sp by (simp add: at_def q_def)
  have b: "match_tok ''!'' p = (False, q)"
    unfolding q_def by (rule match_tok_False [OF t]) (simp_all add: next_is_def sp)
  have neg: "is_negation (ep_text q)" using sp by (simp add: q is_negation_def)
  have m1: "moves p (ep_skip 1 q) ?t" using moves_skip [OF t, of 1] sp by (simp add: q_def)
  have r: "ep_rem (ep_skip 1 q) < ep_rem p"
    using q after_rem [OF after_ws [of p]] by (simp add: q_def [symmetric] ep_rem_def)
  have "ep_rem (ep_skip 1 q) < j" using r p(4) k by simp
  from paren_yields [OF e moves_at [OF m1] at_least_moves [OF p(3) m1] this]
  obtain p1 where p1: "parse_unary j (parse_expr n) (ep_skip 1 q) = Some (?v, p1)" "moves (ep_skip 1 q) p1 rest"
    by (auto simp: yields_def)
  obtain d where d: "to_double ?v = Some d" "dbl_int d = Some (aval \<sigma> a)" by (rule to_double_int [OF fits_value [OF f]])
  have "number_to_str (dbl_neg d) = show_int (- aval \<sigma> a)"
    by (rule number_to_str_int [OF dbl_neg_int [OF d(2)]]) (use fits_value [OF f] in simp)
  with b neg p1 d(1) moves_trans [OF m1 p1(2)]
  show "yields (parse_unary k (parse_expr n)) p (show_int (aval \<sigma> (Neg a))) rest"
    by (auto simp: yields_def k)
qed

lemma at_op: "at p ('' '' @ op @ '' '' @ t) \<Longrightarrow> at p (op @ '' '' @ t)"
  by (simp add: at_def isspace_def byte_def)

lemma at_gap: "at p ('' '' @ t) \<Longrightarrow> at p t"
  by (simp add: at_def isspace_def byte_def)

lemma mul_step:
  assumes a: "mul_ok \<sigma> ctx a" and b: "unary_ok \<sigma> ctx b" and f: "fits \<sigma> (Mul a b)"
  shows "mul_ok \<sigma> ctx (Mul a b)"
  unfolding mul_ok_def
proof (intro allI impI)
  fix p n rest
  let ?e = "parse_expr n" and ?va = "show_int (aval \<sigma> a)" and ?vb = "show_int (aval \<sigma> b)"
  let ?v = "show_int (aval \<sigma> (Mul a b))" and ?t = "show_aexp 2 b @ rest"
  assume p: "at p (show_aexp 1 (Mul a b) @ rest)" "ends rest" "at_least (Suc n) ctx p"
  have "at p (show_aexp 1 a @ '' '' @ ''*'' @ '' '' @ ?t)" using p(1) by (simp add: paren_def)
  moreover have "ends ('' '' @ ''*'' @ '' '' @ ?t)" by (simp add: ends_def)
  ultimately obtain k p1 where p1: "parse_mul ?e p = mul_loop k ?e ?va p1"
    "moves p p1 ('' '' @ ''*'' @ '' '' @ ?t)" "ep_rem p1 < k"
    using a p(3) unfolding mul_ok_def by blast
  from p1(3) obtain j where k: "k = Suc j" by (cases k) auto
  have at1: "at p1 (''*'' @ '' '' @ ?t)" using at_op [OF moves_at [OF p1(2)]] .
  obtain q where q: "match_tok ''*'' p1 = (True, q)" "moves p1 q ('' '' @ ?t)" "ep_rem q < ep_rem p1"
    by (rule match_tok_True [OF at1]) (simp_all add: isspace_def byte_def)
  have "at q ?t" using at_gap [OF moves_at [OF q(2)]] .
  with b p(2) at_least_moves [OF at_least_moves [OF p(3) p1(2)] q(2)] ep_rem_fuel [of q]
  obtain p2 where p2: "parse_unary (ep_fuel q) ?e q = Some (?vb, p2)" "moves q p2 rest"
    unfolding unary_ok_def yields_def by blast
  have "apply_mul ''*'' ?va ?vb = Some ?v" using apply_ints(3) fits_value f by simp
  then have "mul_loop k ?e ?va p1 = mul_loop j ?e ?v p2" using q(1) p2(1) by (simp add: k)
  moreover have "ep_rem p2 < j" using moves_rem [OF p2(2)] q(3) p1(3) k by simp
  ultimately show "\<exists>k p'. parse_mul ?e p = mul_loop k ?e ?v p' \<and> moves p p' rest \<and> ep_rem p' < k"
    using p1(1) moves_trans [OF moves_trans [OF p1(2) q(2)] p2(2)] by auto
qed

lemma add_step:
  assumes a: "add_ok \<sigma> ctx a" and b: "mul_ok \<sigma> ctx b" and op: "op \<in> {''+'', ''-''}"
    and sh: "show_aexp 0 c = show_aexp 0 a @ '' '' @ op @ '' '' @ show_aexp 1 b"
    and val: "apply_add op (show_int (aval \<sigma> a)) (show_int (aval \<sigma> b)) = Some (show_int (aval \<sigma> c))"
  shows "add_ok \<sigma> ctx c"
  unfolding add_ok_def
proof (intro allI impI)
  fix p n rest
  let ?e = "parse_expr n" and ?va = "show_int (aval \<sigma> a)" and ?vb = "show_int (aval \<sigma> b)"
  let ?v = "show_int (aval \<sigma> c)" and ?t = "show_aexp 1 b @ rest"
  assume p: "at p (show_aexp 0 c @ rest)" "ends rest" "\<not> next_is ''*/%'' rest" "at_least (Suc n) ctx p"
  have "at p (show_aexp 0 a @ '' '' @ op @ '' '' @ ?t)" using p(1) by (simp add: sh)
  moreover have "\<not> next_is ''*/%'' ('' '' @ op @ '' '' @ ?t)" using op by (auto simp: next_is_def isspace_def byte_def)
  moreover have "ends ('' '' @ op @ '' '' @ ?t)" by (simp add: ends_def)
  ultimately obtain k p1 where p1: "parse_add ?e p = add_loop k ?e ?va p1"
    "moves p p1 ('' '' @ op @ '' '' @ ?t)" "ep_rem p1 < k"
    using a p(4) unfolding add_ok_def by blast
  from p1(3) obtain j where k: "k = Suc j" by (cases k) auto
  have at1: "at p1 (op @ '' '' @ ?t)" using at_op [OF moves_at [OF p1(2)]] .
  obtain q where q: "match_tok op p1 = (True, q)" "moves p1 q ('' '' @ ?t)" "ep_rem q < ep_rem p1"
    by (rule match_tok_True [OF at1]) (use op in \<open>auto simp: isspace_def byte_def\<close>)
  have "match_tok tok p1 = (False, skip_ws p1)" if "tok \<noteq> []" "hd tok \<noteq> hd op" for tok
    by (rule match_tok_False [OF at1 that(1)]) (use op that in \<open>auto simp: next_is_def isspace_def byte_def\<close>)
  then have m: "match_any [''..'', ''+'', ''-''] (skip_ws p1) = (Some op, q)" using op q(1) by auto
  have at2: "at q ?t" using at_gap [OF moves_at [OF q(2)]] .
  obtain p2 where p2: "parse_mul ?e q = Some (?vb, p2)" "moves q p2 rest"
    using mul_yields [OF b at2 p(2) at_least_moves [OF at_least_moves [OF p(4) p1(2)] q(2)] p(3)]
    unfolding yields_def by blast
  have "add_loop k ?e ?va p1 = add_loop j ?e ?v p2" using m p2(1) val by (simp add: k del: match_any.simps)
  moreover have "ep_rem p2 < j" using moves_rem [OF p2(2)] q(3) p1(3) k by simp
  ultimately show "\<exists>k p'. parse_add ?e p = add_loop k ?e ?v p' \<and> moves p p' rest \<and> ep_rem p' < k"
    using p1(1) moves_trans [OF moves_trans [OF p1(2) q(2)] p2(2)] by auto
qed

lemma aexp_ok:
  "fits \<sigma> a \<Longrightarrow> binds ctx \<sigma> (avars a) \<Longrightarrow> add_ok \<sigma> ctx a \<and> mul_ok \<sigma> ctx a \<and> unary_ok \<sigma> ctx a"
proof (induction a)
  case (Num n)
  note u = num_unary [of \<sigma> ctx n] and m = mul_from_unary [OF num_unary [of \<sigma> ctx n]]
  with add_from_mul [OF m] show ?case by simp
next
  case (Var x)
  then have u: "unary_ok \<sigma> ctx (Var x)" by (intro var_unary) (simp_all add: binds_def)
  with add_from_mul [OF mul_from_unary [OF u]] mul_from_unary [OF u] show ?case by simp
next
  case (Neg a)
  then have "add_ok \<sigma> ctx a" by (simp add: binds_def)
  from neg_unary [OF expr_from_add [OF this]] Neg.prems have u: "unary_ok \<sigma> ctx (Neg a)" by simp
  with add_from_mul [OF mul_from_unary [OF u]] mul_from_unary [OF u] show ?case by simp
next
  case (Add a b)
  then have IH: "add_ok \<sigma> ctx a" "mul_ok \<sigma> ctx b" "fits \<sigma> a" "fits \<sigma> b" by (simp_all add: binds_def)
  have s: "add_ok \<sigma> ctx (Add a b)"
    by (rule add_step [OF IH(1,2), of "''+''"])
      (use apply_ints(1) fits_value IH(3,4) Add.prems in \<open>simp_all add: paren_def\<close>)
  have u: "unary_ok \<sigma> ctx (Add a b)" by (rule unary_from_expr [OF expr_from_add [OF s]]) (simp add: paren_def)
  with s mul_from_unary [OF u] show ?case by (simp add: paren_def)
next
  case (Sub a b)
  then have IH: "add_ok \<sigma> ctx a" "mul_ok \<sigma> ctx b" "fits \<sigma> a" "fits \<sigma> b" by (simp_all add: binds_def)
  have s: "add_ok \<sigma> ctx (Sub a b)"
    by (rule add_step [OF IH(1,2), of "''-''"])
      (use apply_ints(2) fits_value IH(3,4) Sub.prems in \<open>simp_all add: paren_def\<close>)
  have u: "unary_ok \<sigma> ctx (Sub a b)" by (rule unary_from_expr [OF expr_from_add [OF s]]) (simp add: paren_def)
  with s mul_from_unary [OF u] show ?case by (simp add: paren_def)
next
  case (Mul a b)
  then have IH: "mul_ok \<sigma> ctx a" "unary_ok \<sigma> ctx b" by (simp_all add: binds_def)
  note m = mul_step [OF IH Mul.prems(1)]
  have s: "add_ok \<sigma> ctx (Mul a b)" by (rule add_from_mul [OF m]) (simp add: paren_def)
  have u: "unary_ok \<sigma> ctx (Mul a b)" by (rule unary_from_expr [OF expr_from_add [OF s]]) (simp add: paren_def)
  with s m show ?case by simp
qed

text \<open>C16: Integer arithmetic is exact.  The text of an integer expression over \<open>+\<close>, \<open>-\<close>, \<open>*\<close>, negation and
  variables, written with the usual precedence and associativity and no other parentheses, evaluates
  to the decimal text of its value, although the evaluator computes in doubles, as long as every
  intermediate value has at most 53 bits.\<close>

theorem eval_expr_arith:
  assumes "fits \<sigma> a" "binds ctx \<sigma> (avars a)"
  shows "eval_expr (show_aexp 0 a) ctx = Some (Inr (show_int (aval \<sigma> a)))"
proof -
  let ?p = "\<lparr>ep_src = show_aexp 0 a, ep_pos = 0, ep_ctx = ctx, ep_ok = True\<rparr>"
  have "expr_ok \<sigma> ctx a" using aexp_ok [OF assms] expr_from_add by blast
  moreover have "at ?p (show_aexp 0 a @ [])" by (rule at_text) (simp add: ep_text_def)
  moreover have "at_least (Suc (length (show_aexp 0 a))) ctx ?p" by (simp add: at_least_def ep_rem_def ep_text_def)
  ultimately show ?thesis unfolding expr_ok_def yields_def eval_expr_def moves_def by force
qed

lemma eval_expr_arith_witness:
  "eval_expr ''a - 2 * (a - 3) + -(4)'' [''a'' \<mapsto> ''5''] = Some (Inr ''-3'')"
proof -
  let ?a = "Add (Sub (Var ''a'') (Mul (Num 2) (Sub (Var ''a'') (Num 3)))) (Neg (Num 4))"
  have digits: "show_int 5 = ''5''" "show_int (- 3) = ''-3''" "show_nat 2 = ''2''" "show_nat 3 = ''3''" "show_nat 4 = ''4''"
    by code_simp+
  have "fits (\<lambda>_. 5) ?a" by simp
  moreover have "binds [''a'' \<mapsto> ''5''] (\<lambda>_. 5) (avars ?a)"
    by (simp add: binds_def is_variable_def is_name_char_def ctype_defs digits)
  ultimately have "eval_expr (show_aexp 0 ?a) [''a'' \<mapsto> ''5''] = Some (Inr (show_int (aval (\<lambda>_. 5) ?a)))"
    by (rule eval_expr_arith)
  then show ?thesis by (simp add: paren_def digits)
qed

lemma apply_cmp_int:
  assumes "\<bar>i\<bar> < 2 ^ 53" "\<bar>j\<bar> < 2 ^ 53"
  shows "apply_cmp op (show_int i) (show_int j) = compare_with op (=) (<) i j"
proof -
  obtain d where d: "to_double (show_int i) = Some d" "dbl_int d = Some i" by (rule to_double_int [OF assms(1)])
  obtain e where e: "to_double (show_int j) = Some e" "dbl_int e = Some j" by (rule to_double_int [OF assms(2)])
  show ?thesis
    using dbl_compare_int [OF d(2) e(2)] dbl_compare_int [OF e(2) d(2)]
    by (auto simp: apply_cmp_def d(1) e(1) compare_with_def)
qed

definition cmp_ops :: "string list" where
  "cmp_ops = [''=='', ''!='', ''<='', ''>='', ''<'', ''>'']"

lemma match_cmp_op:
  assumes "op \<in> set cmp_ops" "at p (op @ '' '' @ t)"
  obtains q where "match_any cmp_ops (skip_ws p) = (Some op, q)" "moves p q ('' '' @ t)"
proof -
  have op: "op \<noteq> []" "\<not> isspace (hd op)" using assms(1) by (auto simp: cmp_ops_def isspace_def byte_def)
  note m = match_tok_at [OF assms(2)]
  have s: "op @ '' '' @ t = [] \<or> \<not> isspace (hd (op @ '' '' @ t))" using op by simp
  have "match_any cmp_ops (skip_ws p) = (Some op, ep_skip (length op) (skip_ws p))"
  proof -
    from assms(1) consider "op = ''==''" | "op = ''!=''" | "op = ''<=''" | "op = ''>=''" | "op = ''<''" | "op = ''>''"
      by (auto simp: cmp_ops_def)
    then show ?thesis by cases (simp_all add: cmp_ops_def m [OF s])
  qed
  moreover have "moves p (ep_skip (length op) (skip_ws p)) ('' '' @ t)"
    using moves_skip [OF assms(2) s, of "length op"] by simp
  ultimately show ?thesis by (rule that)
qed

text \<open>The six operators and their meaning on integers.\<close>

definition int_orders :: "(string \<times> (int \<Rightarrow> int \<Rightarrow> bool)) list" where
  "int_orders = [(''=='', (=)), (''!='', (\<noteq>)), (''<='', (\<le>)), (''>='', (\<ge>)), (''<'', (<)), (''>'', (>))]"

lemma compare_with_order:
  "(op, R) \<in> set int_orders \<Longrightarrow> op \<in> set cmp_ops \<and> compare_with op (=) (<) a b = R a b"
  by (auto simp: int_orders_def cmp_ops_def compare_with_def)

text \<open>Comparisons of integer expressions are exact.  For each of the six operators, comparing the texts
  of two integer expressions gives the order of their values, although both are computed and
  compared as doubles.\<close>

lemma eval_bool_compare:
  assumes "fits \<sigma> a" "fits \<sigma> b" "binds ctx \<sigma> (avars a \<union> avars b)" "(op, R) \<in> set int_orders"
  shows "eval_bool (show_aexp 0 a @ '' '' @ op @ '' '' @ show_aexp 0 b) ctx =
    Some (Inr (R (aval \<sigma> a) (aval \<sigma> b)))"
proof -
  let ?s = "show_aexp 0 a @ '' '' @ op @ '' '' @ show_aexp 0 b"
  let ?p = "\<lparr>ep_src = ?s, ep_pos = 0, ep_ctx = ctx, ep_ok = True\<rparr>" and ?e = "parse_expr (length ?s)"
  let ?va = "show_int (aval \<sigma> a)" and ?vb = "show_int (aval \<sigma> b)"
  note order = compare_with_order [OF assms(4)]
  then have op: "op \<in> set cmp_ops" by blast
  have ok: "add_ok \<sigma> ctx a" "add_ok \<sigma> ctx b" using aexp_ok assms by (auto simp: binds_def)
  have at: "at ?p ?s" by (rule at_text) (simp add: ep_text_def)
  have least: "at_least (Suc (length ?s)) ctx ?p" by (simp add: at_least_def ep_rem_def ep_text_def)
  have no: "\<not> next_is ''*/%.+-'' ('' '' @ op @ '' '' @ show_aexp 0 b)"
    using op by (auto simp: cmp_ops_def next_is_def isspace_def byte_def)
  have "ends ('' '' @ op @ '' '' @ show_aexp 0 b)" by (simp add: ends_def)
  from add_yields [OF ok(1) at this no least] obtain p1 where
    p1: "parse_add ?e ?p = Some (?va, p1)" "moves ?p p1 ('' '' @ op @ '' '' @ show_aexp 0 b)"
    by (auto simp: yields_def)
  obtain q where q: "match_any cmp_ops (skip_ws p1) = (Some op, q)" "moves p1 q ('' '' @ show_aexp 0 b)"
    by (rule match_cmp_op [OF op at_op [OF moves_at [OF p1(2)]]])
  have "at q (show_aexp 0 b @ [])" using at_gap [OF moves_at [OF q(2)]] by simp
  from add_yields [OF ok(2) this _ _ at_least_moves [OF at_least_moves [OF least p1(2)] q(2)]]
  obtain p2 where p2: "parse_add ?e q = Some (?vb, p2)" "moves q p2 []"
    by (auto simp: yields_def ends_def next_is_def)
  have "parse_cmp ?e ?p = Some (bool_str (R (aval \<sigma> a) (aval \<sigma> b)), p2)"
    using p1(1) q(1) p2(1) apply_cmp_int fits_value assms(1,2) order
    by (simp add: parse_cmp_def cmp_ops_def del: match_any.simps)
  from and_or_done [OF this moves_trans [OF moves_trans [OF p1(2) q(2)] p2(2)]]
  show ?thesis by (auto simp: next_is_def yields_def eval_bool_def eval_expr_def moves_def bool_str_def)
qed

lemma eval_bool_compare_witness:
  "eval_bool ''2 * 3 <= 7'' Map.empty = Some (Inr True)"
proof -
  have digits: "show_nat 2 = ''2''" "show_nat 3 = ''3''" "show_nat 7 = ''7''" by code_simp+
  from eval_bool_compare [of "\<lambda>_. 0" "Mul (Num 2) (Num 3)" "Num 7" Map.empty "''<=''" "(\<le>)"] show ?thesis
    by (simp add: digits binds_def paren_def int_orders_def)
qed

text \<open>Trailing text is ignored.  The evaluator stops at the end of the first expression and reports
  success whatever follows, so a missing operator or a stray parenthesis goes unnoticed.\<close>

lemma eval_expr_ignores_rest:
  "eval_expr ''1 2'' Map.empty = Some (Inr ''1'') \<and> eval_expr ''1)'' Map.empty = Some (Inr ''1'')"
  by code_simp

text \<open>A string that \<open>strtod\<close> reads as not-a-number is not equal to itself.\<close>

lemma eval_expr_string_equality:
  "eval_expr ''a == a'' [''a'' \<mapsto> ''Nan''] = Some (Inr ''false'')"
  by code_simp

end
