(* ===== verification/Nift_FrontMatter.thy ===== *)
theory Nift_FrontMatter
  imports Nift_Json Nift_Core
begin

text \<open>
  The front matter reader, \<open>crates/markdown/src/front_matter.cpp\<close>.  The cursor \<open>i\<close> into the vector of
  lines is the list of the lines that are left.  A loop or a recursive call consumes a line per round,
  so the number of lines is enough fuel (\<open>None\<close> would be missing fuel); the exception that
  \<open>std::string::substr\<close> throws escapes the reader and is the value \<open>Inl Out_of_range\<close>.  The functions
  below \<open>parse_yaml_block\<close> take it as the argument \<open>yb\<close>.  The JSON library is the parameter \<open>L\<close>.
\<close>

section \<open>Values\<close>

definition lstrip :: "string \<Rightarrow> string" where
  "lstrip line = dropWhile (\<lambda>c. c \<in> {CHR '' '', CHR 0x09}) line"

fun measure_indent :: "string \<Rightarrow> nat" where
  "measure_indent [] = 0"
| "measure_indent (c # cs) =
     (if c = CHR '' '' then 1 + measure_indent cs
      else if c = CHR 0x09 then 2 + measure_indent cs else 0)"

definition is_blank_or_comment :: "string \<Rightarrow> bool" where
  "is_blank_or_comment line \<longleftrightarrow> lstrip line = [] \<or> hd (lstrip line) = CHR ''#''"

text \<open>The trimmed texts before and after the first colon.\<close>

definition split_colon :: "string \<Rightarrow> (string \<times> string) option" where
  "split_colon s =
     map_option (\<lambda>colon. (trim_ws (take colon s), trim_ws (drop (colon + 1) s))) (str_find (CHR '':'') 0 s)"

definition yaml_true :: "string list" where
  "yaml_true = [''true'', ''True'', ''TRUE'', ''yes'', ''Yes'', ''YES'', ''on'', ''On'', ''ON'']"

definition yaml_false :: "string list" where
  "yaml_false = [''false'', ''False'', ''FALSE'', ''no'', ''No'', ''NO'', ''off'', ''Off'', ''OFF'']"

definition yaml_null :: "string list" where
  "yaml_null = [''null'', ''Null'', ''NULL'', ''~'']"

text \<open>\<open>strtoll(s, &end, 0)\<close> before its range check: hexadecimal after \<open>0x\<close>, octal after \<open>0\<close>, else decimal.
  \<open>std::stoll\<close> and \<open>std::stod\<close> give the value and the text after it, \<open>None\<close> where they throw.\<close>

definition strtoll :: "string \<Rightarrow> (int \<times> string) option" where
  "strtoll s =
     (let (neg, r) = take_sign (dropWhile isspace s);
          hex = (3 \<le> length r \<and> hd r = CHR ''0'' \<and> tolower (r ! 1) = CHR ''x'' \<and> isxdigit (r ! 2));
          oct = (r \<noteq> [] \<and> hd r = CHR ''0'');
          base = (if hex then 16 else if oct then 8 else 10);
          P = (if hex then isxdigit else if oct then (\<lambda>c. isdigit c \<and> c \<notin> set ''89'') else isdigit);
          r = (if hex then drop 2 r else r);
          v = int (digits_val base (takeWhile P r))
      in if takeWhile P r = [] then None else Some (if neg then - v else v, dropWhile P r))"

definition in_int64 :: "int \<Rightarrow> bool" where
  "in_int64 i \<longleftrightarrow> - 9223372036854775808 \<le> i \<and> i \<le> 9223372036854775807"

definition stoll :: "string \<Rightarrow> (int \<times> string) option" where
  "stoll s = (case strtoll s of Some (i, r) \<Rightarrow> if in_int64 i then Some (i, r) else None | None \<Rightarrow> None)"

definition stod :: "string \<Rightarrow> (dbl \<times> string) option" where
  "stod s =
     (let r = strtod s in if sr_rest r = s \<or> sr_range r then None else Some (sr_value r, sr_rest r))"

text \<open>A number that takes the whole text.\<close>

definition whole :: "('a \<times> string) option \<Rightarrow> 'a option" where
  "whole r = (case r of None \<Rightarrow> None | Some (x, rest) \<Rightarrow> if rest = [] then Some x else None)"

definition parse_number :: "string \<Rightarrow> json option" where
  "parse_number t =
     (case whole (stoll t) of
        Some i \<Rightarrow> Some (JInt i)
      | None \<Rightarrow> map_option JFloat (whole (stod t)))"

definition dq_escape :: "char \<Rightarrow> string" where
  "dq_escape c =
     (if c = CHR ''n'' then [NL] else if c = CHR ''t'' then [CHR 0x09] else if c = CHR ''r'' then [CHR 0x0D]
      else if c = CHR 0x5C then [c] else if c = CHR 0x22 then [c] else [CHR 0x5C, c])"

fun dq_unescape :: "string \<Rightarrow> string" where
  "dq_unescape (c # d # cs) =
     (if c = CHR 0x5C then dq_escape d @ dq_unescape cs else c # dq_unescape (d # cs))"
| "dq_unescape cs = cs"

fun sq_unescape :: "string \<Rightarrow> string" where
  "sq_unescape (c # d # cs) =
     (if c = CHR 0x27 \<and> d = CHR 0x27 then CHR 0x27 # sq_unescape cs else c # sq_unescape (d # cs))"
| "sq_unescape cs = cs"

text \<open>The text between the brackets or quotes, and the items of a flow collection.\<close>

definition inner :: "string \<Rightarrow> string" where
  "inner t = substr 1 (length t - 2) t"

definition flow_items :: "string \<Rightarrow> string list" where
  "flow_items t = split_char (CHR '','') (inner t)"

lemma length_split_char: "p \<in> set (split_char d s) \<Longrightarrow> length p \<le> length s"
proof (induction d s rule: split_char.induct)
  case (1 delim sv)
  show ?case
  proof (cases "str_find delim 0 sv")
    case None
    with "1.prems" show ?thesis by (subst (asm) split_char.simps) (auto split: if_splits)
  next
    case (Some pos)
    with "1.prems" have "p = take pos sv \<or> p \<in> set (split_char delim (drop (pos + 1) sv))"
      by (subst (asm) split_char.simps) (auto split: if_splits)
    moreover have "sv \<noteq> []" using str_find_SomeD [OF Some] by auto
    ultimately show ?thesis using "1.IH" [OF _ Some] by auto
  qed
qed

lemma length_trim_ws: "length (trim_ws s) \<le> length s"
  unfolding trim_ws_def by (metis length_dropWhile_le length_rev order_trans)

lemma length_flow_item:
  assumes "p \<in> set (flow_items (trim_ws s))" "trim_ws s \<noteq> []"
  shows "length p < length s"
proof -
  have "length p \<le> length (inner (trim_ws s))" using assms(1) by (auto simp: flow_items_def dest: length_split_char)
  also have "\<dots> < length (trim_ws s)" using assms(2) by (simp add: inner_def substr_def)
  finally show ?thesis using length_trim_ws [of s] by simp
qed

lemma length_split_colon: "split_colon s = Some (k, v) \<Longrightarrow> length v \<le> length s"
  by (auto simp: split_colon_def intro!: order_trans [OF length_trim_ws])

function parse_value :: "json_lib \<Rightarrow> string \<Rightarrow> json" where
  "parse_value L val =
     (let t = trim_ws val in
      if t = [] then JStr []
      else if t \<in> set yaml_true then JBool True
      else if t \<in> set yaml_false then JBool False
      else if t \<in> set yaml_null then JNull
      else case parse_number t of Some j \<Rightarrow> j | None \<Rightarrow>
        if hd t = CHR ''['' \<and> last t = CHR '']'' then
          (case jl_parse L t of
             Some j \<Rightarrow> j
           | None \<Rightarrow> JArr (map (parse_value L) (flow_items t)))
        else if hd t = CHR ''{'' \<and> last t = CHR ''}'' then
          (case jl_parse L t of
             Some j \<Rightarrow> j
           | None \<Rightarrow> json_object (concat (map (\<lambda>pair.
               case split_colon pair of
                 None \<Rightarrow> []
               | Some (k, v) \<Rightarrow> if k = [] then [] else [(k, parse_value L v)]) (flow_items t))))
        else if hd t = CHR 0x22 \<and> last t = CHR 0x22 \<and> 2 \<le> length t then JStr (dq_unescape (inner t))
        else if hd t = CHR 0x27 \<and> last t = CHR 0x27 \<and> 2 \<le> length t then JStr (sq_unescape (inner t))
        else JStr t)"
  by pat_completeness auto
termination
proof (relation "measure (\<lambda>(L, val). length val)", goal_cases)
  case (3 L val t pair p k v)
  then show ?case using length_split_colon [of pair k v] length_flow_item [of pair val] by auto
qed (auto dest: length_flow_item)

declare parse_value.simps [simp del]

section \<open>Results\<close>

datatype fm_error = Out_of_range

type_synonym 'a fm = "(fm_error + 'a) option"

definition fm_bind :: "'a fm \<Rightarrow> ('a \<Rightarrow> 'b fm) \<Rightarrow> 'b fm" where
  "fm_bind m f = (case m of None \<Rightarrow> None | Some (Inl e) \<Rightarrow> Some (Inl e) | Some (Inr x) \<Rightarrow> f x)"

definition fm_ret :: "'a \<Rightarrow> 'a fm" where
  "fm_ret x = Some (Inr x)"

type_synonym 'a block = "('a \<times> string list) fm"
type_synonym yaml_parser = "string list \<Rightarrow> nat \<Rightarrow> json block"

lemma fm_bind_ret [simp]: "fm_bind (fm_ret x) f = f x"
  by (simp add: fm_bind_def fm_ret_def)

section \<open>Block scalars\<close>

fun multiline_loop :: "nat \<Rightarrow> bool \<Rightarrow> string list \<Rightarrow> bool \<Rightarrow> string \<Rightarrow> fm_error + (string \<times> string list)" where
  "multiline_loop block_indent folded [] first_line result = Inr (result, [])"
| "multiline_loop block_indent folded (line # ls) first_line result =
     (if is_blank_or_comment line then
        multiline_loop block_indent folded ls first_line (if first_line then result else result @ [NL])
      else if measure_indent line < block_indent then Inr (result, line # ls)
      else if length line < block_indent then Inl Out_of_range
      else
        let space = (if folded \<and> \<not> first_line \<and> result \<noteq> [] \<and> last result \<noteq> NL then '' '' else []);
            result = result @ space @ drop block_indent line
        in multiline_loop block_indent folded ls False (if folded then result else result @ [NL]))"

definition parse_multiline_scalar :: "nat \<Rightarrow> bool \<Rightarrow> string list \<Rightarrow> (string \<times> string list) fm" where
  "parse_multiline_scalar block_indent folded ls =
     fm_bind (Some (multiline_loop block_indent folded ls True []))
       (\<lambda>(result, rest). fm_ret (if folded \<and> result \<noteq> [] \<and> last result = NL then butlast result else result, rest))"

definition strip_newlines :: "string \<Rightarrow> string" where
  "strip_newlines s = rev (dropWhile (\<lambda>c. c = NL) (rev s))"

definition is_block_marker :: "string \<Rightarrow> bool" where
  "is_block_marker val_str \<longleftrightarrow> val_str \<in> {''|'', ''|+'', ''|-'', ''>'', ''>+'', ''>-''}"

text \<open>The lines behind a key whose value is \<open>val_str\<close>, one of the six markers.\<close>

definition block_scalar :: "nat \<Rightarrow> string \<Rightarrow> string list \<Rightarrow> json block" where
  "block_scalar base_indent val_str ls =
     (let keep = (drop 1 val_str = ''+''); strip = (drop 1 val_str = ''-'');
          scalar_indent =
            (if ls \<noteq> [] \<and> \<not> is_blank_or_comment (hd ls) then measure_indent (hd ls) else base_indent + 2)
      in fm_bind (parse_multiline_scalar scalar_indent (hd val_str = CHR ''>'') ls) (\<lambda>(scalar, rest).
           fm_ret
             (JStr (if strip then strip_newlines scalar
                    else if \<not> keep \<and> scalar \<noteq> [] \<and> last scalar \<noteq> NL then scalar @ [NL] else scalar),
              rest)))"

section \<open>Block sequences and mappings\<close>

definition is_item :: "string \<Rightarrow> bool" where
  "is_item line \<longleftrightarrow> take 2 (lstrip line) = ''- ''"

text \<open>The further \<open>key: value\<close> lines of a mapping inside a sequence.\<close>

fun entry_loop :: "json_lib \<Rightarrow> yaml_parser \<Rightarrow> nat \<Rightarrow> nat \<Rightarrow> string list \<Rightarrow> (string \<times> json) list \<Rightarrow> json block" where
  "entry_loop L yb body_indent 0 ls item_obj = None"
| "entry_loop L yb body_indent (Suc k) ls item_obj =
     (case ls of
        [] \<Rightarrow> fm_ret (JObj item_obj, [])
      | line # ls' \<Rightarrow>
          if is_blank_or_comment line then entry_loop L yb body_indent k ls' item_obj
          else if measure_indent line < body_indent then fm_ret (JObj item_obj, ls)
          else if body_indent < measure_indent line then entry_loop L yb body_indent k ls' item_obj
          else if is_item line then fm_ret (JObj item_obj, ls)
          else case split_colon (lstrip line) of
            None \<Rightarrow> entry_loop L yb body_indent k ls' item_obj
          | Some (nkey, nval) \<Rightarrow>
              if nkey = [] then entry_loop L yb body_indent k ls' item_obj
              else if nval = [] \<and> ls' \<noteq> [] \<and> body_indent < measure_indent (hd ls') then
                fm_bind (yb ls' (measure_indent (hd ls')))
                  (\<lambda>(j, rest). entry_loop L yb body_indent k rest (obj_set nkey j item_obj))
              else entry_loop L yb body_indent k ls' (obj_set nkey (parse_value L nval) item_obj))"

definition parse_sequence_mapping_entry ::
    "json_lib \<Rightarrow> yaml_parser \<Rightarrow> nat \<Rightarrow> nat \<Rightarrow> string \<times> string \<Rightarrow> string list \<Rightarrow> json block" where
  "parse_sequence_mapping_entry L yb seq_indent indent key_val ls =
     (case key_val of (key, val_str) \<Rightarrow>
       fm_bind
         (if val_str \<noteq> [] then fm_ret (parse_value L val_str, ls)
          else let ls = tl ls in
            if ls \<noteq> [] \<and> \<not> is_blank_or_comment (hd ls) \<and> indent + 2 < measure_indent (hd ls) then
              yb ls (measure_indent (hd ls))
            else fm_ret (JStr [], ls))
         (\<lambda>(j, ls). entry_loop L yb (seq_indent + 2) (Suc (length (tl ls))) (tl ls) [(key, j)]))"

text \<open>The item is a mapping when it has a colon that is not its first byte.\<close>

definition mapping_item :: "string \<Rightarrow> (string \<times> string) option" where
  "mapping_item item_content = (if item_content \<noteq> [] \<and> hd item_content = CHR '':'' then None else split_colon item_content)"

fun seq_loop :: "json_lib \<Rightarrow> yaml_parser \<Rightarrow> nat \<Rightarrow> nat \<Rightarrow> string list \<Rightarrow> json list \<Rightarrow> json block" where
  "seq_loop L yb seq_indent 0 ls arr = None"
| "seq_loop L yb seq_indent (Suc k) ls arr =
     (case ls of
        [] \<Rightarrow> fm_ret (JArr arr, [])
      | line # ls' \<Rightarrow>
          if is_blank_or_comment line then seq_loop L yb seq_indent k ls' arr
          else let indent = measure_indent line in
          if indent < seq_indent then fm_ret (JArr arr, ls)
          else if seq_indent < indent then seq_loop L yb seq_indent k ls' arr
          else if \<not> is_item line then fm_ret (JArr arr, ls)
          else let item_content = trim_ws (drop 2 (lstrip line)) in
            case mapping_item item_content of
              Some key_val \<Rightarrow>
                fm_bind (parse_sequence_mapping_entry L yb seq_indent indent key_val ls)
                  (\<lambda>(j, rest). seq_loop L yb seq_indent k rest (arr @ [j]))
            | None \<Rightarrow>
                if item_content \<noteq> [] then seq_loop L yb seq_indent k ls' (arr @ [parse_value L item_content])
                else if ls' \<noteq> [] \<and> \<not> is_blank_or_comment (hd ls') \<and> indent + 2 < measure_indent (hd ls') then
                  fm_bind (yb ls' (measure_indent (hd ls')))
                    (\<lambda>(j, rest). seq_loop L yb seq_indent k rest (arr @ [j]))
                else seq_loop L yb seq_indent k (tl ls') (arr @ [JStr []]))"

definition parse_block_sequence :: "json_lib \<Rightarrow> yaml_parser \<Rightarrow> nat \<Rightarrow> string list \<Rightarrow> json block" where
  "parse_block_sequence L yb seq_indent ls = seq_loop L yb seq_indent (Suc (length ls)) ls []"

text \<open>The peek: does a sequence start at this indentation?\<close>

fun starts_sequence :: "nat \<Rightarrow> string list \<Rightarrow> bool" where
  "starts_sequence base_indent [] = False"
| "starts_sequence base_indent (line # ls) =
     (if is_blank_or_comment line \<or> base_indent < measure_indent line then starts_sequence base_indent ls
      else measure_indent line = base_indent \<and> is_item line)"

fun map_loop :: "json_lib \<Rightarrow> yaml_parser \<Rightarrow> nat \<Rightarrow> nat \<Rightarrow> string list \<Rightarrow> (string \<times> json) list \<Rightarrow> json block" where
  "map_loop L yb base_indent 0 ls result = None"
| "map_loop L yb base_indent (Suc k) ls result =
     (case ls of
        [] \<Rightarrow> fm_ret (JObj result, [])
      | line # ls' \<Rightarrow>
          if is_blank_or_comment line then map_loop L yb base_indent k ls' result
          else if measure_indent line < base_indent then fm_ret (JObj result, ls)
          else if base_indent < measure_indent line then map_loop L yb base_indent k ls' result
          else if is_item line then parse_block_sequence L yb base_indent ls
          else case split_colon (lstrip line) of
            None \<Rightarrow> map_loop L yb base_indent k ls' result
          | Some (key, val_str) \<Rightarrow>
              if key = [] then map_loop L yb base_indent k ls' result
              else if is_block_marker val_str then
                fm_bind (block_scalar base_indent val_str ls')
                  (\<lambda>(j, rest). map_loop L yb base_indent k rest (obj_set key j result))
              else if val_str = [] \<and> ls' \<noteq> [] \<and> base_indent < measure_indent (hd ls') then
                fm_bind (yb ls' (measure_indent (hd ls')))
                  (\<lambda>(j, rest). map_loop L yb base_indent k rest (obj_set key j result))
              else map_loop L yb base_indent k ls' (obj_set key (parse_value L val_str) result))"

fun parse_yaml_block :: "json_lib \<Rightarrow> nat \<Rightarrow> yaml_parser" where
  "parse_yaml_block L 0 ls base_indent = None"
| "parse_yaml_block L (Suc n) ls base_indent =
     (if starts_sequence base_indent ls then parse_block_sequence L (parse_yaml_block L n) base_indent ls
      else map_loop L (parse_yaml_block L n) base_indent (Suc (length ls)) ls [])"

definition parse_yaml_simple :: "json_lib \<Rightarrow> string \<Rightarrow> json fm" where
  "parse_yaml_simple L yaml =
     (let ls = split_char NL yaml
      in fm_bind (parse_yaml_block L (Suc (length ls)) ls 0) (\<lambda>(j, rest). fm_ret j))"

section \<open>Documents\<close>

record parsed_document =
  pd_front_matter :: json
  pd_body :: string
  pd_has_front_matter :: bool

definition plain_document :: "string \<Rightarrow> parsed_document" where
  "plain_document source =
     \<lparr>pd_front_matter = JNull, pd_body = source, pd_has_front_matter = False\<rparr>"

text \<open>The position of the closing fence, the matching brace, and the body from a position on.\<close>

definition closing_fence :: "string \<Rightarrow> nat option" where
  "closing_fence source =
     (if take 3 source = ''---'' then map_option ((+) 3) (find_sub (NL # ''---'') (drop 3 source)) else None)"

fun brace_end :: "int \<Rightarrow> nat \<Rightarrow> string \<Rightarrow> nat option" where
  "brace_end depth idx [] = None"
| "brace_end depth idx (c # cs) =
     (if c = CHR ''{'' then brace_end (depth + 1) (Suc idx) cs
      else if c = CHR ''}'' then
        (if depth - 1 = 0 then Some idx else brace_end (depth - 1) (Suc idx) cs)
      else brace_end depth (Suc idx) cs)"

definition body_from :: "nat \<Rightarrow> string \<Rightarrow> string" where
  "body_from body_start source =
     (let body = drop body_start source in if body \<noteq> [] \<and> hd body = NL then tl body else body)"

definition parse_front_matter :: "json_lib \<Rightarrow> string \<Rightarrow> parsed_document fm" where
  "parse_front_matter L source =
     (if source = [] then fm_ret (plain_document source)
      else case closing_fence source of
        Some pos \<Rightarrow>
          fm_bind (parse_yaml_simple L (substr 3 (pos - 3) source)) (\<lambda>fm.
            fm_ret \<lparr>pd_front_matter = fm, pd_body = body_from (pos + 3) source, pd_has_front_matter = True\<rparr>)
      | None \<Rightarrow>
          (case (if hd source = CHR ''{'' then brace_end 0 0 source else None) of
             None \<Rightarrow> fm_ret (plain_document source)
           | Some end_idx \<Rightarrow>
               (case jl_parse L (take (end_idx + 1) source) of
                  None \<Rightarrow> fm_ret (plain_document source)
                | Some j \<Rightarrow> fm_ret \<lparr>pd_front_matter = j, pd_body = body_from (end_idx + 1) source,
                    pd_has_front_matter = True\<rparr>)))"

definition strip_front_matter :: "json_lib \<Rightarrow> string \<Rightarrow> string fm" where
  "strip_front_matter L source = fm_bind (parse_front_matter L source) (\<lambda>doc. fm_ret (pd_body doc))"

section \<open>The reader returns, with a value of its type\<close>

text \<open>A result: an exception, or a value with \<open>P\<close> and no more than \<open>n\<close> lines left.\<close>

definition delivers :: "('a \<Rightarrow> bool) \<Rightarrow> nat \<Rightarrow> 'a block \<Rightarrow> bool" where
  "delivers P n m \<longleftrightarrow> (\<exists>e. m = Some (Inl e)) \<or> (\<exists>x rest. m = fm_ret (x, rest) \<and> P x \<and> length rest \<le> n)"

lemma delivers_ret [simp]: "delivers P n (fm_ret (x, rest)) \<longleftrightarrow> P x \<and> length rest \<le> n"
  by (simp add: delivers_def fm_ret_def)

lemma delivers_Some [simp]:
  "delivers P n (Some (Inl e))" "delivers P n (Some (Inr (x, rest))) \<longleftrightarrow> P x \<and> length rest \<le> n"
  by (auto simp: delivers_def fm_ret_def)

lemma delivers_bind:
  assumes "delivers P n m" "\<And>x rest. P x \<Longrightarrow> length rest \<le> n \<Longrightarrow> delivers Q n' (f (x, rest))"
  shows "delivers Q n' (fm_bind m f)"
  using assms(1) unfolding delivers_def [of P] by (auto simp: assms(2)) (simp add: fm_bind_def delivers_def)

lemma delivers_mono: "delivers P n m \<Longrightarrow> n \<le> n' \<Longrightarrow> delivers P n' m"
  unfolding delivers_def by (metis order_trans)

lemma delivers_Suc: "delivers P n m \<Longrightarrow> delivers P (Suc n) m"
  by (erule delivers_mono) simp

lemma multiline_loop_delivers: "delivers (\<lambda>_. True) (length ls) (Some (multiline_loop n folded ls fl r))"
by (induction ls arbitrary: fl r) (auto simp: Let_def intro: delivers_Suc)

text \<open>
  The contract of the values that the reader builds: those of scalars and of the library have \<open>P\<close>, and
  arrays and objects inherit it.
\<close>

locale yaml_values =
  fixes L :: json_lib and P :: "json \<Rightarrow> bool"
  assumes of_scalar: "P (parse_value L s)" and of_string: "P (JStr s)"
    and of_list: "list_all P js \<Longrightarrow> P (JArr js)"
    and of_object: "sorted_wrt (<) (map fst kvs) \<Longrightarrow> list_all (\<lambda>(k, v). P v) kvs \<Longrightarrow> P (JObj kvs)"
begin

text \<open>The entries of an object under construction.\<close>

definition entries :: "(string \<times> json) list \<Rightarrow> bool" where
  "entries kvs \<longleftrightarrow> sorted_wrt (<) (map fst kvs) \<and> list_all (\<lambda>(k, v). P v) kvs"

lemma entries_set: "entries kvs \<Longrightarrow> P v \<Longrightarrow> entries (obj_set k v kvs)"
proof -
  assume e: "entries kvs" "P v"
  have "list_all (\<lambda>(k, v). P v) kvs \<Longrightarrow> list_all (\<lambda>(k, v). P v) (obj_set k v kvs)"
    using e(2) by (induction kvs) auto
  with e(1) show ?thesis by (simp add: entries_def sorted_obj_set)
qed

lemma entries_simps [simp]: "entries []" "entries [(k, v)] \<longleftrightarrow> P v"
  by (simp_all add: entries_def)

lemma of_entries: "entries kvs \<Longrightarrow> P (JObj kvs)"
  by (simp add: entries_def of_object)

lemma block_scalar_delivers: "delivers P (length ls) (block_scalar base v ls)"
  unfolding block_scalar_def parse_multiline_scalar_def Let_def
  by (rule delivers_bind, rule delivers_bind, rule multiline_loop_delivers)
     (auto simp: of_string)

definition reads_below :: "nat \<Rightarrow> yaml_parser \<Rightarrow> bool" where
  "reads_below n yb \<longleftrightarrow> (\<forall>ls base. length ls < n \<longrightarrow> delivers P (length ls) (yb ls base))"

lemma reads_belowD: "reads_below n yb \<Longrightarrow> length ls < n \<Longrightarrow> delivers P (length ls) (yb ls base)"
  by (simp add: reads_below_def)

lemma entry_loop_delivers:
  "reads_below n yb \<Longrightarrow> length ls < k \<Longrightarrow> length ls \<le> n \<Longrightarrow> entries obj \<Longrightarrow>
   delivers P (length ls) (entry_loop L yb bi k ls obj)"
proof (induction k arbitrary: ls obj)
  case (Suc k)
  show ?case
  proof (cases ls)
    case Nil
    with Suc.prems show ?thesis by (simp add: of_entries)
  next
    case (Cons line ls')
    with Suc.prems have l: "length ls' < n" by simp
    have rec: "delivers P (length ls) (entry_loop L yb bi k rest obj')"
      if "length rest \<le> length ls'" "entries obj'" for rest obj'
      using Suc.IH [of rest obj'] Suc.prems Cons that by (auto intro: delivers_mono)
    have nested: "delivers P (length ls) (fm_bind (yb ls' i) (\<lambda>(j, rest). entry_loop L yb bi k rest (obj_set nkey j obj)))"
      for i nkey
      using Suc.prems(4) by (intro delivers_bind [OF reads_belowD [OF Suc.prems(1) l]]) (auto intro!: rec entries_set)
    show ?thesis
      using Cons Suc.prems rec nested
      by (auto simp: of_entries of_scalar entries_set split: option.split prod.split)
  qed
qed simp

lemma mapping_entry_delivers:
  assumes "reads_below n yb" "ls \<noteq> []" "length ls \<le> n"
  shows "delivers P (length ls - 1) (parse_sequence_mapping_entry L yb si indent kv ls)"
proof -
  obtain key v where kv: "kv = (key, v)" by (cases kv)
  have l: "length (tl ls) < n" using assms(2,3) by (cases ls) simp_all
  have loop: "delivers P (length ls - 1) (entry_loop L yb (si + 2) (Suc (length (tl r))) (tl r) [(key, j)])"
    if "P j" "length r \<le> length ls" for j r
    by (rule delivers_mono [OF entry_loop_delivers [OF assms(1)]]) (use that assms(3) in auto)
  have first: "delivers P (length ls) (if v \<noteq> [] then fm_ret (parse_value L v, ls)
      else let ls = tl ls in
        if ls \<noteq> [] \<and> \<not> is_blank_or_comment (hd ls) \<and> indent + 2 < measure_indent (hd ls) then
          yb ls (measure_indent (hd ls))
        else fm_ret (JStr [], ls))"
    using delivers_mono [OF reads_belowD [OF assms(1) l], of "length ls"]
    by (auto simp: Let_def of_scalar of_string)
  show ?thesis unfolding parse_sequence_mapping_entry_def kv prod.case
    by (rule delivers_bind [OF first], unfold prod.case, rule loop)
qed

lemma seq_loop_delivers:
  "reads_below n yb \<Longrightarrow> length ls < k \<Longrightarrow> length ls \<le> n \<Longrightarrow> list_all P arr \<Longrightarrow>
   delivers P (length ls) (seq_loop L yb si k ls arr)"
proof (induction k arbitrary: ls arr)
  case (Suc k)
  show ?case
  proof (cases ls)
    case Nil
    with Suc.prems show ?thesis by (simp add: of_list)
  next
    case (Cons line ls')
    with Suc.prems have l: "length ls' < n" by simp
    have rec: "delivers P (length ls) (seq_loop L yb si k rest arr')"
      if "length rest \<le> length ls'" "list_all P arr'" for rest arr'
      using Suc.IH [of rest arr'] Suc.prems Cons that by (auto intro: delivers_mono)
    have snoc: "list_all P (arr @ [j]) \<longleftrightarrow> P j" for j using Suc.prems by simp
    have nested: "delivers P (length ls) (fm_bind (yb ls' i) (\<lambda>(j, rest). seq_loop L yb si k rest (arr @ [j])))" for i
      using Suc.prems(4) by (intro delivers_bind [OF reads_belowD [OF Suc.prems(1) l]]) (auto intro!: rec)
    have mapping: "delivers P (length ls) (fm_bind (parse_sequence_mapping_entry L yb si i kv (line # ls'))
        (\<lambda>(j, rest). seq_loop L yb si k rest (arr @ [j])))" for i kv
    proof (rule delivers_bind)
      show "delivers P (length ls') (parse_sequence_mapping_entry L yb si i kv (line # ls'))"
        using mapping_entry_delivers [OF Suc.prems(1), of "line # ls'" si i kv] l by simp
    qed (use Suc.prems(4) in \<open>auto intro!: rec\<close>)
    show ?thesis
      using Cons Suc.prems rec nested mapping
      by (auto simp: Let_def of_list of_scalar of_string split: option.split)
  qed
qed simp

lemma map_loop_delivers:
  "reads_below n yb \<Longrightarrow> length ls < k \<Longrightarrow> length ls \<le> n \<Longrightarrow> entries obj \<Longrightarrow>
   delivers P (length ls) (map_loop L yb base k ls obj)"
proof (induction k arbitrary: ls obj)
  case (Suc k)
  show ?case
  proof (cases ls)
    case Nil
    with Suc.prems show ?thesis by (simp add: of_entries)
  next
    case (Cons line ls')
    with Suc.prems have l: "length ls' < n" by simp
    have rec: "delivers P (length ls) (map_loop L yb base k rest obj')"
      if "length rest \<le> length ls'" "entries obj'" for rest obj'
      using Suc.IH [of rest obj'] Suc.prems Cons that by (auto intro: delivers_mono)
    have nested: "delivers P (length ls) (fm_bind (yb ls' i) (\<lambda>(j, rest). map_loop L yb base k rest (obj_set key j obj)))"
      for i key
      using Suc.prems(4) by (intro delivers_bind [OF reads_belowD [OF Suc.prems(1) l]]) (auto intro!: rec entries_set)
    have scalar: "delivers P (length ls) (fm_bind (block_scalar base v ls') (\<lambda>(j, rest). map_loop L yb base k rest (obj_set key j obj)))"
      for v key
      using Suc.prems(4) by (intro delivers_bind [OF block_scalar_delivers]) (auto intro!: rec entries_set)
    have sequence: "delivers P (length ls) (parse_block_sequence L yb base (line # ls'))"
      using seq_loop_delivers [OF Suc.prems(1), of ls "Suc (length ls)" "[]"] Suc.prems Cons
      by (simp add: parse_block_sequence_def)
    show ?thesis
      using Cons Suc.prems rec nested scalar sequence
      by (auto simp: of_entries of_scalar entries_set split: option.split prod.split)
  qed
qed simp

lemma yaml_block_delivers: "reads_below n (parse_yaml_block L n)"
proof (induction n)
  case (Suc n)
  show ?case unfolding reads_below_def
  proof (intro allI impI)
    fix ls base assume "length (ls :: string list) < Suc n"
    then show "delivers P (length ls) (parse_yaml_block L (Suc n) ls base)"
      using seq_loop_delivers [OF Suc, of ls "Suc (length ls)" "[]"] map_loop_delivers [OF Suc, of ls "Suc (length ls)" "[]"]
      by (simp add: parse_block_sequence_def)
  qed
qed (simp add: reads_below_def)

lemma yaml_simple_value: "\<exists>r. parse_yaml_simple L yaml = Some r \<and> (\<forall>j. r = Inr j \<longrightarrow> P j)"
  using reads_belowD [OF yaml_block_delivers, of "split_char NL yaml" "Suc (length (split_char NL yaml))" 0]
  by (auto simp: parse_yaml_simple_def Let_def delivers_def fm_bind_def fm_ret_def)

end

text \<open>Integers fit the two integer types of the library, at every depth.\<close>

fun json_leaf :: "json \<Rightarrow> bool" where
  "json_leaf (JInt i) \<longleftrightarrow> - (2 ^ 63) \<le> i \<and> i < 2 ^ 64"
| "json_leaf j \<longleftrightarrow> True"

abbreviation well_typed :: "json \<Rightarrow> bool" where
  "well_typed \<equiv> json_tree json_leaf"

definition parses_well_typed :: "json_lib \<Rightarrow> bool" where
  "parses_well_typed L \<longleftrightarrow> (\<forall>s j. jl_parse L s = Some j \<longrightarrow> well_typed j)"

lemma parse_number_typed: "parse_number t = Some j \<Longrightarrow> well_typed j"
  by (auto simp: parse_number_def whole_def stoll_def in_int64_def split: option.splits if_splits prod.splits)

lemma concat_list_all: "(\<And>x. x \<in> set xs \<Longrightarrow> list_all P (f x)) \<Longrightarrow> list_all P (concat (map f xs))"
  by (induction xs) simp_all

lemma parse_value_typed: "parses_well_typed L \<Longrightarrow> well_typed (parse_value L s)"
proof (induction L s rule: parse_value.induct)
  case (1 L val)
  let ?t = "trim_ws val"
  have lib: "jl_parse L ?t = Some j \<Longrightarrow> well_typed j" for j using "1.prems" by (auto simp: parses_well_typed_def)
  consider (plain) "?t = [] \<or> ?t \<in> set yaml_true \<or> ?t \<in> set yaml_false \<or> ?t \<in> set yaml_null \<or> parse_number ?t \<noteq> None"
    | (other) "?t \<noteq> []" "?t \<notin> set yaml_true" "?t \<notin> set yaml_false" "?t \<notin> set yaml_null" "parse_number ?t = None"
    by blast
  then show ?case
  proof cases
    case plain
    then show ?thesis
      by (subst parse_value.simps, simp only: Let_def) (auto simp: parse_number_typed split: option.split)
  next
    case other
    note IH = "1.IH" [OF refl other]
    have seq: "well_typed (JArr (map (parse_value L) (flow_items ?t)))"
      if "hd ?t = CHR ''['' \<and> last ?t = CHR '']''" "jl_parse L ?t = None"
      using IH(1) [OF that(1) that(2)] "1.prems" by (auto simp: list_all_iff)
    have map: "well_typed (json_object (concat (map (\<lambda>pair. case split_colon pair of
        None \<Rightarrow> [] | Some (k, v) \<Rightarrow> if k = [] then [] else [(k, parse_value L v)]) (flow_items ?t))))"
      if "\<not> (hd ?t = CHR ''['' \<and> last ?t = CHR '']'')" "hd ?t = CHR ''{'' \<and> last ?t = CHR ''}''" "jl_parse L ?t = None"
      using IH(2) [OF that] "1.prems"
      by (intro json_object_canon concat_list_all) (auto split: option.split)
    show ?thesis
      using other seq map lib
      by (subst parse_value.simps, simp only: Let_def) (simp split: option.split)
  qed
qed

interpretation total: yaml_values L "\<lambda>j. True" for L
  by unfold_locales simp_all

interpretation typed: yaml_values L "\<lambda>j. parses_well_typed L \<longrightarrow> well_typed j" for L
  by unfold_locales (auto simp: parse_value_typed list_all_iff)

lemma parse_front_matter_cases:
  assumes "\<And>yaml. \<exists>r. parse_yaml_simple L yaml = Some r \<and> (\<forall>j. r = Inr j \<longrightarrow> P j)"
    and "\<And>s j. jl_parse L s = Some j \<Longrightarrow> P j" "P JNull"
  shows "\<exists>r. parse_front_matter L source = Some r \<and> (\<forall>doc. r = Inr doc \<longrightarrow> P (pd_front_matter doc))"
proof -
  have yaml: "\<exists>r. fm_bind (parse_yaml_simple L y) (\<lambda>fm. fm_ret \<lparr>pd_front_matter = fm, pd_body = b, pd_has_front_matter = True\<rparr>)
      = Some r \<and> (\<forall>doc. r = Inr doc \<longrightarrow> P (pd_front_matter doc))" for y b
    using assms(1) [of y] by (auto simp: fm_bind_def fm_ret_def split: sum.split)
  show ?thesis
    using yaml assms(2,3)
    by (auto simp: parse_front_matter_def plain_document_def fm_ret_def split: option.split)
qed

text \<open>C38: Reading front matter comes to an end.  For every document, well formed or not, and every behaviour of the
  JSON library, \<open>parse_front_matter\<close> and \<open>strip_front_matter\<close> do not run out of their fuel, which is one more than the number of lines: they
  return a document, or throw \<open>out_of_range\<close>.\<close>

theorem parse_front_matter_total: "\<exists>r. parse_front_matter L source = Some r \<and> (\<exists>r'. strip_front_matter L source = Some r')"
proof -
  obtain r where "parse_front_matter L source = Some r"
    using parse_front_matter_cases [of L "\<lambda>_. True" source] total.yaml_simple_value by auto
  then show ?thesis by (cases r) (simp_all add: strip_front_matter_def fm_bind_def fm_ret_def)
qed

text \<open>Front matter is a well-typed JSON value.  At every depth the keys of an object are strictly
  sorted, so none occurs twice, and every integer fits the integer types of the library, if that
  holds for what the library itself parses.\<close>

lemma front_matter_typed:
  assumes "parses_well_typed L" "parse_front_matter L source = Some (Inr doc)"
  shows "well_typed (pd_front_matter doc)"
  using parse_front_matter_cases [of L well_typed source] typed.yaml_simple_value [of L] assms
  by (auto simp: parses_well_typed_def)

definition no_json :: json_lib where
  "no_json = \<lparr>jl_to_cbor = (\<lambda>_. []), jl_from_cbor = (\<lambda>_. None), jl_dump = (\<lambda>_. None), jl_parse = (\<lambda>_. None)\<rparr>"

definition sample :: string where
  "sample = ''---'' @ NL # ''b: 7'' @ NL # ''a:'' @ NL # ''  - yes'' @ NL # ''  - x: -3'' @ NL # ''    y: [u, 2]'' @ NL # ''---'' @ [NL]"

lemma sample_front_matter:
  "parse_front_matter no_json sample = Some (Inr
     \<lparr>pd_front_matter = JObj
        [(''a'', JArr [JBool True, JObj [(''x'', JInt (- 3)), (''y'', JArr [JStr ''u'', JInt 2])]]), (''b'', JInt 7)],
      pd_body = ''-'' @ [NL], pd_has_front_matter = True\<rparr>)"
  by code_simp

lemma front_matter_typed_witness:
  "well_typed (JObj [(''a'', JArr [JBool True, JObj [(''x'', JInt (- 3)), (''y'', JArr [JStr ''u'', JInt 2])]]), (''b'', JInt 7)])"
proof -
  have "parses_well_typed no_json" by (simp add: parses_well_typed_def no_json_def)
  from front_matter_typed [OF this sample_front_matter] show ?thesis by simp
qed

section \<open>What is written is read back\<close>

text \<open>Trees of mappings, sequences and scalars, and their text with two blanks per level.\<close>

datatype yscalar = YInt int | YBool bool | YStr string
datatype yaml = YLeaf yscalar | YSeq "yscalar list" | YMap "(string \<times> yaml) list"

definition dq_char :: "char \<Rightarrow> string" where
  "dq_char c =
     (if c = NL then [CHR 0x5C, CHR ''n''] else if c = CHR 0x5C \<or> c = CHR 0x22 then [CHR 0x5C, c] else [c])"

fun show_scalar :: "yscalar \<Rightarrow> string" where
  "show_scalar (YInt i) = show_int i"
| "show_scalar (YBool b) = (if b then ''true'' else ''false'')"
| "show_scalar (YStr s) = CHR 0x22 # concat (map dq_char s) @ [CHR 0x22]"

fun scalar_json :: "yscalar \<Rightarrow> json" where
  "scalar_json (YInt i) = JInt i"
| "scalar_json (YBool b) = JBool b"
| "scalar_json (YStr s) = JStr s"

definition spaces :: "nat \<Rightarrow> string" where
  "spaces n = replicate n (CHR '' '')"

fun yaml_lines :: "nat \<Rightarrow> yaml \<Rightarrow> string list" where
  "yaml_lines n (YLeaf v) = []"
| "yaml_lines n (YSeq vs) = map (\<lambda>v. spaces n @ ''- '' @ show_scalar v) vs"
| "yaml_lines n (YMap kvs) = concat (map (\<lambda>(k, y).
     (spaces n @ k @ (case y of YLeaf v \<Rightarrow> '': '' @ show_scalar v | _ \<Rightarrow> '':'')) # yaml_lines (n + 2) y) kvs)"

fun yaml_json :: "yaml \<Rightarrow> json" where
  "yaml_json (YLeaf v) = scalar_json v"
| "yaml_json (YSeq vs) = JArr (map scalar_json vs)"
| "yaml_json (YMap kvs) = json_object (map (\<lambda>(k, y). (k, yaml_json y)) kvs)"

text \<open>Keys are words; integers fit \<open>long long\<close>; a sequence item has no colon, which would make it a
  mapping; and a collection is not empty.\<close>

definition word_key :: "string \<Rightarrow> bool" where
  "word_key k \<longleftrightarrow> k \<noteq> [] \<and> (\<forall>c\<in>set k. isalnum c \<or> c = CHR ''_'')"

fun scalar_ok :: "yscalar \<Rightarrow> bool" where
  "scalar_ok (YInt i) \<longleftrightarrow> in_int64 i"
| "scalar_ok v \<longleftrightarrow> True"

fun item_ok :: "yscalar \<Rightarrow> bool" where
  "item_ok (YStr s) \<longleftrightarrow> CHR '':'' \<notin> set s"
| "item_ok v \<longleftrightarrow> scalar_ok v"

fun yaml_ok :: "yaml \<Rightarrow> bool" where
  "yaml_ok (YLeaf v) \<longleftrightarrow> scalar_ok v"
| "yaml_ok (YSeq vs) \<longleftrightarrow> vs \<noteq> [] \<and> (\<forall>v\<in>set vs. item_ok v)"
| "yaml_ok (YMap kvs) \<longleftrightarrow> kvs \<noteq> [] \<and> (\<forall>(k, y)\<in>set kvs. word_key k \<and> yaml_ok y)"

subsection \<open>Scalars\<close>

lemma dq_unescape_plain: "c \<noteq> CHR 0x5C \<Longrightarrow> dq_unescape (c # cs) = c # dq_unescape cs"
  by (cases cs) simp_all

lemma dq_unescape_chars: "dq_unescape (concat (map dq_char s)) = s"
proof (induction s)
  case (Cons c s)
  show ?case
  proof (cases "c = NL \<or> c = CHR 0x5C \<or> c = CHR 0x22")
    case True
    with Cons show ?thesis by (auto simp: dq_char_def dq_escape_def NL_def)
  next
    case False
    with Cons show ?thesis by (simp add: dq_char_def dq_unescape_plain)
  qed
qed simp

text \<open>Texts that trimming keeps, on one line, that are no block marker.\<close>

definition plain_text :: "string \<Rightarrow> bool" where
  "plain_text s \<longleftrightarrow> s \<noteq> [] \<and> hd s \<notin> set ws_set \<and> last s \<notin> set ws_set \<and> NL \<notin> set s \<and> \<not> is_block_marker s"

lemma plain_text_trim: "plain_text s \<Longrightarrow> trim_ws s = s"
  by (simp add: plain_text_def trim_ws_id)

lemma digits_plain:
  assumes "list_all isdigit s" "s \<noteq> []"
  shows "set s \<inter> set ws_set = {} \<and> CHR '':'' \<notin> set s \<and> NL \<notin> set s \<and> hd s \<notin> set ''|>#-[{''"
  using assms by (cases s) (auto simp: list_all_iff ws_set_def NL_def isdigit_def byte_def)

lemma show_int_chars: "show_int i \<noteq> [] \<and> set (show_int i) \<inter> set ws_set = {} \<and> CHR '':'' \<notin> set (show_int i) \<and>
   NL \<notin> set (show_int i) \<and> hd (show_int i) \<notin> set ''|>#[{''"
  using digits_plain show_nat_digits by (auto simp: show_int_def ws_set_def NL_def)

lemma scalar_plain: "plain_text (show_scalar v)"
proof (cases v)
  case (YInt i)
  have "set (show_int i) \<inter> set ws_set = {}" "show_int i \<noteq> []" using show_int_chars [of i] by simp_all
  then have "hd (show_int i) \<notin> set ws_set" "last (show_int i) \<notin> set ws_set"
    by (meson disjoint_iff hd_in_set last_in_set)+
  then show ?thesis using YInt show_int_chars [of i] by (auto simp: plain_text_def is_block_marker_def)
next
  case (YStr s)
  then show ?thesis by (auto simp: plain_text_def ws_set_def NL_def is_block_marker_def dq_char_def)
qed (auto simp: plain_text_def ws_set_def NL_def is_block_marker_def)

lemma show_nat_hd: "hd (show_nat n) = CHR ''0'' \<Longrightarrow> n = 0"
proof (induction n rule: show_nat.induct)
  case (1 n)
  show ?case
  proof (cases "n < 10")
    case True
    with 1(2) have "byte (digit_char n) = 48" by (simp add: show_nat.simps [of n] byte_def)
    with True show ?thesis by (simp add: byte_digit_char)
  next
    case False
    with 1 show ?thesis using show_nat_digits [of "n div 10"] by (simp add: show_nat.simps [of n])
  qed
qed

lemma strtoll_digits:
  assumes "take_sign (dropWhile isspace s) = (neg, show_nat n)"
  shows "strtoll s = Some (if neg then - int n else int n, [])"
proof (cases "n = 0")
  case True
  moreover have "show_nat 0 = ''0''" by code_simp
  ultimately show ?thesis
    using assms by (simp add: strtoll_def isdigit_def byte_def digits_val_def digit_val_def)
next
  case False
  then have hd: "hd (show_nat n) \<noteq> CHR ''0''" using show_nat_hd by blast
  have tw: "takeWhile isdigit (show_nat n) = show_nat n" "dropWhile isdigit (show_nat n) = []"
    using show_nat_digits [of n] by (auto simp: list_all_iff takeWhile_eq_all_conv dropWhile_eq_Nil_conv)
  show ?thesis
    using assms show_nat_digits [of n] by (simp add: strtoll_def Let_def hd tw digits_val_10)
qed

lemma strtoll_show_int: "strtoll (show_int i) = Some (i, [])"
proof -
  have "take_sign (dropWhile isspace (show_int i)) = (i < 0, show_nat (nat \<bar>i\<bar>))"
    using take_sign_digits [of "show_nat (nat i)"] show_nat_digits [of "nat i"]
    by (cases "i < 0") (simp_all add: show_int_def take_sign_def [of "CHR ''-'' # _"] isspace_def byte_def)
  from strtoll_digits [OF this] show ?thesis by simp
qed

lemma parse_number_quoted: "parse_number (CHR 0x22 # s) = None"
proof -
  have "strtoll (CHR 0x22 # s) = None"
    by (simp add: strtoll_def take_sign_def isspace_def byte_def isdigit_def)
  moreover have "stod (CHR 0x22 # s) = None"
    by (simp add: stod_def strtod_def take_sign_def isspace_def byte_def read_decimal_def take_digits_def
        isdigit_def read_word_def same_word_def tolower_def isupper_def)
  ultimately show ?thesis by (simp add: parse_number_def stoll_def whole_def)
qed

lemma parse_value_scalar: "scalar_ok v \<Longrightarrow> parse_value L (show_scalar v) = scalar_json v"
proof (cases v)
  case (YInt i)
  assume "scalar_ok v"
  with YInt have "parse_number (show_int i) = Some (JInt i)"
    by (simp add: parse_number_def stoll_def strtoll_show_int whole_def)
  moreover have "c = CHR ''-'' \<or> isdigit c" if "c \<in> set (show_int i)" for c
    using that show_nat_digits by (auto simp: show_int_def list_all_iff split: if_splits)
  then have "hd (show_int i) = CHR ''-'' \<or> isdigit (hd (show_int i))" using show_int_chars [of i] by auto
  then have "show_int i \<notin> set (yaml_true @ yaml_false @ yaml_null)"
    by (auto simp: yaml_true_def yaml_false_def yaml_null_def isdigit_def byte_def)
  ultimately show ?thesis
    using show_int_chars [of i] plain_text_trim [OF scalar_plain [of v]] YInt
    by (subst parse_value.simps) simp
next
  case (YStr s)
  let ?t = "CHR 0x22 # concat (map dq_char s) @ [CHR 0x22]"
  have "?t \<notin> set (yaml_true @ yaml_false @ yaml_null)" by (auto simp: yaml_true_def yaml_false_def yaml_null_def)
  then show ?thesis
    using plain_text_trim [OF scalar_plain [of v]] YStr
    by (subst parse_value.simps) (simp add: parse_number_quoted inner_def substr_def dq_unescape_chars)
next
  case (YBool b)
  then show ?thesis using plain_text_trim [OF scalar_plain [of v]]
    by (subst parse_value.simps) (simp add: yaml_true_def yaml_false_def)
qed

subsection \<open>Lines\<close>

definition line_text :: "string \<Rightarrow> bool" where
  "line_text cs \<longleftrightarrow> cs \<noteq> [] \<and> hd cs \<notin> {CHR '' '', CHR 0x09, CHR ''#''}"

lemma line_simps:
  "line_text cs \<Longrightarrow> lstrip (spaces n @ cs) = cs \<and> measure_indent (spaces n @ cs) = n \<and> \<not> is_blank_or_comment (spaces n @ cs)"
  by (induction n; cases cs) (simp_all add: line_text_def lstrip_def is_blank_or_comment_def spaces_def)

lemma word_key_text:
  assumes "word_key k"
  shows "line_text (k @ r)" "take 2 (k @ r) \<noteq> ''- ''" "trim_ws k = k" "k \<noteq> []" "CHR '':'' \<notin> set k" "NL \<notin> set k"
proof -
  have c: "k \<noteq> []" "\<And>c. c \<in> set k \<Longrightarrow> isalnum c \<or> c = CHR ''_''" using assms by (auto simp: word_key_def)
  have no: "c \<notin> set k" if "\<not> isalnum c" "c \<noteq> CHR ''_''" for c using c(2) that by blast
  have "set k \<inter> set ws_set = {}" using no by (auto simp: ws_set_def ctype_defs isalnum_def isalpha_def)
  then show "trim_ws k = k" using c(1) by (intro trim_ws_id) (auto dest: hd_in_set last_in_set)
  show "k \<noteq> []" by fact
  show "CHR '':'' \<notin> set k" "NL \<notin> set k" by (rule no; simp add: NL_def isalnum_def isalpha_def ctype_defs)+
  have "hd k \<in> set k" using c(1) by simp
  moreover have "c \<notin> set k" if "c \<in> set '' -#'' \<or> c = CHR 0x09" for c
    using that by (intro no) (auto simp: isalnum_def isalpha_def ctype_defs)
  ultimately have "hd k \<notin> {CHR '' '', CHR ''-'', CHR ''#'', CHR 0x09}" by auto
  with c(1) show "line_text (k @ r)" "take 2 (k @ r) \<noteq> ''- ''" by (cases k; simp add: line_text_def)+
qed

lemma split_colon_key: "word_key k \<Longrightarrow> split_colon (k @ CHR '':'' # r) = Some (k, trim_ws r)"
proof -
  assume k: "word_key k"
  have "find_idx (\<lambda>x. x = CHR '':'') (k @ CHR '':'' # r) = Some (length k)"
    using word_key_text(5) [OF k] by (intro find_idx_prefix) auto
  then show ?thesis using word_key_text(3) [OF k] by (simp add: split_colon_def str_find_def)
qed

lemma trim_ws_blank [simp]: "trim_ws (CHR '' '' # s) = trim_ws s" "trim_ws [] = []"
  by (simp_all add: trim_ws_def ws_set_def)

lemma scalar_no_colon: "item_ok v \<Longrightarrow> CHR '':'' \<notin> set (show_scalar v)"
  using show_int_chars by (cases v) (auto simp: dq_char_def)

lemma item_scalar_ok: "item_ok v \<Longrightarrow> scalar_ok v"
  by (cases v) simp_all

text \<open>The line of an item, and the line of a key.\<close>

lemma item_line:
  assumes "item_ok v"
  shows "line_text (''- '' @ show_scalar v)" "mapping_item (show_scalar v) = None"
  using scalar_no_colon [OF assms]
  by (auto simp: line_text_def mapping_item_def split_colon_def str_find_def find_idx_None_iff)

definition ends_block :: "nat \<Rightarrow> string list \<Rightarrow> bool" where
  "ends_block base rest \<longleftrightarrow> rest = [] \<or> \<not> is_blank_or_comment (hd rest) \<and> measure_indent (hd rest) < base"

lemma seq_loop_ends: "ends_block base rest \<Longrightarrow> 0 < k \<Longrightarrow> seq_loop L yb base k rest arr = fm_ret (JArr arr, rest)"
  by (cases k; cases rest) (auto simp: ends_block_def)

lemma map_loop_ends: "ends_block base rest \<Longrightarrow> 0 < k \<Longrightarrow> map_loop L yb base k rest obj = fm_ret (JObj obj, rest)"
  by (cases k; cases rest) (auto simp: ends_block_def)

lemma seq_loop_items:
  "\<forall>v\<in>set vs. item_ok v \<Longrightarrow> length vs < k \<Longrightarrow> ends_block base rest \<Longrightarrow>
   seq_loop L yb base k (yaml_lines base (YSeq vs) @ rest) arr = fm_ret (JArr (arr @ map scalar_json vs), rest)"
proof (induction vs arbitrary: k arr)
  case Nil
  then show ?case by (simp add: seq_loop_ends)
next
  case (Cons v vs)
  then obtain k' where k: "k = Suc k'" by (cases k) simp_all
  have v: "item_ok v" using Cons.prems by simp
  note facts = line_simps [OF item_line(1) [OF v], of base] item_line(2) [OF v] plain_text_trim [OF scalar_plain [of v]]
    parse_value_scalar [OF item_scalar_ok [OF v]]
  have ne: "show_scalar v \<noteq> []" using scalar_plain [of v] by (simp add: plain_text_def)
  show ?case
    using Cons.IH [of k'] Cons.prems facts ne
    by (simp add: k is_item_def)
qed

lemma key_line:
  assumes "word_key k"
  shows "lstrip (spaces n @ k @ CHR '':'' # r) = k @ CHR '':'' # r" "measure_indent (spaces n @ k @ CHR '':'' # r) = n"
    "\<not> is_blank_or_comment (spaces n @ k @ CHR '':'' # r)" "\<not> is_item (spaces n @ k @ CHR '':'' # r)"
  using line_simps [OF word_key_text(1) [OF assms, of "CHR '':'' # r"], of n]
    word_key_text(2) [OF assms, of "CHR '':'' # r"]
  by (simp_all add: is_item_def)

text \<open>The first line of a collection.\<close>

lemma yaml_lines_hd:
  assumes "yaml_ok y" "\<forall>v. y \<noteq> YLeaf v"
  shows "\<exists>l ls. yaml_lines n y = l # ls \<and> \<not> is_blank_or_comment l \<and> measure_indent l = n \<and> (is_item l \<longleftrightarrow> (\<exists>vs. y = YSeq vs))"
proof (cases y)
  case (YSeq vs)
  with assms obtain v vs' where vs: "vs = v # vs'" "item_ok v" by (cases vs) auto
  then show ?thesis using line_simps [OF item_line(1) [OF vs(2)], of n] YSeq by (simp add: is_item_def)
next
  case (YMap kvs)
  with assms obtain k y' kvs' where kvs: "kvs = (k, y') # kvs'" "word_key k" by (cases kvs) auto
  then show ?thesis using key_line [OF kvs(2), of n] YMap by (cases y') simp_all
qed (use assms in simp)

lemma ends_block_lines:
  assumes "yaml_ok (YMap kvs) \<or> kvs = []" "ends_block base rest"
  shows "ends_block (base + 2) (yaml_lines base (YMap kvs) @ rest)"
proof (cases "kvs = []")
  case False
  with assms(1) yaml_lines_hd [of "YMap kvs" base] show ?thesis by (auto simp: ends_block_def simp del: yaml_lines.simps)
qed (use assms in \<open>auto simp: ends_block_def\<close>)

lemma map_loop_entries:
  assumes "\<And>k y rest. (k, y) \<in> set kvs \<Longrightarrow> \<forall>v. y \<noteq> YLeaf v \<Longrightarrow> ends_block (base + 2) rest \<Longrightarrow>
      length (yaml_lines (base + 2) y @ rest) < n \<Longrightarrow>
      yb (yaml_lines (base + 2) y @ rest) (base + 2) = fm_ret (yaml_json y, rest)"
    and "\<forall>(k, y)\<in>set kvs. word_key k \<and> yaml_ok y" "ends_block base rest"
    and "length (yaml_lines base (YMap kvs) @ rest) \<le> n" "length kvs < fuel"
  shows "map_loop L yb base fuel (yaml_lines base (YMap kvs) @ rest) obj =
    fm_ret (JObj (fold (\<lambda>(k, v). obj_set k v) (map (\<lambda>(k, y). (k, yaml_json y)) kvs) obj), rest)"
  using assms
proof (induction kvs arbitrary: fuel obj)
  case Nil
  then show ?case by (simp add: map_loop_ends)
next
  case (Cons kv kvs)
  obtain k y where kv: "kv = (k, y)" by (cases kv)
  from Cons.prems(5) obtain fuel' where fuel: "fuel = Suc fuel'" by (cases fuel) simp_all
  have ok: "word_key k" "yaml_ok y" "yaml_ok (YMap kvs) \<or> kvs = []" using Cons.prems(2) kv by auto
  let ?tail = "yaml_lines base (YMap kvs) @ rest"
  have ends: "ends_block (base + 2) ?tail" using ok(3) Cons.prems(3) by (rule ends_block_lines)
  have IH: "map_loop L yb base fuel' ?tail obj' =
      fm_ret (JObj (fold (\<lambda>(k, v). obj_set k v) (map (\<lambda>(k, y). (k, yaml_json y)) kvs) obj'), rest)" for obj'
    using Cons.prems kv fuel by (intro Cons.IH) (auto simp del: yaml_lines.simps(2))
  note key = key_line [OF ok(1), of base] split_colon_key [OF ok(1)] word_key_text(4) [OF ok(1)]
  show ?case
  proof (cases "\<exists>v. y = YLeaf v")
    case True
    then obtain v where y: "y = YLeaf v" by blast
    have v: "show_scalar v \<noteq> []" "\<not> is_block_marker (show_scalar v)" "trim_ws (show_scalar v) = show_scalar v"
      using scalar_plain [of v] plain_text_trim by (auto simp: plain_text_def)
    show ?thesis using y ok(2) v key IH by (simp add: kv fuel parse_value_scalar)
  next
    case False
    then have lines: "yaml_lines base (YMap ((k, y) # kvs)) @ rest =
        (spaces base @ k @ '':'') # yaml_lines (base + 2) y @ ?tail"
      by (cases y) simp_all
    obtain l ls where l: "yaml_lines (base + 2) y = l # ls" "measure_indent l = base + 2"
      using yaml_lines_hd [OF ok(2)] False by metis
    have "yb (yaml_lines (base + 2) y @ ?tail) (base + 2) = fm_ret (yaml_json y, ?tail)"
      using Cons.prems(4) False unfolding kv lines by (intro Cons.prems(1) ends) (auto simp: kv)
    then have "yb (l # ls @ ?tail) (base + 2) = fm_ret (yaml_json y, ?tail)" by (simp only: l append_Cons)
    moreover have "\<not> is_block_marker []" by (simp add: is_block_marker_def)
    ultimately show ?thesis
      unfolding kv lines l using key l(2) IH by (simp add: fuel)
  qed
qed

text \<open>A collection, printed at an indentation and followed by a line further left, is read back.\<close>

lemma parse_yaml_block_lines:
  "yaml_ok y \<Longrightarrow> \<forall>v. y \<noteq> YLeaf v \<Longrightarrow> ends_block base rest \<Longrightarrow> length (yaml_lines base y @ rest) < n \<Longrightarrow>
   parse_yaml_block L n (yaml_lines base y @ rest) base = fm_ret (yaml_json y, rest)"
proof (induction y arbitrary: base rest n)
  case (YSeq vs)
  obtain m where n: "n = Suc m" using YSeq.prems(4) by (cases n) simp_all
  have "starts_sequence base (yaml_lines base (YSeq vs) @ rest)"
    using yaml_lines_hd [OF YSeq.prems(1,2), of base] by auto
  then show ?case
    using seq_loop_items [of vs "Suc (length (yaml_lines base (YSeq vs) @ rest))" base rest L "parse_yaml_block L m" "[]"] YSeq.prems
    by (simp add: n parse_block_sequence_def del: seq_loop.simps)
next
  case (YMap kvs)
  obtain m where n: "n = Suc m" using YMap.prems(4) by (cases n) simp_all
  have "\<not> starts_sequence base (yaml_lines base (YMap kvs) @ rest)"
    using yaml_lines_hd [OF YMap.prems(1,2), of base] by auto
  moreover have "map_loop L (parse_yaml_block L m) base (Suc (length (yaml_lines base (YMap kvs) @ rest)))
      (yaml_lines base (YMap kvs) @ rest) [] = fm_ret (yaml_json (YMap kvs), rest)"
    unfolding yaml_json.simps json_object_def
  proof (rule map_loop_entries [where n = m])
    fix k y rest' assume a: "(k, y) \<in> set kvs" "\<forall>v. y \<noteq> YLeaf v" "ends_block (base + 2) rest'"
      "length (yaml_lines (base + 2) y @ rest') < m"
    have "yaml_ok y" using a(1) YMap.prems(1) by auto
    then show "parse_yaml_block L m (yaml_lines (base + 2) y @ rest') (base + 2) = fm_ret (yaml_json y, rest')"
      using YMap.IH a by auto
  next
    have "length kvs \<le> length (yaml_lines base (YMap kvs))" by (induction kvs) auto
    then show "length kvs < Suc (length (yaml_lines base (YMap kvs) @ rest))" by simp
  qed (use YMap.prems n in auto)
  ultimately show ?case by (simp add: n del: yaml_lines.simps)
qed simp

subsection \<open>Documents\<close>

definition fenced :: "yaml \<Rightarrow> string \<Rightarrow> string" where
  "fenced y body = ''---'' @ concat (map (\<lambda>l. NL # l) (yaml_lines 0 y)) @ NL # ''---'' @ NL # body"

text \<open>No line of a tree holds a newline, and none looks like a fence.\<close>

lemma yaml_lines_plain:
  "yaml_ok y \<Longrightarrow> l \<in> set (yaml_lines n y) \<Longrightarrow>
     NL \<notin> set l \<and> l \<noteq> [] \<and> (hd l = CHR ''-'' \<longrightarrow> n = 0 \<and> (\<exists>vs. y = YSeq vs))"
proof (induction y arbitrary: n l)
  case (YSeq vs)
  then show ?case using scalar_plain by (cases n) (auto simp: spaces_def plain_text_def NL_def)
next
  case (YMap kvs)
  then obtain k y where kv: "(k, y) \<in> set kvs" "word_key k" "yaml_ok y"
    and l: "l = spaces n @ k @ (case y of YLeaf v \<Rightarrow> '': '' @ show_scalar v | _ \<Rightarrow> '':'') \<or> l \<in> set (yaml_lines (n + 2) y)"
    by auto
  note key = word_key_text [OF kv(2)]
  have "hd k \<noteq> CHR ''-''" using kv(2) by (cases k) (auto simp: word_key_def ctype_defs isalnum_def isalpha_def)
  from l show ?case
  proof
    assume l: "l = spaces n @ k @ (case y of YLeaf v \<Rightarrow> '': '' @ show_scalar v | _ \<Rightarrow> '':'')"
    have "NL \<notin> set (case y of YLeaf v \<Rightarrow> '': '' @ show_scalar v | _ \<Rightarrow> '':'')"
      using scalar_plain by (cases y) (auto simp: plain_text_def NL_def)
    with l key \<open>hd k \<noteq> CHR ''-''\<close> show ?thesis by (cases n) (auto simp: spaces_def NL_def)
  next
    assume "l \<in> set (yaml_lines (n + 2) y)"
    with YMap.IH [OF kv(1), of y] kv(3) show ?thesis by auto
  qed
qed simp

lemma find_fence:
  "\<forall>l\<in>set ls. NL \<notin> set l \<and> l \<noteq> [] \<and> hd l \<noteq> CHR ''-'' \<Longrightarrow>
   find_sub (NL # ''---'') (concat (map (\<lambda>l. NL # l) ls) @ NL # ''---'' @ r) = Some (length (concat (map (\<lambda>l. NL # l) ls)))"
proof (induction ls)
  case (Cons l ls)
  let ?s = "concat (map (\<lambda>l. NL # l) ls) @ NL # ''---'' @ r"
  have skip: "find_sub (NL # ''---'') (p @ ?s) = Some (length p + i)"
    if "NL \<notin> set p" "find_sub (NL # ''---'') ?s = Some i" for p i
    using that by (induction p) auto
  obtain c cs where "l = c # cs" "c \<noteq> CHR ''-''" using Cons.prems by (cases l) auto
  then show ?case using Cons skip [of l] by simp
qed simp

lemma leading_blank: "parse_yaml_block L (Suc m) ([] # ls) base = parse_yaml_block L (Suc m) ls base"
proof -
  have "is_blank_or_comment []" by (simp add: is_blank_or_comment_def lstrip_def)
  then show ?thesis
    by (simp add: parse_block_sequence_def seq_loop.simps(2) [where k = "Suc _"] map_loop.simps(2) [where k = "Suc _"]
        del: seq_loop.simps map_loop.simps)
qed

lemma split_fenced:
  assumes "\<forall>l\<in>set ls. NL \<notin> set l \<and> l \<noteq> []"
  shows "split_char NL (concat (map (\<lambda>l. NL # l) ls)) = (if ls = [] then [] else [] # ls)"
proof -
  have "concat (map (\<lambda>l. NL # l) ls) = NL # join ls [NL]" if "ls \<noteq> []" for ls
    using that by (induction ls rule: induct_list012) simp_all
  moreover have "split_char NL (NL # join ls [NL]) = [] # split_char NL (join ls [NL])"
    using split_char_field [of NL "[]"] by simp
  moreover have "split_char NL (join ls [NL]) = ls" if "ls \<noteq> []"
    using assms that by (intro split_char_join) auto
  ultimately show ?thesis by (auto simp: split_char_Nil_iff)
qed

text \<open>C15: Front matter round trip, for the trees this reader can hold.  A tree is a mapping of any depth whose
  values are mappings, sequences and scalars; a sequence holds scalars only.  Mappings and sequences are
  not empty, keys are words of letters, digits and underscores, integers fit \<open>long long\<close>, scalars are
  integers, booleans and double-quoted strings; a string that is the value of a key may hold any byte, one in
  a sequence any byte but a colon.  Such a tree, printed with two blanks per level between two \<open>---\<close> lines, is read back as
  the same JSON value, the last of equal keys winning, whatever the JSON library does.  The body that is
  returned starts with the third dash of the closing fence, which the reader does not skip.  The examples
  under the defects below show how sequences of mappings, and colons in the strings of a sequence, are misread.\<close>

theorem front_matter_roundtrip:
  assumes "yaml_ok (YMap kvs)"
  shows "parse_front_matter L (fenced (YMap kvs) body) =
    fm_ret \<lparr>pd_front_matter = yaml_json (YMap kvs), pd_body = ''-'' @ NL # body, pd_has_front_matter = True\<rparr>"
proof -
  let ?ls = "yaml_lines 0 (YMap kvs)"
  let ?text = "concat (map (\<lambda>l. NL # l) ?ls)" and ?src = "fenced (YMap kvs) body"
  have ls: "\<forall>l\<in>set ?ls. NL \<notin> set l \<and> l \<noteq> [] \<and> hd l \<noteq> CHR ''-''" using yaml_lines_plain [OF assms] by blast
  have ne: "?ls \<noteq> []" using yaml_lines_hd [OF assms, of 0] by (auto simp del: yaml_lines.simps)
  have "closing_fence ?src = Some (3 + length ?text)"
    using find_fence [OF ls, of "NL # body"] by (simp add: closing_fence_def fenced_def del: yaml_lines.simps)
  moreover have "substr 3 (3 + length ?text - 3) ?src = ?text" by (simp add: substr_def fenced_def del: yaml_lines.simps)
  moreover have "body_from (3 + length ?text + 3) ?src = ''-'' @ NL # body"
  proof -
    let ?head = "''---'' @ ?text @ NL # ''--''"
    have "?src = ?head @ ''-'' @ NL # body" "3 + length ?text + 3 = length ?head"
      by (simp_all add: fenced_def del: yaml_lines.simps)
    moreover have "drop (length a) (a @ b) = b" for a b :: string by simp
    ultimately have "drop (3 + length ?text + 3) ?src = ''-'' @ NL # body" by (simp only:)
    then show ?thesis by (simp only: body_from_def Let_def) (simp add: NL_def)
  qed
  moreover have "parse_yaml_block L (Suc (length ([] # ?ls))) ([] # ?ls) 0 = fm_ret (yaml_json (YMap kvs), [])"
    using parse_yaml_block_lines [OF assms, of 0 "[]" "Suc (Suc (length ?ls))" L]
    by (simp add: leading_blank ends_block_def del: yaml_lines.simps yaml_json.simps parse_yaml_block.simps)
  then have "parse_yaml_simple L ?text = fm_ret (yaml_json (YMap kvs))"
    using split_fenced [of ?ls] ls ne by (simp add: parse_yaml_simple_def Let_def del: yaml_lines.simps yaml_json.simps parse_yaml_block.simps)
  moreover have "?src \<noteq> []" by (simp add: fenced_def)
  ultimately show ?thesis by (simp add: parse_front_matter_def del: yaml_lines.simps yaml_json.simps)
qed

definition demo_tree :: yaml where
  "demo_tree = YMap [(''title'', YLeaf (YStr [CHR ''a'', CHR '':'', CHR 0x22])), (''n'', YLeaf (YInt (- 5))),
     (''more'', YMap [(''tags'', YSeq [YBool True, YStr ''x''])])]"

lemma front_matter_roundtrip_witness:
  "parse_front_matter no_json
     (''---'' @ NL # ''title: '' @ [CHR 0x22, CHR ''a'', CHR '':'', CHR 0x5C, CHR 0x22, CHR 0x22] @ NL # ''n: -5'' @ NL #
      ''more:'' @ NL # ''  tags:'' @ NL # ''    - true'' @ NL # ''    - '' @ [CHR 0x22, CHR ''x'', CHR 0x22] @ NL #
      ''---'' @ NL # ''text'') =
    fm_ret \<lparr>pd_front_matter = JObj [(''more'', JObj [(''tags'', JArr [JBool True, JStr ''x''])]), (''n'', JInt (- 5)),
        (''title'', JStr [CHR ''a'', CHR '':'', CHR 0x22])],
      pd_body = ''-'' @ NL # ''text'', pd_has_front_matter = True\<rparr>"
proof -
  have "yaml_ok demo_tree" by code_simp
  note front_matter_roundtrip [OF this [unfolded demo_tree_def], of no_json "''text''", folded demo_tree_def]
  moreover have "fenced demo_tree ''text'' = ''---'' @ NL # ''title: '' @ [CHR 0x22, CHR ''a'', CHR '':'', CHR 0x5C, CHR 0x22, CHR 0x22] @
      NL # ''n: -5'' @ NL # ''more:'' @ NL # ''  tags:'' @ NL # ''    - true'' @ NL #
      ''    - '' @ [CHR 0x22, CHR ''x'', CHR 0x22] @ NL # ''---'' @ NL # ''text''"
    by code_simp
  moreover have "yaml_json demo_tree = JObj [(''more'', JObj [(''tags'', JArr [JBool True, JStr ''x''])]), (''n'', JInt (- 5)),
        (''title'', JStr [CHR ''a'', CHR '':'', CHR 0x22])]"
    by code_simp
  ultimately show ?thesis by simp
qed

section \<open>What the reader gets wrong\<close>

text \<open>A tab counts as two columns and is one byte: a block scalar whose lines start with two tabs and have
  one more byte makes \<open>substr\<close> throw, and the exception escapes.\<close>

lemma tab_throws:
  "parse_front_matter no_json (''---'' @ NL # ''a: |'' @ NL # [CHR 0x09, CHR 0x09, CHR ''x''] @ NL # ''---'' @ [NL]) =
     Some (Inl Out_of_range)"
  by code_simp

text \<open>Behind an empty value in a mapping item the reader skips a line that it has not read.\<close>

lemma empty_value_skips_line:
  "parse_yaml_simple no_json (''- a:'' @ NL # ''  b: 1'' @ NL # ''  c: 2'' @ [NL]) =
     fm_ret (JArr [JObj [(''a'', JStr []), (''c'', JInt 2)]])"
  by code_simp

text \<open>So does an item whose block stands on the following lines.\<close>

lemma nested_item_skips_line:
  "parse_yaml_simple no_json (''- a:'' @ NL # ''    x: 1'' @ NL # ''- b: 2'' @ NL # ''- c: 3'' @ [NL]) =
     fm_ret (JArr [JObj [(''a'', JObj [(''x'', JInt 1)])], JObj [(''c'', JInt 3)]])"
  by code_simp

text \<open>A colon inside a quoted item makes it a mapping, and a leading zero an octal number.\<close>

lemma quoted_colon_splits:
  "parse_yaml_simple no_json (''- '' @ CHR 0x22 # ''u: v'' @ [CHR 0x22]) =
     fm_ret (JArr [JObj [(CHR 0x22 # ''u'', JStr (''v'' @ [CHR 0x22]))]])"
  by code_simp

lemma leading_zero_octal: "parse_value no_json ''010'' = JInt 8"
  by code_simp

end
