(* ===== verification/Nift_Server.thy ===== *)
theory Nift_Server
  imports Nift_Filesystem "HOL-Library.Sublist" "HOL-Library.Word"
begin

text \<open>
  The development server, \<open>crates/server/http/http_server.cpp\<close>: the resolution of a request path to a file
  (\<open>validate_path\<close>, \<open>read_file_response\<close>, \<open>resolve_static\<close>), which is the server's only access check, the
  handlers, and the live-reload state.  \<open>std::filesystem::weakly_canonical\<close> is the parameter \<open>canon\<close>, which
  gives the components of the canonical path or fails; the routing and the sockets belong to the HTTP
  library.
\<close>

section \<open>Request paths\<close>

text \<open>The lambda \<open>hex\<close>; \<open>None\<close> is its \<open>-1\<close>.\<close>

definition hex_value :: "char \<Rightarrow> nat option" where
  "hex_value c =
     (if isdigit c then Some (byte c - 48)
      else if 97 \<le> byte c \<and> byte c \<le> 102 then Some (byte c - 87)
      else if 65 \<le> byte c \<and> byte c \<le> 70 then Some (byte c - 55)
      else None)"

text \<open>\<open>None\<close> is the rejection of an encoded NUL; an invalid escape stays as it is.\<close>

fun percent_decode :: "string \<Rightarrow> string option" where
  "percent_decode (c # h # l # cs) =
     (case (if c = CHR ''%'' then hex_value h else None, hex_value l) of
        (Some hi, Some lo) \<Rightarrow>
          if hi * 16 + lo = 0 then None else map_option ((#) (char_of (hi * 16 + lo))) (percent_decode cs)
      | _ \<Rightarrow> map_option ((#) c) (percent_decode (h # l # cs)))"
| "percent_decode (c # cs) = map_option ((#) c) (percent_decode cs)"
| "percent_decode [] = Some []"

definition is_sep :: "char \<Rightarrow> bool" where
  "is_sep c \<longleftrightarrow> c = CHR ''/'' \<or> c = CHR 0x5C"

text \<open>Does the path have a segment \<open>..\<close>?  \<open>seg\<close> is the segment read so far.\<close>

fun has_dotdot :: "string \<Rightarrow> string \<Rightarrow> bool" where
  "has_dotdot seg [] \<longleftrightarrow> seg = ''..''"
| "has_dotdot seg (c # cs) \<longleftrightarrow>
     (if is_sep c then seg = ''..'' \<or> has_dotdot [] cs else has_dotdot (seg @ [c]) cs)"

definition validate_path :: "string \<Rightarrow> string option" where
  "validate_path url_path =
     (if url_path = [] \<or> hd url_path \<noteq> CHR ''/'' then None
      else let url_path = takeWhile (\<lambda>c. c \<noteq> CHR ''?'') url_path in
        if NUL \<in> set url_path then None
        else case percent_decode url_path of
          None \<Rightarrow> None
        | Some decoded \<Rightarrow> if has_dotdot [] decoded then None else Some decoded)"

definition url_extension :: "string \<Rightarrow> string" where
  "url_extension url_path =
     (if CHR ''.'' \<in> set url_path then CHR ''.'' # rev (takeWhile (\<lambda>c. c \<noteq> CHR ''.'') (rev url_path)) else [])"

definition resolve_mime :: "string \<Rightarrow> string" where
  "resolve_mime url_path =
     (let ext = url_extension url_path in
      if ext = ''.html'' \<or> ext = ''.htm'' then ''text/html; charset=utf-8''
      else if ext = ''.css'' then ''text/css; charset=utf-8''
      else if ext = ''.js'' then ''application/javascript; charset=utf-8''
      else if ext = ''.json'' then ''application/json; charset=utf-8''
      else if ext = ''.png'' then ''image/png''
      else if ext = ''.jpg'' \<or> ext = ''.jpeg'' then ''image/jpeg''
      else if ext = ''.svg'' then ''image/svg+xml''
      else if ext = ''.ico'' then ''image/x-icon''
      else if ext = ''.webp'' then ''image/webp''
      else if ext = ''.woff2'' then ''font/woff2''
      else if ext = ''.txt'' then ''text/plain; charset=utf-8''
      else ''application/octet-stream'')"

section \<open>Reading the file\<close>

type_synonym canonical = "string \<Rightarrow> string list option"

definition candidate_file :: "string \<Rightarrow> fs \<Rightarrow> string option" where
  "candidate_file fs_path d =
     (if file_exists fs_path d then Some fs_path
      else if file_exists (fs_path @ ''.html'') d then Some (fs_path @ ''.html'')
      else None)"

definition contained :: "canonical \<Rightarrow> string \<Rightarrow> string \<Rightarrow> bool" where
  "contained canon root candidate =
     (case (canon root, canon candidate) of
        (Some r, Some c) \<Rightarrow> length r \<le> length c \<and> take (length r) c = r
      | _ \<Rightarrow> False)"

definition read_file_response :: "canonical \<Rightarrow> string \<Rightarrow> string \<Rightarrow> fs \<Rightarrow> string option" where
  "read_file_response canon root url_path d =
     (case candidate_file (root @ url_path) d of
        None \<Rightarrow> None
      | Some candidate \<Rightarrow>
          if contained canon root candidate
          then (case read_file candidate d of Inl e \<Rightarrow> None | Inr content \<Rightarrow> Some content)
          else None)"

definition resolve_static :: "canonical \<Rightarrow> string \<Rightarrow> string \<Rightarrow> fs \<Rightarrow> (string \<times> string) option" where
  "resolve_static canon root url_path d =
     (case validate_path url_path of
        None \<Rightarrow> None
      | Some url_path \<Rightarrow>
          let url_path = (if last url_path = CHR ''/'' then url_path @ ''index.html'' else url_path)
          in map_option (\<lambda>body. (body, resolve_mime url_path)) (read_file_response canon root url_path d))"

section \<open>Handlers\<close>

record server_config =
  sc_host :: string
  sc_port :: "16 word"
  sc_root :: string
  sc_inject_livereload :: bool
  sc_script_path :: string
  sc_token_path :: string

definition default_server_config :: server_config where
  "default_server_config = \<lparr>sc_host = ''127.0.0.1'', sc_port = 8080, sc_root = [], sc_inject_livereload = True,
     sc_script_path = ''/__nift/livereload.js'', sc_token_path = ''/__nift/livereload''\<rparr>"

text \<open>The position of the first \<open>needle\<close>, in any case of the letters.\<close>

fun find_ci :: "string \<Rightarrow> string \<Rightarrow> nat option" where
  "find_ci needle haystack =
     (if length haystack < length needle then None
      else if map tolower (take (length needle) haystack) = map tolower needle then Some 0
      else (case haystack of [] \<Rightarrow> None | c # cs \<Rightarrow> map_option Suc (find_ci needle cs)))"

declare find_ci.simps [simp del]

definition livereload_tag :: "string \<Rightarrow> string" where
  "livereload_tag script_path = ''<script src='' @ CHR 0x22 # script_path @ CHR 0x22 # ''></script>''"

definition inject_livereload_script :: "string \<Rightarrow> string \<Rightarrow> string" where
  "inject_livereload_script html script_path =
     (case find_ci ''</body>'' html of
        None \<Rightarrow> html
      | Some pos \<Rightarrow> take pos html @ livereload_tag script_path @ drop pos html)"

record response =
  rs_status :: nat
  rs_body :: string
  rs_type :: string

definition static_handler :: "canonical \<Rightarrow> server_config \<Rightarrow> string \<Rightarrow> fs \<Rightarrow> response" where
  "static_handler canon config url_path d =
     (case resolve_static canon (sc_root config) url_path d of
        None \<Rightarrow> \<lparr>rs_status = 404, rs_body = ''Not Found'', rs_type = ''text/plain''\<rparr>
      | Some (body, mime) \<Rightarrow>
          \<lparr>rs_status = 200,
           rs_body = (if sc_inject_livereload config \<and> find_sub ''text/html'' mime \<noteq> None
                      then inject_livereload_script body (sc_script_path config) else body),
           rs_type = mime\<rparr>)"

text \<open>The reload script: an event stream, or polling when the browser has none or it fails.\<close>

definition livereload_js :: "server_config \<Rightarrow> string" where
  "livereload_js config =
     (let quote = [CHR 0x27] in
      ''(function(){var useSSE=false;function trySSE(){try{'' @
      ''var es=new EventSource('' @ quote @ sc_token_path config @ quote @ '');'' @
      ''es.onmessage=function(){window.location.reload();};'' @
      ''es.onerror=function(){es.close();tryPoll();};'' @
      ''useSSE=true;}catch(e){tryPoll();}}'' @
      ''function tryPoll(){var last=null;function poll(){fetch('' @ quote @ sc_token_path config @
      ''/poll'' @ quote @ '',{cache:'' @ quote @ ''no-store'' @ quote @ ''})'' @
      ''.then(function(r){return r.text();}).then(function(t){'' @
      ''if(last===null){last=t;return;}if(t!==last)window.location.reload();})'' @
      ''.catch(function(){});}setInterval(poll,500);poll();}'' @
      ''trySSE();})();'')"

definition script_handler :: "server_config \<Rightarrow> response" where
  "script_handler config = \<lparr>rs_status = 200, rs_body = livereload_js config, rs_type = ''application/javascript''\<rparr>"

section \<open>The server\<close>

text \<open>
  The atomics and the list of event-stream sinks, which the handlers register by address.
  \<open>hs_live\<close> is ghost state: the sinks whose connection handler is still running.
\<close>

record http_server =
  hs_config :: server_config
  hs_running :: bool
  hs_generation :: "64 word"
  hs_bound_port :: "16 word"
  hs_clients :: "nat list"
  hs_live :: "nat set"

definition new_server :: "server_config \<Rightarrow> http_server" where
  "new_server config = \<lparr>hs_config = config, hs_running = False, hs_generation = 0, hs_bound_port = 0,
     hs_clients = [], hs_live = {}\<rparr>"

text \<open>\<open>bind\<close> is the answer of the system: the port, or a negative number.\<close>

definition server_start :: "(string \<Rightarrow> 16 word \<Rightarrow> int) \<Rightarrow> http_server \<Rightarrow> unit result \<times> http_server" where
  "server_start bind s =
     (if hs_running s then (Inr (), s)
      else let port = sc_port (hs_config s);
               answer = bind (sc_host (hs_config s)) port;
               actual_port = (if port = 0 then answer else if 0 \<le> answer then uint port else - 1)
        in if actual_port < 0 then (Inl io_error, s)
           else (Inr (), s\<lparr>hs_bound_port := word_of_int actual_port, hs_running := True\<rparr>))"

definition server_stop :: "http_server \<Rightarrow> http_server" where
  "server_stop s = (if hs_running s then s\<lparr>hs_running := False\<rparr> else s)"

text \<open>A client of the event stream connects; its handler ends when the client is gone.\<close>

definition sse_connect :: "nat \<Rightarrow> http_server \<Rightarrow> http_server" where
  "sse_connect sink s = s\<lparr>hs_clients := hs_clients s @ [sink], hs_live := insert sink (hs_live s)\<rparr>"

definition sse_disconnect :: "nat \<Rightarrow> http_server \<Rightarrow> http_server" where
  "sse_disconnect sink s = s\<lparr>hs_live := hs_live s - {sink}\<rparr>"

text \<open>\<open>writes\<close> tells which sinks take the event; the others are dropped.  The first component lists the
  sinks that are written to.\<close>

definition push_reload_event :: "(nat \<Rightarrow> bool) \<Rightarrow> http_server \<Rightarrow> nat list \<times> http_server" where
  "push_reload_event writes s =
     (hs_clients s, s\<lparr>hs_clients := filter (\<lambda>c. c \<notin> set (filter (\<lambda>c. \<not> writes c) (hs_clients s))) (hs_clients s)\<rparr>)"

definition notify_rebuild :: "(nat \<Rightarrow> bool) \<Rightarrow> http_server \<Rightarrow> nat list \<times> http_server" where
  "notify_rebuild writes s = push_reload_event writes (s\<lparr>hs_generation := hs_generation s + 1\<rparr>)"

definition poll_handler :: "http_server \<Rightarrow> response" where
  "poll_handler s = \<lparr>rs_status = 200, rs_body = show_nat (unat (hs_generation s)), rs_type = ''text/plain''\<rparr>"

section \<open>No request leaves the root\<close>

text \<open>The segments of a path between the separators, and the walk along them from a directory, as the
  system takes it in the absence of symbolic links.\<close>

fun segments :: "(char \<Rightarrow> bool) \<Rightarrow> string \<Rightarrow> string \<Rightarrow> string list" where
  "segments sep seg [] = [seg]"
| "segments sep seg (c # cs) =
     (if sep c then seg # segments sep [] cs else segments sep (seg @ [c]) cs)"

fun walk :: "string list \<Rightarrow> string list \<Rightarrow> string list" where
  "walk dir [] = dir"
| "walk dir (seg # segs) =
     walk (if seg = [] \<or> seg = ''.'' then dir else if seg = ''..'' then butlast dir else dir @ [seg]) segs"

lemma has_dotdot_segments: "has_dotdot seg p \<longleftrightarrow> ''..'' \<in> set (segments is_sep seg p)"
  by (induction seg p rule: has_dotdot.induct) auto

text \<open>A segment between slashes is one of the finer segments or holds a backslash.\<close>

lemma slash_segments:
  "seg = seg' \<or> CHR 0x5C \<in> set seg \<Longrightarrow>
     set (segments (\<lambda>c. c = CHR ''/'') seg p) \<subseteq> set (segments is_sep seg' p) \<union> {s. CHR 0x5C \<in> set s}"
proof (induction p arbitrary: seg seg')
  case (Cons c p)
  consider "c = CHR ''/''" | "c = CHR 0x5C" | "\<not> is_sep c" by (auto simp: is_sep_def)
  then show ?case
  proof cases
    case 1
    with Cons.IH [of "[]" "[]"] Cons.prems show ?thesis by (auto simp: is_sep_def)
  next
    case 2
    with Cons.IH [of "seg @ [c]" "[]"] show ?thesis by (auto simp: is_sep_def)
  next
    case 3
    with Cons.IH [of "seg @ [c]" "seg' @ [c]"] Cons.prems show ?thesis by (auto simp: is_sep_def)
  qed
qed auto

lemma walk_down: "''..'' \<notin> set segs \<Longrightarrow> walk dir segs = dir @ filter (\<lambda>s. s \<noteq> [] \<and> s \<noteq> ''.'') segs"
  by (induction segs arbitrary: dir) auto

lemma segments_not_Nil: "segments sep seg p \<noteq> []"
  by (induction p arbitrary: seg) auto

lemma segments_plain: "\<forall>c\<in>set q. \<not> sep c \<Longrightarrow> segments sep seg q = [seg @ q]"
  by (induction q arbitrary: seg) auto

lemma segments_append:
  "\<forall>c\<in>set q. \<not> sep c \<Longrightarrow> segments sep seg (p @ q) = butlast (segments sep seg p) @ [last (segments sep seg p) @ q]"
  by (induction p arbitrary: seg) (auto simp: segments_plain segments_not_Nil)

lemma dotdot_append:
  assumes "\<not> has_dotdot [] p" "\<forall>c\<in>set q. \<not> is_sep c" "\<forall>s. s @ q \<noteq> ''..''"
  shows "\<not> has_dotdot [] (p @ q)"
  using assms by (auto simp: has_dotdot_segments segments_append dest: in_set_butlastD)

lemma percent_decode_NUL: "percent_decode s = Some r \<Longrightarrow> NUL \<notin> set s \<Longrightarrow> NUL \<notin> set r"
proof (induction s arbitrary: r rule: percent_decode.induct)
  case (1 c h l cs)
  show ?case
  proof (cases "\<exists>hi lo. c = CHR ''%'' \<and> hex_value h = Some hi \<and> hex_value l = Some lo")
    case True
    then obtain hi lo where x: "c = CHR ''%''" "hex_value h = Some hi" "hex_value l = Some lo" by blast
    then have "hi < 16" "lo < 16" by (auto simp: hex_value_def isdigit_def split: if_splits)
    then have "char_of (hi * 16 + lo) \<noteq> NUL" if "hi * 16 + lo \<noteq> 0"
      using that by (auto simp: NUL_def char_of_eq_iff take_bit_eq_mod)
    then show ?thesis using 1 x by (auto split: if_splits)
  next
    case False
    then show ?thesis using 1 by (auto split: option.splits if_splits)
  qed
qed auto

lemma validate_path_SomeD:
  assumes "validate_path url = Some p"
  shows "p \<noteq> []" "hd p = CHR ''/''" "NUL \<notin> set p" "\<not> has_dotdot [] p"
proof -
  let ?u = "takeWhile (\<lambda>c. c \<noteq> CHR ''?'') url"
  have u: "url \<noteq> []" "hd url = CHR ''/''" "NUL \<notin> set ?u" "percent_decode ?u = Some p" "\<not> has_dotdot [] p"
    using assms by (auto simp: validate_path_def Let_def split: if_splits option.splits)
  then obtain cs where cs: "?u = CHR ''/'' # cs" by (cases url) auto
  have "p \<noteq> [] \<and> hd p = CHR ''/''"
    using u(4) unfolding cs by (cases cs; cases "tl cs") (auto split: option.splits)
  then show "p \<noteq> []" "hd p = CHR ''/''" by auto
  show "NUL \<notin> set p" using percent_decode_NUL [OF u(4) u(3)] .
  show "\<not> has_dotdot [] p" by (rule u(5))
qed

lemma served_file:
  assumes "resolve_static canon root url d = Some (body, mime)"
  obtains p where "read_file (root @ p) d = Inr body" "contained canon root (root @ p)" "p \<noteq> []" "hd p = CHR ''/''"
    "NUL \<notin> set p" "\<not> has_dotdot [] p"
proof -
  from assms obtain u where u: "validate_path url = Some u"
    and r: "read_file_response canon root (if last u = CHR ''/'' then u @ ''index.html'' else u) d = Some body"
    by (auto simp: resolve_static_def Let_def split: option.splits)
  note v = validate_path_SomeD [OF u]
  define w where "w = (if last u = CHR ''/'' then u @ ''index.html'' else u)"
  have w: "w \<noteq> []" "hd w = CHR ''/''" "NUL \<notin> set w" "\<not> has_dotdot [] w"
    using v dotdot_append [OF v(4), of "''index.html''"] by (auto simp: w_def NUL_def is_sep_def)
  have html: "\<not> has_dotdot [] (w @ ''.html'')" "NUL \<notin> set (w @ ''.html'')"
    using w dotdot_append [OF w(4), of "''.html''"] by (auto simp: NUL_def is_sep_def)
  from r obtain c where "candidate_file (root @ w) d = Some c" "contained canon root c" "read_file c d = Inr body"
    by (auto simp: read_file_response_def w_def split: option.splits if_splits sum.splits)
  moreover from this have "c = root @ w \<or> c = root @ w @ ''.html''"
    by (auto simp: candidate_file_def split: if_splits)
  ultimately show ?thesis using that [of w] that [of "w @ ''.html''"] w html by auto
qed

text \<open>C8: The server gives out no file outside its root.  Whatever the request, percent-encoded or not,
  a body that is served is the content of a file \<open>root @ p\<close> whose canonical path lies below that of the
  root; \<open>p\<close> holds no NUL and no \<open>..\<close> segment, with \<open>/\<close> or with both separators, so that the walk along \<open>p\<close>
  from any directory stays below that directory.\<close>

theorem served_file_contained:
  assumes "resolve_static canon root url d = Some (body, mime)"
  shows "\<exists>p. read_file (root @ p) d = Inr body \<and>
    (\<exists>r c. canon root = Some r \<and> canon (root @ p) = Some c \<and> prefix r c) \<and>
    NUL \<notin> set p \<and> ''..'' \<notin> set (segments is_sep [] p) \<and>
    (\<forall>dir. prefix dir (walk dir (segments (\<lambda>c. c = CHR ''/'') [] p)))"
proof -
  obtain p where p: "read_file (root @ p) d = Inr body" "contained canon root (root @ p)" "NUL \<notin> set p" "\<not> has_dotdot [] p"
    using served_file [OF assms] by metis
  have fine: "''..'' \<notin> set (segments is_sep [] p)" using p(4) by (simp add: has_dotdot_segments)
  with slash_segments [of "[]" "[]" p] have "''..'' \<notin> set (segments (\<lambda>c. c = CHR ''/'') [] p)" by auto
  then have "prefix dir (walk dir (segments (\<lambda>c. c = CHR ''/'') [] p))" for dir by (simp add: walk_down)
  moreover have "\<exists>r c. canon root = Some r \<and> canon (root @ p) = Some c \<and> prefix r c"
    using p(2) by (auto simp: contained_def split: option.splits) (metis append_take_drop_id prefixI)
  ultimately show ?thesis using p(1,3) fine by blast
qed

definition hex_digit :: "nat \<Rightarrow> char" where
  "hex_digit n = char_of (if n < 10 then 48 + n else 55 + n)"

text \<open>A path with the bytes in \<open>P\<close> percent-encoded.\<close>

definition percent_encode :: "(char \<Rightarrow> bool) \<Rightarrow> string \<Rightarrow> string" where
  "percent_encode P s = concat (map (\<lambda>c. if P c
     then [CHR ''%'', hex_digit (byte c div 16), hex_digit (byte c mod 16)] else [c]) s)"

lemma hex_value_digit: "n < 16 \<Longrightarrow> hex_value (hex_digit n) = Some n"
  by (auto simp: hex_value_def hex_digit_def isdigit_def byte_def of_char_of)

lemma percent_decode_plain: "c \<noteq> CHR ''%'' \<Longrightarrow> percent_decode (c # cs) = map_option ((#) c) (percent_decode cs)"
  by (cases cs; cases "tl cs") (auto split: option.split)

lemma byte_less: "byte c < 256"
  by (simp add: byte_def)

lemma percent_decode_encode:
  "P (CHR ''%'') \<Longrightarrow> NUL \<notin> set s \<Longrightarrow> percent_decode (percent_encode P s) = Some s"
proof (induction s)
  case (Cons c s)
  let ?n = "byte c"
  have "?n div 16 < 16" "?n mod 16 < 16" using byte_less [of c] by auto
  moreover have "?n div 16 * 16 + ?n mod 16 = ?n" by simp
  moreover have c: "char_of ?n = c" by (simp add: byte_def)
  moreover have "?n \<noteq> 0"
  proof
    assume "?n = 0"
    moreover have "char_of (0 :: nat) = NUL" by code_simp
    ultimately have "c = NUL" using c by metis
    with Cons.prems show False by simp
  qed
  moreover have "c \<noteq> CHR ''%''" if "\<not> P c" using that Cons.prems by auto
  ultimately show ?case
    using Cons
    by (cases "P c") (simp_all add: percent_encode_def hex_value_digit percent_decode_plain del: div_mult_mod_eq)
qed (simp add: percent_encode_def)

lemma encoded_path_served_rule:
  assumes P: "P (CHR ''%'')" "P (CHR ''?'')" and query: "query = [] \<or> hd query = CHR ''?''"
    and path: "NUL \<notin> set cs" "\<not> has_dotdot [] (CHR ''/'' # cs)"
    and target: "target = (if last (CHR ''/'' # cs) = CHR ''/'' then CHR ''/'' # cs @ ''index.html'' else CHR ''/'' # cs)"
    and content: "fs_tree d (root @ target) = Some (File content)" "\<not> fs_deny_read d (root @ target)"
      "contained canon root (root @ target)"
  shows "resolve_static canon root (CHR ''/'' # percent_encode P cs @ query) d = Some (content, resolve_mime target)"
proof -
  have no: "c \<noteq> CHR ''?'' \<and> c \<noteq> NUL" if "c \<in> set (percent_encode P cs)" for c
  proof -
    have "hex_digit n \<noteq> CHR ''?'' \<and> hex_digit n \<noteq> NUL" if "n < 16" for n
      using hex_value_digit [OF that] by (auto simp: hex_value_def isdigit_def byte_def NUL_def)
    moreover have "byte x div 16 < 16" "byte x mod 16 < 16" for x using byte_less [of x] by auto
    ultimately show ?thesis using that P(2) path(1) by (auto simp: percent_encode_def NUL_def split: if_splits)
  qed
  have "takeWhile (\<lambda>c. c \<noteq> CHR ''?'') (percent_encode P cs @ query) = percent_encode P cs"
    using no query by (cases query) (auto simp: takeWhile_append)
  then have "validate_path (CHR ''/'' # percent_encode P cs @ query) = Some (CHR ''/'' # cs)"
    using no path by (auto simp: validate_path_def NUL_def percent_decode_plain percent_decode_encode P)
  moreover have "read_file (root @ target) d = Inr content" "file_exists (root @ target) d"
    using content(1,2) by (simp_all add: read_file_def file_exists_def)
  then have "read_file_response canon root target d = Some content"
    using content(3) by (simp add: read_file_response_def candidate_file_def)
  ultimately show ?thesis
    unfolding resolve_static_def target by (cases "last (CHR ''/'' # cs) = CHR ''/''") (simp_all only: Let_def option.case if_True if_False append_Cons option.map)
qed

text \<open>A path without special bytes is its own encoding.\<close>

lemma plain_path_served:
  assumes "\<forall>c\<in>set cs. c \<noteq> CHR ''%'' \<and> c \<noteq> CHR ''?'' \<and> c \<noteq> NUL \<and> \<not> is_sep c" "cs \<noteq> []" "cs \<noteq> ''..''"
    and "fs_tree d (root @ CHR ''/'' # cs) = Some (File content)" "\<not> fs_deny_read d (root @ CHR ''/'' # cs)"
      "contained canon root (root @ CHR ''/'' # cs)"
  shows "resolve_static canon root (CHR ''/'' # cs) d = Some (content, resolve_mime (CHR ''/'' # cs))"
proof -
  let ?P = "\<lambda>c. c = CHR ''%'' \<or> c = CHR ''?''"
  have e: "percent_encode ?P cs = cs" using assms(1) unfolding percent_encode_def by (induction cs) auto
  have "segments is_sep [] cs = [cs]" using segments_plain [of cs is_sep "[]"] assms(1) by auto
  then have "\<not> has_dotdot [] (CHR ''/'' # cs)" using assms(3) by (simp add: has_dotdot_segments is_sep_def)
  moreover have "last (CHR ''/'' # cs) \<noteq> CHR ''/''" using assms(1,2) last_in_set [of cs] by (auto simp: is_sep_def)
  ultimately show ?thesis
    using encoded_path_served_rule [of ?P "[]" cs "CHR ''/'' # cs" d root content canon] assms(1,4-6) by (auto simp: e)
qed

text \<open>Every file below the root can be fetched.  For a path without NUL and \<open>..\<close> segment, encoded
  in any way that encodes \<open>%\<close> and \<open>?\<close>, with or without a query, the server answers with the content of the
  file, or of the directory's \<open>index.html\<close> when the path ends with a slash.\<close>

lemma encoded_path_served:
  assumes P: "P (CHR ''%'')" "P (CHR ''?'')" and query: "query = [] \<or> hd query = CHR ''?''"
    and path: "NUL \<notin> set cs" "\<not> has_dotdot [] (CHR ''/'' # cs)"
    and target: "target = (if last (CHR ''/'' # cs) = CHR ''/'' then CHR ''/'' # cs @ ''index.html'' else CHR ''/'' # cs)"
    and content: "fs_tree d (root @ target) = Some (File content)" "\<not> fs_deny_read d (root @ target)"
      "contained canon root (root @ target)"
  shows "resolve_static canon root (CHR ''/'' # percent_encode P cs @ query) d = Some (content, resolve_mime target)"
  by (rule encoded_path_served_rule [OF assms])

definition demo_site :: fs where
  "demo_site = \<lparr>fs_tree = [''out/a b.css'' \<mapsto> File ''p{}'', ''out/about.html'' \<mapsto> File ''<BODY>x</Body>''],
     fs_deny_read = (\<lambda>_. False), fs_deny_write = (\<lambda>_. False)\<rparr>"

definition lexical_canon :: canonical where
  "lexical_canon p = Some (walk [] (segments (\<lambda>c. c = CHR ''/'') [] p))"

lemma encoded_path_served_witness:
  "resolve_static lexical_canon ''out'' ''/%61%20b.css?v=2'' demo_site = Some (''p{}'', ''text/css; charset=utf-8'')"
proof -
  have "contained lexical_canon ''out'' ''out/a b.css''" "\<not> has_dotdot [] ''/a b.css''" by code_simp+
  moreover have "percent_encode (\<lambda>c. c \<in> set ''%?a '') ''a b.css'' = ''%61%20b.css''"
    "resolve_mime ''/a b.css'' = ''text/css; charset=utf-8''"
    by code_simp+
  ultimately show ?thesis
    using encoded_path_served [of "\<lambda>c. c \<in> set ''%?a ''" "''?v=2''" "''a b.css''" "''/a b.css''" demo_site "''out''" "''p{}''" lexical_canon]
    by (simp add: demo_site_def NUL_def)
qed

lemma served_file_contained_witness:
  "\<exists>p. read_file (''out'' @ p) demo_site = Inr ''p{}''"
proof -
  have "resolve_static lexical_canon ''out'' ''/a%20b.css'' demo_site = Some (''p{}'', ''text/css; charset=utf-8'')" by code_simp
  from served_file_contained [OF this] show ?thesis by blast
qed

text \<open>An encoded traversal is refused, with either separator.\<close>

lemma traversal_refused:
  "resolve_static lexical_canon ''out'' ''/x/%2e%2E/%2e./secret'' demo_site = None"
  "resolve_static lexical_canon ''out'' ''/..%5csecret'' demo_site = None"
  by code_simp+

text \<open>A clean URL serves the page behind it with the type of the URL, which has no extension: the
  browser gets \<open>application/octet-stream\<close>, and no reload script is injected.\<close>

lemma clean_url_octet_stream:
  "static_handler lexical_canon (default_server_config\<lparr>sc_root := ''out''\<rparr>) ''/about'' demo_site =
     \<lparr>rs_status = 200, rs_body = ''<BODY>x</Body>'', rs_type = ''application/octet-stream''\<rparr>"
  by code_simp

section \<open>Live reload\<close>

text \<open>The tag goes before the first closing body tag, and nothing else changes.\<close>

lemma find_ci_SomeD:
  "find_ci needle s = Some i \<Longrightarrow> i + length needle \<le> length s \<and> map tolower (take (length needle) (drop i s)) = map tolower needle"
proof (induction needle s arbitrary: i rule: find_ci.induct)
  case (1 needle s)
  then show ?case
    by (subst (asm) (2) find_ci.simps) (auto split: if_splits list.splits)
qed

lemma inject_livereload:
  "inject_livereload_script html path = html \<or>
   (\<exists>pre close post. html = pre @ close @ post \<and> map tolower close = ''</body>'' \<and>
      inject_livereload_script html path = pre @ livereload_tag path @ close @ post)"
proof (cases "find_ci ''</body>'' html")
  case (Some i)
  let ?close = "take 7 (drop i html)"
  have "map tolower ''</body>'' = ''</body>''" "length ''</body>'' = 7" by code_simp+
  with find_ci_SomeD [OF Some] have "map tolower ?close = ''</body>''" by metis
  moreover have "html = take i html @ ?close @ drop 7 (drop i html)" by (simp only: append_take_drop_id)
  moreover have "inject_livereload_script html path = take i html @ livereload_tag path @ ?close @ drop 7 (drop i html)"
    by (simp only: inject_livereload_script_def Some option.case append_take_drop_id)
  ultimately show ?thesis
    by (intro disjI2 exI [of _ "take i html"] exI [of _ ?close] exI [of _ "drop 7 (drop i html)"] conjI)
qed (simp add: inject_livereload_script_def)

text \<open>A polling page notices every rebuild.  After any number of rebuilds the token that the poll
  handler returns differs from the earlier one, unless the number is a multiple of \<open>2 ^ 64\<close>.\<close>

lemma poll_notices_rebuild:
  "rs_body (poll_handler (fold (\<lambda>w s. snd (notify_rebuild w s)) rebuilds s)) = rs_body (poll_handler s) \<longleftrightarrow>
     2 ^ 64 dvd length rebuilds"
proof -
  have gen: "hs_generation (fold (\<lambda>w s. snd (notify_rebuild w s)) rebuilds s) = hs_generation s + word_of_nat (length rebuilds)"
    by (induction rebuilds arbitrary: s) (simp_all add: notify_rebuild_def push_reload_event_def)
  have "show_nat a = show_nat b \<longleftrightarrow> a = b" for a b by (metis digits_value_show_nat)
  then show ?thesis
    by (simp add: poll_handler_def gen word_of_nat_eq_0_iff flip: word_unat_eq_iff)
qed

text \<open>Sinks are dropped only when a write to them fails, not when their connection ends: the next rebuild
  writes to a sink that is gone.\<close>

lemma reload_writes_to_dead_sink:
  "\<exists>s. s = sse_disconnect 7 (sse_connect 7 (new_server default_server_config)) \<and>
     hs_live s = {} \<and> fst (notify_rebuild (\<lambda>_. True) s) = [7]"
  by (simp add: sse_disconnect_def sse_connect_def new_server_def notify_rebuild_def push_reload_event_def)

end
