(* ===== verification/Nift_Watcher.thy ===== *)
theory Nift_Watcher
  imports Nift_Core "HOL-Library.List_Lexorder" "HOL-Library.Sublist"
begin

text \<open>
  The file watchers, \<open>crates/server/watcher\<close>.  \<open>FileWatcher\<close> polls: a scan compares the modification
  times of the files it sees with those of the scan before.  \<open>NativeFileWatcher\<close> (on Linux) keeps the
  descriptors of the watched directories in two tables and translates the events of the kernel.  The
  directory iterators and the clock are parameters: a listing is the list of the entries the iterator
  delivers.  The inotify instance is a state of its own, the watches that the kernel holds, with the
  documented answers of \<open>inotify_add_watch\<close> and \<open>inotify_rm_watch\<close>.
\<close>

section \<open>The polling watcher\<close>

datatype change_kind = Added | Modified | Removed

type_synonym change_event = "change_kind \<times> string"

record watcher_config =
  wc_root :: string
  wc_ignored_substrings :: "string list"

definition default_ignored :: "string list" where
  "default_ignored = [''.git'', ''node_modules'', ''build'', ''.nift'']"

definition is_ignored :: "string list \<Rightarrow> string \<Rightarrow> bool" where
  "is_ignored ignored path = list_ex (\<lambda>s. find_sub s path \<noteq> None) ignored"

text \<open>An entry: its path, whether it is a regular file, its time in seconds unless reading it failed.\<close>

type_synonym dir_entry = "string \<times> bool \<times> int option"
type_synonym mtimes = "string \<rightharpoonup> int"

definition scan_entry :: "string list \<Rightarrow> dir_entry \<Rightarrow> mtimes \<Rightarrow> mtimes" where
  "scan_entry ignored e seen =
     (case e of (path, regular, time) \<Rightarrow>
        if \<not> regular \<or> is_ignored ignored path then seen
        else case time of None \<Rightarrow> seen | Some t \<Rightarrow> seen(path \<mapsto> t))"

definition scan_files :: "string list \<Rightarrow> dir_entry list \<Rightarrow> mtimes" where
  "scan_files ignored entries = fold (scan_entry ignored) entries Map.empty"

text \<open>The events, for maps that are visited in the orders \<open>ks\<close> and \<open>ls\<close>.\<close>

definition added_or_modified :: "mtimes \<Rightarrow> mtimes \<Rightarrow> string \<Rightarrow> change_event list" where
  "added_or_modified old seen k =
     (case (old k, seen k) of
        (None, Some v) \<Rightarrow> [(Added, k)]
      | (Some v', Some v) \<Rightarrow> if v' \<noteq> v then [(Modified, k)] else []
      | _ \<Rightarrow> [])"

definition change_events :: "string list \<Rightarrow> string list \<Rightarrow> mtimes \<Rightarrow> mtimes \<Rightarrow> change_event list" where
  "change_events ks ls old seen =
     concat (map (added_or_modified old seen) ks) @ map (Pair Removed) (filter (\<lambda>k. seen k = None) ls)"

record file_watcher =
  fw_config :: watcher_config
  fw_callback :: bool
  fw_running :: bool
  fw_mtimes :: mtimes

text \<open>A listing is \<open>None\<close> when the iterator cannot be opened: then nothing changes.  \<open>order\<close> enumerates
  the keys of a hash map.\<close>

definition watcher_scan ::
    "(mtimes \<Rightarrow> string list) \<Rightarrow> dir_entry list option \<Rightarrow> file_watcher \<Rightarrow> change_event list \<times> file_watcher" where
  "watcher_scan order listing w =
     (case listing of
        None \<Rightarrow> ([], w)
      | Some entries \<Rightarrow>
          let seen = scan_files (wc_ignored_substrings (fw_config w)) entries
          in (change_events (order seen) (order (fw_mtimes w)) (fw_mtimes w) seen, w\<lparr>fw_mtimes := seen\<rparr>))"

definition watcher_start ::
    "(mtimes \<Rightarrow> string list) \<Rightarrow> bool \<Rightarrow> dir_entry list option \<Rightarrow> file_watcher \<Rightarrow> unit result \<times> file_watcher" where
  "watcher_start order cb listing w =
     (if fw_running w then (Inr (), w)
      else if \<not> cb then (Inl invalid_argument, w)
      else (Inr (), (snd (watcher_scan order listing (w\<lparr>fw_callback := True\<rparr>)))\<lparr>fw_running := True\<rparr>))"

definition watcher_stop :: "file_watcher \<Rightarrow> file_watcher" where
  "watcher_stop w = (if fw_running w then w\<lparr>fw_running := False\<rparr> else w)"

text \<open>The loop of the thread over the listings it finds: the batches that the callback gets.\<close>

fun watcher_loop ::
    "(mtimes \<Rightarrow> string list) \<Rightarrow> dir_entry list option list \<Rightarrow> file_watcher \<Rightarrow> change_event list list \<times> file_watcher" where
  "watcher_loop order [] w = ([], w)"
| "watcher_loop order (listing # rest) w =
     (if \<not> fw_running w then ([], w)
      else case watcher_scan order listing w of (events, w) \<Rightarrow>
        (case watcher_loop order rest w of (batches, w) \<Rightarrow>
          (if events \<noteq> [] \<and> fw_callback w then events # batches else batches, w)))"

definition poll_once ::
    "(mtimes \<Rightarrow> string list) \<Rightarrow> dir_entry list option \<Rightarrow> file_watcher \<Rightarrow> change_event list option \<times> file_watcher" where
  "poll_once order listing w =
     (case watcher_scan order listing w of (events, w) \<Rightarrow>
        (if events \<noteq> [] \<and> fw_callback w then Some events else None, w))"

section \<open>A scan reports exactly what changed\<close>

definition enumerates :: "(mtimes \<Rightarrow> string list) \<Rightarrow> bool" where
  "enumerates order \<longleftrightarrow> (\<forall>m. finite (dom m) \<longrightarrow> distinct (order m) \<and> set (order m) = dom m)"

lemma finite_scan_files: "finite (dom (scan_files ignored entries))"
proof -
  have "finite (dom m) \<Longrightarrow> finite (dom (fold (scan_entry ignored) entries m))" for m
    by (induction entries arbitrary: m) (auto simp: scan_entry_def split: option.split)
  then show ?thesis by (simp add: scan_files_def)
qed

text \<open>What a path went through between two scans.\<close>

definition change_of :: "mtimes \<Rightarrow> mtimes \<Rightarrow> string \<Rightarrow> change_kind option" where
  "change_of old seen k =
     (case (old k, seen k) of
        (None, Some _) \<Rightarrow> Some Added
      | (Some _, None) \<Rightarrow> Some Removed
      | (Some v, Some v') \<Rightarrow> if v = v' then None else Some Modified
      | (None, None) \<Rightarrow> None)"

lemma added_or_modified_change:
  "k \<in> dom seen \<Longrightarrow> added_or_modified old seen k = (case change_of old seen k of None \<Rightarrow> [] | Some c \<Rightarrow> [(c, k)])"
  by (auto simp: added_or_modified_def change_of_def split: option.split)

lemma change_of_eq: "(\<forall>k. change_of old seen k = None) \<longleftrightarrow> old = seen"
  by (auto simp: change_of_def fun_eq_iff split: option.splits if_splits) (metis option.exhaust)+

lemma in_added_or_modified:
  "(c, k) \<in> set (added_or_modified old seen k') \<longleftrightarrow> k = k' \<and> seen k \<noteq> None \<and> change_of old seen k = Some c"
  by (auto simp: added_or_modified_def change_of_def split: option.splits if_splits)

lemma change_events_exact:
  assumes "set ks = dom seen" "set ls = dom old"
  shows "(c, k) \<in> set (change_events ks ls old seen) \<longleftrightarrow> change_of old seen k = Some c"
proof -
  have "(c, k) \<in> set (change_events ks ls old seen) \<longleftrightarrow>
      k \<in> dom seen \<and> change_of old seen k = Some c \<or> c = Removed \<and> k \<in> dom old \<and> seen k = None"
    using assms by (auto simp: change_events_def in_added_or_modified)
  also have "\<dots> \<longleftrightarrow> change_of old seen k = Some c"
    by (auto simp: change_of_def split: option.splits if_splits)
  finally show ?thesis .
qed

lemma change_events_distinct:
  assumes "distinct ks" "distinct ls" "set ks = dom seen"
  shows "distinct (map snd (change_events ks ls old seen))"
proof -
  have part: "distinct (map snd (concat (map (added_or_modified old seen) ks)))" if "distinct ks" for ks
    using that
  proof (induction ks)
    case (Cons k ks)
    have "snd ` set (concat (map (added_or_modified old seen) ks)) \<subseteq> set ks"
      by (auto simp: in_added_or_modified)
    moreover have "map snd (added_or_modified old seen k) = [] \<or> map snd (added_or_modified old seen k) = [k]"
      by (auto simp: added_or_modified_def split: option.split)
    ultimately show ?case using Cons by (auto simp: in_added_or_modified)
  qed simp
  have "snd ` set (concat (map (added_or_modified old seen) ks)) \<subseteq> dom seen"
    using assms(3) by (auto simp: in_added_or_modified)
  with part [OF assms(1)] assms(2) show ?thesis
    by (auto simp: change_events_def comp_def distinct_map_filter)
qed

lemma watcher_scan_Some:
  assumes "enumerates order" "finite (dom (fw_mtimes w))" "watcher_scan order (Some entries) w = (events, w')"
  shows "((c, k) \<in> set events \<longleftrightarrow> change_of (fw_mtimes w) (fw_mtimes w') k = Some c)"
    "distinct (map snd events)" "fw_mtimes w' = scan_files (wc_ignored_substrings (fw_config w)) entries"
    "w' = w\<lparr>fw_mtimes := fw_mtimes w'\<rparr>"
proof -
  let ?seen = "scan_files (wc_ignored_substrings (fw_config w)) entries"
  have ks: "distinct (order ?seen)" "set (order ?seen) = dom ?seen" "distinct (order (fw_mtimes w))"
    "set (order (fw_mtimes w)) = dom (fw_mtimes w)"
    using assms(1,2) finite_scan_files by (simp_all add: enumerates_def)
  have w': "events = change_events (order ?seen) (order (fw_mtimes w)) (fw_mtimes w) ?seen" "w' = w\<lparr>fw_mtimes := ?seen\<rparr>"
    using assms(3) by (auto simp: watcher_scan_def Let_def)
  show "((c, k) \<in> set events \<longleftrightarrow> change_of (fw_mtimes w) (fw_mtimes w') k = Some c)"
    using change_events_exact [OF ks(2,4)] by (simp add: w')
  show "distinct (map snd events)" using change_events_distinct [OF ks(1,3,2)] by (simp add: w')
qed (use assms(3) in \<open>auto simp: watcher_scan_def Let_def\<close>)

text \<open>A scan reports exactly what changed since the scan before.  A path is reported as added,
  removed or modified if and only if it is new, gone or has another time, at most once, and the
  snapshot becomes the one that was seen.\<close>

lemma scan_reports_changes:
  assumes "enumerates order" "finite (dom (fw_mtimes w))" "watcher_scan order (Some entries) w = (events, w')"
  shows "((c, k) \<in> set events \<longleftrightarrow> change_of (fw_mtimes w) (fw_mtimes w') k = Some c) \<and>
    distinct (map snd events) \<and> fw_mtimes w' = scan_files (wc_ignored_substrings (fw_config w)) entries"
  using watcher_scan_Some [OF assms] by blast

text \<open>The specification: the time at which a listing shows a file, when no ignored substring occurs in its path.
  Only regular files whose time could be read count, and of several entries of one path the last.\<close>

definition file_time :: "string list \<Rightarrow> dir_entry list \<Rightarrow> mtimes" where
  "file_time ignored entries k =
     (if \<exists>s\<in>set ignored. sublist s k then None
      else case filter (\<lambda>(path, regular, time). path = k \<and> regular \<and> time \<noteq> None) (rev entries) of
        [] \<Rightarrow> None
      | (path, regular, time) # _ \<Rightarrow> time)"

lemma is_ignored_iff: "is_ignored ignored k \<longleftrightarrow> (\<exists>s\<in>set ignored. sublist s k)"
  unfolding is_ignored_def list_ex_iff find_sub_iff sublist_def ..

lemma scan_files_time: "scan_files ignored entries = file_time ignored entries"
proof (induction entries rule: rev_induct)
  case (snoc e entries)
  obtain path regular time where e: "e = (path, regular, time)" by (cases e)
  have "scan_files ignored (entries @ [e]) k = file_time ignored (entries @ [e]) k" for k
    using fun_cong [OF snoc.IH, of k]
    by (cases time) (auto simp: scan_files_def scan_entry_def e file_time_def is_ignored_iff)
  then show ?case ..
qed (simp add: scan_files_def file_time_def fun_eq_iff)

text \<open>The listings that could be opened, and the loop over them from a snapshot.\<close>

definition opened :: "dir_entry list option list \<Rightarrow> dir_entry list list" where
  "opened listings = map the (filter (\<lambda>l. l \<noteq> None) listings)"

lemma opened_simps [simp]:
  "opened [] = []" "opened (None # ls) = opened ls" "opened (Some es # ls) = es # opened ls"
  by (simp_all add: opened_def)

definition changes_between :: "string list \<Rightarrow> dir_entry list \<Rightarrow> dir_entry list \<Rightarrow> change_event list \<Rightarrow> bool" where
  "changes_between ignored before after batch \<longleftrightarrow>
     distinct (map snd batch) \<and>
     (\<forall>c k. (c, k) \<in> set batch \<longleftrightarrow> change_of (file_time ignored before) (file_time ignored after) k = Some c)"

lemma watcher_loop_callback: "fw_callback (snd (watcher_loop order ls w)) = fw_callback w"
  by (induction order ls w rule: watcher_loop.induct)
     (auto simp: watcher_scan_def Let_def split: prod.splits option.splits)

lemma watcher_loop_batches:
  assumes "enumerates order" "fw_running w" "fw_callback w" "wc_ignored_substrings (fw_config w) = ign"
    and "fw_mtimes w = file_time ign es" "watcher_loop order listings w = (batches, w')"
  shows "\<exists>bs. batches = filter (\<lambda>b. b \<noteq> []) bs \<and> length bs = length (opened listings) \<and>
    (\<forall>i<length bs. changes_between ign ((es # opened listings) ! i) (opened listings ! i) (bs ! i))"
  using assms(2-6)
proof (induction listings arbitrary: w es batches w')
  case (Cons l rest)
  obtain events w1 where s: "watcher_scan order l w = (events, w1)" by fastforce
  obtain bs w2 where r: "watcher_loop order rest w1 = (bs, w2)" by fastforce
  have w1: "fw_running w1" "fw_callback w1" "wc_ignored_substrings (fw_config w1) = ign"
    using s Cons.prems(1-3) by (auto simp: watcher_scan_def Let_def split: option.splits)
  have b: "batches = (if events \<noteq> [] then events # bs else bs)"
    using Cons.prems(1,5) s r w1(2) watcher_loop_callback [of order rest w1] by (auto split: if_splits)
  show ?case
  proof (cases l)
    case None
    then have "events = []" "fw_mtimes w1 = file_time ign es" using s Cons.prems(4) by (simp_all add: watcher_scan_def)
    with Cons.IH [OF w1 _ r] b None show ?thesis by simp
  next
    case (Some es')
    have fin: "finite (dom (fw_mtimes w))" unfolding Cons.prems(4) scan_files_time [symmetric] by (rule finite_scan_files)
    note e = watcher_scan_Some [OF assms(1) fin s [unfolded Some]]
    have m: "fw_mtimes w1 = file_time ign es'" using e(3) by (simp add: Cons.prems(3) scan_files_time)
    have here: "changes_between ign es es' events"
      unfolding changes_between_def using e(1,2) by (simp add: m Cons.prems(4))
    obtain cs where cs: "bs = filter (\<lambda>b. b \<noteq> []) cs" "length cs = length (opened rest)"
      "\<forall>i<length cs. changes_between ign ((es' # opened rest) ! i) (opened rest ! i) (cs ! i)"
      using Cons.IH [OF w1 m r] by blast
    have "\<forall>i<length (events # cs). changes_between ign ((es # opened (l # rest)) ! i) (opened (l # rest) ! i) ((events # cs) ! i)"
      using here cs(3) by (auto simp: Some less_Suc_eq_0_disj)
    with b cs(1,2) Some show ?thesis by (intro exI [of _ "events # cs"]) simp
  qed
qed simp

text \<open>C18: The polling thread reports every change once.  Start a watcher that does not run, with a callback, on a listing, and let
  its thread run over any further listings, some of which may fail to open.  There is one batch for
  each two successive listings that opened: it holds a path at most once, and it holds a path as added, removed
  or modified if and only if its file is new, gone, or shown with another time (whole seconds), where a file is seen
  if it is regular, its time can be read, and no ignored substring occurs in its path.  The
  callback gets these batches in their order, less the empty ones.\<close>

theorem polling_reports:
  assumes "enumerates order" "\<not> fw_running w" "wc_ignored_substrings (fw_config w) = ign"
    and "watcher_start order True (Some es) w = (r, w1)" "watcher_loop order listings w1 = (batches, w2)"
  shows "r = Inr () \<and>
    (\<exists>bs. batches = filter (\<lambda>b. b \<noteq> []) bs \<and> length bs = length (opened listings) \<and>
      (\<forall>i<length bs. changes_between ign ((es # opened listings) ! i) (opened listings ! i) (bs ! i)))"
proof -
  have "r = Inr ()" "fw_running w1" "fw_callback w1" "wc_ignored_substrings (fw_config w1) = ign" "fw_mtimes w1 = file_time ign es"
    using assms(2,3,4) by (auto simp: watcher_start_def watcher_scan_def scan_files_time Let_def)
  with watcher_loop_batches [OF assms(1) this(2-5) assms(5)] show ?thesis by simp
qed

text \<open>The enumeration in key order, for the witnesses.\<close>

definition key_order :: "mtimes \<Rightarrow> string list" where
  "key_order m = sorted_list_of_set (dom m)"

lemma key_order_enumerates: "enumerates key_order"
  by (simp add: enumerates_def key_order_def)

definition demo_watcher :: file_watcher where
  "demo_watcher = \<lparr>fw_config = \<lparr>wc_root = ''c'', wc_ignored_substrings = default_ignored\<rparr>, fw_callback = True,
     fw_running = True, fw_mtimes = [''c/a'' \<mapsto> 1, ''c/b'' \<mapsto> 2]\<rparr>"

lemma demo_scan:
  "watcher_scan key_order (Some [(''c/a'', True, Some 9), (''c/.git/x'', True, Some 1), (''c/new'', True, Some 3)]) demo_watcher =
     ([(Modified, ''c/a''), (Added, ''c/new''), (Removed, ''c/b'')], demo_watcher\<lparr>fw_mtimes := [''c/a'' \<mapsto> 9, ''c/new'' \<mapsto> 3]\<rparr>)"
proof -
  have "scan_files default_ignored [(''c/a'', True, Some 9), (''c/.git/x'', True, Some 1), (''c/new'', True, Some 3)] =
      [''c/a'' \<mapsto> 9, ''c/new'' \<mapsto> 3]"
    by (simp add: scan_files_def scan_entry_def is_ignored_def default_ignored_def)
  moreover have "key_order [''c/a'' \<mapsto> 9, ''c/new'' \<mapsto> 3] = [''c/a'', ''c/new'']" "key_order [''c/a'' \<mapsto> 1, ''c/b'' \<mapsto> 2] = [''c/a'', ''c/b'']"
    by (simp_all add: key_order_def)
  ultimately show ?thesis
    by (simp add: watcher_scan_def demo_watcher_def change_events_def added_or_modified_def)
qed

lemma scan_reports_changes_witness:
  "change_of [''c/a'' \<mapsto> 1, ''c/b'' \<mapsto> 2] [''c/a'' \<mapsto> 9, ''c/new'' \<mapsto> 3] ''c/b'' = Some Removed"
  using scan_reports_changes [OF key_order_enumerates _ demo_scan, of Removed "''c/b''", THEN conjunct1]
  by (simp add: demo_watcher_def)

lemma polling_reports_witness:
  "(Modified, ''c/a'') \<in> set (concat (fst (watcher_loop key_order [None, Some [(''c/.git/x'', True, Some 1), (''c/a'', True, Some 9)]]
     (snd (watcher_start key_order True (Some [(''c/a'', True, Some 1)]) (demo_watcher\<lparr>fw_running := False\<rparr>))))))"
proof -
  let ?ls = "[None, Some [(''c/.git/x'', True, Some 1), (''c/a'', True, Some 9)]]"
    and ?w1 = "watcher_start key_order True (Some [(''c/a'', True, Some 1)]) (demo_watcher\<lparr>fw_running := False\<rparr>)"
  have "wc_ignored_substrings (fw_config (demo_watcher\<lparr>fw_running := False\<rparr>)) = default_ignored" by (simp add: demo_watcher_def)
  from polling_reports [OF key_order_enumerates _ this, of "[(''c/a'', True, Some 1)]" "fst ?w1" "snd ?w1" ?ls]
  obtain bs where bs: "fst (watcher_loop key_order ?ls (snd ?w1)) = filter (\<lambda>b. b \<noteq> []) bs" "length bs = 1"
    "changes_between default_ignored [(''c/a'', True, Some 1)] [(''c/.git/x'', True, Some 1), (''c/a'', True, Some 9)] (bs ! 0)"
    by (auto simp: prod_eq_iff)
  have t: "file_time default_ignored [(''c/a'', True, Some 1)] ''c/a'' = Some 1"
    "file_time default_ignored [(''c/.git/x'', True, Some 1), (''c/a'', True, Some 9)] ''c/a'' = Some 9"
    by code_simp+
  have "(Modified, ''c/a'') \<in> set (bs ! 0)" using bs(3) by (simp add: changes_between_def change_of_def t)
  moreover from bs(2) obtain b where "bs = [b]" by (auto simp: length_Suc_conv)
  ultimately show ?thesis by (auto simp: bs(1) simp del: watcher_loop.simps)
qed

text \<open>The ignored substrings are sought in the whole path: below a root like \<open>/home/x/build/site\<close> every file is
  ignored, and the watcher sees nothing at all.\<close>

lemma ignored_root:
  assumes "is_ignored ignored root" "\<forall>(path, r, t)\<in>set entries. \<exists>rest. path = root @ rest"
  shows "scan_files ignored entries = Map.empty"
proof -
  have sub: "find_sub s p \<noteq> None \<Longrightarrow> find_sub s (p @ r) \<noteq> None" for s p r
    unfolding find_sub_iff by (metis append.assoc)
  have "fold (scan_entry ignored) entries m = m" if "\<forall>(path, r, t)\<in>set entries. \<exists>rest. path = root @ rest" for m
    using that
  proof (induction entries)
    case (Cons e entries)
    obtain path r t rest where e: "e = (path, r, t)" "path = root @ rest" using Cons.prems by (cases e) auto
    obtain s where "s \<in> set ignored" "find_sub s root \<noteq> None" using assms(1) by (auto simp: is_ignored_def list_ex_iff)
    then have "is_ignored ignored path" unfolding e(2) is_ignored_def list_ex_iff using sub by blast
    then have "scan_entry ignored e m = m" by (simp add: scan_entry_def e(1))
    with Cons show ?case by simp
  qed simp
  then show ?thesis using assms(2) by (simp add: scan_files_def)
qed

section \<open>The native watcher\<close>

datatype watch_backend = Inotify | Kqueue | Win32 | Polling

fun backend_name :: "watch_backend \<Rightarrow> string" where
  "backend_name Inotify = ''inotify''"
| "backend_name Kqueue = ''kqueue''"
| "backend_name Win32 = ''ReadDirectoryChangesW''"
| "backend_name Polling = ''polling''"

datatype in_flag =
    IN_CREATE | IN_MODIFY | IN_DELETE | IN_MOVED_FROM | IN_MOVED_TO | IN_DELETE_SELF | IN_ATTRIB | IN_ISDIR

record inotify_event =
  ie_wd :: int
  ie_mask :: "in_flag list"
  ie_name :: string

record native_watcher =
  nw_config :: watcher_config
  nw_running :: bool
  nw_callback :: bool
  nw_wd_to_path :: "int \<rightharpoonup> string"
  nw_path_to_wd :: "string \<rightharpoonup> int"

text \<open>
  The kernel's side: the watches of the instance, each a descriptor and the number of the watched directory.
  A watch is of the directory and not of the name: for a directory that is watched already, under
  whatever name, the descriptor of its watch is the answer.  \<open>dirs\<close> tells which directory a path leads to, if
  a watch can be added for it.  Descriptors are not used again.  A watch ends by \<open>inotify_rm_watch\<close>, or without
  a call when its directory is deleted or unmounted.
\<close>

record inotify =
  in_watches :: "(int \<times> nat) list"
  in_next :: int

definition new_inotify :: inotify where
  "new_inotify = \<lparr>in_watches = [], in_next = 1\<rparr>"

definition inotify_add_watch :: "(string \<rightharpoonup> nat) \<Rightarrow> string \<Rightarrow> inotify \<Rightarrow> int \<times> inotify" where
  "inotify_add_watch dirs path k =
     (case dirs path of
        None \<Rightarrow> (- 1, k)
      | Some n \<Rightarrow> (case find (\<lambda>(wd, m). m = n) (in_watches k) of
            Some (wd, m) \<Rightarrow> (wd, k)
          | None \<Rightarrow> (in_next k, k\<lparr>in_watches := (in_next k, n) # in_watches k, in_next := in_next k + 1\<rparr>)))"

definition inotify_rm_watch :: "int \<Rightarrow> inotify \<Rightarrow> inotify" where
  "inotify_rm_watch wd k = k\<lparr>in_watches := filter (\<lambda>(w, n). w \<noteq> wd) (in_watches k)\<rparr>"

definition directory_gone :: "nat \<Rightarrow> inotify \<Rightarrow> inotify" where
  "directory_gone n k = k\<lparr>in_watches := filter (\<lambda>(w, m). m \<noteq> n) (in_watches k)\<rparr>"

type_synonym native_state = "native_watcher \<times> inotify"

text \<open>A directory with its subdirectories, as the iterator finds them.\<close>

datatype dir_tree = DirTree string "dir_tree list"

definition add_watch :: "(string \<rightharpoonup> nat) \<Rightarrow> string \<Rightarrow> native_state \<Rightarrow> native_state" where
  "add_watch dirs path = (\<lambda>(s, k).
     if nw_path_to_wd s path \<noteq> None then (s, k)
     else case inotify_add_watch dirs path k of (wd, k) \<Rightarrow>
       if wd < 0 then (s, k)
       else (s\<lparr>nw_wd_to_path := (nw_wd_to_path s)(wd \<mapsto> path), nw_path_to_wd := (nw_path_to_wd s)(path \<mapsto> wd)\<rparr>, k))"

fun add_watch_recursive :: "(string \<rightharpoonup> nat) \<Rightarrow> dir_tree \<Rightarrow> native_state \<Rightarrow> native_state" where
  "add_watch_recursive dirs (DirTree dir subs) s =
     (if is_ignored (wc_ignored_substrings (nw_config (fst s))) dir then s
      else fold (add_watch_recursive dirs) subs (add_watch dirs dir s))"

definition remove_watch :: "string \<Rightarrow> native_state \<Rightarrow> native_state" where
  "remove_watch path = (\<lambda>(s, k).
     case nw_path_to_wd s path of
       None \<Rightarrow> (s, k)
     | Some wd \<Rightarrow>
         let k = inotify_rm_watch wd k in
         (s\<lparr>nw_wd_to_path := (nw_wd_to_path s)(wd := None), nw_path_to_wd := (nw_path_to_wd s)(path := None)\<rparr>, k))"

text \<open>One event: the change it is reported as, and the directories to add and to remove.\<close>

definition process_event :: "native_watcher \<Rightarrow> inotify_event \<Rightarrow> change_event list \<times> string list \<times> string list" where
  "process_event s e =
     (let has = (\<lambda>flags. list_ex (\<lambda>f. f \<in> set (ie_mask e)) flags) in
      case nw_wd_to_path s (ie_wd e) of
        None \<Rightarrow> ([], [], [])
      | Some dir \<Rightarrow>
          if ie_name e = [] then ([], [], if has [IN_DELETE_SELF] then [dir] else [])
          else if is_ignored (wc_ignored_substrings (nw_config s)) (ie_name e) then ([], [], [])
          else
            let full_path = dir @ ''/'' @ ie_name e; is_dir = has [IN_ISDIR] in
            if has [IN_CREATE, IN_MOVED_TO] then ([(Added, full_path)], if is_dir then [full_path] else [], [])
            else if has [IN_MODIFY, IN_ATTRIB] then (if is_dir then [] else [(Modified, full_path)], [], [])
            else if has [IN_DELETE, IN_MOVED_FROM] then ([(Removed, full_path)], [], if is_dir then [full_path] else [])
            else ([], [], []))"

text \<open>The tables are read while the buffer is walked and changed afterwards.\<close>

definition process_events ::
    "(string \<rightharpoonup> nat) \<Rightarrow> (string \<rightharpoonup> dir_tree) \<Rightarrow> inotify_event list \<Rightarrow> native_state \<Rightarrow> change_event list \<times> native_state" where
  "process_events dirs tree_at buf s =
     (let effects = map (process_event (fst s)) buf;
          new_dirs = concat (map (fst \<circ> snd) effects);
          removed_dirs = concat (map (snd \<circ> snd) effects);
          s = fold (\<lambda>d s. case tree_at d of None \<Rightarrow> s | Some tree \<Rightarrow> add_watch_recursive dirs tree s) new_dirs s
      in (concat (map fst effects), fold remove_watch removed_dirs s))"

text \<open>\<open>start\<close> opens a new instance, or gets a negative descriptor; \<open>stop\<close> closes it, which ends its watches.\<close>

definition native_start ::
    "bool \<Rightarrow> int \<Rightarrow> (string \<rightharpoonup> nat) \<Rightarrow> (string \<rightharpoonup> dir_tree) \<Rightarrow> native_state \<Rightarrow> unit result \<times> native_state" where
  "native_start cb inotify_fd dirs tree_at = (\<lambda>(s, k).
     if nw_running s then (Inr (), (s, k))
     else if \<not> cb then (Inl invalid_argument, (s, k))
     else if inotify_fd < 0 then (Inl io_error, (s\<lparr>nw_callback := True\<rparr>, k))
     else
       let s = s\<lparr>nw_callback := True\<rparr>;
           s = (case tree_at (wc_root (nw_config s)) of
                  None \<Rightarrow> (s, new_inotify)
                | Some tree \<Rightarrow> add_watch_recursive dirs tree (s, new_inotify))
       in (Inr (), apfst (\<lambda>s. s\<lparr>nw_running := True\<rparr>) s))"

definition native_stop :: "native_state \<Rightarrow> native_state" where
  "native_stop = (\<lambda>(s, k).
     if nw_running s
     then (s\<lparr>nw_running := False, nw_wd_to_path := Map.empty, nw_path_to_wd := Map.empty\<rparr>, new_inotify)
     else (s, k))"

definition new_native :: "watcher_config \<Rightarrow> native_state" where
  "new_native cfg = (\<lparr>nw_config = cfg, nw_running = False, nw_callback = False, nw_wd_to_path = Map.empty,
     nw_path_to_wd = Map.empty\<rparr>, new_inotify)"

text \<open>What happens to a watcher: it is started and stopped, its thread translates a buffer of events, and a
  directory goes away.  The directories may be others at each step.\<close>

datatype native_action =
    Native_start bool int "string \<rightharpoonup> nat" "string \<rightharpoonup> dir_tree"
  | Native_stop
  | Batch "string \<rightharpoonup> nat" "string \<rightharpoonup> dir_tree" "inotify_event list"
  | Directory_gone nat

fun native_step :: "native_action \<Rightarrow> native_state \<Rightarrow> native_state" where
  "native_step (Native_start cb fd dirs tree_at) s = snd (native_start cb fd dirs tree_at s)"
| "native_step Native_stop s = native_stop s"
| "native_step (Batch dirs tree_at buf) s =
     (if nw_running (fst s) then snd (process_events dirs tree_at buf s) else s)"
| "native_step (Directory_gone n) s = apsnd (directory_gone n) s"

subsection \<open>No watch without its path\<close>

definition tables_ok :: "native_state \<Rightarrow> bool" where
  "tables_ok = (\<lambda>(s, k).
     (\<forall>wd p. nw_wd_to_path s wd = Some p \<longrightarrow> nw_path_to_wd s p = Some wd) \<and>
     0 < in_next k \<and> (\<forall>(wd, n)\<in>set (in_watches k). 0 < wd \<and> nw_wd_to_path s wd \<noteq> None))"

lemma find_watch: "find P xs = Some x \<Longrightarrow> x \<in> set xs"
  by (auto simp: find_Some_iff)

lemma add_watch_ok: "tables_ok s \<Longrightarrow> tables_ok (add_watch dirs path s)"
proof -
  assume ok: "tables_ok s"
  obtain w k where s: "s = (w, k)" by (cases s)
  show ?thesis
  proof (cases "nw_path_to_wd w path = None \<and> dirs path \<noteq> None")
    case True
    then obtain n where n: "dirs path = Some n" by blast
    have free: "nw_wd_to_path w wd \<noteq> Some path" for wd using ok True by (auto simp: tables_ok_def s)
    show ?thesis
    proof (cases "find (\<lambda>(wd, m). m = n) (in_watches k)")
      case None
      with ok True free n show ?thesis
        by (auto simp: s add_watch_def inotify_add_watch_def tables_ok_def)
    next
      case (Some x)
      then have "x \<in> set (in_watches k)" by (rule find_watch)
      with ok True free n Some show ?thesis
        by (auto simp: s add_watch_def inotify_add_watch_def tables_ok_def split: prod.splits)
    qed
  qed (use ok in \<open>auto simp: s add_watch_def inotify_add_watch_def\<close>)
qed

lemma remove_watch_ok: "tables_ok s \<Longrightarrow> tables_ok (remove_watch path s)"
  by (cases s) (auto simp: tables_ok_def remove_watch_def inotify_rm_watch_def Let_def split: option.split)

lemma fold_inv: "(\<And>x s. x \<in> set xs \<Longrightarrow> I s \<Longrightarrow> I (f x s)) \<Longrightarrow> I s \<Longrightarrow> I (fold f xs s)"
  by (induction xs arbitrary: s) auto

lemma add_watch_recursive_ok: "tables_ok s \<Longrightarrow> tables_ok (add_watch_recursive dirs tree s)"
proof (induction tree arbitrary: s)
  case (DirTree dir subs)
  then show ?case by (auto intro!: fold_inv [where I = tables_ok] add_watch_ok)
qed

lemma process_events_ok: "tables_ok s \<Longrightarrow> tables_ok (snd (process_events dirs tree_at buf s))"
proof -
  assume s: "tables_ok s"
  have new: "tables_ok (fold (\<lambda>d s. case tree_at d of None \<Rightarrow> s | Some tree \<Rightarrow> add_watch_recursive dirs tree s) ds s)" for ds
    by (rule fold_inv [where I = tables_ok, OF _ s]) (auto intro: add_watch_recursive_ok split: option.split)
  show ?thesis
    unfolding process_events_def Let_def snd_conv by (rule fold_inv [where I = tables_ok, OF _ new]) (rule remove_watch_ok)
qed

lemma native_step_ok: "tables_ok s \<Longrightarrow> tables_ok (native_step a s)"
proof (cases a)
  case (Native_start cb fd dirs tree_at)
  assume ok: "tables_ok s"
  obtain w k where s: "s = (w, k)" by (cases s)
  show ?thesis
  proof (cases "nw_running w \<or> \<not> cb \<or> fd < 0")
    case True
    with ok show ?thesis by (auto simp: Native_start s native_start_def tables_ok_def)
  next
    case False
    with ok have "tables_ok (w\<lparr>nw_callback := True\<rparr>, new_inotify)" by (simp add: s tables_ok_def new_inotify_def)
    then have "tables_ok (case tree_at (wc_root (nw_config w)) of None \<Rightarrow> (w\<lparr>nw_callback := True\<rparr>, new_inotify)
        | Some tree \<Rightarrow> add_watch_recursive dirs tree (w\<lparr>nw_callback := True\<rparr>, new_inotify))" (is "tables_ok ?t")
      by (auto intro: add_watch_recursive_ok split: option.split)
    moreover have "native_step a s = apfst (\<lambda>s. s\<lparr>nw_running := True\<rparr>) ?t"
      using False by (simp add: Native_start s native_start_def Let_def)
    ultimately show ?thesis by (cases ?t) (simp add: tables_ok_def)
  qed
next
  case (Directory_gone n)
  assume "tables_ok s"
  then show ?thesis by (cases s) (auto simp: tables_ok_def Directory_gone directory_gone_def)
next
  case (Batch dirs tree_at buf)
  assume "tables_ok s"
  then show ?thesis by (simp add: Batch process_events_ok)
qed (auto simp: native_stop_def tables_ok_def new_inotify_def split: prod.splits)

text \<open>C31: The native watcher knows every watch that the kernel holds for it.  Whatever is done with a new
  watcher, however it is started and stopped and whatever events it translates, and whatever directories are
  created, renamed or deleted in between: each descriptor the kernel watches has a path in the first table, so that
  none of its events is dropped as unknown; and a path in the first table is listed in the second
  with the same descriptor, so that no two descriptors have the same path.\<close>

theorem native_watches_known:
  assumes "fold native_step actions (new_native cfg) = (s, k)"
  shows "(\<forall>(wd, n)\<in>set (in_watches k). nw_wd_to_path s wd \<noteq> None) \<and>
    (\<forall>wd p. nw_wd_to_path s wd = Some p \<longrightarrow> nw_path_to_wd s p = Some wd)"
proof -
  have "tables_ok (new_native cfg)" by (simp add: new_native_def tables_ok_def new_inotify_def)
  then have "tables_ok (fold native_step actions (new_native cfg))"
    by (intro fold_inv [where I = tables_ok]) (simp_all add: native_step_ok)
  then show ?thesis by (auto simp: assms tables_ok_def)
qed

text \<open>A root with two directories, one of which is then deleted; another one is created.\<close>

definition demo_actions :: "native_action list" where
  "demo_actions =
     [Native_start True 3 [''r'' \<mapsto> 10, ''r/a'' \<mapsto> 20] [''r'' \<mapsto> DirTree ''r'' [DirTree ''r/a'' []]],
      Directory_gone 20,
      Batch [''r'' \<mapsto> 10, ''r/b'' \<mapsto> 30] [''r/b'' \<mapsto> DirTree ''r/b'' []]
        [\<lparr>ie_wd = 1, ie_mask = [IN_CREATE, IN_ISDIR], ie_name = ''b''\<rparr>, \<lparr>ie_wd = 1, ie_mask = [IN_DELETE, IN_ISDIR], ie_name = ''a''\<rparr>]]"

definition demo_watched :: watcher_config where
  "demo_watched = \<lparr>wc_root = ''r'', wc_ignored_substrings = default_ignored\<rparr>"

lemma demo_run: "in_watches (snd (fold native_step demo_actions (new_native demo_watched))) = [(3, 30), (1, 10)]"
  by (simp add: demo_actions_def new_native_def demo_watched_def native_start_def add_watch_def inotify_add_watch_def
      new_inotify_def process_events_def process_event_def remove_watch_def inotify_rm_watch_def directory_gone_def
      is_ignored_def default_ignored_def Let_def)

lemma native_watches_known_witness:
  "nw_wd_to_path (fst (fold native_step demo_actions (new_native demo_watched))) 3 \<noteq> None"
  using native_watches_known [of demo_actions demo_watched, OF surjective_pairing] by (simp add: demo_run)

text \<open>But a path of the second table need not be watched.  A rename comes as one batch: the kernel answers with the descriptor
  of the moved directory, which the removal of the old name then closes.  The directory is no longer
  watched, and its entry in the second table keeps it from being added again.\<close>

lemma moved_directory_unwatched:
  defines "s \<equiv> fold native_step
     [Native_start True 3 [''r'' \<mapsto> 10, ''r/a'' \<mapsto> 20] [''r'' \<mapsto> DirTree ''r'' [DirTree ''r/a'' []]],
      Batch [''r'' \<mapsto> 10, ''r/b'' \<mapsto> 20] [''r/b'' \<mapsto> DirTree ''r/b'' []]
        [\<lparr>ie_wd = 1, ie_mask = [IN_MOVED_FROM, IN_ISDIR], ie_name = ''a''\<rparr>,
         \<lparr>ie_wd = 1, ie_mask = [IN_MOVED_TO, IN_ISDIR], ie_name = ''b''\<rparr>]] (new_native demo_watched)"
  shows "in_watches (snd s) = [(1, 10)]" "nw_path_to_wd (fst s) ''r/b'' = Some 2" "nw_wd_to_path (fst s) 2 = None"
    "add_watch dirs ''r/b'' s = s"
proof -
  have s: "in_watches (snd s) = [(1, 10)] \<and> nw_path_to_wd (fst s) ''r/b'' = Some 2 \<and> nw_wd_to_path (fst s) 2 = None"
    by (simp add: s_def new_native_def demo_watched_def native_start_def add_watch_def inotify_add_watch_def
      new_inotify_def process_events_def process_event_def remove_watch_def inotify_rm_watch_def
      is_ignored_def default_ignored_def Let_def)
  then show "in_watches (snd s) = [(1, 10)]" "nw_path_to_wd (fst s) ''r/b'' = Some 2" "nw_wd_to_path (fst s) 2 = None" by simp_all
  from s show "add_watch dirs ''r/b'' s = s" by (cases s) (simp add: add_watch_def)
qed

end
