(* ===== verification/Nift_Shell.thy ===== *)
theory Nift_Shell
  imports Nift_Filesystem
begin

text \<open>
  What the image, asset and Tailwind crates share: commands that are run through \<open>popen\<close>, the checks for
  tools, and operations of \<open>std::filesystem\<close> that throw.  A computation on the disk gives \<open>None\<close> when an
  exception leaves it.  The shell is the parameter \<open>sh\<close>: the output of a command line and the disk
  afterwards.  \<open>shell_words\<close> is how a POSIX shell splits a command line that uses single quotes,
  blanks and redirections only.
\<close>

section \<open>Exceptions over the disk\<close>

type_synonym shell = "string \<Rightarrow> fs \<Rightarrow> string \<times> fs"

definition and_then :: "'a option \<times> fs \<Rightarrow> ('a \<Rightarrow> fs \<Rightarrow> 'b option \<times> fs) \<Rightarrow> 'b option \<times> fs" where
  "and_then m k = (case m of (None, d) \<Rightarrow> (None, d) | (Some x, d) \<Rightarrow> k x d)"

lemma and_then_simps [simp]: "and_then (None, d) k = (None, d)" "and_then (Some x, d) k = k x d"
  by (simp_all add: and_then_def)

lemma and_then_SomeE:
  assumes "and_then m k = (Some y, d')"
  obtains x d where "m = (Some x, d)" "k x d = (Some y, d')"
  using assms by (auto simp: and_then_def split: prod.splits option.splits)

text \<open>The results of a loop over a list, in order.\<close>

fun for_each :: "('a \<Rightarrow> fs \<Rightarrow> 'b option \<times> fs) \<Rightarrow> 'a list \<Rightarrow> fs \<Rightarrow> 'b list option \<times> fs" where
  "for_each f [] d = (Some [], d)"
| "for_each f (x # xs) d = and_then (f x d) (\<lambda>y d. and_then (for_each f xs d) (\<lambda>ys d. (Some (y # ys), d)))"

lemma for_each_Some:
  assumes "for_each f xs d = (Some ys, d')"
  shows "length ys = length xs \<and> (\<forall>(x, y)\<in>set (zip xs ys). \<exists>d d'. f x d = (Some y, d'))"
  using assms
proof (induction xs arbitrary: d ys)
  case (Cons x xs)
  from Cons.prems obtain y d1 zs d2 where "f x d = (Some y, d1)" "for_each f xs d1 = (Some zs, d2)" "ys = y # zs"
    by (auto elim!: and_then_SomeE)
  with Cons.IH [of d1 zs] Cons.prems show ?case by auto
qed simp

section \<open>Tools and files\<close>

definition exec_cmd :: "shell \<Rightarrow> string \<Rightarrow> fs \<Rightarrow> string \<times> fs" where
  "exec_cmd sh cmd d = sh cmd d"

text \<open>A system without any tool: every command prints nothing and changes nothing.\<close>

definition no_tools :: shell where
  "no_tools cmd d = ([], d)"

text \<open>\<open>which\<close> leaves the disk as it is.\<close>

definition command_exists :: "shell \<Rightarrow> string \<Rightarrow> fs \<Rightarrow> bool" where
  "command_exists sh cmd d \<longleftrightarrow> fst (exec_cmd sh (''which '' @ cmd @ '' 2>/dev/null'') d) \<noteq> []"

definition is_file :: "string \<Rightarrow> fs \<Rightarrow> bool" where
  "is_file p d \<longleftrightarrow> (\<exists>content. fs_tree d p = Some (File content))"

lemma is_file_code [code]: "is_file p d = (case fs_tree d p of Some (File content) \<Rightarrow> True | _ \<Rightarrow> False)"
  by (auto simp: is_file_def split: option.split fs_entry.split)

definition size_of :: "string \<Rightarrow> fs \<Rightarrow> nat" where
  "size_of p d = (case file_size p d of Inl e \<Rightarrow> 0 | Inr n \<Rightarrow> n)"

text \<open>The throwing \<open>create_directories\<close>, and \<open>copy_file\<close> with \<open>overwrite_existing\<close>.\<close>

definition ensure_dir :: "string \<Rightarrow> fs \<Rightarrow> unit option \<times> fs" where
  "ensure_dir p d = (case create_directories p d of (Inl e, d) \<Rightarrow> (None, d) | (Inr u, d) \<Rightarrow> (Some (), d))"

definition copy_overwrite :: "string \<Rightarrow> string \<Rightarrow> fs \<Rightarrow> unit option \<times> fs" where
  "copy_overwrite frm to d =
     (case fs_tree d frm of
        Some (File content) \<Rightarrow>
          if fs_deny_read d frm \<or> fs_tree d to = Some Dir \<or> fs_deny_write d to \<or> frm = to then (None, d)
          else (Some (), d\<lparr>fs_tree := (fs_tree d)(to \<mapsto> File content)\<rparr>)
      | _ \<Rightarrow> (None, d))"

section \<open>How a shell splits a command line\<close>

text \<open>A redirection carries the digits before its sign.\<close>

datatype shell_token = Arg string | Redirect string

definition flush_word :: "string option \<Rightarrow> shell_token list" where
  "flush_word w = (case w of None \<Rightarrow> [] | Some s \<Rightarrow> [Arg s])"

fun shell_scan :: "bool \<Rightarrow> string option \<Rightarrow> string \<Rightarrow> shell_token list" where
  "shell_scan quoted w [] = flush_word w"
| "shell_scan quoted w (c # cs) =
     (let s = (case w of None \<Rightarrow> [] | Some s \<Rightarrow> s) in
      if c = CHR 0x27 then shell_scan (\<not> quoted) (Some s) cs
      else if quoted then shell_scan True (Some (s @ [c])) cs
      else if c = CHR '' '' then flush_word w @ shell_scan False None cs
      else if c = CHR ''>'' then
        (if w = None \<or> s \<noteq> [] \<and> list_all isdigit s then Redirect s # shell_scan False None cs
         else Arg s # Redirect [] # shell_scan False None cs)
      else shell_scan False (Some (s @ [c])) cs)"

definition shell_words :: "string \<Rightarrow> shell_token list" where
  "shell_words cmd = shell_scan False None cmd"

abbreviation in_quotes :: "string \<Rightarrow> string" where
  "in_quotes s \<equiv> CHR 0x27 # s @ [CHR 0x27]"

definition plain_word :: "string \<Rightarrow> bool" where
  "plain_word s \<longleftrightarrow> s \<noteq> [] \<and> (\<forall>c\<in>set s. c \<noteq> CHR 0x27 \<and> c \<noteq> CHR '' '' \<and> c \<noteq> CHR ''>'')"

lemma shell_scan_quoted:
  "CHR 0x27 \<notin> set s \<Longrightarrow> shell_scan True (Some w) (s @ CHR 0x27 # cs) = shell_scan False (Some (w @ s)) cs"
  by (induction s arbitrary: w) auto

lemma shell_scan_plain:
  "\<forall>c\<in>set s. c \<noteq> CHR 0x27 \<and> c \<noteq> CHR '' '' \<and> c \<noteq> CHR ''>'' \<Longrightarrow>
   shell_scan False (Some w) (s @ cs) = shell_scan False (Some (w @ s)) cs"
  by (induction s arbitrary: w) auto

text \<open>The lemmas that split a line: a plain word, a quoted one, and what follows them.\<close>

lemma shell_plain:
  "plain_word s \<Longrightarrow> shell_scan False None (s @ CHR '' '' # cs) = Arg s # shell_scan False None cs"
  "plain_word s \<Longrightarrow> shell_scan False None s = [Arg s]"
proof -
  assume s: "plain_word s"
  then obtain c s' where c: "s = c # s'" by (cases s) (auto simp: plain_word_def)
  then have "shell_scan False None (s @ cs) = shell_scan False (Some s) cs" for cs
    using s shell_scan_plain [of s' "[c]" cs] by (simp add: plain_word_def)
  from this [of "CHR '' '' # cs"] this [of "[]"]
  show "shell_scan False None (s @ CHR '' '' # cs) = Arg s # shell_scan False None cs" "shell_scan False None s = [Arg s]"
    by (simp_all add: flush_word_def)
qed

lemma shell_quoted:
  "CHR 0x27 \<notin> set s \<Longrightarrow> shell_scan False None (in_quotes s @ CHR '' '' # cs) = Arg s # shell_scan False None cs"
  "CHR 0x27 \<notin> set s \<Longrightarrow> shell_scan False None (in_quotes s) = [Arg s]"
  using shell_scan_quoted [of s "[]" "CHR '' '' # cs"] shell_scan_quoted [of s "[]" "[]"]
  by (simp_all add: flush_word_def)

text \<open>\<open>2>&1\<close> after the arguments.\<close>

lemma shell_both_streams:
  "shell_scan False None (CHR ''2'' # CHR ''>'' # CHR ''&'' # CHR ''1'' # []) = [Redirect ''2'', Arg ''&1'']"
  by (simp add: flush_word_def isdigit_def byte_def)

end
