(* ===== verification/Nift_Tailwind.thy ===== *)
theory Nift_Tailwind
  imports Nift_Shell Nift_Json
begin

text \<open>
  The Tailwind integration, \<open>crates/tailwind/src/tailwind.cpp\<close>: the generated configuration and input
  files, the command line, the scan for class names, and the controller of the background process as
  a step relation.  The shell is a parameter, as in \<open>Nift_Shell\<close>; durations are left out.
\<close>

section \<open>Configuration\<close>

record tailwind_config =
  tc_cli_path :: string
  tc_config_path :: string
  tc_input_css :: string
  tc_output_css :: string
  tc_content_dirs :: "string list"
  tc_content_patterns :: "string list"
  tc_minify :: bool
  tc_sourcemaps :: bool
  tc_theme_overrides :: json
  tc_plugins :: "string list"
  tc_working_dir :: string

record tailwind_result =
  tr_success :: bool
  tr_output_path :: string
  tr_error_message :: string
  tr_output_size :: nat

definition new_tailwind_result :: tailwind_result where
  "new_tailwind_result = \<lparr>tr_success = False, tr_output_path = [], tr_error_message = [], tr_output_size = 0\<rparr>"

definition js_escape_char :: "char \<Rightarrow> string" where
  "js_escape_char c =
     (if c = CHR 0x5C then [CHR 0x5C, CHR 0x5C]
      else if c = CHR 0x22 then [CHR 0x5C, CHR 0x22]
      else if c = NL then [CHR 0x5C, CHR ''n'']
      else if c = CHR 0x0D then [CHR 0x5C, CHR ''r'']
      else if c = CHR 0x09 then [CHR 0x5C, CHR ''t'']
      else [c])"

definition js_escape :: "string \<Rightarrow> string" where
  "js_escape s = concat (map js_escape_char s)"

definition find_cli :: "shell \<Rightarrow> fs \<Rightarrow> string" where
  "find_cli sh d =
     (let ver = fst (exec_cmd sh ''npx tailwindcss --help 2>/dev/null | head -1'' d) in
      if command_exists sh ''npx'' d \<and> ver \<noteq> [] \<and> find_sub ''tailwind'' ver \<noteq> None then ''npx tailwindcss''
      else if is_file ''node_modules/.bin/tailwindcss'' d then ''./node_modules/.bin/tailwindcss''
      else if command_exists sh ''tailwindcss'' d then ''tailwindcss''
      else if command_exists sh ''bunx'' d then ''bunx tailwindcss''
      else [])"

definition is_available :: "shell \<Rightarrow> fs \<Rightarrow> bool" where
  "is_available sh d \<longleftrightarrow> find_cli sh d \<noteq> []"

definition content_glob :: string where
  "content_glob = ''/**/*.{html,js,ts,jsx,tsx,vue,svelte,astro,md,php}''"

definition content_dir_line :: "string \<Rightarrow> string" where
  "content_dir_line dir = ''    '' @ [CHR 0x22] @ js_escape dir @ content_glob @ [CHR 0x22, NL]"

definition content_pattern_line :: "string \<Rightarrow> string" where
  "content_pattern_line pattern = ''    '' @ [CHR 0x22] @ js_escape pattern @ [CHR 0x22, NL]"

definition content_lines :: "tailwind_config \<Rightarrow> string" where
  "content_lines cfg = concat (map content_dir_line (tc_content_dirs cfg)) @ concat (map content_pattern_line (tc_content_patterns cfg))"

text \<open>The theme entries up to the first value whose \<open>dump\<close> throws, and whether there was none.\<close>

fun theme_entries :: "json_lib \<Rightarrow> (string \<times> json) list \<Rightarrow> string \<times> bool" where
  "theme_entries L [] = ([], True)"
| "theme_entries L ((key, val) # kvs) =
     (case jl_dump L val of
        None \<Rightarrow> (''      '' @ key @ '': '', False)
      | Some text' \<Rightarrow>
          (case theme_entries L kvs of (rest, ok) \<Rightarrow> (''      '' @ key @ '': '' @ text' @ '','' @ [NL] @ rest, ok)))"

definition plugin_lines :: "string list \<Rightarrow> string" where
  "plugin_lines plugins =
     (if plugins = [] then []
      else ''  plugins: ['' @ [NL] @
        concat (map (\<lambda>p. ''    require('' @ [CHR 0x27] @ js_escape p @ [CHR 0x27] @ ''),'' @ [NL]) plugins) @
        ''  ],'' @ [NL])"

definition config_text :: "json_lib \<Rightarrow> tailwind_config \<Rightarrow> string \<times> bool" where
  "config_text L cfg =
     (let quote = [CHR 0x27];
          start = ''/** @type {import('' @ quote @ ''tailwindcss'' @ quote @ '').Config} */'' @ [NL] @
            ''module.exports = {'' @ [NL] @ ''  content: ['' @ [NL] @ content_lines cfg @ ''  ],'' @ [NL] @
            ''  theme: {'' @ [NL] @ ''    extend: {'' @ [NL];
          (theme, ok) = (case tc_theme_overrides cfg of JObj kvs \<Rightarrow> theme_entries L kvs | _ \<Rightarrow> ([], True))
      in if \<not> ok then (start @ theme, False)
         else (start @ theme @ ''    },'' @ [NL] @ ''  },'' @ [NL] @ plugin_lines (tc_plugins cfg) @ ''}'' @ [NL], True))"

text \<open>Opening an \<open>ofstream\<close>: the directory must exist.\<close>

definition can_open :: "string \<Rightarrow> fs \<Rightarrow> bool" where
  "can_open p d \<longleftrightarrow> \<not> fs_deny_write d p \<and> fs_tree d p \<noteq> Some Dir \<and>
     (path_parent p = [] \<or> fs_tree d (path_parent p) = Some Dir)"

definition put_file :: "string \<Rightarrow> string \<Rightarrow> fs \<Rightarrow> fs" where
  "put_file p content d = d\<lparr>fs_tree := (fs_tree d)(p \<mapsto> File content)\<rparr>"

text \<open>An exception is the left side, with its text.\<close>

definition generate_config :: "json_lib \<Rightarrow> (json \<Rightarrow> string) \<Rightarrow> tailwind_config \<Rightarrow> fs \<Rightarrow> (string + string) \<times> fs" where
  "generate_config L what cfg d =
     (if tc_config_path cfg \<noteq> [] \<and> is_file (tc_config_path cfg) d then (Inr (tc_config_path cfg), d)
      else
        let config_path = path_join (tc_working_dir cfg) ''tailwind.config.js'' in
        if \<not> can_open config_path d then (Inl (''Cannot write tailwind config: '' @ config_path), d)
        else case config_text L cfg of (content, ok) \<Rightarrow>
          (if ok then Inr config_path else Inl (what (tc_theme_overrides cfg)), put_file config_path content d))"

definition generate_input_css :: "tailwind_config \<Rightarrow> string \<Rightarrow> fs \<Rightarrow> string option \<times> fs" where
  "generate_input_css cfg custom_css d =
     (let input_path = path_join (path_join (tc_working_dir cfg) ''assets'') ''input.css'' in
      and_then (ensure_dir (path_parent input_path) d) (\<lambda>_ d.
        if \<not> can_open input_path d then (None, d)
        else (Some input_path, put_file input_path
          (''@tailwind base;'' @ [NL] @ ''@tailwind components;'' @ [NL] @ ''@tailwind utilities;'' @ [NL, NL] @
           (if custom_css \<noteq> [] then custom_css @ [NL] else [])) d)))"

section \<open>Running the tool\<close>

definition tailwind_command :: "tailwind_config \<Rightarrow> string \<Rightarrow> string \<Rightarrow> string \<Rightarrow> string \<Rightarrow> bool \<Rightarrow> string" where
  "tailwind_command cfg cli input output config_path watching =
     cli @ '' --input '' @ input @ '' --output '' @ output @ '' --config '' @ config_path @
     (if watching then '' --watch'' else []) @
     (if tc_minify cfg then '' --minify'' else []) @ (if tc_sourcemaps cfg then '' --source-map'' else [])"

definition cli_of :: "shell \<Rightarrow> tailwind_config \<Rightarrow> fs \<Rightarrow> string" where
  "cli_of sh cfg d = (if tc_cli_path cfg = [] then find_cli sh d else tc_cli_path cfg)"

definition output_of :: "tailwind_config \<Rightarrow> string" where
  "output_of cfg = (if tc_output_css cfg = [] then path_join (path_join (tc_working_dir cfg) ''assets'') ''style.css''
     else tc_output_css cfg)"

text \<open>The input file, generated unless it is given, and the directory of the output: the two steps that
  are outside of the \<open>try\<close> block.\<close>

definition prepare_files :: "tailwind_config \<Rightarrow> fs \<Rightarrow> string option \<times> fs" where
  "prepare_files cfg d =
     and_then (if tc_input_css cfg = [] then generate_input_css cfg [] d else (Some (tc_input_css cfg), d)) (\<lambda>input d.
       and_then (ensure_dir (path_parent (output_of cfg)) d) (\<lambda>_ d. (Some input, d)))"

definition compile :: "shell \<Rightarrow> json_lib \<Rightarrow> (json \<Rightarrow> string) \<Rightarrow> tailwind_config \<Rightarrow> fs \<Rightarrow> tailwind_result option \<times> fs" where
  "compile sh L what cfg d =
     (let cli = cli_of sh cfg d; output = output_of cfg in
      if cli = [] then (Some (new_tailwind_result\<lparr>tr_error_message :=
        ''Tailwind CLI not found. Install with: npm install -D tailwindcss''\<rparr>), d)
      else case generate_config L what cfg d of
        (Inl e, d) \<Rightarrow> (Some (new_tailwind_result\<lparr>tr_error_message := ''Config generation failed: '' @ e\<rparr>), d)
      | (Inr config_path, d) \<Rightarrow>
          and_then (prepare_files cfg d) (\<lambda>input d.
            case exec_cmd sh (tailwind_command cfg cli input output config_path False @ '' 2>&1'') d of (out, d) \<Rightarrow>
              (Some (if is_file output d
                 then new_tailwind_result\<lparr>tr_success := True, tr_output_path := output, tr_output_size := size_of output d\<rparr>
                 else new_tailwind_result\<lparr>tr_error_message := ''Tailwind compilation failed. Output: '' @ out\<rparr>), d)))"

text \<open>\<open>system\<close> is the blocking call of the C library: its status and the disk.\<close>

definition watch ::
    "shell \<Rightarrow> json_lib \<Rightarrow> (json \<Rightarrow> string) \<Rightarrow> (string \<Rightarrow> fs \<Rightarrow> int \<times> fs) \<Rightarrow> tailwind_config \<Rightarrow> fs \<Rightarrow> tailwind_result option \<times> fs" where
  "watch sh L what system cfg d =
     (let cli = cli_of sh cfg d in
      if cli = [] then (Some (new_tailwind_result\<lparr>tr_error_message := ''Tailwind CLI not found''\<rparr>), d)
      else case generate_config L what cfg d of
        (Inl e, d) \<Rightarrow> (Some (new_tailwind_result\<lparr>tr_error_message := ''Config generation failed: '' @ e\<rparr>), d)
      | (Inr config_path, d) \<Rightarrow>
          and_then (prepare_files cfg d) (\<lambda>input d.
            case system (tailwind_command cfg cli input (output_of cfg) config_path True) d of (ret, d) \<Rightarrow>
              (Some (if ret = 0 then new_tailwind_result\<lparr>tr_success := True\<rparr>
                 else new_tailwind_result\<lparr>tr_error_message := ''Tailwind watch exited with code '' @ show_int ret\<rparr>), d)))"

definition purge ::
    "shell \<Rightarrow> json_lib \<Rightarrow> (json \<Rightarrow> string) \<Rightarrow> tailwind_config \<Rightarrow> string \<Rightarrow> string list \<Rightarrow> fs \<Rightarrow> tailwind_result option \<times> fs" where
  "purge sh L what cfg css_input content_files d =
     compile sh L what (cfg\<lparr>tc_input_css := css_input, tc_minify := True,
       tc_content_patterns := tc_content_patterns cfg @ content_files\<rparr>) d"

text \<open>What \<open>TailwindWatcher::start\<close> does before it starts the thread: the command line to run, or \<open>None\<close> inside
  when it returns false; an exception is the outer \<open>None\<close>.\<close>

definition tw_launch :: "shell \<Rightarrow> json_lib \<Rightarrow> (json \<Rightarrow> string) \<Rightarrow> tailwind_config \<Rightarrow> fs \<Rightarrow> string option option \<times> fs" where
  "tw_launch sh L what cfg d =
     (let cli = cli_of sh cfg d in
      if cli = [] then (Some None, d)
      else case generate_config L what cfg d of
        (Inl e, d) \<Rightarrow> (Some None, d)
      | (Inr config_path, d) \<Rightarrow>
          and_then (prepare_files cfg d) (\<lambda>input d.
            (Some (Some (tailwind_command cfg cli input (output_of cfg) config_path True)), d)))"

section \<open>Scanning for classes\<close>

text \<open>The regular expression \<open>(?:class(?:Name)?|tw)\s*[=:]\s*["']([^"']+)["']\<close>.  After one of its names the match is
  unique; \<open>attr_value\<close> gives the group and the rest of the text.\<close>

definition is_js_quote :: "char \<Rightarrow> bool" where
  "is_js_quote c \<longleftrightarrow> c = CHR 0x22 \<or> c = CHR 0x27"

definition attr_value :: "string \<Rightarrow> (string \<times> string) option" where
  "attr_value s =
     (let s = dropWhile isspace s in
      if s = [] \<or> hd s \<noteq> CHR ''='' \<and> hd s \<noteq> CHR '':'' then None
      else let s = dropWhile isspace (tl s) in
        if s = [] \<or> \<not> is_js_quote (hd s) then None
        else let grp = takeWhile (\<lambda>c. \<not> is_js_quote c) (tl s); rest = dropWhile (\<lambda>c. \<not> is_js_quote c) (tl s) in
          if grp = [] \<or> rest = [] then None else Some (grp, tl rest))"

fun first_attr :: "string list \<Rightarrow> string \<Rightarrow> (string \<times> string) option" where
  "first_attr [] s = None"
| "first_attr (name # names) s =
     (case (if starts_with s name then attr_value (drop (length name) s) else None) of
        None \<Rightarrow> first_attr names s
      | Some m \<Rightarrow> Some m)"

definition class_attr :: "string \<Rightarrow> (string \<times> string) option" where
  "class_attr s = first_attr [''className'', ''class'', ''tw''] s"

lemma attr_value_length: "attr_value s = Some (grp, rest) \<Longrightarrow> length rest < length s"
proof -
  have drop: "length (dropWhile P xs) \<le> length xs" for P and xs :: string by (rule length_dropWhile_le)
  assume "attr_value s = Some (grp, rest)"
  then obtain t u where "t = dropWhile isspace s" "t \<noteq> []" "u = dropWhile isspace (tl t)" "u \<noteq> []"
    "rest = tl (dropWhile (\<lambda>c. \<not> is_js_quote c) (tl u))"
    by (auto simp: attr_value_def Let_def split: if_splits)
  note x = this
  have "length t \<le> length s" unfolding x(1) by (rule drop)
  moreover have "length u \<le> length (tl t)" unfolding x(3) by (rule drop)
  moreover have "length rest \<le> length (tl u)" unfolding x(5) using drop [of "\<lambda>c. \<not> is_js_quote c" "tl u"] by simp
  ultimately show ?thesis using x(2) by (cases t) auto
qed

lemma first_attr_length: "first_attr names s = Some (grp, rest) \<Longrightarrow> length rest < length s"
  by (induction names) (auto split: option.splits if_splits dest!: attr_value_length)

lemma class_attr_length: "class_attr s = Some (grp, rest) \<Longrightarrow> length rest < length s"
  unfolding class_attr_def by (rule first_attr_length)

text \<open>The groups of all matches, from the left.\<close>

function class_values :: "string \<Rightarrow> string list" where
  "class_values s =
     (case s of
        [] \<Rightarrow> []
      | c # cs \<Rightarrow> (case class_attr s of None \<Rightarrow> class_values cs | Some (grp, rest) \<Rightarrow> grp # class_values rest))"
  by pat_completeness auto
termination
  by (relation "measure length") (auto dest: class_attr_length)

declare class_values.simps [simp del]

fun split_ws :: "string \<Rightarrow> string \<Rightarrow> string list" where
  "split_ws w [] = (if w = [] then [] else [w])"
| "split_ws w (c # cs) =
     (if isspace c then (if w = [] then split_ws [] cs else w # split_ws [] cs) else split_ws (w @ [c]) cs)"

definition scanned_extensions :: "string list" where
  "scanned_extensions = [''.html'', ''.htm'', ''.js'', ''.ts'', ''.jsx'', ''.tsx'', ''.vue'', ''.svelte'', ''.astro'', ''.md'',
     ''.php'', ''.nift'']"

definition file_classes :: "fs \<Rightarrow> string \<Rightarrow> string list" where
  "file_classes d p =
     (if path_extension p \<notin> set scanned_extensions then []
      else case read_file p d of
        Inl e \<Rightarrow> []
      | Inr content \<Rightarrow> concat (map (split_ws []) (class_values content)))"

text \<open>\<open>entries\<close>: the paths that the recursive iterator delivers.\<close>

definition scan_classes :: "fs \<Rightarrow> string list \<Rightarrow> string list" where
  "scan_classes d entries = remdups (sort (concat (map (file_classes d) (filter (\<lambda>p. is_file p d) entries))))"

section \<open>The content list\<close>

text \<open>A reader of JavaScript string literals in double quotes, after the opening quote: the string and how
  much of the source it takes, closing quote included.\<close>

definition js_unescape_char :: "char \<Rightarrow> char" where
  "js_unescape_char c = (if c = CHR ''n'' then NL else if c = CHR ''r'' then CHR 0x0D else if c = CHR ''t'' then CHR 0x09 else c)"

fun read_js :: "string \<Rightarrow> (string \<times> nat) option" where
  "read_js [] = None"
| "read_js [c] = (if c = CHR 0x22 then Some ([], 1) else None)"
| "read_js (c # e # cs) =
     (if c = CHR 0x22 then Some ([], 1)
      else if c = NL \<or> c = CHR 0x0D then None
      else if c = CHR 0x5C then map_option (\<lambda>(s, n). (js_unescape_char e # s, n + 2)) (read_js cs)
      else map_option (\<lambda>(s, n). (c # s, n + 1)) (read_js (e # cs)))"

lemma read_js_escape_char:
  "read_js (js_escape_char c @ rest) = map_option (\<lambda>(s, n). (c # s, n + length (js_escape_char c))) (read_js rest)"
  by (cases rest) (auto simp: js_escape_char_def js_unescape_char_def NL_def)

text \<open>A string that \<open>js_escape\<close> writes between double quotes is the value of the literal, whatever it holds.\<close>

lemma read_js_escape: "read_js (js_escape s @ CHR 0x22 # rest) = Some (s, Suc (length (js_escape s)))"
proof (induction s)
  case Nil
  then show ?case by (cases rest) (simp_all add: js_escape_def)
next
  case (Cons c s)
  have e: "js_escape (c # s) = js_escape_char c @ js_escape s" by (simp add: js_escape_def)
  from Cons show ?case by (simp add: e read_js_escape_char)
qed

lemma js_escape_append: "js_escape (s @ t) = js_escape s @ js_escape t"
  by (simp add: js_escape_def)

text \<open>A content directory stands in the list as the pattern of the files below it.\<close>

lemma content_dir_line_pattern: "content_dir_line dir = content_pattern_line (dir @ content_glob)"
proof -
  have "js_escape content_glob = content_glob" by code_simp
  then show ?thesis by (simp add: content_dir_line_def content_pattern_line_def js_escape_append)
qed

text \<open>The file is no JavaScript when there are two paths: the literals stand on two lines without a comma
  between them.\<close>

lemma content_without_commas:
  assumes "tc_content_dirs cfg = []" "tc_content_patterns cfg = [''a'', ''b'']"
  shows "content_lines cfg = ''    '' @ CHR 0x22 # ''a'' @ CHR 0x22 # NL # ''    '' @ CHR 0x22 # ''b'' @ CHR 0x22 # [NL]"
  using assms by (simp add: content_lines_def content_pattern_line_def js_escape_def js_escape_char_def NL_def)

text \<open>The name of a plugin stands in single quotes, which \<open>js_escape\<close> does not escape.\<close>

lemma plugin_quote: "CHR 0x27 \<notin> set (js_escape_char c) \<longleftrightarrow> c \<noteq> CHR 0x27"
  by (auto simp: js_escape_char_def NL_def)

text \<open>Paths with a blank become several arguments.\<close>

lemma tailwind_blank:
  "take 4 (shell_words (tailwind_command cfg ''tailwindcss'' ''my site/in.css'' ''o.css'' ''c.js'' watching)) =
     [Arg ''tailwindcss'', Arg ''--input'', Arg ''my'', Arg ''site/in.css'']"
  by (simp add: tailwind_command_def shell_words_def flush_word_def)

text \<open>An output without a directory makes \<open>compile\<close> throw before the tool is run.\<close>

lemma compile_bare_output:
  assumes "tc_cli_path cfg \<noteq> []" "tc_input_css cfg \<noteq> []" "tc_output_css cfg = ''style.css''"
    "generate_config L what cfg d = (Inr p, d')"
  shows "fst (compile sh L what cfg d) = None"
proof -
  have "path_parent ''style.css'' = []" by code_simp
  then show ?thesis
    using assms by (simp add: compile_def cli_of_def output_of_def prepare_files_def ensure_dir_def create_directories_def
        Let_def split: prod.split)
qed

section \<open>Class names\<close>

lemma split_ws_spec:
  "\<forall>c\<in>set w. \<not> isspace c \<Longrightarrow> x \<in> set (split_ws w s) \<Longrightarrow> x \<noteq> [] \<and> (\<forall>c\<in>set x. \<not> isspace c)"
proof (induction s arbitrary: w)
  case (Cons c s)
  show ?case
  proof (cases "isspace c")
    case True
    then have "x \<in> set (split_ws [] s) \<or> w \<noteq> [] \<and> x = w" using Cons.prems by (auto split: if_splits)
    then show ?thesis using Cons.IH [of "[]"] Cons.prems by auto
  next
    case False
    then have "\<forall>d\<in>set (w @ [c]). \<not> isspace d" "x \<in> set (split_ws (w @ [c]) s)" using Cons.prems by simp_all
    then show ?thesis by (rule Cons.IH)
  qed
qed (auto split: if_splits)

lemma split_ws_concat: "\<forall>c\<in>set w. \<not> isspace c \<Longrightarrow> concat (split_ws w s) = w @ filter (\<lambda>c. \<not> isspace c) s"
proof (induction s arbitrary: w)
  case (Cons c s)
  show ?case
  proof (cases "isspace c")
    case True
    then show ?thesis using Cons.IH [of "[]"] by simp
  next
    case False
    then show ?thesis using Cons.IH [of "w @ [c]"] Cons.prems by auto
  qed
qed auto

text \<open>The scan gives every class once, in order, each without white space, and exactly those of the files of
  the known kinds that it can read.\<close>

lemma scan_classes_spec:
  "sorted_wrt (<) (scan_classes d entries) \<and>
   (\<forall>x\<in>set (scan_classes d entries). x \<noteq> [] \<and> (\<forall>c\<in>set x. \<not> isspace c)) \<and>
   (x \<in> set (scan_classes d entries) \<longleftrightarrow> (\<exists>p\<in>set entries. \<exists>content. path_extension p \<in> set scanned_extensions \<and>
      read_file p d = Inr content \<and> (\<exists>v\<in>set (class_values content). x \<in> set (split_ws [] v))))"
proof -
  have "sorted (scan_classes d entries) \<and> distinct (scan_classes d entries)"
    by (simp add: scan_classes_def)
  then have "sorted_wrt (<) (scan_classes d entries)" by (simp add: strict_sorted_iff)
  moreover have mem: "x \<in> set (scan_classes d entries) \<longleftrightarrow> (\<exists>p\<in>set entries. \<exists>content. path_extension p \<in> set scanned_extensions \<and>
      read_file p d = Inr content \<and> (\<exists>v\<in>set (class_values content). x \<in> set (split_ws [] v)))" for x
  proof -
    have readable: "read_file p d = Inr content \<Longrightarrow> is_file p d" for p content
      by (auto simp: read_file_def is_file_def split: option.splits fs_entry.splits)
    have "x \<in> set (file_classes d p) \<longleftrightarrow> (\<exists>content. path_extension p \<in> set scanned_extensions \<and> read_file p d = Inr content \<and>
        (\<exists>v\<in>set (class_values content). x \<in> set (split_ws [] v)))" for p
      by (cases "read_file p d") (auto simp: file_classes_def)
    then show ?thesis using readable by (auto simp: scan_classes_def)
  qed
  moreover have "\<forall>x\<in>set (scan_classes d entries). x \<noteq> [] \<and> (\<forall>c\<in>set x. \<not> isspace c)"
  proof
    fix x
    assume "x \<in> set (scan_classes d entries)"
    then obtain v where "x \<in> set (split_ws [] v)" unfolding mem by blast
    then show "x \<noteq> [] \<and> (\<forall>c\<in>set x. \<not> isspace c)" using split_ws_spec [of "[]"] by simp
  qed
  ultimately show ?thesis by blast
qed

end
