(* ===== verification/Nift_Serve.thy ===== *)
theory Nift_Serve
  imports Nift_Evaluator Nift_Commands Nift_Server Nift_Watcher Nift_Tailwind
begin

text \<open>
  The command \<open>serve\<close> of \<open>crates/cli/src/commands.cpp\<close>, which composes the build, the HTTP server, the
  polling watcher and Tailwind.  \<open>serve_setup\<close> is the command up to its waiting loop, which ends only
  when the server stops; \<open>serve_poll\<close> is one round of the watcher's thread with the callback that the
  command installs.  The parameters are those of the components.
\<close>

section \<open>The command\<close>

record serve_env =
  sv_cli :: cli_env
  sv_sh :: shell
  sv_what :: "json \<Rightarrow> string"
  sv_bind :: "string \<Rightarrow> 16 word \<Rightarrow> int"
  sv_order :: "mtimes \<Rightarrow> string list"
  sv_listing :: "string \<Rightarrow> fs \<Rightarrow> dir_entry list option"

text \<open>A session: the disk, the server, the watcher if there is one, and the command that Tailwind runs.\<close>

record session =
  ss_disk :: fs
  ss_server :: http_server
  ss_watcher :: "file_watcher option"
  ss_tailwind :: "string option"

text \<open>\<open>static_cast<std::uint16_t>(std::stoi(...))\<close>, or 8080 when it throws.\<close>

definition serve_port :: "parsed_args \<Rightarrow> 16 word" where
  "serve_port args = (case stoi (args_get ''port'' ''8080'' args) of None \<Rightarrow> 8080 | Some i \<Rightarrow> word_of_int i)"

definition serve_config :: "parsed_args \<Rightarrow> project_config \<Rightarrow> server_config" where
  "serve_config args cfg = default_server_config\<lparr>sc_host := args_get ''host'' ''127.0.0.1'' args,
     sc_port := serve_port args, sc_root := pc_output_dir cfg\<rparr>"

definition serve_watcher :: "project_config \<Rightarrow> file_watcher" where
  "serve_watcher cfg = \<lparr>fw_config = \<lparr>wc_root = pc_content_dir cfg, wc_ignored_substrings = default_ignored\<rparr>,
     fw_callback = False, fw_running = False, fw_mtimes = Map.empty\<rparr>"

definition serve_tailwind :: "string \<Rightarrow> project_config \<Rightarrow> tailwind_config" where
  "serve_tailwind root cfg = \<lparr>tc_cli_path = [], tc_config_path = [], tc_input_css = [],
     tc_output_css = (if pc_output_dir cfg = [] then [] else path_join (pc_output_dir cfg) ''style.css''),
     tc_content_dirs = [pc_content_dir cfg], tc_content_patterns = [], tc_minify = False, tc_sourcemaps = False,
     tc_theme_overrides = JNull, tc_plugins = [], tc_working_dir = root\<rparr>"

text \<open>The left side is the end of the command: its outcome, or an exception.\<close>

definition serve_setup :: "serve_env \<Rightarrow> parsed_args \<Rightarrow> fs \<Rightarrow> (outcome option + session) \<times> fs" where
  "serve_setup V args d =
     (case cmd_build (sv_cli V) args d of
        (None, d) \<Rightarrow> (Inl None, d)
      | (Some oc, d) \<Rightarrow>
          if oc_exit oc \<noteq> 0 then (Inl (Some oc), d)
          else
            let root = target_dir args; cfg = load_or_default (sv_cli V) root d
            in case server_start (sv_bind V) (new_server (serve_config args cfg)) of
                 (Inl e, server) \<Rightarrow>
                   (Inl (Some (oc\<lparr>oc_exit := 2, oc_err := oc_err oc @ ''serve: failed to start HTTP server'' @ [NL]\<rparr>)), d)
               | (Inr _, server) \<Rightarrow>
                   let watch = \<not> args_get_bool ''no-watch'' False args;
                       watcher = (if watch
                         then (case watcher_start (sv_order V) True (sv_listing V (pc_content_dir cfg) d) (serve_watcher cfg) of
                                 (Inl e, w) \<Rightarrow> None | (Inr _, w) \<Rightarrow> Some w)
                         else None)
                   in if watch \<and> is_available (sv_sh V) d
                   then (case tw_launch (sv_sh V) (ce_lib (sv_cli V)) (sv_what V) (serve_tailwind root cfg) d of
                           (None, d) \<Rightarrow> (Inl None, d)
                         | (Some cmd, d) \<Rightarrow>
                             (Inr \<lparr>ss_disk = d, ss_server = server, ss_watcher = watcher, ss_tailwind = cmd\<rparr>, d))
                   else (Inr \<lparr>ss_disk = d, ss_server = server, ss_watcher = watcher, ss_tailwind = None\<rparr>, d))"

definition rebuild_args :: "parsed_args \<Rightarrow> parsed_args" where
  "rebuild_args args = args\<lparr>pa_bools := (pa_bools args)(''quiet'' \<mapsto> True)\<rparr>"

text \<open>The callback; the watcher swallows an exception of the build, and the pages are not told then.\<close>

definition serve_callback :: "serve_env \<Rightarrow> parsed_args \<Rightarrow> (nat \<Rightarrow> bool) \<Rightarrow> session \<Rightarrow> session" where
  "serve_callback V args writes s =
     (case cmd_build (sv_cli V) (rebuild_args args) (ss_disk s) of
        (None, d) \<Rightarrow> s\<lparr>ss_disk := d\<rparr>
      | (Some oc, d) \<Rightarrow> s\<lparr>ss_disk := d, ss_server := snd (notify_rebuild writes (ss_server s))\<rparr>)"

text \<open>One round of the watcher's thread.\<close>

definition serve_poll :: "serve_env \<Rightarrow> parsed_args \<Rightarrow> (nat \<Rightarrow> bool) \<Rightarrow> session \<Rightarrow> session" where
  "serve_poll V args writes s =
     (case ss_watcher s of
        None \<Rightarrow> s
      | Some w \<Rightarrow>
          if \<not> fw_running w then s
          else case watcher_scan (sv_order V) (sv_listing V (wc_root (fw_config w)) (ss_disk s)) w of (events, w) \<Rightarrow>
            let s = s\<lparr>ss_watcher := Some w\<rparr>
            in if events \<noteq> [] \<and> fw_callback w then serve_callback V args writes s else s)"

section \<open>A rebuild writes every source\<close>

lemma cache_create_keeps_file:
  "cache_create dir d = (cache, d') \<Longrightarrow> fs_tree d q = Some (File s) \<Longrightarrow> fs_tree d' q = Some (File s)"
  by (cases "create_directories dir d") (auto simp: cache_create_def dest: create_directories_frame(1))

lemma build_one_uncached: "fr_status (fst (build_one P a (None, d))) \<noteq> Cached"
  by (auto simp: failed_def Let_def split: sum.split prod.split)

lemma steps_uncached: "fst st = None \<Longrightarrow> fst (fold (step_of P inputs) js st) = None"
proof (induction js arbitrary: st)
  case (Cons j js)
  then show ?case
    by (cases st; cases rule: build_one_disk [of P "inputs ! j" "fst st" "snd st"]) auto
qed simp

text \<open>Without the cache a build that exits with 0 has built every source.\<close>

lemma build_all_built:
  assumes "all_independent P inputs" "distinct sched" "set sched = {0..<length inputs}"
    and "build P inputs sched (None, d) = (report, st')" "br_failed report = 0" "i < length inputs"
  shows "fr_status (br_results report ! i) = Built"
proof -
  have r: "br_results report = map (\<lambda>a. fst (build_one P a (None, d))) inputs"
    "br_failed report = count_status Failed (map (\<lambda>a. fst (build_one P a (None, d))) inputs)"
    using assms(4) unfolding build_steps [OF assms(1-3)] by (auto simp: count_results_closed simp del: build_one.simps)
  then have "fr_status (fst (build_one P (inputs ! i) (None, d))) \<noteq> Failed"
    using assms(5,6) by (auto simp: count_status_def filter_empty_conv simp del: build_one.simps)
  with build_one_uncached [of P "inputs ! i" d] r(1) assms(6)
  show ?thesis by (cases "fr_status (fst (build_one P (inputs ! i) (None, d)))") (simp_all del: build_one.simps)
qed

definition pipeline_of :: "cli_env \<Rightarrow> project_config \<Rightarrow> pipeline" where
  "pipeline_of E cfg = \<lparr>pl_output_dir = pc_output_dir cfg, pl_mmap = ce_mmap E, pl_blake3 = ce_blake3 E\<rparr>"

text \<open>The sources that \<open>build\<close> finds, after it has made the cache directory.\<close>

definition sources_of :: "cli_env \<Rightarrow> project_config \<Rightarrow> fs \<Rightarrow> string list" where
  "sources_of E cfg d = discover_sources E (pc_content_dir cfg) (snd (cache_create (pc_cache_dir cfg) d))"

lemma cmd_build_writes:
  assumes "cmd_build E args d = (Some oc, d')" "oc_exit oc = 0" "args_get_bool ''no-cache'' False args"
    and "cfg = load_or_default E (target_dir args) d" "sources = sources_of E cfg d"
    and "all_independent (pipeline_of E cfg) sources" "distinct (ce_sched E sources)"
      "set (ce_sched E sources) = {0..<length sources}"
    and "a \<in> set sources" "fs_tree d a = Some (File s)"
  shows "fs_tree d' (output_path (pipeline_of E cfg) a) = Some (File s)"
proof -
  obtain cache d1 where c: "cache_create (pc_cache_dir cfg) d = (cache, d1)" by fastforce
  obtain report c2 d2 where b: "build (pipeline_of E cfg) sources (ce_sched E sources) (None, d1) = (report, c2, d2)"
    by (cases "build (pipeline_of E cfg) sources (ce_sched E sources) (None, d1)") auto
  have src: "sources \<noteq> []" "discover_sources E (pc_content_dir cfg) d1 = sources" using assms(5,9) c by (auto simp: sources_of_def)
  have "c2 = None"
    using b steps_uncached [of "(None, d1)"] unfolding build_steps [OF assms(6-8)] by (metis fst_conv snd_conv)
  have "br_failed report = 0 \<and> d' = d2"
    using assms(1,2,3) src(1) b
    unfolding cmd_build_def Let_def assms(4) [symmetric] c prod.case src(2) pipeline_of_def [symmetric]
    by (auto simp: exits_def \<open>c2 = None\<close> split: if_splits)
  moreover obtain i where i: "i < length sources" "sources ! i = a" using assms(9) by (metis in_set_conv_nth)
  moreover have "fs_tree d1 a = Some (File s)" using cache_create_keeps_file [OF c assms(10)] .
  ultimately show ?thesis
    using build_output_rule [OF assms(6-8) b i(1)] build_all_built [OF assms(6-8) b] by simp
qed

section \<open>From an edit to the browser\<close>

text \<open>C3: An edited page reaches the browser.  A round of the watcher sees a change, and the rebuild that its
  callback runs with \<open>--no-cache\<close> exits with 0; the server serves the output directory; the sources have
  file names, all different, none is the output of itself or of another, and the pool runs each of them once.
  Then a request for the page of a source is answered with what the source holds now, with the
  reload script where it is HTML, and the token that browsers poll has changed.  This holds for a page
  whose file name has no percent sign, question mark, NUL or separator and is not \<open>..\<close>, and whose output
  file can be read and lies inside the root.\<close>

theorem serve_fresh_page:
  assumes "ss_watcher s = Some w" "fw_running w" "fw_callback w"
    and "fst (watcher_scan (sv_order V) (sv_listing V (wc_root (fw_config w)) (ss_disk s)) w) \<noteq> []"
    and "cmd_build E (rebuild_args args) (ss_disk s) = (Some oc, d')" "oc_exit oc = 0" "E = sv_cli V"
    and "args_get_bool ''no-cache'' False args"
    and "cfg = load_or_default E (target_dir args) (ss_disk s)" "sources = sources_of E cfg (ss_disk s)"
    and "all_independent (pipeline_of E cfg) sources" "distinct (ce_sched E sources)"
      "set (ce_sched E sources) = {0..<length sources}"
    and "a \<in> set sources" "fs_tree (ss_disk s) a = Some (File page)"
    and "sc_root (hs_config (ss_server s)) = pc_output_dir cfg"
    and "name = path_filename a" "\<forall>c\<in>set name. c \<noteq> CHR ''%'' \<and> c \<noteq> CHR ''?'' \<and> c \<noteq> NUL \<and> \<not> is_sep c" "name \<noteq> ''..''"
    and "\<not> fs_deny_read d' (pc_output_dir cfg @ CHR ''/'' # name)"
      "contained canon (pc_output_dir cfg) (pc_output_dir cfg @ CHR ''/'' # name)"
  shows "let s' = serve_poll V args writes s; config = hs_config (ss_server s); mime = resolve_mime (CHR ''/'' # name) in
    static_handler canon (hs_config (ss_server s')) (CHR ''/'' # name) (ss_disk s') =
      \<lparr>rs_status = 200,
       rs_body = (if sc_inject_livereload config \<and> find_sub ''text/html'' mime \<noteq> None
                  then inject_livereload_script page (sc_script_path config) else page),
       rs_type = mime\<rparr> \<and>
    rs_body (poll_handler (ss_server s')) \<noteq> rs_body (poll_handler (ss_server s))"
proof -
  let ?out = "pc_output_dir cfg @ CHR ''/'' # name" and ?server = "snd (notify_rebuild writes (ss_server s))"
  obtain events w' where scan: "watcher_scan (sv_order V) (sv_listing V (wc_root (fw_config w)) (ss_disk s)) w = (events, w')"
    by fastforce
  then have w': "events \<noteq> []" "fw_callback w'"
    using assms(3,4) by (auto simp: watcher_scan_def Let_def split: option.splits)
  have s': "ss_disk (serve_poll V args writes s) = d' \<and> ss_server (serve_poll V args writes s) = ?server"
    using assms(1,2,5,7) scan w' by (simp add: serve_poll_def serve_callback_def)
  have "target_dir (rebuild_args args) = target_dir args" "args_get_bool ''no-cache'' False (rebuild_args args)"
    using assms(8) by (auto simp: rebuild_args_def target_dir_def args_get_bool_def split: option.splits)
  then have "fs_tree d' (output_path (pipeline_of E cfg) a) = Some (File page)"
    using cmd_build_writes [OF assms(5,6) _ _ assms(10-15)] assms(9) by simp
  then have page: "fs_tree d' ?out = Some (File page)" using assms(17) by (simp add: output_path_def pipeline_of_def)
  have "name \<noteq> []" using assms(11,14,17) by (auto simp: all_independent_def)
  then have "resolve_static canon (pc_output_dir cfg) (CHR ''/'' # name) d' = Some (page, resolve_mime (CHR ''/'' # name))"
    using plain_path_served [of name d' "pc_output_dir cfg" page canon] assms(18-21) page by simp
  moreover have "hs_config ?server = hs_config (ss_server s)" by (simp add: notify_rebuild_def push_reload_event_def)
  moreover have "rs_body (poll_handler ?server) \<noteq> rs_body (poll_handler (ss_server s))"
  proof -
    have "show_nat m = show_nat n \<longleftrightarrow> m = n" for m n by (metis digits_value_show_nat)
    moreover have "unat (g + 1) \<noteq> unat g" for g :: "64 word" by (simp flip: word_unat_eq_iff)
    ultimately show ?thesis by (simp add: poll_handler_def notify_rebuild_def push_reload_event_def)
  qed
  ultimately show ?thesis using s' assms(16) by (auto simp: static_handler_def Let_def)
qed

definition serve_demo_cli :: cli_env where
  "serve_demo_cli = \<lparr>ce_lib = \<lparr>jl_to_cbor = (\<lambda>j. []), jl_from_cbor = (\<lambda>s. None), jl_dump = (\<lambda>j. None), jl_parse = (\<lambda>s. None)\<rparr>,
     ce_mmap = (\<lambda>p. True), ce_blake3 = (\<lambda>s. []), ce_sources = (\<lambda>p d. [''p/content/x.html'']),
     ce_files_below = (\<lambda>p d. 1), ce_sched = (\<lambda>qs. [0..<length qs]), ce_keys = (\<lambda>m. []), ce_walk = (\<lambda>p d. []),
     ce_version = ''2'', ce_elapsed = 0\<rparr>"

definition serve_demo_env :: serve_env where
  "serve_demo_env = \<lparr>sv_cli = serve_demo_cli, sv_sh = (\<lambda>cmd d. ([], d)), sv_what = (\<lambda>j. []), sv_bind = (\<lambda>host port. uint port),
     sv_order = key_order, sv_listing = (\<lambda>dir d. Some [(''p/content/x.html'', True, Some 2)])\<rparr>"

definition serve_demo_args :: parsed_args where
  "serve_demo_args = no_args\<lparr>pa_positional := [''p''], pa_bools := [''no-cache'' \<mapsto> True]\<rparr>"

definition serve_demo_session :: session where
  "serve_demo_session = \<lparr>
     ss_disk = site [''p'' \<mapsto> Dir, ''p/content'' \<mapsto> Dir, ''p/content/x.html'' \<mapsto> File ''<p>new</p></body>''],
     ss_server = new_server (serve_config serve_demo_args (rebase_config ''p'' default_config)),
     ss_watcher = Some ((serve_watcher (rebase_config ''p'' default_config))\<lparr>fw_callback := True, fw_running := True,
       fw_mtimes := [''p/content/x.html'' \<mapsto> 1]\<rparr>),
     ss_tailwind = None\<rparr>"

lemma serve_demo_build:
  "let r = cmd_build serve_demo_cli (rebuild_args serve_demo_args) (ss_disk serve_demo_session) in
     fst r \<noteq> None \<and> oc_exit (the (fst r)) = 0 \<and> \<not> fs_deny_read (snd r) ''p/public/x.html''"
  by code_simp

lemma serve_demo_scan:
  "fst (watcher_scan key_order (Some [(''p/content/x.html'', True, Some 2)]) (the (ss_watcher serve_demo_session))) =
     [(Modified, ''p/content/x.html'')]"
proof -
  have "scan_files default_ignored [(''p/content/x.html'', True, Some 2)] = [''p/content/x.html'' \<mapsto> 2]"
    by (simp add: scan_files_def scan_entry_def is_ignored_def default_ignored_def)
  moreover have "key_order [''p/content/x.html'' \<mapsto> t] = [''p/content/x.html'']" for t by (simp add: key_order_def)
  ultimately show ?thesis
    by (simp add: watcher_scan_def serve_demo_session_def serve_watcher_def change_events_def added_or_modified_def)
qed

lemma serve_fresh_page_witness:
  "rs_body (static_handler lexical_canon (hs_config (ss_server (serve_poll serve_demo_env serve_demo_args (\<lambda>c. True) serve_demo_session)))
     ''/x.html'' (ss_disk (serve_poll serve_demo_env serve_demo_args (\<lambda>c. True) serve_demo_session))) =
   ''<p>new</p>'' @ livereload_tag ''/__nift/livereload.js'' @ ''</body>''"
proof -
  let ?E = serve_demo_cli and ?s = serve_demo_session and ?cfg = "rebase_config ''p'' default_config"
  obtain w where w: "ss_watcher ?s = Some w" "fw_running w" "fw_callback w" "wc_root (fw_config w) = ''p/content''"
    by (simp add: serve_demo_session_def serve_watcher_def rebase_config_def rebase_def default_config_def)
  have scan: "fst (watcher_scan (sv_order serve_demo_env) (sv_listing serve_demo_env (wc_root (fw_config w)) (ss_disk ?s)) w) \<noteq> []"
    using serve_demo_scan w(1) by (simp add: serve_demo_env_def)
  obtain oc d' where b: "cmd_build ?E (rebuild_args serve_demo_args) (ss_disk ?s) = (Some oc, d')" "oc_exit oc = 0"
    "\<not> fs_deny_read d' ''p/public/x.html''"
    using serve_demo_build by (cases "cmd_build ?E (rebuild_args serve_demo_args) (ss_disk ?s)") (auto simp: Let_def)
  have cfg: "?cfg = load_or_default ?E (target_dir serve_demo_args) (ss_disk ?s)"
    by (simp add: load_or_default_def legacy_candidates_def target_dir_def serve_demo_args_def no_args_def
        file_exists_def site_def serve_demo_session_def)
  have src: "[''p/content/x.html''] = sources_of ?E ?cfg (ss_disk ?s)" by code_simp
  have out: "pc_output_dir ?cfg = ''p/public''" "path_filename ''p/content/x.html'' = ''x.html''" by code_simp+
  have ind: "all_independent (pipeline_of ?E ?cfg) [''p/content/x.html'']"
    by (simp add: all_independent_def out output_path_def pipeline_of_def)
  have sched: "ce_sched ?E [''p/content/x.html''] = [0]" by (simp add: serve_demo_cli_def)
  have cont: "contained lexical_canon ''p/public'' ''p/public/x.html''" by code_simp
  have root: "sc_root (hs_config (ss_server ?s)) = pc_output_dir ?cfg" "args_get_bool ''no-cache'' False serve_demo_args"
    "fs_tree (ss_disk ?s) ''p/content/x.html'' = Some (File ''<p>new</p></body>'')"
    by (simp_all add: serve_demo_session_def new_server_def serve_config_def serve_demo_args_def args_get_bool_def site_def)
  note f = serve_fresh_page [OF w(1-3) scan b(1,2) _ root(2) cfg src ind, of "''p/content/x.html''" "''<p>new</p></body>''" "''x.html''" lexical_canon]
  have "static_handler lexical_canon (hs_config (ss_server (serve_poll serve_demo_env serve_demo_args (\<lambda>c. True) ?s)))
      ''/x.html'' (ss_disk (serve_poll serve_demo_env serve_demo_args (\<lambda>c. True) ?s)) =
      \<lparr>rs_status = 200,
       rs_body = (if sc_inject_livereload (hs_config (ss_server ?s)) \<and> find_sub ''text/html'' (resolve_mime ''/x.html'') \<noteq> None
         then inject_livereload_script ''<p>new</p></body>'' (sc_script_path (hs_config (ss_server ?s))) else ''<p>new</p></body>''),
       rs_type = resolve_mime ''/x.html''\<rparr>"
    using f [of "\<lambda>c. True"] root(1,3) b(3) cont
    by (simp add: sched out serve_demo_env_def NUL_def is_sep_def Let_def)
  moreover have "sc_inject_livereload (hs_config (ss_server ?s))" "sc_script_path (hs_config (ss_server ?s)) = ''/__nift/livereload.js''"
    by (simp_all add: serve_demo_session_def new_server_def serve_config_def default_server_config_def)
  moreover have "find_sub ''text/html'' (resolve_mime ''/x.html'') \<noteq> None \<and>
      inject_livereload_script ''<p>new</p></body>'' ''/__nift/livereload.js'' =
        ''<p>new</p>'' @ livereload_tag ''/__nift/livereload.js'' @ ''</body>''"
    by code_simp
  ultimately show ?thesis by simp
qed

end
