(* ===== verification/Nift_Assets.thy ===== *)
theory Nift_Assets
  imports Nift_Core
begin

text \<open>
  The asset helpers of the server, \<open>crates/server/assets/assets.cpp\<close>: image formats by their first bytes,
  and the CSS and JavaScript minifiers.  The output string of a minifier is the argument \<open>out\<close> of its
  loop, the bytes that are left its first argument.
\<close>

section \<open>Image formats\<close>

datatype image_format = Unknown | PNG | JPEG | WEBP | GIF | SVG | AVIF

definition starts_with_at :: "string \<Rightarrow> nat \<Rightarrow> string \<Rightarrow> bool" where
  "starts_with_at s off p \<longleftrightarrow> off + length p \<le> length s \<and> take (length p) (drop off s) = p"

definition sniff_svg :: "string \<Rightarrow> bool" where
  "sniff_svg buf =
     (let rest = dropWhile isspace buf
      in 4 \<le> length rest \<and> (starts_with rest ''<svg'' \<or> starts_with rest ''<?xml'') \<and>
         (starts_with rest ''<svg'' \<or> find_sub ''<svg'' rest \<noteq> None))"

definition detect_image_format :: "string \<Rightarrow> image_format" where
  "detect_image_format buf =
     (if 8 \<le> length buf \<and> starts_with buf (CHR 0x89 # ''PNG'' @ [CHR 0x0D, CHR 0x0A, CHR 0x1A, CHR 0x0A]) then PNG
      else if 3 \<le> length buf \<and> starts_with buf [CHR 0xFF, CHR 0xD8, CHR 0xFF] then JPEG
      else if 12 \<le> length buf \<and> starts_with buf ''RIFF'' \<and> starts_with_at buf 8 ''WEBP'' then WEBP
      else if 6 \<le> length buf \<and> (starts_with buf ''GIF87a'' \<or> starts_with buf ''GIF89a'') then GIF
      else if 12 \<le> length buf \<and> starts_with_at buf 4 ''ftyp'' \<and>
        (starts_with_at buf 8 ''avif'' \<or> starts_with_at buf 8 ''avis'') then AVIF
      else if sniff_svg buf then SVG
      else Unknown)"

fun image_extension :: "image_format \<Rightarrow> string" where
  "image_extension PNG = ''png''"
| "image_extension JPEG = ''jpg''"
| "image_extension WEBP = ''webp''"
| "image_extension GIF = ''gif''"
| "image_extension SVG = ''svg''"
| "image_extension AVIF = ''avif''"
| "image_extension Unknown = []"

section \<open>The minifiers\<close>

text \<open>The rest behind a block comment; without an end, the last byte stays.\<close>

fun skip_comment :: "string \<Rightarrow> string" where
  "skip_comment (a # b # cs) = (if a = CHR ''*'' \<and> b = CHR ''/'' then cs else skip_comment (b # cs))"
| "skip_comment cs = cs"

lemma length_skip_comment: "length (skip_comment cs) \<le> length cs"
  by (induction cs rule: skip_comment.induct) auto

text \<open>\<open>std::strchr\<close> also finds the NUL that ends its string.\<close>

definition strchr :: "string \<Rightarrow> char \<Rightarrow> bool" where
  "strchr s c \<longleftrightarrow> c \<in> set s \<or> c = NUL"

definition structural :: string where "structural = ''{};:,>+~()''"
definition structural_after :: string where "structural_after = ''{};:,>+~)''"

function css_loop :: "string \<Rightarrow> string \<Rightarrow> bool \<Rightarrow> string" where
  "css_loop css out prev_was_space =
     (case css of
        [] \<Rightarrow> out
      | c # cs \<Rightarrow>
          if c = CHR ''/'' \<and> cs \<noteq> [] \<and> hd cs = CHR ''*'' then css_loop (skip_comment (tl cs)) out prev_was_space
          else if isspace c then
            (if out \<noteq> [] \<and> \<not> strchr structural (last out) \<and> \<not> prev_was_space
             then css_loop cs (out @ '' '') True
             else css_loop cs out prev_was_space)
          else
            let out = (if out \<noteq> [] \<and> last out = CHR '' '' \<and> strchr structural_after c then butlast out else out)
            in css_loop cs (out @ [c]) False)"
  by pat_completeness auto
termination
  by (relation "measure (\<lambda>(css, out, p). length css)")
     (auto simp: le_imp_less_Suc length_skip_comment intro!: le_less_trans [OF length_skip_comment])

declare css_loop.simps [simp del]

definition trim_end :: "char set \<Rightarrow> string \<Rightarrow> string" where
  "trim_end P out = rev (dropWhile (\<lambda>c. c \<in> P) (rev out))"

text \<open>Drop a semicolon before a closing brace.\<close>

fun drop_semicolons :: "string \<Rightarrow> string" where
  "drop_semicolons (a # b # cs) =
     (if a = CHR '';'' \<and> b = CHR ''}'' then drop_semicolons (b # cs) else a # drop_semicolons (b # cs))"
| "drop_semicolons cs = cs"

definition minify_css :: "string \<Rightarrow> string" where
  "minify_css css = drop_semicolons (trim_end {CHR '' '', NL} (css_loop css [] False))"

text \<open>A string literal after its opening quote: its text with the closing quote, if it has one, and the rest.\<close>

fun js_string :: "char \<Rightarrow> string \<Rightarrow> string \<times> string" where
  "js_string quote [] = ([], [])"
| "js_string quote (c # cs) =
     (if c = quote then ([c], cs)
      else if c = CHR 0x5C \<and> cs \<noteq> [] then
        (case js_string quote (tl cs) of (s, rest) \<Rightarrow> (c # hd cs # s, rest))
      else (case js_string quote cs of (s, rest) \<Rightarrow> (c # s, rest)))"

lemma length_js_string: "length (snd (js_string quote cs)) \<le> length cs"
  by (induction quote cs rule: js_string.induct) (auto split: prod.split)

definition is_quote :: "char \<Rightarrow> bool" where
  "is_quote c \<longleftrightarrow> c = CHR 0x22 \<or> c = CHR 0x27 \<or> c = CHR 0x60"

function js_loop :: "string \<Rightarrow> string \<Rightarrow> bool \<Rightarrow> string" where
  "js_loop js out prev_was_space =
     (case js of
        [] \<Rightarrow> out
      | c # cs \<Rightarrow>
          if c = CHR ''/'' \<and> cs \<noteq> [] \<and> hd cs = CHR ''*'' then js_loop (skip_comment (tl cs)) out prev_was_space
          else if c = CHR ''/'' \<and> cs \<noteq> [] \<and> hd cs = CHR ''/'' then js_loop (dropWhile (\<lambda>c. c \<noteq> NL) cs) out prev_was_space
          else if is_quote c then js_loop (snd (js_string c cs)) (out @ c # fst (js_string c cs)) False
          else if isspace c then
            (if out \<noteq> [] \<and> \<not> prev_was_space then js_loop cs (out @ '' '') True else js_loop cs out prev_was_space)
          else js_loop cs (out @ [c]) False)"
  by pat_completeness auto
termination
  by (relation "measure (\<lambda>(js, out, p). length js)")
     (auto simp: le_imp_less_Suc length_skip_comment length_js_string length_dropWhile_le
       intro!: le_less_trans [OF length_skip_comment] le_less_trans [OF length_js_string])

declare js_loop.simps [simp del]

definition minify_js :: "string \<Rightarrow> string" where
  "minify_js js = trim_end {CHR '' ''} (js_loop js [] False)"

section \<open>The CSS minifier keeps the text\<close>

text \<open>The source without its comments, and a text without white space.\<close>

function strip_comments :: "string \<Rightarrow> string" where
  "strip_comments (c # cs) =
     (if c = CHR ''/'' \<and> cs \<noteq> [] \<and> hd cs = CHR ''*'' then strip_comments (skip_comment (tl cs))
      else c # strip_comments cs)"
| "strip_comments [] = []"
  by pat_completeness auto
termination
  by (relation "measure length") (auto intro!: le_less_trans [OF length_skip_comment])

abbreviation visible :: "string \<Rightarrow> string" where
  "visible s \<equiv> filter (\<lambda>c. \<not> isspace c) s"

text \<open>Blanks stand singly between other bytes, and not beside a structural one.\<close>

fun tight :: "string \<Rightarrow> bool" where
  "tight (a # b # cs) \<longleftrightarrow>
     (isspace b \<longrightarrow> b = CHR '' '' \<and> \<not> isspace a \<and> \<not> strchr structural a) \<and>
     (isspace a \<longrightarrow> \<not> strchr structural_after b) \<and> tight (b # cs)"
| "tight cs \<longleftrightarrow> True"

lemma tight_snoc:
  "tight (cs @ [b]) \<longleftrightarrow>
     tight cs \<and> (cs \<noteq> [] \<longrightarrow>
       (isspace b \<longrightarrow> b = CHR '' '' \<and> \<not> isspace (last cs) \<and> \<not> strchr structural (last cs)) \<and>
       (isspace (last cs) \<longrightarrow> \<not> strchr structural_after b))"
  by (induction cs rule: tight.induct) auto

lemma isspace_blank [simp]: "isspace (CHR '' '')"
  by (simp add: isspace_def byte_def)

lemma tight_last: "tight out \<Longrightarrow> (out \<noteq> [] \<Longrightarrow> \<not> isspace (hd out)) \<Longrightarrow> out \<noteq> [] \<Longrightarrow> isspace (last out) \<Longrightarrow>
  last out = CHR '' '' \<and> butlast out \<noteq> [] \<and> \<not> isspace (last (butlast out))"
proof (induction out rule: rev_induct)
  case (snoc x out)
  then show ?case by (cases "out = []") (simp_all add: tight_snoc)
qed simp

lemma pop_blank:
  assumes "tight out" "out \<noteq> [] \<Longrightarrow> \<not> isspace (hd out)"
    and o: "o' = (if out \<noteq> [] \<and> last out = CHR '' '' \<and> strchr structural_after c then butlast out else out)"
  shows "tight o' \<and> (o' \<noteq> [] \<longrightarrow> \<not> isspace (hd o')) \<and> visible o' = visible out \<and>
    (o' \<noteq> [] \<longrightarrow> isspace (last o') \<longrightarrow> \<not> strchr structural_after c)"
proof (cases "out \<noteq> [] \<and> last out = CHR '' '' \<and> strchr structural_after c")
  case True
  then have o': "o' = butlast out" unfolding o by (rule if_P)
  have snoc: "out = butlast out @ [CHR '' '']" using True by (metis append_butlast_last_id)
  have "butlast out \<noteq> []" "\<not> isspace (last (butlast out))" using tight_last [OF assms(1,2)] True by simp_all
  moreover have "tight (butlast out)" by (metis assms(1) snoc tight_snoc)
  moreover have "hd (butlast out) = hd out" by (metis \<open>butlast out \<noteq> []\<close> hd_append snoc)
  moreover have "visible out = visible (butlast out)" by (subst snoc) simp
  ultimately show ?thesis using o' assms(2) True by simp
next
  case False
  then have "o' = out" unfolding o by (rule if_not_P)
  then show ?thesis using assms tight_last [OF assms(1,2)] False by auto
qed

lemma css_loop_spec:
  "tight out \<Longrightarrow> (prev \<longleftrightarrow> out \<noteq> [] \<and> isspace (last out)) \<Longrightarrow> (out \<noteq> [] \<Longrightarrow> \<not> isspace (hd out)) \<Longrightarrow>
   tight (css_loop css out prev) \<and> (css_loop css out prev \<noteq> [] \<longrightarrow> \<not> isspace (hd (css_loop css out prev))) \<and>
   visible (css_loop css out prev) = visible out @ visible (strip_comments css)"
proof (induction css out prev rule: css_loop.induct)
  case (1 css out prev)
  show ?case
  proof (cases css)
    case Nil
    with "1.prems" show ?thesis by (simp add: css_loop.simps [of "[]"])
  next
    case (Cons c cs)
    consider (comment) "c = CHR ''/'' \<and> cs \<noteq> [] \<and> hd cs = CHR ''*''"
      | (space) "\<not> (c = CHR ''/'' \<and> cs \<noteq> [] \<and> hd cs = CHR ''*'')" "isspace c"
      | (other) "\<not> (c = CHR ''/'' \<and> cs \<noteq> [] \<and> hd cs = CHR ''*'')" "\<not> isspace c"
      by blast
    then show ?thesis
    proof cases
      case comment
      then have "css_loop css out prev = css_loop (skip_comment (tl cs)) out prev"
        "strip_comments css = strip_comments (skip_comment (tl cs))"
        using Cons by (simp_all add: css_loop.simps [of "_ # _"])
      then show ?thesis using "1.IH"(1) [OF Cons comment] "1.prems" by simp
    next
      case space
      show ?thesis
      proof (cases "out \<noteq> [] \<and> \<not> strchr structural (last out) \<and> \<not> prev")
        case True
        have "css_loop css out prev = css_loop cs (out @ '' '') True"
          using Cons space True by (auto simp: css_loop.simps [of "c # cs"])
        moreover have "strip_comments css = c # strip_comments cs" using Cons space by auto
        ultimately show ?thesis
          using "1.IH"(2) [OF Cons space True] "1.prems" True space by (simp add: tight_snoc)
      next
        case False
        have "css_loop css out prev = css_loop cs out prev"
          using Cons space False by (auto simp: css_loop.simps [of "c # cs"])
        moreover have "strip_comments css = c # strip_comments cs" using Cons space by auto
        ultimately show ?thesis using "1.IH"(3) [OF Cons space False] "1.prems" space by simp
      qed
    next
      case other
      define o' where "o' = (if out \<noteq> [] \<and> last out = CHR '' '' \<and> strchr structural_after c then butlast out else out)"
      have "css_loop css out prev = css_loop cs (o' @ [c]) False"
        using Cons other by (auto simp: css_loop.simps [of "c # cs"] Let_def o'_def)
      moreover have "strip_comments css = c # strip_comments cs" using Cons other by auto
      moreover note pop_blank [OF "1.prems"(1,3) o'_def]
      ultimately show ?thesis
        using "1.IH"(4) [OF Cons other o'_def] other by (cases "o' = []") (simp_all add: tight_snoc)
    qed
  qed
qed

lemma trim_end_prefix: "\<exists>r. out = trim_end P out @ r \<and> set r \<subseteq> P \<and> (trim_end P out = [] \<or> last (trim_end P out) \<notin> P)"
proof -
  let ?r = "rev (takeWhile (\<lambda>c. c \<in> P) (rev out))"
  have "out = trim_end P out @ ?r" unfolding trim_end_def by (metis rev_append rev_rev_ident takeWhile_dropWhile_id)
  moreover have "set ?r \<subseteq> P" by (auto dest: set_takeWhileD)
  moreover have "trim_end P out = [] \<or> last (trim_end P out) \<notin> P"
    using hd_dropWhile [of "\<lambda>c. c \<in> P" "rev out"] by (auto simp: trim_end_def last_rev)
  ultimately show ?thesis by blast
qed

lemma tight_append: "tight (a @ b) \<Longrightarrow> tight a"
  by (induction b rule: rev_induct) (simp_all add: tight_snoc flip: append_assoc)

lemma drop_semicolons_Cons: "a \<noteq> CHR '';'' \<Longrightarrow> drop_semicolons (a # w) = a # drop_semicolons w"
  by (cases w) simp_all

lemma tight_drop_semicolons: "tight (x # w) \<Longrightarrow> tight (x # drop_semicolons w)"
proof (induction w arbitrary: x rule: drop_semicolons.induct)
  case (1 a b cs)
  show ?case
  proof (cases "a = CHR '';'' \<and> b = CHR ''}''")
    case True
    then have "\<not> isspace a" "\<not> isspace b" "strchr structural_after a"
      by (simp_all add: isspace_def byte_def strchr_def structural_after_def)
    with 1 True show ?thesis by auto
  next
    case False
    with 1 show ?thesis by auto
  qed
qed auto

lemma visible_drop_semicolons: "tight w \<Longrightarrow> visible (drop_semicolons w) = drop_semicolons (visible w)"
proof (induction w rule: drop_semicolons.induct)
  case (1 a b cs)
  have semi: "strchr structural (CHR '';'')" "\<not> isspace (CHR '';'')" "\<not> isspace (CHR ''}'')"
    by (simp_all add: isspace_def byte_def strchr_def structural_def)
  show ?case
  proof (cases "a = CHR '';''")
    case True
    with 1 semi have "\<not> isspace b" by auto
    with 1 True semi show ?thesis by auto
  next
    case False
    with 1 show ?thesis by (auto simp: drop_semicolons_Cons)
  qed
qed auto

lemma drop_semicolons_ends: "w \<noteq> [] \<Longrightarrow> last (drop_semicolons w) = last w \<and> drop_semicolons w \<noteq> []"
  by (induction w rule: drop_semicolons.induct) auto

text \<open>The loop over the comments against the specification by searching: an unterminated comment leaves its last byte.\<close>

definition last_byte :: "string \<Rightarrow> string" where
  "last_byte s = (if s = [] then [] else [last s])"

lemma skip_comment_find:
  "skip_comment cs = (case find_sub ''*/'' cs of None \<Rightarrow> last_byte cs | Some j \<Rightarrow> drop (j + 2) cs)"
  by (induction cs rule: skip_comment.induct) (auto simp: last_byte_def split: option.split)

lemma strip_comments_uncomment: "strip_comments s = uncomment last_byte s"
proof (induction s rule: strip_comments.induct)
  case (1 c cs)
  show ?case
  proof (cases "c = CHR ''/'' \<and> cs \<noteq> [] \<and> hd cs = CHR ''*''")
    case True
    then obtain u where cs: "c # cs = CHR ''/'' # CHR ''*'' # u" "tl cs = u" by (cases cs) auto
    have one: "uncomment last_byte (last_byte u) = last_byte u" by (cases u) (simp_all add: last_byte_def uncomment_id)
    have "strip_comments (c # cs) = uncomment last_byte (skip_comment u)" using 1(1) True cs(2) by simp
    then show ?thesis unfolding cs(1) uncomment_open skip_comment_find using one by (simp split: option.split)
  next
    case False
    then have "strip_comments (c # cs) = c # uncomment last_byte cs" using 1(2) by auto
    with False show ?thesis by (simp only: uncomment_other [OF False])
  qed
qed simp

text \<open>The semicolons before a closing brace: each byte is looked at with the byte that follows it.\<close>

definition before_brace_dropped :: "string \<Rightarrow> string" where
  "before_brace_dropped s = concat (map (\<lambda>i. if s ! i = CHR '';'' \<and> Suc i < length s \<and> s ! Suc i = CHR ''}'' then [] else [s ! i]) [0..<length s])"

lemma drop_semicolons_brace: "drop_semicolons s = before_brace_dropped s"
proof (induction s rule: drop_semicolons.induct)
  case (1 a b cs)
  have "[0..<length (a # b # cs)] = 0 # map Suc [0..<length (b # cs)]"
    by (subst upt_conv_Cons) (simp_all add: map_Suc_upt del: upt_Suc)
  then have "before_brace_dropped (a # b # cs) = (if a = CHR '';'' \<and> b = CHR ''}'' then [] else [a]) @ before_brace_dropped (b # cs)"
    unfolding before_brace_dropped_def by (simp add: comp_def del: upt_Suc cong: if_cong)
  with 1 show ?case by simp
qed (simp_all add: before_brace_dropped_def)

text \<open>C34: The CSS minifier removes only comments, white space and semicolons before a closing brace.  The visible
  bytes of the result are those of the source without its comments, less each semicolon that is
  directly followed by a closing brace; the result has no white space but single blanks, none of them at an end,
  behind a NUL or one of \<open>{};:,>+~()\<close>, or before a NUL or one of \<open>{};:,>+~)\<close>.  A comment goes from \<open>/*\<close> to the next \<open>*/\<close>, inside string literals too; of one that
  is not closed the last byte is kept.\<close>

theorem minify_css_spec:
  "visible (minify_css css) = before_brace_dropped (visible (uncomment last_byte css)) \<and>
   tight (minify_css css) \<and> trim_ws (minify_css css) = minify_css css"
proof -
  let ?out = "css_loop css [] False" and ?w = "trim_end {CHR '' '', NL} (css_loop css [] False)"
  have out: "tight ?out" "?out \<noteq> [] \<longrightarrow> \<not> isspace (hd ?out)" "visible ?out = visible (strip_comments css)"
    using css_loop_spec [of "[]" False css] by simp_all
  obtain r where r: "?out = ?w @ r" "set r \<subseteq> {CHR '' '', NL}" "?w = [] \<or> last ?w \<notin> {CHR '' '', NL}"
    using trim_end_prefix by metis
  have "visible r = []" using r(2) by (auto simp: filter_empty_conv isspace_def byte_def NL_def)
  then have vis: "visible ?w = visible (strip_comments css)" using out(3) r(1) by (metis append_Nil2 filter_append)
  have w: "tight ?w" using out(1) r(1) tight_append by metis
  have hd: "?w \<noteq> [] \<Longrightarrow> \<not> isspace (hd ?w)" using out(2) r(1) by (metis append_is_Nil_conv hd_append)
  let ?m = "drop_semicolons ?w"
  have semi: "strchr structural (CHR '';'')" "\<not> isspace (CHR '';'')"
    by (simp_all add: isspace_def byte_def strchr_def structural_def)
  have sw: "tight (CHR '';'' # ?w)" using w hd semi by (cases ?w) auto
  then have sm: "tight (CHR '';'' # ?m)" by (rule tight_drop_semicolons)
  have "trim_ws ?m = ?m"
  proof (cases "?w = []")
    case True
    then show ?thesis by (simp add: trim_ws_def)
  next
    case False
    note ends = drop_semicolons_ends [OF False]
    have blank: "isspace (last ?w) \<Longrightarrow> last ?w = CHR '' ''"
      using sw False tight_snoc [of "CHR '';'' # butlast ?w" "last ?w"] by simp
    have "\<not> isspace (hd ?m)" using sm ends semi by (cases ?m) auto
    moreover have "\<not> isspace (last ?m)" using ends blank r(3) False by auto
    moreover have "c \<in> set ws_set \<Longrightarrow> isspace c" for c by (auto simp: ws_set_def isspace_def byte_def)
    ultimately show ?thesis using ends by (intro trim_ws_id) auto
  qed
  moreover have "tight ?m" using sm by (cases ?m) auto
  ultimately show ?thesis using visible_drop_semicolons [OF w] vis
    by (simp add: minify_css_def strip_comments_uncomment drop_semicolons_brace)
qed

section \<open>The JavaScript minifier is a two-pass one\<close>

text \<open>First pass: drop the comments, and mark the bytes of string literals.\<close>

function js_marks :: "string \<Rightarrow> (bool \<times> char) list" where
  "js_marks (c # cs) =
     (if c = CHR ''/'' \<and> cs \<noteq> [] \<and> hd cs = CHR ''*'' then js_marks (skip_comment (tl cs))
      else if c = CHR ''/'' \<and> cs \<noteq> [] \<and> hd cs = CHR ''/'' then js_marks (dropWhile (\<lambda>c. c \<noteq> NL) cs)
      else if is_quote c then map (Pair True) (c # fst (js_string c cs)) @ js_marks (snd (js_string c cs))
      else (False, c) # js_marks cs)"
| "js_marks [] = []"
  by pat_completeness auto
termination
  by (relation "measure length")
     (auto simp: le_imp_less_Suc length_js_string length_dropWhile_le intro!: le_less_trans [OF length_skip_comment])

text \<open>Second pass: outside literals, a run of white space becomes a blank, or nothing at the start.\<close>

fun squeeze :: "bool \<Rightarrow> (bool \<times> char) list \<Rightarrow> string" where
  "squeeze skip [] = []"
| "squeeze skip ((literal, c) # m) =
     (if \<not> literal \<and> isspace c then (if skip then squeeze True m else CHR '' '' # squeeze True m)
      else c # squeeze False m)"

lemma squeeze_literal: "squeeze skip (map (Pair True) s @ m) = (if s = [] then squeeze skip m else s @ squeeze False m)"
  by (induction s arbitrary: skip) auto

lemma js_loop_marks: "js_loop js out prev = out @ squeeze (out = [] \<or> prev) (js_marks js)"
proof (induction js out prev rule: js_loop.induct)
  case (1 js out prev)
  show ?case
  proof (cases js)
    case Nil
    then show ?thesis by (simp add: js_loop.simps [of "[]"])
  next
    case (Cons c cs)
    with 1 show ?thesis
      by (subst js_loop.simps) (auto simp: squeeze_literal)
  qed
qed

text \<open>The JavaScript minifier drops comments and squeezes white space outside string literals.  The
  single loop with its flags gives the same as the two passes, for every source, unterminated
  comments and literals included.\<close>

lemma minify_js_passes: "minify_js js = trim_end {CHR '' ''} (squeeze True (js_marks js))"
  by (simp add: minify_js_def js_loop_marks)

section \<open>What the minifiers break\<close>

text \<open>The last byte of an unterminated comment is kept; blanks that CSS needs are removed; string
  literals are not respected in CSS; only one of several semicolons goes; and a line break that ends
  a JavaScript statement becomes a blank.\<close>

lemma unterminated_comment: "minify_css ''a{}/* note'' = ''a{}e'' \<and> minify_js ''x /* note'' = ''x e''"
  by code_simp

lemma needed_blanks:
  "minify_css ''a :hover{width:calc(1px + 2px)}'' = ''a:hover{width:calc(1px+2px)}''"
  by code_simp

lemma css_literal_changed:
  "minify_css (''a{content:'' @ CHR 0x22 # ''x ;  y'' @ CHR 0x22 # ''}'') = ''a{content:'' @ CHR 0x22 # ''x;y'' @ CHR 0x22 # ''}''"
  by code_simp

lemma one_semicolon: "minify_css ''a{b:c;;}'' = ''a{b:c;}''"
  by code_simp

lemma js_line_break_lost: "minify_js (''a()'' @ NL # ''b()'') = ''a() b()''"
  by code_simp

end
