(* ===== verification/Nift_Plugin.thy ===== *)
theory Nift_Plugin
  imports Nift_Core "HOL-Library.Word"
begin

text \<open>
  The plugin loader, \<open>crates/plugin/src/plugin_loader.cpp\<close>.  The dynamic linker is a parameter: \<open>dl_open\<close>
  gives the handle of a path or fails, \<open>dl_library\<close> what a handle exports.  The state \<open>linker\<close> counts the
  references the process holds on each handle, as \<open>dlopen\<close> and \<open>dlclose\<close> do, and the strings of plugins
  that were not given back; both are ghost state.  A \<open>LoadedPlugin*\<close> is the position of the plugin in the
  registry, whose plugins never move.
\<close>

section \<open>The binary interface\<close>

record plugin_info =
  pi_name :: "string option"
  pi_version :: "string option"

text \<open>A render function returns its result and the string it left in \<open>err_out\<close>.\<close>

type_synonym render_fn = "string \<Rightarrow> string \<Rightarrow> string option \<times> string option"

record plugin_vtable =
  vt_abi_version :: "32 word"
  vt_info :: "plugin_info option"
  vt_directives :: "string option list option"
  vt_render :: "render_fn option"
  vt_free_result :: bool

text \<open>What a library exports: no \<open>nift_plugin_init\<close>, or one that returns a null pointer or a table.\<close>

datatype library = No_symbol | Null_table | Table plugin_vtable

record dl_api =
  dl_open :: "string \<Rightarrow> nat option"
  dl_library :: "nat \<Rightarrow> library"

record linker =
  dl_refs :: "nat \<Rightarrow> nat"
  dl_strings :: nat

definition dlopen :: "dl_api \<Rightarrow> string \<Rightarrow> linker \<Rightarrow> nat option \<times> linker" where
  "dlopen A path s =
     (case dl_open A path of
        None \<Rightarrow> (None, s)
      | Some h \<Rightarrow> (Some h, s\<lparr>dl_refs := (dl_refs s)(h := dl_refs s h + 1)\<rparr>))"

definition dlclose :: "nat \<Rightarrow> linker \<Rightarrow> linker" where
  "dlclose h s = s\<lparr>dl_refs := (dl_refs s)(h := dl_refs s h - 1)\<rparr>"

section \<open>A loaded plugin\<close>

record loaded_plugin =
  lp_handle :: "nat option"
  lp_vtable :: "plugin_vtable option"

definition new_plugin :: loaded_plugin where
  "new_plugin = \<lparr>lp_handle = None, lp_vtable = None\<rparr>"

definition destroy_plugin :: "loaded_plugin \<Rightarrow> linker \<Rightarrow> linker" where
  "destroy_plugin p s = (case lp_handle p of None \<Rightarrow> s | Some h \<Rightarrow> dlclose h s)"

text \<open>Both moves give the target and what is left of the source.\<close>

definition move_construct :: "loaded_plugin \<Rightarrow> loaded_plugin \<times> loaded_plugin" where
  "move_construct other = (other, new_plugin)"

definition move_assign :: "bool \<Rightarrow> loaded_plugin \<Rightarrow> loaded_plugin \<Rightarrow> linker \<Rightarrow> loaded_plugin \<times> loaded_plugin \<times> linker" where
  "move_assign same this other s =
     (if same then (this, other, s)
      else (other, new_plugin, case lp_handle this of None \<Rightarrow> s | Some h \<Rightarrow> dlclose h s))"

definition plugin_name :: "loaded_plugin \<Rightarrow> string" where
  "plugin_name p =
     (case lp_vtable p of
        None \<Rightarrow> []
      | Some vt \<Rightarrow> (case vt_info vt of None \<Rightarrow> [] | Some i \<Rightarrow> (case pi_name i of None \<Rightarrow> [] | Some n \<Rightarrow> n)))"

definition plugin_version :: "loaded_plugin \<Rightarrow> string" where
  "plugin_version p =
     (case lp_vtable p of
        None \<Rightarrow> []
      | Some vt \<Rightarrow> (case vt_info vt of None \<Rightarrow> [] | Some i \<Rightarrow> (case pi_version i of None \<Rightarrow> [] | Some v \<Rightarrow> v)))"

definition plugin_directives :: "loaded_plugin \<Rightarrow> string list" where
  "plugin_directives p =
     (case lp_vtable p of
        None \<Rightarrow> []
      | Some vt \<Rightarrow> (case vt_directives vt of None \<Rightarrow> [] | Some names \<Rightarrow> map the (filter (\<lambda>n. n \<noteq> None) names)))"

text \<open>The string that \<open>render\<close> copies, or its error.  The C strings end at the first NUL.\<close>

definition c_str :: "string \<Rightarrow> string" where
  "c_str s = takeWhile (\<lambda>c. c \<noteq> NUL) s"

definition strings_given :: "string option \<times> string option \<Rightarrow> nat" where
  "strings_given r = (if fst r = None then 0 else 1) + (if snd r = None then 0 else 1)"

definition plugin_render :: "loaded_plugin \<Rightarrow> string \<Rightarrow> string \<Rightarrow> linker \<Rightarrow> string result \<times> linker" where
  "plugin_render p directive_name args s =
     (case lp_vtable p of
        None \<Rightarrow> (Inl invalid_argument, s)
      | Some vt \<Rightarrow>
          (case vt_render vt of
             None \<Rightarrow> (Inl invalid_argument, s)
           | Some f \<Rightarrow>
               let r = f (c_str directive_name) (c_str args);
                   s = s\<lparr>dl_strings := dl_strings s + strings_given r\<rparr>;
                   freed = s\<lparr>dl_strings := dl_strings s - 1\<rparr>
               in case fst r of
                    None \<Rightarrow> (Inl unknown, if snd r \<noteq> None \<and> vt_free_result vt then freed else s)
                  | Some result \<Rightarrow> (Inr (c_str result), if vt_free_result vt then freed else s)))"

section \<open>The registry\<close>

record registry =
  rg_plugins :: "loaded_plugin list"
  rg_by_directive :: "string \<rightharpoonup> nat"

definition new_registry :: registry where
  "new_registry = \<lparr>rg_plugins = [], rg_by_directive = Map.empty\<rparr>"

definition abi_accepted :: "plugin_vtable \<Rightarrow> bool" where
  "abi_accepted vt \<longleftrightarrow> (vt_abi_version vt = 1 \<or> vt_abi_version vt = 2) \<and>
     vt_info vt \<noteq> None \<and> vt_directives vt \<noteq> None \<and> vt_render vt \<noteq> None"

definition register_directives :: "nat \<Rightarrow> string option list \<Rightarrow> (string \<rightharpoonup> nat) \<Rightarrow> (string \<rightharpoonup> nat)" where
  "register_directives i names m = fold (\<lambda>n m. case n of None \<Rightarrow> m | Some n \<Rightarrow> m(n \<mapsto> i)) names m"

definition registry_load :: "dl_api \<Rightarrow> string \<Rightarrow> registry \<times> linker \<Rightarrow> unit result \<times> registry \<times> linker" where
  "registry_load A path st =
     (case st of (r, s) \<Rightarrow>
        (case dlopen A path s of
           (None, s) \<Rightarrow> (Inl not_found, r, s)
         | (Some h, s) \<Rightarrow>
             (case dl_library A h of
                No_symbol \<Rightarrow> (Inl invalid_argument, r, dlclose h s)
              | Null_table \<Rightarrow> (Inl invalid_argument, r, dlclose h s)
              | Table vt \<Rightarrow>
                  if \<not> abi_accepted vt then (Inl invalid_argument, r, dlclose h s)
                  else
                    let plug = new_plugin\<lparr>lp_handle := Some h, lp_vtable := Some vt\<rparr>;
                        names = (case vt_directives vt of None \<Rightarrow> [] | Some names \<Rightarrow> names)
                    in (Inr (),
                        r\<lparr>rg_by_directive := register_directives (length (rg_plugins r)) names (rg_by_directive r),
                          rg_plugins := rg_plugins r @ [plug]\<rparr>, s))))"

definition has_directive :: "string \<Rightarrow> registry \<Rightarrow> bool" where
  "has_directive name r \<longleftrightarrow> rg_by_directive r name \<noteq> None"

definition registry_render :: "string \<Rightarrow> string \<Rightarrow> registry \<Rightarrow> linker \<Rightarrow> string result \<times> linker" where
  "registry_render directive_name args r s =
     (case rg_by_directive r directive_name of
        None \<Rightarrow> (Inl not_found, s)
      | Some i \<Rightarrow> plugin_render (rg_plugins r ! i) directive_name args s)"

definition registry_names :: "registry \<Rightarrow> string list" where
  "registry_names r = map plugin_name (rg_plugins r)"

text \<open>The destructor of the vector destroys the plugins.\<close>

definition destroy_registry :: "registry \<Rightarrow> linker \<Rightarrow> linker" where
  "destroy_registry r s = fold destroy_plugin (rg_plugins r) s"

definition load_all :: "dl_api \<Rightarrow> string list \<Rightarrow> registry \<times> linker \<Rightarrow> registry \<times> linker" where
  "load_all A paths st = fold (\<lambda>path st. snd (registry_load A path st)) paths st"

section \<open>Handles\<close>

text \<open>How many plugins hold a handle.\<close>

definition held :: "loaded_plugin list \<Rightarrow> nat \<Rightarrow> nat" where
  "held ps h = count_list (map lp_handle ps) (Some h)"

lemma held_simps [simp]:
  "held [] h = 0"
  "held (p # ps) h = (if lp_handle p = Some h then 1 else 0) + held ps h"
  "held (ps @ qs) h = held ps h + held qs h"
  by (simp_all add: held_def)

text \<open>The state of the linker is the base \<open>b\<close> with one reference for each plugin of the list.\<close>

definition accounts :: "(nat \<Rightarrow> nat) \<Rightarrow> loaded_plugin list \<Rightarrow> linker \<Rightarrow> bool" where
  "accounts b ps s \<longleftrightarrow> (\<forall>h. dl_refs s h = b h + held ps h)"

lemma accounts_close: "accounts b (p # ps) s \<Longrightarrow> accounts b ps (destroy_plugin p s)"
  by (cases "lp_handle p") (auto simp: accounts_def destroy_plugin_def dlclose_def)

lemma accounts_fold: "accounts b (ps @ qs) s \<Longrightarrow> accounts b qs (fold destroy_plugin ps s)"
proof (induction ps arbitrary: s)
  case (Cons p ps)
  from accounts_close [of b p "ps @ qs" s] Cons show ?case by simp
qed simp

lemma registry_load_cases:
  obtains (failed) e where "registry_load A path (r, s) = (Inl e, r, s)"
  | (loaded) h vt names where "dl_open A path = Some h" "dl_library A h = Table vt" "abi_accepted vt"
      "vt_directives vt = Some names"
      "registry_load A path (r, s) = (Inr (),
         r\<lparr>rg_by_directive := register_directives (length (rg_plugins r)) names (rg_by_directive r),
           rg_plugins := rg_plugins r @ [\<lparr>lp_handle = Some h, lp_vtable = Some vt\<rparr>]\<rparr>,
         s\<lparr>dl_refs := (dl_refs s)(h := dl_refs s h + 1)\<rparr>)"
proof (cases "dl_open A path")
  case None
  then show ?thesis using failed by (simp add: registry_load_def dlopen_def)
next
  case (Some h)
  have undo: "dlclose h (s\<lparr>dl_refs := (dl_refs s)(h := dl_refs s h + 1)\<rparr>) = s" by (simp add: dlclose_def)
  show ?thesis
  proof (cases "\<exists>vt. dl_library A h = Table vt \<and> abi_accepted vt")
    case True
    then obtain vt where "dl_library A h = Table vt" "abi_accepted vt" by blast
    moreover from this obtain names where "vt_directives vt = Some names" by (auto simp: abi_accepted_def)
    ultimately show ?thesis
      using Some loaded by (simp add: registry_load_def dlopen_def new_plugin_def Let_def)
  next
    case False
    then show ?thesis
      using Some undo failed by (cases "dl_library A h") (simp_all add: registry_load_def dlopen_def)
  qed
qed

lemma load_all_Cons: "load_all A (p # paths) st = load_all A paths (snd (registry_load A p st))"
  by (simp add: load_all_def)

text \<open>A property of the registry and the linker that every successful load keeps.\<close>

lemma load_all_induct:
  assumes "I r s"
    and "\<And>path r s h vt names. I r s \<Longrightarrow> dl_open A path = Some h \<Longrightarrow> dl_library A h = Table vt \<Longrightarrow> abi_accepted vt \<Longrightarrow>
      vt_directives vt = Some names \<Longrightarrow>
      I (r\<lparr>rg_by_directive := register_directives (length (rg_plugins r)) names (rg_by_directive r),
           rg_plugins := rg_plugins r @ [\<lparr>lp_handle = Some h, lp_vtable = Some vt\<rparr>]\<rparr>)
        (s\<lparr>dl_refs := (dl_refs s)(h := dl_refs s h + 1)\<rparr>)"
    and "load_all A paths (r, s) = (r', s')"
  shows "I r' s'"
  using assms(1,3)
proof (induction paths arbitrary: r s)
  case Nil
  then show ?case by (simp add: load_all_def)
next
  case (Cons p paths)
  show ?case
  proof (cases A p r s rule: registry_load_cases)
    case failed
    then show ?thesis using Cons by (simp add: load_all_Cons)
  next
    case (loaded h vt names)
    show ?thesis
      by (rule Cons.IH [OF assms(2) [OF Cons.prems(1) loaded(1-4)]]) (use Cons.prems(2) loaded(5) in \<open>simp add: load_all_Cons\<close>)
  qed
qed

text \<open>C26: Every library is closed as often as it was opened.  Whatever paths are loaded, with every kind
  of failure among them, while the registry lives the process holds exactly one reference for each
  loaded plugin, so no table is used after its library is closed; and destroying the registry
  restores the counts from before the first load.\<close>

theorem plugin_handles_balanced:
  assumes "load_all A paths (new_registry, s) = (r, s')"
  shows "(\<forall>h. dl_refs s' h = dl_refs s h + held (rg_plugins r) h) \<and>
    (\<forall>p\<in>set (rg_plugins r). \<exists>h. lp_handle p = Some h \<and> 0 < dl_refs s' h) \<and>
    dl_refs (destroy_registry r s') = dl_refs s"
proof -
  let ?I = "\<lambda>r s'. accounts (dl_refs s) (rg_plugins r) s' \<and> (\<forall>p\<in>set (rg_plugins r). lp_handle p \<noteq> None)"
  have I: "?I r s'"
    by (rule load_all_induct [where I = ?I, OF _ _ assms]) (auto simp: new_registry_def accounts_def)
  then have acc: "accounts (dl_refs s) (rg_plugins r) s'" by simp
  have "accounts (dl_refs s) [] (destroy_registry r s')"
    unfolding destroy_registry_def by (rule accounts_fold) (simp add: acc)
  then have "dl_refs (destroy_registry r s') = dl_refs s" by (auto simp: accounts_def)
  moreover have "0 < held (rg_plugins r) h" if "p \<in> set (rg_plugins r)" "lp_handle p = Some h" for p h
    using that by (metis count_list_0_iff gr0I held_def image_eqI list.set_map)
  ultimately show ?thesis using acc I by (fastforce simp: accounts_def)
qed

section \<open>Dispatch\<close>

lemma register_directives_apply:
  "register_directives i names m name = (if Some name \<in> set names then Some i else m name)"
  by (induction names arbitrary: m) (auto simp: register_directives_def split: option.split)

text \<open>The last plugin of the list that declares a directive.\<close>

definition last_declaring :: "string \<Rightarrow> loaded_plugin list \<Rightarrow> loaded_plugin option" where
  "last_declaring name ps = List.find (\<lambda>p. name \<in> set (plugin_directives p)) (rev ps)"

lemma find_append: "List.find P (xs @ ys) = (case List.find P xs of None \<Rightarrow> List.find P ys | Some x \<Rightarrow> Some x)"
  by (induction xs) auto

lemma last_declaring_snoc:
  "last_declaring name (ps @ [p]) = (if name \<in> set (plugin_directives p) then Some p else last_declaring name ps)"
  by (simp add: last_declaring_def)

definition dispatch_ok :: "registry \<Rightarrow> bool" where
  "dispatch_ok r \<longleftrightarrow> (\<forall>name. case rg_by_directive r name of
     None \<Rightarrow> last_declaring name (rg_plugins r) = None
   | Some i \<Rightarrow> i < length (rg_plugins r) \<and> last_declaring name (rg_plugins r) = Some (rg_plugins r ! i))"

lemma dispatch_ok_load:
  assumes "dispatch_ok r" "vt_directives vt = Some names"
  shows "dispatch_ok (r\<lparr>rg_by_directive := register_directives (length (rg_plugins r)) names (rg_by_directive r),
    rg_plugins := rg_plugins r @ [\<lparr>lp_handle = Some h, lp_vtable = Some vt\<rparr>]\<rparr>)" (is "dispatch_ok ?r")
  unfolding dispatch_ok_def
proof
  fix name
  have "name \<in> set (plugin_directives \<lparr>lp_handle = Some h, lp_vtable = Some vt\<rparr>) \<longleftrightarrow> Some name \<in> set names"
    using assms(2) by (force simp: plugin_directives_def)
  moreover have "case rg_by_directive r name of None \<Rightarrow> last_declaring name (rg_plugins r) = None
      | Some i \<Rightarrow> i < length (rg_plugins r) \<and> last_declaring name (rg_plugins r) = Some (rg_plugins r ! i)"
    using assms(1) by (simp add: dispatch_ok_def)
  ultimately show "case rg_by_directive ?r name of None \<Rightarrow> last_declaring name (rg_plugins ?r) = None
      | Some i \<Rightarrow> i < length (rg_plugins ?r) \<and> last_declaring name (rg_plugins ?r) = Some (rg_plugins ?r ! i)"
    by (cases "rg_by_directive r name") (simp_all add: register_directives_apply last_declaring_snoc nth_append)
qed

text \<open>A directive is rendered by the plugin that declared it last.  After any sequence of loads the
  registry has a directive exactly if some loaded plugin declares it, and \<open>render\<close> runs the last such
  plugin, with the directive's name and arguments cut at the first NUL, and otherwise fails with
  \<open>not_found\<close>.\<close>

lemma plugin_last_wins:
  assumes "load_all A paths (new_registry, s) = (r, s')"
  shows "(has_directive name r \<longleftrightarrow> (\<exists>p\<in>set (rg_plugins r). name \<in> set (plugin_directives p))) \<and>
    registry_render name args r s' =
      (case last_declaring name (rg_plugins r) of
         None \<Rightarrow> (Inl not_found, s')
       | Some p \<Rightarrow> plugin_render p name args s')"
proof -
  have ok: "dispatch_ok r"
    by (rule load_all_induct [where I = "\<lambda>r s. dispatch_ok r", OF _ _ assms])
       (simp add: new_registry_def dispatch_ok_def last_declaring_def, rule dispatch_ok_load)
  have none: "last_declaring name ps = None \<longleftrightarrow> (\<forall>p\<in>set ps. name \<notin> set (plugin_directives p))" for ps
    by (auto simp: last_declaring_def find_None_iff)
  show ?thesis
  proof (cases "rg_by_directive r name")
    case None
    with ok have "last_declaring name (rg_plugins r) = None" by (force simp: dispatch_ok_def dest!: spec [of _ name])
    moreover from this have "\<forall>p\<in>set (rg_plugins r). name \<notin> set (plugin_directives p)" using none by blast
    ultimately show ?thesis using None by (simp add: has_directive_def registry_render_def)
  next
    case (Some i)
    with ok have "last_declaring name (rg_plugins r) = Some (rg_plugins r ! i)" by (force simp: dispatch_ok_def dest!: spec [of _ name])
    moreover from this have "\<exists>p\<in>set (rg_plugins r). name \<in> set (plugin_directives p)"
      using none [of "rg_plugins r"] by (metis option.distinct(1))
    ultimately show ?thesis using Some by (simp add: has_directive_def registry_render_def)
  qed
qed

text \<open>Moving a plugin keeps the account of the two objects together: the handle of the target is closed
  once, and the source gives its own away.\<close>

lemma move_assign_accounts:
  "accounts b [this, other] s \<Longrightarrow> move_assign False this other s = (this', other', s') \<Longrightarrow> accounts b [this', other'] s'"
  by (auto simp: move_assign_def accounts_def dlclose_def new_plugin_def split: option.splits)

lemma move_construct_accounts:
  "accounts b [other] s \<Longrightarrow> move_construct other = (this, other') \<Longrightarrow> accounts b [this, other'] s"
  by (auto simp: move_construct_def accounts_def new_plugin_def)

section \<open>Strings of a plugin\<close>

text \<open>A plugin that follows the interface gives one string for each call, the result or the message, and
  the host gives it back.\<close>

lemma render_frees:
  assumes "lp_vtable p = Some vt" "vt_render vt = Some f" "vt_free_result vt"
    and "strings_given (f (c_str name) (c_str args)) = 1"
  shows "dl_strings (snd (plugin_render p name args s)) = dl_strings s"
  using assms by (auto simp: plugin_render_def strings_given_def Let_def split: option.split if_splits)

text \<open>A warning beside a result is never given back, and without \<open>free_result\<close>, which \<open>load\<close> does not ask for,
  every result is lost.\<close>

lemma render_leaks:
  assumes "lp_vtable p = Some vt" "vt_render vt = Some f" "fst (f (c_str name) (c_str args)) = Some result"
    and "snd (f (c_str name) (c_str args)) \<noteq> None \<or> \<not> vt_free_result vt"
  shows "dl_strings s < dl_strings (snd (plugin_render p name args s))"
  using assms by (auto simp: plugin_render_def strings_given_def Let_def)

section \<open>An example\<close>

definition demo_vtable :: "32 word \<Rightarrow> string \<Rightarrow> string option list \<Rightarrow> plugin_vtable" where
  "demo_vtable abi name directives = \<lparr>vt_abi_version = abi, vt_info = Some \<lparr>pi_name = Some name, pi_version = None\<rparr>,
     vt_directives = Some directives, vt_render = Some (\<lambda>d args. (Some (name @ args), None)), vt_free_result = True\<rparr>"

definition demo_dl :: dl_api where
  "demo_dl = \<lparr>dl_open = (\<lambda>p. map_of [(''a.so'', 1), (''b.so'', 2), (''new.so'', 3), (''libc.so'', 4)] p),
     dl_library = (\<lambda>h. if h = 1 then Table (demo_vtable 1 ''a'' [Some ''toc'', None, Some ''math''])
       else if h = 2 then Table (demo_vtable 2 ''b'' [Some ''math''])
       else if h = 3 then Table (demo_vtable 3 ''c'' [Some ''toc'']) else No_symbol)\<rparr>"

definition demo_linker :: linker where
  "demo_linker = \<lparr>dl_refs = (\<lambda>h. if h = 4 then 1 else 0), dl_strings = 0\<rparr>"

definition demo_paths :: "string list" where
  "demo_paths = [''a.so'', ''libc.so'', ''b.so'', ''none.so'', ''new.so'', ''a.so'']"

lemma plugin_handles_balanced_witness:
  "dl_refs (case load_all demo_dl demo_paths (new_registry, demo_linker) of (r, s) \<Rightarrow> destroy_registry r s) 1 = 0"
proof -
  obtain r s where rs: "load_all demo_dl demo_paths (new_registry, demo_linker) = (r, s)" by fastforce
  have "dl_refs (destroy_registry r s) = dl_refs demo_linker" using plugin_handles_balanced [OF rs] by blast
  then show ?thesis by (simp only: rs case_prod_conv) (simp add: demo_linker_def)
qed

lemma plugin_last_wins_witness:
  "fst (case load_all demo_dl [''a.so'', ''b.so''] (new_registry, demo_linker) of (r, s) \<Rightarrow> registry_render ''math'' ''(x)'' r s) = Inr ''b(x)''"
proof -
  obtain r s where rs: "load_all demo_dl [''a.so'', ''b.so''] (new_registry, demo_linker) = (r, s)" by fastforce
  let ?p = "\<lparr>lp_handle = Some 2, lp_vtable = Some (demo_vtable 2 ''b'' [Some ''math''])\<rparr>"
  have "rg_plugins r = [\<lparr>lp_handle = Some 1, lp_vtable = Some (demo_vtable 1 ''a'' [Some ''toc'', None, Some ''math''])\<rparr>, ?p]"
    using rs by (auto simp: load_all_def registry_load_def dlopen_def demo_dl_def abi_accepted_def demo_vtable_def
        new_registry_def new_plugin_def Let_def)
  then have "last_declaring ''math'' (rg_plugins r) = Some ?p"
    by (simp add: last_declaring_def) (simp add: plugin_directives_def demo_vtable_def)
  then have r: "registry_render ''math'' ''(x)'' r s = plugin_render ?p ''math'' ''(x)'' s"
    using plugin_last_wins [OF rs, of "''math''" "''(x)''"] by simp
  show ?thesis
    by (simp only: rs case_prod_conv r) (simp add: plugin_render_def demo_vtable_def c_str_def NUL_def Let_def)
qed

end
