(* ===== verification/Nift_Markdown.thy ===== *)
theory Nift_Markdown
  imports Nift_Core
begin

text \<open>
  The Markdown renderer, \<open>crates/markdown/src/markdown.cpp\<close>: the options and extensions it asks of
  cmark-gfm, and the three walks over the tree of a document, for plain text, table of contents and
  links.  The library is the parameter \<open>cmark\<close>; an exception is the left side of a sum, with its text.
\<close>

section \<open>The tree of a document\<close>

text \<open>The node types that the program asks for; all others are \<open>Cm_other\<close>.\<close>

datatype cm_type = Cm_text | Cm_code | Cm_softbreak | Cm_linebreak | Cm_heading | Cm_link | Cm_image | Cm_other

datatype cm_node = Cm_node (cm_type: cm_type) (cm_literal: "string option") (cm_level: nat) (cm_url: "string option")
  (cm_children: "cm_node list")

datatype cm_option = Opt_hardbreaks | Opt_unsafe | Opt_smart

text \<open>\<open>cm_new\<close> says whether a parser can be made, \<open>cm_find_ext\<close> whether an extension is registered; \<open>cm_parse\<close>
  is \<open>None\<close> and \<open>cm_render\<close> is \<open>None\<close> for a null pointer.\<close>

record cmark =
  cm_new :: "cm_option list \<Rightarrow> bool"
  cm_find_ext :: "string \<Rightarrow> bool"
  cm_parse :: "cm_option list \<Rightarrow> string list \<Rightarrow> string \<Rightarrow> cm_node option"
  cm_render :: "cm_option list \<Rightarrow> string list \<Rightarrow> cm_node \<Rightarrow> string option"

section \<open>The walks\<close>

fun collect_text :: "cm_node \<Rightarrow> string \<Rightarrow> string" where
  "collect_text (Cm_node type literal level url children) out =
     fold collect_text children
       (if type = Cm_text \<or> type = Cm_code then (case literal of None \<Rightarrow> out | Some s \<Rightarrow> out @ s)
        else if type = Cm_softbreak then out @ [NL]
        else if type = Cm_linebreak then out @ [NL]
        else out)"

text \<open>The loop body of the slug.\<close>

definition slug_char :: "char \<Rightarrow> string" where
  "slug_char c =
     (if c = CHR '' '' \<or> c = CHR ''_'' then ''-''
      else if 65 \<le> byte c \<and> byte c \<le> 90 then [char_of (byte c + 32)]
      else if 97 \<le> byte c \<and> byte c \<le> 122 \<or> 48 \<le> byte c \<and> byte c \<le> 57 \<or> c = CHR ''-'' then [c]
      else [])"

definition slug :: "string \<Rightarrow> string" where
  "slug s = fold (\<lambda>c i. i @ slug_char c) s []"

record toc_entry =
  toc_level :: nat
  toc_text :: string
  toc_id :: string

record link_info =
  li_text :: string
  li_url :: string
  li_is_image :: bool

fun collect_headings :: "cm_node \<Rightarrow> toc_entry list \<Rightarrow> toc_entry list" where
  "collect_headings (Cm_node type literal level url children) toc =
     fold collect_headings children
       (if type = Cm_heading
        then (let s = collect_text (Cm_node type literal level url children) []
              in toc @ [\<lparr>toc_level = level, toc_text = s, toc_id = slug s\<rparr>])
        else toc)"

fun collect_links :: "cm_node \<Rightarrow> link_info list \<Rightarrow> link_info list" where
  "collect_links (Cm_node type literal level url children) links =
     fold collect_links children
       (if type = Cm_link \<or> type = Cm_image
        then links @ [\<lparr>li_text = collect_text (Cm_node type literal level url children) [],
          li_url = (case url of None \<Rightarrow> [] | Some u \<Rightarrow> u), li_is_image = (type = Cm_image)\<rparr>]
        else links)"

section \<open>The calls of the library\<close>

record markdown_options =
  mo_hardbreaks :: bool
  mo_unsafe :: bool
  mo_smart :: bool
  mo_strikethrough :: bool
  mo_autolink :: bool
  mo_table :: bool
  mo_tagfilter :: bool
  mo_heading_max :: nat

definition default_markdown_options :: markdown_options where
  "default_markdown_options = \<lparr>mo_hardbreaks = False, mo_unsafe = False, mo_smart = False, mo_strikethrough = True,
     mo_autolink = True, mo_table = True, mo_tagfilter = True, mo_heading_max = 6\<rparr>"

definition build_options :: "markdown_options \<Rightarrow> cm_option list" where
  "build_options opts =
     (if mo_hardbreaks opts then [Opt_hardbreaks] else []) @
     (if mo_unsafe opts then [Opt_unsafe] else []) @
     (if mo_smart opts then [Opt_smart] else [])"

definition extensions :: "cmark \<Rightarrow> markdown_options \<Rightarrow> string list" where
  "extensions C opts =
     (if mo_table opts \<and> cm_find_ext C ''table'' then [''table''] else []) @
     (if mo_autolink opts \<and> cm_find_ext C ''autolink'' then [''autolink''] else []) @
     (if mo_strikethrough opts \<and> cm_find_ext C ''strikethrough'' then [''strikethrough''] else []) @
     (if mo_tagfilter opts \<and> cm_find_ext C ''tagfilter'' then [''tagfilter''] else [])"

text \<open>A parser is made, fed with the text and finished; both failures throw.\<close>

definition parse_document :: "cmark \<Rightarrow> cm_option list \<Rightarrow> string list \<Rightarrow> string \<Rightarrow> string + cm_node" where
  "parse_document C options exts markdown =
     (if \<not> cm_new C options then Inl ''cmark: failed to create parser''
      else case cm_parse C options exts markdown of
        None \<Rightarrow> Inl ''cmark: failed to parse markdown''
      | Some doc \<Rightarrow> Inr doc)"

definition to_html :: "cmark \<Rightarrow> string \<Rightarrow> markdown_options \<Rightarrow> string + string" where
  "to_html C markdown opts =
     (let options = build_options opts; exts = extensions C opts in
      map_sum id (\<lambda>doc. case cm_render C options exts doc of None \<Rightarrow> [] | Some html \<Rightarrow> html)
        (parse_document C options exts markdown))"

definition to_plaintext :: "cmark \<Rightarrow> string \<Rightarrow> string + string" where
  "to_plaintext C markdown = map_sum id (\<lambda>doc. collect_text doc []) (parse_document C [] [] markdown)"

definition extract_toc :: "cmark \<Rightarrow> string \<Rightarrow> string + toc_entry list" where
  "extract_toc C markdown = map_sum id (\<lambda>doc. collect_headings doc []) (parse_document C [] [] markdown)"

definition extract_links :: "cmark \<Rightarrow> string \<Rightarrow> string + link_info list" where
  "extract_links C markdown =
     map_sum id (\<lambda>doc. collect_links doc [])
       (parse_document C [] (if cm_find_ext C ''autolink'' then [''autolink''] else []) markdown)"

section \<open>The walks list nodes in document order\<close>

fun preorder :: "cm_node \<Rightarrow> cm_node list" where
  "preorder (Cm_node type literal level url children) =
     Cm_node type literal level url children # concat (map preorder children)"

text \<open>What one node adds to the text.\<close>

definition node_text :: "cm_node \<Rightarrow> string" where
  "node_text n =
     (case cm_type n of
        Cm_text \<Rightarrow> (case cm_literal n of None \<Rightarrow> [] | Some s \<Rightarrow> s)
      | Cm_code \<Rightarrow> (case cm_literal n of None \<Rightarrow> [] | Some s \<Rightarrow> s)
      | Cm_softbreak \<Rightarrow> [NL]
      | Cm_linebreak \<Rightarrow> [NL]
      | _ \<Rightarrow> [])"

definition text_below :: "cm_node \<Rightarrow> string" where
  "text_below n = concat (map node_text (preorder n))"

text \<open>A fold of appending walks over the children appends their lists one after the other.\<close>

lemma fold_appends:
  "(\<And>n out. n \<in> set ns \<Longrightarrow> f n out = out @ g n) \<Longrightarrow> fold f ns out = out @ concat (map g ns)"
  by (induction ns arbitrary: out) auto

lemma preorder_children:
  "concat (map f (concat (map preorder ns))) = concat (map (\<lambda>n. concat (map f (preorder n))) ns)"
  by (induction ns) simp_all

lemma text_below_node:
  "text_below (Cm_node type literal level url children) =
     node_text (Cm_node type literal level url children) @ concat (map text_below children)"
  by (simp add: text_below_def [abs_def] preorder_children)

lemma collect_text_appends: "collect_text n out = out @ text_below n"
proof (induction n arbitrary: out)
  case (Cm_node type literal level url children)
  then have "fold collect_text children out' = out' @ concat (map text_below children)" for out'
    by (rule fold_appends)
  then show ?case
    by (cases type) (auto simp: text_below_node node_text_def split: option.split)
qed

definition heading_of :: "cm_node \<Rightarrow> toc_entry list" where
  "heading_of n = (if cm_type n = Cm_heading
     then [\<lparr>toc_level = cm_level n, toc_text = text_below n, toc_id = slug (text_below n)\<rparr>] else [])"

definition link_of :: "cm_node \<Rightarrow> link_info list" where
  "link_of n = (if cm_type n = Cm_link \<or> cm_type n = Cm_image
     then [\<lparr>li_text = text_below n, li_url = (case cm_url n of None \<Rightarrow> [] | Some u \<Rightarrow> u), li_is_image = (cm_type n = Cm_image)\<rparr>]
     else [])"

lemma collect_headings_appends: "collect_headings n toc = toc @ concat (map heading_of (preorder n))"
proof (induction n arbitrary: toc)
  case (Cm_node type literal level url children)
  then have "fold collect_headings children toc' = toc' @ concat (map (\<lambda>n. concat (map heading_of (preorder n))) children)" for toc'
    by (rule fold_appends)
  then show ?case
    by (simp add: heading_of_def [of "Cm_node _ _ _ _ _"] collect_text_appends preorder_children Let_def)
qed

lemma collect_links_appends: "collect_links n links = links @ concat (map link_of (preorder n))"
proof (induction n arbitrary: links)
  case (Cm_node type literal level url children)
  then have "fold collect_links children links' = links' @ concat (map (\<lambda>n. concat (map link_of (preorder n))) children)" for links'
    by (rule fold_appends)
  then show ?case
    by (simp add: link_of_def [of "Cm_node _ _ _ _ _"] collect_text_appends preorder_children Let_def)
qed

text \<open>The three walks list what the document holds, in document order and without loss.  For every tree
  that the Markdown library delivers, the plain text is the text of its nodes in preorder; the table
  of contents has one entry for each heading, with its level, the text below it and the slug of that
  text; the links are those of its links and images, nested ones included.  When the library fails,
  all three raise its error.\<close>

lemma markdown_walks:
  "to_plaintext C md = map_sum id text_below (parse_document C [] [] md) \<and>
   extract_toc C md = map_sum id (\<lambda>doc. concat (map heading_of (preorder doc))) (parse_document C [] [] md) \<and>
   extract_links C md = map_sum id (\<lambda>doc. concat (map link_of (preorder doc)))
     (parse_document C [] (if cm_find_ext C ''autolink'' then [''autolink''] else []) md)"
  by (simp add: to_plaintext_def extract_toc_def extract_links_def collect_text_appends collect_headings_appends
      collect_links_appends)

section \<open>Slugs\<close>

lemma slug_concat: "slug s = concat (map slug_char s)"
  unfolding slug_def by (subst fold_appends [where g = slug_char]) simp_all

lemma byte_char_of: "n < 256 \<Longrightarrow> byte (char_of n) = n"
  by (simp add: byte_def of_char_of)

definition slug_ok :: "char \<Rightarrow> bool" where
  "slug_ok c \<longleftrightarrow> 97 \<le> byte c \<and> byte c \<le> 122 \<or> 48 \<le> byte c \<and> byte c \<le> 57 \<or> c = CHR ''-''"

lemma byte_dash: "byte (CHR ''-'') = 45"
  by (simp add: byte_def)

lemma slug_char_ok: "d \<in> set (slug_char c) \<Longrightarrow> slug_ok d"
  by (auto simp: slug_char_def slug_ok_def byte_char_of split: if_splits)

lemma slug_char_id: "slug_ok c \<Longrightarrow> slug_char c = [c]"
  by (auto simp: slug_char_def slug_ok_def byte_dash) (auto simp: byte_def)

text \<open>An id holds lower-case letters, digits and dashes only, and is its own slug.\<close>

lemma slug_ids:
  assumes "extract_toc C md = Inr toc" "e \<in> set toc"
  shows "(\<forall>c\<in>set (toc_id e). slug_ok c) \<and> slug (toc_id e) = toc_id e"
proof -
  obtain s where s: "toc_id e = slug s"
    using assms by (cases "parse_document C [] [] md")
      (auto simp: extract_toc_def collect_headings_appends heading_of_def split: if_splits)
  have ok: "\<forall>c\<in>set (toc_id e). slug_ok c" unfolding s slug_concat by (auto dest: slug_char_ok)
  then have "concat (map slug_char (toc_id e)) = toc_id e"
    by (simp add: slug_char_id cong: map_cong)
  with ok show ?thesis by (simp add: slug_concat)
qed

text \<open>Ids are not unique, and a heading without ASCII letters has none.\<close>

lemma slug_clash: "slug ''C'' = slug ''C++'' \<and> slug [CHR 0xC3, CHR 0xA4] = []"
  by code_simp

text \<open>The plain text of two paragraphs runs together, and code blocks are left out.\<close>

lemma plaintext_joins:
  "collect_text (Cm_node Cm_other None 0 None
     [Cm_node Cm_other None 0 None [Cm_node Cm_text (Some ''one'') 0 None []],
      Cm_node Cm_other (Some ''x = 1'') 0 None [],
      Cm_node Cm_other None 0 None [Cm_node Cm_text (Some ''two'') 0 None []]]) [] = ''onetwo''"
  by simp

end
