(* ===== verification/Nift_Images.thy ===== *)
theory Nift_Images
  imports Nift_Shell "HOL-Library.Sublist"
begin

text \<open>
  The image optimizer, \<open>crates/images/src/optimizer.cpp\<close>: the command lines it gives to the external tools,
  with which it resizes and converts, the responsive variants with their \<open>srcset\<close>, and the \<open>picture\<close>
  element.  Durations are left out.  Integers that are printed or compared only are \<open>int\<close>.
\<close>

section \<open>Results and options\<close>

datatype image_target = Original | To_WebP | To_AVIF | To_Png | To_Jpeg

record image_result =
  ir_success :: bool
  ir_output_path :: string
  ir_error_message :: string
  ir_input_size :: nat
  ir_output_size :: nat
  ir_width :: int
  ir_height :: int

definition new_image_result :: image_result where
  "new_image_result = \<lparr>ir_success = False, ir_output_path = [], ir_error_message = [], ir_input_size = 0,
     ir_output_size = 0, ir_width = 0, ir_height = 0\<rparr>"

record resize_options =
  ro_width :: int
  ro_height :: int
  ro_maintain_aspect :: bool
  ro_quality :: int
  ro_format :: image_target
  ro_strip_metadata :: bool

definition default_resize_options :: resize_options where
  "default_resize_options = \<lparr>ro_width = 0, ro_height = 0, ro_maintain_aspect = True, ro_quality = 80,
     ro_format = Original, ro_strip_metadata = True\<rparr>"

record breakpoint =
  bp_width :: int
  bp_suffix :: string

definition default_breakpoints :: "breakpoint list" where
  "default_breakpoints = map (\<lambda>w. \<lparr>bp_width = w, bp_suffix = show_int w @ ''w''\<rparr>) [320, 640, 768, 1024, 1280, 1536, 1920]"

fun format_ext :: "image_target \<Rightarrow> string" where
  "format_ext To_WebP = ''.webp''"
| "format_ext To_AVIF = ''.avif''"
| "format_ext To_Png = ''.png''"
| "format_ext To_Jpeg = ''.jpg''"
| "format_ext Original = []"

section \<open>Tools\<close>

definition find_tool :: "shell \<Rightarrow> string \<Rightarrow> fs \<Rightarrow> string" where
  "find_tool sh tool_name d =
     (if command_exists sh tool_name d then tool_name
      else if tool_name = ''convert'' \<and> command_exists sh ''magick'' d then ''magick''
      else [])"

definition has_vipsthumbnail :: "shell \<Rightarrow> fs \<Rightarrow> bool" where
  "has_vipsthumbnail sh d = command_exists sh ''vipsthumbnail'' d"

definition has_convert :: "shell \<Rightarrow> fs \<Rightarrow> bool" where
  "has_convert sh d \<longleftrightarrow> command_exists sh ''convert'' d \<or> command_exists sh ''magick'' d"

definition has_cwebp :: "shell \<Rightarrow> fs \<Rightarrow> bool" where
  "has_cwebp sh d = command_exists sh ''cwebp'' d"

definition has_avifenc :: "shell \<Rightarrow> fs \<Rightarrow> bool" where
  "has_avifenc sh d = command_exists sh ''avifenc'' d"

text \<open>The first match of \<open>(\d+)x(\d+)\<close> or \<open>(\d+),(\d+)\<close>.\<close>

definition dims_at :: "char \<Rightarrow> string \<Rightarrow> (string \<times> string) option" where
  "dims_at sep s =
     (let a = takeWhile isdigit s; r = dropWhile isdigit s; b = takeWhile isdigit (tl r)
      in if a \<noteq> [] \<and> r \<noteq> [] \<and> hd r = sep \<and> b \<noteq> [] then Some (a, b) else None)"

fun find_dims :: "char \<Rightarrow> string \<Rightarrow> (string \<times> string) option" where
  "find_dims sep [] = None"
| "find_dims sep (c # cs) = (case dims_at sep (c # cs) of None \<Rightarrow> find_dims sep cs | Some ab \<Rightarrow> Some ab)"

text \<open>\<open>std::stoi\<close> of digits throws above the range of \<open>int\<close>.\<close>

definition dims_value :: "string \<times> string \<Rightarrow> (int \<times> int) option" where
  "dims_value ab =
     (if digits_value (fst ab) < 2 ^ 31 \<and> digits_value (snd ab) < 2 ^ 31
      then Some (int (digits_value (fst ab)), int (digits_value (snd ab))) else None)"

definition get_dimensions :: "shell \<Rightarrow> string \<Rightarrow> fs \<Rightarrow> (int \<times> int) option \<times> fs" where
  "get_dimensions sh path d =
     (let (found, d) =
        (if command_exists sh ''identify'' d
         then (let (out, d) = exec_cmd sh (''identify -format '' @ in_quotes ''%wx%h'' @ '' '' @ in_quotes path @ '' 2>/dev/null'') d
               in (find_dims (CHR ''x'') out, d))
         else (None, d))
      in case found of
        Some ab \<Rightarrow> (dims_value ab, d)
      | None \<Rightarrow>
          if command_exists sh ''ffprobe'' d
          then (let (out, d) = exec_cmd sh (''ffprobe -v error -select_streams v:0 -show_entries stream=width,height -of csv=p=0 '' @
                      in_quotes path @ '' 2>/dev/null'') d
                in (case find_dims (CHR '','') out of Some ab \<Rightarrow> dims_value ab | None \<Rightarrow> Some (0, 0), d))
          else (Some (0, 0), d))"

section \<open>Resizing and converting\<close>

text \<open>The end of all three calls: the result is a success if the output file exists.\<close>

definition finish_image :: "shell \<Rightarrow> string \<Rightarrow> string \<Rightarrow> image_result \<Rightarrow> fs \<Rightarrow> image_result option \<times> fs" where
  "finish_image sh out_path failure result d =
     (if is_file out_path d
      then and_then (get_dimensions sh out_path d) (\<lambda>(w, h) d'.
        (Some (result\<lparr>ir_success := True, ir_output_path := out_path, ir_output_size := size_of out_path d,
           ir_width := w, ir_height := h\<rparr>), d'))
      else (Some (result\<lparr>ir_error_message := failure\<rparr>), d))"

definition vips_size :: "resize_options \<Rightarrow> string" where
  "vips_size opts =
     (if 0 < ro_width opts \<and> 0 < ro_height opts
      then show_int (ro_width opts) @ ''x'' @ show_int (ro_height opts) @ (if ro_maintain_aspect opts then ''>'' else [])
      else if 0 < ro_width opts then show_int (ro_width opts) @ ''x''
      else if 0 < ro_height opts then ''x'' @ show_int (ro_height opts)
      else ''100%'')"

definition vips_command :: "string \<Rightarrow> string \<Rightarrow> resize_options \<Rightarrow> string" where
  "vips_command input out_path opts =
     ''vipsthumbnail '' @ in_quotes input @ '' -s '' @ vips_size opts @ '' -o '' @ in_quotes out_path @
     '' --Q='' @ show_int (ro_quality opts) @ (if ro_strip_metadata opts then '' --strip'' else [])"

definition convert_command :: "string \<Rightarrow> string \<Rightarrow> string \<Rightarrow> resize_options \<Rightarrow> string" where
  "convert_command convert input out_path opts =
     convert @ '' '' @ in_quotes input @
     (if 0 < ro_width opts \<or> 0 < ro_height opts
      then '' -resize '' @ show_int (ro_width opts) @ ''x'' @ show_int (ro_height opts) @
        (if ro_maintain_aspect opts then ''>'' else [])
      else []) @
     '' -quality '' @ show_int (ro_quality opts) @ (if ro_strip_metadata opts then '' -strip'' else []) @
     '' '' @ in_quotes out_path"

definition resize :: "shell \<Rightarrow> string \<Rightarrow> string \<Rightarrow> resize_options \<Rightarrow> fs \<Rightarrow> image_result option \<times> fs" where
  "resize sh input output opts d =
     (if \<not> is_file input d
      then (Some (new_image_result\<lparr>ir_error_message := ''Input not found: '' @ input\<rparr>), d)
      else
        let result = new_image_result\<lparr>ir_input_size := size_of input d\<rparr> in
        and_then (ensure_dir (path_parent output) d) (\<lambda>_ d.
          let out_path = (if ro_format opts \<noteq> Original then path_with_extension output (format_ext (ro_format opts)) else output) in
          and_then
            (if has_vipsthumbnail sh d
             then (Some (), snd (exec_cmd sh (vips_command input out_path opts @ '' 2>&1'') d))
             else if has_convert sh d
             then (Some (), snd (exec_cmd sh (convert_command (find_tool sh ''convert'' d) input out_path opts @ '' 2>&1'') d))
             else copy_overwrite input out_path d)
            (\<lambda>_ d. finish_image sh out_path ''Resize failed'' result d)))"

text \<open>The two converters differ in their encoder; \<open>None\<close> is a tool that is missing.\<close>

definition convert_quality_command :: "string \<Rightarrow> int \<Rightarrow> string \<Rightarrow> string \<Rightarrow> string" where
  "convert_quality_command convert quality input out_path =
     convert @ '' '' @ in_quotes input @ '' -quality '' @ show_int quality @ '' '' @ in_quotes out_path"

definition cwebp_command :: "int \<Rightarrow> string \<Rightarrow> string \<Rightarrow> string" where
  "cwebp_command quality input out_path =
     ''cwebp -q '' @ show_int quality @ '' '' @ in_quotes input @ '' -o '' @ in_quotes out_path @ '' 2>&1''"

text \<open>\<open>63 - static_cast<int>(quality * 63.0 / 100.0 + 0.5)\<close>, clamped.  The quotient is either exact, or
  further from the next half than the rounding of doubles; the conversion truncates.\<close>

definition avif_cq :: "int \<Rightarrow> int" where
  "avif_cq quality =
     (let n = quality * 63 + 50; steps = (if n < 0 then - (- n div 100) else n div 100)
      in max 0 (min 63 (63 - steps)))"

definition avif_speed :: "int \<Rightarrow> int" where
  "avif_speed quality = (if 80 \<le> quality then 6 else if 50 \<le> quality then 8 else 10)"

definition avifenc_command :: "int \<Rightarrow> string \<Rightarrow> string \<Rightarrow> string" where
  "avifenc_command quality input out_path =
     ''avifenc --cq-level '' @ show_int (avif_cq quality) @ '' --speed '' @ show_int (avif_speed quality) @ '' '' @
     in_quotes input @ '' '' @ in_quotes out_path @ '' 2>&1''"

definition to_webp :: "shell \<Rightarrow> string \<Rightarrow> string \<Rightarrow> int \<Rightarrow> fs \<Rightarrow> image_result option \<times> fs" where
  "to_webp sh input output quality d =
     (if \<not> is_file input d
      then (Some (new_image_result\<lparr>ir_error_message := ''Input not found: '' @ input\<rparr>), d)
      else
        let result = new_image_result\<lparr>ir_input_size := size_of input d\<rparr> in
        and_then (ensure_dir (path_parent output) d) (\<lambda>_ d.
          let out_path = path_with_extension output ''.webp'' in
          if has_cwebp sh d
          then finish_image sh out_path ''WebP conversion failed'' result (snd (exec_cmd sh (cwebp_command quality input out_path) d))
          else if has_convert sh d
          then finish_image sh out_path ''WebP conversion failed'' result
            (snd (exec_cmd sh (convert_quality_command (find_tool sh ''convert'' d) quality input out_path) d))
          else (Some (result\<lparr>ir_error_message := ''No WebP encoder found (install cwebp or ImageMagick)''\<rparr>), d)))"

definition to_avif :: "shell \<Rightarrow> string \<Rightarrow> string \<Rightarrow> int \<Rightarrow> fs \<Rightarrow> image_result option \<times> fs" where
  "to_avif sh input output quality d =
     (if \<not> is_file input d
      then (Some (new_image_result\<lparr>ir_error_message := ''Input not found: '' @ input\<rparr>), d)
      else
        let result = new_image_result\<lparr>ir_input_size := size_of input d\<rparr> in
        and_then (ensure_dir (path_parent output) d) (\<lambda>_ d.
          let out_path = path_with_extension output ''.avif'' in
          if has_avifenc sh d
          then finish_image sh out_path ''AVIF conversion failed'' result (snd (exec_cmd sh (avifenc_command quality input out_path) d))
          else if has_convert sh d
          then finish_image sh out_path ''AVIF conversion failed'' result
            (snd (exec_cmd sh (convert_quality_command (find_tool sh ''convert'' d) quality input out_path) d))
          else (Some (result\<lparr>ir_error_message := ''No AVIF encoder found (install avifenc or ImageMagick)''\<rparr>), d)))"

section \<open>Responsive images\<close>

record responsive_result =
  rr_images :: "image_result list"
  rr_srcset :: string
  rr_sizes :: string

definition responsive_ext :: "image_target \<Rightarrow> string \<Rightarrow> string" where
  "responsive_ext format input = (if format_ext format = [] then path_extension input else format_ext format)"

definition responsive_name :: "string \<Rightarrow> string \<Rightarrow> breakpoint \<Rightarrow> string" where
  "responsive_name stem ext bp = stem @ ''-'' @ bp_suffix bp @ ext"

definition srcset_part :: "string \<Rightarrow> string \<Rightarrow> breakpoint \<Rightarrow> string" where
  "srcset_part stem ext bp = responsive_name stem ext bp @ '' '' @ show_int (bp_width bp) @ ''w''"

text \<open>The body of the loop: the image with its part of the \<open>srcset\<close>, unless resizing failed.\<close>

definition responsive_step ::
    "shell \<Rightarrow> string \<Rightarrow> string \<Rightarrow> image_target \<Rightarrow> int \<Rightarrow> breakpoint \<Rightarrow> fs \<Rightarrow> (image_result \<times> string) list option \<times> fs" where
  "responsive_step sh input output_dir format quality bp d =
     (let stem = path_stem input; ext = responsive_ext format input;
          out_path = path_join output_dir (responsive_name stem ext bp);
          opts = default_resize_options\<lparr>ro_width := bp_width bp, ro_quality := quality, ro_format := format\<rparr>
      in and_then (resize sh input out_path opts d) (\<lambda>img d.
           (Some (if ir_success img then [(img, srcset_part stem ext bp)] else []), d)))"

definition generate_responsive ::
    "shell \<Rightarrow> string \<Rightarrow> string \<Rightarrow> breakpoint list \<Rightarrow> image_target \<Rightarrow> int \<Rightarrow> fs \<Rightarrow> responsive_result option \<times> fs" where
  "generate_responsive sh input output_dir breakpoints format quality d =
     and_then (ensure_dir output_dir d) (\<lambda>_ d.
       and_then (for_each (responsive_step sh input output_dir format quality) breakpoints d) (\<lambda>imgs d.
         let parts = map snd (concat imgs) in
         (Some \<lparr>rr_images = map fst (concat imgs), rr_srcset = join parts '', '',
            rr_sizes = (if parts \<noteq> [] then ''(max-width: 640px) 100vw, (max-width: 1024px) 50vw, 33vw'' else [])\<rparr>, d)))"

section \<open>The pipeline\<close>

record image_pipeline_config =
  ip_input_dir :: string
  ip_output_dir :: string
  ip_resize_opts :: resize_options
  ip_extensions :: "string list"
  ip_generate_webp :: bool
  ip_generate_avif :: bool
  ip_generate_responsive :: bool
  ip_breakpoints :: "breakpoint list"

text \<open>One file of the listing, by its path relative to the input directory.\<close>

definition image_entry :: "shell \<Rightarrow> image_pipeline_config \<Rightarrow> string \<Rightarrow> fs \<Rightarrow> image_result list option \<times> fs" where
  "image_entry sh cfg rel d =
     (let entry = path_join (ip_input_dir cfg) rel in
      if \<not> is_file entry d \<or> to_lower (path_extension entry) \<notin> set (ip_extensions cfg) then (Some [], d)
      else
        let out_base = path_join (path_join (ip_output_dir cfg) (path_parent rel)) (path_stem entry);
            quality = ro_quality (ip_resize_opts cfg)
        in and_then (resize sh entry (out_base @ path_extension entry) (ip_resize_opts cfg) d) (\<lambda>resized d.
           and_then (if ip_generate_webp cfg \<and> has_cwebp sh d
                     then and_then (to_webp sh entry (out_base @ ''.webp'') quality d) (\<lambda>r d. (Some [r], d))
                     else (Some [], d)) (\<lambda>webp d.
           and_then (if ip_generate_avif cfg \<and> has_avifenc sh d
                     then and_then (to_avif sh entry (out_base @ ''.avif'') quality d) (\<lambda>r d. (Some [r], d))
                     else (Some [], d)) (\<lambda>avif d.
           and_then (if ip_generate_responsive cfg
                     then and_then (generate_responsive sh entry
                            (path_join (path_join (ip_output_dir cfg) ''responsive'') (path_parent rel))
                            (ip_breakpoints cfg) To_WebP quality d) (\<lambda>r d. (Some (rr_images r), d))
                     else (Some [], d)) (\<lambda>resp d.
           (Some (resized # webp @ avif @ resp), d))))))"

text \<open>\<open>listing\<close> gives the relative paths below a directory, in the order of the iterator.\<close>

definition run_image_pipeline ::
    "shell \<Rightarrow> (string \<Rightarrow> fs \<Rightarrow> string list) \<Rightarrow> image_pipeline_config \<Rightarrow> fs \<Rightarrow> image_result list option \<times> fs" where
  "run_image_pipeline sh listing cfg d =
     (if \<not> file_exists (ip_input_dir cfg) d then (Some [], d)
      else and_then (ensure_dir (ip_output_dir cfg) d) (\<lambda>_ d.
        and_then (for_each (image_entry sh cfg) (listing (ip_input_dir cfg) d) d) (\<lambda>rs d. (Some (concat rs), d))))"

section \<open>The picture element\<close>

definition picture_source :: "string \<Rightarrow> string \<Rightarrow> string \<Rightarrow> string \<Rightarrow> breakpoint list \<Rightarrow> string" where
  "picture_source mime ext dir stem breakpoints =
     (let quote = [CHR 0x22] in
      ''  <source type='' @ quote @ ''image/'' @ mime @ quote @ '' srcset='' @ quote @
      join (map (\<lambda>bp. dir @ ''/'' @ srcset_part stem ext bp) breakpoints) '', '' @ quote @ ''>'' @ [NL])"

definition picture_tag :: "shell \<Rightarrow> string \<Rightarrow> string \<Rightarrow> breakpoint list \<Rightarrow> fs \<Rightarrow> string" where
  "picture_tag sh image_path alt breakpoints d =
     (let stem = path_stem image_path; dir = path_parent image_path; quote = [CHR 0x22] in
      ''<picture>'' @ [NL] @
      (if has_avifenc sh d then picture_source ''avif'' ''.avif'' dir stem breakpoints else []) @
      (if has_cwebp sh d then picture_source ''webp'' ''.webp'' dir stem breakpoints else []) @
      ''  <img src='' @ quote @ image_path @ quote @ '' alt='' @ quote @ alt @ quote @ '' loading='' @ quote @ ''lazy'' @ quote @
      '' decoding='' @ quote @ ''async'' @ quote @ ''>'' @ [NL] @ ''</picture>'')"

section \<open>Quality\<close>

text \<open>The AVIF quality is the nearest step of the encoder.  For every quality the level lies in the
  encoder's range of 0 to 63, a better quality never gets a worse level, and from 0 to 100 the level is
  off the exact value by at most half a step.\<close>

lemma avif_cq_scale:
  "0 \<le> avif_cq q \<and> avif_cq q \<le> 63 \<and> (q \<le> q' \<longrightarrow> avif_cq q' \<le> avif_cq q) \<and>
   (0 \<le> q \<and> q \<le> 100 \<longrightarrow> \<bar>100 * avif_cq q - 63 * (100 - q)\<bar> \<le> 50)"
proof -
  define steps where "steps n = (if n < 0 then - (- n div 100) else n div 100)" for n :: int
  have cq: "avif_cq x = max 0 (min 63 (63 - steps (x * 63 + 50)))" for x
    by (simp add: avif_cq_def steps_def Let_def)
  have "steps m \<le> steps n" if "m \<le> n" for m n
  proof -
    have "- n div 100 \<le> - m div 100" "m div 100 \<le> n div 100" using that by (simp_all add: zdiv_mono1)
    moreover have "0 \<le> - m div 100" if "m < 0" using that by simp
    moreover have "0 \<le> n div 100" if "0 \<le> n" using that by simp
    ultimately show ?thesis using that unfolding steps_def by auto
  qed
  then have "steps (q * 63 + 50) \<le> steps (q' * 63 + 50)" if "q \<le> q'" using that by simp
  then have "q \<le> q' \<longrightarrow> avif_cq q' \<le> avif_cq q" unfolding cq by auto
  moreover have "\<bar>100 * avif_cq q - 63 * (100 - q)\<bar> \<le> 50" if "0 \<le> q" "q \<le> 100"
  proof -
    have s: "steps (q * 63 + 50) = (q * 63 + 50) div 100" using that by (simp add: steps_def)
    then have "0 \<le> steps (q * 63 + 50)" "steps (q * 63 + 50) \<le> 63" using that by auto
    moreover from this have "avif_cq q = 63 - (q * 63 + 50) div 100" unfolding cq s by simp
    moreover have "(q * 63 + 50) div 100 * 100 \<le> q * 63 + 50" "q * 63 + 50 < (q * 63 + 50) div 100 * 100 + 100"
      by presburger+
    ultimately show ?thesis by (simp add: algebra_simps abs_le_iff)
  qed
  moreover have "0 \<le> avif_cq q \<and> avif_cq q \<le> 63" unfolding cq by simp
  ultimately show ?thesis by blast
qed

lemma avif_cq_scale_witness: "avif_cq 90 \<le> avif_cq 80 \<and> \<bar>100 * avif_cq 80 - 63 * 20\<bar> \<le> 50"
  using avif_cq_scale [of 80 90] by simp

text \<open>The table in the comment of the code has other levels between its ends.\<close>

lemma avif_cq_values: "map avif_cq [100, 90, 80, 70, 50, 30, 0] = [0, 6, 13, 19, 31, 44, 63]"
  by code_simp

section \<open>Command lines\<close>

lemma plain_show_int: "plain_word (show_int i)"
proof -
  have "c \<noteq> CHR 0x27 \<and> c \<noteq> CHR '' '' \<and> c \<noteq> CHR ''>''" if "isdigit c" for c
    using that by (auto simp: isdigit_def byte_def)
  then show ?thesis
    using show_nat_digits by (auto simp: plain_word_def show_int_def list_all_iff)
qed

lemma show_int_not: "c \<in> set (show_int i) \<Longrightarrow> c \<noteq> CHR 0x27 \<and> c \<noteq> CHR '' '' \<and> c \<noteq> CHR ''>''"
  using plain_show_int by (auto simp: plain_word_def)

lemmas shell_simps = shell_words_def shell_scan_quoted shell_plain [OF plain_show_int] shell_scan_plain show_int_not
  flush_word_def

text \<open>Paths reach the encoders as they are.  For an input and an output path without single quotes,
  blanks included, the shell splits the command lines of both encoders into exactly the arguments that
  are meant, each path one argument.\<close>

lemma encoder_arguments:
  assumes "CHR 0x27 \<notin> set input" "CHR 0x27 \<notin> set out_path"
  shows "shell_words (cwebp_command q input out_path) =
      [Arg ''cwebp'', Arg ''-q'', Arg (show_int q), Arg input, Arg ''-o'', Arg out_path, Redirect ''2'', Arg ''&1''] \<and>
    shell_words (avifenc_command q input out_path) =
      [Arg ''avifenc'', Arg ''--cq-level'', Arg (show_int (avif_cq q)), Arg ''--speed'', Arg (show_int (avif_speed q)),
       Arg input, Arg out_path, Redirect ''2'', Arg ''&1'']"
  using assms by (simp add: cwebp_command_def avifenc_command_def shell_simps isdigit_def byte_def)

lemma encoder_arguments_witness:
  "Arg ''my photo.png'' \<in> set (shell_words (cwebp_command 80 ''my photo.png'' ''out/my photo.webp''))"
  using encoder_arguments [of "''my photo.png''" "''out/my photo.webp''" 80] by simp

text \<open>When both sizes are given and the aspect is kept, the \<open>>\<close> that the tools are to see is not quoted: the
  shell takes it for a redirection into a file called \<open>-o\<close>, and the tool gets the output path as a
  second input.  The same happens to \<open>convert\<close> for every size.\<close>

lemma resize_redirects:
  assumes "CHR 0x27 \<notin> set input" "CHR 0x27 \<notin> set out_path" "0 < ro_width opts" "0 < ro_height opts" "ro_maintain_aspect opts"
  shows "take 7 (shell_words (vips_command input out_path opts)) =
     [Arg ''vipsthumbnail'', Arg input, Arg ''-s'', Arg (show_int (ro_width opts) @ ''x'' @ show_int (ro_height opts)),
      Redirect [], Arg ''-o'', Arg out_path]"
proof -
  have w: "show_int (ro_width opts) @ ''x'' @ show_int (ro_height opts) = hd (show_int (ro_width opts)) # tl (show_int (ro_width opts)) @ ''x'' @ show_int (ro_height opts)"
    using plain_show_int by (cases "show_int (ro_width opts)") (auto simp: plain_word_def)
  let ?wh = "show_int (ro_width opts) @ ''x'' @ show_int (ro_height opts)"
  have x: "\<not> list_all isdigit ?wh" by (simp add: isdigit_def byte_def)
  have "\<forall>c\<in>set ?wh. c \<noteq> CHR 0x27 \<and> c \<noteq> CHR '' '' \<and> c \<noteq> CHR ''>''" using show_int_not by auto
  then have "shell_scan False None (?wh @ cs) = shell_scan False (Some ?wh) cs" for cs
    using shell_scan_plain [of "tl ?wh" "[hd ?wh]" cs] unfolding w by simp
  from this [of "CHR ''>'' # cs" for cs] x
  have wh: "shell_scan False None (show_int (ro_width opts) @ CHR ''x'' # show_int (ro_height opts) @ CHR ''>'' # cs) =
      Arg ?wh # Redirect [] # shell_scan False None cs" for cs
    by (simp add: isdigit_def byte_def)
  show ?thesis
    using assms by (simp add: vips_command_def vips_size_def shell_words_def wh shell_scan_quoted flush_word_def)
qed

section \<open>The srcset names what was made\<close>

lemma finish_image_SomeD:
  assumes "finish_image sh out_path failure result d = (Some img, d')" "ir_success img" "\<not> ir_success result"
  shows "ir_output_path img = out_path \<and> is_file out_path d"
  using assms by (auto simp: finish_image_def split: if_splits elim!: and_then_SomeE)

lemma resize_SomeD:
  assumes "resize sh input output opts d = (Some img, d')" "ir_success img"
  shows "ir_output_path img = (if ro_format opts \<noteq> Original then path_with_extension output (format_ext (ro_format opts)) else output)"
  using assms
  by (auto simp: resize_def new_image_result_def Let_def split: if_splits elim!: and_then_SomeE dest!: finish_image_SomeD)

lemma path_filename_nonempty: "p \<noteq> [] \<Longrightarrow> last p \<noteq> CHR ''/'' \<Longrightarrow> path_filename p \<noteq> []"
  by (cases p rule: rev_cases) (auto simp: path_filename_def)

lemma path_filename_append: "CHR ''/'' \<notin> set e \<Longrightarrow> path_filename (p @ e) = path_filename p @ e"
  by (simp add: path_filename_def takeWhile_append)

lemma path_with_extension_same:
  assumes "p \<noteq> []" "last p \<noteq> CHR ''/''" "e \<noteq> []" "CHR ''.'' \<notin> set e" "CHR ''/'' \<notin> set e"
  shows "path_with_extension (p @ CHR ''.'' # e) (CHR ''.'' # e) = p @ CHR ''.'' # e"
proof -
  have f: "path_filename (p @ CHR ''.'' # e) = path_filename p @ CHR ''.'' # e"
    using assms(5) by (intro path_filename_append) auto
  have "takeWhile (\<lambda>c. c \<noteq> CHR ''.'') (rev (path_filename p @ CHR ''.'' # e)) = rev e"
    using assms(4) by (simp add: takeWhile_append)
  moreover have "path_filename p @ CHR ''.'' # e \<noteq> ''..''"
    using assms(3,4) by (cases e rule: rev_cases) (auto simp: append_eq_Cons_conv Cons_eq_append_conv)
  ultimately have "path_extension (p @ CHR ''.'' # e) = CHR ''.'' # e"
    using path_filename_nonempty [OF assms(1,2)] by (simp add: path_extension_def f Let_def)
  then show ?thesis by (simp add: path_with_extension_def)
qed

definition responsive_path :: "string \<Rightarrow> string \<Rightarrow> image_target \<Rightarrow> breakpoint \<Rightarrow> string" where
  "responsive_path input output_dir format bp =
     path_join output_dir (responsive_name (path_stem input) (responsive_ext format input) bp)"

lemma responsive_path_kept:
  assumes "bp_suffix bp = [] \<or> last (bp_suffix bp) \<noteq> CHR ''/''" "format \<noteq> Original"
  shows "path_with_extension (responsive_path input output_dir format bp) (format_ext format) = responsive_path input output_dir format bp"
proof -
  let ?pre = "path_stem input @ ''-'' @ bp_suffix bp"
  obtain e where e: "format_ext format = CHR ''.'' # e" "e \<noteq> []" "CHR ''.'' \<notin> set e" "CHR ''/'' \<notin> set e"
    using assms(2) by (cases format) auto
  have last: "last ?pre \<noteq> CHR ''/''" using assms(1) by (cases "bp_suffix bp") auto
  have "\<not> path_is_absolute (?pre @ format_ext format)"
    using path_stem_slash [of input] by (cases "path_stem input") (auto simp: path_is_absolute_def)
  then have "responsive_path input output_dir format bp =
      ((if output_dir = [] \<or> last output_dir = CHR ''/'' then output_dir else output_dir @ ''/'') @ ?pre) @ format_ext format"
    using e(1) by (auto simp: responsive_path_def responsive_name_def responsive_ext_def path_join_def)
  then obtain p where "responsive_path input output_dir format bp = (p @ ?pre) @ format_ext format" by blast
  moreover have "p @ ?pre \<noteq> []" "last (p @ ?pre) \<noteq> CHR ''/''" using last by auto
  ultimately show ?thesis using path_with_extension_same e by metis
qed

text \<open>The call of \<open>resize\<close> for a breakpoint.\<close>

definition responsive_call ::
    "shell \<Rightarrow> string \<Rightarrow> string \<Rightarrow> image_target \<Rightarrow> int \<Rightarrow> breakpoint \<Rightarrow> fs \<Rightarrow> image_result option \<times> fs" where
  "responsive_call sh input output_dir format quality bp =
     resize sh input (responsive_path input output_dir format bp)
       (default_resize_options\<lparr>ro_width := bp_width bp, ro_quality := quality, ro_format := format\<rparr>)"

lemma responsive_call_path:
  assumes "responsive_call sh input output_dir format quality bp d = (Some img, d')" "ir_success img"
    and "bp_suffix bp = [] \<or> last (bp_suffix bp) \<noteq> CHR ''/''"
  shows "ir_output_path img = responsive_path input output_dir format bp"
  using resize_SomeD [OF assms(1) [unfolded responsive_call_def] assms(2)] responsive_path_kept [OF assms(3)]
  by (auto split: if_splits)

text \<open>The calls of the loop, each on the disk that the call before it left.\<close>

lemma responsive_calls:
  "for_each (responsive_step sh input output_dir format quality) bps d = (Some imgs, d') \<Longrightarrow>
   \<exists>outs ds. length outs = length bps \<and> length ds = Suc (length bps) \<and> ds ! 0 = d \<and> ds ! length bps = d' \<and>
     (\<forall>k<length bps. responsive_call sh input output_dir format quality (bps ! k) (ds ! k) = (Some (outs ! k), ds ! Suc k)) \<and>
     map fst (concat imgs) = filter ir_success outs \<and>
     map snd (concat imgs) =
       map (\<lambda>(bp, img). srcset_part (path_stem input) (responsive_ext format input) bp) (filter (\<lambda>(bp, img). ir_success img) (zip bps outs))"
proof (induction bps arbitrary: d imgs d')
  case Nil
  then show ?case by (intro exI [of _ "[]"] exI [of _ "[d]"]) simp
next
  case (Cons bp bps)
  from Cons.prems obtain im d1 rest d2 where s: "responsive_step sh input output_dir format quality bp d = (Some im, d1)"
    and rest: "for_each (responsive_step sh input output_dir format quality) bps d1 = (Some rest, d2)" "imgs = im # rest" and dd: "d2 = d'"
    by (auto elim!: and_then_SomeE)
  obtain img where call: "responsive_call sh input output_dir format quality bp d = (Some img, d1)"
    and im: "im = (if ir_success img then [(img, srcset_part (path_stem input) (responsive_ext format input) bp)] else [])"
    using s by (auto simp: responsive_step_def responsive_path_def responsive_call_def Let_def elim!: and_then_SomeE)
  from Cons.IH [OF rest(1)] obtain outs ds where IH: "length outs = length bps" "length ds = Suc (length bps)" "ds ! 0 = d1" "ds ! length bps = d2"
    "\<forall>k<length bps. responsive_call sh input output_dir format quality (bps ! k) (ds ! k) = (Some (outs ! k), ds ! Suc k)"
    "map fst (concat rest) = filter ir_success outs"
    "map snd (concat rest) =
       map (\<lambda>(bp, img). srcset_part (path_stem input) (responsive_ext format input) bp) (filter (\<lambda>(bp, img). ir_success img) (zip bps outs))"
    by blast
  have "responsive_call sh input output_dir format quality ((bp # bps) ! k) ((d # ds) ! k) = (Some ((img # outs) ! k), (d # ds) ! Suc k)"
    if "k < length (bp # bps)" for k
    using that call IH(3,5) by (cases k) simp_all
  then show ?case using IH(1,2,4,6,7) rest(2) im dd
    by (intro exI [of _ "img # outs"] exI [of _ "d # ds"]) simp
qed

text \<open>C33: The \<open>srcset\<close> lists exactly the images that were made.  When no suffix of a breakpoint ends in a slash and nothing
  throws, \<open>resize\<close> is called once for each breakpoint, in their order and each time on the disk that the call before left,
  for the path that the output directory, the stem and the suffix make, and with the width, quality and format
  asked for.  The images of the result are those results of the calls that are successes, all of them and no others, in
  order; each has the path it was made for; and the \<open>srcset\<close> has the parts of just these breakpoints.\<close>

theorem responsive_srcset:
  assumes "generate_responsive sh input output_dir breakpoints format quality d = (Some r, d')"
    and "\<forall>bp\<in>set breakpoints. bp_suffix bp = [] \<or> last (bp_suffix bp) \<noteq> CHR ''/''"
  shows "\<exists>outs ds. length outs = length breakpoints \<and> length ds = Suc (length breakpoints) \<and>
    ensure_dir output_dir d = (Some (), ds ! 0) \<and> d' = ds ! length breakpoints \<and>
    (\<forall>k<length breakpoints.
       responsive_call sh input output_dir format quality (breakpoints ! k) (ds ! k) = (Some (outs ! k), ds ! Suc k) \<and>
       (ir_success (outs ! k) \<longrightarrow> ir_output_path (outs ! k) = responsive_path input output_dir format (breakpoints ! k))) \<and>
    rr_images r = filter ir_success outs \<and>
    rr_srcset r = join (map (\<lambda>(bp, img). srcset_part (path_stem input) (responsive_ext format input) bp)
      (filter (\<lambda>(bp, img). ir_success img) (zip breakpoints outs))) '', ''"
proof -
  from assms(1) obtain d1 imgs d2 where e: "ensure_dir output_dir d = (Some (), d1)"
    and f: "for_each (responsive_step sh input output_dir format quality) breakpoints d1 = (Some imgs, d2)"
    and r: "rr_images r = map fst (concat imgs)" "rr_srcset r = join (map snd (concat imgs)) '', ''" "d' = d2"
    by (auto simp: generate_responsive_def Let_def elim!: and_then_SomeE)
  from responsive_calls [OF f] obtain outs ds where c: "length outs = length breakpoints" "length ds = Suc (length breakpoints)" "ds ! 0 = d1" "ds ! length breakpoints = d2"
    "\<forall>k<length breakpoints. responsive_call sh input output_dir format quality (breakpoints ! k) (ds ! k) = (Some (outs ! k), ds ! Suc k)"
    "map fst (concat imgs) = filter ir_success outs"
    "map snd (concat imgs) = map (\<lambda>(bp, img). srcset_part (path_stem input) (responsive_ext format input) bp)
       (filter (\<lambda>(bp, img). ir_success img) (zip breakpoints outs))"
    by blast
  have "ir_output_path (outs ! k) = responsive_path input output_dir format (breakpoints ! k)"
    if "k < length breakpoints" "ir_success (outs ! k)" for k
    using responsive_call_path [OF c(5) [rule_format, OF that(1)] that(2)] assms(2) that(1) by simp
  with c e r show ?thesis by (intro exI [of _ outs] exI [of _ ds]) simp
qed

text \<open>Without any tool the images are copies.\<close>

definition demo_photo :: fs where
  "demo_photo = \<lparr>fs_tree = [''p.jpg'' \<mapsto> File ''...''], fs_deny_read = (\<lambda>_. False), fs_deny_write = (\<lambda>_. False)\<rparr>"

definition demo_breakpoint :: breakpoint where
  "demo_breakpoint = \<lparr>bp_width = 8, bp_suffix = ''8w''\<rparr>"

lemma responsive_srcset_witness:
  "\<exists>img. rr_images (the (fst (generate_responsive no_tools ''p.jpg'' ''o'' [demo_breakpoint] Original 80 demo_photo))) = filter ir_success [img] \<and>
     (ir_success img \<longrightarrow> ir_output_path img = ''o/p-8w.jpg'')"
proof -
  let ?g = "generate_responsive no_tools ''p.jpg'' ''o'' [demo_breakpoint] Original 80 demo_photo"
  have "fst ?g \<noteq> None" by code_simp
  then obtain r d' where g: "?g = (Some r, d')" by (cases ?g) auto
  have "\<forall>bp\<in>set [demo_breakpoint]. bp_suffix bp = [] \<or> last (bp_suffix bp) \<noteq> CHR ''/''" by (simp add: demo_breakpoint_def)
  from responsive_srcset [OF g this] obtain outs where o: "length outs = 1" "rr_images r = filter ir_success outs"
    "ir_success (outs ! 0) \<longrightarrow> ir_output_path (outs ! 0) = responsive_path ''p.jpg'' ''o'' Original demo_breakpoint"
    by auto
  moreover from o(1) obtain img where "outs = [img]" by (auto simp: length_Suc_conv)
  moreover have "responsive_path ''p.jpg'' ''o'' Original demo_breakpoint = ''o/p-8w.jpg''" by code_simp
  ultimately show ?thesis unfolding g by auto
qed

text \<open>An image without a directory is referred to by absolute paths, and the alternative text is not escaped.\<close>

lemma picture_tag_quotes:
  "picture_tag no_tools ''p.jpg'' (''a'' @ CHR 0x22 # '' onload='' @ CHR 0x22 # ''x'') [] demo_photo =
     ''<picture>'' @ [NL] @ ''  <img src='' @ CHR 0x22 # ''p.jpg'' @ CHR 0x22 # '' alt='' @ CHR 0x22 # ''a'' @ CHR 0x22 #
     '' onload='' @ CHR 0x22 # ''x'' @ CHR 0x22 # '' loading='' @ CHR 0x22 # ''lazy'' @ CHR 0x22 # '' decoding='' @ CHR 0x22 #
     ''async'' @ CHR 0x22 # ''>'' @ [NL] @ ''</picture>''"
  by code_simp

lemma picture_source_absolute:
  "picture_source ''webp'' ''.webp'' (path_parent ''p.jpg'') (path_stem ''p.jpg'') [\<lparr>bp_width = 8, bp_suffix = ''8w''\<rparr>] =
     ''  <source type='' @ CHR 0x22 # ''image/webp'' @ CHR 0x22 # '' srcset='' @ CHR 0x22 # ''/p-8w.webp 8w'' @ CHR 0x22 # ''>'' @ [NL]"
  by code_simp

end
