(* ===== verification/Nift_Tailwind_Watcher.thy ===== *)
theory Nift_Tailwind_Watcher
  imports Nift_Prelude
begin

text \<open>
  \<open>TailwindWatcher\<close> of \<open>crates/tailwind/src/tailwind.cpp\<close>: the controller that runs the Tailwind tool in the
  background.  Four parties interleave: the caller, inside \<open>start\<close>, \<open>stop\<close> or the destructor; the
  thread that forks and waits for the process; that process, \<open>sh -c\<close> with the command line, which may exit
  at any time; and the tool, which the shell, or a launcher like \<open>npx\<close>, may run as a process below it.  The
  watcher knows the pid of the shell only: its signals do not reach the tool, and nobody waits for it.
  Each step is one access to the shared state or one system call.  The configuration is assumed to be
  generated, which \<open>Nift_Tailwind\<close> models.
\<close>

section \<open>State and steps\<close>

text \<open>The thread is about to fork, to store the pid it holds, to return from \<open>waitpid\<close>, to reset the pid, to clear
  \<open>running\<close>; or it has ended.\<close>

datatype tw_thread = Th_none | Th_fork | Th_store int | Th_wait | Th_reset | Th_clear | Th_ended

text \<open>The forked shell is absent, running, or dead and not yet reaped.\<close>

datatype tw_process = Absent | Alive | Zombie

text \<open>The caller is outside, or in \<open>stop\<close>: about to test the pid, to send SIGTERM, in round \<open>n\<close> of the wait, to
  test the pid a last time, to send SIGKILL, to reset the pid, to join.\<close>

datatype tw_caller =
    Out | St_test | St_term | St_poll nat | St_last | St_kill | St_reset | St_join | Terminated | Destroyed

text \<open>\<open>tw_child_pid\<close> is -1 or the pid; \<open>tw_tool\<close> tells whether a tool runs below the shell, or was left by it;
  \<open>tw_dying\<close> is set in the destructor; \<open>tw_broadcast\<close> records a signal that was sent to the pid -1, which is
  every process of the user.\<close>

record tw =
  tw_running :: bool
  tw_joinable :: bool
  tw_child_pid :: int
  tw_thread :: tw_thread
  tw_process :: tw_process
  tw_tool :: bool
  tw_caller :: tw_caller
  tw_dying :: bool
  tw_broadcast :: bool

definition new_tw :: tw where
  "new_tw = \<lparr>tw_running = False, tw_joinable = False, tw_child_pid = - 1, tw_thread = Th_none, tw_process = Absent,
     tw_tool = False, tw_caller = Out, tw_dying = False, tw_broadcast = False\<rparr>"

text \<open>\<open>start\<close> with a configuration that can be used: assigning to a joinable \<open>std::thread\<close> ends the program.\<close>

definition tw_start :: "tw \<Rightarrow> tw" where
  "tw_start s =
     (if tw_running s then s
      else if tw_joinable s then s\<lparr>tw_running := True, tw_caller := Terminated\<rparr>
      else s\<lparr>tw_running := True, tw_joinable := True, tw_thread := Th_fork\<rparr>)"

text \<open>The end of \<open>stop\<close>: in the destructor, the members are destroyed; a joinable thread ends the program.\<close>

definition tw_return :: "tw \<Rightarrow> tw" where
  "tw_return s =
     s\<lparr>tw_caller := (if \<not> tw_dying s then Out else if tw_joinable s then Terminated else Destroyed)\<rparr>"

definition tw_stop :: "tw \<Rightarrow> tw" where
  "tw_stop s = (if \<not> tw_running s then tw_return s else s\<lparr>tw_running := False, tw_caller := St_test\<rparr>)"

definition tw_destroy :: "tw \<Rightarrow> tw" where
  "tw_destroy s = tw_stop (s\<lparr>tw_dying := True\<rparr>)"

text \<open>\<open>kill(child_pid, 0)\<close> succeeds for a process that is not reaped, and for the pid -1 when the user has any
  other process, which a program started from a session has.\<close>

definition signal_ok :: "tw \<Rightarrow> bool" where
  "signal_ok s \<longleftrightarrow> tw_child_pid s = - 1 \<or> tw_process s \<noteq> Absent"

text \<open>A signal ends the shell if it is \<open>deadly\<close>: SIGKILL is, SIGTERM when the process does not ignore it.  It goes
  to this one process and not to the group, so the tool below is not signalled.\<close>

definition send_signal :: "bool \<Rightarrow> tw \<Rightarrow> tw" where
  "send_signal deadly s =
     (if tw_child_pid s = - 1 then s\<lparr>tw_broadcast := True\<rparr>
      else if deadly \<and> tw_process s = Alive then s\<lparr>tw_process := Zombie\<rparr>
      else s)"

definition caller_step :: "bool \<Rightarrow> tw \<Rightarrow> tw" where
  "caller_step gentle s =
     (case tw_caller s of
        St_test \<Rightarrow> s\<lparr>tw_caller := (if 0 < tw_child_pid s then St_term else St_join)\<rparr>
      | St_term \<Rightarrow> (send_signal gentle s)\<lparr>tw_caller := St_poll 0\<rparr>
      | St_poll n \<Rightarrow> s\<lparr>tw_caller := (if signal_ok s \<and> Suc n < 20 then St_poll (Suc n) else St_last)\<rparr>
      | St_last \<Rightarrow> s\<lparr>tw_caller := (if signal_ok s then St_kill else St_reset)\<rparr>
      | St_kill \<Rightarrow> (send_signal True s)\<lparr>tw_caller := St_reset\<rparr>
      | St_reset \<Rightarrow> s\<lparr>tw_child_pid := - 1, tw_caller := St_join\<rparr>
      | St_join \<Rightarrow>
          if \<not> tw_joinable s then tw_return s
          else if tw_thread s = Th_ended then tw_return (s\<lparr>tw_joinable := False, tw_thread := Th_none\<rparr>)
          else s
      | _ \<Rightarrow> s)"

text \<open>The thread: \<open>fork\<close> gives a pid, or fails with a negative number.\<close>

definition thread_step :: "int \<Rightarrow> tw \<Rightarrow> tw" where
  "thread_step pid s =
     (case tw_thread s of
        Th_fork \<Rightarrow> if 0 < pid then s\<lparr>tw_process := Alive, tw_thread := Th_store pid\<rparr> else s\<lparr>tw_thread := Th_clear\<rparr>
      | Th_store pid \<Rightarrow> s\<lparr>tw_child_pid := pid, tw_thread := Th_wait\<rparr>
      | Th_wait \<Rightarrow> if tw_process s = Zombie then s\<lparr>tw_process := Absent, tw_thread := Th_reset\<rparr> else s
      | Th_reset \<Rightarrow> s\<lparr>tw_child_pid := - 1, tw_thread := Th_clear\<rparr>
      | Th_clear \<Rightarrow> s\<lparr>tw_running := False, tw_thread := Th_ended\<rparr>
      | _ \<Rightarrow> s)"

datatype tw_actor = Start | Stop | Destroy | Caller bool | Thread int | Process_exit | Tool_start | Tool_exit

fun tw_step :: "tw_actor \<Rightarrow> tw \<Rightarrow> tw" where
  "tw_step Start s = (if tw_caller s = Out then tw_start s else s)"
| "tw_step Stop s = (if tw_caller s = Out then tw_stop s else s)"
| "tw_step Destroy s = (if tw_caller s = Out then tw_destroy s else s)"
| "tw_step (Caller gentle) s = caller_step gentle s"
| "tw_step (Thread pid) s = (if tw_caller s = Terminated then s else thread_step pid s)"
| "tw_step Process_exit s = (if tw_process s = Alive then s\<lparr>tw_process := Zombie\<rparr> else s)"
| "tw_step Tool_start s = (if tw_process s = Alive then s\<lparr>tw_tool := True\<rparr> else s)"
| "tw_step Tool_exit s = s\<lparr>tw_tool := False\<rparr>"

definition tw_run :: "tw_actor list \<Rightarrow> tw \<Rightarrow> tw" where
  "tw_run acts s = fold tw_step acts s"

section \<open>No shell without its thread\<close>

text \<open>Threads that have a process to reap, and the pid they hold.\<close>

fun tending :: "tw_thread \<Rightarrow> bool" where
  "tending (Th_store pid) \<longleftrightarrow> True"
| "tending Th_wait \<longleftrightarrow> True"
| "tending _ \<longleftrightarrow> False"

fun pid_ok :: "tw_thread \<Rightarrow> bool" where
  "pid_ok (Th_store pid) \<longleftrightarrow> 0 < pid"
| "pid_ok _ \<longleftrightarrow> True"

text \<open>The shell exists exactly while the thread is between \<open>fork\<close> and the return of \<open>waitpid\<close>; a thread that has
  not been joined is joinable; nothing runs without a thread; and the members outlive the thread.\<close>

definition tw_inv :: "tw \<Rightarrow> bool" where
  "tw_inv s \<longleftrightarrow>
     (tw_process s \<noteq> Absent \<longleftrightarrow> tending (tw_thread s)) \<and> pid_ok (tw_thread s) \<and>
     (tw_thread s \<noteq> Th_none \<longleftrightarrow> tw_joinable s) \<and>
     (tw_running s \<longrightarrow> tw_caller s = Out \<and> tw_joinable s \<or> tw_caller s = Terminated) \<and>
     (tw_caller s = Destroyed \<longrightarrow> \<not> tw_joinable s) \<and>
     (tw_child_pid s = - 1 \<or> 0 < tw_child_pid s)"

lemmas tw_defs = tw_start_def tw_return_def tw_stop_def tw_destroy_def signal_ok_def send_signal_def caller_step_def thread_step_def

lemma tw_inv_step: "tw_inv s \<Longrightarrow> tw_inv (tw_step a s)"
  by (cases a; cases "tw_caller s"; cases "tw_thread s"; cases "tw_process s") (auto simp: tw_inv_def tw_defs)

lemma tw_inv_run: "tw_inv (tw_run acts new_tw)"
proof -
  have "tw_inv s \<Longrightarrow> tw_inv (fold tw_step acts s)" for s
    by (induction acts arbitrary: s) (simp_all add: tw_inv_step)
  then show ?thesis by (simp add: tw_run_def) (simp add: tw_inv_def new_tw_def)
qed

text \<open>C10: The shell that the watcher forks is always reaped.  In every interleaving of any calls, the shell is
  running or waits to be reaped exactly while the thread is between its \<open>fork\<close> and its \<open>waitpid\<close>; a thread
  that has not been joined is joinable; and once the watcher has been destroyed, its thread is gone and no
  shell is left.  Nothing is said of the tool that the shell may run below itself.\<close>

theorem shell_reaped:
  "(tw_process (tw_run acts new_tw) \<noteq> Absent \<longleftrightarrow> tending (tw_thread (tw_run acts new_tw))) \<and>
   (tw_thread (tw_run acts new_tw) \<noteq> Th_none \<longleftrightarrow> tw_joinable (tw_run acts new_tw)) \<and>
   (tw_caller (tw_run acts new_tw) = Destroyed \<longrightarrow>
      tw_thread (tw_run acts new_tw) = Th_none \<and> tw_process (tw_run acts new_tw) = Absent)"
  using tw_inv_run [of acts] by (auto simp: tw_inv_def)

text \<open>A whole life: the tool starts, SIGTERM ends the shell, the thread reaps it before the next test of the pid,
  \<open>stop\<close> joins the thread, and the watcher is destroyed.\<close>

definition whole_life :: "tw_actor list" where
  "whole_life = [Start, Thread 42, Thread 42, Tool_start, Stop, Caller True, Caller True, Thread 0, Caller True,
     Caller True, Caller True, Thread 0, Thread 0, Caller True, Destroy]"

lemma whole_life_run: "tw_caller (tw_run whole_life new_tw) = Destroyed" "tw_tool (tw_run whole_life new_tw)"
  by (simp_all add: whole_life_def tw_run_def tw_defs new_tw_def)

lemma shell_reaped_witness: "tw_process (tw_run whole_life new_tw) = Absent"
  using shell_reaped [of whole_life] whole_life_run(1) by simp

text \<open>But the tool may be left: whatever the watcher, its caller and its thread do, a tool that has started below
  the shell runs until it exits by itself; so it still runs after \<open>stop\<close> and the destructor above.\<close>

lemma tool_left_running:
  assumes "tw_tool s" "Tool_exit \<notin> set acts"
  shows "tw_tool (tw_run acts s)"
proof -
  have "tw_tool s \<Longrightarrow> a \<noteq> Tool_exit \<Longrightarrow> tw_tool (tw_step a s)" for a s
    by (cases a; cases "tw_caller s"; cases "tw_thread s") (auto simp: tw_defs)
  then have "tw_tool s \<Longrightarrow> Tool_exit \<notin> set acts \<Longrightarrow> tw_tool (fold tw_step acts s)" for s
    by (induction acts arbitrary: s) auto
  with assms show ?thesis by (simp add: tw_run_def)
qed

section \<open>The pid -1\<close>

text \<open>The steps of the caller that are left until it sends SIGKILL, when every test of the pid succeeds.\<close>

fun rounds_left :: "tw_caller \<Rightarrow> nat" where
  "rounds_left (St_poll n) = (20 - n) + 2"
| "rounds_left St_last = 2"
| "rounds_left St_kill = 1"
| "rounds_left _ = 0"

text \<open>The thread has reset the pid while the caller waits for the end of the process.\<close>

definition reaped_while_waiting :: "tw \<Rightarrow> bool" where
  "reaped_while_waiting s \<longleftrightarrow> tw_child_pid s = - 1 \<and> (tw_thread s = Th_clear \<or> tw_thread s = Th_ended) \<and>
     ((\<exists>n<20. tw_caller s = St_poll n) \<or> tw_caller s = St_last \<or> tw_caller s = St_kill)"

lemma reaped_step:
  assumes "reaped_while_waiting s"
  shows "tw_broadcast (tw_step a s) \<or> reaped_while_waiting (tw_step a s) \<and>
    rounds_left (tw_caller (tw_step a s)) = rounds_left (tw_caller s) - (case a of Caller _ \<Rightarrow> 1 | _ \<Rightarrow> 0)"
proof -
  have s: "tw_child_pid s = - 1" "tw_thread s = Th_clear \<or> tw_thread s = Th_ended" using assms by (simp_all add: reaped_while_waiting_def)
  consider n where "n < 20" "tw_caller s = St_poll n" | "tw_caller s = St_last" | "tw_caller s = St_kill"
    using assms unfolding reaped_while_waiting_def by blast
  then show ?thesis
  proof cases
    case 1
    then show ?thesis
    proof (cases a)
      case (Caller g)
      with 1 s show ?thesis by (cases "Suc n < 20") (simp_all add: reaped_while_waiting_def tw_defs, linarith+)
    qed (use 1 s in \<open>auto simp: reaped_while_waiting_def tw_defs\<close>)
  next
    case 2
    with s show ?thesis by (cases a) (auto simp: reaped_while_waiting_def tw_defs)
  next
    case 3
    with s show ?thesis by (cases a) (auto simp: reaped_while_waiting_def tw_defs)
  qed
qed

lemma broadcast_stays: "tw_broadcast s \<Longrightarrow> tw_broadcast (tw_step a s)"
  by (cases a; cases "tw_caller s"; cases "tw_thread s") (auto simp: tw_defs)

text \<open>How many steps of a schedule are the caller's.\<close>

definition caller_steps :: "tw_actor list \<Rightarrow> nat" where
  "caller_steps acts = length (filter (\<lambda>a. case a of Caller _ \<Rightarrow> True | _ \<Rightarrow> False) acts)"

lemma broadcast_run:
  "tw_broadcast s \<or> reaped_while_waiting s \<and> rounds_left (tw_caller s) \<le> caller_steps acts \<Longrightarrow> tw_broadcast (fold tw_step acts s)"
proof (induction acts arbitrary: s)
  case Nil
  then show ?case by (auto simp: caller_steps_def reaped_while_waiting_def)
next
  case (Cons a acts)
  have "tw_broadcast (tw_step a s) \<or> reaped_while_waiting (tw_step a s) \<and> rounds_left (tw_caller (tw_step a s)) \<le> caller_steps acts"
    using Cons.prems broadcast_stays [of s a] reaped_step [of s a]
    by (cases a) (auto simp: caller_steps_def)
  then show ?case by (simp add: Cons.IH)
qed

text \<open>C9: When the shell exits on SIGTERM, \<open>stop\<close> kills everything.  If the thread has reaped the shell and reset
  the pid while \<open>stop\<close> still waits for its end, and \<open>kill\<close> of the pid -1 finds another process of the user, then in every continuation that gives the caller its
  remaining steps, at most 22, it sends SIGKILL to the pid -1, that is, to every process of the user.\<close>

theorem stop_kills_all:
  assumes "reaped_while_waiting s" "22 \<le> caller_steps acts"
  shows "tw_broadcast (tw_run acts s)"
proof -
  have "rounds_left (tw_caller s) \<le> 22" using assms(1) by (auto simp: reaped_while_waiting_def)
  then show ?thesis unfolding tw_run_def using assms by (intro broadcast_run) simp
qed

text \<open>The ordinary shutdown gets there: \<open>start\<close>; the thread forks, stores the pid and waits; \<open>stop\<close>; the
  process dies of SIGTERM; the caller tests the pid once; the thread reaps the process and resets the pid.\<close>

definition ordinary_stop :: "tw_actor list" where
  "ordinary_stop = [Start, Thread 42, Thread 42, Stop, Caller True, Caller True, Caller True, Thread 0, Thread 0]"

lemma stop_kills_all_witness: "tw_broadcast (tw_run (replicate 22 (Caller True)) (tw_run ordinary_stop new_tw))"
  by (rule stop_kills_all)
     (simp_all add: ordinary_stop_def tw_run_def tw_defs new_tw_def reaped_while_waiting_def caller_steps_def)

section \<open>Exit and early stop\<close>

text \<open>When the shell has exited by itself, \<open>stop\<close> returns at once without joining, and the destructor of the
  thread ends the program; so does another \<open>start\<close>.\<close>

lemma exit_crashes:
  defines "s \<equiv> tw_run [Start, Thread 42, Thread 42, Process_exit, Thread 0, Thread 0, Thread 0] new_tw"
  shows "tw_caller (tw_run [Stop, Destroy] s) = Terminated" "tw_caller (tw_run [Start] s) = Terminated"
  by (simp_all add: s_def tw_run_def tw_defs new_tw_def)

text \<open>When \<open>stop\<close> comes before the thread has stored the pid, no signal is sent, and \<open>stop\<close> waits until the
  shell exits by itself, which it does not while the tool runs with \<open>--watch\<close>.\<close>

definition stuck :: "tw \<Rightarrow> bool" where
  "stuck s \<longleftrightarrow> tw_caller s = St_join \<and> tw_joinable s \<and>
     (tw_process s = Absent \<and> tw_thread s = Th_fork \<or> tw_process s = Alive \<and> tending (tw_thread s))"

lemma stuck_stays: "stuck s \<Longrightarrow> a \<noteq> Process_exit \<Longrightarrow> (\<forall>pid. a = Thread pid \<longrightarrow> 0 < pid) \<Longrightarrow> stuck (tw_step a s)"
  by (cases a; cases "tw_thread s") (auto simp: stuck_def tw_defs)

lemma early_stop_hangs:
  assumes "Process_exit \<notin> set acts" "\<forall>pid. Thread pid \<in> set acts \<longrightarrow> 0 < pid"
  shows "tw_caller (tw_run ([Start, Thread 42, Stop, Caller True] @ acts) new_tw) = St_join"
proof -
  have "stuck s \<Longrightarrow> stuck (fold tw_step acts s)" for s
    using assms
  proof (induction acts arbitrary: s)
    case (Cons a acts)
    then have "stuck (tw_step a s)" by (intro stuck_stays) auto
    then show ?case using Cons by simp
  qed simp
  moreover have "stuck (fold tw_step [Start, Thread 42, Stop, Caller True] new_tw)"
    by (simp add: stuck_def tw_defs new_tw_def)
  ultimately show ?thesis by (simp add: tw_run_def stuck_def)
qed

end
