(* ===== verification/Nift_Bundler.thy ===== *)
theory Nift_Bundler
  imports Nift_Shell Nift_Cache
begin

text \<open>
  The asset pipeline, \<open>crates/assets/src/pipeline.cpp\<close>: the command lines for lightningcss and esbuild, the
  fallback for style sheets when there is no tool, fingerprints and the manifest.  The shell, the JSON
  library and BLAKE3 are parameters; a listing is the list of paths that a directory iterator delivers;
  durations are left out.  An exception is \<open>None\<close>.
\<close>

section \<open>Results and options\<close>

record asset_result =
  ar_success :: bool
  ar_output_path :: string
  ar_error_message :: string
  ar_input_size :: nat
  ar_output_size :: nat
  ar_content_hash :: string
  ar_sourcemap_path :: string

definition new_asset_result :: asset_result where
  "new_asset_result = \<lparr>ar_success = False, ar_output_path = [], ar_error_message = [], ar_input_size = 0,
     ar_output_size = 0, ar_content_hash = [], ar_sourcemap_path = []\<rparr>"

record css_options =
  co_minify :: bool
  co_sourcemap :: bool
  co_autoprefixer :: bool
  co_targets :: string

record js_options =
  jo_minify :: bool
  jo_sourcemap :: bool
  jo_bundle :: bool
  jo_format :: string
  jo_target :: string
  jo_external :: "string list"
  jo_define :: "(string \<times> string) list"

record asset_env =
  ae_sh :: shell
  ae_lib :: json_lib
  ae_blake3 :: hasher
  ae_listing :: "string \<Rightarrow> fs \<Rightarrow> string list"

section \<open>Tools\<close>

definition find_esbuild :: "shell \<Rightarrow> fs \<Rightarrow> string" where
  "find_esbuild sh d =
     (let ver = fst (exec_cmd sh ''npx esbuild --version 2>/dev/null'' d) in
      if command_exists sh ''esbuild'' d then ''esbuild''
      else if command_exists sh ''npx'' d \<and> ver \<noteq> [] \<and> find_sub ''.'' ver \<noteq> None then ''npx esbuild''
      else if is_file ''node_modules/.bin/esbuild'' d then ''./node_modules/.bin/esbuild''
      else [])"

definition find_lightningcss :: "shell \<Rightarrow> fs \<Rightarrow> string" where
  "find_lightningcss sh d =
     (let ver = fst (exec_cmd sh ''npx lightningcss --version 2>/dev/null'' d) in
      if command_exists sh ''lightningcss'' d then ''lightningcss''
      else if command_exists sh ''npx'' d \<and> ver \<noteq> [] then ''npx lightningcss''
      else if is_file ''node_modules/.bin/lightningcss'' d then ''./node_modules/.bin/lightningcss''
      else [])"

definition esbuild_available :: "shell \<Rightarrow> fs \<Rightarrow> bool" where
  "esbuild_available sh d \<longleftrightarrow> find_esbuild sh d \<noteq> []"

definition lightningcss_available :: "shell \<Rightarrow> fs \<Rightarrow> bool" where
  "lightningcss_available sh d \<longleftrightarrow> find_lightningcss sh d \<noteq> []"

definition blake3_file :: "hasher \<Rightarrow> string \<Rightarrow> fs \<Rightarrow> string" where
  "blake3_file B p d = (case read_file p d of Inl e \<Rightarrow> [] | Inr content \<Rightarrow> hash_content B content)"

text \<open>The end of \<open>process_css\<close> and \<open>bundle_js\<close>.\<close>

definition finish_asset :: "hasher \<Rightarrow> string \<Rightarrow> string \<Rightarrow> asset_result \<Rightarrow> fs \<Rightarrow> asset_result" where
  "finish_asset B output failure result d =
     (if is_file output d
      then result\<lparr>ar_success := True, ar_output_path := output, ar_output_size := size_of output d,
        ar_content_hash := blake3_file B output d,
        ar_sourcemap_path := (if is_file (output @ ''.map'') d then output @ ''.map'' else ar_sourcemap_path result)\<rparr>
      else result\<lparr>ar_error_message := failure\<rparr>)"

section \<open>Style sheets without a tool\<close>

text \<open>\<open>/\*[\s\S]*?\*/\<close>: what is left after the first end of a comment.\<close>

fun comment_end :: "string \<Rightarrow> string option" where
  "comment_end (a # b # cs) = (if a = CHR ''*'' \<and> b = CHR ''/'' then Some cs else comment_end (b # cs))"
| "comment_end cs = None"

lemma comment_end_length: "comment_end cs = Some r \<Longrightarrow> length r < length cs"
  by (induction cs rule: comment_end.induct) (auto split: if_splits)

function strip_block_comments :: "string \<Rightarrow> string" where
  "strip_block_comments [] = []"
| "strip_block_comments (c # cs) =
     (case (if c = CHR ''/'' \<and> cs \<noteq> [] \<and> hd cs = CHR ''*'' then comment_end (tl cs) else None) of
        None \<Rightarrow> c # strip_block_comments cs
      | Some rest \<Rightarrow> strip_block_comments rest)"
  by pat_completeness auto
termination
proof (relation "measure length")
  fix c cs rest
  assume "(if c = CHR ''/'' \<and> cs \<noteq> [] \<and> hd cs = CHR ''*'' then comment_end (tl cs) else None) = Some rest"
  then have "length rest < length (tl cs)" by (auto split: if_splits dest: comment_end_length)
  then show "(rest, c # cs) \<in> measure length" by simp
qed simp_all

text \<open>\<open>//[^\n]*\<close>.\<close>

function strip_line_comments :: "string \<Rightarrow> string" where
  "strip_line_comments [] = []"
| "strip_line_comments (c # cs) =
     (if c = CHR ''/'' \<and> cs \<noteq> [] \<and> hd cs = CHR ''/'' then strip_line_comments (dropWhile (\<lambda>c. c \<noteq> NL) (tl cs))
      else c # strip_line_comments cs)"
  by pat_completeness auto
termination
  by (relation "measure length") (auto simp: le_imp_less_Suc intro!: le_less_trans [OF length_dropWhile_le])

text \<open>\<open>\s+\<close> becomes a blank.\<close>

fun collapse_ws :: "bool \<Rightarrow> string \<Rightarrow> string" where
  "collapse_ws inside [] = []"
| "collapse_ws inside (c # cs) =
     (if isspace c then (if inside then collapse_ws True cs else CHR '' '' # collapse_ws True cs)
      else c # collapse_ws False cs)"

text \<open>\<open>\s*([{}:;,>+~])\s*\<close> becomes the byte between.\<close>

definition is_css_sep :: "char \<Rightarrow> bool" where
  "is_css_sep c \<longleftrightarrow> c \<in> set ''{}:;,>+~''"

function tighten :: "string \<Rightarrow> string" where
  "tighten [] = []"
| "tighten (c # cs) =
     (let rest = dropWhile isspace (c # cs) in
      if rest \<noteq> [] \<and> is_css_sep (hd rest) then hd rest # tighten (dropWhile isspace (tl rest))
      else c # tighten cs)"
  by pat_completeness auto
termination
proof (relation "measure length")
  fix c :: char and cs rest
  assume r: "rest = dropWhile isspace (c # cs)" "rest \<noteq> [] \<and> is_css_sep (hd rest)"
  have "length (dropWhile isspace (tl rest)) \<le> length (tl rest)" by (rule length_dropWhile_le)
  moreover have "length rest \<le> length (c # cs)" unfolding r(1) by (rule length_dropWhile_le)
  ultimately show "(dropWhile isspace (tl rest), c # cs) \<in> measure length" using r(2) by (cases rest) auto
qed simp_all

definition trim_blanks :: "string \<Rightarrow> string" where
  "trim_blanks s = rev (dropWhile (\<lambda>c. c = CHR '' '') (rev (dropWhile (\<lambda>c. c = CHR '' '') s)))"

definition fallback_css :: "bool \<Rightarrow> string \<Rightarrow> string" where
  "fallback_css minify css =
     (let css = strip_line_comments (strip_block_comments css)
      in if minify then trim_blanks (tighten (collapse_ws False css)) else css)"

subsection \<open>The text of the fallback\<close>

text \<open>The specification of the two comment passes: block comments end where the next closing mark stands, and one
  without a closing mark is no comment; then each line is cut at its first pair of slashes.\<close>

function cut_lines :: "string \<Rightarrow> string" where
  "cut_lines s =
     (case find_sub ''//'' s of None \<Rightarrow> s | Some i \<Rightarrow> take i s @ cut_lines (dropWhile (\<lambda>c. c \<noteq> NL) (drop (i + 2) s)))"
  by pat_completeness auto
termination
proof (relation "measure length")
  fix s :: string and i
  assume "find_sub ''//'' s = Some i"
  from find_sub_length [OF this] show "(dropWhile (\<lambda>c. c \<noteq> NL) (drop (i + 2) s), s) \<in> measure length"
    using length_dropWhile_le [of "\<lambda>c. c \<noteq> NL" "drop (i + 2) s"] by simp
qed simp

declare cut_lines.simps [simp del]

definition reopened :: "string \<Rightarrow> string" where
  "reopened u = ''/*'' @ u"

definition comment_free :: "string \<Rightarrow> string" where
  "comment_free s = cut_lines (uncomment reopened s)"

lemma comment_end_find: "comment_end cs = map_option (\<lambda>j. drop (j + 2) cs) (find_sub ''*/'' cs)"
  by (induction cs rule: comment_end.induct) (auto simp: option.map_comp comp_def)

lemma strip_block_unclosed: "find_sub ''*/'' s = None \<Longrightarrow> strip_block_comments s = s"
proof (induction s)
  case (Cons c cs)
  have n: "find_sub ''*/'' cs = None" using Cons.prems by (auto split: if_splits)
  then have "find_sub ''*/'' (tl cs) = None" by (cases cs) (auto split: if_splits)
  then show ?case using Cons.IH n by (simp add: comment_end_find)
qed simp

lemma strip_block_uncomment: "strip_block_comments s = uncomment reopened s"
proof (induction s rule: strip_block_comments.induct)
  case (2 c cs)
  show ?case
  proof (cases "c = CHR ''/'' \<and> cs \<noteq> [] \<and> hd cs = CHR ''*''")
    case True
    then obtain u where cs: "c # cs = CHR ''/'' # CHR ''*'' # u" "tl cs = u" by (cases cs) auto
    show ?thesis
    proof (cases "find_sub ''*/'' u")
      case None
      then have "strip_block_comments u = u" by (rule strip_block_unclosed)
      with None show ?thesis unfolding cs(1) uncomment_open by (simp add: comment_end_find reopened_def)
    next
      case (Some j)
      with 2(2) True cs(2) show ?thesis unfolding cs(1) uncomment_open by (simp add: comment_end_find)
    qed
  next
    case False
    with 2(1) show ?thesis by (simp only: uncomment_other [OF False] strip_block_comments.simps if_False option.case refl)
  qed
qed simp

lemma strip_line_cut: "strip_line_comments s = cut_lines s"
proof (induction s rule: strip_line_comments.induct)
  case (2 c cs)
  show ?case
  proof (cases "c = CHR ''/'' \<and> cs \<noteq> [] \<and> hd cs = CHR ''/''")
    case True
    then obtain u where cs: "cs = CHR ''/'' # u" by (cases cs) auto
    have "cut_lines (c # cs) = cut_lines (dropWhile (\<lambda>c. c \<noteq> NL) u)" using True by (subst cut_lines.simps) (simp add: cs)
    with 2(1) [OF True] True cs show ?thesis by simp
  next
    case False
    then have "find_sub ''//'' (c # cs) = map_option Suc (find_sub ''//'' cs)" by (cases cs) auto
    then have "cut_lines (c # cs) = c # cut_lines cs" by (subst (1 2) cut_lines.simps) (simp split: option.split)
    with 2(2) [OF False] False show ?thesis by auto
  qed
qed (simp add: cut_lines.simps)

abbreviation visible :: "string \<Rightarrow> string" where
  "visible s \<equiv> filter (\<lambda>c. \<not> isspace c) s"

lemma visible_dropWhile: "(\<And>c. P c \<Longrightarrow> isspace c) \<Longrightarrow> visible (dropWhile P s) = visible s"
  by (induction s) auto

lemma visible_collapse: "visible (collapse_ws b s) = visible s"
  by (induction b s rule: collapse_ws.induct) (auto simp: isspace_def byte_def)

lemma visible_tighten: "visible (tighten s) = visible s"
proof (induction s rule: tighten.induct)
  case (2 c cs)
  let ?r = "dropWhile isspace (c # cs)"
  show ?case
  proof (cases "?r \<noteq> [] \<and> is_css_sep (hd ?r)")
    case True
    then have "visible (tighten (c # cs)) = visible (hd ?r # tighten (dropWhile isspace (tl ?r)))" by (simp add: Let_def)
    also have "\<dots> = visible (hd ?r # tl ?r)" using 2(1) [OF refl True] by (simp add: visible_dropWhile)
    also have "hd ?r # tl ?r = ?r" using True by simp
    also have "visible ?r = visible (c # cs)" by (rule visible_dropWhile) simp
    finally show ?thesis .
  next
    case False
    then have "tighten (c # cs) = c # tighten cs" by (auto simp: Let_def)
    with 2(2) [OF refl False] show ?thesis by simp
  qed
qed simp

lemma visible_trim: "visible (trim_blanks s) = visible s"
proof -
  have b: "c = CHR '' '' \<Longrightarrow> isspace c" for c by (simp add: isspace_def byte_def)
  have "visible (rev (dropWhile (\<lambda>c. c = CHR '' '') (rev u))) = visible u" for u
    by (simp add: rev_filter [symmetric] visible_dropWhile [OF b])
  then show ?thesis by (simp add: trim_blanks_def visible_dropWhile [OF b])
qed

lemma fallback_css_spec:
  "\<not> minify \<Longrightarrow> fallback_css minify css = comment_free css"
  "visible (fallback_css minify css) = visible (comment_free css)"
  by (simp_all add: fallback_css_def comment_free_def strip_block_uncomment strip_line_cut visible_trim visible_tighten visible_collapse Let_def)

text \<open>Writing through an \<open>ofstream\<close> that may have failed to open.\<close>

definition stream_write :: "string \<Rightarrow> string \<Rightarrow> fs \<Rightarrow> fs" where
  "stream_write p content d =
     (if \<not> fs_deny_write d p \<and> fs_tree d p \<noteq> Some Dir \<and> (path_parent p = [] \<or> fs_tree d (path_parent p) = Some Dir)
      then d\<lparr>fs_tree := (fs_tree d)(p \<mapsto> File content)\<rparr> else d)"

definition basic_sourcemap :: "string \<Rightarrow> string \<Rightarrow> json" where
  "basic_sourcemap output input = json_object
     [(''version'', JInt 3), (''file'', JStr (path_filename output)), (''sources'', JArr [JStr (path_filename input)]),
      (''mappings'', JStr ''AAAA'')]"

definition write_fallback :: "asset_env \<Rightarrow> string \<Rightarrow> string \<Rightarrow> css_options \<Rightarrow> fs \<Rightarrow> unit option \<times> fs" where
  "write_fallback A input output opts d =
     (let content = (case read_file input d of Inl e \<Rightarrow> [] | Inr content \<Rightarrow> content);
          css = fallback_css (co_minify opts) content
      in if \<not> co_sourcemap opts then (Some (), stream_write output css d)
         else
           let d = stream_write output (css @ [NL] @ ''/*# sourceMappingURL='' @ path_filename output @ ''.map */'') d in
           case jl_dump (ae_lib A) (basic_sourcemap output input) of
             None \<Rightarrow> (None, stream_write (output @ ''.map'') [] d)
           | Some sm \<Rightarrow> (Some (), stream_write (output @ ''.map'') (sm @ [NL]) d))"

section \<open>Processing\<close>

definition css_output :: "string \<Rightarrow> string \<Rightarrow> css_options \<Rightarrow> string" where
  "css_output input output_dir opts =
     path_join output_dir (path_stem input @ (if co_minify opts then ''.min'' else []) @ ''.css'')"

definition lightningcss_command :: "string \<Rightarrow> string \<Rightarrow> string \<Rightarrow> css_options \<Rightarrow> string" where
  "lightningcss_command cli input output opts =
     cli @ '' '' @ input @ '' -o '' @ output @ (if co_minify opts then '' --minify'' else []) @
     (if co_sourcemap opts then '' --source-map'' else []) @
     (if co_targets opts \<noteq> [] then '' --targets '' @ in_quotes (co_targets opts) else [])"

definition process_css :: "asset_env \<Rightarrow> string \<Rightarrow> string \<Rightarrow> css_options \<Rightarrow> fs \<Rightarrow> asset_result option \<times> fs" where
  "process_css A input output_dir opts d =
     (if \<not> is_file input d then (Some (new_asset_result\<lparr>ar_error_message := ''Input file not found: '' @ input\<rparr>), d)
      else
        let result = new_asset_result\<lparr>ar_input_size := size_of input d\<rparr>; output = css_output input output_dir opts in
        and_then (ensure_dir output_dir d) (\<lambda>_ d.
          let cli = find_lightningcss (ae_sh A) d in
          and_then
            (if cli \<noteq> [] then (Some (), snd (exec_cmd (ae_sh A) (lightningcss_command cli input output opts @ '' 2>&1'') d))
             else write_fallback A input output opts d)
            (\<lambda>_ d. (Some (finish_asset (ae_blake3 A) output ''CSS processing failed'' result d), d))))"

definition js_output :: "string \<Rightarrow> string \<Rightarrow> js_options \<Rightarrow> string" where
  "js_output input output_dir opts =
     path_join output_dir (path_stem input @ (if jo_minify opts then ''.min'' else []) @
       (if jo_format opts = ''esm'' then ''.mjs'' else if jo_format opts = ''cjs'' then ''.cjs'' else ''.js''))"

definition esbuild_command :: "string \<Rightarrow> string list \<Rightarrow> string \<Rightarrow> js_options \<Rightarrow> string" where
  "esbuild_command cli inputs output opts =
     cli @ concat (map (\<lambda>i. '' '' @ i) inputs) @ '' --outfile='' @ output @ '' --format='' @ jo_format opts @
     '' --target='' @ jo_target opts @ (if jo_bundle opts then '' --bundle'' else []) @
     (if jo_minify opts then '' --minify'' else []) @ (if jo_sourcemap opts then '' --sourcemap'' else []) @
     concat (map (\<lambda>e. '' --external:'' @ e) (jo_external opts)) @
     concat (map (\<lambda>(k, v). '' --define:'' @ k @ ''='' @ v) (jo_define opts))"

text \<open>The first input that is missing, as the loop finds it.\<close>

fun missing_input :: "string list \<Rightarrow> fs \<Rightarrow> string option" where
  "missing_input [] d = None"
| "missing_input (p # ps) d = (if is_file p d then missing_input ps d else Some p)"

definition bundle_js :: "asset_env \<Rightarrow> string list \<Rightarrow> string \<Rightarrow> js_options \<Rightarrow> fs \<Rightarrow> asset_result option \<times> fs" where
  "bundle_js A inputs output_dir opts d =
     (if inputs = [] then (Some (new_asset_result\<lparr>ar_error_message := ''No input files''\<rparr>), d)
      else case missing_input inputs d of
        Some p \<Rightarrow> (Some (new_asset_result\<lparr>ar_error_message := ''Input not found: '' @ p\<rparr>), d)
      | None \<Rightarrow>
          let result = new_asset_result\<lparr>ar_input_size := sum_list (map (\<lambda>p. size_of p d) inputs)\<rparr>;
              cli = find_esbuild (ae_sh A) d; output = js_output (hd inputs) output_dir opts
          in if cli = [] then (Some (result\<lparr>ar_error_message := ''esbuild not found. Install: npm install -D esbuild''\<rparr>), d)
          else and_then (ensure_dir output_dir d) (\<lambda>_ d.
            let d = snd (exec_cmd (ae_sh A) (esbuild_command cli inputs output opts @ '' 2>&1'') d)
            in (Some (finish_asset (ae_blake3 A) output ''JS bundling failed'' result d), d)))"

definition fingerprint_path :: "string \<Rightarrow> string \<Rightarrow> string \<Rightarrow> string" where
  "fingerprint_path input output_dir hash =
     path_join output_dir (path_stem input @ ''.'' @ take 8 hash @ path_extension input)"

definition fingerprint :: "asset_env \<Rightarrow> string \<Rightarrow> string \<Rightarrow> fs \<Rightarrow> asset_result option \<times> fs" where
  "fingerprint A input output_dir d =
     (if \<not> is_file input d then (Some (new_asset_result\<lparr>ar_error_message := ''Input not found: '' @ input\<rparr>), d)
      else
        let result = new_asset_result\<lparr>ar_input_size := size_of input d\<rparr>; hash = blake3_file (ae_blake3 A) input d in
        if hash = [] then (Some (result\<lparr>ar_error_message := ''Failed to compute hash''\<rparr>), d)
        else
          let output = fingerprint_path input output_dir hash in
          and_then (ensure_dir output_dir d) (\<lambda>_ d.
          and_then (copy_overwrite input output d) (\<lambda>_ d.
          and_then (if is_file (input @ ''.map'') d
                    then and_then (copy_overwrite (input @ ''.map'') (output @ ''.map'') d) (\<lambda>_ d. (Some (output @ ''.map''), d))
                    else (Some [], d)) (\<lambda>map_path d.
            (Some (result\<lparr>ar_success := True, ar_output_path := output, ar_output_size := size_of output d,
               ar_content_hash := hash, ar_sourcemap_path := map_path\<rparr>), d)))))"

section \<open>The pipeline\<close>

record asset_pipeline_config =
  ac_input_dir :: string
  ac_output_dir :: string
  ac_css_opts :: css_options
  ac_js_opts :: js_options
  ac_fingerprint :: bool
  ac_css_patterns :: "string list"
  ac_js_patterns :: "string list"

definition maybe_fingerprint :: "asset_env \<Rightarrow> asset_pipeline_config \<Rightarrow> asset_result \<Rightarrow> fs \<Rightarrow> asset_result option \<times> fs" where
  "maybe_fingerprint A cfg result d =
     (if ac_fingerprint cfg \<and> ar_success result then fingerprint A (ar_output_path result) (ac_output_dir cfg) d
      else (Some result, d))"

definition css_entry :: "asset_env \<Rightarrow> asset_pipeline_config \<Rightarrow> string \<Rightarrow> fs \<Rightarrow> asset_result list option \<times> fs" where
  "css_entry A cfg entry d =
     (if \<not> is_file entry d \<or> path_extension entry \<noteq> ''.css'' \<and> path_extension entry \<noteq> ''.scss'' then (Some [], d)
      else and_then (process_css A entry (ac_output_dir cfg) (ac_css_opts cfg) d) (\<lambda>result d.
        and_then (maybe_fingerprint A cfg result d) (\<lambda>result d. (Some [result], d))))"

text \<open>One round for a pattern, whose text is not used.\<close>

definition css_round :: "asset_env \<Rightarrow> asset_pipeline_config \<Rightarrow> string \<Rightarrow> fs \<Rightarrow> asset_result list option \<times> fs" where
  "css_round A cfg pattern d =
     and_then (for_each (css_entry A cfg) (ae_listing A (ac_input_dir cfg) d) d) (\<lambda>rs d. (Some (concat rs), d))"

definition js_files :: "asset_env \<Rightarrow> asset_pipeline_config \<Rightarrow> fs \<Rightarrow> string list" where
  "js_files A cfg d = filter (\<lambda>p. is_file p d \<and> path_extension p \<in> {''.js'', ''.ts'', ''.mjs'', ''.mts''})
     (ae_listing A (ac_input_dir cfg) d)"

definition js_round :: "asset_env \<Rightarrow> asset_pipeline_config \<Rightarrow> string \<Rightarrow> fs \<Rightarrow> asset_result list option \<times> fs" where
  "js_round A cfg pattern d =
     (if js_files A cfg d = [] then (Some [], d)
      else and_then (bundle_js A (js_files A cfg d) (ac_output_dir cfg) (ac_js_opts cfg) d) (\<lambda>result d.
        and_then (maybe_fingerprint A cfg result d) (\<lambda>result d. (Some [result], d))))"

definition run_asset_pipeline :: "asset_env \<Rightarrow> asset_pipeline_config \<Rightarrow> fs \<Rightarrow> asset_result list option \<times> fs" where
  "run_asset_pipeline A cfg d =
     (if \<not> file_exists (ac_input_dir cfg) d then (Some [], d)
      else and_then (ensure_dir (ac_output_dir cfg) d) (\<lambda>_ d.
        and_then (for_each (css_round A cfg) (ac_css_patterns cfg) d) (\<lambda>css d.
        and_then (for_each (js_round A cfg) (ac_js_patterns cfg) d) (\<lambda>js d. (Some (concat css @ concat js), d)))))"

definition manifest_entry :: "asset_result \<Rightarrow> json" where
  "manifest_entry r = json_object
     ([(''path'', JStr (ar_output_path r)), (''size'', JInt (int (ar_output_size r))), (''hash'', JStr (ar_content_hash r))] @
      (if ar_sourcemap_path r \<noteq> [] then [(''sourcemap'', JStr (ar_sourcemap_path r))] else []))"

definition manifest :: "asset_result list \<Rightarrow> json" where
  "manifest results = json_object
     (map (\<lambda>r. (path_filename (ar_output_path r), manifest_entry r)) (filter ar_success results))"

text \<open>\<open>false\<close> when the file cannot be opened; \<open>dump\<close> throws after the file was emptied.\<close>

definition write_manifest :: "asset_env \<Rightarrow> asset_result list \<Rightarrow> string \<Rightarrow> fs \<Rightarrow> bool option \<times> fs" where
  "write_manifest A results output_path d =
     and_then (ensure_dir (path_parent output_path) d) (\<lambda>_ d.
       if fs_deny_write d output_path \<or> fs_tree d output_path = Some Dir then (Some False, d)
       else case jl_dump (ae_lib A) (manifest results) of
         None \<Rightarrow> (None, stream_write output_path [] d)
       | Some text' \<Rightarrow> (Some True, stream_write output_path (text' @ [NL]) d))"

section \<open>Lemmas\<close>

text \<open>\<open>ensure_dir\<close>: the directory is there afterwards, and what was there before is kept.\<close>

lemma ensure_dir_SomeD:
  assumes "ensure_dir p d = (Some u, d')"
  shows "last p \<noteq> CHR ''/'' \<Longrightarrow> fs_tree d' p = Some Dir" "p \<noteq> []"
    "fs_tree d q \<noteq> None \<or> length p < length q \<Longrightarrow> fs_tree d' q = fs_tree d q"
    "fs_deny_read d' = fs_deny_read d" "fs_deny_write d' = fs_deny_write d"
proof -
  obtain v where c: "create_directories p d = (Inr v, d')"
    using assms by (auto simp: ensure_dir_def split: prod.splits sum.splits)
  then show "p \<noteq> []" by (auto simp: create_directories_def split: prod.splits if_splits)
  show "last p \<noteq> CHR ''/'' \<Longrightarrow> fs_tree d' p = Some Dir" using create_directories_made [OF c] by simp
  show "fs_tree d q \<noteq> None \<or> length p < length q \<Longrightarrow> fs_tree d' q = fs_tree d q"
    "fs_deny_read d' = fs_deny_read d" "fs_deny_write d' = fs_deny_write d"
    using create_directories_frame [OF c] by blast+
qed

lemma ensure_dir_not_file:
  assumes "ensure_dir p d = (Some u, d')" "\<not> is_file q d"
  shows "\<not> is_file q d'"
proof -
  obtain v where c: "create_directories p d = (Inr v, d')"
    using assms by (auto simp: ensure_dir_def split: prod.splits sum.splits)
  show ?thesis
    using create_directories_frame(1,2) [OF c, of q] assms(2) by (cases "fs_tree d q") (auto simp: is_file_def)
qed

lemma copy_overwrite_SomeD:
  assumes "copy_overwrite frm to d = (Some u, d')"
  obtains content where "fs_tree d frm = Some (File content)" "d' = d\<lparr>fs_tree := (fs_tree d)(to \<mapsto> File content)\<rparr>"
  using assms by (auto simp: copy_overwrite_def split: option.splits fs_entry.splits if_splits)

lemma is_file_File [simp]: "fs_tree d p = Some (File content) \<Longrightarrow> is_file p d"
  by (simp add: is_file_def)

lemma file_facts:
  assumes "fs_tree d p = Some (File content)" "\<not> fs_deny_read d p"
  shows "read_file p d = Inr content" "blake3_file B p d = hash_content B content"
  using assms by (simp_all add: read_file_def blake3_file_def)

lemma size_of_File: "fs_tree d p = Some (File content) \<Longrightarrow> size_of p d = length content"
  by (simp add: size_of_def file_size_def)

lemma hash_content_empty: "hash_content B content = [] \<longleftrightarrow> B content = []"
  by (cases "B content") (simp_all add: hash_content_def bytes_to_hex_def)

text \<open>A fingerprinted file is a copy of the input under a name made of the first eight digits of its
  hash; besides it, only its source map is written.\<close>

lemma fingerprint_spec:
  assumes input: "fs_tree d input = Some (File content)" "\<not> fs_deny_read d input"
    and hash: "ae_blake3 A content \<noteq> []"
    and run: "fingerprint A input dir d = (Some r, d')"
  defines "out \<equiv> fingerprint_path input dir (hash_content (ae_blake3 A) content)"
  shows "ar_success r" "ar_output_path r = out" "ar_content_hash r = hash_content (ae_blake3 A) content"
    "ar_output_size r = length content" "fs_tree d' out = Some (File content)"
    "fs_tree d q \<noteq> None \<Longrightarrow> q \<noteq> out \<Longrightarrow> q \<noteq> out @ ''.map'' \<Longrightarrow> fs_tree d' q = fs_tree d q"
proof -
  have f: "is_file input d" "blake3_file (ae_blake3 A) input d = hash_content (ae_blake3 A) content"
    "hash_content (ae_blake3 A) content \<noteq> []"
    using input hash by (simp_all add: file_facts hash_content_empty)
  obtain u d1 v d2 m where s: "ensure_dir dir d = (Some u, d1)" "copy_overwrite input out d1 = (Some v, d2)"
    "(if is_file (input @ ''.map'') d2
      then and_then (copy_overwrite (input @ ''.map'') (out @ ''.map'') d2) (\<lambda>_ d. (Some (out @ ''.map''), d))
      else (Some [], d2)) = (Some m, d')"
    "r = new_asset_result\<lparr>ar_input_size := size_of input d, ar_success := True, ar_output_path := out,
       ar_output_size := size_of out d', ar_content_hash := hash_content (ae_blake3 A) content, ar_sourcemap_path := m\<rparr>"
    using run f by (auto simp: fingerprint_def Let_def out_def [symmetric] elim!: and_then_SomeE)
  have d1: "fs_tree d1 input = Some (File content)" "\<And>q. fs_tree d q \<noteq> None \<Longrightarrow> fs_tree d1 q = fs_tree d q"
    using ensure_dir_SomeD(3) [OF s(1)] input(1) by auto
  have d2: "d2 = d1\<lparr>fs_tree := (fs_tree d1)(out \<mapsto> File content)\<rparr>"
    using s(2) d1(1) by (auto elim: copy_overwrite_SomeD)
  have d': "fs_tree d' q = fs_tree d2 q" if "q \<noteq> out @ ''.map''" for q
    using s(3) that by (auto split: if_splits elim!: and_then_SomeE elim: copy_overwrite_SomeD)
  show out: "fs_tree d' out = Some (File content)" using d' [of out] d2 by simp
  show "fs_tree d q \<noteq> None \<Longrightarrow> q \<noteq> out \<Longrightarrow> q \<noteq> out @ ''.map'' \<Longrightarrow> fs_tree d' q = fs_tree d q"
    using d' [of q] d2 d1(2) [of q] by simp
  show "ar_success r" "ar_output_path r = out" "ar_content_hash r = hash_content (ae_blake3 A) content"
    "ar_output_size r = length content"
    using s(4) size_of_File [OF out] by simp_all
qed

text \<open>The name of an output file under a directory that is written without a slash at its end.\<close>

lemma path_join_name:
  assumes "dir \<noteq> []" "last dir \<noteq> CHR ''/''" "CHR ''/'' \<notin> set name"
  shows "path_join dir name = dir @ CHR ''/'' # name" "path_parent (dir @ CHR ''/'' # name) = dir"
proof -
  show "path_join dir name = dir @ CHR ''/'' # name"
    using assms by (cases name) (auto simp: path_join_def path_is_absolute_def)
  have "dropWhile (\<lambda>c. c \<noteq> CHR ''/'') (rev (dir @ CHR ''/'' # name)) = CHR ''/'' # rev dir"
    using assms(3) by (simp add: dropWhile_append)
  moreover have "dropWhile (\<lambda>c. c = CHR ''/'') (rev dir) = rev dir"
    using assms(1,2) by (cases dir rule: rev_cases) auto
  ultimately show "path_parent (dir @ CHR ''/'' # name) = dir" using assms(1) by (simp add: path_parent_def Let_def)
qed

lemma css_output_in:
  assumes "dir \<noteq> []" "last dir \<noteq> CHR ''/''"
  shows "path_parent (css_output input dir opts) = dir" "length dir < length (css_output input dir opts)"
proof -
  let ?name = "path_stem input @ (if co_minify opts then ''.min'' else []) @ ''.css''"
  have "CHR ''/'' \<notin> set ?name" using path_stem_slash [of input] by auto
  note n = path_join_name [OF assms this]
  show "path_parent (css_output input dir opts) = dir" "length dir < length (css_output input dir opts)"
    using n unfolding css_output_def by simp_all
qed

text \<open>Without a tool and without a source map, the output holds the comment-free, minified text.\<close>

lemma process_css_fallback:
  assumes input: "fs_tree d input = Some (File content)" "\<not> fs_deny_read d input"
    and dir: "last dir \<noteq> CHR ''/''" and no_tool: "\<forall>d. \<not> command_exists (ae_sh A) ''lightningcss'' d \<and> \<not> command_exists (ae_sh A) ''npx'' d"
      "\<not> is_file ''node_modules/.bin/lightningcss'' d"
    and opts: "\<not> co_sourcemap opts"
    and out: "fs_tree d (css_output input dir opts) \<noteq> Some Dir" "\<not> fs_deny_write d (css_output input dir opts)"
    and run: "process_css A input dir opts d = (Some r, d')"
  shows "fs_tree d' (css_output input dir opts) = Some (File (fallback_css (co_minify opts) content))"
    "ar_success r" "ar_output_path r = css_output input dir opts" "fs_deny_read d' = fs_deny_read d"
proof -
  let ?o = "css_output input dir opts"
  have tool: "find_lightningcss (ae_sh A) d1 = []" if "ensure_dir dir d = (Some u, d1)" for u d1
    using no_tool ensure_dir_not_file [OF that] by (simp add: find_lightningcss_def)
  obtain u d1 where e: "ensure_dir dir d = (Some u, d1)"
    and r: "d' = stream_write ?o (fallback_css (co_minify opts) (case read_file input d1 of Inl e \<Rightarrow> [] | Inr c \<Rightarrow> c)) d1"
      "r = finish_asset (ae_blake3 A) ?o ''CSS processing failed'' (new_asset_result\<lparr>ar_input_size := size_of input d\<rparr>) d'"
    using run input opts
    by (auto simp: process_css_def write_fallback_def Let_def tool elim!: and_then_SomeE)
  note f = ensure_dir_SomeD [OF e]
  have d1: "fs_tree d1 input = Some (File content)" using f(3) [of input] input(1) by simp
  have c: "read_file input d1 = Inr content" using d1 input(2) f(4) by (intro file_facts(1)) simp_all
  note o = css_output_in [OF f(2) dir, of input opts]
  have "fs_tree d1 ?o \<noteq> Some Dir" using f(3) [of ?o] o(2) out(1) by simp
  then have d': "d' = d1\<lparr>fs_tree := (fs_tree d1)(?o \<mapsto> File (fallback_css (co_minify opts) content))\<rparr>"
    using r(1) c out(2) f(1) [OF dir] f(5) o(1) by (simp add: stream_write_def)
  then show t: "fs_tree d' ?o = Some (File (fallback_css (co_minify opts) content))" "fs_deny_read d' = fs_deny_read d"
    using f(4) by simp_all
  show "ar_success r" "ar_output_path r = ?o" using r(2) t(1) by (simp_all add: finish_asset_def)
qed

text \<open>C30: Publishing a style sheet under its fingerprint.  A readable \<open>.css\<close> file goes through the pipeline with
  fingerprints and without a source map, on a system without lightningcss and \<open>npx\<close>, with a BLAKE3 whose hashes are not empty, where nothing is unreadable, to an output
  directory that is named without a slash at its end and an output file that can be written.  Then one
  result is reported, a success; its file holds the text of the style sheet without comments: exactly that text when
  minifying is off, and a text with the same visible bytes, in their order, when it is on.  The name of the file
  carries the first eight digits of the BLAKE3 hash of the very text in it, and the result has that hash.
  A comment goes from \<open>/*\<close> to the next \<open>*/\<close>, or from \<open>//\<close> to the end of the line, wherever these stand, so that the rest of a line
  behind the slashes of a URL is lost too.\<close>

theorem css_published:
  assumes entry: "path_extension entry = ''.css''" "fs_tree d entry = Some (File content)"
    and readable: "fs_deny_read d = (\<lambda>_. False)" and no_tool: "\<forall>d. \<not> command_exists (ae_sh A) ''lightningcss'' d \<and> \<not> command_exists (ae_sh A) ''npx'' d"
      "\<not> is_file ''node_modules/.bin/lightningcss'' d"
    and blake3: "\<forall>s. ae_blake3 A s \<noteq> []"
    and cfg: "last (ac_output_dir cfg) \<noteq> CHR ''/''" "\<not> co_sourcemap (ac_css_opts cfg)" "ac_fingerprint cfg"
    and out: "fs_tree d (css_output entry (ac_output_dir cfg) (ac_css_opts cfg)) \<noteq> Some Dir"
      "\<not> fs_deny_write d (css_output entry (ac_output_dir cfg) (ac_css_opts cfg))"
    and run: "css_entry A cfg entry d = (Some rs, d')"
  shows "\<exists>r. rs = [r] \<and> ar_success r \<and>
    ar_output_path r = fingerprint_path (css_output entry (ac_output_dir cfg) (ac_css_opts cfg)) (ac_output_dir cfg) (ar_content_hash r) \<and>
    ar_content_hash r = hash_content (ae_blake3 A) (fallback_css (co_minify (ac_css_opts cfg)) content) \<and>
    fs_tree d' (ar_output_path r) = Some (File (fallback_css (co_minify (ac_css_opts cfg)) content)) \<and>
    (if co_minify (ac_css_opts cfg)
     then visible (fallback_css (co_minify (ac_css_opts cfg)) content) = visible (comment_free content)
     else fallback_css (co_minify (ac_css_opts cfg)) content = comment_free content)"
proof -
  obtain r1 d1 r where p: "process_css A entry (ac_output_dir cfg) (ac_css_opts cfg) d = (Some r1, d1)"
    "maybe_fingerprint A cfg r1 d1 = (Some r, d')" "rs = [r]"
    using run entry by (auto simp: css_entry_def elim!: and_then_SomeE)
  note f = process_css_fallback [OF entry(2) _ cfg(1) no_tool cfg(2) out p(1)]
  have "fingerprint A (css_output entry (ac_output_dir cfg) (ac_css_opts cfg)) (ac_output_dir cfg) d1 = (Some r, d')"
    using p(2) f(2,3) cfg(3) readable by (simp add: maybe_fingerprint_def)
  from fingerprint_spec [OF f(1) _ blake3 [rule_format] this] f(4) readable p(3)
    fallback_css_spec [of "co_minify (ac_css_opts cfg)" content] show ?thesis
    by (cases "co_minify (ac_css_opts cfg)") simp_all
qed

definition demo_assets :: asset_env where
  "demo_assets = \<lparr>ae_sh = no_tools, ae_lib = unary_lib, ae_blake3 = (\<lambda>s. replicate 32 (length s)), ae_listing = (\<lambda>p d. [])\<rparr>"

definition demo_asset_config :: asset_pipeline_config where
  "demo_asset_config = \<lparr>ac_input_dir = ''s'', ac_output_dir = ''o'',
     ac_css_opts = \<lparr>co_minify = True, co_sourcemap = False, co_autoprefixer = False, co_targets = []\<rparr>,
     ac_js_opts = \<lparr>jo_minify = True, jo_sourcemap = False, jo_bundle = True, jo_format = ''esm'', jo_target = ''es2020'',
       jo_external = [], jo_define = []\<rparr>,
     ac_fingerprint = True, ac_css_patterns = [''*.css''], ac_js_patterns = [''*.js'', ''*.ts'']\<rparr>"

definition demo_sheet :: fs where
  "demo_sheet = \<lparr>fs_tree = [''s/a.css'' \<mapsto> File ''a { b : c } /* d */''], fs_deny_read = (\<lambda>_. False), fs_deny_write = (\<lambda>_. False)\<rparr>"

lemma css_published_witness:
  "\<exists>r. fst (css_entry demo_assets demo_asset_config ''s/a.css'' demo_sheet) = Some [r] \<and>
     fs_tree (snd (css_entry demo_assets demo_asset_config ''s/a.css'' demo_sheet)) (ar_output_path r) = Some (File ''a{b:c}'') \<and>
     ar_output_path r = ''o/a.min.06060606.css''"
proof -
  let ?e = "css_entry demo_assets demo_asset_config ''s/a.css'' demo_sheet"
  have "fst ?e \<noteq> None" by code_simp
  then obtain rs d' where e: "?e = (Some rs, d')" by (cases ?e) auto
  have c: "fallback_css True ''a { b : c } /* d */'' = ''a{b:c}''" by code_simp
  have o: "css_output ''s/a.css'' ''o'' (ac_css_opts demo_asset_config) = ''o/a.min.css''" by code_simp
  have h: "fingerprint_path ''o/a.min.css'' ''o'' (hash_content (ae_blake3 demo_assets) ''a{b:c}'') = ''o/a.min.06060606.css''"
    by code_simp
  have t: "\<forall>d. \<not> command_exists (ae_sh demo_assets) ''lightningcss'' d \<and> \<not> command_exists (ae_sh demo_assets) ''npx'' d"
    by (simp add: demo_assets_def no_tools_def exec_cmd_def command_exists_def)
  have "path_extension ''s/a.css'' = ''.css''" by code_simp
  from css_published [OF this _ _ t _ _ _ _ _ _ _ e] have
    "\<exists>r. rs = [r] \<and> ar_output_path r = ''o/a.min.06060606.css'' \<and> fs_tree d' (ar_output_path r) = Some (File ''a{b:c}'')"
    using c o h by (auto simp: demo_sheet_def is_file_def demo_asset_config_def demo_assets_def)
  then show ?thesis unfolding e fst_conv snd_conv by blast
qed

section \<open>Where the pipeline differs from its documentation\<close>

text \<open>The text of a pattern has no effect, only their number has: the scripts are bundled once for each of
  the two default patterns, and every style sheet, \<open>.scss\<close> included, is processed once per pattern.\<close>

lemma for_each_const: "length xs = length ys \<Longrightarrow> for_each (\<lambda>_. f) xs d = for_each (\<lambda>_. f) ys d"
  by (induction xs ys arbitrary: d rule: list_induct2) auto

lemma patterns_unused:
  assumes "length css = length (ac_css_patterns cfg)" "length js = length (ac_js_patterns cfg)"
  shows "run_asset_pipeline A (cfg\<lparr>ac_css_patterns := css, ac_js_patterns := js\<rparr>) d = run_asset_pipeline A cfg d"
proof -
  let ?c = "cfg\<lparr>ac_css_patterns := css, ac_js_patterns := js\<rparr>"
  have m: "maybe_fingerprint A ?c = maybe_fingerprint A cfg" by (intro ext) (simp add: maybe_fingerprint_def)
  have e: "css_entry A ?c = css_entry A cfg" by (intro ext) (simp add: css_entry_def m)
  have r: "css_round A ?c = (\<lambda>_. css_round A cfg [])" "js_round A ?c = (\<lambda>_. js_round A cfg [])"
    "css_round A cfg = (\<lambda>_. css_round A cfg [])" "js_round A cfg = (\<lambda>_. js_round A cfg [])"
    by (intro ext, simp add: css_round_def js_round_def js_files_def e m)+
  show ?thesis
    using for_each_const [OF assms(1), of "css_round A cfg []"] for_each_const [OF assms(2), of "js_round A cfg []"]
    unfolding run_asset_pipeline_def r(1,2) r(3)[symmetric] r(4)[symmetric]
    by (simp add: r(3)[symmetric] r(4)[symmetric])
qed

text \<open>Success means that the output exists: when the tool fails, a file of an earlier run is reported as the result.\<close>

lemma stale_output_accepted:
  assumes "is_file input d" "find_lightningcss (ae_sh A) d = cli" "cli \<noteq> []" "ensure_dir dir d = (Some (), d)"
    "\<And>cmd. snd (ae_sh A cmd d) = d" "fs_tree d (css_output input dir opts) = Some (File old)"
    "\<not> fs_deny_read d (css_output input dir opts)"
  shows "\<exists>r. process_css A input dir opts d = (Some r, d) \<and> ar_success r \<and> ar_content_hash r = hash_content (ae_blake3 A) old"
  using assms(1-5) file_facts [OF assms(6,7)] assms(6)
  by (simp add: process_css_def exec_cmd_def finish_asset_def Let_def)

text \<open>Line comments are no part of CSS: the rest of a line after the slashes of a URL is lost.\<close>

lemma url_cut:
  "fallback_css False (''a{b:url(http://c/d)}'' @ [NL] @ ''e{}'') = ''a{b:url(http:'' @ [NL] @ ''e{}''"
  "fallback_css True ''a{b:calc(1px + 2px)}'' = ''a{b:calc(1px+2px)}''"
  by code_simp+

text \<open>The keys of the manifest are the names of the outputs, not those of the originals.\<close>

lemma manifest_keys:
  assumes "r \<in> set results" "ar_success r"
  shows "\<exists>e. json_find (path_filename (ar_output_path r)) (manifest results) = Some e"
proof -
  have "json_canon (manifest_entry r)" for r
    unfolding manifest_entry_def by (rule json_object_canon) simp
  then have "json_find key (manifest results) =
      map_of (rev (map (\<lambda>r. (path_filename (ar_output_path r), manifest_entry r)) (filter ar_success results))) key" for key
    unfolding manifest_def by (intro json_object_find) (simp add: list_all_iff)
  moreover have "path_filename (ar_output_path r) \<in> (path_filename \<circ> ar_output_path) ` {r \<in> set results. ar_success r}"
    using assms by simp
  then have "map_of (rev (map (\<lambda>r. (path_filename (ar_output_path r), manifest_entry r)) (filter ar_success results)))
      (path_filename (ar_output_path r)) \<noteq> None"
    unfolding map_of_eq_None_iff by (simp add: image_image)
  ultimately show ?thesis by simp
qed

lemma manifest_original_missing:
  "json_find ''a.css'' (manifest [new_asset_result\<lparr>ar_success := True, ar_output_path := ''o/a.min.06060606.css''\<rparr>]) = None"
  by code_simp

text \<open>A manifest path without a directory throws.\<close>

lemma manifest_bare_path: "path_parent p = [] \<Longrightarrow> fst (write_manifest A results p d) = None"
  by (simp add: write_manifest_def ensure_dir_def create_directories_def dirs_of_def)

end
