(* ===== verification/Nift_Lua.thy ===== *)
theory Nift_Lua
  imports Nift_Core Nift_Double
begin

text \<open>
  The Lua bridge, \<open>crates/runtime/lua/lua_runtime.cpp\<close>.  The interpreter behind sol2 is the parameter \<open>L\<close>:
  its states, what opening libraries, reading and setting a global and running a script do.  A runtime
  owns one state through \<open>impl_\<close>, which is \<open>None\<close> after a move; a call on it is then undefined (\<open>None\<close>).
\<close>

section \<open>The interpreter\<close>

datatype lua_value = Lua_nil | Lua_boolean bool | Lua_number dbl | Lua_string string | Lua_object

record 's lua_api =
  la_new :: 's
  la_open_libraries :: "string list \<Rightarrow> 's \<Rightarrow> 's"
  la_get :: "string \<Rightarrow> 's \<Rightarrow> lua_value"
  la_set :: "string \<Rightarrow> lua_value \<Rightarrow> 's \<Rightarrow> 's"
  la_script :: "string \<Rightarrow> 's \<Rightarrow> lua_value list option \<times> 's"

definition lua_impl :: "'s lua_api \<Rightarrow> 's" where
  "lua_impl L = la_open_libraries L [''base'', ''string'', ''table'', ''math''] (la_new L)"

definition impl_enable_unsafe :: "'s lua_api \<Rightarrow> 's \<Rightarrow> 's" where
  "impl_enable_unsafe L s = la_open_libraries L [''io'', ''os'', ''package'', ''debug'', ''coroutine''] s"

type_synonym 's lua_runtime = "'s option"

definition new_lua_runtime :: "'s lua_api \<Rightarrow> 's lua_runtime" where
  "new_lua_runtime L = Some (lua_impl L)"

text \<open>The move constructor: the new runtime, and what is left of the old one.\<close>

definition move_runtime :: "'s lua_runtime \<Rightarrow> 's lua_runtime \<times> 's lua_runtime" where
  "move_runtime r = (r, None)"

section \<open>Numbers\<close>

text \<open>\<open>std::to_string(double)\<close> prints with six decimals.  The cast to \<open>long long\<close> is undefined for a double
  outside the range; on the usual machines it gives \<open>LLONG_MIN\<close>, which is no equal.\<close>

definition pad_left :: "nat \<Rightarrow> string \<Rightarrow> string" where
  "pad_left n s = replicate (n - length s) (CHR ''0'') @ s"

fun dbl_fixed :: "dbl \<Rightarrow> string" where
  "dbl_fixed Nan = ''nan''"
| "dbl_fixed (Inf s) = (if s then ''-inf'' else ''inf'')"
| "dbl_fixed (Fin s m e) =
     (let q = round_even (scale m e * 10 ^ 6) (scale 1 (- e))
      in (if s then ''-'' else []) @ show_nat (q div 10 ^ 6) @ ''.'' @ pad_left 6 (show_nat (q mod 10 ^ 6)))"

definition lua_number_str :: "dbl \<Rightarrow> string" where
  "lua_number_str d =
     (case dbl_int d of
        Some i \<Rightarrow> if - (2 ^ 63) \<le> i \<and> i < 2 ^ 63 then show_int i else dbl_fixed d
      | None \<Rightarrow> dbl_fixed d)"

fun lua_value_str :: "lua_value \<Rightarrow> string" where
  "lua_value_str (Lua_string s) = s"
| "lua_value_str (Lua_number d) = lua_number_str d"
| "lua_value_str (Lua_boolean b) = (if b then ''true'' else ''false'')"
| "lua_value_str _ = []"

section \<open>Operations\<close>

text \<open>The script that redefines \<open>print\<close>; \<open>script\<close> throws when it fails.\<close>

definition capture_script :: string where
  "capture_script = concat (map (\<lambda>line. NL # line)
     [''    __nift_capture = '' @ CHR 0x22 # CHR 0x22 # [],
      ''    local _orig_print = print'',
      ''    print = function(...)'',
      ''      local args = {...}'',
      ''      for i = 1, #args do'',
      ''        if i > 1 then __nift_capture = __nift_capture .. '' @ CHR 0x22 # CHR 0x5C # ''t'' @ CHR 0x22 # '' end'',
      ''        __nift_capture = __nift_capture .. tostring(args[i])'',
      ''      end'',
      ''      __nift_capture = __nift_capture .. '' @ CHR 0x22 # CHR 0x5C # ''n'' @ CHR 0x22 # [],
      ''    end'',
      ''  ''])"

datatype 'a lua_outcome = Lua_undefined | Lua_throws | Lua_returns 'a

definition lua_exec :: "'s lua_api \<Rightarrow> string \<Rightarrow> 's lua_runtime \<Rightarrow> string result lua_outcome \<times> 's lua_runtime" where
  "lua_exec L code r =
     (case r of
        None \<Rightarrow> (Lua_undefined, None)
      | Some s \<Rightarrow>
          (case la_script L capture_script (la_set L ''__nift_capture'' (Lua_string []) s) of
             (None, s) \<Rightarrow> (Lua_throws, Some s)
           | (Some _, s) \<Rightarrow>
               (case la_script L code s of
                  (None, s) \<Rightarrow> (Lua_returns (Inl parse_error), Some s)
                | (Some results, s) \<Rightarrow>
                    (let captured = (case la_get L ''__nift_capture'' s of Lua_string t \<Rightarrow> t | _ \<Rightarrow> [])
                     in (Lua_returns (Inr (captured @ (case results of [] \<Rightarrow> [] | ret # _ \<Rightarrow> lua_value_str ret))), Some s)))))"

definition set_global :: "'s lua_api \<Rightarrow> string \<Rightarrow> string \<Rightarrow> 's lua_runtime \<Rightarrow> 's lua_runtime" where
  "set_global L name v r = map_option (la_set L name (Lua_string v)) r"

definition get_global :: "'s lua_api \<Rightarrow> string \<Rightarrow> 's lua_runtime \<Rightarrow> string option" where
  "get_global L name r = map_option (\<lambda>s. lua_value_str (la_get L name s)) r"

definition enable_unsafe :: "'s lua_api \<Rightarrow> 's lua_runtime \<Rightarrow> 's lua_runtime" where
  "enable_unsafe L r = map_option (impl_enable_unsafe L) r"

section \<open>Lemmas\<close>

text \<open>What a global table promises.\<close>

definition lua_globals_ok :: "'s lua_api \<Rightarrow> bool" where
  "lua_globals_ok L \<longleftrightarrow> (\<forall>n v s. la_get L n (la_set L n v s) = v) \<and>
     (\<forall>n n' v s. n \<noteq> n' \<longrightarrow> la_get L n' (la_set L n v s) = la_get L n' s)"

lemma get_set_global:
  assumes "lua_globals_ok L" "r \<noteq> None"
  shows "get_global L name' (set_global L name v r) = (if name' = name then Some v else get_global L name' r)"
  using assms by (auto simp: get_global_def set_global_def lua_globals_ok_def)

text \<open>An integral number within the range prints without decimals and is read back as it was.\<close>

lemma lua_number_int:
  assumes "dbl_int d = Some i" "- (2 ^ 53) \<le> i" "i \<le> 2 ^ 53"
  shows "lua_number_str d = show_int i"
  using assms by (simp add: lua_number_str_def)

text \<open>The result of a snippet is what it printed, then its first value; a failed one gives a bare
  \<open>parse_error\<close>, without the line that the header promises and without what was printed.\<close>

lemma lua_exec_result:
  assumes "la_script L capture_script (la_set L ''__nift_capture'' (Lua_string []) s) = (Some [], s1)"
    "la_script L code s1 = (results, s2)" "la_get L ''__nift_capture'' s2 = Lua_string out"
  shows "lua_exec L code (Some s) =
    (Lua_returns (case results of None \<Rightarrow> Inl parse_error | Some [] \<Rightarrow> Inr out | Some (v # vs) \<Rightarrow> Inr (out @ lua_value_str v)), Some s2)"
  using assms by (simp add: lua_exec_def Let_def split: option.split list.split)

text \<open>After a move the old runtime is no runtime any more.\<close>

lemma moved_runtime: "fst (lua_exec L code (snd (move_runtime r))) = Lua_undefined"
  by (simp add: move_runtime_def lua_exec_def)

lemma lua_number_half: "lua_number_str (Fin True 5 (-1)) = ''-2.500000''"
proof -
  have "dbl_int (Fin True 5 (-1)) = None" by (simp add: scale_def)
  moreover have "show_nat 2 = ''2''" "show_nat 500000 = ''500000''"
    by (simp_all add: show_nat.simps [of 2] show_nat.simps [of 5] show_nat.simps [of 50] show_nat.simps [of 500]
      show_nat.simps [of 5000] show_nat.simps [of 50000] show_nat.simps [of 500000] digit_char_def char_of_def bit_0)
  ultimately show ?thesis by (simp add: lua_number_str_def scale_def round_even_def pad_left_def)
qed

end
