(* ===== verification/Nift1_Text.thy ===== *)
theory Nift1_Text
  imports Nift_Core "HOL-Library.Word"
begin

text \<open>
  Nift 1, the generation of the program that is kept under \<open>legacy\<close>: numbers, strings, quoting and titles
  (\<open>NumFns.cpp\<close>, \<open>StrFns.cpp\<close>, \<open>Quoted.cpp\<close>, \<open>Title.cpp\<close>, \<open>Filename.cpp\<close>, \<open>get_title\<close> of \<open>TrackedInfo.cpp\<close>).  A name
  that the second generation uses too has the suffix \<open>_v1\<close>.  \<open>None\<close> stands for a call that does not
  return or whose behaviour is undefined; what it is is said at the definition.
\<close>

section \<open>Numbers\<close>

function digits_loop :: "int \<Rightarrow> nat" where
  "digits_loop i = (if i \<ge> 10 then Suc (digits_loop (i div 10)) else 1)"
  by auto
termination by (relation "measure nat") auto

declare digits_loop.simps [simp del]

text \<open>The negation wraps for the smallest number.\<close>

definition intLength :: "32 word \<Rightarrow> nat" where
  "intLength i = digits_loop (sint (if sint i < 0 then - i else i))"

definition llintLength :: "64 word \<Rightarrow> nat" where
  "llintLength i = digits_loop (sint (if sint i < 0 then - i else i))"

definition isInt :: "string \<Rightarrow> bool" where
  "isInt str \<longleftrightarrow> str \<noteq> [] \<and> (hd str = CHR ''-'' \<or> isdigit (hd str)) \<and> list_all isdigit (tl str)"

definition isPosInt :: "string \<Rightarrow> bool" where
  "isPosInt str \<longleftrightarrow> str \<noteq> [] \<and> str \<noteq> ''0'' \<and> list_all isdigit str"

definition isNonNegInt :: "string \<Rightarrow> bool" where
  "isNonNegInt str \<longleftrightarrow> str \<noteq> [] \<and> list_all isdigit str"

text \<open>
  One turn of the loops of \<open>isDouble\<close> and \<open>getTypeInt\<close>, which test the same conditions.  The state is the byte
  before, whether an \<open>e\<close> and whether a point was found; \<open>None\<close> rejects the text, and the first component
  tells an \<open>e\<close> or a point.
\<close>

type_synonym number_state = "char option \<times> bool \<times> bool"

definition number_step :: "number_state \<Rightarrow> char \<Rightarrow> string \<Rightarrow> (bool \<times> number_state \<times> string) option" where
  "number_step st c cs =
     (let (prev, founde, founddp) = st in
      if c = CHR ''e'' then
        (if founde then None
         else if cs \<noteq> [] \<and> hd cs = CHR ''-'' then Some (True, (Some (CHR ''-''), True, founddp), tl cs)
         else Some (True, (Some c, True, founddp), cs))
      else if c = CHR ''-'' \<or> c = CHR ''+'' then
        (if prev \<noteq> None \<and> prev \<noteq> Some (CHR ''e'') then None else Some (False, (Some c, founde, founddp), cs))
      else if c = CHR ''.'' then
        (if founde \<or> founddp then None else Some (True, (Some c, founde, True), cs))
      else if \<not> isdigit c then None
      else Some (False, (Some c, founde, founddp), cs))"

lemma number_step_length: "number_step st c cs = Some (r, st', cs') \<Longrightarrow> length cs' \<le> length cs"
  by (auto simp: number_step_def Let_def split: prod.splits if_splits)

function double_loop :: "number_state \<Rightarrow> string \<Rightarrow> bool" where
  "double_loop st [] = True"
| "double_loop st (c # cs) =
     (case number_step st c cs of None \<Rightarrow> False | Some (real, st, cs) \<Rightarrow> double_loop st cs)"
  by pat_completeness auto
termination by (relation "measure (\<lambda>(st, s). length s)") (auto dest: number_step_length)

definition isDouble :: "string \<Rightarrow> bool" where
  "isDouble str \<longleftrightarrow> str \<noteq> [] \<and> double_loop (None, False, False) str"

text \<open>0 is an integer, 1 a double, 2 a string.\<close>

function type_loop :: "nat \<Rightarrow> number_state \<Rightarrow> string \<Rightarrow> nat" where
  "type_loop typeInt st [] = typeInt"
| "type_loop typeInt st (c # cs) =
     (case number_step st c cs of
        None \<Rightarrow> 2
      | Some (real, st, cs) \<Rightarrow> type_loop (if real \<and> typeInt = 0 then 1 else typeInt) st cs)"
  by pat_completeness auto
termination by (relation "measure (\<lambda>(t, st, s). length s)") (auto dest: number_step_length)

definition getTypeInt :: "string \<Rightarrow> nat" where
  "getTypeInt str = (if str = [] then 2 else type_loop 0 (None, False, False) str)"

text \<open>Not negative: the recursion for the seconds after the minutes is written out once.\<close>

definition seconds_str :: "int \<Rightarrow> string" where
  "seconds_str s = show_int s @ ''s''"

definition timestr_nonneg :: "int \<Rightarrow> string" where
  "timestr_nonneg s =
     (if s < 60 then seconds_str s
      else if s < 3600 then show_int (s div 60) @ ''m'' @ seconds_str (s - 60 * (s div 60))
      else if s < 86400 then
        let h = s div 3600; s = s - 3600 * h in show_int h @ ''h'' @ show_int (s div 60) @ ''m''
      else
        let d = s div 86400; s = s - 86400 * d; h = s div 3600; s = s - 3600 * h
        in show_int d @ ''d'' @ show_int h @ ''h'' @ show_int (s div 60) @ ''m'')"

text \<open>\<open>None\<close>: the negation of the smallest number overflows, and the recursion does not end.\<close>

definition int_to_timestr :: "32 word \<Rightarrow> string option" where
  "int_to_timestr s =
     (if sint s < 0 then (if s = - s then None else Some (''-'' @ timestr_nonneg (- sint s)))
      else Some (timestr_nonneg (sint s)))"

section \<open>Strings\<close>

abbreviation (input) blank_v1 :: "char \<Rightarrow> bool" where
  "blank_v1 c \<equiv> c = CHR '' '' \<or> c = CHR 0x09"

abbreviation (input) blank_ml :: "char \<Rightarrow> bool" where
  "blank_ml c \<equiv> c = CHR '' '' \<or> c = CHR 0x09 \<or> c = NL"

definition is_whitespace :: "string \<Rightarrow> bool" where
  "is_whitespace str \<longleftrightarrow> list_all (\<lambda>c. blank_v1 c) str"

definition into_whitespace :: "string \<Rightarrow> string" where
  "into_whitespace str = map (\<lambda>c. if c = CHR 0x09 then CHR 0x09 else CHR '' '') str"

definition strip_leading_line :: "string \<Rightarrow> string" where
  "strip_leading_line str = tl (dropWhile (\<lambda>c. c \<noteq> NL) str)"

definition strip_trailing_line :: "string \<Rightarrow> string" where
  "strip_trailing_line str = rev (tl (dropWhile (\<lambda>c. c \<noteq> NL) (rev str)))"

definition strip_leading_whitespace :: "string \<Rightarrow> string" where
  "strip_leading_whitespace str = dropWhile (\<lambda>c. blank_v1 c) str"

definition strip_leading_whitespace_multiline :: "string \<Rightarrow> string" where
  "strip_leading_whitespace_multiline str = dropWhile (\<lambda>c. blank_ml c) str"

definition strip_trailing_whitespace :: "string \<Rightarrow> string" where
  "strip_trailing_whitespace str = rev (dropWhile (\<lambda>c. blank_v1 c) (rev str))"

definition strip_trailing_whitespace_multiline :: "string \<Rightarrow> string" where
  "strip_trailing_whitespace_multiline str = rev (dropWhile (\<lambda>c. blank_ml c) (rev str))"

text \<open>For the empty string \<open>epos\<close> is the largest number and \<open>str[epos]\<close> is read: undefined.  Otherwise the second
  loop stops at \<open>spos\<close>, so that one byte is left.\<close>

definition strip_surrounding :: "(char \<Rightarrow> bool) \<Rightarrow> string \<Rightarrow> string option" where
  "strip_surrounding ws str =
     (if str = [] then None
      else let s = dropWhile ws str in if s = [] then Some [] else Some (hd s # rev (dropWhile ws (rev (tl s)))))"

definition strip_surrounding_whitespace :: "string \<Rightarrow> string option" where
  "strip_surrounding_whitespace str = strip_surrounding (\<lambda>c. blank_v1 c) str"

definition strip_surrounding_whitespace_multiline :: "string \<Rightarrow> string option" where
  "strip_surrounding_whitespace_multiline str = strip_surrounding (\<lambda>c. blank_ml c) str"

definition join_v1 :: "string list \<Rightarrow> string \<Rightarrow> string" where
  "join_v1 vec str = (case vec of [] \<Rightarrow> [] | v # vs \<Rightarrow> v @ concat (map (\<lambda>v. str @ v) vs))"

definition join_from :: "string list \<Rightarrow> string \<Rightarrow> nat \<Rightarrow> string" where
  "join_from vec str spos = (case drop spos vec of [] \<Rightarrow> [] | v # vs \<Rightarrow> v @ concat (map (\<lambda>v. str @ v) vs))"

text \<open>The loop from the position behind the last replacement; an empty \<open>toSearch\<close> is found again for ever.\<close>

function replace_loop_v1 :: "string \<Rightarrow> string \<Rightarrow> string \<Rightarrow> string" where
  "replace_loop_v1 toSearch replaceStr data =
     (case find_sub toSearch data of
        None \<Rightarrow> data
      | Some pos \<Rightarrow>
          if toSearch = [] then []
          else take pos data @ replaceStr @ replace_loop_v1 toSearch replaceStr (drop (pos + length toSearch) data))"
  by pat_completeness auto
termination
proof (relation "measure (\<lambda>(t, r, d). length d)")
  fix toSearch replaceStr data :: string and pos
  assume a: "find_sub toSearch data = Some pos" "toSearch \<noteq> []"
  have "length (take (length toSearch) (drop pos data)) = length toSearch"
    using find_sub_SomeD [OF a(1)] by simp
  then have "pos + length toSearch \<le> length data \<and> 0 < length toSearch"
    using find_sub_SomeD [OF a(1)] a(2) by (cases toSearch) (auto simp: min_def split: if_splits)
  then have "length data - (pos + length toSearch) < length data" by linarith
  then show "((toSearch, replaceStr, drop (pos + length toSearch) data), toSearch, replaceStr, data) \<in>
      measure (\<lambda>(t, r, d). length d)" by simp
qed simp

declare replace_loop_v1.simps [simp del]

definition findAndReplaceAll :: "string \<Rightarrow> string \<Rightarrow> string \<Rightarrow> string option" where
  "findAndReplaceAll orig toSearch replaceStr =
     (if toSearch = [] then None else Some (replace_loop_v1 toSearch replaceStr orig))"

section \<open>Quoting\<close>

abbreviation (input) SQ :: char where "SQ \<equiv> CHR 0x27"
abbreviation (input) DQ :: char where "DQ \<equiv> CHR 0x22"

definition quoted_by :: "char \<Rightarrow> string \<Rightarrow> bool" where
  "quoted_by q s \<longleftrightarrow> length s > 1 \<and> hd s = q \<and> last s = q"

definition quote_v1 :: "string \<Rightarrow> string" where
  "quote_v1 unquoted =
     (if unquoted = [] then [SQ, SQ]
      else if quoted_by DQ unquoted \<or> quoted_by SQ unquoted then unquoted
      else if SQ \<notin> set unquoted then SQ # unquoted @ [SQ]
      else if DQ \<notin> set unquoted then DQ # unquoted @ [DQ]
      else SQ # unquoted @ [SQ])"

definition double_quote :: "string \<Rightarrow> string" where
  "double_quote unquoted =
     (if unquoted = [] then [DQ, DQ] else if quoted_by DQ unquoted then unquoted else DQ # unquoted @ [DQ])"

definition unquote_v1 :: "string \<Rightarrow> string" where
  "unquote_v1 quoted = (if quoted_by DQ quoted \<or> quoted_by SQ quoted then butlast (tl quoted) else quoted)"

text \<open>\<open>is >> s\<close>: the next word and what follows it; \<open>None\<close> at the end of the stream.\<close>

definition next_word :: "string \<Rightarrow> (string \<times> string) option" where
  "next_word is =
     (let r = dropWhile isspace is
      in if r = [] then None else Some (takeWhile (\<lambda>c. \<not> isspace c) r, dropWhile (\<lambda>c. \<not> isspace c) r))"

lemma next_word_shorter: "next_word is = Some (w, rest) \<Longrightarrow> length rest < length is"
proof -
  assume n: "next_word is = Some (w, rest)"
  define r where "r = dropWhile isspace is"
  from n have r: "r \<noteq> []" "rest = dropWhile (\<lambda>c. \<not> isspace c) r"
    by (auto simp: next_word_def r_def [symmetric] Let_def split: if_splits)
  then have "\<not> isspace (hd r)" unfolding r_def by (metis hd_dropWhile)
  with r have "length rest \<le> length (tl r)"
    by (cases r) (auto intro: length_dropWhile_le)
  with r(1) have "length rest < length r" by (cases r) auto
  also have "length r \<le> length is" unfolding r_def by (rule length_dropWhile_le)
  finally show ?thesis .
qed

text \<open>
  What \<open>read_quoted\<close> does.  At the end of the stream inside a quotation the failing \<open>is >> s2\<close> leaves \<open>s2\<close> as
  it is, and the loop goes on for ever.  A word that is one quotation mark ends its own loop, and the
  second \<open>replace\<close> throws.
\<close>

datatype 'a reading = Read 'a string | Read_end | Read_throws | Read_hangs

function quoted_words :: "char \<Rightarrow> string \<Rightarrow> string \<Rightarrow> string reading" where
  "quoted_words q s is =
     (if last s = q then (if length s = 1 then Read_throws else Read (butlast (tl s)) is)
      else case next_word is of
        None \<Rightarrow> Read_hangs
      | Some (s2, is) \<Rightarrow> quoted_words q (s @ '' '' @ s2) is)"
  by pat_completeness auto
termination by (relation "measure (\<lambda>(q, s, is). length is)") (auto dest: next_word_shorter)

declare quoted_words.simps [simp del]

definition read_quoted :: "string \<Rightarrow> string reading" where
  "read_quoted is =
     (case next_word is of
        None \<Rightarrow> Read_end
      | Some (s, is) \<Rightarrow>
          if hd s = DQ then quoted_words DQ s is
          else if hd s = SQ then quoted_words SQ s is
          else Read s is)"

section \<open>Titles and extensions\<close>

definition find_last :: "char \<Rightarrow> string \<Rightarrow> nat option" where
  "find_last c s = (if c \<in> set s then Some (length s - Suc (length (takeWhile (\<lambda>x. x \<noteq> c) (rev s)))) else None)"

text \<open>A name with a backslash and without a slash: \<open>npos + 1\<close> is 0, and the name is taken as it is.\<close>

definition get_title :: "string \<Rightarrow> string" where
  "get_title name =
     (if CHR ''/'' \<notin> set name \<and> CHR 0x5C \<notin> set name then name
      else if name = ''/'' \<or> name = [CHR 0x5C] then ''index''
      else if last name = CHR ''/'' \<or> last name = CHR 0x5C then butlast name
      else case find_last (CHR ''/'') name of None \<Rightarrow> name | Some pos \<Rightarrow> drop (pos + 1) name)"

definition strippedExtension :: "string \<Rightarrow> string" where
  "strippedExtension filename = (case find_last (CHR ''.'') filename of None \<Rightarrow> filename | Some pos \<Rightarrow> take pos filename)"

section \<open>Lemmas on numbers\<close>

lemma digits_loop_show_nat: "digits_loop (int n) = length (show_nat n)"
proof (induction n rule: show_nat.induct)
  case (1 n)
  show ?case
  proof (cases "n < 10")
    case True
    then show ?thesis by (simp add: digits_loop.simps [of "int n"] show_nat.simps [of n])
  next
    case False
    with 1 show ?thesis by (simp add: digits_loop.simps [of "int n"] show_nat.simps [of n] zdiv_int [of n 10, simplified, symmetric])
  qed
qed

text \<open>The length of a number is that of its decimal digits without the sign, but 1 for the smallest.\<close>

lemma intLength_spec:
  assumes "sint i \<noteq> - (2 ^ 31)"
  shows "intLength i = length (show_nat (nat \<bar>sint i\<bar>))"
proof -
  have "sint (- i) = - sint i" if "sint i < 0"
    using that assms sint_greater_eq [of i] sint_lt [of i]
    by (simp add: sint_word_ariths signed_take_bit_int_eq_self_iff)
  then show ?thesis using digits_loop_show_nat [of "nat \<bar>sint i\<bar>"] by (auto simp: intLength_def abs_if)
qed

lemma intLength_smallest: "intLength (0x80000000 :: 32 word) = 1"
  by (simp add: intLength_def digits_loop.simps)

text \<open>The two scanners of numbers agree: a text is a double exactly when its type is not that of a string, and
  an integer by type is made of digits and signs.\<close>

lemma type_loop_double: "t < 2 \<Longrightarrow> type_loop t st s \<noteq> 2 \<longleftrightarrow> double_loop st s"
  by (induction st s arbitrary: t rule: double_loop.induct) (auto split: option.split)

lemma type_loop_pos: "t \<noteq> 0 \<Longrightarrow> type_loop t st s \<noteq> 0"
  by (induction t st s rule: type_loop.induct) (auto split: option.split)

lemma number_step_int: "number_step st c cs = Some (False, st', cs') \<Longrightarrow> cs' = cs \<and> (isdigit c \<or> c = CHR ''-'' \<or> c = CHR ''+'')"
  by (auto simp: number_step_def Let_def split: prod.splits if_splits)

lemma type_loop_int: "type_loop t st s = 0 \<Longrightarrow> c \<in> set s \<Longrightarrow> isdigit c \<or> c = CHR ''-'' \<or> c = CHR ''+''"
proof (induction t st s rule: type_loop.induct)
  case (2 t st b cs)
  then obtain real p e d cs' where n: "number_step st b cs = Some (real, (p, e, d), cs')" by (auto split: option.splits)
  show ?case
  proof (cases real)
    case True
    with 2 n show ?thesis using type_loop_pos [of "if t = 0 then 1 else t" "(p, e, d)" cs'] by (auto split: if_splits)
  next
    case False
    with n have m: "cs' = cs" "isdigit b \<or> b = CHR ''-'' \<or> b = CHR ''+''" by (auto dest: number_step_int)
    with n False "2.prems"(1) have "type_loop t (p, e, d) cs = 0" by simp
    with "2.IH" [OF n refl refl] False m "2.prems"(2) show ?thesis by auto
  qed
qed simp

lemma isDouble_getTypeInt: "isDouble s \<longleftrightarrow> getTypeInt s \<noteq> 2"
  by (simp add: isDouble_def getTypeInt_def type_loop_double)

lemma isNonNegInt_type: "isNonNegInt s \<Longrightarrow> getTypeInt s = 0"
proof -
  have "isdigit c \<Longrightarrow> c \<notin> set ''e-+.''" for c by (auto simp: isdigit_def byte_def)
  then have d: "isdigit c \<Longrightarrow> \<exists>st'. number_step st c cs = Some (False, st', cs)" for st c cs
    by (cases st) (simp add: number_step_def)
  have "list_all isdigit s \<Longrightarrow> type_loop t st s = t" for t st
  proof (induction s arbitrary: st)
    case (Cons c s)
    with d [of c st s] show ?case by auto
  qed simp
  then show "isNonNegInt s \<Longrightarrow> getTypeInt s = 0" by (simp add: isNonNegInt_def getTypeInt_def)
qed

lemma getTypeInt_chars: "getTypeInt s = 0 \<Longrightarrow> c \<in> set s \<Longrightarrow> isdigit c \<or> c = CHR ''-'' \<or> c = CHR ''+''"
  by (rule type_loop_int) (simp_all add: getTypeInt_def split: if_splits)

text \<open>Signs, points and exponents alone are taken for numbers.\<close>

lemma not_numbers: "map isDouble [''.'', ''e'', ''e-'', ''-''] = [True, True, True, True]" "isInt ''-''"
  by code_simp+

section \<open>Lemmas on strings\<close>

lemma strip_surrounding_spec:
  "str \<noteq> [] \<Longrightarrow> strip_surrounding ws str = Some (rev (dropWhile ws (rev (dropWhile ws str))))"
proof -
  assume "str \<noteq> []"
  show ?thesis
  proof (cases "dropWhile ws str")
    case Nil
    with \<open>str \<noteq> []\<close> show ?thesis by (simp only: strip_surrounding_def) simp
  next
    case (Cons c cs)
    then have "\<not> ws c" by (metis hd_dropWhile list.distinct(1) list.sel(1))
    then have "dropWhile ws (rev (c # cs)) = dropWhile ws (rev cs) @ [c]"
      by (simp add: dropWhile_append)
    with Cons \<open>str \<noteq> []\<close> show ?thesis by (simp add: strip_surrounding_def)
  qed
qed

lemma join_v1_eq: "join_v1 vec str = join vec str"
proof -
  have "v @ concat (map (\<lambda>v. str @ v) vs) = join (v # vs) str" for v vs
  proof (induction vs arbitrary: v)
    case (Cons w vs)
    from Cons [of w] show ?case by simp
  qed simp
  then show ?thesis by (cases vec) (simp_all add: join_v1_def)
qed

lemma join_from_eq: "join_from vec str spos = join (drop spos vec) str"
  using join_v1_eq [of "drop spos vec" str] by (simp add: join_from_def join_v1_def)

text \<open>Where it returns, the replacement is that of the second generation.\<close>

lemma replace_loop_v1_eq: "frm \<noteq> [] \<Longrightarrow> replace_loop_v1 frm to str = replace_loop frm to str"
proof (induction frm to str rule: replace_loop.induct)
  case (1 frm to str)
  show ?case
  proof (cases "find_sub frm str")
    case None
    then show ?thesis by (simp add: replace_loop_v1.simps [of frm to str] replace_loop.simps [of frm to str])
  next
    case (Some pos)
    moreover have "str \<noteq> []" using Some "1.prems" by (cases str) auto
    ultimately show ?thesis using 1
      by (simp add: replace_loop_v1.simps [of frm to str] replace_loop.simps [of frm to str])
  qed
qed

lemma findAndReplaceAll_eq: "findAndReplaceAll str frm to = (if frm = [] then None else Some (replace_all str frm to))"
  by (simp add: findAndReplaceAll_def replace_all_def replace_loop_v1_eq)

section \<open>Lemmas on quoting\<close>

lemma quoted_byI: "quoted_by q (q # s @ [q])"
  by (simp add: quoted_by_def)

lemma unquote_quoted: "unquote_v1 (DQ # s @ [DQ]) = s" "unquote_v1 (SQ # s @ [SQ]) = s"
  using quoted_byI [of DQ s] quoted_byI [of SQ s] by (simp_all add: unquote_v1_def)

text \<open>\<open>unquote\<close> undoes \<open>quote\<close>, except that a text that is quoted already loses its own quotation marks.\<close>

lemma unquote_quote: "unquote_v1 (quote_v1 s) = (if quoted_by DQ s \<or> quoted_by SQ s then unquote_v1 s else s)"
  using unquote_quoted(2) [of "[]"] by (auto simp: quote_v1_def unquote_quoted quoted_by_def)

definition plain_word_v1 :: "string \<Rightarrow> bool" where
  "plain_word_v1 w \<longleftrightarrow> w \<noteq> [] \<and> (\<forall>c\<in>set w. \<not> isspace c)"

lemma next_word_plain:
  assumes "plain_word_v1 w" "rest = [] \<or> isspace (hd rest)"
  shows "next_word (w @ rest) = Some (w, rest)" "next_word (CHR '' '' # w @ rest) = Some (w, rest)"
proof -
  have d: "dropWhile isspace (w @ rest) = w @ rest" using assms(1) by (cases w) (auto simp: plain_word_v1_def)
  have "takeWhile (\<lambda>c. \<not> isspace c) (w @ rest) = w" "dropWhile (\<lambda>c. \<not> isspace c) (w @ rest) = rest"
    using assms by (auto simp: plain_word_v1_def takeWhile_append dropWhile_append; cases rest; simp)+
  moreover have "isspace (CHR '' '')" by (simp add: isspace_def byte_def)
  ultimately show "next_word (w @ rest) = Some (w, rest)" "next_word (CHR '' '' # w @ rest) = Some (w, rest)"
    using d assms(1) by (auto simp: next_word_def plain_word_v1_def)
qed

lemma quoted_words_join:
  assumes "ws \<noteq> []" "\<forall>w\<in>set ws. plain_word_v1 w \<and> q \<notin> set w" "acc \<noteq> []" "q \<notin> set acc" "\<not> isspace q"
    "rest = [] \<or> isspace (hd rest)"
  shows "quoted_words q (q # acc) (CHR '' '' # join ws '' '' @ q # rest) = Read (acc @ '' '' @ join ws '' '') rest"
  using assms
proof (induction ws arbitrary: acc)
  case (Cons w ws)
  have l: "last (q # acc) \<noteq> q" using Cons.prems(3,4) by auto
  show ?case
  proof (cases "ws = []")
    case True
    have "plain_word_v1 (w @ [q])" using Cons.prems(2,5) by (auto simp: plain_word_v1_def)
    from next_word_plain(2) [OF this Cons.prems(6)]
    have n: "next_word (CHR '' '' # w @ q # rest) = Some (w @ [q], rest)" by simp
    have "quoted_words q (q # acc @ '' '' @ w @ [q]) rest = Read (acc @ '' '' @ w) rest"
      by (subst quoted_words.simps) (simp add: butlast_append)
    with True l n show ?thesis by (simp add: quoted_words.simps [of q "q # acc"])
  next
    case False
    have w: "plain_word_v1 w" "q \<notin> set w" using Cons.prems(2) by auto
    have sp: "isspace (CHR '' '')" by (simp add: isspace_def byte_def)
    have "next_word (CHR '' '' # w @ CHR '' '' # join ws '' '' @ q # rest) = Some (w, CHR '' '' # join ws '' '' @ q # rest)"
      using w(1) sp by (intro next_word_plain(2)) auto
    moreover have "join (w # ws) '' '' @ q # rest = w @ CHR '' '' # join ws '' '' @ q # rest"
      using False by (simp add: join_Cons)
    ultimately have n: "next_word (CHR '' '' # join (w # ws) '' '' @ q # rest) = Some (w, CHR '' '' # join ws '' '' @ q # rest)"
      by simp
    have "quoted_words q (q # acc @ '' '' @ w) (CHR '' '' # join ws '' '' @ q # rest) =
        Read ((acc @ '' '' @ w) @ '' '' @ join ws '' '') rest"
      using Cons.prems w sp False by (intro Cons.IH) auto
    with l n False show ?thesis by (simp add: quoted_words.simps [of q "q # acc"] join_Cons)
  qed
qed simp

lemma read_quoted_marks:
  assumes "ws \<noteq> []" "\<forall>w\<in>set ws. plain_word_v1 w \<and> q \<notin> set w" "q = SQ \<or> q = DQ" "rest = [] \<or> isspace (hd rest)"
  shows "read_quoted (q # join ws '' '' @ q # rest) = Read (join ws '' '') rest"
proof -
  have q: "\<not> isspace q" using assms(3) by (auto simp: isspace_def byte_def)
  have sp: "isspace (CHR '' '')" by (simp add: isspace_def byte_def)
  obtain w ws' where w: "ws = w # ws'" "plain_word_v1 w" "q \<notin> set w" using assms(1,2) by (cases ws) auto
  have b: "read_quoted is = quoted_words q v is'" if "next_word is = Some (v, is')" "hd v = q" for "is" v is'
    using that assms(3) by (auto simp: read_quoted_def)
  show ?thesis
  proof (cases "ws' = []")
    case True
    have "plain_word_v1 (q # w @ [q])" using w q by (auto simp: plain_word_v1_def)
    from b [OF next_word_plain(1) [OF this assms(4)]]
    have "read_quoted (q # w @ q # rest) = quoted_words q (q # w @ [q]) rest" by simp
    then show ?thesis using True w(1) by (simp add: quoted_words.simps [of q "q # w @ [q]"])
  next
    case False
    have "plain_word_v1 (q # w)" using w q by (auto simp: plain_word_v1_def)
    from b [OF next_word_plain(1) [OF this, of "CHR '' '' # join ws' '' '' @ q # rest"]] sp
    have "read_quoted (q # w @ CHR '' '' # join ws' '' '' @ q # rest) =
        quoted_words q (q # w) (CHR '' '' # join ws' '' '' @ q # rest)" by simp
    also have "\<dots> = Read (w @ '' '' @ join ws' '' '') rest"
      using assms(2,4) w q False by (intro quoted_words_join) (auto simp: plain_word_v1_def)
    finally show ?thesis using w(1) False by (simp add: join_Cons)
  qed
qed

text \<open>Words with single blanks between them, quoted and followed by white space, are read back.\<close>

lemma read_quote:
  assumes "ws \<noteq> []" "\<forall>w\<in>set ws. plain_word_v1 w" "s = join ws '' ''" "SQ \<notin> set s \<or> DQ \<notin> set s"
    "\<not> quoted_by DQ s" "\<not> quoted_by SQ s" "rest = [] \<or> isspace (hd rest)"
  shows "read_quoted (quote_v1 s @ rest) = Read s rest"
proof -
  define q where "q = (if SQ \<notin> set s then SQ else DQ)"
  have "s \<noteq> []" using assms(1-3) by (cases ws; cases "tl ws") (auto simp: plain_word_v1_def)
  then have "quote_v1 s = q # s @ [q]" using assms(4-6) by (auto simp: quote_v1_def q_def)
  moreover have "set w \<subseteq> set s" if "w \<in> set ws" for w
    unfolding assms(3) using that by (induction ws "'' ''" rule: join.induct) auto
  then have "\<forall>w\<in>set ws. plain_word_v1 w \<and> q \<notin> set w" using assms(2,4) by (auto simp: q_def split: if_splits)
  moreover have "q = SQ \<or> q = DQ" by (simp add: q_def)
  ultimately show ?thesis using read_quoted_marks [of ws q rest] assms(1,3,7) by simp
qed

text \<open>Where that fails: several blanks become one, a blank after the mark throws, and a mark that is not
  closed makes the program hang.\<close>

lemma read_quoted_values:
  "read_quoted (quote_v1 ''a  b'') = Read ''a b'' []" "read_quoted (quote_v1 '' a'') = Read_throws"
  "read_quoted (quote_v1 (''a'' @ SQ # '' b'' @ [DQ])) = Read ''a'' ('' b'' @ [DQ, SQ])"
  "read_quoted (SQ # ''a b'' @ [NL]) = Read_hangs"
  by code_simp+

end
