(* ===== verification/Nift1_Path.thy ===== *)
theory Nift1_Path
  imports Nift1_Text Nift_Listing
begin

text \<open>
  Directories and paths of Nift 1: \<open>legacy/Directory.cpp\<close> and the part of \<open>legacy/Path.cpp\<close> that is about names.
  A path is a directory text, which ends with a slash, and a file name.  The field \<open>type\<close>, which nothing
  reads, is left out, and so is what is printed.
\<close>

section \<open>Directories\<close>

definition comparable :: "string \<Rightarrow> string" where
  "comparable directory = (if take 2 directory \<noteq> ''./'' then directory else drop 2 directory)"

definition leadingDir :: "string \<Rightarrow> string" where
  "leadingDir directory = (case str_find (CHR ''/'') 0 directory of None \<Rightarrow> [] | Some pos \<Rightarrow> take (pos + 1) directory)"

definition stripLeadingDir :: "string \<Rightarrow> string" where
  "stripLeadingDir directory = (case str_find (CHR ''/'') 0 directory of None \<Rightarrow> [] | Some pos \<Rightarrow> drop (pos + 1) directory)"

function deque_loop :: "string \<Rightarrow> string list" where
  "deque_loop pwd = (if pwd = [] then [] else leadingDir pwd # deque_loop (stripLeadingDir pwd))"
  by auto
termination by (relation "measure length") (auto simp: stripLeadingDir_def split: option.split)

declare deque_loop.simps [simp del]

definition dirDeque :: "string \<Rightarrow> string list" where
  "dirDeque directory = deque_loop (comparable directory)"

fun drop_common :: "string list \<Rightarrow> string list \<Rightarrow> string list \<times> string list" where
  "drop_common (s # ss) (t # ts) = (if s = t then drop_common ss ts else (s # ss, t # ts))"
| "drop_common ss ts = (ss, ts)"

definition pathBetween :: "string \<Rightarrow> string \<Rightarrow> string" where
  "pathBetween sourceDir targetDir =
     (if sourceDir = targetDir then ''./''
      else let (ss, ts) = drop_common (dirDeque sourceDir) (dirDeque targetDir)
           in concat (map (\<lambda>_. ''../'') ss) @ concat ts)"

section \<open>Paths\<close>

record path_v1 =
  p1_dir :: string
  p1_file :: string

definition is_slash :: "char \<Rightarrow> bool" where
  "is_slash c \<longleftrightarrow> c = CHR ''/'' \<or> c = CHR 0x5C"

text \<open>A doubled slash at the end of the directory is made one.\<close>

definition new_path :: "string \<Rightarrow> string \<Rightarrow> path_v1" where
  "new_path dir file =
     \<lparr>p1_dir = (if length dir > 1 \<and> is_slash (dir ! (length dir - 2)) then butlast dir else dir), p1_file = file\<rparr>"

definition path_from :: "string \<Rightarrow> path_v1" where
  "path_from s =
     (let f = rev (takeWhile (\<lambda>c. \<not> is_slash c) (rev s))
      in if length f = length s then new_path [] s else new_path (take (length s - length f) s) f)"

definition path_str :: "path_v1 \<Rightarrow> string" where
  "path_str p = p1_dir p @ p1_file p"

definition comparableStr :: "path_v1 \<Rightarrow> string" where
  "comparableStr p = comparable (p1_dir p) @ p1_file p"

definition path_eq :: "path_v1 \<Rightarrow> path_v1 \<Rightarrow> bool" where
  "path_eq p q \<longleftrightarrow> comparableStr p = comparableStr q"

definition path_less :: "path_v1 \<Rightarrow> path_v1 \<Rightarrow> bool" where
  "path_less p q \<longleftrightarrow> comparableStr p < comparableStr q"

definition getDepsPath :: "path_v1 \<Rightarrow> path_v1" where
  "getDepsPath p = new_path (p1_dir p) (strippedExtension (p1_file p) @ ''.deps.json'')"

definition getDepsPathOld :: "path_v1 \<Rightarrow> path_v1" where
  "getDepsPathOld p = new_path (p1_dir p) (strippedExtension (p1_file p) @ ''.deps'')"

definition getInfoPath :: "path_v1 \<Rightarrow> path_v1" where
  "getInfoPath p = new_path (''.nift/'' @ p1_dir p) (strippedExtension (p1_file p) @ ''.info.json'')"

definition getHashPath :: "path_v1 \<Rightarrow> path_v1" where
  "getHashPath p = new_path (''.nift/'' @ p1_dir p) (p1_file p @ ''.hash'')"

definition getPaginationPath :: "path_v1 \<Rightarrow> path_v1" where
  "getPaginationPath p = new_path (''.nift/'' @ p1_dir p) (strippedExtension (p1_file p) @ ''.pagination.json'')"

definition getPaginationPathOld :: "path_v1 \<Rightarrow> path_v1" where
  "getPaginationPathOld p = new_path (''.nift/'' @ p1_dir p) (strippedExtension (p1_file p) @ ''.pagination'')"

text \<open>A path that is read from a stream is quoted.\<close>

definition read_file_path :: "string \<Rightarrow> path_v1 reading" where
  "read_file_path is =
     (case read_quoted is of
        Read s is \<Rightarrow> Read (path_from s) is
      | Read_end \<Rightarrow> Read_end | Read_throws \<Rightarrow> Read_throws | Read_hangs \<Rightarrow> Read_hangs)"

section \<open>Where a path leads\<close>

text \<open>The directory that a relative path leads to, with the names from the root of the project down.\<close>

fun walk_step :: "string list \<Rightarrow> string \<Rightarrow> string list" where
  "walk_step base n = (if n = ''.'' then base else if n = ''..'' then butlast base else base @ [n])"

definition walk_from :: "string list \<Rightarrow> string \<Rightarrow> string list" where
  "walk_from base p = foldl walk_step base (path_names p)"

definition dir_text :: "string list \<Rightarrow> string" where
  "dir_text ns = concat (map (\<lambda>n. n @ ''/'') ns)"

definition dir_name :: "string \<Rightarrow> bool" where
  "dir_name n \<longleftrightarrow> n \<noteq> [] \<and> CHR ''/'' \<notin> set n \<and> n \<noteq> ''.'' \<and> n \<noteq> ''..''"

lemma str_find_dir:
  "CHR ''/'' \<notin> set n \<Longrightarrow> str_find (CHR ''/'') 0 (n @ CHR ''/'' # r) = Some (length n)"
proof -
  assume "CHR ''/'' \<notin> set n"
  then have "find_idx (\<lambda>x. x = CHR ''/'') (n @ CHR ''/'' # r) = Some (length n)" by (intro find_idx_prefix) auto
  then show "str_find (CHR ''/'') 0 (n @ CHR ''/'' # r) = Some (length n)" by (simp add: str_find_def)
qed

lemma deque_dir_text: "\<forall>n\<in>set ns. dir_name n \<Longrightarrow> deque_loop (dir_text ns) = map (\<lambda>n. n @ ''/'') ns"
proof (induction ns)
  case (Cons n ns)
  have n: "CHR ''/'' \<notin> set n" using Cons.prems by (simp add: dir_name_def)
  have "dir_text (n # ns) = n @ CHR ''/'' # dir_text ns" by (simp add: dir_text_def)
  then have "leadingDir (dir_text (n # ns)) = n @ ''/''" "stripLeadingDir (dir_text (n # ns)) = dir_text ns"
    "dir_text (n # ns) \<noteq> []"
    using str_find_dir [OF n, of "dir_text ns"] by (simp_all add: leadingDir_def stripLeadingDir_def)
  with Cons show ?case by (simp add: deque_loop.simps [of "dir_text (n # ns)"])
qed (simp add: dir_text_def deque_loop.simps)

lemma comparable_dir_text: "\<forall>n\<in>set ns. dir_name n \<Longrightarrow> comparable (dir_text ns) = dir_text ns"
proof (cases ns)
  case (Cons n ms)
  moreover assume "\<forall>n\<in>set ns. dir_name n"
  ultimately have "dir_name n" by simp
  then have "take 2 (n @ ''/'' @ dir_text ms) \<noteq> ''./''"
    by (cases n; cases "tl n") (auto simp: dir_name_def)
  then show ?thesis using Cons by (simp add: comparable_def dir_text_def)
qed (simp add: comparable_def dir_text_def)

lemma drop_common_map:
  "inj f \<Longrightarrow> drop_common (map f xs) (map f ys) = (let (a, b) = drop_common xs ys in (map f a, map f b))"
  by (induction xs ys rule: drop_common.induct) (auto simp: inj_eq)

lemma drop_common_spec: "drop_common xs ys = (a, b) \<Longrightarrow> \<exists>c. xs = c @ a \<and> ys = c @ b"
proof (induction xs ys rule: drop_common.induct)
  case (1 x xs y ys)
  show ?case
  proof (cases "x = y")
    case True
    with 1 obtain c where "xs = c @ a" "ys = c @ b" by auto
    with True show ?thesis by (intro exI [of _ "x # c"]) simp
  next
    case False
    with 1 show ?thesis by (intro exI [of _ "[]"]) simp
  qed
qed auto

lemma path_names_dir_text: "\<forall>n\<in>set ns. n \<noteq> [] \<and> CHR ''/'' \<notin> set n \<Longrightarrow> path_names (dir_text ns) = ns"
  by (induction ns) (simp_all add: dir_text_def path_names_field)

lemma walk_names_up: "length a = k \<Longrightarrow> foldl walk_step (c @ a) (replicate k ''..'') = c"
proof (induction k arbitrary: a)
  case (Suc k)
  then show ?case by (cases a rule: rev_cases) (simp_all add: butlast_append)
qed simp

lemma walk_names_down: "\<forall>n\<in>set ns. dir_name n \<Longrightarrow> foldl walk_step c ns = c @ ns"
  by (induction ns arbitrary: c) (simp_all add: dir_name_def)

text \<open>The path that \<open>pathBetween\<close> gives leads from the source directory to the target directory.\<close>

lemma pathBetween_leads:
  assumes "\<forall>n\<in>set src. dir_name n" "\<forall>n\<in>set tgt. dir_name n"
  shows "walk_from src (pathBetween (dir_text src) (dir_text tgt)) = tgt"
proof (cases "dir_text src = dir_text tgt")
  case True
  have "path_names (dir_text src) = src" "path_names (dir_text tgt) = tgt"
    using assms unfolding dir_name_def by (blast intro: path_names_dir_text)+
  with True have "src = tgt" by metis
  moreover have "path_names ''./'' = [''.'']" using path_names_dir_text [of "[''.'']"] by (simp add: dir_text_def)
  ultimately show ?thesis by (simp add: pathBetween_def walk_from_def)
next
  case False
  obtain a b where d: "drop_common src tgt = (a, b)" by fastforce
  from drop_common_spec [OF d] obtain c where c: "src = c @ a" "tgt = c @ b" by blast
  have b: "\<forall>n\<in>set b. dir_name n" using assms(2) c(2) by auto
  have "inj (\<lambda>n. n @ ''/'')" by (simp add: inj_def)
  from drop_common_map [OF this, of src tgt] d
  have p: "drop_common (dirDeque (dir_text src)) (dirDeque (dir_text tgt)) = (map (\<lambda>n. n @ ''/'') a, map (\<lambda>n. n @ ''/'') b)"
    using assms by (simp add: dirDeque_def comparable_dir_text deque_dir_text)
  have up: "concat (map (\<lambda>_. ''../'') (map (\<lambda>n. n @ ''/'') a)) = dir_text (replicate (length a) ''..'')"
    by (induction a) (simp_all add: dir_text_def)
  have app: "dir_text (replicate (length a) ''..'' @ b) = dir_text (replicate (length a) ''..'') @ concat (map (\<lambda>n. n @ ''/'') b)"
    by (simp add: dir_text_def)
  have "pathBetween (dir_text src) (dir_text tgt) = dir_text (replicate (length a) ''..'' @ b)"
    using False by (simp only: pathBetween_def p Let_def prod.case up app if_False)
  moreover have "path_names (dir_text (replicate (length a) ''..'' @ b)) = replicate (length a) ''..'' @ b"
  proof (intro path_names_dir_text ballI)
    fix n assume "n \<in> set (replicate (length a) ''..'' @ b)"
    then consider "n = ''..''" | "n \<in> set b" by (auto split: if_splits)
    then show "n \<noteq> [] \<and> CHR ''/'' \<notin> set n" using b unfolding dir_name_def by cases auto
  qed
  moreover have "foldl walk_step src (replicate (length a) ''..'' @ b) = tgt"
    unfolding foldl_append c(1) walk_names_up [OF refl] walk_names_down [OF b] c(2) ..
  ultimately show ?thesis by (simp only: walk_from_def)
qed

lemma pathBetween_leads_witness:
  "walk_from [''a'', ''b''] (pathBetween ''a/b/'' ''a/c/d/'') = [''a'', ''c'', ''d''] \<and>
   pathBetween ''a/b/'' ''a/c/d/'' = ''../c/d/''"
proof -
  have "\<forall>n\<in>set [''a'', ''b'']. dir_name n" "\<forall>n\<in>set [''a'', ''c'', ''d'']. dir_name n" by (simp_all add: dir_name_def)
  from pathBetween_leads [OF this] have "walk_from [''a'', ''b''] (pathBetween ''a/b/'' ''a/c/d/'') = [''a'', ''c'', ''d'']"
    by (simp add: dir_text_def)
  moreover have "pathBetween ''a/b/'' ''a/c/d/'' = ''../c/d/''" by code_simp
  ultimately show ?thesis by simp
qed

text \<open>Directories that are the same place under two spellings give an empty path.\<close>

lemma pathBetween_spellings: "pathBetween ''./a/'' ''a/'' = []" "pathBetween ''a/./'' ''a/'' = ''../''"
  by code_simp+

section \<open>Reading a path from its text\<close>

lemma path_from_str:
  assumes "dir = [] \<or> is_slash (last dir)" "\<not> (length dir > 1 \<and> is_slash (dir ! (length dir - 2)))" "\<forall>c\<in>set file'. \<not> is_slash c"
  shows "path_from (dir @ file') = \<lparr>p1_dir = dir, p1_file = file'\<rparr>"
proof -
  have t: "takeWhile (\<lambda>c. \<not> is_slash c) (rev (dir @ file')) = rev file'"
    using assms(1,3) by (cases dir rule: rev_cases) (auto simp: takeWhile_append)
  show ?thesis
  proof (cases dir)
    case Nil
    with t have t': "takeWhile (\<lambda>c. \<not> is_slash c) (rev file') = rev file'" by (simp only: append_Nil)
    show ?thesis unfolding path_from_def Nil append_Nil t' new_path_def by simp
  next
    case (Cons a dir')
    have l: "length (rev file') \<noteq> length (dir @ file')" using Cons by simp
    have n: "new_path dir file' = \<lparr>p1_dir = dir, p1_file = file'\<rparr>" using assms(2) by (auto simp: new_path_def)
    show ?thesis using l n unfolding path_from_def t Let_def rev_rev_ident by simp
  qed
qed

text \<open>Information about a page is kept per name without its extension: two pages of one directory whose names
  differ in the extension only share their information file.\<close>

lemma info_path_shared: "getInfoPath (new_path ''o/'' ''a.css'') = getInfoPath (new_path ''o/'' ''a.js'')"
  by code_simp

end
