(* ===== verification/Nift1_Files.thy ===== *)
theory Nift1_Files
  imports Nift1_Path "HOL-Library.AList" "HOL-Library.Sublist"
begin

text \<open>
  The file system as Nift 1 uses it: \<open>legacy/FileSystem.cpp\<close> and the directory-making part of
  \<open>legacy/Path.cpp\<close>.  Nift 1 gives its paths to the operating system as texts, with \<open>./\<close> in front, doubled
  slashes and a slash at the end of a directory, so the disk here is keyed by nodes: the names on the way from the
  working directory (or from the root, written as the name \<open>/\<close>).  \<open>..\<close> and symbolic links are not resolved.  The list
  of nodes is in the order of \<open>readdir\<close>.  So the disk has no symbolic links, and what is proved of removing and copying
  holds for trees without them: \<open>delDir\<close> asks \<open>stat\<close>, which follows a link, and would go on in the directory it leads to.  The messages are left out: an operation returns whether it failed.
\<close>

section \<open>The disk and the system calls\<close>

type_synonym disk_place = "string list"

record disk =
  dk_tree :: "(disk_place \<times> fs_entry) list"
  dk_deny :: "disk_place \<Rightarrow> bool"
  dk_unreadable :: "disk_place \<Rightarrow> bool"

definition disk_node :: "string \<Rightarrow> disk_place" where
  "disk_node p = (if path_is_absolute p then [''/''] else []) @ filter (\<lambda>n. n \<noteq> ''.'') (path_names p)"

definition on_disk :: "disk \<Rightarrow> disk_place \<Rightarrow> fs_entry option" where
  "on_disk d n = (if n = [] then Some Dir else map_of (dk_tree d) n)"

definition put :: "disk_place \<Rightarrow> fs_entry \<Rightarrow> disk \<Rightarrow> disk" where
  "put n e d = d\<lparr>dk_tree := AList.update n e (dk_tree d)\<rparr>"

definition drop_node :: "disk_place \<Rightarrow> disk \<Rightarrow> disk" where
  "drop_node n d = d\<lparr>dk_tree := AList.delete n (dk_tree d)\<rparr>"

text \<open>A path that is spelled as a directory, with a slash or \<open>/.\<close> at its end, names no file.\<close>

definition spells_dir :: "string \<Rightarrow> bool" where
  "spells_dir p \<longleftrightarrow> p \<noteq> [] \<and> last p = CHR ''/'' \<or> ends_with p ''/.''"

definition stat :: "string \<Rightarrow> disk \<Rightarrow> fs_entry option" where
  "stat p d =
     (if p = [] then None
      else case on_disk d (disk_node p) of
             Some (File c) \<Rightarrow> if spells_dir p then None else Some (File c)
           | e \<Rightarrow> e)"

definition entries :: "disk_place \<Rightarrow> disk \<Rightarrow> string list" where
  "entries n d = map last (filter (\<lambda>q. q \<noteq> [] \<and> q \<noteq> [''/''] \<and> butlast q = n) (map fst (dk_tree d)))"

text \<open>\<open>rmdir\<close>, \<open>remove\<close>, \<open>mkdir\<close> and \<open>rename\<close>: whether the call succeeded and the disk after it.\<close>

definition rmdir :: "string \<Rightarrow> disk \<Rightarrow> bool \<times> disk" where
  "rmdir p d =
     (if stat p d \<noteq> Some Dir \<or> disk_node p = [] \<or> disk_node p = [''/''] \<or> ends_with p ''/.'' \<or> dk_deny d (disk_node p) \<or>
         entries (disk_node p) d \<noteq> [] then (False, d)
      else (True, drop_node (disk_node p) d))"

definition remove_v1 :: "string \<Rightarrow> disk \<Rightarrow> bool \<times> disk" where
  "remove_v1 p d =
     (case stat p d of
        None \<Rightarrow> (False, d)
      | Some (File c) \<Rightarrow> if dk_deny d (disk_node p) then (False, d) else (True, drop_node (disk_node p) d)
      | Some Dir \<Rightarrow> rmdir p d)"

definition mkdir :: "string \<Rightarrow> disk \<Rightarrow> disk" where
  "mkdir p d =
     (if p = [] \<or> on_disk d (disk_node p) \<noteq> None \<or> on_disk d (butlast (disk_node p)) \<noteq> Some Dir \<or> dk_deny d (disk_node p) then d
      else put (disk_node p) Dir d)"

text \<open>Opening a file for writing, which makes it or empties it; and what is then written to it.\<close>

definition open_write :: "string \<Rightarrow> disk \<Rightarrow> bool \<times> disk" where
  "open_write p d =
     (if p = [] \<or> spells_dir p \<or> on_disk d (disk_node p) = Some Dir \<or> on_disk d (butlast (disk_node p)) \<noteq> Some Dir \<or>
         dk_deny d (disk_node p) then (False, d)
      else (True, put (disk_node p) (File []) d))"

definition write_to :: "string \<Rightarrow> string \<Rightarrow> disk \<Rightarrow> disk" where
  "write_to p c d = (case open_write p d of (True, d) \<Rightarrow> put (disk_node p) (File c) d | (False, d) \<Rightarrow> d)"

text \<open>A renamed directory takes what is below it along.\<close>

definition move_node :: "disk_place \<Rightarrow> disk_place \<Rightarrow> disk_place \<Rightarrow> disk_place" where
  "move_node m n q = (if take (length m) q = m then n @ drop (length m) q else q)"

definition rename_v1 :: "string \<Rightarrow> string \<Rightarrow> disk \<Rightarrow> bool \<times> disk" where
  "rename_v1 a b d =
     (if stat a d = None \<or> b = [] \<or> stat b d = Some Dir \<or> spells_dir b \<and> stat a d \<noteq> Some Dir \<or> on_disk d (butlast (disk_node b)) \<noteq> Some Dir \<or>
         dk_deny d (disk_node a) \<or> dk_deny d (disk_node b) then (False, d)
      else if disk_node a = disk_node b then (True, d)
      else case stat a d of
             Some (File c) \<Rightarrow> (True, put (disk_node b) (File c) (drop_node (disk_node a) d))
           | _ \<Rightarrow> if disk_node a = [] \<or> disk_node a = [''/''] \<or> stat b d \<noteq> None \<or> take (length (disk_node a)) (disk_node b) = disk_node a
                  then (False, d)
                  else (True, d\<lparr>dk_tree := map (\<lambda>(q, e). (move_node (disk_node a) (disk_node b) q, e)) (dk_tree d)\<rparr>))"

section \<open>What exists\<close>

definition path_exists_v1 :: "string \<Rightarrow> disk \<Rightarrow> bool" where
  "path_exists_v1 path d \<longleftrightarrow> stat path d \<noteq> None"

definition dir_exists_v1 :: "string \<Rightarrow> disk \<Rightarrow> bool" where
  "dir_exists_v1 path d \<longleftrightarrow> stat path d = Some Dir"

definition file_exists_v1 :: "string \<Rightarrow> disk \<Rightarrow> bool" where
  "file_exists_v1 path d \<longleftrightarrow> (case stat path d of Some (File c) \<Rightarrow> True | _ \<Rightarrow> False)"

text \<open>What cannot be read is empty.\<close>

definition file_text :: "string \<Rightarrow> disk \<Rightarrow> string" where
  "file_text path d = (case stat path d of Some (File c) \<Rightarrow> if dk_unreadable d (disk_node path) then [] else c | _ \<Rightarrow> [])"

text \<open>A text is read up to its first NUL byte.\<close>

definition string_from_file :: "string \<Rightarrow> disk \<Rightarrow> string" where
  "string_from_file path d =
     takeWhile (\<lambda>c. c \<noteq> NUL) (file_text path d)"

definition lsVec :: "string \<Rightarrow> disk \<Rightarrow> string list" where
  "lsVec path d = (if stat path d \<noteq> Some Dir \<or> dk_unreadable d (disk_node path) then [] else entries (disk_node path) d)"

section \<open>Making and removing\<close>

fun mkdirs :: "string \<Rightarrow> string list \<Rightarrow> disk \<Rightarrow> disk" where
  "mkdirs cDir [] d = d"
| "mkdirs cDir (x # dDeque) d = mkdirs (cDir @ x) dDeque (mkdir (cDir @ x) d)"

definition ensureDirExists :: "path_v1 \<Rightarrow> disk \<Rightarrow> disk" where
  "ensureDirExists p d = mkdirs [] (dirDeque (p1_dir p)) d"

definition ensureFileExists :: "path_v1 \<Rightarrow> disk \<Rightarrow> disk" where
  "ensureFileExists p d =
     (let d = ensureDirExists p d in if p1_file p \<noteq> [] then snd (open_write (path_str p) d) else d)"

definition remove_file_v1 :: "path_v1 \<Rightarrow> disk \<Rightarrow> bool \<times> disk" where
  "remove_file_v1 p d =
     (if p1_file p \<noteq> [] \<and> path_exists_v1 (path_str p) d
      then let (ok, d) = remove_v1 (path_str p) d in (\<not> ok, d)
      else (False, d))"

text \<open>The directories that have become empty go too, from the innermost out.\<close>

function prune_dirs :: "string \<Rightarrow> disk \<Rightarrow> disk" where
  "prune_dirs delDir d =
     (if delDir = [] \<or> delDir \<in> set [''/'', ''C:'', ''C:'' @ [CHR 0x5C], ''C:/'', ''./''] then d
      else case rmdir delDir d of
             (False, d) \<Rightarrow> d
           | (True, d) \<Rightarrow>
               (case find_idx is_slash (rev delDir) of
                  None \<Rightarrow> d
                | Some i \<Rightarrow> prune_dirs (take (length delDir - Suc i) delDir) d))"
  by auto
termination by (relation "measure (\<lambda>(p, d). length p)") (auto dest: find_idx_less)

declare prune_dirs.simps [simp del]

definition without_slash :: "string \<Rightarrow> string" where
  "without_slash dir = (if dir \<noteq> [] \<and> is_slash (last dir) then butlast dir else dir)"

definition remove_path_v1 :: "path_v1 \<Rightarrow> disk \<Rightarrow> bool \<times> disk" where
  "remove_path_v1 p d =
     (case remove_file_v1 p d of
        (True, d) \<Rightarrow> (True, d)
      | (False, d) \<Rightarrow> (False, prune_dirs (without_slash (p1_dir p)) d))"

definition with_slash :: "string \<Rightarrow> string" where
  "with_slash dir = (if dir = [] then ''./'' else if is_slash (last dir) then dir else dir @ ''/'')"

text \<open>A step that fails ends the loop.\<close>

fun until_failure :: "('x \<Rightarrow> 's \<Rightarrow> bool \<times> 's) \<Rightarrow> 'x list \<Rightarrow> 's \<Rightarrow> bool \<times> 's" where
  "until_failure f [] s = (False, s)"
| "until_failure f (x # xs) s = (case f x s of (True, s) \<Rightarrow> (True, s) | (False, s) \<Rightarrow> until_failure f xs s)"

text \<open>\<open>delDir\<close> goes down by recursion; the number bounds the depth.\<close>

primrec delDir_n :: "nat \<Rightarrow> string \<Rightarrow> disk \<Rightarrow> bool \<times> disk" where
  "delDir_n 0 dir d = (True, d)"
| "delDir_n (Suc n) dir d =
     (if \<not> dir_exists_v1 dir d then (False, d)
      else case until_failure (\<lambda>f d. if stat (with_slash dir @ f) d = Some Dir then delDir_n n (with_slash dir @ f) d
                                      else (False, snd (remove_file_v1 \<lparr>p1_dir = with_slash dir, p1_file = f\<rparr> d)))
                  (lsVec dir d) d of
             (True, d) \<Rightarrow> (True, d)
           | (False, d) \<Rightarrow> (case rmdir dir d of (ok, d) \<Rightarrow> (\<not> ok, d)))"

definition depth :: "disk \<Rightarrow> nat" where
  "depth d = Suc (fold max (map (length \<circ> fst) (dk_tree d)) 0)"

definition delDir :: "string \<Rightarrow> disk \<Rightarrow> bool \<times> disk" where
  "delDir dir d = delDir_n (depth d) dir d"

section \<open>Copying\<close>

text \<open>The target is opened, and so emptied, before the source is read.\<close>

definition cpFile :: "string \<Rightarrow> string \<Rightarrow> disk \<Rightarrow> bool \<times> disk" where
  "cpFile sourceFile targetFile d =
     (if \<not> file_exists_v1 sourceFile d \<or> targetFile = ''/'' \<or> targetFile = ''C:'' @ [CHR 0x5C] then (True, d)
      else let d = ensureDirExists (path_from targetFile) d;
               (opened, d) = open_write targetFile d
           in if dk_unreadable d (disk_node sourceFile) \<or> \<not> opened then (True, d)
              else case stat sourceFile d of
                     Some (File c) \<Rightarrow> (False, put (disk_node targetFile) (File c) d)
                   | _ \<Rightarrow> (True, d))"

primrec cpDir_n :: "nat \<Rightarrow> string \<Rightarrow> string \<Rightarrow> disk \<Rightarrow> bool \<times> disk" where
  "cpDir_n 0 sourceDir targetDir d = (True, d)"
| "cpDir_n (Suc n) sourceDir targetDir d =
     (if \<not> dir_exists_v1 sourceDir d then (False, d)
      else if targetDir = [] \<or> targetDir = ''/'' \<or> targetDir = ''C:'' @ [CHR 0x5C] then (True, d)
      else let files = lsVec sourceDir d
           in case (if dir_exists_v1 targetDir d then delDir targetDir d
                    else if file_exists_v1 targetDir d
                         then remove_file_v1 \<lparr>p1_dir = with_slash targetDir, p1_file = []\<rparr> d
                    else (False, d)) of
                (True, d) \<Rightarrow> (True, d)
              | (False, d) \<Rightarrow>
                  until_failure (\<lambda>f d. if stat (with_slash sourceDir @ f) d = Some Dir
                                        then cpDir_n n (with_slash sourceDir @ f) (with_slash targetDir @ f) d
                                        else cpFile (with_slash sourceDir @ f) (with_slash targetDir @ f) d)
                    files (ensureDirExists \<lparr>p1_dir = with_slash targetDir, p1_file = []\<rparr> d))"

definition cpDir :: "string \<Rightarrow> string \<Rightarrow> disk \<Rightarrow> bool \<times> disk" where
  "cpDir sourceDir targetDir d = cpDir_n (depth d) sourceDir targetDir d"

section \<open>The disk is a tree\<close>

text \<open>Names of entries; a backslash at the end would be taken for a separator.\<close>

definition entry_name :: "string \<Rightarrow> bool" where
  "entry_name n \<longleftrightarrow> n \<noteq> [] \<and> CHR ''/'' \<notin> set n \<and> n \<noteq> ''.'' \<and> last n \<noteq> CHR 0x5C"

definition node_ok :: "disk_place \<Rightarrow> bool" where
  "node_ok q \<longleftrightarrow> q = [''/''] \<or> q \<noteq> [] \<and> entry_name (last q)"

definition wf_disk :: "disk \<Rightarrow> bool" where
  "wf_disk d \<longleftrightarrow> distinct (map fst (dk_tree d)) \<and>
     (\<forall>q\<in>set (map fst (dk_tree d)). node_ok q \<and> on_disk d (butlast q) = Some Dir)"

lemma on_disk_put [simp]: "n \<noteq> [] \<Longrightarrow> on_disk (put n e d) q = (if q = n then Some e else on_disk d q)"
  by (simp add: on_disk_def put_def update_conv')

lemma on_disk_drop [simp]: "n \<noteq> [] \<Longrightarrow> on_disk (drop_node n d) q = (if q = n then None else on_disk d q)"
  by (simp add: on_disk_def drop_node_def delete_conv')

lemma on_disk_Nil [simp]: "on_disk d [] = Some Dir"
  by (simp add: on_disk_def)

lemma wf_disk_iff:
  "wf_disk d \<longleftrightarrow> distinct (map fst (dk_tree d)) \<and> [] \<notin> fst ` set (dk_tree d) \<and>
     (\<forall>q. q \<noteq> [] \<longrightarrow> on_disk d q \<noteq> None \<longrightarrow> node_ok q \<and> on_disk d (butlast q) = Some Dir)" (is "_ = ?r")
proof
  assume "wf_disk d"
  then show ?r unfolding wf_disk_def using map_of_eq_None_iff [of "dk_tree d"]
    by (metis list.set_map node_ok_def on_disk_def not_Cons_self2)
next
  assume r: ?r
  have "node_ok q \<and> on_disk d (butlast q) = Some Dir" if "q \<in> set (map fst (dk_tree d))" for q
  proof -
    have "q \<noteq> []" using that r unfolding set_map by blast
    moreover from this have "on_disk d q \<noteq> None" using that by (simp add: on_disk_def map_of_eq_None_iff)
    ultimately show ?thesis using r by blast
  qed
  then show "wf_disk d" using r unfolding wf_disk_def by blast
qed

lemma key_on_disk: "wf_disk d \<Longrightarrow> q \<in> set (map fst (dk_tree d)) \<longleftrightarrow> q \<noteq> [] \<and> on_disk d q \<noteq> None"
proof -
  assume wf: "wf_disk d"
  have "q \<in> set (map fst (dk_tree d)) \<longleftrightarrow> map_of (dk_tree d) q \<noteq> None" unfolding set_map by (simp only: map_of_eq_None_iff not_not)
  moreover have "[] \<notin> set (map fst (dk_tree d))" using wf unfolding wf_disk_iff set_map by blast
  ultimately show ?thesis by (cases "q = []") (simp_all only: on_disk_def if_False not_True_eq_False simp_thms)
qed

lemma entries_iff: "wf_disk d \<Longrightarrow> f \<in> set (entries n d) \<longleftrightarrow> n @ [f] \<noteq> [''/''] \<and> on_disk d (n @ [f]) \<noteq> None"
proof
  assume wf: "wf_disk d" and "f \<in> set (entries n d)"
  then obtain q where "q \<in> set (map fst (dk_tree d))" "q \<noteq> []" "q \<noteq> [''/'']" "butlast q = n" "last q = f"
    unfolding entries_def by auto
  with key_on_disk [OF wf, of q] show "n @ [f] \<noteq> [''/''] \<and> on_disk d (n @ [f]) \<noteq> None" using append_butlast_last_id by metis
next
  assume wf: "wf_disk d" and f: "n @ [f] \<noteq> [''/''] \<and> on_disk d (n @ [f]) \<noteq> None"
  with key_on_disk [OF wf, of "n @ [f]"] have "n @ [f] \<in> set (map fst (dk_tree d))" by simp
  with f show "f \<in> set (entries n d)" unfolding entries_def by (auto intro!: image_eqI [of f last "n @ [f]"])
qed

lemma wf_parent: "wf_disk d \<Longrightarrow> on_disk d q \<noteq> None \<Longrightarrow> on_disk d (butlast q) = Some Dir"
  by (cases "q = []") (simp_all add: wf_disk_iff)

lemma wf_name: "wf_disk d \<Longrightarrow> on_disk d (n @ [f]) \<noteq> None \<Longrightarrow> n @ [f] = [''/''] \<or> entry_name f"
  by (metis wf_disk_iff node_ok_def last_snoc snoc_eq_iff_butlast)

lemma wf_above: "wf_disk d \<Longrightarrow> on_disk d (n @ m) \<noteq> None \<Longrightarrow> m \<noteq> [] \<Longrightarrow> on_disk d n = Some Dir"
proof (induction m rule: rev_induct)
  case (snoc x m)
  have "on_disk d (n @ m) = Some Dir" using wf_parent [OF snoc.prems(1,2)] by (simp add: butlast_append)
  with snoc show ?case by (cases "m = []") auto
qed simp

lemma not_butlast: "q \<noteq> [] \<Longrightarrow> butlast q \<noteq> q"
  by (cases q rule: rev_cases) auto

lemma wf_put:
  assumes "wf_disk d" "node_ok n" "on_disk d (butlast n) = Some Dir" "e = Dir \<or> (\<forall>f. on_disk d (n @ [f]) = None)"
  shows "wf_disk (put n e d)"
proof -
  have n: "n \<noteq> []" using assms(2) by (auto simp: node_ok_def)
  have "node_ok q \<and> on_disk (put n e d) (butlast q) = Some Dir"
    if q: "q \<noteq> []" "on_disk (put n e d) q \<noteq> None" for q
  proof (cases "q = n")
    case True
    with assms n not_butlast [OF n] show ?thesis by simp
  next
    case False
    with q n have o: "on_disk d q \<noteq> None" by simp
    with assms(1) q have "node_ok q" "on_disk d (butlast q) = Some Dir" by (simp_all add: wf_disk_iff)
    moreover have "e = Dir" if "butlast q = n"
      using that o assms(4) append_butlast_last_id [OF q(1)] by metis
    ultimately show ?thesis using n by simp
  qed
  moreover have "distinct (map fst (dk_tree (put n e d)))" "[] \<notin> fst ` set (dk_tree (put n e d))"
    using assms(1) n by (simp_all add: put_def wf_disk_iff distinct_update dom_update)
  ultimately show ?thesis unfolding wf_disk_iff by blast
qed

lemma dk_tree_drop: "dk_tree (drop_node n d) = AList.delete n (dk_tree d)"
  by (simp add: drop_node_def)

lemma wf_drop:
  assumes "wf_disk d" "n \<noteq> []" "\<forall>f. on_disk d (n @ [f]) = None"
  shows "wf_disk (drop_node n d)"
proof -
  have "node_ok q \<and> on_disk (drop_node n d) (butlast q) = Some Dir"
    if q: "q \<noteq> []" "on_disk (drop_node n d) q \<noteq> None" for q
  proof -
    have o: "on_disk d q \<noteq> None" using q assms(2) by (simp split: if_splits)
    with assms(1) q have "node_ok q" "on_disk d (butlast q) = Some Dir" by (simp_all add: wf_disk_iff)
    moreover have "butlast q \<noteq> n" using o assms(3) append_butlast_last_id [OF q(1)] by metis
    ultimately show ?thesis using assms(2) by simp
  qed
  moreover have "distinct (map fst (dk_tree (drop_node n d)))"
    using assms(1) by (simp add: drop_node_def wf_disk_iff distinct_delete)
  moreover have "[] \<notin> fst ` set (dk_tree (drop_node n d))"
    using assms(1) dom_delete_subset [of n "dk_tree d"] unfolding dk_tree_drop wf_disk_iff by blast
  ultimately show ?thesis unfolding wf_disk_iff by blast
qed

lemma no_entries: "wf_disk d \<Longrightarrow> entries n d = [] \<Longrightarrow> n \<noteq> [] \<Longrightarrow> on_disk d (n @ [f]) = None"
  using entries_iff [of d f n] by simp

lemma access_put [simp]: "dk_deny (put n e d) = dk_deny d" "dk_unreadable (put n e d) = dk_unreadable d"
  by (simp_all add: put_def)

lemma access_drop [simp]: "dk_deny (drop_node n d) = dk_deny d" "dk_unreadable (drop_node n d) = dk_unreadable d"
  by (simp_all add: drop_node_def)

lemma stat_Dir: "stat p d = Some Dir \<longleftrightarrow> p \<noteq> [] \<and> on_disk d (disk_node p) = Some Dir"
  by (auto simp: stat_def split: option.split fs_entry.split)

lemma stat_File: "stat p d = Some (File c) \<longleftrightarrow> p \<noteq> [] \<and> \<not> spells_dir p \<and> on_disk d (disk_node p) = Some (File c)"
  by (auto simp: stat_def split: option.split fs_entry.split)

lemma with_slash_ne: "with_slash dir \<noteq> []"
  by (simp add: with_slash_def)

lemma last_entry_name: "entry_name f \<Longrightarrow> p @ f \<noteq> [] \<and> last (p @ f) \<noteq> CHR 0x5C"
  by (simp add: entry_name_def)

lemma node_child:
  assumes "entry_name f" "dir \<noteq> []" "last dir \<noteq> CHR 0x5C"
  shows "disk_node (with_slash dir @ f) = disk_node dir @ [f]"
proof -
  have f: "path_names f = [f]" "f \<noteq> ''.''" using assms(1) by (simp_all add: entry_name_def path_names_word)
  have a: "path_is_absolute (with_slash dir @ f) = path_is_absolute dir"
    using assms(2) by (simp add: path_is_absolute_def with_slash_def)
  have "path_names (with_slash dir @ f) = path_names dir @ [f]"
  proof (cases "last dir = CHR ''/''")
    case True
    then obtain p where p: "dir = p @ ''/''" using assms(2) append_butlast_last_id by metis
    then have "with_slash dir @ f = p @ CHR ''/'' # f" by (simp add: with_slash_def is_slash_def)
    then have "path_names (with_slash dir @ f) = path_names p @ [f]" by (simp only: path_names_append f)
    moreover have "path_names dir = path_names p" unfolding p by (simp only: path_names_append path_names_Nil append_Nil2)
    ultimately show ?thesis by simp
  next
    case False
    then have "with_slash dir @ f = dir @ CHR ''/'' # f" using assms by (simp add: with_slash_def is_slash_def)
    then show ?thesis by (simp only: path_names_append f)
  qed
  then show ?thesis using f a by (simp add: disk_node_def)
qed

section \<open>What removing keeps\<close>

text \<open>Nothing has changed but that some of the nodes of \<open>N\<close> are gone.\<close>

definition trimmed :: "(disk_place \<Rightarrow> bool) \<Rightarrow> disk \<Rightarrow> disk \<Rightarrow> bool" where
  "trimmed N d d' \<longleftrightarrow> wf_disk d' \<and> dk_deny d' = dk_deny d \<and> dk_unreadable d' = dk_unreadable d \<and>
     (\<forall>q. on_disk d' q = on_disk d q \<or> on_disk d' q = None \<and> N q)"

lemma trimmed_refl: "wf_disk d \<Longrightarrow> trimmed N d d"
  by (simp add: trimmed_def)

lemma trimmed_trans: "trimmed N d e \<Longrightarrow> trimmed N e f \<Longrightarrow> trimmed N d f"
  unfolding trimmed_def by metis

lemma trimmed_mono: "trimmed M d e \<Longrightarrow> (\<And>q. M q \<Longrightarrow> N q) \<Longrightarrow> trimmed N d e"
  unfolding trimmed_def by metis

lemma trimmed_dirs: "trimmed N d e \<Longrightarrow> trimmed (\<lambda>q. on_disk e q = Some Dir) e f \<Longrightarrow> (\<And>q. on_disk d q = Some Dir \<Longrightarrow> N q) \<Longrightarrow> trimmed N d f"
  unfolding trimmed_def by metis

lemma trimmed_wf: "trimmed N d e \<Longrightarrow> wf_disk e"
  by (simp add: trimmed_def)

lemma trimmed_other: "trimmed N d e \<Longrightarrow> \<not> N q \<Longrightarrow> on_disk e q = on_disk d q"
  unfolding trimmed_def by metis

lemma trimmed_entry: "trimmed N d e \<Longrightarrow> on_disk e q = Some x \<Longrightarrow> on_disk d q = Some x"
  unfolding trimmed_def by (metis option.distinct(1))

lemma rmdir_result:
  assumes "wf_disk d" "rmdir p d = (ok, d')"
  shows "trimmed (\<lambda>q. q = disk_node p \<and> on_disk d q = Some Dir) d d' \<and> (ok \<longrightarrow> on_disk d' (disk_node p) = None) \<and> (\<not> ok \<longrightarrow> d' = d)"
proof (cases ok)
  case True
  with assms(2) have p: "stat p d = Some Dir" "disk_node p \<noteq> []" "entries (disk_node p) d = []" "d' = drop_node (disk_node p) d"
    by (auto simp: rmdir_def split: if_splits)
  then have "wf_disk d'" using assms(1) by (simp add: wf_drop no_entries)
  with p True show ?thesis by (simp add: trimmed_def stat_Dir)
next
  case False
  with assms show ?thesis by (auto simp: rmdir_def trimmed_refl split: if_splits)
qed

lemma remove_v1_result:
  assumes "wf_disk d" "remove_v1 p d = (ok, d')"
  shows "trimmed (\<lambda>q. q = disk_node p) d d' \<and> (ok \<longrightarrow> on_disk d' (disk_node p) = None)"
proof (cases "stat p d")
  case None
  with assms show ?thesis by (simp add: remove_v1_def trimmed_refl)
next
  case (Some e)
  show ?thesis
  proof (cases e)
    case (File c)
    with Some have f: "on_disk d (disk_node p) = Some (File c)" by (simp add: stat_File)
    then have n: "disk_node p \<noteq> []" by auto
    have "on_disk d (disk_node p @ [g]) = None" for g
      using wf_parent [OF assms(1), of "disk_node p @ [g]"] f by (metis butlast_snoc fs_entry.distinct(1) option.inject)
    then have "wf_disk (drop_node (disk_node p) d)" using wf_drop assms(1) n by blast
    then show ?thesis using assms Some File n by (auto simp: remove_v1_def trimmed_refl trimmed_def split: if_splits)
  next
    case Dir
    then have "rmdir p d = (ok, d')" using Some assms(2) by (simp add: remove_v1_def)
    note r = rmdir_result [OF assms(1) this]
    then have "trimmed (\<lambda>q. q = disk_node p) d d'" by (intro trimmed_mono [OF conjunct1 [OF r]]) simp
    with r show ?thesis by simp
  qed
qed

lemma remove_file_result:
  assumes "wf_disk d" "remove_file_v1 p d = (failed, d')"
  shows "trimmed (\<lambda>q. q = disk_node (path_str p)) d d'"
proof (cases "p1_file p \<noteq> [] \<and> path_exists_v1 (path_str p) d")
  case True
  obtain ok e where "remove_v1 (path_str p) d = (ok, e)" by fastforce
  with True assms remove_v1_result [OF assms(1) this] show ?thesis by (simp add: remove_file_v1_def)
next
  case False
  with assms show ?thesis by (auto simp: remove_file_v1_def trimmed_refl)
qed

lemma prune_dirs_result: "wf_disk d \<Longrightarrow> trimmed (\<lambda>q. on_disk d q = Some Dir) d (prune_dirs dir d)"
proof (induction dir d rule: prune_dirs.induct)
  case (1 dir d)
  obtain ok e where r: "rmdir dir d = (ok, e)" by fastforce
  have t: "trimmed (\<lambda>q. on_disk d q = Some Dir) d e"
    by (rule trimmed_mono [OF conjunct1 [OF rmdir_result [OF 1(2) r]]]) simp
  show ?case
  proof (cases "dir = [] \<or> dir \<in> set [''/'', ''C:'', ''C:'' @ [CHR 0x5C], ''C:/'', ''./''] \<or> \<not> ok \<or>
      find_idx is_slash (rev dir) = None")
    case True
    then have "prune_dirs dir d \<in> {d, e}"
      using r by (subst prune_dirs.simps) (auto split: bool.splits option.splits)
    then show ?thesis using t trimmed_refl [OF 1(2)] by auto
  next
    case False
    then obtain i where i: "find_idx is_slash (rev dir) = Some i" by blast
    have eq: "prune_dirs dir d = prune_dirs (take (length dir - Suc i) dir) e"
      using False r i by (subst prune_dirs.simps) simp
    have "trimmed (\<lambda>q. on_disk e q = Some Dir) e (prune_dirs dir d)"
      unfolding eq using False r i trimmed_wf [OF t] by (intro "1.IH" [OF _ r [symmetric]]) auto
    then show ?thesis by (rule trimmed_dirs [OF t])
  qed
qed

text \<open>Removing a path takes no other file away, and no directory that a file is in.\<close>

lemma remove_path_result:
  assumes "wf_disk d" "remove_path_v1 p d = (failed, d')"
  shows "trimmed (\<lambda>q. q = disk_node (path_str p) \<or> on_disk d q = Some Dir) d d'"
proof -
  obtain f e where r: "remove_file_v1 p d = (f, e)" by fastforce
  have t: "trimmed (\<lambda>q. q = disk_node (path_str p) \<or> on_disk d q = Some Dir) d e"
    by (rule trimmed_mono [OF remove_file_result [OF assms(1) r]]) simp
  show ?thesis
  proof (cases f)
    case True
    with t r assms(2) show ?thesis by (simp add: remove_path_v1_def)
  next
    case False
    with r assms(2) have "d' = prune_dirs (without_slash (p1_dir p)) e" by (simp add: remove_path_v1_def)
    with prune_dirs_result [OF trimmed_wf [OF t]] have "trimmed (\<lambda>q. on_disk e q = Some Dir) e d'" by simp
    then show ?thesis by (rule trimmed_dirs [OF t]) simp
  qed
qed

section \<open>Removing a directory\<close>

lemma until_failure_inv:
  "(\<And>x s s' r. x \<in> set xs \<Longrightarrow> I s \<Longrightarrow> f x s = (r, s') \<Longrightarrow> I s') \<Longrightarrow> I s \<Longrightarrow> until_failure f xs s = (r, s') \<Longrightarrow> I s'"
proof (induction xs arbitrary: s)
  case (Cons x xs)
  obtain b t where t: "f x s = (b, t)" by fastforce
  from Cons.prems(1) [OF _ Cons.prems(2) t] have "I t" by simp
  show ?case
  proof (cases b)
    case True
    with \<open>I t\<close> t Cons.prems(3) show ?thesis by simp
  next
    case False
    with t Cons.prems(3) have "until_failure f xs t = (r, s')" by simp
    then show ?thesis
    proof (rule Cons.IH [rotated 2])
      show "I s'" if "y \<in> set xs" "I s" "f y s = (r, s')" for y s s' r
        using Cons.prems(1) [of y s r s'] that by simp
    qed fact
  qed
qed simp

lemma until_failure_ok:
  "(\<And>x rest s. I (x # rest) s \<Longrightarrow> \<exists>s'. f x s = (False, s') \<and> I rest s') \<Longrightarrow> I xs s \<Longrightarrow>
     \<exists>s'. until_failure f xs s = (False, s') \<and> I [] s'"
  by (induction xs arbitrary: s) fastforce+

lemma entries_names: "wf_disk d \<Longrightarrow> f \<in> set (entries n d) \<Longrightarrow> entry_name f"
  using entries_iff wf_name by blast

lemma child_spelling: "entry_name f \<Longrightarrow> \<not> spells_dir (with_slash dir @ f) \<and> \<not> ends_with (with_slash dir @ f) ''/.''"
proof -
  assume f: "entry_name f"
  then obtain g x where g: "f = g @ [x]" "x \<noteq> CHR ''/''" "CHR ''/'' \<notin> set g"
    by (cases f rule: rev_cases) (auto simp: entry_name_def)
  have e: "\<not> ends_with (with_slash dir @ f) ''/.''"
  proof (cases g rule: rev_cases)
    case Nil
    with g f show ?thesis by (auto simp: ends_with_def entry_name_def)
  next
    case (snoc h y)
    with g show ?thesis by (auto simp: ends_with_def)
  qed
  with g show ?thesis by (simp add: spells_dir_def)
qed

lemma delDir_n_trimmed:
  "wf_disk d \<Longrightarrow> last dir \<noteq> CHR 0x5C \<Longrightarrow> delDir_n n dir d = (r, d') \<Longrightarrow> trimmed (prefix (disk_node dir)) d d'"
proof (induction n arbitrary: dir d r d')
  case 0
  then show ?case by (simp add: trimmed_refl)
next
  case (Suc n)
  show ?case
  proof (cases "dir_exists_v1 dir d")
    case False
    with Suc.prems show ?thesis by (simp add: trimmed_refl)
  next
    case True
    then have dir: "dir \<noteq> []" by (simp add: dir_exists_v1_def stat_Dir)
    let ?step = "\<lambda>f d. if stat (with_slash dir @ f) d = Some Dir then delDir_n n (with_slash dir @ f) d
       else (False, snd (remove_file_v1 \<lparr>p1_dir = with_slash dir, p1_file = f\<rparr> d))"
    obtain r1 d1 where l: "until_failure ?step (lsVec dir d) d = (r1, d1)" by fastforce
    have "trimmed (prefix (disk_node dir)) d d1"
    proof (rule until_failure_inv [OF _ _ l, where I = "trimmed (prefix (disk_node dir)) d"])
      fix f e e' r
      assume f: "f \<in> set (lsVec dir d)" and e: "trimmed (prefix (disk_node dir)) d e" and step: "?step f e = (r, e')"
      from f have f: "entry_name f" using entries_names [OF Suc.prems(1)] by (auto simp: lsVec_def split: if_splits)
      note child = node_child [OF f dir Suc.prems(2)]
      have "trimmed (prefix (disk_node dir @ [f])) e e'"
      proof (cases "stat (with_slash dir @ f) e = Some Dir")
        case True
        then have "delDir_n n (with_slash dir @ f) e = (r, e')" using step by simp
        from Suc.IH [OF trimmed_wf [OF e] conjunct2 [OF last_entry_name [OF f]] this] show ?thesis unfolding child .
      next
        case False
        obtain x y where r: "remove_file_v1 \<lparr>p1_dir = with_slash dir, p1_file = f\<rparr> e = (x, y)" by fastforce
        from remove_file_result [OF trimmed_wf [OF e] r] have "trimmed (\<lambda>q. q = disk_node dir @ [f]) e y"
          by (simp add: path_str_def child)
        moreover have "y = e'" using False step r by simp
        ultimately show ?thesis by (auto intro: trimmed_mono)
      qed
      then have "trimmed (prefix (disk_node dir)) e e'" by (rule trimmed_mono) (rule append_prefixD)
      with e show "trimmed (prefix (disk_node dir)) d e'" by (rule trimmed_trans)
    qed (rule trimmed_refl [OF Suc.prems(1)])
    moreover have "trimmed (prefix (disk_node dir)) d1 d'" if "\<not> r1"
    proof -
      obtain ok d2 where rm: "rmdir dir d1 = (ok, d2)" by fastforce
      then have "d2 = d'" using Suc.prems(3) True l that by simp
      with rmdir_result [OF trimmed_wf [OF calculation] rm] show ?thesis by (auto intro: trimmed_mono)
    qed
    moreover have "d' = d1" if "r1" using Suc.prems(3) True l that by simp
    ultimately show ?thesis using trimmed_trans by blast
  qed
qed

text \<open>A tree that may be removed is removed to the last node, and nothing else is.\<close>

definition may_remove :: "disk \<Rightarrow> disk_place \<Rightarrow> bool" where
  "may_remove d n \<longleftrightarrow> n \<noteq> [] \<and> n \<noteq> [''/''] \<and> (\<forall>q. prefix n q \<longrightarrow> \<not> dk_deny d q \<and> \<not> dk_unreadable d q)"

lemma may_remove_child: "may_remove d n \<Longrightarrow> may_remove d (n @ [f])"
  by (auto simp: may_remove_def dest: append_prefixD)

lemma may_remove_trimmed: "trimmed N d e \<Longrightarrow> may_remove e n \<longleftrightarrow> may_remove d n"
  by (simp add: may_remove_def trimmed_def)

lemma remove_file_gone:
  assumes "wf_disk d" "may_remove d (disk_node (path_str p))" "p1_file p \<noteq> []" "stat (path_str p) d \<noteq> Some Dir" "\<not> spells_dir (path_str p)"
  shows "on_disk (snd (remove_file_v1 p d)) (disk_node (path_str p)) = None"
proof (cases "stat (path_str p) d")
  case None
  moreover have "path_str p \<noteq> []" using assms(3) by (simp add: path_str_def)
  ultimately have "on_disk d (disk_node (path_str p)) = None"
    using assms(5) by (auto simp: stat_def split: option.splits fs_entry.splits)
  with None show ?thesis by (simp add: remove_file_v1_def path_exists_v1_def)
next
  case (Some x)
  then obtain c where c: "stat (path_str p) d = Some (File c)" using assms(4) by (cases x) auto
  have "\<not> dk_deny d (disk_node (path_str p))" "disk_node (path_str p) \<noteq> []" using assms(2) by (auto simp: may_remove_def)
  with c assms(3) show ?thesis by (simp add: remove_file_v1_def path_exists_v1_def remove_v1_def)
qed

lemma rmdir_empty:
  assumes "stat dir d = Some Dir" "may_remove d (disk_node dir)" "\<not> ends_with dir ''/.''" "entries (disk_node dir) d = []"
  shows "rmdir dir d = (True, drop_node (disk_node dir) d)"
  using assms by (simp add: rmdir_def may_remove_def)

lemma delDir_n_ok:
  "wf_disk d \<Longrightarrow> stat dir d = Some Dir \<Longrightarrow> last dir \<noteq> CHR 0x5C \<Longrightarrow> \<not> ends_with dir ''/.'' \<Longrightarrow> may_remove d (disk_node dir) \<Longrightarrow>
   (\<And>q. prefix (disk_node dir) q \<Longrightarrow> on_disk d q \<noteq> None \<Longrightarrow> length q < length (disk_node dir) + n) \<Longrightarrow>
   \<exists>d'. delDir_n n dir d = (False, d') \<and> on_disk d' (disk_node dir) = None"
proof (induction n arbitrary: dir d)
  case 0
  from 0(6) [of "disk_node dir"] 0(2) show ?case by (simp add: stat_Dir)
next
  case (Suc n)
  let ?N = "disk_node dir"
  let ?step = "\<lambda>f d. if stat (with_slash dir @ f) d = Some Dir then delDir_n n (with_slash dir @ f) d
     else (False, snd (remove_file_v1 \<lparr>p1_dir = with_slash dir, p1_file = f\<rparr> d))"
  let ?I = "\<lambda>rest s. trimmed (prefix ?N) d s \<and> on_disk s ?N = Some Dir \<and> set rest \<subseteq> set (lsVec dir d) \<and> set (entries ?N s) \<subseteq> set rest"
  have dir: "dir \<noteq> []" "on_disk d ?N = Some Dir" using Suc.prems(2) by (auto simp: stat_Dir)
  have ls: "lsVec dir d = entries ?N d" using Suc.prems(2,5) by (simp add: lsVec_def may_remove_def)
  have "\<exists>s'. until_failure ?step (lsVec dir d) d = (False, s') \<and> ?I [] s'"
  proof (rule until_failure_ok)
    fix f rest s
    assume I: "?I (f # rest) s"
    note t = conjunct1 [OF I] and wf = trimmed_wf [OF conjunct1 [OF I]]
    have f: "entry_name f" using I ls by (intro entries_names [OF Suc.prems(1), of f ?N]) simp
    note child = node_child [OF f dir(1) Suc.prems(3)]
    have may: "may_remove s (?N @ [f])" using Suc.prems(5) may_remove_child may_remove_trimmed [OF t] by blast
    have "\<exists>s'. ?step f s = (False, s') \<and> trimmed (prefix (?N @ [f])) s s' \<and> on_disk s' (?N @ [f]) = None"
    proof (cases "stat (with_slash dir @ f) s = Some Dir")
      case True
      have "\<exists>s'. delDir_n n (with_slash dir @ f) s = (False, s') \<and> on_disk s' (disk_node (with_slash dir @ f)) = None"
      proof (rule Suc.IH [OF wf True])
        show "last (with_slash dir @ f) \<noteq> CHR 0x5C" using last_entry_name [OF f] by blast
        show "\<not> ends_with (with_slash dir @ f) ''/.''" using child_spelling [OF f] by blast
        show "may_remove s (disk_node (with_slash dir @ f))" using may unfolding child .
        fix q assume q: "prefix (disk_node (with_slash dir @ f)) q" "on_disk s q \<noteq> None"
        then have "on_disk d q \<noteq> None" using trimmed_entry [OF t] by fastforce
        moreover have "prefix ?N q" using q(1) unfolding child by (rule append_prefixD)
        ultimately show "length q < length (disk_node (with_slash dir @ f)) + n" using Suc.prems(6) [of q] unfolding child by simp
      qed
      then obtain s' where s': "delDir_n n (with_slash dir @ f) s = (False, s')" "on_disk s' (?N @ [f]) = None" unfolding child by blast
      moreover have "trimmed (prefix (?N @ [f])) s s'"
        using delDir_n_trimmed [OF wf conjunct2 [OF last_entry_name [OF f]] s'(1)] unfolding child .
      ultimately show ?thesis using True by simp
    next
      case False
      let ?p = "\<lparr>p1_dir = with_slash dir, p1_file = f\<rparr>"
      have str: "path_str ?p = with_slash dir @ f" by (simp add: path_str_def)
      obtain x s' where r: "remove_file_v1 ?p s = (x, s')" by fastforce
      have "on_disk s' (?N @ [f]) = None"
        using remove_file_gone [OF wf, of ?p] may False child_spelling [OF f] f r unfolding str child by (simp add: entry_name_def)
      moreover have "trimmed (prefix (?N @ [f])) s s'"
        using remove_file_result [OF wf r] unfolding str child by (rule trimmed_mono) simp
      ultimately show ?thesis using False r by simp
    qed
    then obtain s' where s': "?step f s = (False, s')" "trimmed (prefix (?N @ [f])) s s'" "on_disk s' (?N @ [f]) = None" by blast
    have "trimmed (prefix ?N) d s'"
      by (rule trimmed_trans [OF t trimmed_mono [OF s'(2)]]) (rule append_prefixD)
    moreover have "on_disk s' ?N = Some Dir" using trimmed_other [OF s'(2), of ?N] I by (simp add: prefix_def)
    moreover have "set (entries ?N s') \<subseteq> set rest"
    proof
      fix g assume "g \<in> set (entries ?N s')"
      then have g: "?N @ [g] \<noteq> [''/'']" "on_disk s' (?N @ [g]) \<noteq> None"
        using entries_iff [OF trimmed_wf [OF s'(2)]] by blast+
      then have "g \<noteq> f" "on_disk s (?N @ [g]) \<noteq> None" using s'(3) trimmed_entry [OF s'(2)] by fastforce+
      then show "g \<in> set rest" using I entries_iff [OF wf] g(1) by (metis set_ConsD subsetD)
    qed
    ultimately show "\<exists>s'. ?step f s = (False, s') \<and> ?I rest s'" using s'(1) I by auto
  next
    show "?I (lsVec dir d) d" using dir ls trimmed_refl [OF Suc.prems(1)] by simp
  qed
  then obtain s' where s': "until_failure ?step (lsVec dir d) d = (False, s')" "trimmed (prefix ?N) d s'"
    "on_disk s' ?N = Some Dir" "entries ?N s' = []" by auto
  have "rmdir dir s' = (True, drop_node ?N s')"
    using rmdir_empty [of dir s'] dir s' Suc.prems(4,5) may_remove_trimmed [OF s'(2)] by (simp add: stat_Dir)
  then have "delDir_n (Suc n) dir d = (False, drop_node ?N s')"
    unfolding delDir_n.simps(2) s'(1) using Suc.prems(2) by (simp add: dir_exists_v1_def)
  moreover have "?N \<noteq> []" using Suc.prems(5) by (simp add: may_remove_def)
  ultimately show ?case by (intro exI [of _ "drop_node ?N s'"]) simp
qed

lemma fold_max: "x \<in> set xs \<Longrightarrow> x \<le> fold max xs (k :: nat)"
proof -
  have "k \<le> fold max xs k" for k :: nat and xs by (induction xs arbitrary: k) (auto intro: le_trans [OF max.cobounded2])
  then show "x \<in> set xs \<Longrightarrow> x \<le> fold max xs (k :: nat)"
    by (induction xs arbitrary: k) (auto intro: le_trans [OF max.cobounded1])
qed

lemma below_depth: "on_disk d q \<noteq> None \<Longrightarrow> length q < depth d"
proof (cases "q = []")
  case False
  moreover assume "on_disk d q \<noteq> None"
  ultimately obtain e where "(q, e) \<in> set (dk_tree d)" by (auto simp: on_disk_def dest: map_of_SomeD)
  then have "length q \<in> set (map (length \<circ> fst) (dk_tree d))" by force
  from fold_max [OF this, of 0] show ?thesis by (simp add: depth_def)
qed (simp add: depth_def)

text \<open>C21: On a disk without symbolic links, \<open>delDir\<close> removes a directory with everything below it, to any depth, and nothing else.
  It is for a directory that is neither the working directory nor the root, below which every entry can be
  read and removed, named without a backslash or \<open>/.\<close> at the end, on a disk with no name that ends in a backslash.\<close>

theorem delDir_removes:
  assumes "wf_disk d" "stat dir d = Some Dir" "last dir \<noteq> CHR 0x5C" "\<not> ends_with dir ''/.''" "may_remove d (disk_node dir)"
  shows "\<exists>d'. delDir dir d = (False, d') \<and> wf_disk d' \<and>
    (\<forall>q. on_disk d' q = (if prefix (disk_node dir) q then None else on_disk d q))"
proof -
  have "length q < length (disk_node dir) + depth d" if "on_disk d q \<noteq> None" for q using below_depth [OF that] by simp
  with delDir_n_ok [OF assms, of "depth d"] obtain d' where
    d': "delDir_n (depth d) dir d = (False, d')" "on_disk d' (disk_node dir) = None" by blast
  from delDir_n_trimmed [OF assms(1,3) d'(1)] have t: "trimmed (prefix (disk_node dir)) d d'" .
  have "on_disk d' q = None" if "prefix (disk_node dir) q" for q
  proof (rule ccontr)
    assume q: "on_disk d' q \<noteq> None"
    from that obtain m where "q = disk_node dir @ m" by (auto simp: prefix_def)
    with q d'(2) wf_above [OF trimmed_wf [OF t], of "disk_node dir" m] show False by (cases "m = []") simp_all
  qed
  with d'(1) t show ?thesis by (intro exI [of _ d']) (simp add: delDir_def trimmed_wf trimmed_other)
qed

definition small_disk :: disk where
  "small_disk = \<lparr>dk_tree = [([''c''], Dir), ([''c'', ''a''], File ''xy''), ([''c'', ''s''], Dir), ([''c'', ''s'', ''b''], File ''z''), ([''t''], File ''w'')],
     dk_deny = (\<lambda>n. False), dk_unreadable = (\<lambda>n. False)\<rparr>"

lemma small_disk_wf: "wf_disk small_disk"
  unfolding wf_disk_def small_disk_def node_ok_def entry_name_def on_disk_def by simp

lemma delDir_removes_witness:
  "\<exists>d'. delDir ''c'' small_disk = (False, d') \<and> wf_disk d' \<and>
    (\<forall>q. on_disk d' q = (if prefix (disk_node ''c'') q then None else on_disk small_disk q))"
proof (rule delDir_removes [OF small_disk_wf])
  have n: "disk_node ''c'' = [''c'']" by code_simp
  show "stat ''c'' small_disk = Some Dir" unfolding stat_Dir n by (simp add: small_disk_def on_disk_def)
  show "last ''c'' \<noteq> CHR 0x5C" "\<not> ends_with ''c'' ''/.''" by (simp_all add: ends_with_def)
  show "may_remove small_disk (disk_node ''c'')" unfolding n by (simp add: may_remove_def small_disk_def)
qed

section \<open>What copying does\<close>

text \<open>Nothing has changed but that directories have been made.\<close>

definition dirs_made :: "disk \<Rightarrow> disk \<Rightarrow> bool" where
  "dirs_made d d' \<longleftrightarrow> dk_deny d' = dk_deny d \<and> dk_unreadable d' = dk_unreadable d \<and>
     (\<forall>q. on_disk d' q = on_disk d q \<or> on_disk d q = None \<and> on_disk d' q = Some Dir)"

lemma dirs_made_refl: "dirs_made d d"
  by (simp add: dirs_made_def)

lemma dirs_made_trans: "dirs_made d e \<Longrightarrow> dirs_made e f \<Longrightarrow> dirs_made d f"
  unfolding dirs_made_def by metis

lemma mkdir_made: "dirs_made d (mkdir p d)"
  by (cases "disk_node p = []") (simp_all add: mkdir_def dirs_made_def)

lemma mkdirs_made: "dirs_made d (mkdirs cDir ds d)"
  by (induction cDir ds d rule: mkdirs.induct) (auto intro: dirs_made_refl dirs_made_trans [OF mkdir_made])

lemma dirs_made_file: "dirs_made d e \<Longrightarrow> on_disk e q = Some (File c) \<longleftrightarrow> on_disk d q = Some (File c)"
  unfolding dirs_made_def by (metis fs_entry.distinct(1) option.distinct(1) option.inject)

text \<open>A file that is copied to another node arrives there, and every other file stays as it is.\<close>

lemma cpFile_copies:
  assumes "stat src d = Some (File c)" "disk_node tgt \<noteq> disk_node src" "cpFile src tgt d = (False, d')"
  shows "on_disk d' (disk_node tgt) = Some (File c) \<and>
    (\<forall>q. q \<noteq> disk_node tgt \<longrightarrow> on_disk d' q = on_disk d q \<or> on_disk d q = None \<and> on_disk d' q = Some Dir)"
proof -
  let ?e = "ensureDirExists (path_from tgt) d"
  have e: "dirs_made d ?e" by (simp add: ensureDirExists_def mkdirs_made)
  obtain opened f where w: "open_write tgt ?e = (opened, f)" by fastforce
  from assms(3) w have o: "opened" by (auto simp: cpFile_def Let_def split: if_splits)
  with w have f: "f = put (disk_node tgt) (File []) ?e" "on_disk ?e (disk_node tgt) \<noteq> Some Dir" by (auto simp: open_write_def split: if_splits)
  then have n: "disk_node tgt \<noteq> []" by auto
  have "on_disk d (disk_node src) = Some (File c)" "src \<noteq> []" "\<not> spells_dir src" using assms(1) by (auto simp: stat_File)
  then have "stat src f = Some (File c)"
    using assms(2) f n dirs_made_file [OF e] by (simp add: stat_File)
  then have d': "d' = put (disk_node tgt) (File c) f"
    using assms(3) w o by (auto simp: cpFile_def Let_def split: if_splits)
  show ?thesis using e n unfolding d' f(1) dirs_made_def by simp
qed

lemma cpFile_copies_witness:
  "on_disk (snd (cpFile ''c/a'' ''n/b'' small_disk)) [''n'', ''b''] = Some (File ''xy'') \<and> on_disk (snd (cpFile ''c/a'' ''n/b'' small_disk)) [''t''] = Some (File ''w'')"
proof -
  have n: "disk_node ''n/b'' = [''n'', ''b'']" "disk_node ''c/a'' = [''c'', ''a'']" by code_simp+
  have "stat ''c/a'' small_disk = Some (File ''xy'')" by code_simp
  moreover have "fst (cpFile ''c/a'' ''n/b'' small_disk) = False" by code_simp
  then have "cpFile ''c/a'' ''n/b'' small_disk = (False, snd (cpFile ''c/a'' ''n/b'' small_disk))" by (metis prod.collapse)
  ultimately have r: "on_disk (snd (cpFile ''c/a'' ''n/b'' small_disk)) (disk_node ''n/b'') = Some (File ''xy'') \<and>
      (\<forall>q. q \<noteq> disk_node ''n/b'' \<longrightarrow> on_disk (snd (cpFile ''c/a'' ''n/b'' small_disk)) q = on_disk small_disk q \<or>
        on_disk small_disk q = None \<and> on_disk (snd (cpFile ''c/a'' ''n/b'' small_disk)) q = Some Dir)"
    by (intro cpFile_copies) (simp_all add: n)
  have t: "on_disk small_disk [''t''] = Some (File ''w'')" by (simp add: small_disk_def on_disk_def)
  from r have "on_disk (snd (cpFile ''c/a'' ''n/b'' small_disk)) [''t''] = Some (File ''w'')" unfolding n
    using t by (elim conjE allE [of _ "[''t'']"]) simp
  with r show ?thesis unfolding n by simp
qed

text \<open>A file that is copied onto itself loses its text, and the copy is reported as done.\<close>

lemma cpFile_self: "fst (cpFile ''t'' ''./t'' small_disk) = False \<and> on_disk (snd (cpFile ''t'' ''./t'' small_disk)) [''t''] = Some (File [])"
  by code_simp

text \<open>\<open>cpDir\<close> removes an existing file by a path without a file name, which removes nothing.\<close>

lemma cpDir_over_file:
  "remove_file_v1 \<lparr>p1_dir = with_slash ''t'', p1_file = []\<rparr> small_disk = (False, small_disk)"
  "fst (cpDir ''c'' ''t'' small_disk) = True"
  by (simp add: remove_file_v1_def) code_simp

lemma cpDir_example:
  "fst (cpDir ''c'' ''n/m'' small_disk) = False \<and>
   on_disk (snd (cpDir ''c'' ''n/m'' small_disk)) [''n'', ''m'', ''s'', ''b''] = Some (File ''z'')"
  by code_simp

section \<open>Files that stay\<close>

text \<open>Without any condition on the disk: the calls that remove take no file away but the one they name.\<close>

lemma rmdir_file: "rmdir p d = (ok, d') \<Longrightarrow> on_disk d q = Some (File c) \<Longrightarrow> on_disk d' q = Some (File c)"
  by (auto simp: rmdir_def stat_Dir split: if_splits)

lemma remove_v1_file:
  assumes "remove_v1 p d = (ok, d')" "on_disk d q = Some (File c)" "q \<noteq> disk_node p"
  shows "on_disk d' q = Some (File c)"
proof (cases "stat p d")
  case (Some e)
  show ?thesis
  proof (cases e)
    case (File c')
    then have "on_disk d (disk_node p) = Some (File c')" using Some by (simp add: stat_File)
    then have "disk_node p \<noteq> []" by auto
    with Some File assms show ?thesis by (auto simp: remove_v1_def split: if_splits)
  next
    case Dir
    with Some assms show ?thesis by (auto simp: remove_v1_def dest: rmdir_file)
  qed
qed (use assms in \<open>simp add: remove_v1_def\<close>)

lemma prune_dirs_file: "on_disk d q = Some (File c) \<Longrightarrow> on_disk (prune_dirs dir d) q = Some (File c)"
proof (induction dir d rule: prune_dirs.induct)
  case (1 dir d)
  obtain ok e where r: "rmdir dir d = (ok, e)" by fastforce
  note e = rmdir_file [OF r 1(2)]
  show ?case
  proof (cases "dir = [] \<or> dir \<in> set [''/'', ''C:'', ''C:'' @ [CHR 0x5C], ''C:/'', ''./''] \<or> \<not> ok \<or>
      find_idx is_slash (rev dir) = None")
    case True
    then have "prune_dirs dir d \<in> {d, e}"
      using r by (subst prune_dirs.simps) (auto split: bool.splits option.splits)
    then show ?thesis using e 1(2) by auto
  next
    case False
    then obtain i where i: "find_idx is_slash (rev dir) = Some i" by blast
    have eq: "prune_dirs dir d = prune_dirs (take (length dir - Suc i) dir) e"
      using False r i by (subst prune_dirs.simps) simp
    show ?thesis unfolding eq using False r i e by (intro "1.IH" [OF _ r [symmetric]]) auto
  qed
qed

lemma remove_path_file:
  assumes "on_disk d q = Some (File c)" "q \<noteq> disk_node (path_str p)"
  shows "on_disk (snd (remove_path_v1 p d)) q = Some (File c)"
proof -
  obtain f e where r: "remove_file_v1 p d = (f, e)" by fastforce
  obtain ok e' where rm: "remove_v1 (path_str p) d = (ok, e')" by fastforce
  have "e \<in> {d, e'}" using r rm by (auto simp: remove_file_v1_def split: if_splits)
  then have "on_disk e q = Some (File c)" using remove_v1_file [OF rm assms] assms(1) by auto
  with r show ?thesis by (cases f) (simp_all add: remove_path_v1_def prune_dirs_file)
qed

text \<open>And they make nothing.\<close>

lemma rmdir_less: "rmdir p d = (ok, d') \<Longrightarrow> on_disk d' q = Some e \<Longrightarrow> on_disk d q = Some e"
  by (auto simp: rmdir_def split: if_splits)

lemma prune_dirs_less: "on_disk (prune_dirs dir d) q = Some x \<Longrightarrow> on_disk d q = Some x"
proof (induction dir d rule: prune_dirs.induct)
  case (1 dir d)
  obtain ok e where r: "rmdir dir d = (ok, e)" by fastforce
  note e = rmdir_less [OF r]
  show ?case
  proof (cases "dir = [] \<or> dir \<in> set [''/'', ''C:'', ''C:'' @ [CHR 0x5C], ''C:/'', ''./''] \<or> \<not> ok \<or>
      find_idx is_slash (rev dir) = None")
    case True
    then have "prune_dirs dir d \<in> {d, e}"
      using r by (subst prune_dirs.simps) (auto split: bool.splits option.splits)
    then show ?thesis using e 1(2) by auto
  next
    case False
    then obtain i where i: "find_idx is_slash (rev dir) = Some i" by blast
    have eq: "prune_dirs dir d = prune_dirs (take (length dir - Suc i) dir) e"
      using False r i by (subst prune_dirs.simps) simp
    have "on_disk e q = Some x" using 1(2) unfolding eq using False r i by (intro "1.IH" [OF _ r [symmetric]]) auto
    then show ?thesis by (rule e)
  qed
qed

lemma remove_v1_less: "remove_v1 p d = (ok, d') \<Longrightarrow> on_disk d' q = Some x \<Longrightarrow> on_disk d q = Some x"
  by (cases "disk_node p = []")
    (auto simp: remove_v1_def stat_def split: if_splits option.splits fs_entry.splits dest: rmdir_less)

lemma remove_path_less:
  assumes "on_disk (snd (remove_path_v1 p d)) q = Some x"
  shows "on_disk d q = Some x"
proof -
  obtain f e where r: "remove_file_v1 p d = (f, e)" by fastforce
  obtain ok e' where rm: "remove_v1 (path_str p) d = (ok, e')" by fastforce
  have e: "e \<in> {d, e'}" using r rm by (auto simp: remove_file_v1_def split: if_splits)
  have "on_disk e q = Some x" using assms r by (cases f) (auto simp: remove_path_v1_def dest: prune_dirs_less)
  with e remove_v1_less [OF rm] show ?thesis by auto
qed

lemma prune_dirs_None: "on_disk d q = None \<Longrightarrow> on_disk (prune_dirs dir d) q = None"
  using prune_dirs_less by (metis not_None_eq)

text \<open>A file that may be removed is gone afterwards.\<close>

lemma remove_path_gone:
  assumes "stat (path_str p) d = Some (File c)" "p1_file p \<noteq> []" "\<not> dk_deny d (disk_node (path_str p))"
  shows "on_disk (snd (remove_path_v1 p d)) (disk_node (path_str p)) = None"
proof -
  have "on_disk d (disk_node (path_str p)) = Some (File c)" using assms(1) by (simp add: stat_File)
  then have "disk_node (path_str p) \<noteq> []" by auto
  with assms have "remove_file_v1 p d = (False, drop_node (disk_node (path_str p)) d)"
    by (simp add: remove_file_v1_def path_exists_v1_def remove_v1_def)
  with \<open>disk_node (path_str p) \<noteq> []\<close> show ?thesis by (simp add: remove_path_v1_def prune_dirs_None)
qed

lemma write_to_other: "q \<noteq> disk_node p \<Longrightarrow> on_disk (write_to p c d) q = on_disk d q"
  by (cases "disk_node p = []") (auto simp: write_to_def open_write_def split: prod.split bool.split)

lemma ensureDirExists_made: "dirs_made d (ensureDirExists p d)"
  by (simp add: ensureDirExists_def mkdirs_made)

end
