(* ===== verification/Nift1_Tracking.thy ===== *)
theory Nift1_Tracking
  imports Nift1_Files
begin

text \<open>
  The tracked pages of Nift 1: \<open>legacy/TrackedInfo.h\<close> and the parts of \<open>legacy/ProjectInfo.cpp\<close> that track,
  untrack, remove, move and copy pages and write \<open>.nift/tracked.json\<close>.  The state is the project's settings, the
  set \<open>trackedAll\<close>, which \<open>operator<\<close> orders by the quoted name, and the disk.  An operation returns its outcome, with
  the reason of a refusal in place of the message that is printed, and the state.  \<open>chmod\<close> before a removal is left
  out: what may be removed is what \<open>dk_deny\<close> says.
\<close>

section \<open>Pages and projects\<close>

record tracked_info =
  ti_name :: string
  ti_title :: string
  ti_output :: path_v1
  ti_content :: path_v1
  ti_template :: path_v1
  ti_contentExt :: string
  ti_outputExt :: string
  ti_scriptExt :: string

record project_v1 =
  contentDir :: string
  outputDir :: string
  contentExt :: string
  outputExt :: string
  scriptExt :: string
  defaultTemplate :: path_v1
  trackedAll :: "tracked_info list"
  p1_disk :: disk

definition info_key :: "tracked_info \<Rightarrow> string" where
  "info_key i = quote_v1 (ti_name i)"

text \<open>\<open>find\<close>, \<open>insert\<close>, which keeps an element that is there, and \<open>erase\<close> of the set.\<close>

fun set_find :: "string \<Rightarrow> tracked_info list \<Rightarrow> tracked_info option" where
  "set_find k [] = None"
| "set_find k (i # is) = (if info_key i = k then Some i else set_find k is)"

fun set_insert :: "tracked_info \<Rightarrow> tracked_info list \<Rightarrow> tracked_info list" where
  "set_insert x [] = [x]"
| "set_insert x (i # is) =
     (if info_key x < info_key i then x # i # is
      else if info_key x = info_key i then i # is
      else i # set_insert x is)"

definition set_erase :: "string \<Rightarrow> tracked_info list \<Rightarrow> tracked_info list" where
  "set_erase k is = filter (\<lambda>i. info_key i \<noteq> k) is"

definition sorted_infos :: "tracked_info list \<Rightarrow> bool" where
  "sorted_infos is \<longleftrightarrow> sorted_wrt (\<lambda>i j. info_key i < info_key j) is"

section \<open>The information of a page\<close>

definition make_info :: "string \<Rightarrow> string \<Rightarrow> path_v1 \<Rightarrow> string \<Rightarrow> string \<Rightarrow> string \<Rightarrow> string \<Rightarrow> tracked_info" where
  "make_info name title templatePath cDir oDir cExt oExt =
     (let nameAsPath = path_from (unquote_v1 name);
          file = (if p1_file nameAsPath = [] then ''index'' else p1_file nameAsPath)
      in \<lparr>ti_name = name, ti_title = title,
          ti_output = new_path (oDir @ p1_dir nameAsPath) (file @ oExt),
          ti_content = new_path (cDir @ p1_dir nameAsPath) (file @ cExt),
          ti_template = templatePath, ti_contentExt = [], ti_outputExt = [], ti_scriptExt = []\<rparr>)"

definition make_info_template :: "string \<Rightarrow> string \<Rightarrow> path_v1 \<Rightarrow> project_v1 \<Rightarrow> tracked_info" where
  "make_info_template name title templatePath p =
     make_info name title templatePath (contentDir p) (outputDir p) (contentExt p) (outputExt p)"

definition make_info_title :: "string \<Rightarrow> string \<Rightarrow> project_v1 \<Rightarrow> tracked_info" where
  "make_info_title name title p = make_info_template name title (defaultTemplate p) p"

definition make_info_name :: "string \<Rightarrow> project_v1 \<Rightarrow> tracked_info" where
  "make_info_name name p = make_info_template name name (defaultTemplate p) p"

text \<open>The information of a page that is not tracked has another name and empty paths.\<close>

definition get_info :: "string \<Rightarrow> project_v1 \<Rightarrow> tracked_info" where
  "get_info name p =
     (case set_find (quote_v1 name) (trackedAll p) of
        Some i \<Rightarrow> i
      | None \<Rightarrow> \<lparr>ti_name = ''##not-found##'', ti_title = [], ti_output = \<lparr>p1_dir = [], p1_file = []\<rparr>,
                 ti_content = \<lparr>p1_dir = [], p1_file = []\<rparr>, ti_template = \<lparr>p1_dir = [], p1_file = []\<rparr>,
                 ti_contentExt = [], ti_outputExt = [], ti_scriptExt = []\<rparr>)"

definition tracking :: "string \<Rightarrow> project_v1 \<Rightarrow> bool" where
  "tracking name p \<longleftrightarrow> set_find (quote_v1 name) (trackedAll p) \<noteq> None"

section \<open>Saving\<close>

text \<open>Every field is written with a comma and a newline, which \<open>seekp\<close> goes back over after the last one.\<close>

definition back_over :: "string \<Rightarrow> string \<Rightarrow> string" where
  "back_over t s = take (length t - 2) t @ s"

definition json_field :: "string \<Rightarrow> string \<Rightarrow> string" where
  "json_field k v = [CHR 0x09, CHR 0x09, CHR 0x09, DQ] @ k @ [DQ, CHR '':'', CHR '' '', DQ] @ v @ [DQ, CHR '','', NL]"

definition entry_text :: "tracked_info \<Rightarrow> string" where
  "entry_text i =
     json_field ''name'' (ti_name i) @ json_field ''title'' (ti_title i) @
     json_field ''template'' (path_str (ti_template i)) @
     (if ti_contentExt i \<noteq> [] then json_field ''content-ext'' (ti_contentExt i) else []) @
     (if ti_outputExt i \<noteq> [] then json_field ''output-ext'' (ti_outputExt i) else []) @
     (if ti_scriptExt i \<noteq> [] then json_field ''script-ext'' (ti_scriptExt i) else [])"

fun entries_text :: "tracked_info list \<Rightarrow> string \<Rightarrow> string" where
  "entries_text [] t = t"
| "entries_text (i # is) t =
     entries_text is (back_over (t @ [CHR 0x09, CHR 0x09, CHR ''{'', NL] @ entry_text i)
       [NL, CHR 0x09, CHR 0x09, CHR ''}'', CHR '','', NL])"

definition tracking_text :: "tracked_info list \<Rightarrow> string" where
  "tracking_text is =
     back_over (entries_text is ([CHR ''{'', NL, CHR 0x09, DQ] @ ''tracked'' @ [DQ, CHR '':'', CHR '' '', CHR ''['', NL]))
       [NL, CHR 0x09, CHR '']'', NL] @ ''}''"

definition save_tracking :: "project_v1 \<Rightarrow> project_v1" where
  "save_tracking p = p\<lparr>p1_disk := write_to ''.nift/tracked.json'' (tracking_text (trackedAll p)) (p1_disk p)\<rparr>"

text \<open>The list of older versions: three lines of a page and an empty one.\<close>

definition old_entry :: "tracked_info \<Rightarrow> string" where
  "old_entry i = quote_v1 (ti_name i) @ [NL] @ quote_v1 (ti_title i) @ [NL] @ quote_v1 (path_str (ti_template i)) @ [NL, NL]"

definition save_tracking_old :: "project_v1 \<Rightarrow> project_v1" where
  "save_tracking_old p = p\<lparr>p1_disk := write_to ''.nift/tracking.list'' (concat (map old_entry (trackedAll p))) (p1_disk p)\<rparr>"

section \<open>Tracking\<close>

datatype refusal =
    Empty_field | Both_quotes | No_fullstop | Same_paths | Tracked_already | Not_tracked | No_template | Path_taken
  | Not_moved | Not_copied | No_such_file | Not_a_directory | Not_content | No_such_directory | No_change

datatype track_outcome = Done | Refused refusal | Throws | Hangs

definition both_quotes :: "string \<Rightarrow> bool" where
  "both_quotes s \<longleftrightarrow> DQ \<in> set (unquote_v1 s) \<and> SQ \<in> set (unquote_v1 s)"

definition names_refused :: "string \<Rightarrow> string \<Rightarrow> path_v1 \<Rightarrow> bool" where
  "names_refused name title templatePath \<longleftrightarrow>
     both_quotes name \<or> both_quotes title \<or> both_quotes (path_str templatePath)"

definition fullstop :: "string \<Rightarrow> bool" where
  "fullstop ext \<longleftrightarrow> ext \<noteq> [] \<and> hd ext = CHR ''.''"

text \<open>The checks on a new page, and adding it.\<close>

definition page_refused :: "tracked_info \<Rightarrow> project_v1 \<Rightarrow> refusal option" where
  "page_refused i p =
     (if path_eq (ti_content i) (ti_template i) then Some Same_paths
      else if tracking (ti_name i) p then Some Tracked_already
      else if path_str (ti_template i) \<noteq> [] \<and> \<not> file_exists_v1 (path_str (ti_template i)) (p1_disk p) then Some No_template
      else if path_exists_v1 (path_str (ti_output i)) (p1_disk p) then Some Path_taken
      else None)"

definition add_page :: "tracked_info \<Rightarrow> project_v1 \<Rightarrow> project_v1" where
  "add_page i p =
     p\<lparr>p1_disk := (if \<not> file_exists_v1 (path_str (ti_content i)) (p1_disk p) then ensureFileExists (ti_content i) (p1_disk p)
                   else p1_disk p),
       trackedAll := set_insert i (trackedAll p)\<rparr>"

definition track :: "string \<Rightarrow> string \<Rightarrow> path_v1 \<Rightarrow> project_v1 \<Rightarrow> track_outcome \<times> project_v1" where
  "track name title templatePath p =
     (if name = [] \<or> title = [] \<or> path_str templatePath = [] then (Refused Empty_field, p)
      else if names_refused name title templatePath then (Refused Both_quotes, p)
      else let i = make_info_template name title templatePath p
           in case page_refused i p of
                Some r \<Rightarrow> (Refused r, p)
              | None \<Rightarrow> (Done, save_tracking (add_page i p)))"

text \<open>Extensions that are not the project's are kept with the page.\<close>

definition with_ext :: "path_v1 \<Rightarrow> string \<Rightarrow> path_v1" where
  "with_ext path ext = path\<lparr>p1_file := strippedExtension (p1_file path) @ ext\<rparr>"

definition with_exts :: "string \<Rightarrow> string \<Rightarrow> project_v1 \<Rightarrow> tracked_info \<Rightarrow> tracked_info" where
  "with_exts cExt oExt p i =
     (let i = (if cExt \<noteq> contentExt p then i\<lparr>ti_contentExt := cExt, ti_content := with_ext (ti_content i) cExt\<rparr> else i)
      in if oExt \<noteq> outputExt p then i\<lparr>ti_outputExt := oExt, ti_output := with_ext (ti_output i) oExt\<rparr> else i)"

definition page_with_exts_refused :: "string \<Rightarrow> string \<Rightarrow> path_v1 \<Rightarrow> string \<Rightarrow> string \<Rightarrow> project_v1 \<Rightarrow> refusal option" where
  "page_with_exts_refused name title templatePath cExt oExt p =
     (if name = [] \<or> title = [] \<or> cExt = [] \<or> oExt = [] then Some Empty_field
      else if names_refused name title templatePath then Some Both_quotes
      else if \<not> fullstop cExt \<or> \<not> fullstop oExt then Some No_fullstop
      else page_refused (with_exts cExt oExt p (make_info_template name title templatePath p)) p)"

definition track_exts :: "string \<Rightarrow> string \<Rightarrow> path_v1 \<Rightarrow> string \<Rightarrow> string \<Rightarrow> project_v1 \<Rightarrow> track_outcome \<times> project_v1" where
  "track_exts name title templatePath cExt oExt p =
     (case page_with_exts_refused name title templatePath cExt oExt p of
        Some r \<Rightarrow> (Refused r, p)
      | None \<Rightarrow> (Done, save_tracking (add_page (with_exts cExt oExt p (make_info_template name title templatePath p)) p)))"

text \<open>A page to track: its name, title, template and extensions.  All are checked before the first is tracked, each
  against the pages tracked so far.\<close>

type_synonym to_track = "string \<times> string \<times> path_v1 \<times> string \<times> string"

fun first_refusal :: "('x \<Rightarrow> refusal option) \<Rightarrow> 'x list \<Rightarrow> refusal option" where
  "first_refusal f [] = None"
| "first_refusal f (x # xs) = (case f x of Some r \<Rightarrow> Some r | None \<Rightarrow> first_refusal f xs)"

definition track_list :: "to_track list \<Rightarrow> project_v1 \<Rightarrow> track_outcome \<times> project_v1" where
  "track_list toTrack p =
     (case first_refusal (\<lambda>(name, title, templatePath, cExt, oExt). page_with_exts_refused name title templatePath cExt oExt p) toTrack of
        Some r \<Rightarrow> (Refused r, p)
      | None \<Rightarrow>
          (Done, save_tracking
            (fold (\<lambda>(name, title, templatePath, cExt, oExt) p.
                     add_page (with_exts cExt oExt p (make_info_template name title templatePath p)) p) toTrack p)))"

text \<open>Up to five fields are read from a line; those that are not there are empty.\<close>

primrec read_fields :: "nat \<Rightarrow> string \<Rightarrow> string list reading" where
  "read_fields 0 is = Read [] is"
| "read_fields (Suc n) is =
     (case read_quoted is of
        Read w is \<Rightarrow>
          (case read_fields n is of Read ws is \<Rightarrow> Read (w # ws) is | Read_end \<Rightarrow> Read_end | Read_throws \<Rightarrow> Read_throws | Read_hangs \<Rightarrow> Read_hangs)
      | Read_end \<Rightarrow> Read [] is | Read_throws \<Rightarrow> Read_throws | Read_hangs \<Rightarrow> Read_hangs)"

definition or_else :: "string \<Rightarrow> string \<Rightarrow> string" where
  "or_else s dflt = (if s = [] then dflt else s)"

definition nth_field :: "string list \<Rightarrow> nat \<Rightarrow> string" where
  "nth_field ws i = (if i < length ws then ws ! i else [])"

text \<open>The pages of a file.  Here the extensions are kept in the paths only.\<close>

datatype file_lines = Infos "tracked_info list" | Line_refused refusal | Line_throws | Line_hangs

fun lines_to_track :: "string list \<Rightarrow> project_v1 \<Rightarrow> file_lines" where
  "lines_to_track [] p = Infos []"
| "lines_to_track (l # ls) p =
     (case read_fields 5 l of
        Read ws r \<Rightarrow>
          (let name = nth_field ws 0
           in if name = [] \<or> hd name = CHR ''#'' then lines_to_track ls p
              else let title = or_else (nth_field ws 1) name;
                       cExt = or_else (nth_field ws 2) (contentExt p);
                       templatePath = (if path_eq (path_from (nth_field ws 3)) (new_path [] []) then defaultTemplate p
                                       else path_from (nth_field ws 3));
                       oExt = or_else (nth_field ws 4) (outputExt p)
                   in case page_with_exts_refused name title templatePath cExt oExt p of
                        Some r \<Rightarrow> Line_refused r
                      | None \<Rightarrow>
                          (case lines_to_track ls p of
                             Infos is \<Rightarrow>
                               Infos (with_exts cExt oExt p (make_info_template name title templatePath p)
                                        \<lparr>ti_contentExt := [], ti_outputExt := []\<rparr> # is)
                           | e \<Rightarrow> e))
      | Read_throws \<Rightarrow> Line_throws
      | _ \<Rightarrow> Line_hangs)"

text \<open>Where the extension of a page is not the project's, a file of its own beside the page's information says so.\<close>

definition ext_path :: "path_v1 \<Rightarrow> string \<Rightarrow> path_v1" where
  "ext_path infoPath ext = with_ext infoPath ext"

definition own_ext :: "string \<Rightarrow> string option" where
  "own_ext file = map_option (\<lambda>pos. take (length file - 1) (drop pos file)) (find_last (CHR ''.'') file)"

definition write_ext :: "path_v1 \<Rightarrow> string \<Rightarrow> disk \<Rightarrow> disk" where
  "write_ext extPath ext d = write_to (path_str extPath) (ext @ [NL]) (ensureFileExists extPath d)"

fun add_pages :: "tracked_info list \<Rightarrow> project_v1 \<Rightarrow> bool \<times> project_v1" where
  "add_pages [] p = (True, p)"
| "add_pages (i # is) p =
     (case (own_ext (p1_file (ti_content i)), own_ext (p1_file (ti_output i))) of
        (Some cExt, Some oExt) \<Rightarrow>
          (let infoPath = getInfoPath (ti_output i);
               d = p1_disk p;
               d = (if cExt \<noteq> contentExt p then write_ext (ext_path infoPath ''.contExt'') cExt d else d);
               d = (if oExt \<noteq> outputExt p then write_ext (ext_path infoPath ''.outputExt'') oExt d else d)
           in add_pages is (add_page i (p\<lparr>p1_disk := d\<rparr>)))
      | _ \<Rightarrow> (False, p))"

definition track_from_file :: "string \<Rightarrow> project_v1 \<Rightarrow> track_outcome \<times> project_v1" where
  "track_from_file filePath p =
     (if \<not> file_exists_v1 filePath (p1_disk p) then (Refused No_such_file, p)
      else case lines_to_track (split_char NL (file_text filePath (p1_disk p))) p of
             Infos is \<Rightarrow> (case add_pages is p of (True, p) \<Rightarrow> (Done, save_tracking p) | (False, p) \<Rightarrow> (Throws, p))
           | Line_refused r \<Rightarrow> (Refused r, p)
           | Line_throws \<Rightarrow> (Throws, p)
           | Line_hangs \<Rightarrow> (Hangs, p))"

text \<open>The pages of a directory with a content extension: the names that its files stand for.\<close>

definition dir_refused :: "path_v1 \<Rightarrow> project_v1 \<Rightarrow> refusal option" where
  "dir_refused dirPath p =
     (if p1_file dirPath \<noteq> [] then Some Not_a_directory
      else if take (length (contentDir p)) (comparableStr dirPath) \<noteq> contentDir p then Some Not_content
      else if \<not> dir_exists_v1 (path_str dirPath) (p1_disk p) then Some No_such_directory
      else None)"

definition names_in_dir :: "path_v1 \<Rightarrow> string \<Rightarrow> project_v1 \<Rightarrow> string list" where
  "names_in_dir dirPath cExt p =
     (let contDir2dirPath = (if length (comparable (p1_dir dirPath)) > length (comparable (contentDir p))
                             then drop (length (contentDir p)) (p1_dir dirPath) else [])
      in concat (map (\<lambda>f. case find_last (CHR ''.'') f of
                            None \<Rightarrow> []
                          | Some pos \<Rightarrow> if drop pos f = cExt then [contDir2dirPath @ take pos f] else [])
                 (lsVec (p1_dir dirPath) (p1_disk p))))"

text \<open>What becomes of the pages themselves is not reported.\<close>

definition track_dir :: "path_v1 \<Rightarrow> string \<Rightarrow> path_v1 \<Rightarrow> string \<Rightarrow> project_v1 \<Rightarrow> track_outcome \<times> project_v1" where
  "track_dir dirPath cExt templatePath oExt p =
     (case dir_refused dirPath p of
        Some r \<Rightarrow> (Refused r, p)
      | None \<Rightarrow>
          if \<not> fullstop cExt \<or> \<not> fullstop oExt then (Refused No_fullstop, p)
          else if path_str templatePath \<noteq> [] \<and> \<not> file_exists_v1 (path_str templatePath) (p1_disk p) then (Refused No_template, p)
          else let names = filter (\<lambda>n. \<not> tracking n p) (names_in_dir dirPath cExt p)
               in (Done, if names = [] then p else snd (track_list (map (\<lambda>n. (n, n, templatePath, cExt, oExt)) names) p)))"

section \<open>Untracking and removing\<close>

definition remove_if_file :: "path_v1 \<Rightarrow> disk \<Rightarrow> disk" where
  "remove_if_file path d = (if file_exists_v1 (path_str path) d then snd (remove_path_v1 path d) else d)"

definition untrack_files :: "tracked_info \<Rightarrow> path_v1 list" where
  "untrack_files i =
     (let infoPath = getInfoPath (ti_output i)
      in [ext_path infoPath ''.contExt'', ext_path (ext_path infoPath ''.contExt'') ''.outputExt'',
          ext_path (ext_path (ext_path infoPath ''.contExt'') ''.outputExt'') ''.scriptExt'', infoPath, ti_output i])"

definition rm_files :: "tracked_info \<Rightarrow> path_v1 list" where
  "rm_files i = [getInfoPath (ti_output i), ti_output i, ti_content i]"

definition erase_page :: "(tracked_info \<Rightarrow> path_v1 list) \<Rightarrow> tracked_info \<Rightarrow> project_v1 \<Rightarrow> project_v1" where
  "erase_page files i p =
     p\<lparr>p1_disk := fold remove_if_file (files i) (p1_disk p), trackedAll := set_erase (info_key i) (trackedAll p)\<rparr>"

definition erase_name :: "(tracked_info \<Rightarrow> path_v1 list) \<Rightarrow> string \<Rightarrow> project_v1 \<Rightarrow> track_outcome \<times> project_v1" where
  "erase_name files name p =
     (if \<not> tracking name p then (Refused Not_tracked, p)
      else (Done, save_tracking (erase_page files (get_info name p) p)))"

definition untrack :: "string \<Rightarrow> project_v1 \<Rightarrow> track_outcome \<times> project_v1" where
  "untrack = erase_name untrack_files"

definition rm :: "string \<Rightarrow> project_v1 \<Rightarrow> track_outcome \<times> project_v1" where
  "rm = erase_name rm_files"

definition erase_names :: "(tracked_info \<Rightarrow> path_v1 list) \<Rightarrow> string list \<Rightarrow> project_v1 \<Rightarrow> track_outcome \<times> project_v1" where
  "erase_names files names p =
     (if \<not> list_all (\<lambda>n. tracking n p) names then (Refused Not_tracked, p)
      else (Done, save_tracking (fold (\<lambda>n p. erase_page files (get_info n p) p) names p)))"

definition untrack_list :: "string list \<Rightarrow> project_v1 \<Rightarrow> track_outcome \<times> project_v1" where
  "untrack_list = erase_names untrack_files"

definition rm_list :: "string list \<Rightarrow> project_v1 \<Rightarrow> track_outcome \<times> project_v1" where
  "rm_list = erase_names rm_files"

text \<open>A line without a name leaves the name of the line before.\<close>

fun lines_to_erase :: "string \<Rightarrow> string list \<Rightarrow> project_v1 \<Rightarrow> file_lines" where
  "lines_to_erase name [] p = Infos []"
| "lines_to_erase name (l # ls) p =
     (case read_quoted l of
        Read_throws \<Rightarrow> Line_throws
      | Read_hangs \<Rightarrow> Line_hangs
      | r \<Rightarrow>
          (let name = (case r of Read w is \<Rightarrow> w | _ \<Rightarrow> name)
           in if name = [] \<or> hd name = CHR ''#'' then lines_to_erase name ls p
              else if \<not> tracking name p then Line_refused Not_tracked
              else case lines_to_erase name ls p of Infos is \<Rightarrow> Infos (get_info name p # is) | e \<Rightarrow> e))"

definition erase_from_file :: "(tracked_info \<Rightarrow> path_v1 list) \<Rightarrow> string \<Rightarrow> project_v1 \<Rightarrow> track_outcome \<times> project_v1" where
  "erase_from_file files filePath p =
     (if \<not> file_exists_v1 filePath (p1_disk p) then (Refused No_such_file, p)
      else case lines_to_erase [] (split_char NL (file_text filePath (p1_disk p))) p of
             Infos is \<Rightarrow> (Done, save_tracking (fold (erase_page files) is p))
           | Line_refused r \<Rightarrow> (Refused r, p)
           | Line_throws \<Rightarrow> (Throws, p)
           | Line_hangs \<Rightarrow> (Hangs, p))"

definition untrack_from_file :: "string \<Rightarrow> project_v1 \<Rightarrow> track_outcome \<times> project_v1" where
  "untrack_from_file = erase_from_file untrack_files"

definition rm_from_file :: "string \<Rightarrow> project_v1 \<Rightarrow> track_outcome \<times> project_v1" where
  "rm_from_file = erase_from_file rm_files"

definition erase_dir :: "(tracked_info \<Rightarrow> path_v1 list) \<Rightarrow> path_v1 \<Rightarrow> string \<Rightarrow> project_v1 \<Rightarrow> track_outcome \<times> project_v1" where
  "erase_dir files dirPath cExt p =
     (case dir_refused dirPath p of
        Some r \<Rightarrow> (Refused r, p)
      | None \<Rightarrow>
          if \<not> fullstop cExt then (Refused No_fullstop, p)
          else let names = filter (\<lambda>n. tracking n p) (names_in_dir dirPath cExt p)
               in (Done, if names = [] then p else snd (erase_names files names p)))"

definition untrack_dir :: "path_v1 \<Rightarrow> string \<Rightarrow> project_v1 \<Rightarrow> track_outcome \<times> project_v1" where
  "untrack_dir = erase_dir untrack_files"

definition rm_dir :: "path_v1 \<Rightarrow> string \<Rightarrow> project_v1 \<Rightarrow> track_outcome \<times> project_v1" where
  "rm_dir = erase_dir rm_files"

section \<open>Moving and copying\<close>

text \<open>The name goes into the paths as it is, with its quotation marks.\<close>

definition named_path :: "string \<Rightarrow> string \<Rightarrow> string \<Rightarrow> string \<Rightarrow> path_v1" where
  "named_path dir name ext bare =
     (let path = path_from (dir @ name @ ext) in if p1_file path = bare then path\<lparr>p1_file := ''index'' @ bare\<rparr> else path)"

definition moved_title :: "tracked_info \<Rightarrow> string \<Rightarrow> string" where
  "moved_title old newName = (if get_title (ti_name old) = ti_title old then get_title newName else ti_title old)"

text \<open>\<open>mv\<close> compares the file name with the project's extension, \<open>cp\<close> with the page's.\<close>

definition mv_info :: "tracked_info \<Rightarrow> string \<Rightarrow> project_v1 \<Rightarrow> tracked_info" where
  "mv_info old newName p =
     \<lparr>ti_name = newName, ti_title = moved_title old newName,
      ti_output = named_path (outputDir p) newName (or_else (ti_outputExt old) (outputExt p)) (outputExt p),
      ti_content = named_path (contentDir p) newName (or_else (ti_contentExt old) (contentExt p)) (contentExt p),
      ti_template = ti_template old, ti_contentExt = ti_contentExt old, ti_outputExt = ti_outputExt old, ti_scriptExt = []\<rparr>"

definition cp_info :: "tracked_info \<Rightarrow> string \<Rightarrow> project_v1 \<Rightarrow> tracked_info" where
  "cp_info old newName p =
     (let cExt = or_else (ti_contentExt old) (contentExt p); oExt = or_else (ti_outputExt old) (outputExt p)
      in \<lparr>ti_name = newName, ti_title = moved_title old newName,
          ti_output = named_path (outputDir p) newName oExt oExt, ti_content = named_path (contentDir p) newName cExt cExt,
          ti_template = ti_template old, ti_contentExt = ti_contentExt old, ti_outputExt = ti_outputExt old, ti_scriptExt = []\<rparr>)"

definition new_name_refused :: "string \<Rightarrow> string \<Rightarrow> project_v1 \<Rightarrow> refusal option" where
  "new_name_refused oldName newName p =
     (if newName = [] then Some Empty_field
      else if both_quotes newName then Some Both_quotes
      else if \<not> tracking oldName p then Some Not_tracked
      else if tracking newName p then Some Tracked_already
      else None)"

definition paths_taken :: "tracked_info \<Rightarrow> disk \<Rightarrow> bool" where
  "paths_taken i d \<longleftrightarrow> path_exists_v1 (path_str (ti_content i)) d \<or> path_exists_v1 (path_str (ti_output i)) d"

definition mv :: "string \<Rightarrow> string \<Rightarrow> project_v1 \<Rightarrow> track_outcome \<times> project_v1" where
  "mv oldName newName p =
     (case new_name_refused oldName newName p of
        Some r \<Rightarrow> (Refused r, p)
      | None \<Rightarrow>
          (let old = get_info oldName p; new = mv_info old newName p
           in if paths_taken new (p1_disk p) then (Refused Path_taken, p)
              else case rename_v1 (path_str (ti_content old)) (path_str (ti_content new))
                          (ensureDirExists (ti_content new) (p1_disk p)) of
                     (False, d) \<Rightarrow> (Refused Not_moved, p\<lparr>p1_disk := d\<rparr>)
                   | (True, d) \<Rightarrow>
                       (Done, save_tracking
                         (p\<lparr>p1_disk := remove_if_file (ti_output old) (remove_if_file (getInfoPath (ti_output old))
                                         (snd (remove_path_v1 (ti_content old) d))),
                            trackedAll := set_insert new (set_erase (info_key old) (trackedAll p))\<rparr>))))"

definition cp :: "string \<Rightarrow> string \<Rightarrow> project_v1 \<Rightarrow> track_outcome \<times> project_v1" where
  "cp trackedName newName p =
     (case new_name_refused trackedName newName p of
        Some r \<Rightarrow> (Refused r, p)
      | None \<Rightarrow>
          (let old = get_info trackedName p; new = cp_info old newName p
           in if paths_taken new (p1_disk p) then (Refused Path_taken, p)
              else case cpFile (path_str (ti_content old)) (path_str (ti_content new)) (p1_disk p) of
                     (True, d) \<Rightarrow> (Refused Not_copied, p\<lparr>p1_disk := d\<rparr>)
                   | (False, d) \<Rightarrow> (Done, save_tracking (p\<lparr>p1_disk := d, trackedAll := set_insert new (trackedAll p)\<rparr>))))"

section \<open>The set of tracked pages\<close>

text \<open>What the operations ask of \<open>std::set\<close>: a lookup after an insertion and after an erasure, and that sets with
  the same lookups are the same.\<close>

locale keyed_set =
  fixes key :: "'a \<Rightarrow> 'k" and look :: "'k \<Rightarrow> 's \<Rightarrow> 'a option" and ins :: "'a \<Rightarrow> 's \<Rightarrow> 's" and era :: "'k \<Rightarrow> 's \<Rightarrow> 's"
    and ok :: "'s \<Rightarrow> bool"
  assumes look_ins: "ok s \<Longrightarrow> look k (ins x s) = (if k = key x \<and> look k s = None then Some x else look k s)"
    and look_era: "ok s \<Longrightarrow> look k (era j s) = (if k = j then None else look k s)"
    and ok_ins: "ok s \<Longrightarrow> ok (ins x s)"
    and ok_era: "ok s \<Longrightarrow> ok (era j s)"
    and same_look: "ok s \<Longrightarrow> ok t \<Longrightarrow> (\<And>k. look k s = look k t) \<Longrightarrow> s = t"
begin

lemma erase_inserted: "ok s \<Longrightarrow> look (key x) s = None \<Longrightarrow> era (key x) (ins x s) = s"
  by (rule same_look) (simp_all add: look_ins look_era ok_ins ok_era)

lemma insert_present: "ok s \<Longrightarrow> look (key x) s \<noteq> None \<Longrightarrow> ins x s = s"
  by (rule same_look) (auto simp: look_ins ok_ins)

lemma erase_absent: "ok s \<Longrightarrow> look j s = None \<Longrightarrow> era j s = s"
  by (rule same_look) (auto simp: look_era ok_era)

lemma insert_commute: "ok s \<Longrightarrow> key x \<noteq> key y \<Longrightarrow> ins x (ins y s) = ins y (ins x s)"
  by (rule same_look) (auto simp: look_ins ok_ins)

lemma replace_look: "ok s \<Longrightarrow> key y = j \<Longrightarrow> look k (ins y (era j s)) = (if k = j then Some y else look k s)"
  by (simp add: look_ins look_era ok_era)

end

lemma set_find_None: "set_find k is = None \<longleftrightarrow> k \<notin> info_key ` set is"
  by (induction "is") auto

lemma set_find_Some: "set_find k is = Some i \<Longrightarrow> i \<in> set is \<and> info_key i = k"
  by (induction "is") (auto split: if_splits)

lemma sorted_infos_Cons: "sorted_infos (i # is) \<longleftrightarrow> (\<forall>j\<in>set is. info_key i < info_key j) \<and> sorted_infos is"
  by (simp add: sorted_infos_def)

lemma set_insert_subset: "set (set_insert x is) \<subseteq> insert x (set is)"
  by (induction "is") auto

lemma sorted_set_insert: "sorted_infos is \<Longrightarrow> sorted_infos (set_insert x is)"
proof (induction "is")
  case (Cons i "is")
  then have s: "sorted_infos is" "\<forall>j\<in>set is. info_key i < info_key j" by (simp_all add: sorted_infos_Cons)
  consider "info_key x < info_key i" | "info_key x = info_key i" | "info_key i < info_key x" by (meson linorder_less_linear)
  then show ?case
  proof cases
    case 1
    with Cons.prems s show ?thesis by (auto simp: sorted_infos_Cons intro: less_trans)
  next
    case 2
    with Cons.prems show ?thesis by simp
  next
    case 3
    with s Cons.IH set_insert_subset [of x "is"] show ?thesis by (auto simp: sorted_infos_Cons)
  qed
qed (simp add: sorted_infos_def)

lemma set_find_insert:
  "sorted_infos is \<Longrightarrow> set_find k (set_insert x is) = (if k = info_key x \<and> set_find k is = None then Some x else set_find k is)"
proof (induction "is")
  case (Cons i "is")
  then have s: "sorted_infos is" "\<forall>j\<in>set is. info_key i < info_key j" by (simp_all add: sorted_infos_Cons)
  consider "info_key x < info_key i" | "info_key x = info_key i" | "info_key i < info_key x" by (meson linorder_less_linear)
  then show ?case
  proof cases
    case 1
    with s have "set_find (info_key x) (i # is) = None" unfolding set_find_None by (auto dest: less_trans)
    with 1 show ?thesis by auto
  next
    case 3
    with Cons.IH s show ?thesis by auto
  qed simp
qed simp

lemma set_find_erase: "set_find k (set_erase j is) = (if k = j then None else set_find k is)"
  by (induction "is") (auto simp: set_erase_def)

lemma sorted_set_erase: "sorted_infos is \<Longrightarrow> sorted_infos (set_erase j is)"
  by (induction "is") (auto simp: set_erase_def sorted_infos_def)

lemma sorted_same_find: "sorted_infos s \<Longrightarrow> sorted_infos t \<Longrightarrow> (\<And>k. set_find k s = set_find k t) \<Longrightarrow> s = t"
proof (induction s arbitrary: t)
  case Nil
  then have "set_find k t = None" for k by (metis set_find.simps(1))
  then show ?case unfolding set_find_None by (metis ex_in_conv imageI set_empty)
next
  case (Cons i s)
  note si = Cons.prems(1)[unfolded sorted_infos_Cons]
  have fi: "set_find (info_key i) t = Some i" using Cons.prems(3) [of "info_key i"] by simp
  then obtain j u where t: "t = j # u" by (cases t) auto
  note sj = Cons.prems(2)[unfolded t sorted_infos_Cons]
  have fj: "set_find (info_key j) (i # s) = Some j" using Cons.prems(3) [of "info_key j"] t by simp
  have "info_key i = info_key j"
  proof (rule ccontr)
    assume ne: "info_key i \<noteq> info_key j"
    with fi t have "set_find (info_key i) u = Some i" by (auto split: if_splits)
    then have "info_key j < info_key i" using sj set_find_Some by blast
    moreover from fj ne have "set_find (info_key j) s = Some j" by (auto split: if_splits)
    then have "info_key i < info_key j" using si set_find_Some by blast
    ultimately show False by simp
  qed
  with fj have ij: "i = j" by simp
  have "set_find k s = set_find k u" for k
  proof (cases "k = info_key i")
    case True
    have "k \<notin> info_key ` set s" using si True by auto
    moreover have "k \<notin> info_key ` set u" using sj True ij by auto
    ultimately show ?thesis by (metis set_find_None)
  next
    case False
    with Cons.prems(3) [of k] t ij show ?thesis by simp
  qed
  with Cons.IH [of u] si sj show ?case using t ij by blast
qed

interpretation pages: keyed_set info_key set_find set_insert set_erase sorted_infos
  by unfold_locales (simp_all add: set_find_insert set_find_erase sorted_set_insert sorted_set_erase sorted_same_find)

section \<open>The tracked pages stay a set\<close>

lemma trackedAll_save [simp]: "trackedAll (save_tracking p) = trackedAll p"
  by (simp add: save_tracking_def)

lemma sorted_infos_distinct: "sorted_infos is \<Longrightarrow> distinct (map info_key is)"
  by (induction "is") (auto simp: sorted_infos_Cons)

lemma sorted_add_page: "sorted_infos (trackedAll p) \<Longrightarrow> sorted_infos (trackedAll (add_page i p))"
  by (simp add: add_page_def sorted_set_insert)

lemma sorted_erase_page: "sorted_infos (trackedAll p) \<Longrightarrow> sorted_infos (trackedAll (erase_page files i p))"
  by (simp add: erase_page_def sorted_set_erase)

lemma fold_keeps: "(\<And>x p. P p \<Longrightarrow> P (f x p)) \<Longrightarrow> P p \<Longrightarrow> P (fold f xs p)"
  by (induction xs arbitrary: p) auto

lemma sorted_track_list: "sorted_infos (trackedAll p) \<Longrightarrow> sorted_infos (trackedAll (snd (track_list ts p)))"
  by (auto simp: track_list_def split: option.split intro!: fold_keeps [where P = "\<lambda>p. sorted_infos (trackedAll p)"] sorted_add_page)

lemma sorted_add_pages: "sorted_infos (trackedAll p) \<Longrightarrow> sorted_infos (trackedAll (snd (add_pages is p)))"
proof (induction "is" arbitrary: p)
  case (Cons i "is")
  have "sorted_infos (trackedAll (snd (add_pages is (add_page i (p\<lparr>p1_disk := d\<rparr>)))))" for d
    using Cons.prems by (intro Cons.IH sorted_add_page) simp
  with Cons.prems show ?case by (simp add: Let_def split: option.split)
qed simp

lemma sorted_erase_names: "sorted_infos (trackedAll p) \<Longrightarrow> sorted_infos (trackedAll (snd (erase_names files ns p)))"
  by (auto simp: erase_names_def intro!: fold_keeps [where P = "\<lambda>p. sorted_infos (trackedAll p)"] sorted_erase_page)

lemma sorted_erase_from_file: "sorted_infos (trackedAll p) \<Longrightarrow> sorted_infos (trackedAll (snd (erase_from_file files f p)))"
  by (auto simp: erase_from_file_def split: file_lines.split
      intro!: fold_keeps [where P = "\<lambda>p. sorted_infos (trackedAll p)"] sorted_erase_page)

lemma sorted_track_from_file: "sorted_infos (trackedAll p) \<Longrightarrow> sorted_infos (trackedAll (snd (track_from_file f p)))"
  using sorted_add_pages [of p] by (auto simp: track_from_file_def split: file_lines.split prod.split bool.split) (metis snd_conv)+

text \<open>Every operation on the tracked pages keeps them a set: in the order of their quoted names, none of
  them twice.\<close>

lemma tracked_set:
  assumes "sorted_infos (trackedAll p)"
    and "p' \<in> {snd (track n t tpl p), snd (track_exts n t tpl c o' p), snd (track_list ts p), snd (track_from_file f p),
      snd (track_dir dir c tpl o' p), snd (untrack n p), snd (untrack_list ns p), snd (untrack_from_file f p),
      snd (untrack_dir dir c p), snd (rm n p), snd (rm_list ns p), snd (rm_from_file f p), snd (rm_dir dir c p),
      snd (mv n m p), snd (cp n m p)}"
  shows "sorted_infos (trackedAll p') \<and> distinct (map info_key (trackedAll p'))"
proof -
  note s = assms(1)
  have "sorted_infos (trackedAll (snd (track n t tpl p)))"
    using s by (auto simp: track_def Let_def sorted_add_page split: option.split)
  moreover have "sorted_infos (trackedAll (snd (track_exts n t tpl c o' p)))"
    using s by (auto simp: track_exts_def sorted_add_page split: option.split)
  moreover have "sorted_infos (trackedAll (snd (track_dir dir c tpl o' p)))"
    using s by (auto simp: track_dir_def Let_def sorted_track_list split: option.split)
  moreover have "sorted_infos (trackedAll (snd (erase_name files n p)))" for files
    using s by (auto simp: erase_name_def sorted_erase_page)
  moreover have "sorted_infos (trackedAll (snd (erase_dir files dir c p)))" for files
    using s by (auto simp: erase_dir_def Let_def sorted_erase_names split: option.split)
  moreover have "sorted_infos (trackedAll (snd (mv n m p)))"
    using s by (auto simp: mv_def Let_def sorted_set_insert sorted_set_erase split: option.split prod.split bool.split)
  moreover have "sorted_infos (trackedAll (snd (cp n m p)))"
    using s by (auto simp: cp_def Let_def sorted_set_insert split: option.split prod.split bool.split)
  moreover note sorted_track_list [OF s] sorted_track_from_file [OF s] sorted_erase_names [OF s] sorted_erase_from_file [OF s]
  ultimately have p': "sorted_infos (trackedAll p')"
    using assms(2) unfolding untrack_def untrack_list_def untrack_from_file_def untrack_dir_def rm_def rm_list_def
      rm_from_file_def rm_dir_def by blast
  with sorted_infos_distinct show ?thesis by blast
qed

section \<open>What removing a page leaves\<close>

abbreviation (input) tracked_json :: disk_place where
  "tracked_json \<equiv> [''.nift'', ''tracked.json'']"

lemma node_tracked_json: "disk_node ''.nift/tracked.json'' = tracked_json"
  by code_simp

lemma disk_save: "q \<noteq> tracked_json \<Longrightarrow> on_disk (p1_disk (save_tracking p)) q = on_disk (p1_disk p) q"
  by (simp add: save_tracking_def write_to_other node_tracked_json)

definition file_nodes :: "path_v1 list \<Rightarrow> disk_place set" where
  "file_nodes ps = (\<lambda>p. disk_node (path_str p)) ` set ps"

lemma remove_if_file_other:
  "on_disk d q = Some (File c) \<Longrightarrow> q \<noteq> disk_node (path_str p) \<Longrightarrow> on_disk (remove_if_file p d) q = Some (File c)"
  by (simp add: remove_if_file_def remove_path_file)

lemma remove_if_file_less: "on_disk (remove_if_file p d) q = Some x \<Longrightarrow> on_disk d q = Some x"
  by (auto simp: remove_if_file_def dest: remove_path_less split: if_splits)

lemma remove_files_other:
  "on_disk d q = Some (File c) \<Longrightarrow> q \<notin> file_nodes ps \<Longrightarrow> on_disk (fold remove_if_file ps d) q = Some (File c)"
  by (induction ps arbitrary: d) (auto simp: file_nodes_def remove_if_file_other)

lemma remove_files_less: "on_disk (fold remove_if_file ps d) q = Some x \<Longrightarrow> on_disk d q = Some x"
  by (induction ps arbitrary: d) (auto dest: remove_if_file_less)

lemma dk_deny_prune: "dk_deny (prune_dirs dir d) = dk_deny d"
proof (induction dir d rule: prune_dirs.induct)
  case (1 dir d)
  obtain ok e where r: "rmdir dir d = (ok, e)" by fastforce
  then have e: "dk_deny e = dk_deny d" by (auto simp: rmdir_def split: if_splits)
  show ?case
  proof (cases "dir = [] \<or> dir \<in> set [''/'', ''C:'', ''C:'' @ [CHR 0x5C], ''C:/'', ''./''] \<or> \<not> ok \<or>
      find_idx is_slash (rev dir) = None")
    case True
    then have "prune_dirs dir d \<in> {d, e}"
      using r by (subst prune_dirs.simps) (auto split: bool.splits option.splits)
    then show ?thesis using e by auto
  next
    case False
    then obtain i where i: "find_idx is_slash (rev dir) = Some i" by blast
    have eq: "prune_dirs dir d = prune_dirs (take (length dir - Suc i) dir) e"
      using False r i by (subst prune_dirs.simps) simp
    have "dk_deny (prune_dirs (take (length dir - Suc i) dir) e) = dk_deny e"
      using False r i by (intro "1.IH" [OF _ r [symmetric]]) auto
    with e eq show ?thesis by simp
  qed
qed

lemma dk_deny_remove_if_file [simp]: "dk_deny (remove_if_file p d) = dk_deny d"
  by (auto simp: remove_if_file_def remove_path_v1_def remove_file_v1_def remove_v1_def rmdir_def dk_deny_prune
      split: prod.split bool.split option.split fs_entry.split)

lemma remove_if_file_gone:
  assumes "p1_file p \<noteq> []" "\<not> dk_deny d (disk_node (path_str p))"
  shows "\<not> file_exists_v1 (path_str p) (remove_if_file p d)"
proof (cases "file_exists_v1 (path_str p) d")
  case True
  then obtain c where "stat (path_str p) d = Some (File c)"
    by (auto simp: file_exists_v1_def split: option.splits fs_entry.splits)
  from remove_path_gone [OF this assms] True show ?thesis
    by (simp add: remove_if_file_def file_exists_v1_def stat_def)
next
  case False
  then show ?thesis by (simp add: remove_if_file_def)
qed

lemma file_exists_less:
  "(\<And>q x. on_disk e q = Some x \<Longrightarrow> on_disk d q = Some x) \<Longrightarrow> file_exists_v1 f e \<Longrightarrow> file_exists_v1 f d"
  unfolding file_exists_v1_def stat_def by (cases "on_disk e (disk_node f)") (auto split: option.splits fs_entry.splits if_splits)

lemma file_exists_same:
  "on_disk e (disk_node (path_str f)) = on_disk d (disk_node (path_str f)) \<Longrightarrow> file_exists_v1 (path_str f) e = file_exists_v1 (path_str f) d"
  by (simp add: file_exists_v1_def stat_def)

lemma remove_files_gone:
  "f \<in> set ps \<Longrightarrow> p1_file f \<noteq> [] \<Longrightarrow> \<not> dk_deny d (disk_node (path_str f)) \<Longrightarrow>
   \<not> file_exists_v1 (path_str f) (fold remove_if_file ps d)"
proof (induction ps arbitrary: d)
  case (Cons g ps)
  show ?case
  proof (cases "f = g")
    case True
    with remove_if_file_gone [OF Cons.prems(2,3)] file_exists_less [OF remove_files_less] show ?thesis by auto
  next
    case False
    with Cons.prems Cons.IH [of "remove_if_file g d"] show ?thesis by simp
  qed
qed simp

lemma tracking_info: "tracking name p \<Longrightarrow> info_key (get_info name p) = quote_v1 name \<and> get_info name p \<in> set (trackedAll p)"
  using set_find_Some [of "quote_v1 name" "trackedAll p"] by (auto simp: tracking_def get_info_def)

text \<open>What erasing a page does to the set, and to the files: the page's go where the system lets them, all the others stay.\<close>

lemma erase_name_spec:
  assumes "erase_name files name p = (Done, p')"
  shows "trackedAll p' = set_erase (quote_v1 name) (trackedAll p)"
    and "on_disk (p1_disk p) q = Some (File c) \<Longrightarrow> q \<notin> insert tracked_json (file_nodes (files (get_info name p))) \<Longrightarrow>
      on_disk (p1_disk p') q = Some (File c)"
    and "f \<in> set (files (get_info name p)) \<Longrightarrow> p1_file f \<noteq> [] \<Longrightarrow> \<not> dk_deny (p1_disk p) (disk_node (path_str f)) \<Longrightarrow>
      disk_node (path_str f) \<noteq> tracked_json \<Longrightarrow> \<not> file_exists_v1 (path_str f) (p1_disk p')"
proof -
  from assms have t: "tracking name p" and p': "p' = save_tracking (erase_page files (get_info name p) p)"
    by (auto simp: erase_name_def split: if_splits)
  show "trackedAll p' = set_erase (quote_v1 name) (trackedAll p)"
    using tracking_info [OF t] by (simp add: p' erase_page_def)
  show "on_disk (p1_disk p') q = Some (File c)"
    if "on_disk (p1_disk p) q = Some (File c)" "q \<notin> insert tracked_json (file_nodes (files (get_info name p)))"
    using that by (simp add: p' disk_save erase_page_def remove_files_other)
  show "\<not> file_exists_v1 (path_str f) (p1_disk p')"
    if "f \<in> set (files (get_info name p))" "p1_file f \<noteq> []" "\<not> dk_deny (p1_disk p) (disk_node (path_str f))" "disk_node (path_str f) \<noteq> tracked_json"
    using remove_files_gone [OF that(1-3)] file_exists_same [of "p1_disk p'" f "fold remove_if_file (files (get_info name p)) (p1_disk p)"] that(4)
    by (simp add: p' disk_save erase_page_def)
qed

text \<open>An extension replaces the extension before it.\<close>

lemma stripped_ext: "CHR ''.'' \<notin> set w \<Longrightarrow> strippedExtension (x @ CHR ''.'' # w) = x"
  by (simp add: strippedExtension_def find_last_def takeWhile_append)

lemma with_ext_twice: "CHR ''.'' \<notin> set w \<Longrightarrow> with_ext (with_ext p (CHR ''.'' # w)) e = with_ext p e"
  by (simp add: with_ext_def stripped_ext)

lemma untrack_files_named:
  "untrack_files i =
     (let info = getInfoPath (ti_output i)
      in [with_ext info ''.contExt'', with_ext info ''.outputExt'', with_ext info ''.scriptExt'', info, ti_output i])"
  by (simp add: untrack_files_def ext_path_def with_ext_twice Let_def)

text \<open>C22: Untracking removes a page's products and nothing of the user's.  When \<open>untrack\<close> succeeds, the page was tracked, and
  the set has lost it and no other.  The page's output file, its information file, and the three extension
  files beside that one, \<open>.contExt\<close>, \<open>.outputExt\<close> and \<open>.scriptExt\<close>, are gone, where they have a name, may be removed
  and are not the list of pages itself.  Every other file stays as it is, except that list, which
  is written anew; so the page's content file stays, unless it is one of these five.\<close>

theorem untrack_spec:
  assumes "untrack name p = (Done, p')" "i = get_info name p" "info = getInfoPath (ti_output i)"
    and "gone = [ti_output i, info, with_ext info ''.contExt'', with_ext info ''.outputExt'', with_ext info ''.scriptExt'']"
  shows "tracking name p \<and> trackedAll p' = filter (\<lambda>j. info_key j \<noteq> quote_v1 name) (trackedAll p) \<and>
    (\<forall>f\<in>set gone. p1_file f \<noteq> [] \<and> \<not> dk_deny (p1_disk p) (disk_node (path_str f)) \<and> disk_node (path_str f) \<noteq> tracked_json \<longrightarrow>
       \<not> file_exists_v1 (path_str f) (p1_disk p')) \<and>
    (\<forall>q c. on_disk (p1_disk p) q = Some (File c) \<longrightarrow> q \<noteq> tracked_json \<longrightarrow> (\<forall>f\<in>set gone. q \<noteq> disk_node (path_str f)) \<longrightarrow>
       on_disk (p1_disk p') q = Some (File c))"
proof -
  have g: "set (untrack_files i) = set gone" unfolding untrack_files_named Let_def assms(3) [symmetric] assms(4) by auto
  have nodes: "q \<notin> insert tracked_json (file_nodes (untrack_files i)) \<longleftrightarrow> q \<noteq> tracked_json \<and> (\<forall>f\<in>set gone. q \<noteq> disk_node (path_str f))" for q
    by (auto simp: file_nodes_def g)
  note e = erase_name_spec [OF assms(1) [unfolded untrack_def], folded assms(2), unfolded g nodes]
  have "tracking name p" using assms(1) by (auto simp: untrack_def erase_name_def split: if_splits)
  moreover have "trackedAll p' = filter (\<lambda>j. info_key j \<noteq> quote_v1 name) (trackedAll p)" using e(1) by (simp add: set_erase_def)
  ultimately show ?thesis using e(2,3) by blast
qed

lemma rm_spec:
  assumes "rm name p = (Done, p')"
  shows "trackedAll p' = set_erase (quote_v1 name) (trackedAll p)"
    and "p1_file (ti_content (get_info name p)) \<noteq> [] \<Longrightarrow>
      \<not> dk_deny (p1_disk p) (disk_node (path_str (ti_content (get_info name p)))) \<Longrightarrow>
      disk_node (path_str (ti_content (get_info name p))) \<noteq> tracked_json \<Longrightarrow>
      \<not> file_exists_v1 (path_str (ti_content (get_info name p))) (p1_disk p')"
    and "on_disk (p1_disk p) q = Some (File c) \<Longrightarrow>
      q \<notin> insert tracked_json (file_nodes (rm_files (get_info name p))) \<Longrightarrow> on_disk (p1_disk p') q = Some (File c)"
  using erase_name_spec [OF assms [unfolded rm_def]] by (blast, simp add: rm_files_def, blast)

section \<open>Tracking a page and untracking it\<close>

lemma track_result:
  assumes "track name title tpl p = (Done, p')"
  shows "trackedAll p' = set_insert (make_info_template name title tpl p) (trackedAll p)" "\<not> tracking name p"
proof -
  have n: "ti_name (make_info_template name title tpl p) = name" by (simp add: make_info_template_def make_info_def Let_def)
  have r: "page_refused (make_info_template name title tpl p) p = None"
    and p': "p' = save_tracking (add_page (make_info_template name title tpl p) p)"
    using assms by (auto simp: track_def Let_def split: if_splits option.splits)
  show "trackedAll p' = set_insert (make_info_template name title tpl p) (trackedAll p)" by (simp add: p' add_page_def)
  show "\<not> tracking name p" using r n by (auto simp: page_refused_def split: if_splits)
qed

text \<open>A page that has been tracked is found with its information, every other page is found as before, and
  untracking the page again gives the set of before.\<close>

lemma track_untrack:
  assumes "sorted_infos (trackedAll p)" "track name title tpl p = (Done, p')"
  shows "get_info name p' = make_info_template name title tpl p \<and>
    (\<forall>m. quote_v1 m \<noteq> quote_v1 name \<longrightarrow> get_info m p' = get_info m p) \<and>
    fst (untrack name p') = Done \<and> trackedAll (snd (untrack name p')) = trackedAll p"
proof -
  let ?i = "make_info_template name title tpl p"
  have k: "info_key ?i = quote_v1 name" by (simp add: info_key_def make_info_template_def make_info_def Let_def)
  note t = track_result [OF assms(2)]
  have new: "set_find (info_key ?i) (trackedAll p) = None" using t(2) k by (simp add: tracking_def)
  have look: "set_find l (trackedAll p') = (if l = info_key ?i then Some ?i else set_find l (trackedAll p))" for l
    using pages.look_ins [OF assms(1)] new by (simp add: t(1))
  then have tr: "tracking name p'" "get_info name p' = ?i" using k by (simp_all add: tracking_def get_info_def)
  then have u: "fst (untrack name p') = Done" by (simp add: untrack_def erase_name_def)
  then have "untrack name p' = (Done, snd (untrack name p'))" by (metis prod.collapse)
  from erase_name_spec(1) [OF this [unfolded untrack_def]] have "trackedAll (snd (untrack name p')) = set_erase (quote_v1 name) (trackedAll p')"
    by (simp add: untrack_def)
  also have "\<dots> = trackedAll p" using pages.erase_inserted [OF assms(1) new] k t(1) by simp
  finally show ?thesis using tr(2) u look k by (simp add: get_info_def)
qed

section \<open>Moving a page\<close>

lemma rename_file_result:
  assumes "rename_v1 a b d = (True, d')" "stat a d = Some (File c)" "disk_node a \<noteq> disk_node b"
  shows "on_disk d' (disk_node b) = Some (File c)" "q \<notin> {disk_node a, disk_node b} \<Longrightarrow> on_disk d' q = on_disk d q"
    "on_disk d' (disk_node a) = None"
proof -
  have a: "disk_node a \<noteq> []" using assms(2) by (auto simp: stat_File)
  have b: "disk_node b \<noteq> []" using assms(1,2) by (auto simp: rename_v1_def stat_def split: if_splits)
  have d': "d' = put (disk_node b) (File c) (drop_node (disk_node a) d)"
    using assms by (auto simp: rename_v1_def split: if_splits)
  show "on_disk d' (disk_node b) = Some (File c)" "q \<notin> {disk_node a, disk_node b} \<Longrightarrow> on_disk d' q = on_disk d q"
    "on_disk d' (disk_node a) = None"
    using a b assms(3) by (simp_all add: d')
qed

lemma mv_result:
  assumes "mv oldName newName p = (Done, p')"
  obtains d where "new_name_refused oldName newName p = None" "\<not> paths_taken (mv_info (get_info oldName p) newName p) (p1_disk p)"
    "rename_v1 (path_str (ti_content (get_info oldName p))) (path_str (ti_content (mv_info (get_info oldName p) newName p)))
      (ensureDirExists (ti_content (mv_info (get_info oldName p) newName p)) (p1_disk p)) = (True, d)"
    "p' = save_tracking (p\<lparr>p1_disk := remove_if_file (ti_output (get_info oldName p)) (remove_if_file (getInfoPath (ti_output (get_info oldName p)))
                                         (snd (remove_path_v1 (ti_content (get_info oldName p)) d))),
                            trackedAll := set_insert (mv_info (get_info oldName p) newName p) (set_erase (info_key (get_info oldName p)) (trackedAll p))\<rparr>)"
  using assms by (auto simp: mv_def Let_def split: option.splits if_splits prod.splits bool.splits)

text \<open>C23: Moving a page.  When \<open>mv\<close> succeeds for a page whose content file exists, the page is tracked under its new name only,
  with the paths of that name, every other page is found as before, and the content is in the new place and no
  longer in the old one.  Every file but the old and the new content, the old output, the old information and the
  list of pages stays as it is.
  This is for a new content path that is neither the old output file nor the old information file nor the list of
  pages: \<open>mv\<close> removes the first two after the move, and writes the third (\<open>mv_loses_content\<close> below shows the loss).\<close>

theorem mv_moves:
  assumes "sorted_infos (trackedAll p)" "mv oldName newName p = (Done, p')"
    and "stat (path_str (ti_content (get_info oldName p))) (p1_disk p) = Some (File c)"
    and "disk_node (path_str (ti_content (mv_info (get_info oldName p) newName p))) \<notin>
      {disk_node (path_str (ti_output (get_info oldName p))), disk_node (path_str (getInfoPath (ti_output (get_info oldName p)))), tracked_json}"
  shows "\<not> tracking oldName p' \<and> get_info newName p' = mv_info (get_info oldName p) newName p \<and>
    (\<forall>m. quote_v1 m \<notin> {quote_v1 oldName, quote_v1 newName} \<longrightarrow> get_info m p' = get_info m p) \<and>
    on_disk (p1_disk p') (disk_node (path_str (ti_content (mv_info (get_info oldName p) newName p)))) = Some (File c) \<and>
    (disk_node (path_str (ti_content (get_info oldName p))) \<noteq> tracked_json \<longrightarrow>
       on_disk (p1_disk p') (disk_node (path_str (ti_content (get_info oldName p)))) = None) \<and>
    (\<forall>q b. on_disk (p1_disk p) q = Some (File b) \<longrightarrow>
       q \<notin> {disk_node (path_str (ti_content (get_info oldName p))), disk_node (path_str (ti_content (mv_info (get_info oldName p) newName p))),
         disk_node (path_str (ti_output (get_info oldName p))), disk_node (path_str (getInfoPath (ti_output (get_info oldName p)))), tracked_json} \<longrightarrow>
       on_disk (p1_disk p') q = Some (File b))"
proof -
  let ?o = "get_info oldName p" and ?n = "mv_info (get_info oldName p) newName p"
  let ?s = "path_str (ti_content ?o)" and ?t = "path_str (ti_content ?n)"
  let ?e = "ensureDirExists (ti_content ?n) (p1_disk p)"
  from mv_result [OF assms(2)] obtain d where
    r: "new_name_refused oldName newName p = None" "\<not> paths_taken ?n (p1_disk p)" "rename_v1 ?s ?t ?e = (True, d)"
    and p': "p' = save_tracking (p\<lparr>p1_disk := remove_if_file (ti_output ?o) (remove_if_file (getInfoPath (ti_output ?o))
        (snd (remove_path_v1 (ti_content ?o) d))), trackedAll := set_insert ?n (set_erase (info_key ?o) (trackedAll p))\<rparr>)" .
  from r(1) have t: "tracking oldName p" "\<not> tracking newName p" by (auto simp: new_name_refused_def split: if_splits)
  have k: "info_key ?o = quote_v1 oldName" using tracking_info [OF t(1)] by simp
  have kn: "info_key ?n = quote_v1 newName" by (simp add: info_key_def mv_info_def)
  have kne: "quote_v1 newName \<noteq> quote_v1 oldName" using t by (auto simp: tracking_def)
  have look: "set_find l (trackedAll p') = (if l = info_key ?n then Some ?n else if l = info_key ?o then None else set_find l (trackedAll p))" for l
    using pages.look_ins [OF sorted_set_erase [OF assms(1)]] set_find_erase t(2) kn kne k by (auto simp: p' tracking_def)
  have "on_disk (p1_disk p) (disk_node ?t) \<noteq> Some (File c)" if "disk_node ?t = disk_node ?s"
  proof
    assume f: "on_disk (p1_disk p) (disk_node ?t) = Some (File c)"
    have "stat ?s ?e = Some (File c)" using assms(3) dirs_made_file [OF ensureDirExists_made] by (simp add: stat_File)
    with r(3) have "\<not> spells_dir ?t" "?t \<noteq> []" by (auto simp: rename_v1_def split: if_splits)
    then show False using r(2) f by (simp add: paths_taken_def path_exists_v1_def stat_def)
  qed
  then have ne: "disk_node ?s \<noteq> disk_node ?t" using assms(3) by (auto simp: stat_File)
  have "stat ?s ?e = Some (File c)" using assms(3) dirs_made_file [OF ensureDirExists_made] by (simp add: stat_File)
  note moved = rename_file_result [OF r(3) this ne]
  have kept: "on_disk (p1_disk p') q = Some (File b)" if "on_disk (p1_disk p) q = Some (File b)"
    "q \<notin> {disk_node ?s, disk_node ?t, disk_node (path_str (ti_output ?o)), disk_node (path_str (getInfoPath (ti_output ?o))), tracked_json}" for q b
  proof -
    have "on_disk d q = Some (File b)" using moved(2) [of q] that dirs_made_file [OF ensureDirExists_made] by simp
    with that(2) show ?thesis by (simp add: p' disk_save remove_if_file_other remove_path_file)
  qed
  have left: "on_disk (p1_disk p') (disk_node ?s) = None" if "disk_node ?s \<noteq> tracked_json"
  proof (rule ccontr)
    assume "on_disk (p1_disk p') (disk_node ?s) \<noteq> None"
    with that have "on_disk d (disk_node ?s) \<noteq> None" by (auto simp: p' disk_save dest!: remove_if_file_less remove_path_less)
    with moved(3) show False by simp
  qed
  from moved(1) have "on_disk d (disk_node ?t) = Some (File c)" .
  then have "on_disk (snd (remove_path_v1 (ti_content ?o) d)) (disk_node ?t) = Some (File c)" using ne by (metis remove_path_file)
  then have "on_disk (p1_disk p') (disk_node ?t) = Some (File c)"
    using assms(4) by (simp add: p' disk_save remove_if_file_other)
  with look k kn kne have "\<not> tracking oldName p' \<and> get_info newName p' = ?n \<and>
      (\<forall>m. quote_v1 m \<notin> {quote_v1 oldName, quote_v1 newName} \<longrightarrow> get_info m p' = get_info m p) \<and>
      on_disk (p1_disk p') (disk_node ?t) = Some (File c)"
    by (simp add: tracking_def get_info_def)
  with kept left show ?thesis by blast
qed

section \<open>A small project\<close>

definition small_project :: project_v1 where
  "small_project =
     \<lparr>contentDir = ''c/'', outputDir = ''o/'', contentExt = ''.t'', outputExt = ''.h'', scriptExt = ''.f'',
      defaultTemplate = path_from ''p'',
      trackedAll = [make_info ''a'' ''a'' (path_from ''p'') ''c/'' ''o/'' ''.t'' ''.h''],
      p1_disk = \<lparr>dk_tree = [([''.nift''], Dir), ([''p''], File ''T''), ([''c''], Dir), ([''c'', ''a.t''], File ''x''),
        ([''c'', ''d''], Dir), ([''c'', ''d'', ''e.t''], File ''z''), ([''o''], Dir),
        ([''o'', ''a.h''], File ''y'')], dk_deny = (\<lambda>n. False), dk_unreadable = (\<lambda>n. False)\<rparr>\<rparr>"

lemma small_project_set: "sorted_infos (trackedAll small_project)"
  by (simp add: small_project_def sorted_infos_def)

lemma tracked_set_witness: "sorted_infos (trackedAll (snd (mv ''a'' ''b'' small_project)))"
proof -
  have "snd (mv ''a'' ''b'' small_project) \<in> {snd (track ''a'' t tpl small_project), snd (track_exts ''a'' t tpl c o' small_project),
      snd (track_list ts small_project), snd (track_from_file f small_project), snd (track_dir dir c tpl o' small_project),
      snd (untrack ''a'' small_project), snd (untrack_list ns small_project), snd (untrack_from_file f small_project),
      snd (untrack_dir dir c small_project), snd (rm ''a'' small_project), snd (rm_list ns small_project),
      snd (rm_from_file f small_project), snd (rm_dir dir c small_project), snd (mv ''a'' ''b'' small_project),
      snd (cp ''a'' ''b'' small_project)}" for t tpl c o' ts f dir ns by blast
  from tracked_set [OF small_project_set this] show ?thesis by blast
qed

lemma untrack_spec_witness:
  "trackedAll (snd (untrack ''a'' small_project)) = [] \<and>
   on_disk (p1_disk (snd (untrack ''a'' small_project))) [''c'', ''a.t''] = Some (File ''x'') \<and>
   \<not> file_exists_v1 ''o/a.h'' (p1_disk (snd (untrack ''a'' small_project)))"
proof -
  let ?p = small_project and ?i = "get_info ''a'' small_project"
  have "fst (untrack ''a'' ?p) = Done" by code_simp
  then have "untrack ''a'' ?p = (Done, snd (untrack ''a'' ?p))" by (metis prod.collapse)
  note s = untrack_spec [OF this refl refl refl]
  have e: "filter (\<lambda>j. info_key j \<noteq> quote_v1 ''a'') (trackedAll ?p) = []" by code_simp
  have c: "on_disk (p1_disk ?p) [''c'', ''a.t''] = Some (File ''x'')" "[''c'', ''a.t''] \<noteq> tracked_json" by code_simp+
  have o: "p1_file (ti_output ?i) \<noteq> []" "disk_node (path_str (ti_output ?i)) \<noteq> tracked_json" "path_str (ti_output ?i) = ''o/a.h''" by code_simp+
  have d: "\<not> dk_deny (p1_disk ?p) q" for q by (simp add: small_project_def)
  have n: "\<forall>f\<in>set [ti_output ?i, getInfoPath (ti_output ?i), with_ext (getInfoPath (ti_output ?i)) ''.contExt'',
      with_ext (getInfoPath (ti_output ?i)) ''.outputExt'', with_ext (getInfoPath (ti_output ?i)) ''.scriptExt''].
      [''c'', ''a.t''] \<noteq> disk_node (path_str f)" by code_simp
  note gone = s [THEN conjunct2, THEN conjunct2, THEN conjunct1] and kept = s [THEN conjunct2, THEN conjunct2, THEN conjunct2]
  have "trackedAll (snd (untrack ''a'' ?p)) = []" using s [THEN conjunct2, THEN conjunct1] unfolding e .
  moreover have "on_disk (p1_disk (snd (untrack ''a'' ?p))) [''c'', ''a.t''] = Some (File ''x'')"
    by (rule kept [rule_format, OF c(1,2)]) (rule n [rule_format])
  moreover have "\<not> file_exists_v1 (path_str (ti_output ?i)) (p1_disk (snd (untrack ''a'' ?p)))"
    by (rule gone [rule_format]) (simp, intro conjI o(1,2) d)
  ultimately show ?thesis unfolding o(3) by (intro conjI)
qed

lemma track_untrack_witness:
  "fst (track ''b'' ''B'' (path_from ''p'') small_project) = Done \<and>
   trackedAll (snd (untrack ''b'' (snd (track ''b'' ''B'' (path_from ''p'') small_project)))) = trackedAll small_project"
proof -
  have d: "fst (track ''b'' ''B'' (path_from ''p'') small_project) = Done" by code_simp
  then have "track ''b'' ''B'' (path_from ''p'') small_project = (Done, snd (track ''b'' ''B'' (path_from ''p'') small_project))"
    by (metis prod.collapse)
  from track_untrack [OF small_project_set this] d show ?thesis by blast
qed

lemma mv_moves_witness:
  "fst (mv ''a'' ''d/b'' small_project) = Done \<and>
   on_disk (p1_disk (snd (mv ''a'' ''d/b'' small_project))) [''c'', ''d'', ''b.t''] = Some (File ''x'')"
proof -
  let ?n = "mv_info (get_info ''a'' small_project) ''d/b'' small_project"
  have d: "fst (mv ''a'' ''d/b'' small_project) = Done" by code_simp
  then have m: "mv ''a'' ''d/b'' small_project = (Done, snd (mv ''a'' ''d/b'' small_project))" by (metis prod.collapse)
  have n: "disk_node (path_str (ti_content ?n)) = [''c'', ''d'', ''b.t'']" by code_simp
  have c: "stat (path_str (ti_content (get_info ''a'' small_project))) (p1_disk small_project) = Some (File ''x'')" by code_simp
  have "disk_node (path_str (ti_content ?n)) \<notin> {disk_node (path_str (ti_output (get_info ''a'' small_project))),
    disk_node (path_str (getInfoPath (ti_output (get_info ''a'' small_project)))), tracked_json}" by code_simp
  from mv_moves [OF small_project_set m c this] d n show ?thesis by metis
qed

section \<open>Edge cases\<close>

text \<open>With no page the way back over the last comma eats the bracket that opens the list: the file is no JSON text.\<close>

lemma tracking_text_empty: "tracking_text [] = ''{'' @ [NL, CHR 0x09, DQ] @ ''tracked'' @ [DQ, CHR '':'', CHR '' '', NL, CHR 0x09, CHR '']'', NL, CHR ''}'']"
  by code_simp

text \<open>With the output directory below the content directory, and one extension, the content of a page that has not been
  built is moved to where its output would be, and then removed as the old output: it is lost, and \<open>mv\<close> reports success.\<close>

definition nested_project :: project_v1 where
  "nested_project = small_project\<lparr>outputDir := ''c/d/'', outputExt := ''.t'',
     trackedAll := [make_info ''a'' ''a'' (path_from ''p'') ''c/'' ''c/d/'' ''.t'' ''.t''],
     p1_disk := \<lparr>dk_tree = [([''.nift''], Dir), ([''p''], File ''T''), ([''c''], Dir), ([''c'', ''a.t''], File ''x'')],
       dk_deny = (\<lambda>n. False), dk_unreadable = (\<lambda>n. False)\<rparr>\<rparr>"

lemma mv_loses_content:
  "fst (mv ''a'' ''d/a'' nested_project) = Done"
  "on_disk (p1_disk (snd (mv ''a'' ''d/a'' nested_project))) [''c'', ''a.t''] = None"
  "on_disk (p1_disk (snd (mv ''a'' ''d/a'' nested_project))) [''c'', ''d'', ''a.t''] = None"
  by code_simp+

text \<open>Two names, one page: both can be tracked while none of them is built.\<close>

lemma two_names_one_page:
  "info_key (make_info_name ''d/'' small_project) \<noteq> info_key (make_info_name ''d/index'' small_project)"
  "ti_output (make_info_name ''d/'' small_project) = ti_output (make_info_name ''d/index'' small_project)"
  "ti_content (make_info_name ''d/'' small_project) = ti_content (make_info_name ''d/index'' small_project)"
  by code_simp+

lemma both_tracked:
  "case track ''d/'' ''D'' (path_from ''p'') small_project of (r, q) \<Rightarrow> (r, fst (track ''d/index'' ''D'' (path_from ''p'') q)) = (Done, Done)"
  by code_simp

text \<open>\<open>mv\<close> loses the page's script extension, and a directory that is moved with an extension of its own has no index.\<close>

lemma mv_script: "ti_scriptExt (mv_info i n p) = []"
  by (simp add: mv_info_def)

lemma mv_index:
  "p1_file (ti_content (mv_info ((make_info_name ''a'' small_project)\<lparr>ti_contentExt := ''.m''\<rparr>) ''d/'' small_project)) = ''.m''"
  "p1_file (ti_content (cp_info ((make_info_name ''a'' small_project)\<lparr>ti_contentExt := ''.m''\<rparr>) ''d/'' small_project)) = ''index.m''"
  by code_simp+

text \<open>A quoted new name goes into the paths with its quotation marks, where tracking takes them off.\<close>

lemma mv_quoted:
  "p1_file (ti_content (mv_info (make_info_name ''a'' small_project) [SQ, CHR ''b'', SQ] small_project)) = [SQ, CHR ''b'', SQ] @ ''.t''"
  "p1_file (ti_content (make_info_name [SQ, CHR ''b'', SQ] small_project)) = ''b.t''"
  by code_simp+

text \<open>The extensions of a page that is tracked from a file are not written to the list.\<close>

lemma track_from_file_exts:
  "case lines_to_track [''b b .m p .x''] small_project of
     Infos [i] \<Rightarrow> p1_file (ti_content i) = ''b.m'' \<and> ti_contentExt i = [] \<and> ti_outputExt i = [] | _ \<Rightarrow> False"
  by code_simp

text \<open>A directory that is given with \<open>./\<close> passes the check, and its names are cut in the wrong place.\<close>

lemma names_in_dot_dir:
  "dir_refused (path_from ''./c/d/'') small_project = None"
  "names_in_dir (path_from ''c/d/'') ''.t'' small_project = [''d/e'']"
  "names_in_dir (path_from ''./c/d/'') ''.t'' small_project = [''c/d/e'']"
  by code_simp+

end
