(* ===== verification/Nift1_Json.thy ===== *)
theory Nift1_Json
  imports Nift1_Tracking Nift_Json
begin

text \<open>
  Reading \<open>.nift/tracked.json\<close> back: \<open>open_tracking\<close> of \<open>legacy/ProjectInfo.cpp\<close>.  The JSON reader, which is a vendored
  library, is the parameter \<open>parse\<close>; what is asked of it is that it reads the texts of the JSON grammar, here the
  part of it without escapes, numbers and literals.  A small reader shows that the condition can be met.
\<close>

section \<open>JSON texts\<close>

definition json_ws :: "char \<Rightarrow> bool" where
  "json_ws c \<longleftrightarrow> c \<in> {CHR '' '', CHR 0x09, CHR 0x0A, CHR 0x0D}"

definition json_plain :: "string \<Rightarrow> bool" where
  "json_plain s \<longleftrightarrow> (\<forall>c\<in>set s. c \<noteq> DQ \<and> c \<noteq> CHR 0x5C \<and> \<not> byte c < 32)"

inductive json_text :: "json \<Rightarrow> string \<Rightarrow> bool" and json_elems :: "json list \<Rightarrow> string \<Rightarrow> bool"
    and json_members :: "(string \<times> json) list \<Rightarrow> string \<Rightarrow> bool" where
  JT_str: "json_plain s \<Longrightarrow> json_text (JStr s) ([DQ] @ s @ [DQ])"
| JT_arr0: "list_all json_ws w \<Longrightarrow> json_text (JArr []) (''['' @ w @ '']'')"
| JT_arr: "json_elems js t \<Longrightarrow> json_text (JArr js) (''['' @ t @ '']'')"
| JT_obj0: "list_all json_ws w \<Longrightarrow> json_text (JObj []) (''{'' @ w @ ''}'')"
| JT_obj: "json_members kvs t \<Longrightarrow> json_text (JObj kvs) (''{'' @ t @ ''}'')"
| JE_last: "list_all json_ws w \<Longrightarrow> json_text j t \<Longrightarrow> list_all json_ws w' \<Longrightarrow> json_elems [j] (w @ t @ w')"
| JE_more: "list_all json_ws w \<Longrightarrow> json_text j t \<Longrightarrow> list_all json_ws w' \<Longrightarrow> json_elems js u \<Longrightarrow>
    json_elems (j # js) (w @ t @ w' @ '','' @ u)"
| JM_last: "list_all json_ws w \<Longrightarrow> json_plain k \<Longrightarrow> list_all json_ws w1 \<Longrightarrow> list_all json_ws w2 \<Longrightarrow> json_text j t \<Longrightarrow>
    list_all json_ws w' \<Longrightarrow> json_members [(k, j)] (w @ [DQ] @ k @ [DQ] @ w1 @ '':'' @ w2 @ t @ w')"
| JM_more: "list_all json_ws w \<Longrightarrow> json_plain k \<Longrightarrow> list_all json_ws w1 \<Longrightarrow> list_all json_ws w2 \<Longrightarrow> json_text j t \<Longrightarrow>
    list_all json_ws w' \<Longrightarrow> json_members kvs u \<Longrightarrow>
    json_members ((k, j) # kvs) (w @ [DQ] @ k @ [DQ] @ w1 @ '':'' @ w2 @ t @ w' @ '','' @ u)"

definition reads_json :: "(string \<Rightarrow> json option) \<Rightarrow> bool" where
  "reads_json parse \<longleftrightarrow> (\<forall>j s. json_text j s \<longrightarrow> parse s = Some j)"

section \<open>A small reader\<close>

abbreviation (input) skip_ws :: "string \<Rightarrow> string" where "skip_ws \<equiv> dropWhile json_ws"

definition read_string :: "string \<Rightarrow> (string \<times> string) option" where
  "read_string r =
     (case dropWhile (\<lambda>c. c \<noteq> DQ) r of [] \<Rightarrow> None | c # rest \<Rightarrow> Some (takeWhile (\<lambda>c. c \<noteq> DQ) r, rest))"

fun read_value :: "nat \<Rightarrow> string \<Rightarrow> (json \<times> string) option" and read_elems :: "nat \<Rightarrow> string \<Rightarrow> (json list \<times> string) option"
    and read_members :: "nat \<Rightarrow> string \<Rightarrow> ((string \<times> json) list \<times> string) option" where
  "read_value 0 s = None"
| "read_value (Suc n) s =
     (case s of
        [] \<Rightarrow> None
      | c # r \<Rightarrow>
          if c = DQ then map_option (apfst JStr) (read_string r)
          else if c = CHR ''['' then
            (case skip_ws r of
               [] \<Rightarrow> None
             | d # t \<Rightarrow> if d = CHR '']'' then Some (JArr [], t) else map_option (apfst JArr) (read_elems n r))
          else if c = CHR ''{'' then
            (case skip_ws r of
               [] \<Rightarrow> None
             | d # t \<Rightarrow> if d = CHR ''}'' then Some (JObj [], t) else map_option (apfst JObj) (read_members n r))
          else None)"
| "read_elems 0 s = None"
| "read_elems (Suc n) s =
     (case read_value n (skip_ws s) of
        None \<Rightarrow> None
      | Some (j, r) \<Rightarrow>
          (case skip_ws r of
             [] \<Rightarrow> None
           | c # t \<Rightarrow> if c = CHR '']'' then Some ([j], t)
                      else if c = CHR '','' then map_option (apfst ((#) j)) (read_elems n t) else None))"
| "read_members 0 s = None"
| "read_members (Suc n) s =
     (case read_string (tl (skip_ws s)) of
        None \<Rightarrow> None
      | Some (k, r) \<Rightarrow>
          (case read_value n (skip_ws (tl (skip_ws r))) of
             None \<Rightarrow> None
           | Some (j, r) \<Rightarrow>
               (case skip_ws r of
                  [] \<Rightarrow> None
                | c # t \<Rightarrow> if c = CHR ''}'' then Some ([(k, j)], t)
                           else if c = CHR '','' then map_option (apfst ((#) (k, j))) (read_members n t) else None)))"

definition small_parse :: "string \<Rightarrow> json option" where
  "small_parse s = (case read_value (Suc (length s)) s of Some (j, r) \<Rightarrow> (if r = [] then Some j else None) | None \<Rightarrow> None)"

lemma skip_ws_all: "list_all json_ws w \<Longrightarrow> skip_ws (w @ s) = skip_ws s"
  by (induction w) auto

lemma skip_ws_stop: "\<not> json_ws c \<Longrightarrow> skip_ws (c # s) = c # s"
  by simp

lemma json_text_first:
  "json_text j s \<Longrightarrow> \<exists>c r. s = c # r \<and> \<not> json_ws c \<and> c \<noteq> CHR '']'' \<and> c \<noteq> CHR ''}''"
  by (erule json_text.cases) (auto simp: json_ws_def)

lemma json_elems_first:
  "json_elems js s \<Longrightarrow> \<exists>c r. skip_ws (s @ t) = c # r \<and> c \<noteq> CHR '']''"
proof (erule json_elems.cases)
  fix w j u w'
  assume "s = w @ u @ w'" "list_all json_ws w" "json_text j u"
  with json_text_first [of j u] show ?thesis by (auto simp: skip_ws_all)
next
  fix w j u w' js v
  assume "s = w @ u @ w' @ '','' @ v" "list_all json_ws w" "json_text j u"
  with json_text_first [of j u] show ?thesis by (auto simp: skip_ws_all)
qed

lemma json_members_first:
  "json_members kvs s \<Longrightarrow> \<exists>r. skip_ws (s @ t) = DQ # r"
  by (erule json_members.cases) (auto simp: skip_ws_all json_ws_def)

lemma read_string_plain: "json_plain k \<Longrightarrow> read_string (k @ DQ # r) = Some (k, r)"
proof -
  assume "json_plain k"
  then have k: "\<forall>c\<in>set k. c \<noteq> DQ" by (simp add: json_plain_def)
  then have "takeWhile (\<lambda>c. c \<noteq> DQ) (k @ DQ # r) = k" "dropWhile (\<lambda>c. c \<noteq> DQ) (k @ DQ # r) = DQ # r"
    by (simp_all add: takeWhile_append2)
  then show ?thesis by (simp add: read_string_def)
qed

lemma read_json:
  "json_text j s \<Longrightarrow> length s < n \<Longrightarrow> read_value n (s @ r) = Some (j, r)"
  "json_elems js s \<Longrightarrow> Suc (length s) < n \<Longrightarrow> read_elems n (s @ CHR '']'' # r) = Some (js, r)"
  "json_members kvs s \<Longrightarrow> Suc (length s) < n \<Longrightarrow> read_members n (s @ CHR ''}'' # r) = Some (kvs, r)"
proof (induction arbitrary: n r and n r and n r rule: json_text_json_elems_json_members.inducts)
  case (JT_str s)
  then obtain m where "n = Suc m" by (cases n) auto
  with JT_str read_string_plain [of s r] show ?case by simp
next
  case (JT_arr0 w)
  then obtain m where "n = Suc m" by (cases n) auto
  with JT_arr0 show ?case by (simp add: skip_ws_all json_ws_def)
next
  case (JT_arr js t)
  then obtain m where m: "n = Suc m" "Suc (length t) < m" by (cases n) auto
  obtain c q where "skip_ws (t @ CHR '']'' # r) = c # q" "c \<noteq> CHR '']''"
    using json_elems_first [OF JT_arr(1), of "CHR '']'' # r"] by blast
  with JT_arr.IH [OF m(2), of r] m(1) show ?case by simp
next
  case (JT_obj0 w)
  then obtain m where "n = Suc m" by (cases n) auto
  with JT_obj0 show ?case by (simp add: skip_ws_all json_ws_def)
next
  case (JT_obj kvs t)
  then obtain m where m: "n = Suc m" "Suc (length t) < m" by (cases n) auto
  obtain q where "skip_ws (t @ CHR ''}'' # r) = DQ # q"
    using json_members_first [OF JT_obj(1), of "CHR ''}'' # r"] by blast
  with JT_obj.IH [OF m(2), of r] m(1) show ?case by simp
next
  case (JE_last w j t w')
  then obtain m where m: "n = Suc m" by (cases n) auto
  obtain c q where t: "t = c # q" "\<not> json_ws c" using json_text_first [OF JE_last(2)] by blast
  then have "length t < m" using JE_last.prems m by simp
  from JE_last.IH [OF this, of "w' @ CHR '']'' # r"] JE_last(1,3) t m show ?case
    by (simp add: skip_ws_all json_ws_def)
next
  case (JE_more w j t w' js u)
  then obtain m where m: "n = Suc m" by (cases n) auto
  obtain c q where t: "t = c # q" "\<not> json_ws c" using json_text_first [OF JE_more(2)] by blast
  then have l: "length t < m" "Suc (length u) < m" using JE_more.prems m by simp_all
  from JE_more.IH(1) [OF l(1), of "w' @ CHR '','' # u @ CHR '']'' # r"] JE_more.IH(2) [OF l(2), of r] JE_more(1,3) t m
  show ?case by (simp add: skip_ws_all json_ws_def)
next
  case (JM_last w k w1 w2 j t w')
  then obtain m where m: "n = Suc m" by (cases n) auto
  obtain c q where t: "t = c # q" "\<not> json_ws c" using json_text_first [OF JM_last(5)] by blast
  then have "length t < m" using JM_last.prems m by simp
  from JM_last.IH [OF this, of "w' @ CHR ''}'' # r"] JM_last(1,3,4,6) t m
    read_string_plain [OF JM_last(2), of "w1 @ CHR '':'' # w2 @ t @ w' @ CHR ''}'' # r"] show ?case
    by (simp add: skip_ws_all json_ws_def)
next
  case (JM_more w k w1 w2 j t w' kvs u)
  then obtain m where m: "n = Suc m" by (cases n) auto
  obtain c q where t: "t = c # q" "\<not> json_ws c" using json_text_first [OF JM_more(5)] by blast
  then have l: "length t < m" "Suc (length u) < m" using JM_more.prems m by simp_all
  from JM_more.IH(1) [OF l(1), of "w' @ CHR '','' # u @ CHR ''}'' # r"] JM_more.IH(2) [OF l(2), of r] JM_more(1,3,4,6) t m
    read_string_plain [OF JM_more(2), of "w1 @ CHR '':'' # w2 @ t @ w' @ CHR '','' # u @ CHR ''}'' # r"]
  show ?case by (simp add: skip_ws_all json_ws_def)
qed

lemma small_parse_reads: "reads_json small_parse"
  unfolding reads_json_def small_parse_def
proof (intro allI impI)
  fix j s assume "json_text j s"
  from read_json(1) [OF this, of "Suc (length s)" "[]"]
  show "(case read_value (Suc (length s)) s of Some (j, r) \<Rightarrow> if r = [] then Some j else None | None \<Rightarrow> None) = Some j" by simp
qed

section \<open>Opening the tracked pages\<close>

datatype open_error = No_tracking_file | Not_json | No_tracked_array | No_name | No_title | No_page_template | Same_content | Duplicate

text \<open>On an array element that is no object the library's assertion fails.\<close>

datatype open_result = Opened | Not_opened open_error | Aborts

text \<open>The string of a member, as a C string.\<close>

definition string_member :: "string \<Rightarrow> json \<Rightarrow> string option" where
  "string_member key j = (case json_find key j of Some (JStr s) \<Rightarrow> Some (takeWhile (\<lambda>c. c \<noteq> NUL) s) | _ \<Rightarrow> None)"

definition page_exts :: "string option \<Rightarrow> string option \<Rightarrow> string option \<Rightarrow> tracked_info \<Rightarrow> tracked_info" where
  "page_exts cExt oExt sExt i =
     (let i = (case cExt of Some e \<Rightarrow> i\<lparr>ti_contentExt := e, ti_content := with_ext (ti_content i) e\<rparr> | None \<Rightarrow> i);
          i = (case oExt of Some e \<Rightarrow> i\<lparr>ti_outputExt := e, ti_output := with_ext (ti_output i) e\<rparr> | None \<Rightarrow> i)
      in case sExt of Some e \<Rightarrow> i\<lparr>ti_scriptExt := e\<rparr> | None \<Rightarrow> i)"

fun open_pages :: "json list \<Rightarrow> project_v1 \<Rightarrow> open_result \<times> project_v1" where
  "open_pages [] p = (Opened, p)"
| "open_pages (page # pages) p =
     (case page of
        JObj kvs \<Rightarrow>
          (case (string_member ''name'' page, string_member ''title'' page, string_member ''template'' page) of
             (None, _, _) \<Rightarrow> (Not_opened No_name, p)
           | (_, None, _) \<Rightarrow> (Not_opened No_title, p)
           | (_, _, None) \<Rightarrow> (Not_opened No_page_template, p)
           | (Some name, Some title, Some tpl) \<Rightarrow>
               (let i = page_exts (string_member ''content-ext'' page) (string_member ''output-ext'' page)
                          (string_member ''script-ext'' page) (make_info_template name title (path_from tpl) p)
                in if path_eq (ti_content i) (ti_template i) then (Not_opened Same_content, p)
                   else if tracking (ti_name i) p then (Not_opened Duplicate, p)
                   else open_pages pages (p\<lparr>trackedAll := set_insert i (trackedAll p)\<rparr>)))
      | _ \<Rightarrow> (Aborts, p))"

definition open_tracking :: "(string \<Rightarrow> json option) \<Rightarrow> project_v1 \<Rightarrow> open_result \<times> project_v1" where
  "open_tracking parse p =
     (let p = p\<lparr>trackedAll := []\<rparr>
      in if \<not> file_exists_v1 ''.nift/tracked.json'' (p1_disk p) then (Not_opened No_tracking_file, p)
         else case parse (string_from_file ''.nift/tracked.json'' (p1_disk p)) of
                Some (JObj kvs) \<Rightarrow>
                  (case map_of kvs ''tracked'' of Some (JArr pages) \<Rightarrow> open_pages pages p | _ \<Rightarrow> (Not_opened No_tracked_array, p))
              | _ \<Rightarrow> (Not_opened Not_json, p))"

section \<open>What is saved is a JSON text\<close>

definition saved_members :: "tracked_info \<Rightarrow> (string \<times> string) list" where
  "saved_members i =
     [(''name'', ti_name i), (''title'', ti_title i), (''template'', path_str (ti_template i))] @
     (if ti_contentExt i \<noteq> [] then [(''content-ext'', ti_contentExt i)] else []) @
     (if ti_outputExt i \<noteq> [] then [(''output-ext'', ti_outputExt i)] else []) @
     (if ti_scriptExt i \<noteq> [] then [(''script-ext'', ti_scriptExt i)] else [])"

definition saved_json :: "tracked_info \<Rightarrow> json" where
  "saved_json i = JObj (map (apsnd JStr) (saved_members i))"

text \<open>A member without its comma and newline; the members and the pages with commas between them.\<close>

definition member_text :: "string \<times> string \<Rightarrow> string" where
  "member_text kv = [CHR 0x09, CHR 0x09, CHR 0x09, DQ] @ fst kv @ [DQ, CHR '':'', CHR '' '', DQ] @ snd kv @ [DQ]"

abbreviation (input) comma_nl :: string where "comma_nl \<equiv> [CHR '','', NL]"

definition page_text :: "tracked_info \<Rightarrow> string" where
  "page_text i = [CHR 0x09, CHR 0x09, CHR ''{'', NL] @ join (map member_text (saved_members i)) comma_nl @
     [NL, CHR 0x09, CHR 0x09, CHR ''}'']"

lemma concat_join: "xs \<noteq> [] \<Longrightarrow> concat (map (\<lambda>x. x @ sep) xs) = join xs sep @ sep"
  by (induction xs sep rule: join.induct) simp_all

lemma entry_text_members: "entry_text i = join (map member_text (saved_members i)) comma_nl @ comma_nl"
proof -
  have f: "json_field k v = member_text (k, v) @ comma_nl" for k v by (simp add: json_field_def member_text_def)
  have "entry_text i = concat (map (\<lambda>x. x @ comma_nl) (map member_text (saved_members i)))"
    by (simp add: entry_text_def saved_members_def f)
  also have "\<dots> = join (map member_text (saved_members i)) comma_nl @ comma_nl"
    by (rule concat_join) (simp add: saved_members_def)
  finally show ?thesis .
qed

lemma back_over_append: "length u = 2 \<Longrightarrow> back_over (t @ u) s = t @ s"
  by (simp add: back_over_def)

lemma entries_text_pages: "entries_text is t = t @ concat (map (\<lambda>i. page_text i @ comma_nl) is)"
proof (induction "is" t rule: entries_text.induct)
  case (2 i "is" t)
  have "back_over (t @ [CHR 0x09, CHR 0x09, CHR ''{'', NL] @ entry_text i) [NL, CHR 0x09, CHR 0x09, CHR ''}'', CHR '','', NL] =
      t @ page_text i @ comma_nl"
    using back_over_append [of comma_nl "t @ [CHR 0x09, CHR 0x09, CHR ''{'', NL] @ join (map member_text (saved_members i)) comma_nl"]
    by (simp add: entry_text_members page_text_def)
  with 2 show ?case by simp
qed simp

lemma tracking_text_pages:
  assumes "is \<noteq> []"
  shows "tracking_text is = ''{'' @ ([NL, CHR 0x09] @ [DQ] @ ''tracked'' @ [DQ] @ [] @ '':'' @ '' '' @
    (''['' @ (NL # join (map page_text is) comma_nl @ [NL, CHR 0x09]) @ '']'') @ [NL]) @ ''}''"
proof -
  have "concat (map (\<lambda>i. page_text i @ comma_nl) is) = join (map page_text is) comma_nl @ comma_nl"
    using concat_join [of "map page_text is" comma_nl] assms by (simp add: comp_def)
  then show ?thesis
    using back_over_append [of comma_nl "[CHR ''{'', NL, CHR 0x09, DQ] @ ''tracked'' @ [DQ, CHR '':'', CHR '' '', CHR ''['', NL] @ join (map page_text is) comma_nl"]
    by (simp add: tracking_text_def entries_text_pages)
qed

definition info_plain :: "tracked_info \<Rightarrow> bool" where
  "info_plain i \<longleftrightarrow> (\<forall>kv\<in>set (saved_members i). json_plain (snd kv))"

lemma member_keys: "kv \<in> set (saved_members i) \<Longrightarrow> json_plain (fst kv)"
  by (auto simp: saved_members_def json_plain_def byte_def split: if_splits)

lemma ws_lists [simp]: "json_ws (CHR 0x09)" "json_ws NL" "json_ws (CHR '' '')"
  by (simp_all add: json_ws_def NL_def)

lemma member_text_pair: "member_text (k, v) = [CHR 0x09, CHR 0x09, CHR 0x09, DQ] @ k @ [DQ, CHR '':'', CHR '' '', DQ] @ v @ [DQ]"
  by (simp add: member_text_def)

lemma members_json:
  "kvs \<noteq> [] \<Longrightarrow> \<forall>kv\<in>set kvs. json_plain (fst kv) \<and> json_plain (snd kv) \<Longrightarrow> list_all json_ws w \<Longrightarrow> list_all json_ws w' \<Longrightarrow>
   json_members (map (apsnd JStr) kvs) (w @ join (map member_text kvs) comma_nl @ w')"
proof (induction kvs arbitrary: w)
  case (Cons kv kvs)
  obtain k v where kv: "kv = (k, v)" by fastforce
  have v: "json_text (JStr v) ([DQ] @ v @ [DQ])" using Cons.prems(2) kv by (intro JT_str) simp
  have k: "json_plain k" using Cons.prems(2) kv by simp
  have w: "list_all json_ws (w @ [CHR 0x09, CHR 0x09, CHR 0x09])" using Cons.prems(3) by simp
  show ?case
  proof (cases "kvs = []")
    case True
    from JM_last [OF w k _ _ v Cons.prems(4), of "[]" "'' ''"] show ?thesis by (simp add: True kv member_text_def)
  next
    case False
    have "json_members (map (apsnd JStr) kvs) ([NL] @ join (map member_text kvs) comma_nl @ w')"
      using Cons.prems False by (intro Cons.IH) simp_all
    from JM_more [OF w k _ _ v _ this, of "[]" "'' ''" "[]"] False show ?thesis by (simp add: kv member_text_pair join_Cons)
  qed
qed simp

lemma page_json: "info_plain i \<Longrightarrow> \<exists>t. page_text i = [CHR 0x09, CHR 0x09] @ t \<and> json_text (saved_json i) t"
proof -
  assume "info_plain i"
  then have "\<forall>kv\<in>set (saved_members i). json_plain (fst kv) \<and> json_plain (snd kv)"
    using member_keys by (auto simp: info_plain_def)
  moreover have "saved_members i \<noteq> []" by (simp add: saved_members_def)
  ultimately have "json_members (map (apsnd JStr) (saved_members i))
      ([NL] @ join (map member_text (saved_members i)) comma_nl @ [NL, CHR 0x09, CHR 0x09])"
    by (intro members_json) simp_all
  from JT_obj [OF this] show ?thesis by (simp add: saved_json_def page_text_def)
qed

lemma pages_json:
  "is \<noteq> [] \<Longrightarrow> \<forall>i\<in>set is. info_plain i \<Longrightarrow> list_all json_ws w \<Longrightarrow> list_all json_ws w' \<Longrightarrow>
   json_elems (map saved_json is) (w @ join (map page_text is) comma_nl @ w')"
proof (induction "is" arbitrary: w)
  case (Cons i "is")
  obtain t where t: "page_text i = [CHR 0x09, CHR 0x09] @ t" "json_text (saved_json i) t" using page_json Cons.prems(2) by auto
  have w: "list_all json_ws (w @ [CHR 0x09, CHR 0x09])" using Cons.prems(3) by simp
  show ?case
  proof (cases "is = []")
    case True
    from JE_last [OF w t(2) Cons.prems(4)] show ?thesis by (simp add: True t(1))
  next
    case False
    have "json_elems (map saved_json is) ([NL] @ join (map page_text is) comma_nl @ w')"
      using Cons.prems False by (intro Cons.IH) simp_all
    from JE_more [OF w t(2) _ this, of "[]"] False show ?thesis by (simp add: t(1) join_Cons)
  qed
qed simp

lemma tracking_json:
  assumes "is \<noteq> []" "\<forall>i\<in>set is. info_plain i"
  shows "json_text (JObj [(''tracked'', JArr (map saved_json is))]) (tracking_text is)"
proof -
  have "json_elems (map saved_json is) (NL # join (map page_text is) comma_nl @ [NL, CHR 0x09])"
    using pages_json [OF assms, of "[NL]" "[NL, CHR 0x09]"] by simp
  from JT_arr [OF this] have a: "json_text (JArr (map saved_json is)) (''['' @ (NL # join (map page_text is) comma_nl @ [NL, CHR 0x09]) @ '']'')" .
  have k: "json_plain ''tracked''" by (simp add: json_plain_def byte_def)
  from JM_last [OF _ k _ _ a, of "[NL, CHR 0x09]" "[]" "'' ''" "[NL]"] show ?thesis
    unfolding tracking_text_pages [OF assms(1)] by (intro JT_obj) simp
qed

section \<open>Saving and opening\<close>

lemma plain_NUL: "json_plain s \<Longrightarrow> NUL \<notin> set s"
proof
  assume "json_plain s" "NUL \<in> set s"
  then have "\<not> byte NUL < 32" by (simp add: json_plain_def)
  then show False by (simp add: byte_def NUL_def)
qed

lemma ws_NUL: "list_all json_ws w \<Longrightarrow> NUL \<notin> set w"
proof
  assume "list_all json_ws w" "NUL \<in> set w"
  then have "json_ws NUL" by (simp add: list_all_iff)
  then show False by (simp add: json_ws_def NUL_def)
qed

lemma NUL_other: "NUL \<noteq> DQ" "NUL \<noteq> CHR '':''" "NUL \<noteq> CHR '',''" "NUL \<noteq> CHR ''[''" "NUL \<noteq> CHR '']''" "NUL \<noteq> CHR ''{''" "NUL \<noteq> CHR ''}''"
  by (simp_all add: NUL_def)

lemma json_no_NUL:
  "json_text j s \<Longrightarrow> NUL \<notin> set s" "json_elems js s \<Longrightarrow> NUL \<notin> set s" "json_members kvs s \<Longrightarrow> NUL \<notin> set s"
  by (induction rule: json_text_json_elems_json_members.inducts) (simp_all add: plain_NUL ws_NUL NUL_other)

text \<open>A page that opening its entry gives back: its paths follow from its name, template and extensions.\<close>

definition opened_info :: "project_v1 \<Rightarrow> tracked_info \<Rightarrow> tracked_info" where
  "opened_info p i =
     (let opt = (\<lambda>e. if e \<noteq> [] then Some e else None)
      in page_exts (opt (ti_contentExt i)) (opt (ti_outputExt i)) (opt (ti_scriptExt i))
           (make_info_template (ti_name i) (ti_title i) (path_from (path_str (ti_template i))) p))"

definition listed :: "project_v1 \<Rightarrow> tracked_info \<Rightarrow> bool" where
  "listed p i \<longleftrightarrow> info_plain i \<and> opened_info p i = i \<and> \<not> path_eq (ti_content i) (ti_template i)"

lemma plain_no_NUL: "json_plain s \<Longrightarrow> takeWhile (\<lambda>c. c \<noteq> NUL) s = s"
  unfolding takeWhile_eq_all_conv using plain_NUL by blast

lemma string_member_saved:
  assumes "info_plain i"
  shows "string_member k (saved_json i) = map_of (saved_members i) k"
proof -
  have m: "map_of (map (apsnd JStr) kvs) k = map_option JStr (map_of kvs k)" for kvs :: "(string \<times> string) list"
    by (induction kvs) auto
  have "json_plain v" if "map_of (saved_members i) k = Some v" for v
    using map_of_SomeD [OF that] assms by (auto simp: info_plain_def)
  then show ?thesis by (auto simp: string_member_def saved_json_def m plain_no_NUL split: option.split)
qed

lemma map_of_saved:
  "map_of (saved_members i) ''name'' = Some (ti_name i)" "map_of (saved_members i) ''title'' = Some (ti_title i)"
  "map_of (saved_members i) ''template'' = Some (path_str (ti_template i))"
  "map_of (saved_members i) ''content-ext'' = (if ti_contentExt i \<noteq> [] then Some (ti_contentExt i) else None)"
  "map_of (saved_members i) ''output-ext'' = (if ti_outputExt i \<noteq> [] then Some (ti_outputExt i) else None)"
  "map_of (saved_members i) ''script-ext'' = (if ti_scriptExt i \<noteq> [] then Some (ti_scriptExt i) else None)"
  by (simp_all add: saved_members_def)

lemma opened_info_settings: "opened_info (p\<lparr>trackedAll := t\<rparr>) i = opened_info p i"
  by (simp add: opened_info_def make_info_template_def Let_def)

lemma listed_settings: "listed (p\<lparr>trackedAll := t\<rparr>) i = listed p i"
  by (simp add: listed_def opened_info_settings)

lemma set_insert_last: "\<forall>j\<in>set js. info_key j < info_key i \<Longrightarrow> set_insert i js = js @ [i]"
  by (induction js) (auto simp: not_less)

lemma open_page_step:
  assumes "listed p i" "\<not> tracking (ti_name i) p"
  shows "open_pages (saved_json i # pages) p = open_pages pages (p\<lparr>trackedAll := set_insert i (trackedAll p)\<rparr>)"
proof -
  have i: "info_plain i" "opened_info p i = i" "\<not> path_eq (ti_content i) (ti_template i)" using assms(1) by (simp_all add: listed_def)
  obtain kvs where kvs: "saved_json i = JObj kvs" by (simp add: saved_json_def)
  have e: "page_exts (string_member ''content-ext'' (JObj kvs)) (string_member ''output-ext'' (JObj kvs)) (string_member ''script-ext'' (JObj kvs))
      (make_info_template (ti_name i) (ti_title i) (path_from (path_str (ti_template i))) p) = i"
    using i(2) unfolding kvs [symmetric] string_member_saved [OF i(1)] map_of_saved opened_info_def by (simp add: Let_def)
  have m: "string_member ''name'' (JObj kvs) = Some (ti_name i)" "string_member ''title'' (JObj kvs) = Some (ti_title i)"
    "string_member ''template'' (JObj kvs) = Some (path_str (ti_template i))"
    unfolding kvs [symmetric] string_member_saved [OF i(1)] map_of_saved by (rule refl)+
  show ?thesis unfolding kvs by (simp add: m e i(3) assms(2))
qed

lemma open_pages_saved:
  "sorted_infos (trackedAll p @ is) \<Longrightarrow> \<forall>i\<in>set is. listed p i \<Longrightarrow>
   open_pages (map saved_json is) p = (Opened, p\<lparr>trackedAll := trackedAll p @ is\<rparr>)"
proof (induction "is" arbitrary: p)
  case (Cons i "is")
  have less: "\<forall>j\<in>set (trackedAll p). info_key j < info_key i" using Cons.prems(1) by (simp add: sorted_infos_def sorted_wrt_append)
  then have "\<not> tracking (ti_name i) p" by (auto simp: tracking_def set_find_None info_key_def)
  with Cons.prems(2) have "open_pages (map saved_json (i # is)) p =
      open_pages (map saved_json is) (p\<lparr>trackedAll := set_insert i (trackedAll p)\<rparr>)" using open_page_step by simp
  also have "set_insert i (trackedAll p) = trackedAll p @ [i]" using less by (rule set_insert_last)
  also have "open_pages (map saved_json is) (p\<lparr>trackedAll := trackedAll p @ [i]\<rparr>) =
      (Opened, p\<lparr>trackedAll := trackedAll p @ i # is\<rparr>)"
    using Cons.IH [of "p\<lparr>trackedAll := trackedAll p @ [i]\<rparr>"] Cons.prems by (simp add: listed_settings)
  finally show ?case .
qed simp

text \<open>A page as the commands make it: from a name, a title and a template, with the directories and extensions of the
  project or with extensions of its own.\<close>

definition page_of :: "project_v1 \<Rightarrow> string \<Rightarrow> string \<Rightarrow> path_v1 \<Rightarrow> string \<Rightarrow> string \<Rightarrow> string \<Rightarrow> tracked_info" where
  "page_of p name title tpl cExt oExt sExt =
     (with_exts cExt oExt p (make_info_template name title tpl p))\<lparr>ti_scriptExt := sExt\<rparr>"

definition page_made :: "project_v1 \<Rightarrow> tracked_info \<Rightarrow> bool" where
  "page_made p i \<longleftrightarrow>
     (\<exists>name title tpl cExt oExt sExt. i = page_of p name title tpl cExt oExt sExt \<and> path_from (path_str tpl) = tpl \<and>
        (cExt = [] \<longrightarrow> contentExt p = []) \<and> (oExt = [] \<longrightarrow> outputExt p = []))"

lemma made_listed:
  assumes "page_made p i" "info_plain i" "\<not> path_eq (ti_content i) (ti_template i)"
  shows "listed p i"
proof -
  obtain name title tpl cExt oExt sExt where i: "i = page_of p name title tpl cExt oExt sExt" "path_from (path_str tpl) = tpl"
      "cExt = [] \<longrightarrow> contentExt p = []" "oExt = [] \<longrightarrow> outputExt p = []"
    using assms(1) by (auto simp: page_made_def)
  let ?m = "make_info_template name title tpl p"
  have m: "ti_name ?m = name" "ti_title ?m = title" "ti_template ?m = tpl" "ti_contentExt ?m = []" "ti_outputExt ?m = []" "ti_scriptExt ?m = []"
    by (simp_all add: make_info_template_def make_info_def Let_def)
  have m': "ti_name i = name" "ti_title i = title" "ti_template i = tpl"
    "ti_contentExt i = (if cExt = contentExt p then [] else cExt)" "ti_outputExt i = (if oExt = outputExt p then [] else oExt)"
    "ti_scriptExt i = sExt"
    by (simp_all add: i(1) page_of_def with_exts_def m Let_def)
  have o: "(if ti_contentExt i \<noteq> [] then Some (ti_contentExt i) else None) = (if cExt \<noteq> contentExt p then Some cExt else None)"
    "(if ti_outputExt i \<noteq> [] then Some (ti_outputExt i) else None) = (if oExt \<noteq> outputExt p then Some oExt else None)"
    unfolding m'(4,5) using i(3,4) by presburger+
  have "page_exts (if cExt \<noteq> contentExt p then Some cExt else None) (if oExt \<noteq> outputExt p then Some oExt else None)
      (if sExt \<noteq> [] then Some sExt else None) ?m = page_of p name title tpl cExt oExt sExt"
    by (cases "cExt = contentExt p"; cases "oExt = outputExt p"; cases "sExt = []")
      (simp_all add: page_exts_def page_of_def with_exts_def Let_def m(6) [symmetric] del: m)
  then have "opened_info p i = i"
    unfolding opened_info_def Let_def o m'(1,2,3,6) i(2) i(1) [symmetric] .
  with assms show ?thesis by (simp add: listed_def)
qed

text \<open>C20: What \<open>save_tracking\<close> writes, \<open>open_tracking\<close> reads: from any set of pages the set that was saved, each page with
  its title, template, extensions and paths.  This is for a reader that reads the texts of the JSON grammar, for
  at least one page, for pages made with the directories and extensions that the project still has and with
  templates that follow from their text, none of which is its own template, for names, titles, templates and
  extensions without a quotation mark, a backslash or a control character, and for a list that can be written and read.\<close>

theorem save_open_tracking:
  assumes "reads_json parse" "trackedAll p \<noteq> []" "sorted_infos (trackedAll p)"
    and "\<forall>i\<in>set (trackedAll p). page_made p i \<and> info_plain i \<and> \<not> path_eq (ti_content i) (ti_template i)"
    and "fst (open_write ''.nift/tracked.json'' (p1_disk p))" "\<not> dk_unreadable (p1_disk p) tracked_json"
  shows "open_tracking parse ((save_tracking p)\<lparr>trackedAll := t\<rparr>) = (Opened, save_tracking p)"
proof -
  let ?text = "tracking_text (trackedAll p)"
  have listed: "\<forall>i\<in>set (trackedAll p). listed p i" using assms(4) by (blast intro: made_listed)
  have "\<forall>i\<in>set (trackedAll p). info_plain i" using assms(4) by simp
  from tracking_json [OF assms(2) this] have j: "json_text (JObj [(''tracked'', JArr (map saved_json (trackedAll p)))]) ?text" .
  then have nul: "takeWhile (\<lambda>c. c \<noteq> NUL) ?text = ?text"
    unfolding takeWhile_eq_all_conv using json_no_NUL(1) [OF j] by blast
  have d: "p1_disk (save_tracking p) = put tracked_json (File ?text) (put tracked_json (File []) (p1_disk p))"
    using assms(5) by (auto simp: save_tracking_def write_to_def open_write_def node_tracked_json split: if_splits)
  have st: "stat ''.nift/tracked.json'' (p1_disk (save_tracking p)) = Some (File ?text)"
    unfolding d stat_File node_tracked_json by (simp add: spells_dir_def ends_with_def)
  have unr: "\<not> dk_unreadable (p1_disk (save_tracking p)) tracked_json" using assms(6) by (simp add: d)
  have read: "string_from_file ''.nift/tracked.json'' (p1_disk (save_tracking p)) = ?text"
    using st unr nul by (simp add: string_from_file_def file_text_def node_tracked_json)
  have doc: "parse ?text = Some (JObj [(''tracked'', JArr (map saved_json (trackedAll p)))])"
    using assms(1) j by (simp add: reads_json_def)
  have "open_pages (map saved_json (trackedAll p)) ((save_tracking p)\<lparr>trackedAll := []\<rparr>) =
      (Opened, (save_tracking p)\<lparr>trackedAll := trackedAll p\<rparr>)"
    using open_pages_saved [of "(save_tracking p)\<lparr>trackedAll := []\<rparr>" "trackedAll p"] assms(3) listed
    by (simp add: listed_def opened_info_def make_info_template_def save_tracking_def)
  then show ?thesis using st doc
    by (simp add: open_tracking_def file_exists_v1_def read)
qed

lemma save_open_tracking_witness:
  "open_tracking small_parse ((save_tracking small_project)\<lparr>trackedAll := []\<rparr>) = (Opened, save_tracking small_project)"
proof (rule save_open_tracking [OF small_parse_reads])
  show "trackedAll small_project \<noteq> []" "sorted_infos (trackedAll small_project)"
    by (simp_all add: small_project_def sorted_infos_def)
  let ?i = "make_info ''a'' ''a'' (path_from ''p'') ''c/'' ''o/'' ''.t'' ''.h''"
  have "page_made small_project ?i" unfolding page_made_def
  proof (intro exI conjI)
    show "?i = page_of small_project ''a'' ''a'' (path_from ''p'') ''.t'' ''.h'' []" by code_simp
  qed (simp_all, code_simp)
  moreover have "\<not> path_eq (ti_content ?i) (ti_template ?i)" by code_simp
  moreover have "info_plain ?i" unfolding info_plain_def json_plain_def by code_simp
  ultimately show "\<forall>i\<in>set (trackedAll small_project). page_made small_project i \<and> info_plain i \<and> \<not> path_eq (ti_content i) (ti_template i)"
    by (subst small_project_def) simp
  show "fst (open_write ''.nift/tracked.json'' (p1_disk small_project))" by code_simp
  show "\<not> dk_unreadable (p1_disk small_project) tracked_json" by (simp add: small_project_def)
qed

text \<open>The pages that \<open>track\<close> adds are listed, unless a name holds what JSON would have to escape.\<close>

lemma track_listed:
  assumes "track name title tpl p = (Done, p')" "path_from (path_str tpl) = tpl"
    and "json_plain name" "json_plain title" "json_plain (path_str tpl)"
  shows "listed p (make_info_template name title tpl p)"
proof -
  let ?i = "make_info_template name title tpl p"
  have i: "ti_name ?i = name" "ti_title ?i = title" "ti_template ?i = tpl" "ti_contentExt ?i = []" "ti_outputExt ?i = []" "ti_scriptExt ?i = []"
    by (simp_all add: make_info_template_def make_info_def Let_def)
  have "page_refused ?i p = None" using assms(1) by (auto simp: track_def Let_def split: if_splits option.splits)
  then have "\<not> path_eq (ti_content ?i) (ti_template ?i)" by (auto simp: page_refused_def split: if_splits)
  moreover have "opened_info p ?i = ?i" unfolding opened_info_def i assms(2) by (simp add: page_exts_def)
  moreover have "info_plain ?i" using assms(3-5) unfolding info_plain_def saved_members_def i by simp
  ultimately show ?thesis by (simp add: listed_def)
qed

text \<open>The list without a page is no JSON text for the small reader either, and a title with a quotation mark is saved as
  a text that ends where the mark stands.\<close>

lemma open_no_pages: "small_parse (tracking_text []) = None"
  by code_simp

lemma open_quote: "small_parse (tracking_text [make_info ''a'' [CHR ''a'', DQ, CHR ''b''] (path_from ''p'') ''c/'' ''o/'' ''.t'' ''.h'']) = None"
  by code_simp

end
