(* ===== verification/Nift1_Status.thy ===== *)
theory Nift1_Status
  imports Nift1_Json "HOL-Library.Word"
begin

text \<open>
  What is out of date in a Nift 1 project: \<open>dep_thread\<close>, \<open>set_incr_mode\<close> and \<open>remove_hash_files\<close> of
  \<open>legacy/ProjectInfo.cpp\<close>, \<open>modified_after\<close> of \<open>legacy/Path.cpp\<close> and the hash of \<open>legacy/hashtk/HashTk.cpp\<close>.
  The times of the last changes are the parameter \<open>mtime\<close>, the JSON reader is \<open>parse\<close>.
\<close>

unbundle bit_operations_syntax

section \<open>Hashes\<close>

text \<open>The characters are signed, and a negative one is widened with ones.\<close>

definition schar :: "char \<Rightarrow> 32 word" where
  "schar c = of_nat (if byte c < 128 then byte c else byte c + 0xFFFFFF00)"

definition fnv_step :: "char \<Rightarrow> 32 word \<Rightarrow> 32 word" where
  "fnv_step c hash = (hash * 0x811C9DC5) XOR schar c"

definition FNVHash :: "string \<Rightarrow> 32 word" where
  "FNVHash str = fold fnv_step str 0"

text \<open>\<open>(unsigned) std::atoi\<close>, as the conversion through \<open>strtol\<close> to 64 bits does it.\<close>

definition atoi_unsigned :: "string \<Rightarrow> 32 word" where
  "atoi_unsigned s =
     (let (neg, r) = take_sign (dropWhile isspace s); v = int (digits_value (takeWhile isdigit r))
      in word_of_int (if neg then max (- (2 ^ 63)) (- v) else min (2 ^ 63 - 1) v))"

section \<open>One page\<close>

datatype incr_mode = Incr_mod | Incr_hash | Incr_hyb

text \<open>The times are compared in whole seconds.\<close>

definition modified_after :: "(disk_place \<Rightarrow> int) \<Rightarrow> path_v1 \<Rightarrow> path_v1 \<Rightarrow> bool" where
  "modified_after mtime path path2 \<longleftrightarrow> mtime (disk_node (path_str path)) > mtime (disk_node (path_str path2))"

datatype dep_change = Dep_same | Dep_removed | Dep_modified | Dep_no_hash

definition dep_state :: "incr_mode \<Rightarrow> (disk_place \<Rightarrow> int) \<Rightarrow> disk \<Rightarrow> path_v1 \<Rightarrow> path_v1 \<Rightarrow> dep_change" where
  "dep_state mode mtime d infoPath dep =
     (if \<not> file_exists_v1 (path_str dep) d then Dep_removed
      else if mode \<noteq> Incr_hash \<and> modified_after mtime dep infoPath then Dep_modified
      else if mode \<noteq> Incr_mod then
        (if \<not> file_exists_v1 (path_str (getHashPath dep)) d then Dep_no_hash
         else if atoi_unsigned (string_from_file (path_str (getHashPath dep)) d) \<noteq> FNVHash (string_from_file (path_str dep) d)
         then Dep_modified else Dep_same)
      else Dep_same)"

definition user_dep_state :: "(disk_place \<Rightarrow> int) \<Rightarrow> disk \<Rightarrow> path_v1 \<Rightarrow> path_v1 \<Rightarrow> dep_change" where
  "user_dep_state mtime d infoPath dep =
     (if \<not> path_exists_v1 (path_str dep) d then Dep_removed
      else if modified_after mtime dep infoPath then Dep_modified else Dep_same)"

text \<open>What a page adds to the names with a problem, the pages to build and the files that changed.\<close>

record page_check =
  pc_problem :: bool
  pc_updated :: bool
  pc_modified :: "path_v1 list"
  pc_removed :: "path_v1 list"
  pc_aborts :: bool

definition nothing :: page_check where
  "nothing = \<lparr>pc_problem = False, pc_updated = False, pc_modified = [], pc_removed = [], pc_aborts = False\<rparr>"

text \<open>The first dependency that changed ends the loop; what is no string is a problem, and is passed over.\<close>

fun check_deps :: "(path_v1 \<Rightarrow> dep_change) \<Rightarrow> json list \<Rightarrow> page_check \<Rightarrow> page_check" where
  "check_deps st [] r = r"
| "check_deps st (j # js) r =
     (case j of
        JStr s \<Rightarrow>
          (let dep = path_from (takeWhile (\<lambda>c. c \<noteq> NUL) s)
           in case st dep of
                Dep_same \<Rightarrow> check_deps st js r
              | Dep_removed \<Rightarrow> r\<lparr>pc_updated := True, pc_removed := dep # pc_removed r\<rparr>
              | Dep_modified \<Rightarrow> r\<lparr>pc_updated := True, pc_modified := dep # pc_modified r\<rparr>
              | Dep_no_hash \<Rightarrow> r\<lparr>pc_updated := True\<rparr>)
      | _ \<Rightarrow> check_deps st js (r\<lparr>pc_problem := True\<rparr>))"

definition dependencies :: "json \<Rightarrow> json list option" where
  "dependencies doc = (case json_find ''dependencies'' doc of Some (JArr js) \<Rightarrow> Some js | _ \<Rightarrow> None)"

text \<open>The dependencies that the user has written down.  Asking what is no object for a member aborts.\<close>

definition check_user_deps :: "(string \<Rightarrow> json option) \<Rightarrow> (disk_place \<Rightarrow> int) \<Rightarrow> disk \<Rightarrow> tracked_info \<Rightarrow> page_check \<Rightarrow> page_check" where
  "check_user_deps parse mtime d i r =
     (let depsPath = getDepsPath (ti_content i)
      in if \<not> file_exists_v1 (path_str depsPath) d then r
         else case parse (string_from_file (path_str depsPath) d) of
                Some (JObj kvs) \<Rightarrow>
                  (case dependencies (JObj kvs) of
                     None \<Rightarrow> r\<lparr>pc_problem := True\<rparr>
                   | Some js \<Rightarrow> check_deps (user_dep_state mtime d (getInfoPath (ti_output i))) js r)
              | _ \<Rightarrow> r\<lparr>pc_aborts := True\<rparr>)"

definition check_page :: "(string \<Rightarrow> json option) \<Rightarrow> incr_mode \<Rightarrow> (disk_place \<Rightarrow> int) \<Rightarrow> disk \<Rightarrow> tracked_info \<Rightarrow> page_check" where
  "check_page parse mode mtime d i =
     (let infoPath = getInfoPath (ti_output i); problem = nothing\<lparr>pc_problem := True\<rparr>; updated = nothing\<lparr>pc_updated := True\<rparr>
      in if \<not> file_exists_v1 (path_str (ti_content i)) d then problem
         else if \<not> file_exists_v1 (path_str (ti_template i)) d then problem
         else if \<not> file_exists_v1 (path_str infoPath) d then updated
         else case parse (string_from_file (path_str infoPath) d) of
                Some (JObj kvs) \<Rightarrow>
                  (case (string_member ''name'' (JObj kvs), string_member ''title'' (JObj kvs), string_member ''template'' (JObj kvs)) of
                     (Some name, Some title, Some tpl) \<Rightarrow>
                       if ti_name i \<noteq> name then updated
                       else if ti_title i \<noteq> title then updated
                       else if \<not> path_eq (ti_template i) (path_from tpl) then updated
                       else (case dependencies (JObj kvs) of
                               None \<Rightarrow> problem
                             | Some js \<Rightarrow> check_user_deps parse mtime d i (check_deps (dep_state mode mtime d infoPath) js nothing))
                   | _ \<Rightarrow> problem)
              | _ \<Rightarrow> problem)"

section \<open>The threads that check the pages\<close>

text \<open>
  A thread takes the next page under the lock, checks it, and adds what it found to the shared sets; a thread that
  finds no page left ends.  The sets only grow, and each insertion has a lock of its own.
\<close>

datatype 'a worker = Idle | Checking 'a | Ended

record ('a, 'r) page_checks =
  ck_next :: nat
  ck_workers :: "'a worker list"
  ck_found :: "('a \<times> 'r) set"

inductive ck_step :: "('a \<Rightarrow> 'r) \<Rightarrow> 'a list \<Rightarrow> ('a, 'r) page_checks \<Rightarrow> ('a, 'r) page_checks \<Rightarrow> bool" for check pages where
  Ck_take: "t < length (ck_workers s) \<Longrightarrow> ck_workers s ! t = Idle \<Longrightarrow> ck_next s < length pages \<Longrightarrow>
     ck_step check pages s (s\<lparr>ck_next := Suc (ck_next s), ck_workers := (ck_workers s)[t := Checking (pages ! ck_next s)]\<rparr>)"
| Ck_report: "t < length (ck_workers s) \<Longrightarrow> ck_workers s ! t = Checking i \<Longrightarrow>
     ck_step check pages s (s\<lparr>ck_workers := (ck_workers s)[t := Idle], ck_found := insert (i, check i) (ck_found s)\<rparr>)"
| Ck_end: "t < length (ck_workers s) \<Longrightarrow> ck_workers s ! t = Idle \<Longrightarrow> \<not> ck_next s < length pages \<Longrightarrow>
     ck_step check pages s (s\<lparr>ck_workers := (ck_workers s)[t := Ended]\<rparr>)"

definition ck_start :: "nat \<Rightarrow> ('a, 'r) page_checks" where
  "ck_start n = \<lparr>ck_next = 0, ck_workers = replicate n Idle, ck_found = {}\<rparr>"

definition ck_finished :: "('a, 'r) page_checks \<Rightarrow> bool" where
  "ck_finished s \<longleftrightarrow> (\<forall>w\<in>set (ck_workers s). w = Ended)"

text \<open>How many threads there are; a negative setting is a multiple of the number of cores.\<close>

definition no_threads :: "int \<Rightarrow> nat \<Rightarrow> int" where
  "no_threads buildThreads cores = (if buildThreads < 0 then - buildThreads * int cores else buildThreads)"

section \<open>Changing the mode\<close>

text \<open>The paths are read from a page's information file as from the list of an older version: four lines are passed
  over, and what follows is read word by word.  \<open>None\<close> is a reader that does not come back.\<close>

function quoted_rest :: "string \<Rightarrow> string list option" where
  "quoted_rest is =
     (case read_quoted is of
        Read w r \<Rightarrow> if length r < length is then map_option ((#) w) (quoted_rest r) else None
      | Read_end \<Rightarrow> Some []
      | _ \<Rightarrow> None)"
  by pat_completeness auto
termination by (relation "measure length") auto

declare quoted_rest.simps [simp del]

definition drop_line :: "string \<Rightarrow> string" where
  "drop_line s = drop 1 (dropWhile (\<lambda>c. c \<noteq> NL) s)"

definition hash_deps :: "string \<Rightarrow> string list option" where
  "hash_deps info = quoted_rest ((drop_line ^^ 4) info)"

fun remove_hashes :: "path_v1 list \<Rightarrow> disk \<Rightarrow> bool \<times> disk" where
  "remove_hashes [] d = (False, d)"
| "remove_hashes (dep # deps) d =
     (if file_exists_v1 (path_str dep) d
      then (case remove_path_v1 (getHashPath dep) d of (True, d) \<Rightarrow> (True, d) | (False, d) \<Rightarrow> remove_hashes deps d)
      else remove_hashes deps d)"

fun remove_hash_files :: "tracked_info list \<Rightarrow> disk \<Rightarrow> (bool \<times> disk) option" where
  "remove_hash_files [] d = Some (False, d)"
| "remove_hash_files (i # is) d =
     (let infoPath = getInfoPath (ti_output i)
      in if \<not> file_exists_v1 (path_str infoPath) d then remove_hash_files is d
         else case hash_deps (file_text (path_str infoPath) d) of
                None \<Rightarrow> None
              | Some ws \<Rightarrow> (case remove_hashes (map path_from ws) d of
                              (True, d) \<Rightarrow> Some (True, d)
                            | (False, d) \<Rightarrow> remove_hash_files is d))"

definition set_incr_mode :: "string \<Rightarrow> incr_mode \<Rightarrow> tracked_info list \<Rightarrow> disk \<Rightarrow> (bool \<times> incr_mode \<times> disk) option" where
  "set_incr_mode modeStr mode pages d =
     (if modeStr = ''mod'' then
        (if mode = Incr_mod then Some (True, mode, d)
         else map_option (\<lambda>(failed, d). (failed, Incr_mod, d)) (remove_hash_files pages d))
      else if modeStr = ''hash'' then Some (mode = Incr_hash, Incr_hash, d)
      else if modeStr = ''hybrid'' then Some (mode = Incr_hyb, Incr_hyb, d)
      else Some (True, mode, d))"

section \<open>The hash\<close>

text \<open>Every byte is mixed in by a step that loses nothing: two texts that differ in one byte have different hashes.\<close>

lemma schar_inj: "schar c = schar c' \<longleftrightarrow> c = c'"
proof
  have b: "byte x < 256" for x :: char by (simp add: byte_def)
  have u: "unat (schar x) = (if byte x < 128 then byte x else byte x + 0xFFFFFF00)" for x
    using b [of x] by (simp add: schar_def unat_of_nat)
  assume "schar c = schar c'"
  then have "unat (schar c) = unat (schar c')" by simp
  then have "byte c = byte c'" using b [of c] b [of c'] unfolding u by (auto split: if_splits)
  then show "c = c'" by (simp add: byte_def)
qed simp

lemma fnv_prime_inverse: "(0x811C9DC5 :: 32 word) * 0xBD90D90D = 1"
  by simp

lemma xor_cancel: "(a :: 32 word) XOR b = c XOR b \<longleftrightarrow> a = c"
  by (metis xor.assoc xor.right_neutral xor_self_eq)

lemma fnv_step_inj: "fnv_step c h = fnv_step c h' \<longleftrightarrow> h = h'"
proof
  assume "fnv_step c h = fnv_step c h'"
  then have "h * 0x811C9DC5 = h' * 0x811C9DC5" by (simp only: fnv_step_def xor_cancel)
  then have "h * 0x811C9DC5 * 0xBD90D90D = h' * 0x811C9DC5 * 0xBD90D90D" by simp
  then show "h = h'" unfolding mult.assoc fnv_prime_inverse by simp
qed simp

lemma fnv_fold_inj: "fold fnv_step s h = fold fnv_step s h' \<longleftrightarrow> h = h'"
  by (induction s arbitrary: h h') (simp_all add: fnv_step_inj)

text \<open>The hash of a file changes whenever a single byte of it does.\<close>

lemma hash_one_byte: "FNVHash (a @ [c] @ b) = FNVHash (a @ [c'] @ b) \<longleftrightarrow> c = c'"
proof -
  have "fnv_step c h = fnv_step c' h \<longleftrightarrow> schar c = schar c'" for h
    unfolding fnv_step_def by (metis xor.commute xor_cancel)
  then show ?thesis by (simp add: FNVHash_def fnv_fold_inj schar_inj)
qed

text \<open>But NUL bytes in front leave no trace, since the hash starts at zero.\<close>

lemma hash_leading_NUL: "FNVHash (replicate n NUL @ s) = FNVHash s"
proof (induction n)
  case (Suc n)
  have "fnv_step NUL 0 = 0" by (simp add: fnv_step_def schar_def byte_def NUL_def)
  with Suc show ?case by (simp add: FNVHash_def)
qed simp

text \<open>What is written into a hash file is read back.\<close>

lemma take_sign_digit: "isdigit c \<Longrightarrow> take_sign (c # s) = (False, c # s)"
  by (auto simp: take_sign_def isdigit_def byte_def)

lemma digit_not_space: "isdigit c \<Longrightarrow> \<not> isspace c"
  by (auto simp: isdigit_def isspace_def byte_def)

lemma atoi_written: "atoi_unsigned (show_nat (unat (h :: 32 word)) @ [NL]) = h"
proof -
  obtain c r where s: "show_nat (unat h) = c # r" using show_nat_digits by (cases "show_nat (unat h)") auto
  have d: "\<forall>x\<in>set (show_nat (unat h)). isdigit x" using show_nat_digits [of "unat h"] by (simp add: list_all_iff)
  have c: "isdigit c" using d s by simp
  have "dropWhile isspace (show_nat (unat h) @ [NL]) = show_nat (unat h) @ [NL]" using s digit_not_space [OF c] by simp
  moreover have "take_sign (show_nat (unat h) @ [NL]) = (False, show_nat (unat h) @ [NL])" using s take_sign_digit [OF c] by simp
  moreover have "takeWhile isdigit (show_nat (unat h) @ [NL]) = show_nat (unat h)"
    using d by (simp add: takeWhile_append2) (simp add: isdigit_def byte_def NL_def)
  moreover have "unat h < 2 ^ 32" using unsigned_less [of h, where 'a = nat] by simp
  ultimately show ?thesis by (simp add: atoi_unsigned_def min_def)
qed

section \<open>When a page is built again\<close>

abbreviation (input) c_string :: "string \<Rightarrow> string" where "c_string \<equiv> takeWhile (\<lambda>c. c \<noteq> NUL)"

lemma check_deps_strings:
  "pc_updated (check_deps st (map JStr ss) r) \<longleftrightarrow> pc_updated r \<or> (\<exists>s\<in>set ss. st (path_from (c_string s)) \<noteq> Dep_same)"
  "pc_problem (check_deps st (map JStr ss) r) = pc_problem r" "pc_aborts (check_deps st (map JStr ss) r) = pc_aborts r"
  by (induction ss arbitrary: r) (auto simp: Let_def split: dep_change.split)

text \<open>What the information file of a page records, and the dependencies that the user wrote down.\<close>

definition recorded :: "(string \<Rightarrow> json option) \<Rightarrow> disk \<Rightarrow> tracked_info \<Rightarrow> string \<Rightarrow> string \<Rightarrow> string \<Rightarrow> string list \<Rightarrow> bool" where
  "recorded parse d i name title tpl deps \<longleftrightarrow>
     (let infoPath = path_str (getInfoPath (ti_output i))
      in file_exists_v1 infoPath d \<and>
         (\<exists>kvs. parse (string_from_file infoPath d) = Some (JObj kvs) \<and> string_member ''name'' (JObj kvs) = Some name \<and>
            string_member ''title'' (JObj kvs) = Some title \<and> string_member ''template'' (JObj kvs) = Some tpl \<and>
            dependencies (JObj kvs) = Some (map JStr deps)))"

definition user_deps :: "(string \<Rightarrow> json option) \<Rightarrow> disk \<Rightarrow> tracked_info \<Rightarrow> string list \<Rightarrow> bool" where
  "user_deps parse d i deps \<longleftrightarrow>
     (let depsPath = path_str (getDepsPath (ti_content i))
      in if file_exists_v1 depsPath d
         then \<exists>kvs. parse (string_from_file depsPath d) = Some (JObj kvs) \<and> dependencies (JObj kvs) = Some (map JStr deps)
         else deps = [])"

lemma check_page_rule:
  assumes "file_exists_v1 (path_str (ti_content i)) d" "file_exists_v1 (path_str (ti_template i)) d"
    and "recorded parse d i name title tpl deps" "user_deps parse d i udeps"
  shows "pc_updated (check_page parse mode mtime d i) \<longleftrightarrow>
      ti_name i \<noteq> name \<or> ti_title i \<noteq> title \<or> \<not> path_eq (ti_template i) (path_from tpl) \<or>
      (\<exists>s\<in>set deps. dep_state mode mtime d (getInfoPath (ti_output i)) (path_from (c_string s)) \<noteq> Dep_same) \<or>
      (\<exists>s\<in>set udeps. user_dep_state mtime d (getInfoPath (ti_output i)) (path_from (c_string s)) \<noteq> Dep_same)"
    and "\<not> pc_problem (check_page parse mode mtime d i) \<and> \<not> pc_aborts (check_page parse mode mtime d i)"
proof -
  let ?st = "dep_state mode mtime d (getInfoPath (ti_output i))" and ?ust = "user_dep_state mtime d (getInfoPath (ti_output i))"
  have u: "check_user_deps parse mtime d i r = check_deps ?ust (map JStr udeps) r" for r
    using assms(4) by (auto simp: check_user_deps_def user_deps_def Let_def)
  have "check_page parse mode mtime d i =
      (if ti_name i \<noteq> name \<or> ti_title i \<noteq> title \<or> \<not> path_eq (ti_template i) (path_from tpl) then nothing\<lparr>pc_updated := True\<rparr>
       else check_deps ?ust (map JStr udeps) (check_deps ?st (map JStr deps) nothing))"
    using assms(1-3) by (auto simp: check_page_def recorded_def u Let_def)
  then show "pc_updated (check_page parse mode mtime d i) \<longleftrightarrow>
      ti_name i \<noteq> name \<or> ti_title i \<noteq> title \<or> \<not> path_eq (ti_template i) (path_from tpl) \<or>
      (\<exists>s\<in>set deps. ?st (path_from (c_string s)) \<noteq> Dep_same) \<or> (\<exists>s\<in>set udeps. ?ust (path_from (c_string s)) \<noteq> Dep_same)"
    "\<not> pc_problem (check_page parse mode mtime d i) \<and> \<not> pc_aborts (check_page parse mode mtime d i)"
    by (auto simp: check_deps_strings nothing_def)
qed

section \<open>Every page is checked once\<close>

inductive_cases ck_stepE: "ck_step check pages s s'"

definition in_hand :: "('a, 'r) page_checks \<Rightarrow> 'a set" where
  "in_hand s = {i. Checking i \<in> set (ck_workers s)}"

definition ck_inv :: "('a \<Rightarrow> 'r) \<Rightarrow> 'a list \<Rightarrow> ('a, 'r) page_checks \<Rightarrow> bool" where
  "ck_inv check pages s \<longleftrightarrow> ck_next s \<le> length pages \<and>
     ck_found s \<union> (\<lambda>i. (i, check i)) ` in_hand s = (\<lambda>i. (i, check i)) ` set (take (ck_next s) pages) \<and>
     (Ended \<in> set (ck_workers s) \<longrightarrow> ck_next s = length pages)"

lemma in_hand_take:
  assumes "t < length ws" "ws ! t = Idle"
  shows "{i. Checking i \<in> set (ws[t := Checking x])} = insert x {i. Checking i \<in> set ws}"
  using assms by (auto simp: in_set_conv_nth nth_list_update split: if_splits) (metis worker.distinct(1))

lemma in_hand_end:
  assumes "t < length ws" "ws ! t = Idle"
  shows "{i. Checking i \<in> set (ws[t := Ended])} = {i. Checking i \<in> set ws}"
  using assms by (auto simp: in_set_conv_nth nth_list_update split: if_splits) (metis worker.distinct(1))

lemma in_hand_report:
  assumes "t < length ws" "ws ! t = Checking x"
  shows "insert x {i. Checking i \<in> set (ws[t := Idle])} = {i. Checking i \<in> set ws}"
  using assms by (auto simp: in_set_conv_nth nth_list_update split: if_splits) (metis worker.inject)

lemma ck_inv_step: "ck_step check pages s s' \<Longrightarrow> ck_inv check pages s \<Longrightarrow> ck_inv check pages s'"
proof (induction rule: ck_step.induct)
  case (Ck_take t s)
  have "Ended \<in> set ((ck_workers s)[t := Checking (pages ! ck_next s)]) \<Longrightarrow> Ended \<in> set (ck_workers s)"
    using set_update_subset_insert by fastforce
  with Ck_take show ?case
    by (auto simp: ck_inv_def in_hand_def in_hand_take take_Suc_conv_app_nth)
next
  case (Ck_report t s i)
  have "Ended \<in> set ((ck_workers s)[t := Idle]) \<Longrightarrow> Ended \<in> set (ck_workers s)"
    using set_update_subset_insert by fastforce
  moreover have "insert (i, check i) (ck_found s) \<union> (\<lambda>i. (i, check i)) ` {j. Checking j \<in> set ((ck_workers s)[t := Idle])} =
      ck_found s \<union> (\<lambda>i. (i, check i)) ` in_hand s"
    using in_hand_report [OF Ck_report(1,2)] by (auto simp: in_hand_def)
  ultimately show ?case using Ck_report by (simp add: ck_inv_def in_hand_def)
next
  case (Ck_end t s)
  then show ?case by (auto simp: ck_inv_def in_hand_def in_hand_end)
qed

lemma ck_workers_step: "ck_step check pages s s' \<Longrightarrow> length (ck_workers s') = length (ck_workers s)"
  by (erule ck_stepE) auto

lemma ck_reachable: "(ck_step check pages)\<^sup>*\<^sup>* (ck_start n) s \<Longrightarrow> ck_inv check pages s \<and> length (ck_workers s) = n"
proof (induction rule: rtranclp_induct)
  case base
  then show ?case by (auto simp: ck_inv_def ck_start_def in_hand_def)
next
  case (step s s')
  then show ?case using ck_inv_step ck_workers_step by metis
qed

lemma ck_progress: "\<not> ck_finished s \<Longrightarrow> \<exists>s'. ck_step check pages s s'"
proof -
  assume "\<not> ck_finished s"
  then obtain t where t: "t < length (ck_workers s)" "ck_workers s ! t \<noteq> Ended" by (auto simp: ck_finished_def in_set_conv_nth)
  then consider "ck_workers s ! t = Idle" | i where "ck_workers s ! t = Checking i" by (cases "ck_workers s ! t") auto
  then show ?thesis
  proof cases
    case 1
    then show ?thesis using Ck_take [OF t(1)] Ck_end [OF t(1)] by blast
  next
    case 2
    then show ?thesis using Ck_report [OF t(1)] by blast
  qed
qed

fun worker_weight :: "'a worker \<Rightarrow> nat" where
  "worker_weight Idle = 1" | "worker_weight (Checking i) = 2" | "worker_weight Ended = 0"

definition ck_left :: "'a list \<Rightarrow> ('a, 'r) page_checks \<Rightarrow> nat" where
  "ck_left pages s = 2 * (length pages - ck_next s) + sum_list (map worker_weight (ck_workers s))"

lemma ck_left_step: "ck_step check pages s s' \<Longrightarrow> ck_left pages s' < ck_left pages s"
proof -
  have w: "sum_list (map worker_weight (ws[t := x])) + worker_weight (ws ! t) = sum_list (map worker_weight ws) + worker_weight x"
    if "t < length ws" for ws :: "'a worker list" and t x
    using that by (induction ws arbitrary: t) (auto simp: nth_Cons' less_Suc_eq_0_disj split: nat.split)
  show "ck_step check pages s s' \<Longrightarrow> ck_left pages s' < ck_left pages s"
  proof (induction rule: ck_step.induct)
    case (Ck_take t s)
    with w [OF Ck_take(1), of "Checking (pages ! ck_next s)"] show ?case by (simp add: ck_left_def)
  next
    case (Ck_report t s i)
    with w [OF Ck_report(1), of Idle] show ?case by (simp add: ck_left_def)
  next
    case (Ck_end t s)
    with w [OF Ck_end(1), of Ended] show ?case by (simp add: ck_left_def)
  qed
qed

lemma ck_left_run: "(ck_step check pages ^^ k) s s' \<Longrightarrow> k + ck_left pages s' \<le> ck_left pages s"
proof (induction k arbitrary: s')
  case (Suc k)
  then obtain u where "(ck_step check pages ^^ k) s u" "ck_step check pages u s'" by auto
  with Suc.IH [of u] ck_left_step [of check pages u s'] show ?case by simp
qed simp

text \<open>C24: Checking the pages with at least one thread comes to an end and leaves no page out.  However the steps of
  the threads interleave, no run has more than two steps for each page and one for each thread; and where
  a run can go no further, all threads have ended, and the pages that were reported, with what the check
  gives for them, are exactly the pages of the project.\<close>

theorem threads_check_all:
  assumes "0 < n"
  shows "(\<forall>k s. (ck_step check pages ^^ k) (ck_start n) s \<longrightarrow> k \<le> 2 * length pages + n) \<and>
    (\<forall>s. (ck_step check pages)\<^sup>*\<^sup>* (ck_start n) s \<longrightarrow> (\<forall>s'. \<not> ck_step check pages s s') \<longrightarrow>
       ck_finished s \<and> ck_found s = (\<lambda>i. (i, check i)) ` set pages)"
proof (intro conjI allI impI)
  fix k s assume "(ck_step check pages ^^ k) (ck_start n) s"
  from ck_left_run [OF this] show "k \<le> 2 * length pages + n" by (simp add: ck_left_def ck_start_def sum_list_replicate)
next
  fix s assume r: "(ck_step check pages)\<^sup>*\<^sup>* (ck_start n) s" and "\<forall>s'. \<not> ck_step check pages s s'"
  with ck_progress show f: "ck_finished s" by blast
  note r = ck_reachable [OF r]
  obtain w where "w \<in> set (ck_workers s)" using r assms by (cases "ck_workers s") auto
  with f have "Ended \<in> set (ck_workers s)" by (auto simp: ck_finished_def)
  moreover have "in_hand s = {}" using f by (auto simp: ck_finished_def in_hand_def)
  ultimately show "ck_found s = (\<lambda>i. (i, check i)) ` set pages" using r by (auto simp: ck_inv_def)
qed

lemma threads_check_all_witness:
  "\<exists>s. (ck_step Suc [7])\<^sup>*\<^sup>* (ck_start 1) s \<and> ck_finished s \<and> ck_found s = {(7, 8)}"
proof -
  let ?a = "\<lparr>ck_next = 1, ck_workers = [Checking 7], ck_found = {}\<rparr> :: (nat, nat) page_checks"
  let ?b = "\<lparr>ck_next = 1, ck_workers = [Idle], ck_found = {(7, 8)}\<rparr> :: (nat, nat) page_checks"
  let ?c = "\<lparr>ck_next = 1, ck_workers = [Ended], ck_found = {(7, 8)}\<rparr> :: (nat, nat) page_checks"
  have "ck_step Suc [7] (ck_start 1) ?a" using Ck_take [of 0 "ck_start 1" "[7]" Suc] by (simp add: ck_start_def)
  moreover have "ck_step Suc [7] ?a ?b" using Ck_report [of 0 ?a 7 Suc "[7]"] by simp
  moreover have "ck_step Suc [7] ?b ?c" using Ck_end [of 0 ?b "[7]" Suc] by simp
  ultimately have r: "(ck_step Suc [7])\<^sup>*\<^sup>* (ck_start 1) ?c" by (meson r_into_rtranclp rtranclp_trans)
  have "\<forall>s'. \<not> ck_step Suc [7] ?c s'" by (auto elim: ck_stepE)
  with r threads_check_all [OF zero_less_one, of Suc "[7 :: nat]"] have "ck_finished ?c \<and> ck_found ?c = (\<lambda>i. (i, Suc i)) ` set [7]" by blast
  with r show ?thesis by (intro exI [of _ ?c]) simp
qed

text \<open>Without a thread, as where the number of cores is not known, nothing is checked at all.\<close>

lemma no_cores: "no_threads (-1) 0 = 0" "ck_finished (ck_start 0 :: ('a, 'r) page_checks)" "ck_found (ck_start 0 :: ('a, 'r) page_checks) = {}"
  by (simp_all add: no_threads_def ck_finished_def ck_start_def)

section \<open>Edge cases\<close>

text \<open>A page without a template, which may be tracked and built, is a problem in every check.\<close>

lemma blank_template: "path_str (ti_template i) = [] \<Longrightarrow> pc_problem (check_page parse mode mtime d i) \<and> \<not> pc_updated (check_page parse mode mtime d i)"
  by (simp add: check_page_def Let_def file_exists_v1_def stat_def nothing_def)

text \<open>
  Leaving the hash mode is to remove the hash files, but the information files are read as they were before they
  became JSON: what is read from one is its text in pieces, and none of them is a dependency.
\<close>

definition info_example :: string where
  "info_example =
     ''{'' @ [NL] @ [DQ] @ ''last-built'' @ [DQ] @ '': 0,'' @ [NL] @ [DQ] @ ''name'' @ [DQ] @ '': 0,'' @ [NL] @ [DQ] @ ''title'' @ [DQ] @ '': 0,'' @ [NL] @
     [DQ] @ ''template'' @ [DQ] @ '': '' @ [DQ] @ ''t'' @ [DQ] @ '','' @ [NL] @ [DQ] @ ''dependencies'' @ [DQ] @ '': ['' @ [NL] @
     [DQ] @ ''c'' @ [DQ] @ '','' @ [NL] @ [DQ] @ ''t'' @ [DQ] @ [NL] @ '']'' @ [NL] @ ''}''"

lemma hash_deps_json:
  "hash_deps info_example =
     Some [''template'' @ [DQ] @ '': '' @ [DQ] @ ''t'' @ [DQ] @ '', '' @ [DQ] @ ''dependencies'' @ [DQ] @ '': [ '' @ [DQ] @ ''c'' @ [DQ] @ '', '' @ [DQ] @ ''t'',
           '']'', ''}'']"
  by code_simp

end
