(* ===== verification/Nift1_Build.thy ===== *)
theory Nift1_Build
  imports Nift1_Status
begin

text \<open>
  Building one page in Nift 1: \<open>Parser::build\<close> of \<open>legacy/Parser.cpp\<close> with its hashes, scripts, pagination and
  information file, \<open>legacy/Pagination.h\<close>, and \<open>build_thread\<close> and \<open>pagination_thread\<close> of
  \<open>legacy/ProjectInfo.cpp\<close>.  The interpreters of the template languages are parameters, as functions on the parser's
  state: \<open>it_process\<close> is \<open>n_read_and_process_fast\<close>, \<open>it_replace\<close> is \<open>parse_replace\<close>, \<open>it_script\<close> is \<open>run_script\<close>.
  \<open>it_json\<close> is the JSON reader, \<open>it_stamp\<close> the time and date.
\<close>

section \<open>The parser's state\<close>

record pagination =
  pg_noItemsPerPage :: nat
  pg_noPages :: nat
  pg_cPageNo :: nat
  pg_indentAmount :: string
  pg_paginateName :: string
  pg_separator :: string
  pg_templateStr :: string
  pg_splitFile :: "string \<times> string"
  pg_items :: "string list"
  pg_pages :: "string list"

definition pagination_reset :: "pagination \<Rightarrow> pagination" where
  "pagination_reset g =
     g\<lparr>pg_cPageNo := 0, pg_noPages := 0, pg_noItemsPerPage := 25, pg_indentAmount := [], pg_paginateName := [],
       pg_separator := [NL, NL], pg_templateStr := ''$[paginate.page]'', pg_items := [], pg_pages := []\<rparr>"

text \<open>
  \<open>ps_hashed\<close> is the global set of the files whose hash has been looked at in this run, \<open>ps_paginationCounter\<close> the global
  counter of the threads that write pages.
\<close>

record parser_v1 =
  ps_toBuild :: tracked_info
  ps_pagesInfo :: pagination
  ps_depFiles :: "path_v1 list"
  ps_contentAdded :: bool
  ps_consoleLocked :: bool
  ps_hashed :: "path_v1 list"
  ps_paginationCounter :: nat
  ps_disk :: disk

record interpreters =
  it_process :: "string \<Rightarrow> parser_v1 \<Rightarrow> int \<times> string \<times> parser_v1"
  it_replace :: "string \<Rightarrow> parser_v1 \<Rightarrow> int \<times> string \<times> parser_v1"
  it_script :: "path_v1 \<Rightarrow> parser_v1 \<Rightarrow> int \<times> parser_v1"
  it_json :: "string \<Rightarrow> json option"
  it_stamp :: string

definition NSM_RET :: int where
  "NSM_RET = -2043"

section \<open>Dependencies and their hashes\<close>

fun insert_path :: "path_v1 \<Rightarrow> path_v1 list \<Rightarrow> path_v1 list" where
  "insert_path p [] = [p]"
| "insert_path p (q # qs) = (if path_less p q then p # q # qs else if path_eq p q then q # qs else q # insert_path p qs)"

definition write_hash :: "path_v1 \<Rightarrow> disk \<Rightarrow> disk" where
  "write_hash dep d =
     (let hashPath = getHashPath dep; hash = FNVHash (string_from_file (path_str dep) d)
      in if \<not> file_exists_v1 (path_str hashPath) d \<or> atoi_unsigned (string_from_file (path_str hashPath) d) \<noteq> hash
         then write_to (path_str hashPath) (show_nat (unat hash) @ [NL]) (ensureDirExists hashPath d)
         else d)"

definition add_dep :: "incr_mode \<Rightarrow> path_v1 \<Rightarrow> parser_v1 \<Rightarrow> parser_v1" where
  "add_dep mode dep s =
     (let s = (if mode \<noteq> Incr_mod \<and> \<not> list_ex (path_eq dep) (ps_hashed s)
               then s\<lparr>ps_hashed := dep # ps_hashed s, ps_disk := write_hash dep (ps_disk s)\<rparr> else s)
      in s\<lparr>ps_depFiles := insert_path dep (ps_depFiles s)\<rparr>)"

definition add_script_dep :: "incr_mode \<Rightarrow> path_v1 \<Rightarrow> parser_v1 \<Rightarrow> parser_v1" where
  "add_script_dep mode dep s = (if file_exists_v1 (path_str dep) (ps_disk s) then add_dep mode dep s else s)"

text \<open>The script of a page: its content file with a suffix and the script extension, which an old file may say.\<close>

definition page_scriptExt :: "string \<Rightarrow> tracked_info \<Rightarrow> disk \<Rightarrow> string" where
  "page_scriptExt ext i d =
     (let extPath = path_str (ext_path (getInfoPath (ti_output i)) ''.scriptExt'')
      in if file_exists_v1 extPath d then takeWhile (\<lambda>c. c \<noteq> NL) (file_text extPath d) else ext)"

definition page_script :: "string \<Rightarrow> string \<Rightarrow> tracked_info \<Rightarrow> path_v1" where
  "page_script sfx cScriptExt i = with_ext (ti_content i) (sfx @ cScriptExt)"

definition run_script :: "interpreters \<Rightarrow> path_v1 \<Rightarrow> parser_v1 \<Rightarrow> int \<times> parser_v1" where
  "run_script I script s = (if file_exists_v1 (path_str script) (ps_disk s) then it_script I script s else (0, s))"

section \<open>Pagination\<close>

text \<open>The number of pages of the last build; \<open>None\<close> is the library's failed assertion.\<close>

definition old_pages :: "interpreters \<Rightarrow> path_v1 \<Rightarrow> disk \<Rightarrow> nat option" where
  "old_pages I paginationPath d =
     (if \<not> file_exists_v1 (path_str paginationPath) d then Some 0
      else case it_json I (string_from_file (path_str paginationPath) d) of
             Some (JObj kvs) \<Rightarrow> (case map_of kvs ''no-pages'' of Some (JInt n) \<Rightarrow> if - (2 ^ 31) \<le> n \<and> n < 2 ^ 31 then Some (nat (n mod 2 ^ 64)) else None
                                                          | _ \<Rightarrow> None)
           | _ \<Rightarrow> None)"

definition set_output_file :: "string \<Rightarrow> parser_v1 \<Rightarrow> parser_v1" where
  "set_output_file f s = s\<lparr>ps_toBuild := (ps_toBuild s)\<lparr>ti_output := (ti_output (ps_toBuild s))\<lparr>p1_file := f\<rparr>\<rparr>\<rparr>"

definition page_file :: "string \<Rightarrow> nat \<Rightarrow> string \<Rightarrow> string" where
  "page_file name p ext = name @ show_nat (p + 1) @ ext"

definition pagination_text :: "nat \<Rightarrow> string" where
  "pagination_text n = [CHR ''{'', NL, CHR 0x09, DQ] @ ''no-pages'' @ [DQ] @ '': '' @ show_nat n @ [NL, CHR ''}'']"

definition paginate_here :: string where
  "paginate_here = ''__paginate_here__''"

text \<open>The blanks that stand for the characters of the line in front of the mark; the first character of the text is one of them.\<close>

definition indent_before :: "string \<Rightarrow> string" where
  "indent_before before = map (\<lambda>c. if c = CHR 0x09 then c else CHR '' '') (takeWhile (\<lambda>c. c \<noteq> NL) (rev before))"

text \<open>One page: its items, with the separator between them.  A failing item ends the build.\<close>

fun fill_page :: "interpreters \<Rightarrow> string \<Rightarrow> nat \<Rightarrow> bool \<Rightarrow> string list \<Rightarrow> string \<Rightarrow> parser_v1 \<Rightarrow> string option \<times> parser_v1" where
  "fill_page I outExt p first [] page s = (Some page, s)"
| "fill_page I outExt p first (item # items) page s =
     (let page = (if first then page else page @ pg_separator (ps_pagesInfo s));
          s = (if first then s else set_output_file (page_file (pg_paginateName (ps_pagesInfo s)) p outExt) s)
      in case it_replace I item s of
           (r, t, s) \<Rightarrow> if r \<noteq> 0 then (None, s) else fill_page I outExt p False items (page @ t) s)"

text \<open>\<open>items\<close> are those from the \<open>i\<close>th on; the settings of the pagination are read anew for each page.\<close>

primrec fill_pages :: "interpreters \<Rightarrow> string \<Rightarrow> string list \<Rightarrow> nat \<Rightarrow> nat \<Rightarrow> nat \<Rightarrow> parser_v1 \<Rightarrow> bool \<times> parser_v1" where
  "fill_pages I outExt items i p 0 s = (True, s)"
| "fill_pages I outExt items i p (Suc n) s =
     (let stop = min (i + length items) (Suc p * pg_noItemsPerPage (ps_pagesInfo s))
      in case fill_page I outExt p True (take (stop - i) items) [] s of
           (None, s) \<Rightarrow> (False, s)
         | (Some page, s) \<Rightarrow>
             fill_pages I outExt (drop (stop - i) items) (max i stop) (Suc p) n
               (s\<lparr>ps_pagesInfo := (ps_pagesInfo s)\<lparr>pg_pages := pg_pages (ps_pagesInfo s) @ [page]\<rparr>\<rparr>))"

definition remove_pages :: "string \<Rightarrow> string \<Rightarrow> string \<Rightarrow> nat \<Rightarrow> nat \<Rightarrow> disk \<Rightarrow> disk" where
  "remove_pages dir name outExt m n d =
     fold (\<lambda>p d. snd (remove_file_v1 (new_path dir (page_file name p outExt)) d)) [m..<n] d"

text \<open>The pages are made from the items that the interpreter has collected.\<close>

definition paginate :: "interpreters \<Rightarrow> string \<Rightarrow> nat \<Rightarrow> string \<Rightarrow> parser_v1 \<Rightarrow> string option \<times> parser_v1" where
  "paginate I outExt old parsed s =
     (let g = ps_pagesInfo s; items = pg_items g; per = pg_noItemsPerPage g;
          n = (length items + per - 1) div per;
          out = ti_output (ps_toBuild s);
          s = s\<lparr>ps_pagesInfo := g\<lparr>pg_noPages := n\<rparr>,
                ps_disk := write_to (path_str (getPaginationPath out)) (pagination_text n) (ps_disk s)\<rparr>
      in case find_sub paginate_here parsed of
           None \<Rightarrow> (None, s)
         | Some pos \<Rightarrow>
             (let before = take pos parsed; after = drop (pos + length paginate_here) parsed;
                  s = s\<lparr>ps_pagesInfo := (ps_pagesInfo s)\<lparr>pg_splitFile := (before, after), pg_indentAmount := indent_before before\<rparr>\<rparr>
              in case fill_pages I outExt items 0 0 n s of
                   (False, s) \<Rightarrow> (None, s)
                 | (True, s) \<Rightarrow>
                     (Some (before @ after),
                      s\<lparr>ps_pagesInfo := (ps_pagesInfo s)\<lparr>pg_items := []\<rparr>,
                        ps_disk := remove_pages (p1_dir out) (pg_paginateName (ps_pagesInfo s)) outExt n old (ps_disk s),
                        ps_toBuild := (ps_toBuild s)\<lparr>ti_output := out\<rparr>\<rparr>)))"

text \<open>A page that has no items any more loses the pages of its last build.\<close>

definition page_pages :: "interpreters \<Rightarrow> string \<Rightarrow> nat \<Rightarrow> bool \<Rightarrow> string \<Rightarrow> parser_v1 \<Rightarrow> string option \<times> parser_v1" where
  "page_pages I outExt old ok parsed s =
     (let out = ti_output (ps_toBuild s)
      in if ok \<and> pg_items (ps_pagesInfo s) \<noteq> [] then paginate I outExt old parsed s
         else (Some parsed,
               if old \<noteq> 0
               then s\<lparr>ps_disk := remove_pages (p1_dir out) (pg_paginateName (ps_pagesInfo s)) outExt 0 old
                      (snd (remove_file_v1 (getPaginationPath out) (ps_disk s)))\<rparr>
               else s))"

section \<open>The information file\<close>

definition info_line :: "string \<Rightarrow> string \<Rightarrow> string" where
  "info_line k v = [CHR 0x09, DQ] @ k @ [DQ, CHR '':'', CHR '' '', DQ] @ v @ [DQ, CHR '','', NL]"

definition info_text :: "string \<Rightarrow> tracked_info \<Rightarrow> path_v1 list \<Rightarrow> string" where
  "info_text stamp i deps =
     back_over ([CHR ''{'', NL] @ info_line ''last-built'' stamp @ info_line ''name'' (ti_name i) @
         info_line ''title'' (unquote_v1 (ti_title i)) @ info_line ''template'' (path_str (ti_template i)) @
         [CHR 0x09, DQ] @ ''dependencies'' @ [DQ, CHR '':'', CHR '' '', CHR ''['', NL] @
         concat (map (\<lambda>p. [CHR 0x09, CHR 0x09, DQ] @ path_str p @ [DQ, CHR '','', NL]) deps))
       [NL, CHR 0x09, CHR '']'', NL] @ ''}''"

definition write_info :: "interpreters \<Rightarrow> parser_v1 \<Rightarrow> parser_v1" where
  "write_info I s =
     (let infoPath = getInfoPath (ti_output (ps_toBuild s))
      in s\<lparr>ps_disk := write_to (path_str infoPath) (info_text (it_stamp I) (ps_toBuild s) (ps_depFiles s))
                        (ensureDirExists infoPath (ps_disk s))\<rparr>)"

section \<open>Building\<close>

text \<open>What comes after the text: the output, the post-build scripts and the information file.\<close>

definition finish_build :: "interpreters \<Rightarrow> string \<Rightarrow> string \<Rightarrow> incr_mode \<Rightarrow> int \<Rightarrow> nat \<Rightarrow> string \<Rightarrow> parser_v1 \<Rightarrow> int \<times> parser_v1" where
  "finish_build I ext cExt mode r noItems parsed s =
     (if \<not> ps_contentAdded s then (1, s)
      else let out = ti_output (ps_toBuild s);
               s = (if noItems = 0 then s\<lparr>ps_disk := write_to (path_str out) (parsed @ [NL]) (ensureDirExists out (ps_disk s))\<rparr> else s);
               s = add_script_dep mode (new_path [] (''post-build'' @ ext)) s;
               script = page_script ''-post-build'' cExt (ps_toBuild s);
               s = add_script_dep mode script s
           in case run_script I script s of
                (q, s) \<Rightarrow> if q \<noteq> 0 then (1, s) else (r, write_info I s))"

text \<open>What comes before it: the pre-build scripts; with the extension of the page's scripts.\<close>

definition pre_build :: "interpreters \<Rightarrow> string \<Rightarrow> incr_mode \<Rightarrow> tracked_info \<Rightarrow> parser_v1 \<Rightarrow> string \<times> int \<times> parser_v1" where
  "pre_build I ext mode i s =
     (let s = s\<lparr>ps_depFiles := []\<rparr>;
          cExt = page_scriptExt ext i (ps_disk s);
          s = add_script_dep mode (new_path [] (''pre-build'' @ ext)) s;
          script = page_script ''-pre-build'' cExt i;
          s = add_script_dep mode script s
      in (cExt, run_script I script s))"

text \<open>The text is made from the template, which is a dependency, or from the content where there is no template.\<close>

definition page_text_of :: "interpreters \<Rightarrow> incr_mode \<Rightarrow> tracked_info \<Rightarrow> parser_v1 \<Rightarrow> int \<times> string \<times> parser_v1" where
  "page_text_of I mode i s =
     (if path_str (ti_template i) = []
      then let s = s\<lparr>ps_contentAdded := True\<rparr> in it_process I (string_from_file (path_str (ti_content i)) (ps_disk s)) s
      else let s = add_dep mode (ti_template i) s in it_process I (string_from_file (path_str (ti_template i)) (ps_disk s)) s)"

text \<open>\<open>None\<close> is an assertion of the JSON library that fails, or a number of pages that is not defined.\<close>

definition build_v1 :: "interpreters \<Rightarrow> project_v1 \<Rightarrow> incr_mode \<Rightarrow> tracked_info \<Rightarrow> parser_v1 \<Rightarrow> (int \<times> parser_v1) option" where
  "build_v1 I p mode i s =
     (let s = s\<lparr>ps_toBuild := i\<rparr>
      in if \<not> file_exists_v1 (path_str (ti_content i)) (ps_disk s) then Some (1, s)
         else if path_str (ti_template i) \<noteq> [] \<and> \<not> file_exists_v1 (path_str (ti_template i)) (ps_disk s) then Some (1, s)
         else case pre_build I (scriptExt p) mode i s of
           (cExt, q, s) \<Rightarrow>
             if q \<noteq> 0 then Some (1, s)
             else let s = s\<lparr>ps_contentAdded := False, ps_pagesInfo := pagination_reset (ps_pagesInfo s)\<rparr>
                  in case old_pages I (getPaginationPath (ti_output (ps_toBuild s))) (ps_disk s) of
                       None \<Rightarrow> None
                     | Some old \<Rightarrow>
                         (case page_text_of I mode (ps_toBuild s) s of
                            (r, parsed, s) \<Rightarrow>
                              let ok = (r = NSM_RET \<or> r = 0); noItems = length (pg_items (ps_pagesInfo s))
                              in if ok \<and> noItems \<noteq> 0 \<and> pg_noItemsPerPage (ps_pagesInfo s) = 0 then None
                                 else case page_pages I (outputExt p) old ok parsed s of
                                   (None, s) \<Rightarrow> Some (1, s)
                                 | (Some parsed, s) \<Rightarrow>
                                     if ps_consoleLocked s then Some (1, s\<lparr>ps_consoleLocked := False\<rparr>)
                                     else if ok then Some (finish_build I (scriptExt p) cExt mode r noItems parsed s)
                                     else Some (r, s)))"

section \<open>A thread\<close>

text \<open>The pages of a paginated page, from their template; the first that fails ends the loop.\<close>

primrec render_pages :: "interpreters \<Rightarrow> string \<Rightarrow> nat \<Rightarrow> nat \<Rightarrow> int \<Rightarrow> parser_v1 \<Rightarrow> int \<times> parser_v1" where
  "render_pages I outExt p 0 r s = (r, s)"
| "render_pages I outExt p (Suc n) r s =
     (let s = (if p \<noteq> 0 then set_output_file (page_file (pg_paginateName (ps_pagesInfo s)) p outExt) s else s);
          s = s\<lparr>ps_pagesInfo := (ps_pagesInfo s)\<lparr>pg_cPageNo := Suc p\<rparr>\<rparr>
      in case it_replace I (pg_templateStr (ps_pagesInfo s)) s of
           (r, t, s) \<Rightarrow>
             if r \<noteq> 0 then (r, s)
             else render_pages I outExt (Suc p) n r
                    (s\<lparr>ps_pagesInfo := (ps_pagesInfo s)\<lparr>pg_pages := (pg_pages (ps_pagesInfo s))[p := t]\<rparr>\<rparr>))"

text \<open>The lines of a page that come after its first get the blanks of the mark's line.\<close>

fun read_lines :: "string \<Rightarrow> string list" where
  "read_lines [] = [[]]"
| "read_lines (c # cs) = (if c = NL then [] # read_lines cs else (c # hd (read_lines cs)) # tl (read_lines cs))"

definition page_output :: "pagination \<Rightarrow> string \<Rightarrow> string" where
  "page_output g page = fst (pg_splitFile g) @ join (read_lines page) (NL # pg_indentAmount g) @ snd (pg_splitFile g) @ [NL]"

definition write_page :: "pagination \<Rightarrow> string \<Rightarrow> path_v1 \<Rightarrow> nat \<Rightarrow> disk \<Rightarrow> disk" where
  "write_page g outExt out p d =
     (let out = (if p \<noteq> 0 then out\<lparr>p1_file := page_file (pg_paginateName g) p outExt\<rparr> else out)
      in write_to (path_str out) (page_output g (pg_pages g ! p)) (snd (remove_file_v1 out d)))"

text \<open>
  The pages are written by threads that count through them with the global counter, which is never set back; each of them
  adds one more when it finds no page left.
\<close>

definition write_pages :: "string \<Rightarrow> int \<Rightarrow> path_v1 \<Rightarrow> nat \<Rightarrow> parser_v1 \<Rightarrow> parser_v1" where
  "write_pages outExt paginateThreads out n s =
     (if paginateThreads \<le> 0 then s
      else s\<lparr>ps_disk := fold (write_page (ps_pagesInfo s) outExt out) [ps_paginationCounter s..<n] (ps_disk s),
             ps_paginationCounter := max (ps_paginationCounter s) n + nat paginateThreads\<rparr>)"

text \<open>One round of the thread's loop: what the page's build returns, and the state.\<close>

definition build_next :: "interpreters \<Rightarrow> project_v1 \<Rightarrow> incr_mode \<Rightarrow> int \<Rightarrow> tracked_info \<Rightarrow> parser_v1 \<Rightarrow> (int \<times> parser_v1) option" where
  "build_next I p mode paginateThreads i s =
     (case build_v1 I p mode i s of
        None \<Rightarrow> None
      | Some (r, s) \<Rightarrow>
          let n = length (pg_pages (ps_pagesInfo s));
              s = s\<lparr>ps_pagesInfo := (ps_pagesInfo s)\<lparr>pg_noPages := n\<rparr>\<rparr>
          in if n = 0 then Some (r, s)
             else let out = ti_output (ps_toBuild s)
                  in case render_pages I (outputExt p) 0 n r s of
                       (r, s) \<Rightarrow> Some (r, write_pages (outputExt p) paginateThreads out n s))"

text \<open>The pages that a thread takes, one after the other with the same parser: the names that failed and those built.\<close>

fun build_thread :: "interpreters \<Rightarrow> project_v1 \<Rightarrow> incr_mode \<Rightarrow> int \<Rightarrow> tracked_info list \<Rightarrow> string list \<times> string list \<Rightarrow> parser_v1 \<Rightarrow>
    ((string list \<times> string list) \<times> parser_v1) option" where
  "build_thread I p mode paginateThreads [] names s = Some (names, s)"
| "build_thread I p mode paginateThreads (i # is) (failed, built) s =
     (case build_next I p mode paginateThreads i s of
        None \<Rightarrow> None
      | Some (r, s) \<Rightarrow>
          build_thread I p mode paginateThreads is
            (if r \<noteq> 0 then (List.insert (ti_name i) failed, built) else (failed, List.insert (ti_name i) built)) s)"

section \<open>The information file is JSON\<close>

definition info_json :: "string \<Rightarrow> tracked_info \<Rightarrow> path_v1 list \<Rightarrow> (string \<times> json) list" where
  "info_json stamp i deps =
     map (apsnd JStr) [(''last-built'', stamp), (''name'', ti_name i), (''title'', unquote_v1 (ti_title i)), (''template'', path_str (ti_template i))] @
     [(''dependencies'', JArr (map (\<lambda>p. JStr (path_str p)) deps))]"

definition info_texts :: "string \<Rightarrow> tracked_info \<Rightarrow> path_v1 list \<Rightarrow> string list" where
  "info_texts stamp i deps = [stamp, ti_name i, unquote_v1 (ti_title i), path_str (ti_template i)] @ map path_str deps"

abbreviation (input) dep_text :: "path_v1 \<Rightarrow> string" where
  "dep_text p \<equiv> [CHR 0x09, CHR 0x09, DQ] @ path_str p @ [DQ]"

lemma info_line_json:
  assumes "json_plain k" "json_plain v" "json_members kvs (NL # u)"
  shows "json_members ((k, JStr v) # kvs) (NL # info_line k v @ u)"
  using JM_more [OF _ assms(1) _ _ JT_str [OF assms(2)] _ assms(3), of "[NL, CHR 0x09]" "[]" "'' ''" "[]"] by (simp add: info_line_def)

lemma deps_json:
  "deps \<noteq> [] \<Longrightarrow> \<forall>p\<in>set deps. json_plain (path_str p) \<Longrightarrow>
   json_elems (map (\<lambda>p. JStr (path_str p)) deps) (NL # join (map dep_text deps) comma_nl @ [NL, CHR 0x09])"
proof (induction deps)
  case (Cons p deps)
  have p: "json_text (JStr (path_str p)) ([DQ] @ path_str p @ [DQ])" using Cons.prems(2) by (intro JT_str) simp
  show ?case
  proof (cases "deps = []")
    case True
    from JE_last [OF _ p, of "[NL, CHR 0x09, CHR 0x09]" "[NL, CHR 0x09]"] show ?thesis by (simp add: True)
  next
    case False
    with Cons have "json_elems (map (\<lambda>p. JStr (path_str p)) deps) (NL # join (map dep_text deps) comma_nl @ [NL, CHR 0x09])" by simp
    from JE_more [OF _ p _ this, of "[NL, CHR 0x09, CHR 0x09]" "[]"] False show ?thesis by (simp add: join_Cons)
  qed
qed simp

lemma info_text_json:
  assumes "deps \<noteq> []" "\<forall>t\<in>set (info_texts stamp i deps). json_plain t"
  shows "json_text (JObj (info_json stamp i deps)) (info_text stamp i deps)"
proof -
  let ?d = "[CHR 0x09, DQ] @ ''dependencies'' @ [DQ, CHR '':'', CHR '' '']"
  let ?e = "NL # join (map dep_text deps) comma_nl @ [NL, CHR 0x09]"
  let ?l = "info_line ''last-built'' stamp @ info_line ''name'' (ti_name i) @ info_line ''title'' (unquote_v1 (ti_title i)) @
    info_line ''template'' (path_str (ti_template i))"
  have "concat (map (\<lambda>p. [CHR 0x09, CHR 0x09, DQ] @ path_str p @ [DQ, CHR '','', NL]) deps) =
      concat (map (\<lambda>x. x @ comma_nl) (map dep_text deps))" by (simp add: comp_def)
  also have "\<dots> = join (map dep_text deps) comma_nl @ comma_nl" using assms(1) by (intro concat_join) simp
  finally have c: "concat (map (\<lambda>p. [CHR 0x09, CHR 0x09, DQ] @ path_str p @ [DQ, CHR '','', NL]) deps) = \<dots>" .
  have "info_text stamp i deps = back_over (([CHR ''{'', NL] @ ?l @ ?d @ [CHR ''['', NL] @ join (map dep_text deps) comma_nl) @ comma_nl)
      [NL, CHR 0x09, CHR '']'', NL] @ ''}''" unfolding info_text_def c by simp
  also have "\<dots> = ''{'' @ (NL # ?l @ ?d @ (''['' @ ?e @ '']'') @ [NL]) @ ''}''" by (subst back_over_append) simp_all
  finally have t: "info_text stamp i deps = \<dots>" .
  have "json_text (JArr (map (\<lambda>p. JStr (path_str p)) deps)) (''['' @ ?e @ '']'')"
    using assms by (intro JT_arr deps_json) (auto simp: info_texts_def)
  from JM_last [OF _ _ _ _ this, of "[NL, CHR 0x09]" "''dependencies''" "[]" "'' ''" "[NL]"]
  have "json_members [(''dependencies'', JArr (map (\<lambda>p. JStr (path_str p)) deps))] (NL # ?d @ (''['' @ ?e @ '']'') @ [NL])"
    by (simp add: json_plain_def byte_def)
  note d = this
  have k: "json_plain ''last-built''" "json_plain ''name''" "json_plain ''title''" "json_plain ''template''"
    by (simp_all add: json_plain_def byte_def)
  have v: "json_plain stamp" "json_plain (ti_name i)" "json_plain (unquote_v1 (ti_title i))" "json_plain (path_str (ti_template i))"
    using assms(2) by (simp_all add: info_texts_def)
  have "json_members (info_json stamp i deps) (NL # ?l @ ?d @ (''['' @ ?e @ '']'') @ [NL])"
    using info_line_json [OF k(1) v(1) info_line_json [OF k(2) v(2) info_line_json [OF k(3) v(3) info_line_json [OF k(4) v(4) d]]]]
    by (simp only: info_json_def list.map apsnd_conv append.simps append_assoc)
  from JT_obj [OF this] show ?thesis unfolding t .
qed

section \<open>A page that is built is up to date\<close>

text \<open>What is asked of the interpreters: they build the page they were given, and take no dependency back.\<close>

definition kept :: "parser_v1 \<Rightarrow> parser_v1 \<Rightarrow> bool" where
  "kept s s' \<longleftrightarrow> ps_toBuild s' = ps_toBuild s \<and> (ps_depFiles s \<noteq> [] \<longrightarrow> ps_depFiles s' \<noteq> [])"

definition keeps_page :: "interpreters \<Rightarrow> bool" where
  "keeps_page I \<longleftrightarrow> (\<forall>t s. kept s (snd (snd (it_process I t s))) \<and> kept s (snd (snd (it_replace I t s)))) \<and>
     (\<forall>q s. kept s (snd (it_script I q s)))"

lemma kept_refl: "kept s s"
  by (simp add: kept_def)

lemma kept_trans: "kept s s' \<Longrightarrow> kept s' s'' \<Longrightarrow> kept s s''"
  by (simp add: kept_def)

lemma insert_path_ne [simp]: "insert_path p qs \<noteq> []"
  by (cases qs) auto

lemma kept_add_dep: "kept s (add_dep mode dep s)" "kept s (add_script_dep mode dep s)"
  by (simp_all add: kept_def add_dep_def add_script_dep_def Let_def)

lemma add_dep_ne: "ps_depFiles (add_dep mode dep s) \<noteq> []"
  by (simp add: add_dep_def Let_def)

lemma kept_run_script: "keeps_page I \<Longrightarrow> run_script I q s = (r, s') \<Longrightarrow> kept s s'"
  unfolding keeps_page_def run_script_def by (metis kept_refl snd_conv)

text \<open>While the pages are filled, only the output path may be another.\<close>

definition kept_pages :: "parser_v1 \<Rightarrow> parser_v1 \<Rightarrow> bool" where
  "kept_pages s s' \<longleftrightarrow> (\<forall>out. (ps_toBuild s')\<lparr>ti_output := out\<rparr> = (ps_toBuild s)\<lparr>ti_output := out\<rparr>) \<and>
     (ps_depFiles s \<noteq> [] \<longrightarrow> ps_depFiles s' \<noteq> [])"

lemma kept_pages_trans: "kept_pages s s' \<Longrightarrow> kept_pages s' s'' \<Longrightarrow> kept_pages s s''"
  by (simp add: kept_pages_def)

lemma kept_pages_file: "kept_pages (set_output_file f s) s' \<longleftrightarrow> kept_pages s s'"
  by (simp add: kept_pages_def set_output_file_def)

lemma kept_pages_info: "kept_pages s (s'\<lparr>ps_pagesInfo := g\<rparr>) = kept_pages s s'" "kept_pages (s\<lparr>ps_pagesInfo := g\<rparr>) s' = kept_pages s s'"
  by (simp_all add: kept_pages_def)

lemma kept_kept_pages: "kept s s' \<Longrightarrow> kept_pages s s'"
  by (simp add: kept_def kept_pages_def)

lemma kept_replace: "keeps_page I \<Longrightarrow> it_replace I t s = (r, u, s') \<Longrightarrow> kept_pages s s'"
  unfolding keeps_page_def by (metis kept_kept_pages snd_conv)

lemma fill_page_kept: "keeps_page I \<Longrightarrow> fill_page I outExt p first items page s = (q, s') \<Longrightarrow> kept_pages s s'"
proof (induction I outExt p first items page s rule: fill_page.induct)
  case (1 I outExt p first page s)
  then show ?case by (simp add: kept_pages_def)
next
  case (2 I outExt p first item items page s)
  obtain r t s1 where r: "it_replace I item (if first then s else set_output_file (page_file (pg_paginateName (ps_pagesInfo s)) p outExt) s) = (r, t, s1)"
    by (metis prod_cases3)
  have "kept_pages (if first then s else set_output_file (page_file (pg_paginateName (ps_pagesInfo s)) p outExt) s) s1"
    by (rule kept_replace [OF 2(2) r])
  then have k: "kept_pages s s1" by (simp add: kept_pages_file split: if_splits)
  show ?case
  proof (cases "r = 0")
    case False
    with 2(3) r have "s' = s1" by (auto simp: Let_def)
    with k show ?thesis by simp
  next
    case True
    with 2(3) r have f: "fill_page I outExt p False items ((if first then page else page @ pg_separator (ps_pagesInfo s)) @ t) s1 = (q, s')"
      by (auto simp: Let_def)
    have "kept_pages s1 s'" by (rule 2(1) [OF refl refl r [symmetric] refl _ 2(2) f]) (simp add: True)
    with k show ?thesis by (rule kept_pages_trans)
  qed
qed

lemma fill_pages_kept: "keeps_page I \<Longrightarrow> fill_pages I outExt items i p n s = (b, s') \<Longrightarrow> kept_pages s s'"
proof (induction n arbitrary: items i p s)
  case 0
  then show ?case by (simp add: kept_pages_def)
next
  case (Suc n)
  let ?stop = "min (i + length items) (Suc p * pg_noItemsPerPage (ps_pagesInfo s))"
  obtain q s1 where f: "fill_page I outExt p True (take (?stop - i) items) [] s = (q, s1)" by fastforce
  have k: "kept_pages s s1" by (rule fill_page_kept [OF Suc.prems(1) f])
  show ?case
  proof (cases q)
    case None
    with Suc.prems(2) f k show ?thesis by (simp add: Let_def)
  next
    case (Some page)
    let ?s2 = "s1\<lparr>ps_pagesInfo := (ps_pagesInfo s1)\<lparr>pg_pages := pg_pages (ps_pagesInfo s1) @ [page]\<rparr>\<rparr>"
    have "fill_pages I outExt (drop (?stop - i) items) (max i ?stop) (Suc p) n ?s2 = (b, s')"
      using Suc.prems(2) f Some by (simp add: Let_def)
    from Suc.IH [OF Suc.prems(1) this] have "kept_pages s1 s'" by (simp add: kept_pages_info)
    with k show ?thesis by (rule kept_pages_trans)
  qed
qed

lemma kept_update [simp]:
  "kept s (s'\<lparr>ps_disk := d\<rparr>) = kept s s'" "kept s (s'\<lparr>ps_pagesInfo := g\<rparr>) = kept s s'" "kept s (s'\<lparr>ps_contentAdded := b\<rparr>) = kept s s'"
  "kept s (s'\<lparr>ps_consoleLocked := b\<rparr>) = kept s s'" "kept (s\<lparr>ps_pagesInfo := g\<rparr>) s' = kept s s'" "kept (s\<lparr>ps_disk := d\<rparr>) s' = kept s s'"
  "kept (s\<lparr>ps_contentAdded := b\<rparr>) s' = kept s s'"
  by (simp_all add: kept_def)

lemma kept_pages_back: "kept_pages s s' \<Longrightarrow> kept s (s'\<lparr>ps_toBuild := (ps_toBuild s')\<lparr>ti_output := ti_output (ps_toBuild s)\<rparr>\<rparr>)"
  by (simp add: kept_pages_def kept_def)

lemma paginate_kept:
  assumes "keeps_page I" "paginate I outExt old parsed s = (Some t, s')"
  shows "kept s s'"
proof -
  let ?g = "ps_pagesInfo s" let ?n = "(length (pg_items ?g) + pg_noItemsPerPage ?g - 1) div pg_noItemsPerPage ?g"
  let ?out = "ti_output (ps_toBuild s)"
  obtain pos where pos: "find_sub paginate_here parsed = Some pos" using assms(2) by (auto simp: paginate_def Let_def split: option.splits)
  let ?before = "take pos parsed" and ?after = "drop (pos + length paginate_here) parsed"
  let ?s1 = "s\<lparr>ps_disk := write_to (path_str (getPaginationPath ?out)) (pagination_text ?n) (ps_disk s),
      ps_pagesInfo := ?g\<lparr>pg_noPages := ?n, pg_splitFile := (?before, ?after), pg_indentAmount := indent_before ?before\<rparr>\<rparr>"
  obtain b s2 where f: "fill_pages I outExt (pg_items ?g) 0 0 ?n ?s1 = (b, s2)" by fastforce
  have p: "paginate I outExt old parsed s =
      (if b then (Some (?before @ ?after), s2\<lparr>ps_pagesInfo := (ps_pagesInfo s2)\<lparr>pg_items := []\<rparr>,
         ps_disk := remove_pages (p1_dir ?out) (pg_paginateName (ps_pagesInfo s2)) outExt ?n old (ps_disk s2),
         ps_toBuild := (ps_toBuild s2)\<lparr>ti_output := ?out\<rparr>\<rparr>) else (None, s2))"
    using f pos by (simp add: paginate_def Let_def)
  from p assms(2) have s': "s' = s2\<lparr>ps_pagesInfo := (ps_pagesInfo s2)\<lparr>pg_items := []\<rparr>,
         ps_disk := remove_pages (p1_dir ?out) (pg_paginateName (ps_pagesInfo s2)) outExt ?n old (ps_disk s2),
         ps_toBuild := (ps_toBuild s2)\<lparr>ti_output := ?out\<rparr>\<rparr>" by (simp split: if_splits)
  from fill_pages_kept [OF assms(1) f] have "kept_pages s s2" by (simp add: kept_pages_def)
  from kept_pages_back [OF this] show ?thesis unfolding s' by (simp add: kept_def)
qed

lemma page_pages_kept: "keeps_page I \<Longrightarrow> page_pages I outExt old ok parsed s = (Some t, s') \<Longrightarrow> kept s s'"
  by (auto simp: page_pages_def Let_def kept_refl split: if_splits dest: paginate_kept)

lemma page_text_kept:
  assumes "keeps_page I" "path_str (ti_template i) \<noteq> []" "page_text_of I mode i s = (r, t, s')"
  shows "ps_toBuild s' = ps_toBuild s" "ps_depFiles s' \<noteq> []"
proof -
  let ?s = "add_dep mode (ti_template i) s"
  have "it_process I (string_from_file (path_str (ti_template i)) (ps_disk ?s)) ?s = (r, t, s')"
    using assms(2,3) by (simp add: page_text_of_def Let_def)
  then have "kept ?s s'" using assms(1) unfolding keeps_page_def by (metis snd_conv)
  then show "ps_toBuild s' = ps_toBuild s" "ps_depFiles s' \<noteq> []"
    using kept_add_dep(1) [of s mode "ti_template i"] add_dep_ne [of mode "ti_template i" s] by (simp_all add: kept_def)
qed

lemma pre_build_kept: "keeps_page I \<Longrightarrow> pre_build I ext mode i s = (e, q, s') \<Longrightarrow> ps_toBuild s' = ps_toBuild s"
  unfolding pre_build_def Let_def using kept_run_script kept_add_dep(2) by (fastforce simp: kept_def)

lemma finish_build_writes:
  assumes "keeps_page I" "finish_build I ext cExt mode r n t s = (0, s')"
  shows "\<exists>s1. kept s s1 \<and> s' = write_info I s1"
proof -
  let ?out = "ti_output (ps_toBuild s)"
  let ?s1 = "if n = 0 then s\<lparr>ps_disk := write_to (path_str ?out) (t @ [NL]) (ensureDirExists ?out (ps_disk s))\<rparr> else s"
  let ?s2 = "add_script_dep mode (new_path [] (''post-build'' @ ext)) ?s1"
  let ?q = "page_script ''-post-build'' cExt (ps_toBuild ?s2)"
  let ?s3 = "add_script_dep mode ?q ?s2"
  obtain q s4 where r: "run_script I ?q ?s3 = (q, s4)" by fastforce
  have "kept s ?s1" by (simp add: kept_refl)
  then have k: "kept s ?s3" by (rule kept_trans [OF kept_trans [OF _ kept_add_dep(2)] kept_add_dep(2)])
  have "kept s s4" by (rule kept_trans [OF k kept_run_script [OF assms(1) r]])
  moreover have "s' = write_info I s4"
    using assms(2) r by (auto simp: finish_build_def Let_def split: if_splits)
  ultimately show ?thesis by blast
qed

lemma build_writes_info:
  assumes "keeps_page I" "path_str (ti_template i) \<noteq> []" "build_v1 I p mode i s = Some (0, s')"
  shows "\<exists>s1. ps_toBuild s1 = i \<and> ps_depFiles s1 \<noteq> [] \<and> s' = write_info I s1"
proof -
  let ?s0 = "s\<lparr>ps_toBuild := i\<rparr>"
  obtain e q s1 where pre: "pre_build I (scriptExt p) mode i ?s0 = (e, q, s1)" by (metis prod_cases3)
  have i1: "ps_toBuild s1 = i" using pre_build_kept [OF assms(1) pre] by simp
  let ?s1 = "s1\<lparr>ps_contentAdded := False, ps_pagesInfo := pagination_reset (ps_pagesInfo s1)\<rparr>"
  note b = assms(3) [unfolded build_v1_def Let_def]
  have q: "q = 0" using b pre by (auto split: if_splits)
  obtain old where old: "old_pages I (getPaginationPath (ti_output (ps_toBuild ?s1))) (ps_disk ?s1) = Some old"
    using b pre q by (auto split: if_splits option.splits)
  obtain r t s2 where pt: "page_text_of I mode i ?s1 = (r, t, s2)" by (metis prod_cases3)
  have k2: "ps_toBuild s2 = i" "ps_depFiles s2 \<noteq> []" using page_text_kept [OF assms(1,2) pt] i1 by simp_all
  let ?ok = "r = NSM_RET \<or> r = 0"
  obtain u s3 where pages: "page_pages I (outputExt p) old ?ok t s2 = (u, s3)" by fastforce
  have rest: "(case (u, s3) of (None, s) \<Rightarrow> Some (1, s)
      | (Some parsed, s) \<Rightarrow> if ps_consoleLocked s then Some (1, s\<lparr>ps_consoleLocked := False\<rparr>)
          else if ?ok then Some (finish_build I (scriptExt p) e mode r (length (pg_items (ps_pagesInfo s2))) parsed s) else Some (r, s)) = Some (0, s')"
    using b pre q old pt i1 pages by (simp split: if_splits)
  then obtain v where v: "u = Some v" by (cases u) auto
  have k3: "kept s2 s3" by (rule page_pages_kept [OF assms(1) pages [unfolded v]])
  have "finish_build I (scriptExt p) e mode r (length (pg_items (ps_pagesInfo s2))) v s3 = (0, s')"
    using rest v by (auto split: if_splits)
  from finish_build_writes [OF assms(1) this] obtain s4 where "kept s3 s4" "s' = write_info I s4" by blast
  with k2 k3 show ?thesis by (intro exI [of _ s4]) (auto simp: kept_def)
qed

lemma write_to_access [simp]: "dk_deny (write_to p c d) = dk_deny d" "dk_unreadable (write_to p c d) = dk_unreadable d"
  by (simp_all add: write_to_def open_write_def)

lemma write_to_read:
  assumes "file_exists_v1 p (write_to p c d)" "\<not> dk_deny (write_to p c d) (disk_node p)" "\<not> dk_unreadable (write_to p c d) (disk_node p)"
    and "wf_disk (write_to p c d)"
  shows "file_text p (write_to p c d) = c"
proof (cases "fst (open_write p d)")
  case True
  then have "p \<noteq> []" "\<not> spells_dir p" "open_write p d = (True, put (disk_node p) (File []) d)" by (auto simp: open_write_def split: if_splits)
  moreover have "disk_node p \<noteq> []" using True by (auto simp: open_write_def split: if_splits)
  ultimately show ?thesis using assms(3) by (simp add: write_to_def file_text_def stat_def)
next
  case False
  then have w: "write_to p c d = d" by (auto simp: write_to_def open_write_def split: if_splits)
  then obtain e where "stat p d = Some (File e)" using assms(1) by (auto simp: file_exists_v1_def split: option.splits fs_entry.splits)
  then have "p \<noteq> []" "\<not> spells_dir p" "on_disk d (disk_node p) = Some (File e)" by (simp_all add: stat_File)
  with False assms(2) wf_parent [of d "disk_node p"] assms(4) show ?thesis by (simp add: open_write_def w)
qed

lemma info_recorded:
  assumes "reads_json parse" "deps \<noteq> []" "\<forall>t\<in>set (info_texts stamp i deps). json_plain t"
    and "file_text (path_str (getInfoPath (ti_output i))) d = info_text stamp i deps"
    and "file_exists_v1 (path_str (getInfoPath (ti_output i))) d"
  shows "recorded parse d i (ti_name i) (unquote_v1 (ti_title i)) (path_str (ti_template i)) (map path_str deps)"
proof -
  have j: "json_text (JObj (info_json stamp i deps)) (info_text stamp i deps)" by (rule info_text_json [OF assms(2,3)])
  have "string_from_file (path_str (getInfoPath (ti_output i))) d = info_text stamp i deps"
    unfolding string_from_file_def assms(4) takeWhile_eq_all_conv using json_no_NUL(1) [OF j] by auto
  then have p: "parse (string_from_file (path_str (getInfoPath (ti_output i))) d) = Some (JObj (info_json stamp i deps))"
    using assms(1) j by (simp add: reads_json_def)
  have "json_plain (ti_name i)" "json_plain (unquote_v1 (ti_title i))" "json_plain (path_str (ti_template i))"
    using assms(3) by (simp_all add: info_texts_def)
  then show ?thesis unfolding recorded_def Let_def using assms(5) p
    by (intro conjI exI [of _ "info_json stamp i deps"])
      (simp_all add: info_json_def string_member_def dependencies_def plain_no_NUL comp_def)
qed

text \<open>C19: A page that was built is not built again for nothing.  After a build that succeeds, checking the page reports
  no problem and does not fail, and the page is built again exactly when its title is a quoted one, when a
  dependency that the build recorded has changed or is gone, or when one that the user wrote down has.  This holds
  for a page with a template, whose path follows from its text, and whose content and template files are still there, on a disk
  that is a tree; when the time stamp, the name, the title without its quotes, the template and the dependencies have no quotation mark, backslash or control character; when the information file could be
  written and can be read; when the user's dependencies, if there is a file of them, are a JSON list; and for interpreters of the
  template language that do not change which page is built or forget its dependencies.\<close>

theorem build_then_check:
  assumes "build_v1 I p mode i s = Some (0, s')" "keeps_page I" "reads_json (it_json I)" "path_str (ti_template i) \<noteq> []"
    and "\<forall>t\<in>set (info_texts (it_stamp I) i (ps_depFiles s')). json_plain t"
    and "wf_disk (ps_disk s')" "file_exists_v1 (path_str (getInfoPath (ti_output i))) (ps_disk s')"
    and "\<not> dk_deny (ps_disk s') (disk_node (path_str (getInfoPath (ti_output i))))"
    and "\<not> dk_unreadable (ps_disk s') (disk_node (path_str (getInfoPath (ti_output i))))"
    and "file_exists_v1 (path_str (ti_content i)) (ps_disk s')" "file_exists_v1 (path_str (ti_template i)) (ps_disk s')"
    and "path_from (path_str (ti_template i)) = ti_template i" "user_deps (it_json I) (ps_disk s') i udeps"
  shows "\<not> pc_problem (check_page (it_json I) mode mtime (ps_disk s') i) \<and> \<not> pc_aborts (check_page (it_json I) mode mtime (ps_disk s') i) \<and>
    (pc_updated (check_page (it_json I) mode mtime (ps_disk s') i) \<longleftrightarrow>
       ti_title i \<noteq> unquote_v1 (ti_title i) \<or>
       (\<exists>dep\<in>set (ps_depFiles s'). dep_state mode mtime (ps_disk s') (getInfoPath (ti_output i)) (path_from (path_str dep)) \<noteq> Dep_same) \<or>
       (\<exists>u\<in>set udeps. user_dep_state mtime (ps_disk s') (getInfoPath (ti_output i)) (path_from (c_string u)) \<noteq> Dep_same))"
proof -
  let ?info = "path_str (getInfoPath (ti_output i))" and ?d = "ps_disk s'" and ?deps = "ps_depFiles s'"
  obtain s1 where s1: "ps_toBuild s1 = i" "ps_depFiles s1 \<noteq> []" "s' = write_info I s1"
    using build_writes_info [OF assms(2,4,1)] by blast
  then have deps: "?deps \<noteq> []" and d: "?d = write_to ?info (info_text (it_stamp I) i ?deps) (ensureDirExists (getInfoPath (ti_output i)) (ps_disk s1))"
    by (simp_all add: write_info_def Let_def)
  have "file_text ?info ?d = info_text (it_stamp I) i ?deps" using assms(6-9) unfolding d by (intro write_to_read)
  from info_recorded [OF assms(3) deps assms(5) this assms(7)]
  have r: "recorded (it_json I) ?d i (ti_name i) (unquote_v1 (ti_title i)) (path_str (ti_template i)) (map path_str ?deps)" .
  have n: "c_string (path_str dep) = path_str dep" if "dep \<in> set ?deps" for dep
    using assms(5) that by (intro plain_no_NUL) (auto simp: info_texts_def)
  show ?thesis using check_page_rule [OF assms(10,11) r assms(13), of mode mtime] n by (auto simp: assms(12) path_eq_def)
qed

text \<open>An interpreter that puts the template out as it is, and a project with one page.\<close>

definition plain_interpreters :: interpreters where
  "plain_interpreters = \<lparr>it_process = (\<lambda>t s. (0, t, s\<lparr>ps_contentAdded := True\<rparr>)), it_replace = (\<lambda>t s. (0, t, s)), it_script = (\<lambda>q s. (0, s)),
     it_json = small_parse, it_stamp = ''12:00:00 01/01/2026''\<rparr>"

definition one_page :: tracked_info where
  "one_page = \<lparr>ti_name = ''a'', ti_title = ''A'', ti_output = new_path ''o/'' ''a.html'', ti_content = new_path ''c/'' ''a.content'',
     ti_template = new_path [] ''t'', ti_contentExt = [], ti_outputExt = [], ti_scriptExt = []\<rparr>"

definition one_page_disk :: disk where
  "one_page_disk = \<lparr>dk_tree = [([''.nift''], Dir), ([''c''], Dir), ([''c'', ''a.content''], File ''text''), ([''t''], File ''T'')],
     dk_deny = (\<lambda>_. False), dk_unreadable = (\<lambda>_. False)\<rparr>"

definition new_pagination :: pagination where
  "new_pagination = pagination_reset \<lparr>pg_noItemsPerPage = 0, pg_noPages = 0, pg_cPageNo = 0, pg_indentAmount = [], pg_paginateName = [],
     pg_separator = [], pg_templateStr = [], pg_splitFile = ([], []), pg_items = [], pg_pages = []\<rparr>"

definition new_parser :: "tracked_info \<Rightarrow> disk \<Rightarrow> parser_v1" where
  "new_parser i d = \<lparr>ps_toBuild = i, ps_pagesInfo = new_pagination, ps_depFiles = [], ps_contentAdded = False, ps_consoleLocked = False,
     ps_hashed = [], ps_paginationCounter = 0, ps_disk = d\<rparr>"

definition one_page_project :: project_v1 where
  "one_page_project = \<lparr>contentDir = ''c/'', outputDir = ''o/'', contentExt = ''.content'', outputExt = ''.html'', scriptExt = ''.f'',
     defaultTemplate = new_path [] ''t'', trackedAll = [one_page], p1_disk = one_page_disk\<rparr>"

definition one_page_built :: "incr_mode \<Rightarrow> (int \<times> parser_v1) option" where
  "one_page_built mode = build_v1 plain_interpreters one_page_project mode one_page (new_parser one_page one_page_disk)"

definition built_state :: "incr_mode \<Rightarrow> parser_v1" where
  "built_state mode = (case one_page_built mode of Some (r, s) \<Rightarrow> s | None \<Rightarrow> new_parser one_page one_page_disk)"

lemma built_facts:
  "map_option fst (one_page_built Incr_mod) = Some 0"
  "ps_depFiles (built_state Incr_mod) = [new_path [] ''t'']"
  "wf_disk (ps_disk (built_state Incr_mod))"
  "file_exists_v1 (path_str (getInfoPath (ti_output one_page))) (ps_disk (built_state Incr_mod))"
  "\<not> dk_deny (ps_disk (built_state Incr_mod)) (disk_node (path_str (getInfoPath (ti_output one_page))))"
  "\<not> dk_unreadable (ps_disk (built_state Incr_mod)) (disk_node (path_str (getInfoPath (ti_output one_page))))"
  "file_exists_v1 (path_str (ti_content one_page)) (ps_disk (built_state Incr_mod))"
  "file_exists_v1 (path_str (ti_template one_page)) (ps_disk (built_state Incr_mod))"
  "\<not> file_exists_v1 (path_str (getDepsPath (ti_content one_page))) (ps_disk (built_state Incr_mod))"
  "string_from_file ''o/a.html'' (ps_disk (built_state Incr_mod)) = ''T'' @ [NL]"
  by code_simp+

lemma plain_keeps_page: "keeps_page plain_interpreters"
  by (simp add: keeps_page_def plain_interpreters_def kept_refl)

lemma build_then_check_witness:
  "\<not> pc_problem (check_page small_parse Incr_mod (\<lambda>_. 0) (ps_disk (built_state Incr_mod)) one_page) \<and>
   \<not> pc_updated (check_page small_parse Incr_mod (\<lambda>_. 0) (ps_disk (built_state Incr_mod)) one_page)"
proof -
  let ?s = "built_state Incr_mod"
  have j: "it_json plain_interpreters = small_parse" by (simp add: plain_interpreters_def)
  have b: "build_v1 plain_interpreters one_page_project Incr_mod one_page (new_parser one_page one_page_disk) = Some (0, ?s)"
    using built_facts(1) by (cases "one_page_built Incr_mod") (auto simp: built_state_def one_page_built_def)
  have r: "reads_json (it_json plain_interpreters)" by (simp add: j small_parse_reads)
  have t: "path_str (ti_template one_page) \<noteq> []" by code_simp
  have p: "\<forall>t\<in>set (info_texts (it_stamp plain_interpreters) one_page (ps_depFiles ?s)). json_plain t"
    unfolding built_facts(2) by code_simp
  have f: "path_from (path_str (ti_template one_page)) = ti_template one_page" by code_simp
  have u: "user_deps (it_json plain_interpreters) (ps_disk ?s) one_page []"
    using built_facts(9) by (simp add: user_deps_def)
  have q: "ti_title one_page = unquote_v1 (ti_title one_page)" by code_simp
  have tt: "ti_template one_page = new_path [] ''t''" by (simp add: one_page_def)
  have d: "dep_state Incr_mod (\<lambda>_. 0) (ps_disk ?s) (getInfoPath (ti_output one_page)) (path_from (path_str (new_path [] ''t''))) = Dep_same"
    using built_facts(8) f unfolding tt by (simp add: dep_state_def modified_after_def)
  from build_then_check [OF b plain_keeps_page r t p built_facts(3-8) f u, of "\<lambda>_. 0"] q d show ?thesis
    unfolding built_facts(2) j by simp
qed

section \<open>Edge cases\<close>

text \<open>
  A build that fails before it starts leaves the pages of the page before it with the parser.  The thread then renders
  those again, over the output of the page that failed, and takes the result of that for the result of the build.
\<close>

lemma stale_pages:
  assumes "\<not> file_exists_v1 (path_str (ti_content i)) (ps_disk s)" "\<forall>t s. fst (it_replace I t s) = 0" "pg_pages (ps_pagesInfo s) \<noteq> []"
  shows "\<exists>s'. build_v1 I p mode i s = Some (1, s\<lparr>ps_toBuild := i\<rparr>) \<and> build_next I p mode threads i s = Some (0, s')"
proof -
  have b: "build_v1 I p mode i s = Some (1, s\<lparr>ps_toBuild := i\<rparr>)" using assms(1) by (simp add: build_v1_def)
  have r: "fst (render_pages I e q n r s) = (if n = 0 then r else 0)" for e q n r s
  proof (induction n arbitrary: q r s)
    case (Suc n)
    let ?s = "if q \<noteq> 0 then set_output_file (page_file (pg_paginateName (ps_pagesInfo s)) q e) s else s"
    let ?s' = "?s\<lparr>ps_pagesInfo := (ps_pagesInfo ?s)\<lparr>pg_cPageNo := Suc q\<rparr>\<rparr>"
    obtain k t s1 where k: "it_replace I (pg_templateStr (ps_pagesInfo ?s')) ?s' = (k, t, s1)" by (metis prod_cases3)
    with assms(2) have "k = 0" by (metis fst_conv)
    with k have "render_pages I e q (Suc n) r s =
        render_pages I e (Suc q) n 0 (s1\<lparr>ps_pagesInfo := (ps_pagesInfo s1)\<lparr>pg_pages := (pg_pages (ps_pagesInfo s1))[q := t]\<rparr>\<rparr>)"
      by (simp add: Let_def)
    with Suc show ?case by simp
  qed simp
  let ?n = "length (pg_pages (ps_pagesInfo s))"
  let ?s = "s\<lparr>ps_toBuild := i, ps_pagesInfo := (ps_pagesInfo s)\<lparr>pg_noPages := ?n\<rparr>\<rparr>"
  obtain x s1 where x: "render_pages I (outputExt p) 0 ?n 1 ?s = (x, s1)" by fastforce
  with r [of "outputExt p" 0 ?n 1 ?s] assms(3) have "x = 0" by simp
  with b x assms(3) show ?thesis by (simp add: build_next_def Let_def)
qed

text \<open>Since the counter goes on, a later page of a run has its first pages not written, and none of them if it has no more
  pages than there were before.\<close>

lemma later_pages_not_written:
  assumes "0 < t" "length (pg_pages (ps_pagesInfo s')) \<le> n"
  shows "ps_disk (write_pages e t' out' (length (pg_pages (ps_pagesInfo s'))) (s'\<lparr>ps_paginationCounter := ps_paginationCounter (write_pages e t out n s)\<rparr>)) = ps_disk s'"
  using assms by (simp add: write_pages_def)

text \<open>A page that paginates no more has no name for its old pages: what is removed are files that are named by a number only.\<close>

lemma old_pages_left:
  "remove_pages ''o/'' [] ''.html'' 0 2 d =
     snd (remove_file_v1 (new_path ''o/'' ''2.html'') (snd (remove_file_v1 (new_path ''o/'' ''1.html'') d)))"
proof -
  have "[0..<2] = [0, Suc 0]" by (simp add: upt_rec)
  moreover have "page_file [] 0 ''.html'' = ''1.html''" "page_file [] (Suc 0) ''.html'' = ''2.html''" by code_simp+
  ultimately show ?thesis by (simp add: remove_pages_def)
qed

text \<open>Without dependencies the information file is no JSON: the step back takes the bracket.\<close>

lemma no_deps_text:
  "info_text ''s'' one_page [] = ''{'' @ [NL] @ info_line ''last-built'' ''s'' @ info_line ''name'' ''a'' @ info_line ''title'' ''A'' @ info_line ''template'' ''t'' @
     [CHR 0x09, DQ] @ ''dependencies'' @ [DQ, CHR '':'', CHR '' '', NL, CHR 0x09, CHR '']'', NL, CHR ''}'']"
  by code_simp

text \<open>The text of a written page is its text with the blanks after every end of line, between the two halves.\<close>

lemma page_output_spec: "page_output g page = fst (pg_splitFile g) @ concat (map (\<lambda>c. if c = NL then NL # pg_indentAmount g else [c]) page) @ snd (pg_splitFile g) @ [NL]"
proof -
  have ne: "read_lines s \<noteq> []" for s by (cases s) simp_all
  have "join (read_lines page) (NL # pg_indentAmount g) = concat (map (\<lambda>c. if c = NL then NL # pg_indentAmount g else [c]) page)"
  proof (induction page)
    case (Cons c cs)
    obtain l ls where l: "read_lines cs = l # ls" using ne [of cs] by (cases "read_lines cs") auto
    with Cons show ?case by (cases ls) (auto simp: join_Cons)
  qed simp
  then show ?thesis by (simp add: page_output_def)
qed

end
