(* ===== verification/Spec2Isabelle.thy ===== *)
theory Spec2Isabelle
  imports Nift_Template Nift_Scanner Nift_Executor Nift_Highlight Nift_Commands Nift_Expr Nift_FrontMatter
    Nift_Serve Nift_Assets Nift_Plugin Nift_Markdown Nift_Images
    Nift_Tailwind_Watcher Nift_Bundler Nift_Lua Nift1_Build
begin

text \<open>
  A verification development for Nift 2, the static site generator under \<open>src/crates\<close>, and for the project core of
  Nift 1, its previous generation under \<open>src/legacy\<close>.

  \<^bold>\<open>The program.\<close>  A site is built by \<open>Pipeline::build\<close> (\<open>crates/build\<close>): each input becomes a task of
  the work-stealing pool, which maps the file into memory, hashes it, asks the persistent build
  cache (\<open>crates/project\<close>) whether it changed, and writes the output.  The content of a page is a
  template (\<open>crates/parser\<close>): the lexer splits it into tokens that keep every byte, the parser turns the
  tokens into a tree of nodes, and the evaluator walks the tree with a context of variables,
  directive handlers, functions and sections and appends to one output string.  At this commit the
  build does not call the template engine yet: it copies the text of each input, which \<open>build_output\<close>
  states.  \<open>serve\<close> (\<open>crates/cli\<close>, \<open>crates/server\<close>) builds, answers requests from the output directory and
  builds again when the watcher reports a change.  Strings, paths, quoting, errors and the file
  system come from \<open>crates/core\<close>; the crates for images, assets, Tailwind, Markdown and plugins are
  libraries beside these.

  Nift 1 keeps a list of tracked pages (\<open>ProjectInfo.cpp\<close>): a name, a title, a template and the paths made from
  them.  The operations track, untrack, remove, move and copy pages, and save the list as JSON.  Threads find out
  what is out of date, from times and hashes that the last build recorded, and build those pages with \<open>Parser::build\<close>.

  \<^bold>\<open>The theories.\<close>
  \<^item> \<open>Nift_Prelude\<close>: C character classes, \<open>find\<close>, \<open>substr\<close>, decimal printing, and the locale \<open>scan_loop\<close>
    of loops that move a cursor forward.
  \<^item> \<open>Nift_Core\<close>: \<open>types.hpp\<close>, \<open>str_fns.cpp\<close>, \<open>quoted.cpp\<close>.  \<open>Expected\<close> is the sum \<open>error + 'a\<close>.  The locale
    \<open>prefix_codec\<close> is the contract of a self-delimiting encoding; quoted strings are an instance.
  \<^item> \<open>Nift_Filesystem\<close>, \<open>Nift_Listing\<close>: \<open>path.cpp\<close>, \<open>filesystem.cpp\<close>, \<open>mmap_reader.cpp\<close>.  The disk is a map from path
    strings to files and directories, with two oracles for the opens that the system refuses.
  \<^item> \<open>Nift_Time\<close>: \<open>datetime.cpp\<close> and \<open>system_info.cpp\<close>, with the calendar of \<open>gmtime_r\<close>.
  \<^item> \<open>Nift_Lexer\<close>, \<open>Nift_Ast\<close>, \<open>Nift_Parser\<close>, \<open>Nift_Evaluator\<close>, \<open>Nift_Template\<close>: \<open>crates/parser\<close>, file by file;
    \<open>Nift_Template\<close> composes them as \<open>evaluate_template\<close> does and proves what templates render to.
  \<^item> \<open>Nift_Scanner\<close>: \<open>simd_scanner.cpp\<close>, with the lane masks of the SIMD library as a parameter.
  \<^item> \<open>Nift_Json\<close>, \<open>Nift_Project\<close>, \<open>Nift_Cache\<close>: \<open>crates/project\<close>.  \<open>Nift_Json\<close> is the value type of the JSON
    library; its parser and printers, and BLAKE3, are parameters with their documented laws.  The
    locales \<open>source_store\<close> and \<open>removable_store\<close> are the contract of the cache that the pipeline uses.
  \<^item> \<open>Nift_Pipeline\<close>: \<open>pipeline.cpp\<close>; a build is a fold of the tasks over a schedule.
  \<^item> \<open>Nift_Executor\<close>: \<open>executor.cpp\<close> and \<open>executor.hpp\<close>, a step relation over the workers and the calls of
    \<open>submit\<close>; each step is one atomic action of the C++ (a load, a locked queue access, a counter
    update, the run of a task).
  \<^item> \<open>Nift_Keywords\<close>, \<open>Nift_Highlight\<close>: \<open>crates/markdown/src/code_highlight.cpp\<close>, the tokenizers that colour
    code blocks.  The locales \<open>tokenizer\<close> and \<open>total_tokenizer\<close> are the contract of one step (it splits
    the code and makes progress), with an instance for each language.
  \<^item> \<open>Nift_Double\<close>, \<open>Nift_Expr\<close>: the IEEE doubles that the C++ standard library reads, computes with and
    prints, as integer significands and exponents; and \<open>crates/runtime/expr/expr.cpp\<close>, the expression
    evaluator, on top of them.
  \<^item> \<open>Nift_FrontMatter\<close>: \<open>crates/markdown/src/front_matter.cpp\<close>, the reader of YAML and JSON front matter.  The
    locale \<open>yaml_values\<close> is the contract of the values it builds, with an instance for totality and one
    for the type of the values.
  \<^item> \<open>Nift_Migrator\<close>: \<open>crates/compat\<close>, the reader of version 1 configurations and the migration.
  \<^item> \<open>Nift_Args\<close>, \<open>Nift_Commands\<close>: \<open>crates/cli\<close> and \<open>apps/nift/main.cpp\<close>: the parsed command line, and the
    commands as functions on the disk that compose the configuration, the cache and the pipeline.
  \<^item> \<open>Nift_Server\<close>: \<open>http_server.cpp\<close>, the paths of requests, the files they are answered with, the reload
    script and the reload clients.  \<open>Nift_Watcher\<close>: the polling watcher, and the tables and event handling of
    the one on inotify, with the watches that the kernel holds as a state of its own.  \<open>Nift_Serve\<close>: the command \<open>serve\<close>, which composes the two with the build.
  \<^item> \<open>Nift_Assets\<close>: \<open>server/assets/assets.cpp\<close>, the minifiers and the embedded files.
  \<^item> \<open>Nift_Shell\<close>, \<open>Nift_Images\<close>, \<open>Nift_Bundler\<close>: \<open>crates/images\<close> and \<open>crates/assets\<close>, which run tools through the shell;
    the shell is a parameter, and \<open>Nift_Shell\<close> has how it splits a command line.
  \<^item> \<open>Nift_Tailwind\<close>, \<open>Nift_Tailwind_Watcher\<close>: \<open>crates/tailwind\<close>: the files and commands it makes; and its watcher, a step
    relation of the calling thread, the watching thread, the forked shell and the tool below it.
  \<^item> \<open>Nift_Plugin\<close>: \<open>crates/plugin\<close>, plugins and their handles and strings, with the dynamic linker as a parameter.
  \<^item> \<open>Nift_Markdown\<close>: \<open>markdown.cpp\<close>, what the program does around the cmark library: its walks over the event
    sequence of a document.  \<open>Nift_Lua\<close>: the bridge to the Lua interpreter, a parameter.

  \<^item> \<open>Nift1_Text\<close>: \<open>legacy/NumFns.cpp\<close>, \<open>StrFns.cpp\<close>, \<open>Quoted.cpp\<close>, \<open>Filename.cpp\<close>, \<open>Title.cpp\<close>; a reader that does not
    come back or that throws is a value of its own.
  \<^item> \<open>Nift1_Path\<close>, \<open>Nift1_Files\<close>: \<open>legacy/Directory.cpp\<close>, \<open>Path.cpp\<close>, \<open>FileSystem.cpp\<close>.  The disk is a tree of places, with
    the operations that the system refuses as parameters of it.
  \<^item> \<open>Nift1_Tracking\<close>, \<open>Nift1_Json\<close>, \<open>Nift1_Status\<close>: \<open>legacy/ProjectInfo.cpp\<close>: the tracked pages, with the locale
    \<open>keyed_set\<close> of an ordered set; opening the list, over a JSON reader that understands the grammar
    \<open>json_text\<close>, and a small reader that does; the check of a page, its threads as steps, the hash, the modes.
  \<^item> \<open>Nift1_Build\<close>: \<open>Parser::build\<close>, \<open>build_thread\<close> and \<open>pagination_thread\<close>, over the interpreters as parameters.

  \<^bold>\<open>State.\<close>  A C++ class is a record (\<open>lexer\<close>, \<open>parser\<close>, \<open>ctx\<close>, \<open>build_cache\<close>, \<open>pipeline\<close>, \<open>pool\<close>), an enumeration
  or variant a datatype (\<open>token_type\<close>, \<open>node\<close>, \<open>eval_result\<close>, \<open>phase\<close>), and a method a function on the record.
  Machine integers are words where their width matters (the masks and the counters of the pool)
  and integers with the conversion written out elsewhere (\<open>stoi\<close>, the columns).  \<open>std::function\<close>
  handlers are a datatype of the handlers that are registered.

  \<^bold>\<open>Fuel.\<close>  The parser's productions and the evaluator recurse on a fuel argument.  \<open>parse_terminates\<close>
  shows that the parser's fuel, a bound computed from the number and length of the tokens, is
  enough for every input.  \<open>eval_terminates\<close> gives the evaluator's fuel for trees without
  user-defined functions; with them the program itself need not stop, which
  \<open>recursive_function_diverges\<close> shows.  The expression parser has the length of the text plus one as its fuel
  and the front matter reader the number of lines plus one; \<open>eval_expr_total\<close> and
  \<open>parse_front_matter_total\<close> show that they are enough.

  \<^bold>\<open>The lemmas.\<close>  Lexing accounts for every byte, loses none but the name before a double sign
  (\<open>suffix_overwrites_name\<close>), and never reads outside its input; parsing and evaluation
  return; evaluation only appends to the output; templates of each kind render to what the
  documentation promises, or to what the code does instead (\<open>continue_is_ignored\<close>,
  \<open>section_exit_loses_output\<close>, \<open>dollar_escape_kept\<close>); \<open>@while\<close> agrees with a big-step semantics of it, its limit
  included (\<open>while_limit\<close>); integer expressions and
  comparisons are exact although they are computed in doubles; front matter trees are read back
  from their text where the reader can hold them, as well-typed JSON; the scanner agrees with a
  filter; configuration and quoting round trip; the cache is saved atomically; a build accounts
  for every input, does not depend on the schedule and is served by the cache the second time;
  the pool loses no task, cannot deadlock and completes an orderly shutdown, and strands a task
  when \<open>submit\<close> and \<open>shutdown\<close> overlap; highlighting shows exactly the code it is given, for the
  languages where it does; a command line is read back as written; \<open>init\<close> leaves a project that
  loads, \<open>clean\<close> removes the outputs only, and \<open>migrate\<close> destroys nothing and keeps the configuration
  that \<open>build\<close> uses, except where the two commands look in different places.

  A build writes the text of every input it reports as built (\<open>build_output\<close>), and after a change that the
  watcher sees, \<open>serve\<close> answers with the new page (\<open>serve_fresh_page\<close>).  The server never leaves its root
  (\<open>served_file_contained\<close>); polling reports each change between two listings once, and nothing else
  (\<open>polling_reports\<close>); the inotify watcher knows the path of every watch that the kernel holds for it, but a renamed
  directory is lost (\<open>moved_directory_unwatched\<close>).  The minifiers agree with specifications by searching for comments; a style sheet is
  published under the hash of what is published (\<open>css_published\<close>); the images of a \<open>srcset\<close> are those that
  were made.  Plugin handles are opened and closed in balance.  The Tailwind watcher reaps the shell it forks, but
  can leave the tool below it running (\<open>shell_reaped\<close>, \<open>tool_left_running\<close>); a race in \<open>stop\<close> sends a signal to every
  process of the user (\<open>stop_kills_all\<close>).
  \<open>path_normalized_idem\<close> and \<open>iso8601_roundtrip\<close> are the laws of normalization and of dates.

  For Nift 1: the tracked pages are an ordered set under every operation; the saved list is read back; untracking takes away the
  page's products and nothing else, and so does moving where the new content is not in their place (\<open>mv_loses_content\<close> shows the loss
  otherwise); \<open>delDir\<close> removes a directory and nothing beside it on a disk without symbolic links; the
  threads, if there is one, come to an end and check every page in whatever order they run; and a page that was built is found up
  to date until one of its dependencies changes (\<open>build_then_check\<close>, under the conditions it lists).  The lemmas under Edge cases show where it goes wrong.

  \<^bold>\<open>Not modelled.\<close>  Third-party libraries (JSON, BLAKE3, xsimd, cmark, httplib, sol2 and Lua, the operating
  system and its shell) beyond the laws named; data races in the C++ sense (the pipeline's tasks are
  atomic in the model) and the waiting of the \<open>select\<close> loops; durations; the recursion depth of
  \<open>std::regex\<close>, which overflows the stack on long comments; \<open>Path::relative_to\<close> and \<open>hostname\<close>, which only ask the
  system; the tests.  A write to a file that could
  be opened succeeds as a whole; a full disk is not modelled.  The kernel's watches change between the steps of the
  inotify watcher, not within one.  Of Nift 1: symbolic links, which its disk does not have; the interpreters of its template languages, which are parameters of the build, and its
  shell; the setting and converting of configurations; the interleaving of builds in several threads (one thread
  is modelled, with the pages it takes); and the third-party code it carries along.
\<close>

end
